(* ===== verification/Gc_Prelude.thy ===== *)
theory Gc_Prelude
  imports Main "HOL-Library.Word"
begin

text \<open>
  Shared vocabulary of the development: bytes and fixed-width Rust integers, fixed-size byte
  arrays (\<open>[u8; N]\<close>), big-endian encodings (\<open>to_be_bytes\<close> / \<open>from_be_bytes\<close>), checked slice
  access (\<open>slice.get(a..b)\<close>), a reader over a byte suffix, and the \<open>Result\<close> plumbing of the
  question-mark operator, with the lemma collections that the component theories draw on.
\<close>

section \<open>Machine types\<close>

type_synonym byte = "8 word"
type_synonym u16 = "16 word"
type_synonym u32 = "32 word"
type_synonym u64 = "64 word"
type_synonym bytes = "byte list"

named_theorems codec "length, slicing and endianness facts for the wire codecs"

text \<open>A byte-string literal \<open>b"..."\<close>, and the bytes of an ASCII \<open>&str\<close>.\<close>

definition lit :: "string \<Rightarrow> bytes" where
  "lit s = map (\<lambda>c. of_nat (of_char c)) s"

lemma length_lit [simp, codec]: "length (lit s) = length s"
  by (simp add: lit_def)

lemma lit_Nil [simp]: "lit [] = []"
  by (simp add: lit_def)

lemma lit_append: "lit (s @ t) = lit s @ lit t"
  by (simp add: lit_def)

lemma of_nat_byte_eq_iff:
  assumes "n < 256" and "m < 256"
  shows "(of_nat n :: byte) = of_nat m \<longleftrightarrow> n = m"
proof
  assume "(of_nat n :: byte) = of_nat m"
  then have "unat (of_nat n :: byte) = unat (of_nat m :: byte)" by simp
  with assms show "n = m" by (simp add: unat_of_nat)
qed simp

lemma lit_inject [simp]: "lit s = lit t \<longleftrightarrow> s = t"
proof
  have inj: "inj (\<lambda>c::char. (of_nat (of_char c) :: byte))"
  proof (rule injI)
    fix c d :: char
    assume "(of_nat (of_char c) :: byte) = of_nat (of_char d)"
    then have "(of_char c :: nat) = of_char d"
      using of_nat_byte_eq_iff [of "of_char c" "of_char d"] by simp
    then show "c = d" by simp
  qed
  show "s = t" if "lit s = lit t"
    using that inj by (simp add: lit_def inj_map_eq_map)
qed simp

section \<open>Fixed-size byte arrays\<close>

text \<open>
  \<open>'n arr\<close> is Rust's \<open>[u8; N]\<close>: a byte list of length exactly \<open>N\<close>. \<open>arr_pad\<close> is the total
  constructor, \<open>arr_try\<close> is \<open>try_into\<close> on a slice, \<open>arr_fill\<close> is the array literal \<open>[b; N]\<close>.
\<close>

typedef (overloaded) 'n arr = "{xs :: bytes. length xs = LENGTH('n::len)}"
  morphisms list_of Arr
  by (rule exI [of _ "replicate LENGTH('n) 0"]) simp

definition arr_pad :: "bytes \<Rightarrow> 'n::len arr" where
  "arr_pad xs = Arr (take LENGTH('n) (xs @ replicate LENGTH('n) 0))"

definition arr_fill :: "byte \<Rightarrow> 'n::len arr" where
  "arr_fill b = Arr (replicate LENGTH('n) b)"

definition arr_try :: "bytes \<Rightarrow> 'n::len arr option" where
  "arr_try xs = (if length xs = LENGTH('n) then Some (arr_pad xs) else None)"

instantiation arr :: (len) equal
begin

definition equal_arr :: "'a arr \<Rightarrow> 'a arr \<Rightarrow> bool" where
  "equal_arr a b \<longleftrightarrow> list_of a = list_of b"

instance
  by standard (simp add: equal_arr_def list_of_inject)

end

lemma Arr_list_of [code abstype]: "Arr (list_of a) = a"
  by (rule list_of_inverse)

lemma length_list_of [simp, codec]: "length (list_of (a :: 'n::len arr)) = LENGTH('n)"
  using list_of [of a] by simp

lemma list_of_arr_pad_eq [code abstract]:
  "list_of (arr_pad xs :: 'n::len arr) = take LENGTH('n) (xs @ replicate LENGTH('n) 0)"
  by (simp add: arr_pad_def Arr_inverse)

lemma list_of_arr_fill [code abstract]:
  "list_of (arr_fill b :: 'n::len arr) = replicate LENGTH('n) b"
  by (simp add: arr_fill_def Arr_inverse)

lemma list_of_inj [simp]: "list_of a = list_of b \<longleftrightarrow> a = b"
  by (rule list_of_inject)

lemma list_of_arr_pad [simp, codec]:
  "length xs = LENGTH('n::len) \<Longrightarrow> list_of (arr_pad xs :: 'n arr) = xs"
  by (simp add: list_of_arr_pad_eq)

lemma arr_pad_list_of [simp, codec]: "arr_pad (list_of a) = a"
  by (simp add: list_of_inject [symmetric] del: list_of_inj)

lemma arr_try_list_of [simp, codec]: "arr_try (list_of a) = Some a"
  by (simp add: arr_try_def)

lemma arr_try_eq_Some [simp]: "arr_try xs = Some a \<longleftrightarrow> xs = list_of a"
  by (auto simp: arr_try_def)

lemma arr_fill_inject [simp]: "arr_fill a = (arr_fill b :: 'n::len arr) \<longleftrightarrow> a = b"
proof -
  have "replicate LENGTH('n) a = replicate LENGTH('n) b \<longleftrightarrow> a = b" by (simp add: len_not_eq_0)
  then show ?thesis by (simp add: list_of_inject [symmetric] list_of_arr_fill del: list_of_inj)
qed

section \<open>Big-endian integers\<close>

fun to_be :: "nat \<Rightarrow> nat \<Rightarrow> bytes" where
  "to_be 0 n = []"
| "to_be (Suc k) n = to_be k (n div 256) @ [of_nat n]"

definition of_be :: "bytes \<Rightarrow> nat" where
  "of_be bs = foldl (\<lambda>acc b. acc * 256 + unat b) 0 bs"

lemma of_be_Nil [simp]: "of_be [] = 0"
  by (simp add: of_be_def)

lemma of_be_snoc [simp]: "of_be (bs @ [b]) = of_be bs * 256 + unat b"
  by (simp add: of_be_def)

lemma length_to_be [simp, codec]: "length (to_be k n) = k"
  by (induction k arbitrary: n) auto

lemma unat_byte_less: "unat (b :: byte) < 256"
  using unsigned_less [of b, where 'a = nat] by simp

lemma of_be_less: "of_be bs < 256 ^ length bs"
proof (induction bs rule: rev_induct)
  case (snoc b bs)
  have "unat b < 256" by (rule unat_byte_less)
  with snoc.IH show ?case by simp
qed simp

lemma of_be_to_be: "of_be (to_be k n) = n mod 256 ^ k"
proof (induction k arbitrary: n)
  case (Suc k)
  have "n mod 256 ^ Suc k = 256 * (n div 256 mod 256 ^ k) + n mod 256"
    by (simp add: mod_mult2_eq [of n 256 "256 ^ k", symmetric])
  with Suc.IH show ?case by (simp add: unat_of_nat)
qed simp

lemma to_be_of_be: "length bs = k \<Longrightarrow> to_be k (of_be bs) = bs"
proof (induction bs arbitrary: k rule: rev_induct)
  case (snoc b bs)
  then obtain j where k: "k = Suc j" and j: "length bs = j" by (cases k) auto
  have b: "unat b < 256" by (rule unat_byte_less)
  then have "(of_be bs * 256 + unat b) div 256 = of_be bs" by simp
  moreover have "(of_nat (of_be bs * 256 + unat b) :: byte) = b"
  proof -
    have z: "(256 :: byte) = 0" by simp
    have "(of_nat (of_be bs * 256 + unat b) :: byte) = of_nat (of_be bs) * 256 + b"
      by (simp only: of_nat_add of_nat_mult of_nat_numeral of_nat_unat ucast_id)
    also have "\<dots> = b" by (subst z) simp
    finally show ?thesis .
  qed
  ultimately show ?case using snoc.IH [OF j] k by simp
qed simp

definition be16 :: "u16 \<Rightarrow> bytes" where "be16 w = to_be 2 (unat w)"
definition be32 :: "u32 \<Rightarrow> bytes" where "be32 w = to_be 4 (unat w)"
definition be64 :: "u64 \<Rightarrow> bytes" where "be64 w = to_be 8 (unat w)"
definition de16 :: "bytes \<Rightarrow> u16" where "de16 bs = of_nat (of_be bs)"
definition de32 :: "bytes \<Rightarrow> u32" where "de32 bs = of_nat (of_be bs)"
definition de64 :: "bytes \<Rightarrow> u64" where "de64 bs = of_nat (of_be bs)"

lemmas be_defs = be16_def be32_def be64_def
lemmas de_defs = de16_def de32_def de64_def

lemma length_be [simp, codec]:
  "length (be16 a) = 2" "length (be32 b) = 4" "length (be64 c) = 8"
  by (simp_all add: be_defs)

lemma of_be_unat:
  fixes w :: "'a::len word"
  assumes "256 ^ k = (2 :: nat) ^ LENGTH('a)"
  shows "of_be (to_be k (unat w)) = unat w"
  using unsigned_less [of w, where 'a = nat] assms by (simp add: of_be_to_be)

lemma de_be [simp, codec]:
  "de16 (be16 a) = a" "de32 (be32 b) = b" "de64 (be64 c) = c"
  by (simp_all add: be_defs de_defs of_be_unat)

lemma unat_of_nat_of_be:
  fixes bs :: bytes
  assumes "256 ^ length bs = (2 :: nat) ^ LENGTH('a::len)"
  shows "unat (of_nat (of_be bs) :: 'a word) = of_be bs"
  using of_be_less [of bs] assms by (simp add: unat_of_nat)

lemma be_de [codec]:
  "length bs = 2 \<Longrightarrow> be16 (de16 bs) = bs"
  "length bs = 4 \<Longrightarrow> be32 (de32 bs) = bs"
  "length bs = 8 \<Longrightarrow> be64 (de64 bs) = bs"
  by (simp_all add: be_defs de_defs unat_of_nat_of_be to_be_of_be)

lemma be_inject [simp]:
  "be16 a = be16 a' \<longleftrightarrow> a = a'" "be32 b = be32 b' \<longleftrightarrow> b = b'" "be64 c = be64 c' \<longleftrightarrow> c = c'"
  by (metis de_be(1), metis de_be(2), metis de_be(3))

lemma unat_of_nat_u16 [codec]: "n < 65536 \<Longrightarrow> unat (of_nat n :: u16) = n"
  by (simp add: unat_of_nat)

lemma unat_of_nat_u32 [codec]: "n < 4294967296 \<Longrightarrow> unat (of_nat n :: u32) = n"
  by (simp add: unat_of_nat)

section \<open>Slices and readers\<close>

text \<open>
  \<open>get_range bs a b\<close> is \<open>bs.get(a..b)\<close>; \<open>sub_list bs a b\<close> is \<open>bs[a..b]\<close> after the code has
  checked the bounds. \<open>rd n\<close> is the cursor idiom \<open>bytes.get(p..p + n)?; p += n\<close>, with the
  input represented by the suffix that starts at the cursor.
\<close>

definition sub_list :: "'a list \<Rightarrow> nat \<Rightarrow> nat \<Rightarrow> 'a list" where
  "sub_list bs a b = take (b - a) (drop a bs)"

definition get_range :: "'a list \<Rightarrow> nat \<Rightarrow> nat \<Rightarrow> 'a list option" where
  "get_range bs a b = (if a \<le> b \<and> b \<le> length bs then Some (sub_list bs a b) else None)"

definition rd :: "nat \<Rightarrow> 'a list \<Rightarrow> ('a list \<times> 'a list) option" where
  "rd n bs = (if n \<le> length bs then Some (take n bs, drop n bs) else None)"

lemma rd_append [simp, codec]: "length xs = n \<Longrightarrow> rd n (xs @ ys) = Some (xs, ys)"
  by (simp add: rd_def)

lemma rd_eq_Some [simp]: "rd n bs = Some (xs, ys) \<longleftrightarrow> bs = xs @ ys \<and> length xs = n"
  by (auto simp: rd_def)

lemma sub_list_append_left [codec]:
  "b \<le> length xs \<Longrightarrow> sub_list (xs @ ys) a b = sub_list xs a b"
  by (simp add: sub_list_def)

lemma sub_list_append_right [codec]:
  "length xs \<le> a \<Longrightarrow> sub_list (xs @ ys) a b = sub_list ys (a - length xs) (b - length xs)"
  by (simp add: sub_list_def)

lemma sub_list_all [codec]: "length xs \<le> b \<Longrightarrow> sub_list xs 0 b = xs"
  by (simp add: sub_list_def)

lemma sub_list_drop [codec]: "a \<le> b \<Longrightarrow> sub_list xs a b @ drop b xs = drop a xs"
proof -
  assume "a \<le> b"
  then have "drop b xs = drop (b - a) (drop a xs)" by simp
  then show ?thesis by (simp only: sub_list_def append_take_drop_id)
qed

lemma sub_list_join:
  assumes "a \<le> b" and "b \<le> c"
  shows "sub_list xs a b @ sub_list xs b c = sub_list xs a c"
proof -
  have "sub_list xs a c = take ((b - a) + (c - b)) (drop a xs)" using assms by (simp add: sub_list_def)
  also have "\<dots> = sub_list xs a b @ take (c - b) (drop (b - a) (drop a xs))" by (simp only: take_add sub_list_def)
  finally show ?thesis using assms by (simp add: sub_list_def)
qed

lemma sub_list_take: "sub_list xs 0 b = take b xs"
  by (simp add: sub_list_def)

lemma drop_2_Cons: "2 \<le> length xs \<Longrightarrow> [xs ! 0, xs ! 1] @ drop 2 xs = xs"
  by (cases xs; cases "tl xs") auto

lemma length_sub_list [simp, codec]: "length (sub_list xs a b) = min (b - a) (length xs - a)"
  by (simp add: sub_list_def)

text \<open>\<open>iter().position(p)\<close>, the index of the first match.\<close>

fun position :: "('a \<Rightarrow> bool) \<Rightarrow> 'a list \<Rightarrow> nat option" where
  "position P [] = None"
| "position P (x # xs) = (if P x then Some 0 else map_option Suc (position P xs))"

text \<open>\<open>remove_nth i xs\<close> is \<open>xs.remove(i)\<close> for an index in range.\<close>

definition remove_nth :: "nat \<Rightarrow> 'a list \<Rightarrow> 'a list" where
  "remove_nth i xs = take i xs @ drop (Suc i) xs"

lemma position_None: "position P xs = None \<longleftrightarrow> (\<forall>x\<in>set xs. \<not> P x)"
  by (induction xs) auto

lemma position_SomeD: "position P xs = Some i \<Longrightarrow> i < length xs \<and> P (xs ! i)"
  by (induction xs arbitrary: i) (auto split: if_splits)

lemma position_append [simp]:
  "\<forall>y\<in>set ys. \<not> P y \<Longrightarrow> P x \<Longrightarrow> position P (ys @ x # zs) = Some (length ys)"
  by (induction ys) auto

lemma position_SomeE:
  assumes "position P xs = Some i"
  obtains ys x zs where "xs = ys @ x # zs" "length ys = i" "P x" "\<forall>y\<in>set ys. \<not> P y"
  using assms
proof (induction xs arbitrary: i thesis)
  case (Cons a xs)
  show ?case
  proof (cases "P a")
    case True
    with Cons.prems show ?thesis using Cons.prems(1) [of "[]" a xs] by auto
  next
    case False
    with Cons.prems(2) obtain j where j: "i = Suc j" "position P xs = Some j" by auto
    from Cons.IH [OF _ j(2)] obtain ys x zs
      where "xs = ys @ x # zs" "length ys = j" "P x" "\<forall>y\<in>set ys. \<not> P y" by blast
    with Cons.prems(1) [of "a # ys" x zs] False j(1) show ?thesis by simp
  qed
qed simp

lemma remove_nth_middle [simp]: "remove_nth (length ys) (ys @ x # zs) = ys @ zs"
  by (simp add: remove_nth_def)

lemma length_remove_nth [simp]: "i < length xs \<Longrightarrow> length (remove_nth i xs) = length xs - 1"
  by (simp add: remove_nth_def)

lemma remove_nth_0 [simp]: "remove_nth 0 xs = tl xs"
  by (simp add: remove_nth_def drop_Suc)

lemma map_of_middle:
  "k \<notin> fst ` set ys \<Longrightarrow> map_of (ys @ (k, v) # zs) = (map_of (ys @ zs))(k \<mapsto> v)"
  by (induction ys) (auto simp: fun_eq_iff)

lemma map_of_snoc: "k \<notin> fst ` set ys \<Longrightarrow> map_of (ys @ [(k, v)]) = (map_of ys)(k \<mapsto> v)"
  using map_of_middle [of k ys v "[]"] by simp

section \<open>Results\<close>

text \<open>\<open>'e + 'a\<close> is \<open>Result<'a, 'e>\<close>, \<open>rbind m f\<close> is \<open>f(m?)\<close>, \<open>ok_or e x\<close> is \<open>x.ok_or(e)\<close> and
  \<open>reject b e k\<close> is the early return \<open>if b { return Err(e) }\<close> before \<open>k\<close>.\<close>

definition rbind :: "'e + 'a \<Rightarrow> ('a \<Rightarrow> 'e + 'b) \<Rightarrow> 'e + 'b" where
  "rbind m f = (case m of Inl e \<Rightarrow> Inl e | Inr x \<Rightarrow> f x)"

definition ok_or :: "'e \<Rightarrow> 'a option \<Rightarrow> 'e + 'a" where
  "ok_or e x = (case x of None \<Rightarrow> Inl e | Some a \<Rightarrow> Inr a)"

definition reject :: "bool \<Rightarrow> 'e \<Rightarrow> 'e + 'a \<Rightarrow> 'e + 'a" where
  "reject b e k = (if b then Inl e else k)"

definition map_err :: "('e \<Rightarrow> 'f) \<Rightarrow> 'e + 'a \<Rightarrow> 'f + 'a" where
  "map_err g m = (case m of Inl e \<Rightarrow> Inl (g e) | Inr x \<Rightarrow> Inr x)"

definition is_ok :: "'e + 'a \<Rightarrow> bool" where
  "is_ok m = (case m of Inl _ \<Rightarrow> False | Inr _ \<Rightarrow> True)"

lemma rbind_simps [simp]: "rbind (Inl e) f = Inl e" "rbind (Inr x) f = f x"
  by (simp_all add: rbind_def)

lemma rbind_eq_Inr [simp]: "rbind m f = Inr y \<longleftrightarrow> (\<exists>x. m = Inr x \<and> f x = Inr y)"
  by (cases m) auto

lemma rbind_eq_Inl: "rbind m f = Inl e \<longleftrightarrow> m = Inl e \<or> (\<exists>x. m = Inr x \<and> f x = Inl e)"
  by (cases m) auto

lemma rbind_cong [fundef_cong]:
  "m = m' \<Longrightarrow> (\<And>x. m' = Inr x \<Longrightarrow> f x = f' x) \<Longrightarrow> rbind m f = rbind m' f'"
  by (cases m') auto

lemma ok_or_simps [simp]: "ok_or e None = Inl e" "ok_or e (Some x) = Inr x"
  by (simp_all add: ok_or_def)

lemma ok_or_eq_Inr [simp]: "ok_or e x = Inr y \<longleftrightarrow> x = Some y"
  by (cases x) auto

lemma ok_or_eq_Inl [simp]: "ok_or e x = Inl e' \<longleftrightarrow> x = None \<and> e' = e"
  by (cases x) auto

lemma reject_simps [simp]: "reject True e k = Inl e" "reject False e k = k"
  by (simp_all add: reject_def)

lemma reject_eq_Inr [simp]: "reject b e k = Inr y \<longleftrightarrow> \<not> b \<and> k = Inr y"
  by (simp add: reject_def)

lemma reject_eq_Inl: "reject b e k = Inl e' \<longleftrightarrow> (b \<and> e' = e) \<or> (\<not> b \<and> k = Inl e')"
  by (auto simp: reject_def)

lemma reject_cong [fundef_cong]:
  "b = b' \<Longrightarrow> e = e' \<Longrightarrow> (\<not> b' \<Longrightarrow> k = k') \<Longrightarrow> reject b e k = reject b' e' k'"
  by (simp add: reject_def)

lemma map_err_simps [simp]: "map_err g (Inl e) = Inl (g e)" "map_err g (Inr x) = Inr x"
  by (simp_all add: map_err_def)

lemma map_err_eq_Inr [simp]: "map_err g m = Inr y \<longleftrightarrow> m = Inr y"
  by (cases m) auto

lemma is_ok_simps [simp]: "\<not> is_ok (Inl e)" "is_ok (Inr x)"
  by (simp_all add: is_ok_def)

lemma is_ok_iff: "is_ok m \<longleftrightarrow> (\<exists>x. m = Inr x)"
  by (cases m) auto

section \<open>Ordered maps\<close>

text \<open>
  \<open>BTreeMap\<close> as the list of its entries in key order. Lookup is \<open>map_of\<close>, \<open>retain\<close> is
  \<open>filter\<close>, \<open>last_entry\<close> is \<open>last\<close> and iteration follows the list.
\<close>

fun bt_insert :: "'k::linorder \<Rightarrow> 'v \<Rightarrow> ('k \<times> 'v) list \<Rightarrow> ('k \<times> 'v) list" where
  "bt_insert k v [] = [(k, v)]"
| "bt_insert k v ((k', v') # m) =
     (if k < k' then (k, v) # (k', v') # m
      else if k = k' then (k, v) # m
      else (k', v') # bt_insert k v m)"

definition bt_ok :: "('k::linorder \<times> 'v) list \<Rightarrow> bool" where
  "bt_ok m \<longleftrightarrow> sorted_wrt (<) (map fst m)"

lemma bt_ok_simps [simp]:
  "bt_ok []" "bt_ok ((k, v) # m) \<longleftrightarrow> (\<forall>p \<in> set m. k < fst p) \<and> bt_ok m"
  by (auto simp: bt_ok_def)

lemma bt_ok_distinct: "bt_ok m \<Longrightarrow> distinct (map fst m)"
  by (simp add: bt_ok_def strict_sorted_iff)

lemma bt_ok_filter: "bt_ok m \<Longrightarrow> bt_ok (filter P m)"
  by (induction m) auto

lemma set_bt_insert:
  "bt_ok m \<Longrightarrow> set (bt_insert k v m) = insert (k, v) {p \<in> set m. fst p \<noteq> k}"
proof (induction m)
  case (Cons p m)
  then show ?case by (cases p) (auto dest: less_trans)
qed simp

lemma bt_ok_insert: "bt_ok m \<Longrightarrow> bt_ok (bt_insert k v m)"
proof (induction m)
  case (Cons p m)
  then show ?case by (cases p) (auto simp: set_bt_insert dest: less_trans)
qed simp

lemma map_of_bt_insert: "bt_ok m \<Longrightarrow> map_of (bt_insert k v m) = (map_of m)(k \<mapsto> v)"
  by (induction m) auto

lemma keys_bt_insert: "fst ` set (bt_insert k v m) = insert k (fst ` set m)"
proof (induction m)
  case (Cons p m)
  then show ?case by (cases p) (simp add: insert_commute)
qed simp

lemma bt_insert_last: "\<forall>p \<in> set m. fst p < k \<Longrightarrow> bt_insert k v m = m @ [(k, v)]"
proof (induction m)
  case (Cons p m)
  then show ?case by (cases p) (auto dest: less_asym)
qed simp

lemma bt_ok_map_of: "bt_ok m \<Longrightarrow> map_of m k = Some v \<longleftrightarrow> (k, v) \<in> set m"
  using bt_ok_distinct by (metis map_of_eq_Some_iff)

lemma bt_ok_last: "bt_ok m \<Longrightarrow> p \<in> set m \<Longrightarrow> fst p \<le> fst (last m)"
  by (induction m) (auto simp: less_imp_le)

section \<open>Components as state machines\<close>

text \<open>
  A component is driven by a sequence of operations; a step that does not return (divergence or
  panic) is \<open>None\<close>. The contract every stateful component of this development provides: from a
  state that satisfies its invariant each operation returns and re-establishes the invariant.
\<close>

fun run_ops :: "('op \<Rightarrow> 's \<Rightarrow> 's option) \<Rightarrow> 'op list \<Rightarrow> 's \<Rightarrow> 's option" where
  "run_ops step [] s = Some s"
| "run_ops step (x # xs) s = Option.bind (step x s) (run_ops step xs)"

locale invariant_machine =
  fixes step :: "'op \<Rightarrow> 's \<Rightarrow> 's option"
    and inv :: "'s \<Rightarrow> bool"
  assumes step_returns: "inv s \<Longrightarrow> \<exists>s'. step x s = Some s' \<and> inv s'"
begin

lemma run_returns: "inv s \<Longrightarrow> \<exists>s'. run_ops step xs s = Some s' \<and> inv s'"
proof (induction xs arbitrary: s)
  case (Cons x xs)
  from step_returns [OF Cons.prems, of x] obtain s' where "step x s = Some s'" "inv s'" by blast
  with Cons.IH [of s'] show ?case by simp
qed simp

lemma run_inv: "inv s \<Longrightarrow> run_ops step xs s = Some s' \<Longrightarrow> inv s'"
  using run_returns [of s xs] by auto

end

text \<open>
  A component with a counter of machine width: its operations return as long as the counter has not
  reached its bound, and an operation advances the counter by at most one.
\<close>

locale metered_machine =
  fixes step :: "'op \<Rightarrow> 's \<Rightarrow> 's option"
    and inv :: "'s \<Rightarrow> bool"
    and meter :: "'s \<Rightarrow> nat"
    and bound :: nat
  assumes step_returns: "inv s \<Longrightarrow> meter s < bound \<Longrightarrow> \<exists>s'. step x s = Some s' \<and> inv s' \<and> meter s' \<le> Suc (meter s)"
begin

lemma metered_run_returns: "inv s \<Longrightarrow> meter s + length xs \<le> bound \<Longrightarrow> \<exists>s'. run_ops step xs s = Some s' \<and> inv s'"
proof (induction xs arbitrary: s)
  case (Cons x xs)
  then have "meter s < bound" by simp
  from step_returns [OF Cons.prems(1) this, of x] obtain s' where s': "step x s = Some s'" "inv s'" "meter s' \<le> Suc (meter s)" by blast
  then have "meter s' + length xs \<le> bound" using Cons.prems(2) by simp
  with Cons.IH [OF s'(2)] s'(1) show ?case by simp
qed simp

end

text \<open>
  A wire codec: what the encoder produces for a valid value decodes to that value, and every
  buffer the decoder accepts is the encoding of a valid value.
\<close>

locale canonical_codec =
  fixes enc :: "'a \<Rightarrow> bytes"
    and dec :: "bytes \<Rightarrow> 'e + 'a"
    and valid :: "'a \<Rightarrow> bool"
  assumes dec_enc: "valid x \<Longrightarrow> dec (enc x) = Inr x"
    and dec_valid: "dec w = Inr x \<Longrightarrow> valid x"
    and enc_dec: "dec w = Inr x \<Longrightarrow> enc x = w"
begin

lemma dec_iff: "dec w = Inr x \<longleftrightarrow> valid x \<and> w = enc x"
  using dec_enc dec_valid enc_dec by blast

lemma dec_unique: "dec w = Inr x \<Longrightarrow> dec w' = Inr x \<Longrightarrow> w = w'"
  by (auto simp: dec_iff)

lemma enc_inject: "valid x \<Longrightarrow> valid y \<Longrightarrow> enc x = enc y \<longleftrightarrow> x = y"
  using dec_enc by (metis sum.inject(2))

end

end
