(* ===== verification/Cells.thy ===== *)
theory Cells
  imports Gc_Prelude
begin

text \<open>
  The wire cells of \<open>crates/core\<close>: the padded GC/1 cell of \<open>cell.rs\<close>, the natural GC/2 cell of
  \<open>gc2.rs\<close>, the in-band hop status of \<open>hop.rs\<close> and the traffic class of \<open>traffic.rs\<close>. The
  lemmas show that both codecs are exact inverses on what they accept (no two buffers decode to
  one cell), that neither version accepts the other's wire form, and that every GC/1 wire buffer
  has one of two lengths whatever the payload.
\<close>

unbundle bit_operations_syntax

section \<open>Nibbles of the first header byte\<close>

lemma and_15: "(x :: byte) AND 15 = take_bit 4 x"
  by (simp add: take_bit_eq_mask mask_eq_exp_minus_1)

lemma drop_bit_4_nibbles:
  "drop_bit 4 (push_bit 4 (take_bit 4 v) OR take_bit 4 t :: byte) = take_bit 4 v"
  by (rule bit_word_eqI) (auto simp: bit_simps)

lemma take_bit_4_nibbles: "take_bit 4 (push_bit 4 v OR take_bit 4 t :: byte) = take_bit 4 t"
  by (rule bit_word_eqI) (auto simp: bit_simps)

lemma nibbles_join: "push_bit 4 (drop_bit 4 b) OR take_bit 4 b = (b :: byte)"
  by (rule bit_word_eqI) (auto simp: bit_simps)

lemma take_bit_4_drop_bit_4: "take_bit 4 (drop_bit 4 b) = drop_bit 4 (b :: byte)"
  by (rule bit_word_eqI) (auto simp: bit_simps dest: bit_imp_le_length)

section \<open>Cell types and buckets\<close>

definition PROTOCOL_VERSION :: byte where "PROTOCOL_VERSION = 1"
definition HEADER_LEN :: nat where "HEADER_LEN = 6"
definition F_MORE :: byte where "F_MORE = 1"
definition F_LAST :: byte where "F_LAST = 2"
definition MAX_MESSAGE :: nat where "MAX_MESSAGE = 15 * 1024"
definition APPLICATION_PAYLOAD_LIMIT :: nat where
  "APPLICATION_PAYLOAD_LIMIT = MAX_MESSAGE - 3 * 1024"

lemmas cell_consts = PROTOCOL_VERSION_def HEADER_LEN_def F_MORE_def F_LAST_def MAX_MESSAGE_def

datatype cell_type =
  Cover | Hello | Msg | CtrlAlias | Presence | Pex | RelaySub | RelayPush | Frwd | Ack

datatype cell_class = Hop | E2e | SessionClass

text \<open>The discriminant \<open>self as u8\<close> of the \<open>repr(u8)\<close> enum.\<close>

fun cell_type_raw :: "cell_type \<Rightarrow> byte" where
  "cell_type_raw Cover = 0"
| "cell_type_raw Hello = 1"
| "cell_type_raw Msg = 2"
| "cell_type_raw CtrlAlias = 3"
| "cell_type_raw Presence = 4"
| "cell_type_raw Pex = 5"
| "cell_type_raw RelaySub = 6"
| "cell_type_raw RelayPush = 7"
| "cell_type_raw Frwd = 8"
| "cell_type_raw Ack = 9"

definition cell_type_from_raw :: "byte \<Rightarrow> cell_type option" where
  "cell_type_from_raw raw =
     (if raw = 0 then Some Cover
      else if raw = 1 then Some Hello
      else if raw = 2 then Some Msg
      else if raw = 3 then Some CtrlAlias
      else if raw = 4 then Some Presence
      else if raw = 5 then Some Pex
      else if raw = 6 then Some RelaySub
      else if raw = 7 then Some RelayPush
      else if raw = 8 then Some Frwd
      else if raw = 9 then Some Ack
      else None)"

fun cell_type_class :: "cell_type \<Rightarrow> cell_class" where
  "cell_type_class Cover = Hop"
| "cell_type_class Pex = Hop"
| "cell_type_class RelaySub = Hop"
| "cell_type_class RelayPush = Hop"
| "cell_type_class Frwd = Hop"
| "cell_type_class Msg = E2e"
| "cell_type_class CtrlAlias = E2e"
| "cell_type_class Presence = E2e"
| "cell_type_class Ack = E2e"
| "cell_type_class Hello = SessionClass"

lemma cell_type_from_raw_raw [simp]: "cell_type_from_raw (cell_type_raw t) = Some t"
  by (cases t) (simp_all add: cell_type_from_raw_def)

lemma cell_type_from_raw_Some:
  "cell_type_from_raw r = Some t \<longleftrightarrow> r = cell_type_raw t"
  by (cases t) (auto simp: cell_type_from_raw_def split: if_splits)

lemma cell_type_raw_nibble [simp]: "take_bit 4 (cell_type_raw t) = cell_type_raw t"
  by (cases t) simp_all

datatype bucket = B0 | B1 | B2 | B3

fun bucket_size :: "bucket \<Rightarrow> nat" where
  "bucket_size B0 = 256"
| "bucket_size B1 = 1024"
| "bucket_size B2 = 4096"
| "bucket_size B3 = 16384"

definition max_payload :: "bucket \<Rightarrow> nat" where
  "max_payload b = bucket_size b - HEADER_LEN"

definition bucket_from_len :: "nat \<Rightarrow> bucket option" where
  "bucket_from_len len =
     (if len = 256 then Some B0
      else if len = 1024 then Some B1
      else if len = 4096 then Some B2
      else if len = 16384 then Some B3
      else None)"

definition smallest_for :: "nat \<Rightarrow> bucket option" where
  "smallest_for payload_len =
     (if payload_len \<le> 250 then Some B0
      else if payload_len \<le> 1018 then Some B1
      else if payload_len \<le> 4090 then Some B2
      else if payload_len \<le> 16378 then Some B3
      else None)"

fun wire_bucket :: "bucket \<Rightarrow> bucket" where
  "wire_bucket B3 = B3"
| "wire_bucket b = B2"

lemma bucket_from_len_Some: "bucket_from_len n = Some b \<longleftrightarrow> n = bucket_size b"
  by (cases b) (auto simp: bucket_from_len_def split: if_splits)

lemma bucket_size_ge: "256 \<le> bucket_size b"
  by (cases b) simp_all

lemma max_payload_bounds: "max_payload b \<le> 16378" "bucket_size b = 6 + max_payload b"
  by (cases b; simp add: max_payload_def HEADER_LEN_def)+

section \<open>The padded GC/1 cell\<close>

datatype cell_error =
    BadVersion byte
  | BadLength nat
  | LengthMismatch u16 nat
  | NotPadded nat
  | ReservedType byte
  | PayloadTooLarge nat bucket

record cell =
  c_version :: byte
  c_raw_type :: byte
  c_flags :: byte
  c_round_ctr :: u16
  c_payload :: bytes

definition cell_new :: "cell_type \<Rightarrow> byte \<Rightarrow> u16 \<Rightarrow> bytes \<Rightarrow> cell" where
  "cell_new t fl ctr p =
     \<lparr>c_version = PROTOCOL_VERSION, c_raw_type = cell_type_raw t, c_flags = fl,
      c_round_ctr = ctr, c_payload = p\<rparr>"

definition cell_type_of :: "cell \<Rightarrow> cell_type option" where
  "cell_type_of c = cell_type_from_raw (c_raw_type c)"

definition is_fragment_continuation :: "cell \<Rightarrow> bool" where
  "is_fragment_continuation c \<longleftrightarrow> c_flags c AND F_MORE \<noteq> 0"

definition is_fragment_last :: "cell \<Rightarrow> bool" where
  "is_fragment_last c \<longleftrightarrow> c_flags c AND F_LAST \<noteq> 0"

definition encode :: "cell \<Rightarrow> bucket \<Rightarrow> cell_error + bytes" where
  "encode c b =
     reject (c_version c AND 15 \<noteq> PROTOCOL_VERSION) (BadVersion (c_version c AND 15))
     (reject (c_raw_type c AND 15 \<noteq> c_raw_type c) (ReservedType (c_raw_type c))
     (reject (max_payload b < length (c_payload c)) (PayloadTooLarge (length (c_payload c)) b)
     (Inr ([push_bit 4 (c_version c AND 15) OR (c_raw_type c AND 15), c_flags c]
           @ be16 (c_round_ctr c)
           @ be16 (of_nat (length (c_payload c)))
           @ c_payload c
           @ replicate (bucket_size b - (HEADER_LEN + length (c_payload c))) 0))))"

definition encode_auto :: "cell \<Rightarrow> cell_error + bytes" where
  "encode_auto c =
     rbind (ok_or (PayloadTooLarge (length (c_payload c)) B3)
              (smallest_for (length (c_payload c))))
       (encode c)"

definition encode_wire :: "cell \<Rightarrow> cell_error + bytes" where
  "encode_wire c =
     rbind (ok_or (PayloadTooLarge (length (c_payload c)) B3)
              (smallest_for (length (c_payload c))))
       (\<lambda>b. encode c (wire_bucket b))"

text \<open>Index of the first non-zero byte, the padding scan of \<open>decode\<close>.\<close>

fun first_nonzero :: "bytes \<Rightarrow> nat option" where
  "first_nonzero [] = None"
| "first_nonzero (b # bs) = (if b \<noteq> 0 then Some 0 else map_option Suc (first_nonzero bs))"

definition decode :: "bytes \<Rightarrow> cell_error + cell" where
  "decode buf =
     rbind (ok_or (BadLength (length buf)) (bucket_from_len (length buf))) (\<lambda>b.
     let version = drop_bit 4 (buf ! 0);
         raw_type = buf ! 0 AND 15;
         declared = unat (de16 (sub_list buf 4 6))
     in reject (version \<noteq> PROTOCOL_VERSION) (BadVersion version)
        (reject (cell_type_from_raw raw_type = None) (ReservedType raw_type)
        (reject (max_payload b < declared) (LengthMismatch (of_nat declared) (max_payload b))
        (case first_nonzero (drop (HEADER_LEN + declared) buf) of
           Some i \<Rightarrow> Inl (NotPadded (HEADER_LEN + declared + i))
         | None \<Rightarrow>
             Inr \<lparr>c_version = version, c_raw_type = raw_type, c_flags = buf ! 1,
                  c_round_ctr = de16 (sub_list buf 2 4),
                  c_payload = sub_list buf HEADER_LEN (HEADER_LEN + declared)\<rparr>))))"

lemma first_nonzero_None: "first_nonzero bs = None \<longleftrightarrow> bs = replicate (length bs) 0"
  by (induction bs) auto

text \<open>What \<open>decode\<close> accepts, and what \<open>encode\<close> can represent so that \<open>decode\<close> reads it back.\<close>

definition cell_ok :: "cell \<Rightarrow> bool" where
  "cell_ok c \<longleftrightarrow> c_version c = PROTOCOL_VERSION \<and> cell_type_of c \<noteq> None"

lemma cell_new_ok [simp]: "cell_ok (cell_new t fl ctr p)"
  by (simp add: cell_ok_def cell_new_def cell_type_of_def)

lemma cell_okE:
  assumes "cell_ok c"
  obtains t where "c_version c = 1" "c_raw_type c = cell_type_raw t"
    "take_bit 4 (c_raw_type c) = c_raw_type c"
  using assms by (auto simp: cell_ok_def cell_type_of_def PROTOCOL_VERSION_def
      cell_type_from_raw_Some)

lemma encode_eq:
  assumes "cell_ok c" and "length (c_payload c) \<le> max_payload b"
  shows "encode c b = Inr ([push_bit 4 1 OR c_raw_type c, c_flags c] @ be16 (c_round_ctr c)
           @ be16 (of_nat (length (c_payload c))) @ c_payload c
           @ replicate (max_payload b - length (c_payload c)) 0)"
proof -
  obtain t where t: "c_version c = 1" "c_raw_type c = cell_type_raw t"
    using assms(1) by (rule cell_okE)
  have "bucket_size b - (HEADER_LEN + length (c_payload c))
      = max_payload b - length (c_payload c)"
    by (simp add: max_payload_def)
  with t assms(2) show ?thesis
    by (simp add: encode_def and_15 PROTOCOL_VERSION_def not_less)
qed

lemma encode_length:
  "encode c b = Inr w \<Longrightarrow> length w = bucket_size b"
  using max_payload_bounds(2) [of b] by (auto simp: encode_def not_less HEADER_LEN_def)

lemma decode_encode:
  assumes "cell_ok c" and len: "length (c_payload c) \<le> max_payload b"
  shows "rbind (encode c b) decode = Inr c"
proof -
  obtain t where t: "c_version c = 1" "c_raw_type c = cell_type_raw t"
      "take_bit 4 (c_raw_type c) = c_raw_type c"
    using assms(1) by (rule cell_okE)
  let ?n = "length (c_payload c)"
  let ?h = "push_bit 4 1 OR c_raw_type c"
  let ?pad = "replicate (max_payload b - ?n) (0 :: byte)"
  let ?w = "?h # c_flags c # be16 (c_round_ctr c) @ be16 (of_nat ?n) @ c_payload c @ ?pad"
  have hi: "drop_bit 4 ?h = 1"
    using drop_bit_4_nibbles [of 1 "c_raw_type c"] t(3) by simp
  have lo: "take_bit 4 ?h = c_raw_type c"
    using take_bit_4_nibbles [of 1 "c_raw_type c"] t(3) by simp
  have n: "unat (of_nat ?n :: u16) = ?n"
    using len max_payload_bounds(1) [of b] by (intro unat_of_nat_u16) linarith
  have lw: "length ?w = bucket_size b"
    using len max_payload_bounds(2) [of b] by simp
  have pay: "sub_list ?w 6 (6 + ?n) = c_payload c"
    by (simp add: sub_list_def)
  have ctr: "sub_list ?w 2 4 = be16 (c_round_ctr c)" and dl: "sub_list ?w 4 6 = be16 (of_nat ?n)"
    by (simp_all add: sub_list_def numeral_2_eq_2 [symmetric])
  have pad: "first_nonzero (drop (6 + ?n) ?w) = None"
    by (simp add: first_nonzero_None drop_Cons')
  have "decode ?w = Inr c"
    using len t hi lo n lw pay ctr dl pad
    by (simp add: decode_def bucket_from_len_Some [THEN iffD2] and_15 HEADER_LEN_def
        PROTOCOL_VERSION_def cell_type_from_raw_Some Let_def not_less)
  then show ?thesis using assms by (simp add: encode_eq)
qed

text \<open>Every accepted buffer is the encoding of its cell: the wire form is canonical.\<close>

lemma encode_decode:
  assumes "decode w = Inr c" and "bucket_from_len (length w) = Some b"
  shows "encode c b = Inr w"
proof -
  let ?d = "unat (de16 (sub_list w 4 6))"
  have lw: "length w = 6 + max_payload b"
    using assms(2) max_payload_bounds(2) [of b] by (simp add: bucket_from_len_Some)
  from assms have ver: "drop_bit 4 (w ! 0) = 1" and d: "?d \<le> max_payload b"
    and pad: "first_nonzero (drop (6 + ?d) w) = None" and ty: "cell_type_from_raw (take_bit 4 (w ! 0)) \<noteq> None"
    and c: "c = \<lparr>c_version = 1, c_raw_type = take_bit 4 (w ! 0), c_flags = w ! 1,
      c_round_ctr = de16 (sub_list w 2 4), c_payload = sub_list w 6 (6 + ?d)\<rparr>"
    by (auto simp: decode_def Let_def and_15 HEADER_LEN_def PROTOCOL_VERSION_def not_less
        split: option.splits)
  have ok: "cell_ok c"
    using ty by (simp add: c cell_ok_def cell_type_of_def PROTOCOL_VERSION_def)
  have len: "length (c_payload c) = ?d" using d lw by (simp add: c)
  have "push_bit 4 1 OR c_raw_type c = w ! 0"
    using nibbles_join [of "w ! 0"] ver by (simp add: c)
  moreover have "be16 (c_round_ctr c) = sub_list w 2 4" "be16 (of_nat ?d) = sub_list w 4 6"
    using lw by (simp_all add: c be_de)
  moreover have "replicate (max_payload b - ?d) 0 = drop (6 + ?d) w"
    using pad lw by (simp add: first_nonzero_None)
  ultimately have "encode c b = Inr ([w ! 0, w ! 1] @ sub_list w 2 4 @ sub_list w 4 6
      @ sub_list w 6 (6 + ?d) @ drop (6 + ?d) w)"
    using encode_eq [OF ok] d by (simp add: len) (simp add: c)
  also have "[w ! 0, w ! 1] @ sub_list w 2 4 @ sub_list w 4 6 @ sub_list w 6 (6 + ?d)
      @ drop (6 + ?d) w = w"
    using lw by (simp add: sub_list_drop drop_2_Cons [simplified])
  finally show ?thesis .
qed

lemma encode_wire_length:
  assumes "encode_wire c = Inr w"
  shows "length w = (if length (c_payload c) \<le> 4090 then 4096 else 16384)"
  using assms by (auto simp: encode_wire_def smallest_for_def dest!: encode_length split: if_splits)

lemma smallest_for_wire:
  "n \<le> 16378 \<Longrightarrow> \<exists>b. smallest_for n = Some b \<and> n \<le> max_payload (wire_bucket b)"
  by (simp add: smallest_for_def max_payload_def HEADER_LEN_def)

lemma encode_wire_accepts:
  assumes "cell_ok c" and "length (c_payload c) \<le> 16378"
  shows "\<exists>w. encode_wire c = Inr w \<and> decode w = Inr c"
proof -
  obtain b where b: "smallest_for (length (c_payload c)) = Some b"
    and le: "length (c_payload c) \<le> max_payload (wire_bucket b)"
    using smallest_for_wire [OF assms(2)] by auto
  from decode_encode [OF assms(1) le]
  obtain w where "encode c (wire_bucket b) = Inr w" "decode w = Inr c"
    by auto
  with b show ?thesis by (simp add: encode_wire_def)
qed

section \<open>Traffic classes and natural GC/2 cells\<close>

datatype traffic_class = Interactive | Bulk

definition traffic_from_byte :: "byte \<Rightarrow> traffic_class option" where
  "traffic_from_byte v = (if v = 0 then Some Interactive else if v = 1 then Some Bulk else None)"

definition GC2_VERSION :: byte where "GC2_VERSION = 2"
definition MAX_CELL :: nat where "MAX_CELL = 16 * 1024"

datatype gc2_error = Gc2Version | Gc2Length | Gc2Type | Gc2Reserved | Gc2Payload

record natural_cell =
  n_kind :: cell_type
  n_flags :: byte
  n_payload :: bytes

definition natural_new :: "cell_type \<Rightarrow> byte \<Rightarrow> bytes \<Rightarrow> gc2_error + natural_cell" where
  "natural_new kind fl p =
     (let allowed_flags = (if kind = Msg then F_MORE OR F_LAST else 0);
          limit = (if kind = Msg then MAX_MESSAGE else MAX_CELL - HEADER_LEN)
      in reject (fl AND NOT allowed_flags \<noteq> 0) Gc2Reserved
         (reject (limit < length p) Gc2Payload
         (Inr \<lparr>n_kind = kind, n_flags = fl, n_payload = p\<rparr>)))"

definition encoded_len :: "natural_cell \<Rightarrow> nat" where
  "encoded_len c = HEADER_LEN + length (n_payload c)"

definition natural_encode :: "natural_cell \<Rightarrow> bytes" where
  "natural_encode c =
     [push_bit 4 GC2_VERSION OR cell_type_raw (n_kind c), n_flags c, 0, 0]
     @ be16 (of_nat (length (n_payload c))) @ n_payload c"

definition natural_decode :: "bytes \<Rightarrow> gc2_error + natural_cell" where
  "natural_decode wire =
     reject (\<not> (HEADER_LEN \<le> length wire \<and> length wire \<le> MAX_CELL)) Gc2Length
     (reject (drop_bit 4 (wire ! 0) \<noteq> GC2_VERSION) Gc2Version
     (rbind (ok_or Gc2Type (cell_type_from_raw (wire ! 0 AND 15))) (\<lambda>kind.
      reject (sub_list wire 2 4 \<noteq> [0, 0]) Gc2Reserved
      (reject (unat (de16 (sub_list wire 4 6)) \<noteq> length wire - HEADER_LEN) Gc2Length
      (natural_new kind (wire ! 1) (drop HEADER_LEN wire))))))"

text \<open>The fields of \<open>NaturalCell\<close> are private: every value of the type came out of \<open>new\<close>.\<close>

definition natural_ok :: "natural_cell \<Rightarrow> bool" where
  "natural_ok c \<longleftrightarrow> natural_new (n_kind c) (n_flags c) (n_payload c) = Inr c"

lemma natural_new_ok: "natural_new k fl p = Inr c \<Longrightarrow> natural_ok c"
  by (auto simp: natural_new_def natural_ok_def Let_def)

lemma natural_ok_len: "natural_ok c \<Longrightarrow> length (n_payload c) \<le> MAX_CELL - HEADER_LEN"
  by (auto simp: natural_ok_def natural_new_def Let_def MAX_CELL_def HEADER_LEN_def
      MAX_MESSAGE_def split: if_splits)

lemma natural_decode_encode:
  assumes "natural_ok c"
  shows "natural_decode (natural_encode c) = Inr c"
proof -
  let ?h = "push_bit 4 2 OR cell_type_raw (n_kind c)"
  let ?n = "length (n_payload c)"
  have n: "?n \<le> 16378" using natural_ok_len [OF assms] by (simp add: MAX_CELL_def HEADER_LEN_def)
  then have un: "unat (of_nat ?n :: u16) = ?n" by (intro unat_of_nat_u16) simp
  have hi: "drop_bit 4 ?h = 2"
    using drop_bit_4_nibbles [of 2 "cell_type_raw (n_kind c)"] by simp
  have lo: "take_bit 4 ?h = cell_type_raw (n_kind c)"
    using take_bit_4_nibbles [of 2 "cell_type_raw (n_kind c)"] by simp
  have e: "natural_encode c = ?h # n_flags c # [0, 0] @ be16 (of_nat ?n) @ n_payload c"
    by (simp add: natural_encode_def GC2_VERSION_def)
  have s: "sub_list (natural_encode c) 2 4 = [0, 0]"
    "sub_list (natural_encode c) 4 6 = be16 (of_nat ?n)"
    "drop 6 (natural_encode c) = n_payload c" "length (natural_encode c) = 6 + ?n"
    by (simp_all add: e sub_list_def)
  show ?thesis
    using assms n un hi lo s
    by (simp add: natural_decode_def HEADER_LEN_def MAX_CELL_def GC2_VERSION_def and_15
        natural_ok_def) (simp add: e)
qed

lemma natural_encode_decode:
  assumes "natural_decode w = Inr c"
  shows "natural_encode c = w"
proof -
  from assms have lw: "6 \<le> length w" "length w \<le> 16384" and ver: "drop_bit 4 (w ! 0) = 2"
    and ty: "cell_type_from_raw (take_bit 4 (w ! 0)) = Some (n_kind c)"
    and z: "sub_list w 2 4 = [0, 0]"
    and d: "unat (de16 (sub_list w 4 6)) = length w - 6"
    and c: "c = \<lparr>n_kind = n_kind c, n_flags = w ! 1, n_payload = drop 6 w\<rparr>"
    by (auto simp: natural_decode_def natural_new_def Let_def and_15 HEADER_LEN_def MAX_CELL_def
        GC2_VERSION_def)
  have f: "n_flags c = w ! 1" "n_payload c = drop 6 w" by (subst c, simp)+
  have "push_bit 4 2 OR cell_type_raw (n_kind c) = w ! 0"
    using nibbles_join [of "w ! 0"] ver ty by (simp add: cell_type_from_raw_Some)
  moreover have "be16 (of_nat (length w - 6)) = sub_list w 4 6"
    using lw by (simp add: d [symmetric] be_de)
  ultimately have "natural_encode c = [w ! 0, w ! 1] @ sub_list w 2 4 @ sub_list w 4 6 @ drop 6 w"
    using z by (simp add: natural_encode_def GC2_VERSION_def f)
  also have "\<dots> = w" using lw by (simp add: sub_list_drop drop_2_Cons [simplified])
  finally show ?thesis .
qed

interpretation natural: canonical_codec natural_encode natural_decode natural_ok
proof
  show "natural_ok c" if "natural_decode w = Inr c" for w c
    using that by (auto simp: natural_decode_def dest: natural_new_ok)
qed (auto simp: natural_decode_encode natural_encode_decode)

text \<open>Each version's decoder refuses the other version's buffers.\<close>

lemma decode_version: "decode w = Inr c \<Longrightarrow> drop_bit 4 (w ! 0) = 1"
  by (auto simp: decode_def Let_def PROTOCOL_VERSION_def split: option.splits)

lemma natural_decode_version: "natural_decode w = Inr c \<Longrightarrow> drop_bit 4 (w ! 0) = 2"
  by (auto simp: natural_decode_def GC2_VERSION_def)

section \<open>In-band hop status\<close>

definition HOP_REPLY_VERSION :: byte where "HOP_REPLY_VERSION = 1"

datatype hop_reply = Accepted | Conflict | Overloaded | Internal

fun hop_code :: "hop_reply \<Rightarrow> byte" where
  "hop_code Accepted = 0"
| "hop_code Conflict = 1"
| "hop_code Overloaded = 2"
| "hop_code Internal = 3"

definition hop_from_code :: "byte \<Rightarrow> hop_reply option" where
  "hop_from_code code =
     (if code = 0 then Some Accepted
      else if code = 1 then Some Conflict
      else if code = 2 then Some Overloaded
      else if code = 3 then Some Internal
      else None)"

definition hop_cell :: "hop_reply \<Rightarrow> cell" where
  "hop_cell r = cell_new Ack 0 0 [HOP_REPLY_VERSION, hop_code r]"

definition hop_parse :: "cell \<Rightarrow> hop_reply option" where
  "hop_parse c =
     (if cell_type_of c \<noteq> Some Ack \<or> length (c_payload c) \<noteq> 2 then None
      else if c_payload c ! 0 \<noteq> HOP_REPLY_VERSION then None
      else hop_from_code (c_payload c ! 1))"

datatype hop_outcome =
    OutAccepted "cell option"
  | OutConflict
  | OutOverloaded
  | OutInternal
  | OutDecoy u16

fun is_accepted :: "hop_outcome \<Rightarrow> bool" where
  "is_accepted (OutAccepted _) = True"
| "is_accepted _ = False"

lemma hop_from_code_code [simp]: "hop_from_code (hop_code r) = Some r"
  by (cases r) (simp_all add: hop_from_code_def)

lemma hop_parse_cell: "hop_parse (hop_cell r) = Some r"
  by (simp add: hop_parse_def hop_cell_def cell_new_def cell_type_of_def
      cell_type_from_raw_def)

section \<open>Properties\<close>

lemma decode_bucket: "decode w = Inr c \<Longrightarrow> \<exists>b. bucket_from_len (length w) = Some b"
  by (auto simp: decode_def split: option.splits)

lemma decode_ok:
  assumes "decode w = Inr c"
  shows "cell_ok c"
  using assms by (auto simp: decode_def Let_def cell_ok_def cell_type_of_def split: option.splits)

text \<open>
  C22 (roundtrip): a padded cell buffer is accepted exactly when it is the encoding of its cell in
  the bucket its length names: \<open>decode\<close> inverts \<open>encode\<close>, and no second buffer of that length
  (other header bits, other padding, other length field) decodes to the same cell.
\<close>

theorem decode_iff_encode:
  "decode w = Inr c \<longleftrightarrow>
     cell_ok c \<and> (\<exists>b. length (c_payload c) \<le> max_payload b \<and> encode c b = Inr w)"
proof
  assume d: "decode w = Inr c"
  then obtain b where "bucket_from_len (length w) = Some b" using decode_bucket by blast
  then have e: "encode c b = Inr w" using d by (rule encode_decode [rotated])
  moreover have "length (c_payload c) \<le> max_payload b"
    using e by (auto simp: encode_def split: if_splits)
  ultimately show "cell_ok c \<and> (\<exists>b. length (c_payload c) \<le> max_payload b \<and> encode c b = Inr w)"
    using decode_ok [OF d] by blast
next
  assume "cell_ok c \<and> (\<exists>b. length (c_payload c) \<le> max_payload b \<and> encode c b = Inr w)"
  then show "decode w = Inr c" using decode_encode by fastforce
qed

text \<open>
  A cell put on the wire has one of two lengths whatever its type, flags and
  payload: 4096 bytes up to 4090 payload bytes and 16384 beyond; and every cell with a payload of
  at most 16378 bytes is accepted and comes back unchanged.
\<close>

lemma encode_wire_uniform:
  "(encode_wire c = Inr w \<longrightarrow> length w = (if length (c_payload c) \<le> 4090 then 4096 else 16384))
   \<and> (length p \<le> 16378 \<longrightarrow> (\<exists>w. encode_wire (cell_new t fl ctr p) = Inr w \<and> decode w = Inr (cell_new t fl ctr p)))"
  using encode_wire_length encode_wire_accepts [of "cell_new t fl ctr p"] by (auto simp: cell_new_def cell_ok_def
      cell_type_of_def)

text \<open>
  \<open>smallest_for\<close> returns the least bucket whose payload capacity holds the length,
  and nothing exactly when no bucket does.
\<close>

lemma smallest_for_correct:
  "(smallest_for n = Some b \<longleftrightarrow>
      n \<le> max_payload b \<and> (\<forall>b'. bucket_size b' < bucket_size b \<longrightarrow> max_payload b' < n))
   \<and> (smallest_for n = None \<longleftrightarrow> (\<forall>b. max_payload b < n))"
proof -
  have all: "(\<forall>b'. P b') \<longleftrightarrow> P B0 \<and> P B1 \<and> P B2 \<and> P B3" for P
    by (metis bucket.exhaust)
  show ?thesis
    by (cases b) (auto simp: all smallest_for_def max_payload_def HEADER_LEN_def)
qed

text \<open>
  A GC/2 buffer is accepted exactly when it is the encoding of a constructible
  cell, so the natural-length wire form is canonical and its decoder total on what is encoded.
\<close>

lemma natural_decode_iff: "natural_decode w = Inr c \<longleftrightarrow> natural_ok c \<and> w = natural_encode c"
  by (rule natural.dec_iff)

text \<open>No buffer is a cell of both wire versions.\<close>

lemma versions_disjoint: "\<not> (is_ok (decode w) \<and> is_ok (natural_decode w))"
  using decode_version [of w] natural_decode_version [of w] by (cases "decode w"; cases "natural_decode w") auto

text \<open>
  Every hop status travels as one 4096-byte wire cell and is parsed back.
\<close>

lemma hop_status_wire:
  "\<exists>w. encode_wire (hop_cell r) = Inr w \<and> length w = 4096
     \<and> decode w = Inr (hop_cell r) \<and> hop_parse (hop_cell r) = Some r"
proof -
  have "cell_ok (hop_cell r)" "length (c_payload (hop_cell r)) = 2"
    by (simp_all add: hop_cell_def) (simp add: cell_new_def)
  with encode_wire_accepts [of "hop_cell r"] obtain w
    where "encode_wire (hop_cell r) = Inr w" "decode w = Inr (hop_cell r)" by auto
  with encode_wire_length [of "hop_cell r" w] \<open>length (c_payload (hop_cell r)) = 2\<close>
  show ?thesis by (simp add: hop_parse_cell)
qed

end
