(* ===== verification/Fragments.thy ===== *)
theory Fragments
  imports Cells
begin

text \<open>
  The reassembly table of \<open>crates/core/src/fragment.rs\<close>: \<open>FragmentBuffer\<close> with its slot,
  per-message and aggregate byte bounds. \<open>push\<close> is the whole operation with its two eviction
  loops. The first loop runs forever on a table of capacity zero, so \<open>push\<close> returns an option
  whose \<open>None\<close> is divergence; the lemmas prove that it returns for every usable table.
\<close>

type_synonym message_id = "16 arr"

definition FRAGMENT_TABLE_CAP :: nat where "FRAGMENT_TABLE_CAP = 64"
definition FRAGMENT_MESSAGE_CAP :: nat where "FRAGMENT_MESSAGE_CAP = MAX_MESSAGE"
definition FRAGMENT_TOTAL_CAP :: nat where
  "FRAGMENT_TOTAL_CAP = FRAGMENT_TABLE_CAP * FRAGMENT_MESSAGE_CAP"

record fragment_buffer =
  fb_cap :: nat
  fb_message_cap :: nat
  fb_total_cap :: nat
  fb_total :: nat
  fb_slots :: "(message_id \<times> bytes) list"

definition fb_with_caps :: "nat \<Rightarrow> nat \<Rightarrow> nat \<Rightarrow> fragment_buffer" where
  "fb_with_caps cap message_cap total_cap =
     \<lparr>fb_cap = cap, fb_message_cap = message_cap, fb_total_cap = total_cap, fb_total = 0,
      fb_slots = []\<rparr>"

definition fb_new :: fragment_buffer where
  "fb_new = fb_with_caps FRAGMENT_TABLE_CAP FRAGMENT_MESSAGE_CAP FRAGMENT_TOTAL_CAP"

definition fb_with_cap :: "nat \<Rightarrow> fragment_buffer" where
  "fb_with_cap cap = fb_with_caps cap FRAGMENT_MESSAGE_CAP (cap * FRAGMENT_MESSAGE_CAP)"

text \<open>\<open>#[derive(Default)]\<close>: every field is its type's default.\<close>

definition fb_default :: fragment_buffer where
  "fb_default = fb_with_caps 0 0 0"

definition fb_remove_at :: "nat \<Rightarrow> fragment_buffer \<Rightarrow> bytes option \<times> fragment_buffer" where
  "fb_remove_at pos fb =
     (if pos < length (fb_slots fb)
      then let buf = snd (fb_slots fb ! pos)
           in (Some buf, fb\<lparr>fb_slots := remove_nth pos (fb_slots fb),
                            fb_total := fb_total fb - length buf\<rparr>)
      else (None, fb))"

text \<open>\<open>while self.slots.len() >= self.cap { self.remove_at(0); }\<close>\<close>

partial_function (option) fb_make_room :: "fragment_buffer \<Rightarrow> fragment_buffer option" where
  "fb_make_room fb =
     (if fb_cap fb \<le> length (fb_slots fb) then fb_make_room (snd (fb_remove_at 0 fb))
      else Some fb)"

text \<open>The aggregate loop: evict the oldest other reassembly, never the one being fed.\<close>

function fb_evict_total :: "message_id \<Rightarrow> nat \<Rightarrow> fragment_buffer \<Rightarrow> fragment_buffer" where
  "fb_evict_total mid n fb =
     (if fb_total_cap fb < fb_total fb + n
      then case position (\<lambda>(i, _). i \<noteq> mid) (fb_slots fb) of
             None \<Rightarrow> fb
           | Some victim \<Rightarrow> fb_evict_total mid n (snd (fb_remove_at victim fb))
      else fb)"
  by pat_completeness auto
termination
  by (relation "measure (\<lambda>(mid, n, fb). length (fb_slots fb))")
    (auto simp: fb_remove_at_def Let_def dest: position_SomeD)

declare fb_evict_total.simps [simp del]

text \<open>The tail of \<open>push\<close>: evict, append to the slot of \<open>id\<close>, and hand the message out on \<open>last\<close>.\<close>

definition fb_feed :: "message_id \<Rightarrow> bool \<Rightarrow> bytes \<Rightarrow> fragment_buffer \<Rightarrow> bytes option \<times> fragment_buffer" where
  "fb_feed mid fin data fb =
     (let fb1 = fb_evict_total mid (length data) fb
      in case position (\<lambda>(i, _). i = mid) (fb_slots fb1) of
           None \<Rightarrow> (None, fb1)
         | Some pos \<Rightarrow>
             let fb2 = fb1\<lparr>fb_slots := (fb_slots fb1)[pos := (mid, snd (fb_slots fb1 ! pos) @ data)],
                           fb_total := fb_total fb1 + length data\<rparr>
             in if fin then fb_remove_at pos fb2 else (None, fb2))"

definition fb_push ::
  "message_id \<Rightarrow> bool \<Rightarrow> bytes \<Rightarrow> fragment_buffer \<Rightarrow> (bytes option \<times> fragment_buffer) option" where
  "fb_push mid fin data fb =
     (let found = position (\<lambda>(i, _). i = mid) (fb_slots fb)
      in if fb_message_cap fb < length data
         then case found of
                Some pos \<Rightarrow> Some (None, snd (fb_remove_at pos fb))
              | None \<Rightarrow> Some (None, fb)
         else case found of
                Some pos \<Rightarrow>
                  if fb_message_cap fb < length (snd (fb_slots fb ! pos)) + length data
                  then Some (None, snd (fb_remove_at pos fb))
                  else Some (fb_feed mid fin data fb)
              | None \<Rightarrow>
                  map_option (\<lambda>fb1. fb_feed mid fin data (fb1\<lparr>fb_slots := fb_slots fb1 @ [(mid, [])]\<rparr>))
                    (fb_make_room fb))"

section \<open>Invariant\<close>

definition slot_bytes :: "(message_id \<times> bytes) list \<Rightarrow> nat" where
  "slot_bytes ss = sum_list (map (\<lambda>(_, b). length b) ss)"

definition fb_inv :: "fragment_buffer \<Rightarrow> bool" where
  "fb_inv fb \<longleftrightarrow>
     1 \<le> fb_cap fb \<and> fb_message_cap fb \<le> fb_total_cap fb
     \<and> distinct (map fst (fb_slots fb))
     \<and> fb_total fb = slot_bytes (fb_slots fb)
     \<and> (\<forall>(_, b) \<in> set (fb_slots fb). length b \<le> fb_message_cap fb)
     \<and> length (fb_slots fb) \<le> fb_cap fb
     \<and> fb_total fb \<le> fb_total_cap fb"

definition same_caps :: "fragment_buffer \<Rightarrow> fragment_buffer \<Rightarrow> bool" where
  "same_caps a b \<longleftrightarrow> fb_cap a = fb_cap b \<and> fb_message_cap a = fb_message_cap b
     \<and> fb_total_cap a = fb_total_cap b"

definition fb_lookup :: "fragment_buffer \<Rightarrow> message_id \<Rightarrow> bytes option" where
  "fb_lookup fb = map_of (fb_slots fb)"

lemma slot_bytes_simps [simp]:
  "slot_bytes [] = 0"
  "slot_bytes (s # ss) = length (snd s) + slot_bytes ss"
  "slot_bytes (ss @ ts) = slot_bytes ss + slot_bytes ts"
  by (auto simp: slot_bytes_def split: prod.splits)

section \<open>Eviction removes whole messages\<close>

text \<open>
  Every loop of \<open>push\<close> only drops complete slots, so its effect is the restriction of the table
  to the ids outside a set of victims.
\<close>

definition fb_restrict :: "message_id set \<Rightarrow> fragment_buffer \<Rightarrow> fragment_buffer" where
  "fb_restrict V fb =
     fb\<lparr>fb_slots := filter (\<lambda>(i, _). i \<notin> V) (fb_slots fb),
        fb_total := slot_bytes (filter (\<lambda>(i, _). i \<notin> V) (fb_slots fb))\<rparr>"

definition fb_core :: "fragment_buffer \<Rightarrow> bool" where
  "fb_core fb \<longleftrightarrow> distinct (map fst (fb_slots fb)) \<and> fb_total fb = slot_bytes (fb_slots fb)
     \<and> (\<forall>(_, b) \<in> set (fb_slots fb). length b \<le> fb_message_cap fb)"

lemma fb_inv_core: "fb_inv fb \<Longrightarrow> fb_core fb"
  by (simp add: fb_inv_def fb_core_def)

lemma filter_restrict_Un:
  "filter (\<lambda>(i, _). i \<notin> V) (filter (\<lambda>(i, _). i \<notin> W) ss) = filter (\<lambda>(i, _). i \<notin> V \<union> W) ss"
  by (induction ss) auto

lemma fb_restrict_restrict: "fb_restrict V (fb_restrict W fb) = fb_restrict (V \<union> W) fb"
  by (simp add: fb_restrict_def filter_restrict_Un del: filter_filter)

lemma fb_restrict_empty: "fb_core fb \<Longrightarrow> fb_restrict {} fb = fb"
  by (simp add: fb_restrict_def fb_core_def)

lemma fb_restrict_sel [simp]:
  "fb_cap (fb_restrict V fb) = fb_cap fb"
  "fb_message_cap (fb_restrict V fb) = fb_message_cap fb"
  "fb_total_cap (fb_restrict V fb) = fb_total_cap fb"
  by (simp_all add: fb_restrict_def)

lemma distinct_fst_filter: "distinct (map fst ss) \<Longrightarrow> distinct (map fst (filter P ss))"
  by (induction ss) auto

lemma slot_bytes_filter_le: "slot_bytes (filter P ss) \<le> slot_bytes ss"
  by (induction ss) auto

lemma fb_core_restrict: "fb_core fb \<Longrightarrow> fb_core (fb_restrict V fb)"
  by (auto simp: fb_core_def fb_restrict_def distinct_fst_filter)

lemma map_of_filter_key:
  "map_of (filter (\<lambda>(i, _). i \<notin> V) ss) j = (if j \<in> V then None else map_of ss j)"
  by (induction ss) auto

lemma fb_lookup_restrict: "fb_lookup (fb_restrict V fb) j = (if j \<in> V then None else fb_lookup fb j)"
  by (simp add: fb_lookup_def fb_restrict_def map_of_filter_key)

lemma filter_key_id: "v \<notin> fst ` set ss \<Longrightarrow> filter (\<lambda>(i, _). i \<noteq> v) ss = ss"
  by (rule filter_True) force

lemma fb_remove_at_restrict:
  assumes "fb_core fb" and slots: "fb_slots fb = ys @ (i, b) # zs"
  shows "fb_remove_at (length ys) fb = (Some b, fb_restrict {i} fb)"
proof -
  have "filter (\<lambda>(j, _). j \<noteq> i) (fb_slots fb) = ys @ zs"
    using assms by (auto simp: fb_core_def filter_key_id)
  with assms show ?thesis
    by (simp add: fb_remove_at_def fb_restrict_def fb_core_def)
qed

lemma fb_make_room_returns:
  assumes "fb_core fb" and "1 \<le> fb_cap fb"
  shows "\<exists>V. fb_make_room fb = Some (fb_restrict V fb)
           \<and> length (fb_slots (fb_restrict V fb)) < fb_cap fb
           \<and> (length (fb_slots fb) < fb_cap fb \<longrightarrow> V = {})"
  using assms
proof (induction "length (fb_slots fb)" arbitrary: fb)
  case 0
  then show ?case
    by (intro exI [of _ "{}"]) (simp add: fb_make_room.simps fb_restrict_empty)
next
  case (Suc n)
  show ?case
  proof (cases "fb_cap fb \<le> length (fb_slots fb)")
    case True
    obtain i b zs where s: "fb_slots fb = (i, b) # zs" using Suc.hyps(2) by (cases "fb_slots fb") auto
    let ?fb = "fb_restrict {i} fb"
    have rm: "fb_remove_at 0 fb = (Some b, ?fb)"
      using fb_remove_at_restrict [OF Suc.prems(1), of "[]"] s by simp
    have "fb_slots ?fb = zs"
      using Suc.prems(1) s by (auto simp: fb_restrict_def fb_core_def filter_key_id)
    then have "n = length (fb_slots ?fb)" using Suc.hyps(2) s by simp
    from Suc.hyps(1) [OF this fb_core_restrict [OF Suc.prems(1)]] Suc.prems(2)
    obtain V where V: "fb_make_room ?fb = Some (fb_restrict V ?fb)"
      "length (fb_slots (fb_restrict V ?fb)) < fb_cap fb" by auto
    have "fb_make_room fb = fb_make_room ?fb" using True rm by (simp add: fb_make_room.simps [of fb])
    with V True show ?thesis by (intro exI [of _ "V \<union> {i}"]) (simp add: fb_restrict_restrict)
  next
    case False
    with Suc.prems show ?thesis
      by (intro exI [of _ "{}"]) (simp add: fb_make_room.simps [of fb] fb_restrict_empty)
  qed
qed

lemma fb_evict_total_restrict:
  assumes "fb_core fb"
  shows "\<exists>V. mid \<notin> V \<and> fb_evict_total mid n fb = fb_restrict V fb
    \<and> (fb_total (fb_restrict V fb) + n \<le> fb_total_cap fb \<or> fst ` set (fb_slots (fb_restrict V fb)) \<subseteq> {mid})
    \<and> (fb_total fb + n \<le> fb_total_cap fb \<longrightarrow> V = {})"
  using assms
proof (induction mid n fb rule: fb_evict_total.induct)
  case (1 mid n fb)
  let ?P = "\<lambda>(i, _ :: bytes). i \<noteq> mid"
  show ?case
  proof (cases "fb_total fb + n \<le> fb_total_cap fb")
    case True
    with "1.prems" show ?thesis
      by (intro exI [of _ "{}"]) (simp add: fb_evict_total.simps [of mid n fb] fb_restrict_empty)
  next
    case False
    show ?thesis
    proof (cases "position ?P (fb_slots fb)")
      case None
      then have "fst ` set (fb_slots fb) \<subseteq> {mid}" by (auto simp: position_None)
      with None False "1.prems" show ?thesis
        by (intro exI [of _ "{}"]) (simp add: fb_evict_total.simps [of mid n fb] fb_restrict_empty)
    next
      case (Some v)
      then obtain ys i b zs where s: "fb_slots fb = ys @ (i, b) # zs" "length ys = v" "i \<noteq> mid"
        by (elim position_SomeE) auto
      have rm: "snd (fb_remove_at v fb) = fb_restrict {i} fb"
        using fb_remove_at_restrict [OF "1.prems" s(1)] s(2) by simp
      from "1.IH" [OF _ Some] False rm fb_core_restrict [OF "1.prems"]
      obtain V where V: "mid \<notin> V" "fb_evict_total mid n (fb_restrict {i} fb) = fb_restrict (V \<union> {i}) fb"
        "fb_total (fb_restrict (V \<union> {i}) fb) + n \<le> fb_total_cap fb
          \<or> fst ` set (fb_slots (fb_restrict (V \<union> {i}) fb)) \<subseteq> {mid}"
        by (auto simp: fb_restrict_restrict)
      then show ?thesis using False Some rm s(3)
        by (intro exI [of _ "V \<union> {i}"]) (simp add: fb_evict_total.simps [of mid n fb])
    qed
  qed
qed

lemma fb_restrict_le:
  "length (fb_slots (fb_restrict V fb)) \<le> length (fb_slots fb)"
  "fb_core fb \<Longrightarrow> fb_total (fb_restrict V fb) \<le> fb_total fb"
  by (simp_all add: fb_restrict_def fb_core_def slot_bytes_filter_le)

section \<open>What push does\<close>

lemma map_of_split:
  assumes "map_of ss k = Some v" and "distinct (map fst ss)"
  obtains ys zs where "ss = ys @ (k, v) # zs" "k \<notin> fst ` set ys" "k \<notin> fst ` set zs"
proof -
  from assms(1) have "(k, v) \<in> set ss" by (rule map_of_SomeD)
  then obtain ys zs where "ss = ys @ (k, v) # zs" by (meson split_list)
  with assms(2) that show ?thesis by auto
qed

lemma position_key:
  assumes "distinct (map fst ss)"
  shows "position (\<lambda>(i, _). i = k) ss = None \<longleftrightarrow> map_of ss k = None"
    and "ss = ys @ (k, v) # zs \<Longrightarrow> position (\<lambda>(i, _). i = k) ss = Some (length ys)"
proof -
  show "position (\<lambda>(i, _). i = k) ss = None \<longleftrightarrow> map_of ss k = None"
    by (auto simp: position_None map_of_eq_None_iff image_iff)
  show "ss = ys @ (k, v) # zs \<Longrightarrow> position (\<lambda>(i, _). i = k) ss = Some (length ys)"
    using assms by (auto intro!: position_append simp: image_iff)
qed

text \<open>The slot of \<open>mid\<close> with more data appended.\<close>

lemma fb_grow:
  fixes fb :: fragment_buffer
  assumes core: "fb_core fb" and s: "fb_slots fb = ys @ (mid, p) # zs" and fits: "length p + length data \<le> fb_message_cap fb"
  defines "fb2 \<equiv> fb\<lparr>fb_slots := ys @ (mid, p @ data) # zs, fb_total := fb_total fb + length data\<rparr>"
  shows "fb_core fb2" "fb_remove_at (length ys) fb2 = (Some (p @ data), fb_restrict {mid} fb2)"
    "fb_lookup fb2 = (\<lambda>j. if j = mid then Some (p @ data) else fb_lookup fb j)"
proof -
  show core2: "fb_core fb2" using core s fits by (auto simp: fb_core_def fb2_def)
  show "fb_remove_at (length ys) fb2 = (Some (p @ data), fb_restrict {mid} fb2)"
    using core2 by (rule fb_remove_at_restrict) (simp add: fb2_def)
  have "mid \<notin> fst ` set ys" "mid \<notin> fst ` set zs" using core s by (auto simp: fb_core_def)
  then have "map_of (ys @ (mid, q) # zs) j = (if j = mid then Some q else map_of (ys @ (mid, p) # zs) j)" for q j
    by (simp add: map_of_middle del: map_of_append)
  from this [of "p @ data"] show "fb_lookup fb2 = (\<lambda>j. if j = mid then Some (p @ data) else fb_lookup fb j)"
    by (auto simp: fb_lookup_def s fb2_def)
qed

lemma fb_grow_total:
  assumes "fb_core fb" and "fb_slots fb = ys @ (mid, p) # zs" and "length p + length data \<le> fb_total_cap fb"
    and "fb_total fb + length data \<le> fb_total_cap fb \<or> fst ` set (fb_slots fb) \<subseteq> {mid}"
  shows "fb_total fb + length data \<le> fb_total_cap fb"
  using assms(4)
proof
  assume "fst ` set (fb_slots fb) \<subseteq> {mid}"
  moreover have "mid \<notin> fst ` set ys" "mid \<notin> fst ` set zs" using assms(1,2) by (auto simp: fb_core_def)
  ultimately have "ys = [] \<and> zs = []" using assms(2) by (cases ys; cases zs) auto
  then show ?thesis using assms(1-3) by (simp add: fb_core_def)
qed

lemma fb_feed_spec:
  assumes core: "fb_core fb" and p: "fb_lookup fb mid = Some p"
    and fits: "length p + length data \<le> fb_message_cap fb"
    and caps: "fb_message_cap fb \<le> fb_total_cap fb"
  obtains V r fb' where "fb_feed mid fin data fb = (r, fb')" "mid \<notin> V" "fb_core fb'" "same_caps fb' fb"
    "fb_total fb + length data \<le> fb_total_cap fb \<Longrightarrow> V = {}"
    "r = (if fin then Some (p @ data) else None)"
    "fb_lookup fb' = (\<lambda>j. if j = mid then (if fin then None else Some (p @ data))
                          else if j \<in> V then None else fb_lookup fb j)"
    "fb_total fb' \<le> fb_total_cap fb" "length (fb_slots fb') \<le> length (fb_slots fb)"
    "\<not> fin \<Longrightarrow> V = {} \<Longrightarrow> fb_total fb' = fb_total fb + length data"
proof -
  obtain V where V: "mid \<notin> V" "fb_evict_total mid (length data) fb = fb_restrict V fb"
    and bound: "fb_total (fb_restrict V fb) + length data \<le> fb_total_cap fb
      \<or> fst ` set (fb_slots (fb_restrict V fb)) \<subseteq> {mid}"
    and noev: "fb_total fb + length data \<le> fb_total_cap fb \<longrightarrow> V = {}"
    using fb_evict_total_restrict [OF core, of mid "length data"] by blast
  let ?fb1 = "fb_restrict V fb"
  have core1: "fb_core ?fb1" using core by (rule fb_core_restrict)
  have l1: "fb_lookup ?fb1 = (\<lambda>j. if j \<in> V then None else fb_lookup fb j)"
    by (auto simp: fb_lookup_restrict)
  from p V(1) have "map_of (fb_slots ?fb1) mid = Some p" by (simp add: l1 fb_lookup_def [symmetric])
  moreover have "distinct (map fst (fb_slots ?fb1))" using core1 by (simp add: fb_core_def)
  ultimately obtain ys zs where s: "fb_slots ?fb1 = ys @ (mid, p) # zs"
    and nin: "mid \<notin> fst ` set ys" "mid \<notin> fst ` set zs"
    by (rule map_of_split)
  have pos: "position (\<lambda>(i, _). i = mid) (fb_slots ?fb1) = Some (length ys)"
    using core1 s by (auto simp: fb_core_def intro!: position_key)
  let ?fb2 = "?fb1\<lparr>fb_slots := ys @ (mid, p @ data) # zs, fb_total := fb_total ?fb1 + length data\<rparr>"
  have feed: "fb_feed mid fin data fb = (if fin then fb_remove_at (length ys) ?fb2 else (None, ?fb2))"
    by (simp add: fb_feed_def V(2) pos [unfolded s] Let_def s)
  note fb2 = fb_grow [OF core1 s, of data]
  have core2: "fb_core ?fb2" and rm: "fb_remove_at (length ys) ?fb2 = (Some (p @ data), fb_restrict {mid} ?fb2)"
    and l2: "fb_lookup ?fb2 = (\<lambda>j. if j = mid then Some (p @ data) else fb_lookup ?fb1 j)"
    using fits by (intro fb2; simp)+
  have tot2: "fb_total ?fb2 \<le> fb_total_cap fb" using fb_grow_total [OF core1 s, of data] bound fits caps by simp
  let ?fb' = "if fin then fb_restrict {mid} ?fb2 else ?fb2"
  have "length (fb_slots ?fb2) = length (fb_slots ?fb1)" by (simp add: s)
  also have "\<dots> \<le> length (fb_slots fb)" by (simp add: fb_restrict_def)
  finally have len: "length (fb_slots ?fb2) \<le> length (fb_slots fb)" .
  show thesis
  proof (rule that)
    show "fb_feed mid fin data fb = (if fin then Some (p @ data) else None, ?fb')"
      using feed rm by simp
    show "mid \<notin> V" by (rule V(1))
    show "fb_core ?fb'" using core2 by (auto intro: fb_core_restrict)
    show "same_caps ?fb' fb" by (simp add: same_caps_def)
    show "V = {}" if "fb_total fb + length data \<le> fb_total_cap fb" using that noev by simp
    show "fb_lookup ?fb' = (\<lambda>j. if j = mid then (if fin then None else Some (p @ data))
        else if j \<in> V then None else fb_lookup fb j)"
      by (auto simp: fun_eq_iff fb_lookup_restrict l2 l1)
    show "fb_total ?fb' \<le> fb_total_cap fb"
      using tot2 fb_restrict_le(2) [OF core2, of "{mid}"] by auto
    show "length (fb_slots ?fb') \<le> length (fb_slots fb)"
      using len fb_restrict_le(1) [of "{mid}" ?fb2] by auto
    show "fb_total ?fb' = fb_total fb + length data" if "\<not> fin" "V = {}"
      using that core by (simp add: fb_restrict_empty)
  qed simp
qed

text \<open>The abstract effect of one fragment: the message of \<open>mid\<close> grows, completes or is dropped.\<close>

definition fb_previous :: "fragment_buffer \<Rightarrow> message_id \<Rightarrow> bytes" where
  "fb_previous fb mid = (case fb_lookup fb mid of None \<Rightarrow> [] | Some b \<Rightarrow> b)"

definition fb_fits :: "fragment_buffer \<Rightarrow> message_id \<Rightarrow> bytes \<Rightarrow> bool" where
  "fb_fits fb mid data \<longleftrightarrow> length (fb_previous fb mid) + length data \<le> fb_message_cap fb"

definition fb_room :: "fragment_buffer \<Rightarrow> message_id \<Rightarrow> bytes \<Rightarrow> bool" where
  "fb_room fb mid data \<longleftrightarrow> (fb_lookup fb mid \<noteq> None \<or> length (fb_slots fb) < fb_cap fb)
     \<and> fb_total fb + length data \<le> fb_total_cap fb"

definition fb_result :: "fragment_buffer \<Rightarrow> message_id \<Rightarrow> bool \<Rightarrow> bytes \<Rightarrow> bytes option" where
  "fb_result fb mid fin data =
     (if fb_fits fb mid data \<and> fin then Some (fb_previous fb mid @ data) else None)"

definition fb_slot_after :: "fragment_buffer \<Rightarrow> message_id \<Rightarrow> bool \<Rightarrow> bytes \<Rightarrow> bytes option" where
  "fb_slot_after fb mid fin data =
     (if fb_fits fb mid data \<and> \<not> fin then Some (fb_previous fb mid @ data) else None)"

lemma fb_inv_alt:
  "fb_inv fb \<longleftrightarrow> fb_core fb \<and> 1 \<le> fb_cap fb \<and> fb_message_cap fb \<le> fb_total_cap fb
     \<and> length (fb_slots fb) \<le> fb_cap fb \<and> fb_total fb \<le> fb_total_cap fb"
  by (auto simp: fb_inv_def fb_core_def)

lemma fb_inv_restrict: "fb_inv fb \<Longrightarrow> fb_inv (fb_restrict V fb)"
  using fb_restrict_le(1) [of V fb] fb_restrict_le(2) [of fb V] by (simp add: fb_inv_alt fb_core_restrict)

lemma fb_drop_slot:
  assumes "fb_inv fb" and "position (\<lambda>(i, _). i = mid) (fb_slots fb) = Some pos"
  shows "snd (fb_remove_at pos fb) = fb_restrict {mid} fb"
proof -
  from assms(2) obtain ys b zs where "fb_slots fb = ys @ (mid, b) # zs" "length ys = pos"
    by (elim position_SomeE) auto
  then show ?thesis using fb_remove_at_restrict [OF fb_inv_core [OF assms(1)]] by auto
qed

text \<open>What a push does to a usable table.\<close>

definition fb_pushed :: "message_id \<Rightarrow> bool \<Rightarrow> bytes \<Rightarrow> fragment_buffer \<Rightarrow> fragment_buffer \<Rightarrow> bool" where
  "fb_pushed mid fin data fb fb' \<longleftrightarrow> fb_inv fb' \<and> same_caps fb' fb
     \<and> fb_lookup fb' mid = fb_slot_after fb mid fin data
     \<and> (\<forall>j. j \<noteq> mid \<longrightarrow> fb_lookup fb' j = None \<or> fb_lookup fb' j = fb_lookup fb j)
     \<and> (fb_room fb mid data \<longrightarrow> (\<forall>j. j \<noteq> mid \<longrightarrow> fb_lookup fb' j = fb_lookup fb j)
         \<and> (fb_fits fb mid data \<and> \<not> fin \<longrightarrow> fb_total fb' = fb_total fb + length data))"

text \<open>A slot for a new message, after room was made.\<close>

lemma fb_new_slot:
  fixes fb :: fragment_buffer and W :: "message_id set" and mid :: message_id
  assumes core: "fb_core fb" and None: "fb_lookup fb mid = None"
  defines "fb1 \<equiv> (fb_restrict W fb)\<lparr>fb_slots := fb_slots (fb_restrict W fb) @ [(mid, [])]\<rparr>"
  shows "fb_core fb1" "fb_lookup fb1 = (\<lambda>j. if j = mid then Some [] else fb_lookup (fb_restrict W fb) j)"
    "fb_total fb1 \<le> fb_total fb" "W = {} \<Longrightarrow> fb_total fb1 = fb_total fb"
proof -
  have nin: "mid \<notin> fst ` set (fb_slots (fb_restrict W fb))"
    using None by (auto simp: fb_lookup_def map_of_eq_None_iff fb_restrict_def)
  show "fb_core fb1" using fb_core_restrict [OF core, of W] nin by (auto simp: fb_core_def fb1_def)
  show "fb_lookup fb1 = (\<lambda>j. if j = mid then Some [] else fb_lookup (fb_restrict W fb) j)"
    using nin by (simp add: fb_lookup_def map_of_snoc fun_eq_iff fb1_def del: map_of_append)
  show "fb_total fb1 \<le> fb_total fb" "W = {} \<Longrightarrow> fb_total fb1 = fb_total fb"
    using core slot_bytes_filter_le by (auto simp: fb_restrict_def fb_core_def fb1_def)
qed

lemma fb_push_new:
  assumes inv: "fb_inv fb" and None: "fb_lookup fb mid = None" and fit: "length data \<le> fb_message_cap fb"
  shows "\<exists>fb'. fb_push mid fin data fb = Some (fb_result fb mid fin data, fb') \<and> fb_pushed mid fin data fb fb'"
proof -
  have core: "fb_core fb" and caps: "fb_message_cap fb \<le> fb_total_cap fb" and dist: "distinct (map fst (fb_slots fb))"
    using inv by (simp_all add: fb_inv_alt fb_core_def)
  have pos: "position (\<lambda>(i, _). i = mid) (fb_slots fb) = None" using None position_key(1) [OF dist] by (simp add: fb_lookup_def)
  have prev: "fb_previous fb mid = []" "fb_fits fb mid data" using None fit by (simp_all add: fb_previous_def fb_fits_def)
  obtain W where W: "fb_make_room fb = Some (fb_restrict W fb)"
    "length (fb_slots (fb_restrict W fb)) < fb_cap fb" "length (fb_slots fb) < fb_cap fb \<longrightarrow> W = {}"
    using fb_make_room_returns [OF core] inv by (auto simp: fb_inv_def)
  let ?fb1 = "(fb_restrict W fb)\<lparr>fb_slots := fb_slots (fb_restrict W fb) @ [(mid, [])]\<rparr>"
  note fb1 = fb_new_slot [OF core None, of W]
  have fits: "length ([] :: bytes) + length data \<le> fb_message_cap ?fb1" using fit by simp
  obtain V r fb' where f: "fb_feed mid fin data ?fb1 = (r, fb')" "mid \<notin> V" "fb_core fb'"
    "same_caps fb' ?fb1" "fb_total ?fb1 + length data \<le> fb_total_cap ?fb1 \<Longrightarrow> V = {}"
    "r = (if fin then Some ([] @ data) else None)"
    "fb_lookup fb' = (\<lambda>j. if j = mid then (if fin then None else Some ([] @ data)) else if j \<in> V then None else fb_lookup ?fb1 j)"
    "fb_total fb' \<le> fb_total_cap ?fb1" "length (fb_slots fb') \<le> length (fb_slots ?fb1)"
    "\<not> fin \<Longrightarrow> V = {} \<Longrightarrow> fb_total fb' = fb_total ?fb1 + length data"
    by (rule fb_feed_spec [OF fb1(1) _ fits, where fin = fin]) (use caps fb1(2) in auto)
  have room: "W = {} \<and> V = {}" if "fb_room fb mid data" using that None W(3) f(5) fb1(3,4) by (auto simp: fb_room_def)
  have push: "fb_push mid fin data fb = Some (r, fb')" using pos fit W(1) f(1) by (simp add: fb_push_def not_less)
  have inv': "fb_inv fb'" using f(3,4,8,9) W(2) inv by (auto simp: fb_inv_alt same_caps_def)
  have lk: "fb_lookup fb' = (\<lambda>j. if j = mid then (if fin then None else Some data) else if j \<in> V \<union> W then None else fb_lookup fb j)"
    by (auto simp: f(7) fb1(2) fb_lookup_restrict fun_eq_iff)
  have sc: "same_caps fb' fb" using f(4) by (simp add: same_caps_def)
  show ?thesis
    using push inv' sc f(6,10) prev room fb1(4)
    by (intro exI [of _ fb']) (auto simp: fb_result_def fb_slot_after_def fb_pushed_def lk)
qed

lemma fb_push_known:
  assumes inv: "fb_inv fb" and Some: "fb_lookup fb mid = Some p"
  shows "\<exists>fb'. fb_push mid fin data fb = Some (fb_result fb mid fin data, fb') \<and> fb_pushed mid fin data fb fb'"
proof -
  have core: "fb_core fb" and caps: "fb_message_cap fb \<le> fb_total_cap fb" and dist: "distinct (map fst (fb_slots fb))"
    using inv by (simp_all add: fb_inv_alt fb_core_def)
  from Some have "map_of (fb_slots fb) mid = Some p" by (simp add: fb_lookup_def)
  then obtain ys zs where s: "fb_slots fb = ys @ (mid, p) # zs" using dist by (rule map_of_split)
  have pos: "position (\<lambda>(i, _). i = mid) (fb_slots fb) = Some (length ys)" using position_key(2) [OF dist s] .
  have nth: "snd (fb_slots fb ! length ys) = p" by (simp add: s)
  have prev: "fb_previous fb mid = p" using Some by (simp add: fb_previous_def)
  show ?thesis
  proof (cases "length p + length data \<le> fb_message_cap fb")
    case False
    have "fb_push mid fin data fb = Some (None, fb_restrict {mid} fb)"
      using False fb_drop_slot [OF inv pos] by (simp add: fb_push_def Let_def pos nth)
    then show ?thesis
      using False prev fb_inv_restrict [OF inv, of "{mid}"]
      by (intro exI [of _ "fb_restrict {mid} fb"])
        (auto simp: fb_result_def fb_slot_after_def fb_fits_def same_caps_def fb_lookup_restrict fb_pushed_def)
  next
    case True
    obtain V r fb' where f: "fb_feed mid fin data fb = (r, fb')" "mid \<notin> V" "fb_core fb'"
      "same_caps fb' fb" "fb_total fb + length data \<le> fb_total_cap fb \<Longrightarrow> V = {}" "r = (if fin then Some (p @ data) else None)"
      "fb_lookup fb' = (\<lambda>j. if j = mid then (if fin then None else Some (p @ data)) else if j \<in> V then None else fb_lookup fb j)"
      "fb_total fb' \<le> fb_total_cap fb" "length (fb_slots fb') \<le> length (fb_slots fb)"
      "\<not> fin \<Longrightarrow> V = {} \<Longrightarrow> fb_total fb' = fb_total fb + length data"
      by (rule fb_feed_spec [OF core Some True caps, where fin = fin]) auto
    have "fb_push mid fin data fb = Some (r, fb')" using True f(1) by (simp add: fb_push_def Let_def pos nth)
    moreover have "fb_inv fb'" using f(3,4,8,9) inv by (auto simp: fb_inv_alt same_caps_def)
    ultimately show ?thesis
      using f(2,4,5,6,7,10) True prev
      by (intro exI [of _ fb']) (auto simp: fb_result_def fb_slot_after_def fb_fits_def same_caps_def fb_room_def fb_pushed_def)
  qed
qed

lemma fb_push_spec:
  assumes inv: "fb_inv fb"
  shows "\<exists>fb'. fb_push mid fin data fb = Some (fb_result fb mid fin data, fb')
           \<and> fb_inv fb' \<and> same_caps fb' fb
           \<and> fb_lookup fb' mid = fb_slot_after fb mid fin data
           \<and> (\<forall>j. j \<noteq> mid \<longrightarrow> fb_lookup fb' j = None \<or> fb_lookup fb' j = fb_lookup fb j)
           \<and> (fb_room fb mid data \<longrightarrow> (\<forall>j. j \<noteq> mid \<longrightarrow> fb_lookup fb' j = fb_lookup fb j)
               \<and> (fb_fits fb mid data \<and> \<not> fin \<longrightarrow> fb_total fb' = fb_total fb + length data))"
    (is "\<exists>fb'. ?Q fb'")
proof (cases "fb_lookup fb mid")
  case None
  show ?thesis
  proof (cases "length data \<le> fb_message_cap fb")
    case True
    with fb_push_new [OF inv None] show ?thesis by (simp add: fb_pushed_def)
  next
    case False
    have dist: "distinct (map fst (fb_slots fb))" using inv by (simp add: fb_inv_def)
    have "position (\<lambda>(i, _). i = mid) (fb_slots fb) = None" using None position_key(1) [OF dist] by (simp add: fb_lookup_def)
    moreover have "fb_previous fb mid = []" using None by (simp add: fb_previous_def)
    ultimately show ?thesis
      using None inv False by (intro exI [of _ fb]) (auto simp: fb_push_def fb_result_def fb_slot_after_def fb_fits_def same_caps_def)
  qed
next
  case (Some p)
  with fb_push_known [OF inv] show ?thesis by (simp add: fb_pushed_def)
qed

section \<open>Streams of fragments\<close>

text \<open>A stream of non-final fragments, and the concatenation of those of one message.\<close>

fun fb_run :: "(message_id \<times> bytes) list \<Rightarrow> fragment_buffer \<Rightarrow> fragment_buffer option" where
  "fb_run [] fb = Some fb"
| "fb_run ((mid, data) # es) fb = Option.bind (fb_push mid False data fb) (\<lambda>(_, fb'). fb_run es fb')"

definition frags :: "message_id \<Rightarrow> (message_id \<times> bytes) list \<Rightarrow> bytes" where
  "frags mid es = concat (map snd (filter (\<lambda>(i, _). i = mid) es))"

lemma frags_snoc [simp]:
  "frags mid [] = []"
  "frags mid (es @ [(i, d)]) = frags mid es @ (if i = mid then d else [])"
  by (simp_all add: frags_def)

lemma fb_run_append:
  "fb_run (es @ fs) fb = Option.bind (fb_run es fb) (fb_run fs)"
proof (induction es arbitrary: fb)
  case (Cons e es)
  then show ?case by (cases e; cases "fb_push (fst e) False (snd e) fb") auto
qed simp

lemma frags_absent: "mid \<notin> fst ` set es \<Longrightarrow> frags mid es = []"
  by (induction es) (auto simp: frags_def)

lemma slots_card:
  assumes "fb_inv fb"
  shows "length (fb_slots fb) = card (dom (fb_lookup fb))"
proof -
  have "distinct (map fst (fb_slots fb))" using assms by (simp add: fb_inv_def)
  then have "length (fb_slots fb) = card (fst ` set (fb_slots fb))"
    using distinct_card [of "map fst (fb_slots fb)"] by simp
  then show ?thesis by (simp add: fb_lookup_def dom_map_of_conv_image_fst)
qed

text \<open>
  Within its bounds the table is a map from message ids to the bytes received so far, whatever
  the interleaving of the messages.
\<close>

lemma fb_run_within_bounds:
  assumes "card (fst ` set es) \<le> cap" and "sum_list (map (\<lambda>(_, d). length d) es) \<le> total_cap"
    and "\<And>i. length (frags i es) \<le> mcap" and "1 \<le> cap" and "mcap \<le> total_cap"
  shows "\<exists>fb. fb_run es (fb_with_caps cap mcap total_cap) = Some fb \<and> fb_inv fb
      \<and> same_caps fb (fb_with_caps cap mcap total_cap)
      \<and> fb_total fb = sum_list (map (\<lambda>(_, d). length d) es)
      \<and> fb_lookup fb = (\<lambda>i. if i \<in> fst ` set es then Some (frags i es) else None)"
  using assms
proof (induction es rule: rev_induct)
  case Nil
  then show ?case
    by (auto simp: fb_with_caps_def fb_inv_def fb_lookup_def same_caps_def)
next
  case (snoc e es)
  obtain mid d where e: "e = (mid, d)" by (cases e)
  have le: "length (frags i es) \<le> mcap" for i
    using snoc.prems(3) [of i] by (auto simp: e split: if_splits)
  have "card (fst ` set es) \<le> card (fst ` set (es @ [e]))" by (intro card_mono) auto
  then have "card (fst ` set es) \<le> cap" using snoc.prems(1) by linarith
  moreover have "sum_list (map (\<lambda>(_, d). length d) es) \<le> total_cap" using snoc.prems(2) by (simp add: e)
  ultimately obtain fb where fb: "fb_run es (fb_with_caps cap mcap total_cap) = Some fb" "fb_inv fb"
      "same_caps fb (fb_with_caps cap mcap total_cap)"
      "fb_total fb = sum_list (map (\<lambda>(_, d). length d) es)"
      "fb_lookup fb = (\<lambda>i. if i \<in> fst ` set es then Some (frags i es) else None)"
    using snoc.IH le snoc.prems(4,5) by blast
  have prev: "fb_previous fb mid = frags mid es"
  proof (cases "mid \<in> fst ` set es")
    case False
    then show ?thesis by (simp add: fb_previous_def fb(5) frags_absent)
  qed (simp add: fb_previous_def fb(5))
  have caps: "fb_cap fb = cap" "fb_message_cap fb = mcap" "fb_total_cap fb = total_cap"
    using fb(3) by (simp_all add: same_caps_def fb_with_caps_def)
  have fits: "fb_fits fb mid d"
    using snoc.prems(3) [of mid] by (simp add: fb_fits_def prev caps e)
  have "mid \<notin> fst ` set es \<Longrightarrow> Suc (card (fst ` set es)) \<le> cap"
    using snoc.prems(1) by (simp add: e)
  moreover have "dom (fb_lookup fb) = fst ` set es" by (simp add: fb(5) dom_def)
  ultimately have room: "fb_room fb mid d"
    using snoc.prems(2) slots_card [OF fb(2)] fb(4) by (auto simp: fb_room_def caps e fb(5))
  from fb_push_spec [OF fb(2), of mid False d] fits room obtain fb'
    where fb': "fb_push mid False d fb = Some (None, fb')" "fb_inv fb'" "same_caps fb' fb"
      "fb_lookup fb' mid = Some (frags mid es @ d)" "fb_total fb' = fb_total fb + length d"
      "\<And>j. j \<noteq> mid \<Longrightarrow> fb_lookup fb' j = fb_lookup fb j"
    by (auto simp: fb_result_def fb_slot_after_def prev)
  have "fb_lookup fb' = (\<lambda>i. if i \<in> fst ` set (es @ [e]) then Some (frags i (es @ [e])) else None)"
    using fb'(4,6) by (auto simp: fun_eq_iff e fb(5) image_iff)
  moreover have "fb_run (es @ [e]) (fb_with_caps cap mcap total_cap) = Some fb'"
    using fb(1) fb'(1) by (simp add: fb_run_append e)
  ultimately show ?case
    using fb'(2,3,5) fb(3,4) by (auto simp: e same_caps_def)
qed

section \<open>Zero capacity diverges\<close>

lemma fb_make_room_diverges:
  assumes ret: "fb_make_room fb = Some fb'"
  shows "fb_cap fb \<noteq> 0"
proof (rule fb_make_room.raw_induct [where P = "\<lambda>fb fb'. fb_cap fb \<noteq> 0", OF _ ret])
  fix f fb fb'
  assume IH: "\<And>fb fb'. f fb = Some fb' \<Longrightarrow> fb_cap fb \<noteq> 0"
    and eq: "(if fb_cap fb \<le> length (fb_slots fb) then f (snd (fb_remove_at 0 fb)) else Some fb) = Some fb'"
  have cap: "fb_cap (snd (fb_remove_at 0 fb)) = fb_cap fb" by (simp add: fb_remove_at_def Let_def)
  show "fb_cap fb \<noteq> 0"
  proof
    assume "fb_cap fb = 0"
    with eq have "f (snd (fb_remove_at 0 fb)) = Some fb'" by simp
    from IH [OF this] cap \<open>fb_cap fb = 0\<close> show False by simp
  qed
qed

section \<open>The table as a machine\<close>

definition fb_step :: "message_id \<times> bool \<times> bytes \<Rightarrow> fragment_buffer \<Rightarrow> fragment_buffer option" where
  "fb_step op fb = (case op of (mid, fin, data) \<Rightarrow> map_option snd (fb_push mid fin data fb))"

interpretation fbm: invariant_machine fb_step fb_inv
proof
  fix fb and op :: "message_id \<times> bool \<times> bytes"
  assume "fb_inv fb"
  then show "\<exists>fb'. fb_step op fb = Some fb' \<and> fb_inv fb'"
    using fb_push_spec [of fb "fst op" "fst (snd op)" "snd (snd op)"]
    by (auto simp: fb_step_def split: prod.splits)
qed

section \<open>Properties\<close>

text \<open>
  C29 (invariant, functional): on every usable table (at least one slot, message bound within the
  aggregate bound) \<open>push\<close> returns, keeps the table's invariant (slot count, per-message bytes,
  aggregate byte count exact and within its bound), returns exactly the reassembled message on a
  fitting last fragment and nothing otherwise, and touches another message only by dropping it
  whole.
\<close>

theorem push_correct:
  assumes "fb_inv fb"
  shows "\<exists>fb'. fb_push mid fin data fb = Some (fb_result fb mid fin data, fb')
           \<and> fb_inv fb' \<and> fb_lookup fb' mid = fb_slot_after fb mid fin data
           \<and> (\<forall>j. j \<noteq> mid \<longrightarrow> fb_lookup fb' j = None \<or> fb_lookup fb' j = fb_lookup fb j)"
  using fb_push_spec [OF assms, of mid fin data] by blast

lemma fb_new_inv: "fb_inv fb_new"
  by (simp add: fb_inv_def fb_new_def fb_with_caps_def FRAGMENT_TABLE_CAP_def
      FRAGMENT_MESSAGE_CAP_def FRAGMENT_TOTAL_CAP_def)

theorem push_correct_witness:
  "\<exists>fb'. fb_push (arr_fill 1) True [7, 8] fb_new = Some (Some [7, 8], fb') \<and> fb_inv fb'"
proof -
  have "fb_result fb_new (arr_fill 1) True [7, 8] = Some [7, 8]"
    by (simp add: fb_result_def fb_fits_def fb_previous_def fb_lookup_def fb_new_def
        fb_with_caps_def FRAGMENT_MESSAGE_CAP_def MAX_MESSAGE_def)
  then show ?thesis
    using push_correct [OF fb_new_inv, of "arr_fill 1" True "[7, 8]"] by auto
qed

text \<open>
  C30 (functional): fragments of any number of messages, interleaved in any order within the
  table's bounds, are reassembled: the last fragment of a message returns the concatenation of
  its fragments in arrival order.
\<close>

theorem reassembles_interleaved:
  assumes "card (fst ` set (es @ [(mid, d)])) \<le> cap"
    and "sum_list (map (\<lambda>(_, x). length x) (es @ [(mid, d)])) \<le> total_cap"
    and "\<And>i. length (frags i (es @ [(mid, d)])) \<le> mcap"
    and "1 \<le> cap" and "mcap \<le> total_cap"
  shows "\<exists>fb fb'. fb_run es (fb_with_caps cap mcap total_cap) = Some fb
           \<and> fb_push mid True d fb = Some (Some (frags mid es @ d), fb')"
proof -
  have le: "length (frags i es) \<le> mcap" for i
    using assms(3) [of i] by (auto split: if_splits)
  have "card (fst ` set es) \<le> card (fst ` set (es @ [(mid, d)]))" by (intro card_mono) auto
  then have "card (fst ` set es) \<le> cap" using assms(1) by linarith
  moreover have "sum_list (map (\<lambda>(_, x). length x) es) \<le> total_cap" using assms(2) by simp
  ultimately obtain fb where fb: "fb_run es (fb_with_caps cap mcap total_cap) = Some fb" "fb_inv fb"
      "same_caps fb (fb_with_caps cap mcap total_cap)"
      "fb_lookup fb = (\<lambda>i. if i \<in> fst ` set es then Some (frags i es) else None)"
    using fb_run_within_bounds [of es cap total_cap mcap] le assms(4,5) by blast
  have prev: "fb_previous fb mid = frags mid es" by (simp add: fb_previous_def fb(4) frags_absent)
  have "fb_fits fb mid d"
    using assms(3) [of mid] fb(3) by (simp add: fb_fits_def prev same_caps_def fb_with_caps_def)
  with fb_push_spec [OF fb(2), of mid True d] fb(1) prev show ?thesis
    by (auto simp: fb_result_def)
qed

theorem reassembles_interleaved_witness:
  "\<exists>fb fb'. fb_run [(arr_fill 1, [1, 2]), (arr_fill 2, [9]), (arr_fill 1, [3])] (fb_with_caps 4 8 12) = Some fb
     \<and> fb_push (arr_fill 1) True [4] fb = Some (Some [1, 2, 3, 4], fb')"
proof -
  let ?es = "[(arr_fill 1, [1, 2]), (arr_fill 2, [9]), (arr_fill 1, [3 :: byte])] :: (message_id \<times> bytes) list"
  have len: "length (frags i (?es @ [(arr_fill 1, [4])])) \<le> 8" for i
    by (simp add: frags_def)
  have "card (fst ` set (?es @ [(arr_fill 1, [4])])) \<le> length (?es @ [(arr_fill 1, [4])])"
    using card_length [of "map fst (?es @ [(arr_fill 1, [4])])"] by simp
  then have card: "card (fst ` set (?es @ [(arr_fill 1, [4])])) \<le> 4" by simp
  have "frags (arr_fill 1) ?es = [1, 2, 3]" by (simp add: frags_def)
  then show ?thesis
    using reassembles_interleaved [OF card _ len, of 12] by simp
qed

text \<open>
  C40 (termination, error): the derived \<open>Default\<close> table has capacity zero, and pushing an empty
  fragment into it never returns: the loop that makes room has no slot to remove.
\<close>

theorem push_default_diverges: "fb_push mid fin [] fb_default = None"
proof -
  have "fb_make_room fb_default = None"
    using fb_make_room_diverges [of fb_default] by (cases "fb_make_room fb_default")
      (auto simp: fb_default_def fb_with_caps_def)
  then show ?thesis by (simp add: fb_push_def fb_default_def fb_with_caps_def)
qed

end
