(* ===== verification/Coverage.thy ===== *)
theory Coverage
  imports Gc_Prelude
begin

text \<open>
  The bounded receive coverage of \<open>crates/protocol/src/flow.rs\<close>: a floor and a 64-bit mask of
  selectively received counters above it, at their machine width. The abstract meaning of a
  coverage is the set of counters it covers; \<open>accept\<close> refines insertion into that set.
\<close>

unbundle bit_operations_syntax

section \<open>Checked and bitwise operations on \<open>u64\<close>\<close>

definition checked_add :: "u64 \<Rightarrow> u64 \<Rightarrow> u64 option" where
  "checked_add a b = (if a + b < a then None else Some (a + b))"

definition checked_sub :: "u64 \<Rightarrow> u64 \<Rightarrow> u64 option" where
  "checked_sub a b = (if b \<le> a then Some (a - b) else None)"

definition saturating_sub :: "u64 \<Rightarrow> u64 \<Rightarrow> u64" where
  "saturating_sub a b = (if b \<le> a then a - b else 0)"

definition leading_zeros :: "u64 \<Rightarrow> nat" where
  "leading_zeros m = length (takeWhile (\<lambda>i. \<not> bit m i) (rev [0..<64]))"

definition count_ones :: "u64 \<Rightarrow> nat" where
  "count_ones m = length (filter (bit m) [0..<64])"

lemma unat_less_2_64: "unat (x :: u64) < 18446744073709551616"
  using unsigned_less [where 'a = nat, of x] by simp

lemma unat_plus_u64: "unat a + unat b < 2 ^ 64 \<Longrightarrow> unat (a + b :: u64) = unat a + unat b"
  by (simp add: unat_word_ariths)

lemma unat_minus_u64: "b \<le> a \<Longrightarrow> unat (a - b :: u64) = unat a - unat b"
  by (simp add: unat_sub)

lemma unat_of_nat_u64: "n < 2 ^ 64 \<Longrightarrow> unat (of_nat n :: u64) = n"
  by (simp add: unat_of_nat)

lemma checked_add_eq: "checked_add a b = (if unat a + unat b < 2 ^ 64 then Some (a + b) else None)"
proof (cases "unat a + unat b < 2 ^ 64")
  case True
  then show ?thesis by (simp add: checked_add_def word_less_nat_alt unat_plus_u64)
next
  case False
  then have "unat (a + b) = unat a + unat b - 2 ^ 64"
    using unat_less_2_64 [of a] unat_less_2_64 [of b] by (simp add: unat_word_ariths mod_if)
  then show ?thesis
    using False unat_less_2_64 [of a] unat_less_2_64 [of b] by (simp add: checked_add_def word_less_nat_alt)
qed

lemma checked_add_Some: "checked_add a b = Some c \<longleftrightarrow> unat a + unat b < 2 ^ 64 \<and> c = a + b"
  by (auto simp: checked_add_eq)

lemma unat_saturating_sub: "unat (saturating_sub a b) = unat a - unat b"
  by (simp add: saturating_sub_def unat_minus_u64 word_le_nat_alt)

lemma bit_u64_less: "bit (m :: u64) i \<Longrightarrow> i < 64"
  using bit_imp_le_length [of m i] by simp

lemma bit_u64_63: "\<not> bit (m :: u64) 63 \<Longrightarrow> bit m i \<Longrightarrow> i < 63"
  using bit_u64_less [of m i] by (cases "i = 63") auto

definition bit_len :: "u64 \<Rightarrow> nat" where
  "bit_len m = 64 - leading_zeros m"

lemma leading_zeros_le: "leading_zeros m \<le> 64"
  unfolding leading_zeros_def using length_takeWhile_le [of _ "rev [0..<64]"] by simp

lemma bit_len_le: "bit_len m \<le> 64"
  by (simp add: bit_len_def)

lemma bit_less_bit_len:
  assumes "bit m i"
  shows "i < bit_len m"
proof (rule ccontr)
  assume "\<not> i < bit_len m"
  then have j: "63 - i < leading_zeros m" and i: "i < 64"
    using bit_u64_less [OF assms] leading_zeros_le [of m] by (auto simp: bit_len_def)
  have "rev [0..<64] ! (63 - i) = i" using i by (simp add: rev_nth)
  moreover have "\<not> bit m (rev [0..<64] ! (63 - i))"
    using j set_takeWhileD nth_mem takeWhile_nth unfolding leading_zeros_def by metis
  ultimately show False using assms by simp
qed

lemma bit_len_bit:
  assumes "0 < bit_len m"
  shows "bit m (bit_len m - 1)"
proof -
  have lz: "leading_zeros m < 64" using assms by (simp add: bit_len_def)
  then have "\<not> \<not> bit m (rev [0..<64] ! leading_zeros m)"
    unfolding leading_zeros_def by (intro nth_length_takeWhile) simp
  moreover have "rev [0..<64] ! leading_zeros m = bit_len m - 1"
    using lz by (simp add: rev_nth bit_len_def)
  ultimately show ?thesis by simp
qed

lemma count_ones_card: "count_ones m = card {i. bit m i}"
proof -
  have "{i. bit m i} = set (filter (bit m) [0..<64])" using bit_u64_less by auto
  then show ?thesis by (simp add: count_ones_def distinct_card [symmetric] del: set_filter)
qed

lemma count_ones_0 [simp]: "count_ones 0 = 0"
  by (simp add: count_ones_card)

section \<open>Coverage\<close>

datatype flow_error = FVersion | FLength | FCounter | FFull | FAuthentication | FUnknownReceipt | FState

definition MAX_SKIP :: nat where "MAX_SKIP = 64"
definition COUNTER_WINDOW :: u64 where "COUNTER_WINDOW = of_nat MAX_SKIP - 1"

lemma COUNTER_WINDOW_eq [simp]: "COUNTER_WINDOW = 63"
  by (simp add: COUNTER_WINDOW_def MAX_SKIP_def)

record coverage =
  cov_floor :: u64
  cov_mask :: u64

lemma coverage_eta [simp]: "\<lparr>cov_floor = cov_floor c, cov_mask = cov_mask c\<rparr> = c"
  by simp

definition cov_default :: coverage where
  "cov_default = \<lparr>cov_floor = 0, cov_mask = 0\<rparr>"

definition cov_highest :: "coverage \<Rightarrow> flow_error + u64" where
  "cov_highest c = ok_or FCounter (checked_add (cov_floor c) (of_nat (64 - leading_zeros (cov_mask c))))"

definition cov_count :: "coverage \<Rightarrow> flow_error + u64" where
  "cov_count c = ok_or FCounter (checked_add (cov_floor c) (of_nat (count_ones (cov_mask c))))"

definition cov_contains :: "coverage \<Rightarrow> u64 \<Rightarrow> bool" where
  "cov_contains c counter \<longleftrightarrow>
     counter \<le> cov_floor c
     \<or> (case checked_sub counter (cov_floor c + 1) of
          None \<Rightarrow> False
        | Some shift \<Rightarrow> shift < 63 \<and> cov_mask c AND push_bit (unat shift) 1 \<noteq> 0)"

lemma and_1_iff: "m AND 1 \<noteq> 0 \<longleftrightarrow> bit (m :: u64) 0"
  by (simp add: and_one_eq odd_iff_mod_2_eq_one bit_0)

lemma drop_bit_less: "bit (m :: u64) 0 \<Longrightarrow> unat (drop_bit 1 m) < unat m"
  by (cases "m = 0") (simp_all add: unat_drop_bit_eq drop_bit_eq_div unat_div unat_gt_0)

text \<open>The loop that slides the floor over the contiguous prefix of the mask.\<close>

function cov_slide :: "coverage \<Rightarrow> flow_error + coverage" where
  "cov_slide c =
     (if cov_mask c AND 1 \<noteq> 0
      then rbind (ok_or FCounter (checked_add (cov_floor c) 1))
             (\<lambda>f. cov_slide \<lparr>cov_floor = f, cov_mask = drop_bit 1 (cov_mask c)\<rparr>)
      else Inr c)"
  by pat_completeness auto

termination cov_slide
  by (relation "measure (\<lambda>c. unat (cov_mask c))") (auto simp: and_1_iff dest: drop_bit_less simp flip: One_nat_def)

declare cov_slide.simps [simp del]

definition cov_accept :: "u64 \<Rightarrow> coverage \<Rightarrow> flow_error + coverage" where
  "cov_accept counter c =
     rbind (ok_or FCounter (checked_sub counter (cov_floor c))) (\<lambda>distance.
     reject (distance = 0 \<or> COUNTER_WINDOW < distance \<or> cov_contains c counter) FCounter
       (cov_slide (c\<lparr>cov_mask := cov_mask c OR push_bit (unat (distance - 1)) 1\<rparr>)))"

definition cov_valid :: "coverage \<Rightarrow> bool" where
  "cov_valid c \<longleftrightarrow> cov_mask c AND 1 = 0 \<and> drop_bit 63 (cov_mask c) = 0 \<and> is_ok (cov_highest c)"

subsection \<open>The covered counters\<close>

definition cov_set :: "coverage \<Rightarrow> nat set" where
  "cov_set c = {1..unat (cov_floor c)} \<union> {unat (cov_floor c) + 1 + i | i. bit (cov_mask c) i}"

definition cov_hi :: "coverage \<Rightarrow> nat" where
  "cov_hi c = unat (cov_floor c) + bit_len (cov_mask c)"

lemma bit_len_eqI:
  assumes "\<And>i. bit m i \<Longrightarrow> i < k" and "0 < k \<Longrightarrow> bit m (k - 1)"
  shows "bit_len m = k"
proof (rule antisym)
  show "bit_len m \<le> k" using assms(1) [of "bit_len m - 1"] bit_len_bit [of m] by (cases "bit_len m") auto
  show "k \<le> bit_len m" using assms(2) bit_less_bit_len [of m "k - 1"] by (cases k) auto
qed

lemma bit_len_0 [simp]: "bit_len 0 = 0"
  by (rule bit_len_eqI) auto

lemma bit_len_drop_bit: "bit_len (drop_bit 1 m) = bit_len m - 1"
proof (rule bit_len_eqI)
  show "i < bit_len m - 1" if "bit (drop_bit 1 m) i" for i
    using that bit_less_bit_len [of m "Suc i"] by (simp add: bit_drop_bit_eq)
  show "bit (drop_bit 1 m) (bit_len m - 1 - 1)" if "0 < bit_len m - 1"
  proof -
    from that have "bit_len m = Suc (Suc (bit_len m - 2))" by simp
    then obtain k where "bit_len m = Suc (Suc k)" by blast
    then show ?thesis using bit_len_bit [of m] by (simp add: bit_drop_bit_eq)
  qed
qed

lemma bit_len_pos: "bit m i \<Longrightarrow> 0 < bit_len m"
  using bit_less_bit_len [of m i] by simp

lemma cov_valid_iff:
  "cov_valid c \<longleftrightarrow> \<not> bit (cov_mask c) 0 \<and> \<not> bit (cov_mask c) 63 \<and> cov_hi c < 2 ^ 64"
proof -
  have "drop_bit 63 (cov_mask c) = 0 \<longleftrightarrow> \<not> bit (cov_mask c) 63"
  proof
    assume z: "\<not> bit (cov_mask c) 63"
    have "\<not> bit (cov_mask c) (63 + i)" for i using z bit_u64_less [of "cov_mask c" "63 + i"] by (cases i) auto
    then show "drop_bit 63 (cov_mask c) = 0" by (simp add: bit_eq_iff bit_drop_bit_eq)
  next
    assume "drop_bit 63 (cov_mask c) = 0"
    then have "\<not> bit (drop_bit 63 (cov_mask c)) 0" by simp
    then show "\<not> bit (cov_mask c) 63" by (simp add: bit_drop_bit_eq del: bit_0)
  qed
  moreover have "is_ok (cov_highest c) \<longleftrightarrow> cov_hi c < 2 ^ 64"
    using bit_len_le [of "cov_mask c"]
    by (simp add: is_ok_iff cov_highest_def checked_add_eq cov_hi_def unat_of_nat_u64 flip: bit_len_def)
  ultimately show ?thesis using and_1_iff [of "cov_mask c"] by (auto simp: cov_valid_def)
qed

lemma cov_highest_eq:
  assumes "cov_hi c < 2 ^ 64"
  shows "\<exists>h. cov_highest c = Inr h \<and> unat h = cov_hi c"
  using assms bit_len_le [of "cov_mask c"]
  by (simp add: cov_highest_def checked_add_eq cov_hi_def unat_of_nat_u64 unat_plus_u64 flip: bit_len_def)

lemma cov_set_le_hi: "n \<in> cov_set c \<Longrightarrow> 1 \<le> n \<and> n \<le> cov_hi c"
  using bit_less_bit_len [of "cov_mask c"] by (auto simp: cov_set_def cov_hi_def Suc_le_eq)

lemma cov_hi_in: "0 < cov_hi c \<Longrightarrow> cov_hi c \<in> cov_set c"
proof (cases "bit_len (cov_mask c)")
  case (Suc k)
  then have "bit (cov_mask c) k" using bit_len_bit [of "cov_mask c"] by simp
  then show ?thesis using Suc by (auto simp: cov_set_def cov_hi_def)
qed (simp add: cov_set_def cov_hi_def)

lemma finite_cov_set [simp]: "finite (cov_set c)"
  by (rule finite_subset [of _ "{0..cov_hi c}"]) (use cov_set_le_hi in auto)

lemma cov_set_above:
  assumes "unat (cov_floor c) < n"
  shows "n \<in> cov_set c \<longleftrightarrow> bit (cov_mask c) (n - (unat (cov_floor c) + 1))"
proof -
  obtain k where "n = unat (cov_floor c) + 1 + k" using assms using less_iff_Suc_add [of "unat (cov_floor c)" n] by auto
  then show ?thesis by (simp add: cov_set_def)
qed

lemma cov_contains_iff:
  assumes "\<not> bit (cov_mask c) 63"
  shows "cov_contains c n \<longleftrightarrow> n = 0 \<or> unat n \<in> cov_set c"
proof (cases "n \<le> cov_floor c")
  case True
  then have "n = 0 \<or> 1 \<le> unat n" by (simp add: Suc_le_eq unat_gt_0)
  with True show ?thesis by (auto simp: cov_contains_def cov_set_def word_le_nat_alt)
next
  case False
  then have f: "unat (cov_floor c) < unat n" by (simp add: word_le_nat_alt)
  then have f1: "unat (cov_floor c + 1) = unat (cov_floor c) + 1"
  proof -
    have "unat (cov_floor c) + unat (1 :: u64) < 2 ^ 64"
      using f unat_less_2_64 [of n] by simp
    from unat_plus_u64 [OF this] show ?thesis by simp
  qed
  let ?s = "n - (cov_floor c + 1)"
  have le: "cov_floor c + 1 \<le> n" unfolding word_le_nat_alt f1 using f by linarith
  have s: "unat ?s = unat n - (unat (cov_floor c) + 1)" using unat_minus_u64 [OF le] unfolding f1 .
  have "cov_contains c n \<longleftrightarrow> unat ?s < 63 \<and> bit (cov_mask c) (unat ?s)"
    using False le by (simp add: cov_contains_def checked_sub_def push_bit_of_1 and_exp_eq_0_iff_not_bit
        word_less_nat_alt)
  also have "\<dots> \<longleftrightarrow> bit (cov_mask c) (unat ?s)"
    using assms bit_u64_63 by blast
  also have "\<dots> \<longleftrightarrow> unat n \<in> cov_set c" unfolding s cov_set_above [OF f] ..
  finally have "cov_contains c n \<longleftrightarrow> unat n \<in> cov_set c" .
  moreover have "n \<noteq> 0" using f by (metis not_less_zero unat_0)
  ultimately show ?thesis by simp
qed

lemma cov_set_below: "1 \<le> n \<Longrightarrow> n \<le> unat (cov_floor c) \<Longrightarrow> n \<in> cov_set c"
  by (simp add: cov_set_def)

lemma cov_hi_leI: "(\<And>n. n \<in> cov_set c \<Longrightarrow> n \<le> k) \<Longrightarrow> cov_hi c \<le> k"
  using cov_hi_in [of c] by (cases "cov_hi c") auto

text \<open>Two coverages with the same floor and mask bits above it cover the same counters.\<close>

lemma cov_set_eqI:
  assumes "\<And>n. 1 \<le> n \<Longrightarrow> n \<in> cov_set c \<longleftrightarrow> n \<in> A" and "0 \<notin> A"
  shows "cov_set c = A"
proof (rule set_eqI)
  show "n \<in> cov_set c \<longleftrightarrow> n \<in> A" for n
    using assms cov_set_le_hi [of n c] by (cases n) auto
qed

lemma zero_not_covered [simp]: "0 \<notin> cov_set c"
  using cov_set_le_hi [of 0 c] by auto

lemma cov_set_step:
  assumes "bit (cov_mask c) 0" and "unat (cov_floor c) + 1 < 2 ^ 64"
  shows "cov_set \<lparr>cov_floor = cov_floor c + 1, cov_mask = drop_bit 1 (cov_mask c)\<rparr> = cov_set c"
    (is "cov_set ?c = _")
proof (rule cov_set_eqI)
  have f: "unat (cov_floor ?c) = unat (cov_floor c) + 1"
    using unat_plus_u64 [of "cov_floor c" 1] assms(2) by simp
  fix n :: nat
  assume n: "1 \<le> n"
  consider "n \<le> unat (cov_floor c)" | "n = unat (cov_floor c) + 1" | k where "n = unat (cov_floor c) + 2 + k"
    by (metis add.commute add_2_eq_Suc' le_Suc_ex not_less_eq_eq plus_1_eq_Suc le_antisym)
  then show "n \<in> cov_set ?c \<longleftrightarrow> n \<in> cov_set c"
  proof cases
    case 1
    then show ?thesis using n f by (simp add: cov_set_below)
  next
    case 2
    then have "n \<in> cov_set ?c" "n \<in> cov_set c"
      using n f assms(1) by (simp_all add: cov_set_below cov_set_above)
    then show ?thesis by simp
  next
    case 3
    then show ?thesis using f cov_set_above [of c n] cov_set_above [of ?c n] by (simp add: bit_drop_bit_eq)
  qed
qed simp

lemma cov_hi_step:
  assumes "bit (cov_mask c) 0" and "unat (cov_floor c) + 1 < 2 ^ 64"
  shows "cov_hi \<lparr>cov_floor = cov_floor c + 1, cov_mask = drop_bit 1 (cov_mask c)\<rparr> = cov_hi c"
  using bit_len_pos [OF assms(1)] unat_plus_u64 [of "cov_floor c" 1] assms(2) bit_len_drop_bit [of "cov_mask c"]
  by (simp add: cov_hi_def)

lemma cov_slide_spec:
  assumes "cov_hi c < 2 ^ 64" and "\<not> bit (cov_mask c) 63"
  shows "\<exists>c'. cov_slide c = Inr c' \<and> cov_valid c' \<and> cov_set c' = cov_set c \<and> cov_floor c \<le> cov_floor c'"
  using assms
proof (induction c rule: cov_slide.induct)
  case (1 c)
  show ?case
  proof (cases "bit (cov_mask c) 0")
    case True
    let ?c = "\<lparr>cov_floor = cov_floor c + 1, cov_mask = drop_bit 1 (cov_mask c)\<rparr>"
    have f: "unat (cov_floor c) + 1 < 2 ^ 64"
      using bit_len_pos [OF True] "1.prems"(1) by (simp add: cov_hi_def)
    have ca: "checked_add (cov_floor c) 1 = Some (cov_floor c + 1)" using f by (simp add: checked_add_eq)
    have "\<not> bit (cov_mask ?c) 63" using bit_u64_less [of "cov_mask c" 64] by (auto simp: bit_drop_bit_eq)
    moreover have "cov_hi ?c < 2 ^ 64" using cov_hi_step [OF True f] "1.prems"(1) by simp
    ultimately obtain c' where c': "cov_slide ?c = Inr c'" "cov_valid c'" "cov_set c' = cov_set ?c"
        "cov_floor ?c \<le> cov_floor c'"
      using "1.IH" [of "cov_floor c + 1"] True ca by (auto simp: and_1_iff)
    have "cov_slide c = Inr c'" using c'(1) True ca by (subst cov_slide.simps) (simp add: and_1_iff)
    moreover have "cov_floor c \<le> cov_floor c'"
      using c'(4) f unat_plus_u64 [of "cov_floor c" 1] by (simp add: word_le_nat_alt)
    ultimately show ?thesis using c' cov_set_step [OF True f] by auto
  next
    case False
    then have "cov_slide c = Inr c" by (subst cov_slide.simps) (simp add: and_1_iff)
    then show ?thesis using False "1.prems" by (simp add: cov_valid_iff)
  qed
qed

lemma cov_valid_inject:
  assumes "cov_valid c" "cov_valid c'" "cov_set c = cov_set c'"
  shows "c = c'"
proof -
  have le: "unat (cov_floor a) \<le> unat (cov_floor b)" if "cov_valid b" "cov_set a = cov_set b" for a b
  proof (rule ccontr)
    assume "\<not> ?thesis"
    then have "unat (cov_floor b) + 1 \<in> cov_set a" by (simp add: cov_set_below)
    then have "bit (cov_mask b) 0" using that(2) cov_set_above [of b "unat (cov_floor b) + 1"] by simp
    then show False using that(1) by (simp add: cov_valid_iff)
  qed
  have f: "cov_floor c = cov_floor c'"
    using le [OF assms(2,3)] le [OF assms(1) assms(3) [symmetric]] by (simp add: word_unat_eq_iff)
  have "bit (cov_mask c) i = bit (cov_mask c') i" for i
    using cov_set_above [of c "unat (cov_floor c) + 1 + i"] cov_set_above [of c' "unat (cov_floor c) + 1 + i"]
      f assms(3) by simp
  then have "cov_mask c = cov_mask c'" by (simp add: bit_eq_iff)
  with f show ?thesis by simp
qed

lemma cov_set_card: "card (cov_set c) = unat (cov_floor c) + count_ones (cov_mask c)"
proof -
  let ?g = "\<lambda>i. unat (cov_floor c) + 1 + i" and ?B = "{i. bit (cov_mask c) i}"
  have "cov_set c = {1..unat (cov_floor c)} \<union> ?g ` ?B" by (auto simp: cov_set_def)
  moreover have "finite ?B" by (rule finite_subset [of _ "{..<64}"]) (use bit_u64_less in auto)
  moreover have "card (?g ` ?B) = card ?B" by (rule card_image) (simp add: inj_on_def)
  moreover have "card ({1..unat (cov_floor c)} \<union> ?g ` ?B) = card {1..unat (cov_floor c)} + card (?g ` ?B)"
    by (rule card_Un_disjoint) (use calculation(2) in auto)
  ultimately show ?thesis by (simp add: count_ones_card)
qed

lemma cov_count_eq:
  assumes "cov_hi c < 2 ^ 64"
  shows "\<exists>k. cov_count c = Inr k \<and> unat k = card (cov_set c)"
proof -
  have "card (cov_set c) \<le> card {1..cov_hi c}" by (rule card_mono) (use cov_set_le_hi in auto)
  then have "card (cov_set c) < 2 ^ 64" using assms by simp
  then show ?thesis unfolding cov_set_card
    by (auto simp: cov_count_def checked_add_eq unat_of_nat_u64 unat_plus_u64)
qed

lemma cov_subset_floor:
  assumes "cov_set prior \<subseteq> cov_set received" and "\<not> bit (cov_mask received) 0"
  shows "cov_floor prior \<le> cov_floor received"
proof (rule ccontr)
  assume "\<not> ?thesis"
  then have "unat (cov_floor received) + 1 \<in> cov_set prior" by (simp add: cov_set_below word_le_nat_alt)
  with assms(1) have "bit (cov_mask received) 0" using cov_set_above [of received "unat (cov_floor received) + 1"] by auto
  then show False using assms(2) by contradiction
qed

lemma cov_subset_iff:
  assumes "\<not> bit (cov_mask received) 0"
  shows "cov_set prior \<subseteq> cov_set received \<longleftrightarrow> cov_floor prior \<le> cov_floor received
    \<and> (\<forall>i. bit (cov_mask prior) i \<longrightarrow> unat (cov_floor prior) + 1 + i \<in> cov_set received)" (is "?l \<longleftrightarrow> ?r")
proof
  assume ?l
  then show ?r using cov_subset_floor [OF _ assms] by (auto simp: cov_set_def [of prior])
next
  assume ?r
  then have "n \<in> cov_set received" if "n \<in> cov_set prior" for n
    using that cov_set_below [of n received] by (auto simp: cov_set_def [of prior] word_le_nat_alt)
  then show ?l by blast
qed

subsection \<open>Acceptance\<close>

lemma cov_set_set_bit:
  assumes "k < 64" and "cov_mask c' = cov_mask c OR push_bit k 1" and "cov_floor c' = cov_floor c"
  shows "cov_set c' = insert (unat (cov_floor c) + 1 + k) (cov_set c)"
proof -
  have "bit (cov_mask c') i \<longleftrightarrow> bit (cov_mask c) i \<or> i = k" for i
    using assms(1,2) by (auto simp: bit_or_iff bit_exp_iff)
  then show ?thesis unfolding cov_set_def assms(3) by auto
qed

lemma cov_accept_ok:
  assumes "cov_valid c" and "unat n \<notin> cov_set c" and "unat (cov_floor c) < unat n"
    and "unat n \<le> unat (cov_floor c) + 63"
  shows "\<exists>c'. cov_accept n c = Inr c' \<and> cov_valid c' \<and> cov_set c' = insert (unat n) (cov_set c)
           \<and> cov_floor c \<le> cov_floor c'"
proof -
  let ?d = "n - cov_floor c"
  let ?c = "c\<lparr>cov_mask := cov_mask c OR push_bit (unat (?d - 1)) 1\<rparr>"
  have v: "\<not> bit (cov_mask c) 63" "cov_hi c < 2 ^ 64" using assms(1) by (simp_all add: cov_valid_iff)
  have le: "cov_floor c \<le> n" using assms(3) by (simp add: word_le_nat_alt)
  have d: "unat ?d = unat n - unat (cov_floor c)" by (rule unat_minus_u64 [OF le])
  have "1 \<le> ?d" using d assms(3) by (simp add: word_le_nat_alt)
  then have d1: "unat (?d - 1) = unat n - unat (cov_floor c) - 1" using unat_minus_u64 [of 1 ?d] d by simp
  have set: "cov_set ?c = insert (unat n) (cov_set c)"
    using cov_set_set_bit [of "unat (?d - 1)" ?c c] assms(3,4) d1 by simp
  have "cov_hi ?c \<le> max (unat n) (cov_hi c)"
    by (rule cov_hi_leI) (use set cov_set_le_hi [of _ c] in \<open>auto simp: le_max_iff_disj\<close>)
  then have hi: "cov_hi ?c < 2 ^ 64" using v(2) unat_less_2_64 [of n] by simp
  have "\<not> bit (cov_mask ?c) 63"
    using v(1) d1 assms(3,4) by (auto simp: bit_or_iff bit_exp_iff)
  from cov_slide_spec [OF hi this] obtain c' where
    c': "cov_slide ?c = Inr c'" "cov_valid c'" "cov_set c' = cov_set ?c" "cov_floor ?c \<le> cov_floor c'" by blast
  have "n \<noteq> 0" using assms(3) by (metis not_less_zero unat_0)
  then have "\<not> cov_contains c n" using assms(2) cov_contains_iff [OF v(1)] by simp
  moreover have "?d \<noteq> 0" "\<not> COUNTER_WINDOW < ?d"
    using d assms(3,4) by (auto simp: word_less_nat_alt)
  ultimately have "cov_accept n c = cov_slide ?c" using le by (simp add: cov_accept_def checked_sub_def)
  with c' set show ?thesis by simp
qed

lemma cov_accept_iff:
  assumes "cov_valid c"
  shows "is_ok (cov_accept n c) \<longleftrightarrow>
    unat n \<notin> cov_set c \<and> unat (cov_floor c) < unat n \<and> unat n \<le> unat (cov_floor c) + 63"
proof
  assume "is_ok (cov_accept n c)"
  then have le: "cov_floor c \<le> n" and d: "n - cov_floor c \<noteq> 0" "\<not> 63 < n - cov_floor c"
      and nc: "\<not> cov_contains c n"
    by (auto simp: is_ok_iff cov_accept_def checked_sub_def split: if_splits)
  have "unat (n - cov_floor c) = unat n - unat (cov_floor c)" by (rule unat_minus_u64 [OF le])
  with d have "unat (cov_floor c) < unat n" "unat n \<le> unat (cov_floor c) + 63"
    using le by (auto simp: word_less_nat_alt word_le_nat_alt unat_eq_zero [symmetric] simp del: unat_eq_zero)
  moreover have "unat n \<notin> cov_set c" using nc cov_contains_iff [of c n] assms by (simp add: cov_valid_iff)
  ultimately show "unat n \<notin> cov_set c \<and> unat (cov_floor c) < unat n \<and> unat n \<le> unat (cov_floor c) + 63" by simp
next
  assume "unat n \<notin> cov_set c \<and> unat (cov_floor c) < unat n \<and> unat n \<le> unat (cov_floor c) + 63"
  then show "is_ok (cov_accept n c)" using cov_accept_ok [OF assms] by (auto simp: is_ok_iff)
qed

subsection \<open>Merging an authenticated coverage\<close>

text \<open>\<open>u64::checked_shr\<close> with its \<open>u32\<close> shift amount.\<close>

definition checked_shr :: "u64 \<Rightarrow> u32 \<Rightarrow> u64 option" where
  "checked_shr m s = (if s < 64 then Some (drop_bit (unat s) m) else None)"

definition cov_merge :: "coverage \<Rightarrow> coverage \<Rightarrow> flow_error + coverage" where
  "cov_merge old new =
     (let advance = cov_floor new - cov_floor old;
          previous_mask = (case checked_shr (cov_mask old) (ucast advance) of None \<Rightarrow> 0 | Some m \<Rightarrow> m)
      in cov_slide \<lparr>cov_floor = cov_floor new, cov_mask = cov_mask new OR previous_mask\<rparr>)"

lemma cov_merge_ok:
  assumes "cov_valid old" and "cov_valid new" and "cov_floor old \<le> cov_floor new"
    and near: "unat (cov_floor new) \<le> unat (cov_floor old) + 63"
  shows "\<exists>c. cov_merge old new = Inr c \<and> cov_valid c \<and> cov_set c = cov_set old \<union> cov_set new
           \<and> cov_floor new \<le> cov_floor c"
proof -
  let ?a = "cov_floor new - cov_floor old"
  have a: "unat ?a = unat (cov_floor new) - unat (cov_floor old)" by (rule unat_minus_u64 [OF assms(3)])
  then have u: "unat (ucast ?a :: u32) = unat ?a" using near by (simp add: unsigned_ucast_eq take_bit_nat_eq_self)
  let ?c = "\<lparr>cov_floor = cov_floor new, cov_mask = cov_mask new OR drop_bit (unat ?a) (cov_mask old)\<rparr>"
  have m: "cov_merge old new = cov_slide ?c"
  proof -
    have "(ucast ?a :: u32) < 64" using u a near by (simp add: word_less_nat_alt)
    then show ?thesis by (simp add: cov_merge_def checked_shr_def u)
  qed
  have set: "cov_set ?c = cov_set old \<union> cov_set new"
  proof (rule cov_set_eqI)
    fix n :: nat
    assume n: "1 \<le> n"
    show "n \<in> cov_set ?c \<longleftrightarrow> n \<in> cov_set old \<union> cov_set new"
    proof (cases "n \<le> unat (cov_floor new)")
      case True
      then show ?thesis using n by (simp add: cov_set_below)
    next
      case False
      have "unat (cov_floor old) \<le> unat (cov_floor new)" using assms(3) by (simp add: word_le_nat_alt)
      then have "unat ?a + (n - (unat (cov_floor new) + 1)) = n - (unat (cov_floor old) + 1)"
        using False a by simp
      then show ?thesis
        using False \<open>unat (cov_floor old) \<le> unat (cov_floor new)\<close>
          cov_set_above [of ?c n] cov_set_above [of old n] cov_set_above [of new n]
        by (auto simp: bit_or_iff bit_drop_bit_eq)
    qed
  qed simp
  have "cov_hi ?c \<le> max (cov_hi old) (cov_hi new)"
    by (rule cov_hi_leI) (use set cov_set_le_hi in \<open>auto simp: le_max_iff_disj\<close>)
  moreover have "max (cov_hi old) (cov_hi new) < 2 ^ 64" using assms(1,2) by (simp add: cov_valid_iff)
  ultimately have hi: "cov_hi ?c < 2 ^ 64" by (rule le_less_trans)
  have "\<not> bit (cov_mask ?c) 63"
    using assms(1,2) bit_u64_63 [of "cov_mask old" "unat ?a + 63"] by (auto simp: cov_valid_iff bit_or_iff bit_drop_bit_eq)
  from cov_slide_spec [OF hi this] m set show ?thesis by auto
qed

section \<open>Properties\<close>

text \<open>
  C21 (refinement): on a valid coverage \<open>accept\<close> succeeds exactly for a counter that is not covered
  yet and lies within the 63 counters above the floor; it then covers exactly that counter in
  addition, stays valid, never lowers the floor and raises the count by exactly one.
\<close>

theorem accept_refines_insert:
  assumes "cov_valid c"
  shows "(is_ok (cov_accept n c) \<longleftrightarrow> unat n \<notin> cov_set c \<and> unat n \<in> {unat (cov_floor c) + 1..unat (cov_floor c) + 63})
    \<and> (\<forall>c'. cov_accept n c = Inr c' \<longrightarrow>
         cov_valid c' \<and> cov_set c' = insert (unat n) (cov_set c) \<and> cov_floor c \<le> cov_floor c'
         \<and> (\<exists>k k'. cov_count c = Inr k \<and> cov_count c' = Inr k' \<and> unat k' = unat k + 1))"
proof (intro conjI allI impI)
  show iff: "is_ok (cov_accept n c) \<longleftrightarrow> unat n \<notin> cov_set c \<and> unat n \<in> {unat (cov_floor c) + 1..unat (cov_floor c) + 63}"
    using cov_accept_iff [OF assms, of n] by auto
  fix c'
  assume e: "cov_accept n c = Inr c'"
  with iff have n: "unat n \<notin> cov_set c" "unat (cov_floor c) < unat n" "unat n \<le> unat (cov_floor c) + 63" by auto
  from cov_accept_ok [OF assms n] e
  have c': "cov_valid c'" "cov_set c' = insert (unat n) (cov_set c)" "cov_floor c \<le> cov_floor c'" by auto
  then show "cov_valid c'" "cov_set c' = insert (unat n) (cov_set c)" "cov_floor c \<le> cov_floor c'" by auto
  show "\<exists>k k'. cov_count c = Inr k \<and> cov_count c' = Inr k' \<and> unat k' = unat k + 1"
    using cov_count_eq [of c] cov_count_eq [of c'] assms c' n(1) by (auto simp: cov_valid_iff)
qed

theorem accept_refines_insert_witness:
  "cov_accept 3 \<lparr>cov_floor = 1, cov_mask = 0\<rparr> = Inr \<lparr>cov_floor = 1, cov_mask = 2\<rparr>
   \<and> cov_set \<lparr>cov_floor = 1, cov_mask = 2\<rparr> = insert 3 (cov_set \<lparr>cov_floor = 1, cov_mask = 0\<rparr>)"
proof -
  have v: "cov_valid \<lparr>cov_floor = 1, cov_mask = 0\<rparr>" by code_simp
  have e: "cov_accept 3 \<lparr>cov_floor = 1, cov_mask = 0\<rparr> = Inr \<lparr>cov_floor = 1, cov_mask = 2\<rparr>" by code_simp
  with accept_refines_insert [OF v, of 3] show ?thesis by auto
qed

end
