(* ===== verification/Gossip.thy ===== *)
theory Gossip
  imports Fragments Coverage Complex_Main "HOL-Library.AList" "HOL-Library.Multiset"
begin

text \<open>
  The gossip overlay of \<open>crates/gossip\<close>: the duplicate filter of \<open>dedup.rs\<close>, the bounded peer
  sample of \<open>view.rs\<close> and the overlay of \<open>overlay.rs\<close> that composes them. The random number
  generator of the \<open>rand\<close> crate is a parameter: its state is a type variable and each draw a
  function of \<open>rng_ops\<close>, of which the lemmas use only what the crate documents (\<open>rng_ok\<close>: an
  index is in range, a shuffle is a permutation). An overflow of the \<open>u64\<close> clock or of a \<open>usize\<close>
  product or difference, which panics in a build with overflow checks, is \<open>None\<close>.
\<close>

section \<open>Duplicate filter\<close>

record dedup =
  dd_seen :: "(message_id \<times> u64) list"
  dd_order :: "(message_id \<times> u64) list"
  dd_clock :: u64
  dd_cap :: nat

definition dedup_new :: "nat \<Rightarrow> dedup" where
  "dedup_new cap = \<lparr>dd_seen = [], dd_order = [], dd_clock = 0, dd_cap = max cap 1\<rparr>"

text \<open>
  The \<open>evict\<close> loop: pop the front of \<open>order\<close> while \<open>seen\<close> is over capacity, forgetting the id
  when the popped stamp is still its current one.
\<close>

fun dd_evict :: "nat \<Rightarrow> (message_id \<times> u64) list \<Rightarrow> (message_id \<times> u64) list
    \<Rightarrow> (message_id \<times> u64) list \<times> (message_id \<times> u64) list" where
  "dd_evict cap seen [] = (seen, [])"
| "dd_evict cap seen ((i, s) # rest) =
     (if cap < length seen
      then dd_evict cap (if map_of seen i = Some s then AList.delete i seen else seen) rest
      else (seen, (i, s) # rest))"

text \<open>\<open>usize\<close> multiplication, of 64 bits.\<close>

definition usize_mul :: "nat \<Rightarrow> nat \<Rightarrow> nat option" where
  "usize_mul a b = (if a * b < 2 ^ 64 then Some (a * b) else None)"

text \<open>The \<open>compact\<close> loop: drop superseded stamps; a live front is re-appended and ends the loop.
  The limit, \<open>cap * 2\<close>, is the same in every round.\<close>

fun dd_compact_loop :: "nat \<Rightarrow> (message_id \<times> u64) list \<Rightarrow> (message_id \<times> u64) list \<Rightarrow> (message_id \<times> u64) list" where
  "dd_compact_loop limit seen [] = []"
| "dd_compact_loop limit seen ((i, s) # rest) =
     (if limit < length ((i, s) # rest)
      then if map_of seen i = Some s then rest @ [(i, s)] else dd_compact_loop limit seen rest
      else (i, s) # rest)"

definition dd_compact ::
  "nat \<Rightarrow> (message_id \<times> u64) list \<Rightarrow> (message_id \<times> u64) list \<Rightarrow> (message_id \<times> u64) list option" where
  "dd_compact cap seen order = map_option (\<lambda>limit. dd_compact_loop limit seen order) (usize_mul cap 2)"

definition check_and_insert :: "message_id \<Rightarrow> dedup \<Rightarrow> (bool \<times> dedup) option" where
  "check_and_insert i d =
     Option.bind (checked_add (dd_clock d) 1) (\<lambda>clock.
       case map_of (dd_seen d) i of
         Some _ \<Rightarrow>
           let seen = AList.update i clock (dd_seen d)
           in Option.bind (dd_compact (dd_cap d) seen (dd_order d @ [(i, clock)])) (\<lambda>order.
              Some (False, d\<lparr>dd_clock := clock, dd_seen := seen, dd_order := order\<rparr>))
       | None \<Rightarrow>
           let (seen, order) = dd_evict (dd_cap d) (AList.update i clock (dd_seen d))
                                 (dd_order d @ [(i, clock)])
           in Some (True, d\<lparr>dd_clock := clock, dd_seen := seen, dd_order := order\<rparr>))"

definition dd_forget :: "message_id \<Rightarrow> dedup \<Rightarrow> dedup" where
  "dd_forget i d = d\<lparr>dd_seen := AList.delete i (dd_seen d),
                     dd_order := filter (\<lambda>(e, _). e \<noteq> i) (dd_order d)\<rparr>"

definition forget_all :: "dedup \<Rightarrow> dedup" where
  "forget_all d = d\<lparr>dd_seen := [], dd_order := []\<rparr>"

definition dd_len :: "dedup \<Rightarrow> nat" where
  "dd_len d = length (dd_seen d)"

subsection \<open>Invariant\<close>

text \<open>
  Every remembered id has its current stamp in the queue (so the eviction loop always finds a
  victim), stamps do not run ahead of the clock, and the table is within its capacity.
\<close>

definition dd_inv :: "dedup \<Rightarrow> bool" where
  "dd_inv d \<longleftrightarrow> 1 \<le> dd_cap d \<and> distinct (map fst (dd_seen d)) \<and> length (dd_seen d) \<le> dd_cap d
     \<and> set (dd_seen d) \<subseteq> set (dd_order d) \<and> (\<forall>p \<in> set (dd_order d). snd p \<le> dd_clock d)"

definition dd_knows :: "dedup \<Rightarrow> message_id set" where
  "dd_knows d = fst ` set (dd_seen d)"

lemma in_seen_iff: "distinct (map fst seen) \<Longrightarrow> (i, s) \<in> set seen \<longleftrightarrow> map_of seen i = Some s"
  by (metis map_of_SomeD map_of_eq_Some_iff)

lemma length_AList_delete:
  "distinct (map fst al) \<Longrightarrow> k \<in> fst ` set al \<Longrightarrow> length (AList.delete k al) = length al - 1"
proof (induction al)
  case (Cons p al)
  then show ?case
  proof (cases "fst p = k")
    case True
    with Cons.prems have "k \<notin> fst ` set al" by auto
    then have "AList.delete k al = al" by (simp add: AList.delete_eq filter_id_conv) force
    with True show ?thesis by (cases p) (simp add: AList.delete_eq)
  next
    case False
    with Cons have "k \<in> fst ` set al" by auto
    then have "al \<noteq> []" by auto
    with False Cons \<open>k \<in> fst ` set al\<close> show ?thesis
      by (cases p) (simp add: AList.delete_eq Suc_diff_le Suc_leI)
  qed
qed simp

lemma length_AList_update:
  "k \<in> fst ` set al \<Longrightarrow> length (AList.update k v al) = length al"
  "k \<notin> fst ` set al \<Longrightarrow> length (AList.update k v al) = Suc (length al)"
  by (induction al) (auto split: if_splits)

lemma set_AList_update:
  "distinct (map fst al) \<Longrightarrow> set (AList.update k v al) = insert (k, v) {(i, s) \<in> set al. i \<noteq> k}"
  by (induction al) (auto simp: image_iff split: if_splits)

lemma set_AList_delete: "set (AList.delete k al) = {(i, s) \<in> set al. i \<noteq> k}"
  by (auto simp: AList.delete_eq)

lemma keys_AList_delete: "fst ` set (AList.delete k al) = fst ` set al - {k}"
  by (metis delete_keys list.set_map set_removeAll)

text \<open>
  One insertion over capacity: the loop stops after forgetting one id, never the newest.
\<close>

lemma dd_evict_correct:
  assumes "distinct (map fst seen)" and "set seen \<subseteq> set (pre @ [(i, c)])"
    and "map_of seen i = Some c" and "\<forall>p \<in> set pre. snd p < c"
    and "1 \<le> cap" and "length seen \<le> Suc cap"
    and "dd_evict cap seen (pre @ [(i, c)]) = (seen', order')"
  shows "distinct (map fst seen') \<and> set seen' \<subseteq> set order' \<and> map_of seen' i = Some c
      \<and> length seen' \<le> cap \<and> set seen' \<subseteq> set seen \<and> set order' \<subseteq> set (pre @ [(i, c)])
      \<and> length seen \<le> Suc (length seen') \<and> (length seen \<le> cap \<longrightarrow> seen' = seen)"
  using assms
proof (induction pre arbitrary: seen)
  case Nil
  then have "set seen \<subseteq> {(i, c)}" by simp
  moreover have "distinct seen" using Nil.prems(1) by (simp add: distinct_map)
  ultimately have "length seen \<le> 1"
    by (metis card_mono distinct_card finite.emptyI finite.insertI is_singletonI
        is_singleton_altdef One_nat_def)
  with Nil show ?case by (auto split: if_splits)
next
  case (Cons p pre)
  obtain j s where p: "p = (j, s)" by (cases p)
  show ?case
  proof (cases "cap < length seen")
    case False
    with Cons.prems p show ?thesis by auto
  next
    case True
    show ?thesis
    proof (cases "map_of seen j = Some s")
      case True
      have ji: "j \<noteq> i" using True Cons.prems(3,4) p by auto
      let ?seen = "AList.delete j seen"
      have mem: "j \<in> fst ` set seen" using True by (metis domI dom_map_of_conv_image_fst)
      have len: "length ?seen = length seen - 1"
        using length_AList_delete [OF Cons.prems(1) mem] .
      have ev: "dd_evict cap ?seen (pre @ [(i, c)]) = (seen', order')"
        using Cons.prems(7) True \<open>cap < length seen\<close> p by simp
      moreover have "\<not> cap < length ?seen" using len Cons.prems(6) by simp
      ultimately have eq: "seen' = ?seen" "order' = pre @ [(i, c)]"
        by (cases pre; force split: if_splits)+
      have sub: "set ?seen \<subseteq> set (pre @ [(i, c)])"
        using Cons.prems(2) p by (auto simp: set_AList_delete)
      show ?thesis
        using Cons.prems(1,3) ji sub len \<open>cap < length seen\<close> Cons.prems(6)
        by (auto simp: eq set_AList_delete delete_conv distinct_delete)
    next
      case False
      then have "(j, s) \<notin> set seen" using in_seen_iff [OF Cons.prems(1)] by simp
      then have "set seen \<subseteq> set (pre @ [(i, c)])" using Cons.prems(2) p by auto
      with Cons.IH [of seen] Cons.prems False \<open>cap < length seen\<close> p show ?thesis by auto
    qed
  qed
qed

lemma dd_compact_subset: "set (dd_compact_loop limit seen order) \<subseteq> set order"
  by (induction limit seen order rule: dd_compact_loop.induct) auto

lemma dd_compact_keeps_live:
  "map_of seen i = Some s \<Longrightarrow> (i, s) \<in> set order \<Longrightarrow> (i, s) \<in> set (dd_compact_loop limit seen order)"
  by (induction limit seen order rule: dd_compact_loop.induct) auto

lemma clock_step: "checked_add a 1 = Some c \<Longrightarrow> p \<le> a \<Longrightarrow> p < c"
  by (auto simp: checked_add_Some word_less_nat_alt word_le_nat_alt unat_plus_u64)

lemma clock_meter: "checked_add a 1 = Some c \<Longrightarrow> unat c = Suc (unat a)"
  by (auto simp: checked_add_Some unat_plus_u64)

lemma dedup_new_inv: "dd_inv (dedup_new cap)"
  by (simp add: dd_inv_def dedup_new_def)

lemma check_and_insert_repeat:
  assumes "dd_inv d" and "i \<in> dd_knows d" and clock: "checked_add (dd_clock d) 1 = Some c" and cap: "dd_cap d * 2 < 2 ^ 64"
  obtains d' where "check_and_insert i d = Some (False, d')" "dd_inv d'" "dd_knows d' = dd_knows d"
    "dd_cap d' = dd_cap d" "dd_clock d' = c"
proof -
  let ?seen = "AList.update i c (dd_seen d)"
  let ?order = "dd_compact_loop (dd_cap d * 2) ?seen (dd_order d @ [(i, c)])"
  let ?d = "d\<lparr>dd_clock := c, dd_seen := ?seen, dd_order := ?order\<rparr>"
  have dist: "distinct (map fst (dd_seen d))" using assms(1) by (simp add: dd_inv_def)
  have i: "i \<in> fst ` set (dd_seen d)" using assms(2) by (simp add: dd_knows_def)
  then obtain v where "map_of (dd_seen d) i = Some v" by (metis map_of_eq_None_iff option.exhaust)
  then have c: "check_and_insert i d = Some (False, ?d)"
    using cap by (simp add: check_and_insert_def Let_def clock dd_compact_def usize_mul_def)
  have dist': "distinct (map fst ?seen)" using dist by (rule distinct_update)
  have "set ?seen \<subseteq> set (dd_order d @ [(i, c)])"
    using assms(1) dist by (auto simp: set_AList_update dd_inv_def)
  then have "set ?seen \<subseteq> set ?order"
    using dd_compact_keeps_live in_seen_iff [OF dist'] by (auto simp: subset_iff)
  moreover have "\<forall>p \<in> set ?order. snd p \<le> c"
  proof
    fix p
    assume "p \<in> set ?order"
    then have "p \<in> set (dd_order d @ [(i, c)])" using dd_compact_subset by blast
    then show "snd p \<le> c" using assms(1) clock_step [OF clock] by (auto simp: dd_inv_def intro: less_imp_le)
  qed
  ultimately have "dd_inv ?d"
    using assms(1) i dist' by (simp add: dd_inv_def length_AList_update)
  moreover have "dd_knows ?d = dd_knows d"
    using i dist by (force simp: dd_knows_def set_AList_update image_iff)
  ultimately show thesis using that [OF c] by simp
qed

lemma check_and_insert_first:
  assumes "dd_inv d" and "i \<notin> dd_knows d" and clock: "checked_add (dd_clock d) 1 = Some c"
  obtains d' where "check_and_insert i d = Some (True, d')" "dd_inv d'" "i \<in> dd_knows d'"
    "dd_knows d' \<subseteq> insert i (dd_knows d)" "card (dd_knows d) \<le> card (dd_knows d')"
    "length (dd_seen d) < dd_cap d \<Longrightarrow> dd_knows d' = insert i (dd_knows d)" "dd_cap d' = dd_cap d" "dd_clock d' = c"
proof -
  let ?seen = "AList.update i c (dd_seen d)"
  obtain seen order where ev: "dd_evict (dd_cap d) ?seen (dd_order d @ [(i, c)]) = (seen, order)"
    by (metis surj_pair)
  let ?d = "d\<lparr>dd_clock := c, dd_seen := seen, dd_order := order\<rparr>"
  have dist: "distinct (map fst (dd_seen d))" using assms(1) by (simp add: dd_inv_def)
  have i: "i \<notin> fst ` set (dd_seen d)" using assms(2) by (simp add: dd_knows_def)
  then have "map_of (dd_seen d) i = None" by (simp add: map_of_eq_None_iff)
  then have c: "check_and_insert i d = Some (True, ?d)" by (simp add: check_and_insert_def Let_def clock ev)
  have fresh: "{(j, s) \<in> set (dd_seen d). j \<noteq> i} = set (dd_seen d)" using i by force
  have r: "distinct (map fst seen) \<and> set seen \<subseteq> set order \<and> map_of seen i = Some c
      \<and> length seen \<le> dd_cap d \<and> set seen \<subseteq> set ?seen \<and> set order \<subseteq> set (dd_order d @ [(i, c)])
      \<and> length ?seen \<le> Suc (length seen) \<and> (length ?seen \<le> dd_cap d \<longrightarrow> seen = ?seen)"
  proof (rule dd_evict_correct [OF _ _ _ _ _ _ ev])
    show "set ?seen \<subseteq> set (dd_order d @ [(i, c)])"
      using assms(1) dist by (auto simp: set_AList_update dd_inv_def)
    show "\<forall>p \<in> set (dd_order d). snd p < c"
      using assms(1) clock_step [OF clock] by (auto simp: dd_inv_def)
    show "length ?seen \<le> Suc (dd_cap d)"
      using assms(1) i by (simp add: length_AList_update dd_inv_def)
  qed (use dist assms(1) in \<open>auto simp: distinct_update update_conv dd_inv_def\<close>)
  have "\<forall>p \<in> set order. snd p \<le> c"
  proof
    fix p
    assume "p \<in> set order"
    then have "p \<in> set (dd_order d @ [(i, c)])" using r by blast
    then show "snd p \<le> c" using assms(1) clock_step [OF clock] by (auto simp: dd_inv_def intro: less_imp_le)
  qed
  then have "dd_inv ?d" using r assms(1) by (simp add: dd_inv_def)
  moreover have "i \<in> fst ` set seen" using r by (metis map_of_eq_None_iff option.discI)
  moreover have "fst ` set seen \<subseteq> insert i (fst ` set (dd_seen d))"
    using r dist fresh by (auto simp: set_AList_update)
  moreover have "card (fst ` set (dd_seen d)) \<le> card (fst ` set seen)"
  proof -
    have "card (fst ` set al) = length al" if "distinct (map fst al)" for al :: "(message_id \<times> u64) list"
      using distinct_card [OF that] by simp
    then show ?thesis using r dist i by (simp add: length_AList_update)
  qed
  moreover have "fst ` set seen = insert i (fst ` set (dd_seen d))" if "length (dd_seen d) < dd_cap d"
    using r that i dist fresh by (simp add: length_AList_update set_AList_update)
  ultimately show thesis using that [OF c] by (simp add: dd_knows_def)
qed

lemma dd_forget_spec:
  assumes "dd_inv d"
  shows "dd_inv (dd_forget i d)" "dd_knows (dd_forget i d) = dd_knows d - {i}"
proof -
  have "length (AList.delete i (dd_seen d)) \<le> length (dd_seen d)"
    by (simp add: AList.delete_eq)
  with assms show "dd_inv (dd_forget i d)"
    by (auto simp: dd_inv_def dd_forget_def set_AList_delete distinct_delete)
  show "dd_knows (dd_forget i d) = dd_knows d - {i}"
    by (auto simp: dd_knows_def dd_forget_def set_AList_delete)
qed

lemma dd_evict_oldest:
  assumes "distinct (map fst seen)" and "set seen \<subseteq> set (pre @ [(i, c)])"
    and "map_of seen i = Some c" and "sorted_wrt (<) (map snd (pre @ [(i, c)]))"
    and "1 \<le> cap" and "length seen = Suc cap"
    and "dd_evict cap seen (pre @ [(i, c)]) = (seen', order')"
  shows "\<exists>j s. (j, s) \<in> set seen \<and> j \<noteq> i \<and> (\<forall>p \<in> set seen. s \<le> snd p) \<and> seen' = AList.delete j seen"
  using assms
proof (induction pre)
  case Nil
  then have "set seen \<subseteq> {(i, c)}" by simp
  moreover have "distinct seen" using Nil.prems(1) by (simp add: distinct_map)
  ultimately have "length seen \<le> 1"
    by (metis card_mono distinct_card finite.emptyI finite.insertI is_singletonI
        is_singleton_altdef One_nat_def)
  with Nil.prems(5,6) show ?case by simp
next
  case (Cons p pre)
  obtain j s where p: "p = (j, s)" by (cases p)
  show ?case
  proof (cases "map_of seen j = Some s")
    case True
    have mem: "(j, s) \<in> set seen" using True by (rule map_of_SomeD)
    have "j \<noteq> i" using True Cons.prems(3,4) p by auto
    moreover have "s \<le> snd q" if "q \<in> set seen" for q
      using that Cons.prems(2,4) p by fastforce
    moreover have len: "length (AList.delete j seen) = cap"
      using length_AList_delete [OF Cons.prems(1)] mem Cons.prems(6) by force
    moreover have "dd_evict cap (AList.delete j seen) (pre @ [(i, c)]) = (seen', order')"
      using Cons.prems(6,7) True p by simp
    then have "seen' = AList.delete j seen" using len by (cases pre) (force split: if_splits)+
    ultimately show ?thesis using mem by blast
  next
    case False
    then have "(j, s) \<notin> set seen" using in_seen_iff [OF Cons.prems(1)] by simp
    then have "set seen \<subseteq> set (pre @ [(i, c)])" using Cons.prems(2) p by auto
    with Cons.IH Cons.prems False p show ?thesis by auto
  qed
qed

lemma check_and_insert_evicts_oldest:
  assumes inv: "dd_inv d" and fresh: "i \<notin> dd_knows d" and full: "length (dd_seen d) = dd_cap d"
    and asc: "sorted_wrt (<) (map snd (dd_order d))" and run: "check_and_insert i d = Some (b, d')"
  shows "\<exists>j s. (j, s) \<in> set (dd_seen d) \<and> (\<forall>p \<in> set (dd_seen d). s \<le> snd p)
           \<and> dd_knows d' = insert i (dd_knows d - {j})"
proof -
  from run obtain c where clock: "checked_add (dd_clock d) 1 = Some c" by (auto simp: check_and_insert_def bind_eq_Some_conv)
  let ?seen = "AList.update i c (dd_seen d)"
  obtain seen order where ev: "dd_evict (dd_cap d) ?seen (dd_order d @ [(i, c)]) = (seen, order)"
    by (metis surj_pair)
  have dist: "distinct (map fst (dd_seen d))" using inv by (simp add: dd_inv_def)
  have i: "i \<notin> fst ` set (dd_seen d)" using fresh by (simp add: dd_knows_def)
  then have "map_of (dd_seen d) i = None" by (simp add: map_of_eq_None_iff)
  then have seen: "dd_seen d' = seen"
    using run by (auto simp: check_and_insert_def Let_def clock ev)
  have upd: "set ?seen = insert (i, c) (set (dd_seen d))"
    using dist i by (force simp: set_AList_update)
  have "sorted_wrt (<) (map snd (dd_order d @ [(i, c)]))"
    using asc inv clock_step [OF clock] by (auto simp: sorted_wrt_append dd_inv_def)
  moreover have "set ?seen \<subseteq> set (dd_order d @ [(i, c)])"
    using inv upd by (auto simp: dd_inv_def)
  moreover have "length ?seen = Suc (dd_cap d)" using full i by (simp add: length_AList_update)
  ultimately obtain j s where js: "(j, s) \<in> set ?seen" "j \<noteq> i" "\<forall>p \<in> set ?seen. s \<le> snd p"
      "seen = AList.delete j ?seen"
    using dd_evict_oldest [OF distinct_update [OF dist] _ _ _ _ _ ev] inv
    by (auto simp: update_conv dd_inv_def)
  have "fst ` set seen = insert i (fst ` set (dd_seen d) - {j})"
    using js(2) by (auto simp: js(4) keys_AList_delete upd)
  with js upd show ?thesis by (auto simp: dd_knows_def seen)
qed

section \<open>Peer view\<close>

type_synonym node_id = u64

definition VIEW_SIZE :: nat where "VIEW_SIZE = 32"
definition PEX_BATCH :: nat where "PEX_BATCH = 8"
definition DEDUP_LRU :: nat where "DEDUP_LRU = 8192"

record peer_descriptor =
  pd_id :: node_id
  pd_pseudonym :: "32 arr"

text \<open>\<open>f64\<close>: not a number, the infinities, and the value of a finite number (both zeros are \<open>0\<close>). The
  code only compares, so that no result is rounded.\<close>

datatype f64 = NaN | NegInfinity | Finite real | PosInfinity

fun f64_ge :: "f64 \<Rightarrow> f64 \<Rightarrow> bool" where
  "f64_ge NaN y = False"
| "f64_ge NegInfinity y = (y = NegInfinity)"
| "f64_ge PosInfinity y = (y \<noteq> NaN)"
| "f64_ge (Finite a) y = (case y of NaN \<Rightarrow> False | NegInfinity \<Rightarrow> True | Finite b \<Rightarrow> b \<le> a | PosInfinity \<Rightarrow> False)"

text \<open>The draws the code makes from \<open>rand\<close>: \<open>choose\<close> as an index below the length, the two
  shuffles, a uniform \<open>f64\<close>, \<open>next_u64\<close>, \<open>fill_bytes\<close> on 32 bytes and \<open>seed_from_u64\<close>.\<close>

record 'r rng_ops =
  g_index :: "'r \<Rightarrow> nat \<Rightarrow> nat \<times> 'r"
  g_partial_shuffle :: "'r \<Rightarrow> nat \<Rightarrow> node_id list \<Rightarrow> node_id list \<times> 'r"
  g_shuffle :: "'r \<Rightarrow> peer_descriptor list \<Rightarrow> peer_descriptor list \<times> 'r"
  g_f64 :: "'r \<Rightarrow> f64 \<times> 'r"
  g_u64 :: "'r \<Rightarrow> u64 \<times> 'r"
  g_fill32 :: "'r \<Rightarrow> 32 arr \<times> 'r"
  g_seed :: "u64 \<Rightarrow> 'r"

definition rng_ok :: "'r rng_ops \<Rightarrow> bool" where
  "rng_ok G \<longleftrightarrow> (\<forall>r n. 0 < n \<longrightarrow> fst (g_index G r n) < n)
     \<and> (\<forall>r n xs. mset (fst (g_partial_shuffle G r n xs)) = mset xs)
     \<and> (\<forall>r xs. mset (fst (g_shuffle G r xs)) = mset xs)"

record 'r view =
  v_me :: node_id
  v_entries :: "peer_descriptor list"
  v_cap :: nat
  v_rng :: 'r

definition view_new :: "'r rng_ops \<Rightarrow> node_id \<Rightarrow> nat \<Rightarrow> u64 \<Rightarrow> 'r view" where
  "view_new G me cap seed = \<lparr>v_me = me, v_entries = [], v_cap = cap, v_rng = g_seed G seed\<rparr>"

definition view_contains :: "'r view \<Rightarrow> node_id \<Rightarrow> bool" where
  "view_contains v i \<longleftrightarrow> (\<exists>e \<in> set (v_entries v). pd_id e = i)"

definition view_ids :: "'r view \<Rightarrow> node_id list" where
  "view_ids v = map pd_id (v_entries v)"

text \<open>\<open>choose\<close> on the entries, shared by \<open>pick_victim\<close> and \<open>random_entry\<close>.\<close>

definition pick_victim :: "'r rng_ops \<Rightarrow> 'r view \<Rightarrow> node_id option \<times> 'r view" where
  "pick_victim G v =
     (if v_entries v = [] then (None, v)
      else let (k, r) = g_index G (v_rng v) (length (v_entries v))
           in (Some (pd_id (v_entries v ! k)), v\<lparr>v_rng := r\<rparr>))"

definition absorb :: "'r rng_ops \<Rightarrow> peer_descriptor \<Rightarrow> 'r view \<Rightarrow> bool \<times> 'r view" where
  "absorb G d v =
     (if pd_id d = v_me v \<or> view_contains v (pd_id d) then (False, v)
      else if length (v_entries v) < v_cap v
      then (True, v\<lparr>v_entries := v_entries v @ [d]\<rparr>)
      else case pick_victim G v of
             (None, v1) \<Rightarrow> (False, v1)
           | (Some victim, v1) \<Rightarrow>
               (case position (\<lambda>e. pd_id e = victim) (v_entries v1) of
                  None \<Rightarrow> (False, v1)
                | Some pos \<Rightarrow> (True, v1\<lparr>v_entries := remove_nth pos (v_entries v1) @ [d]\<rparr>)))"

definition random_targets :: "'r rng_ops \<Rightarrow> nat \<Rightarrow> node_id list \<Rightarrow> 'r view \<Rightarrow> node_id list \<times> 'r view" where
  "random_targets G n exclude v =
     (let pool = filter (\<lambda>i. i \<notin> set exclude) (view_ids v);
          n' = min n (length pool);
          (pool', r) = g_partial_shuffle G (v_rng v) n' pool
      in (take n' pool', v\<lparr>v_rng := r\<rparr>))"

definition random_descriptors :: "'r rng_ops \<Rightarrow> nat \<Rightarrow> 'r view \<Rightarrow> peer_descriptor list \<times> 'r view" where
  "random_descriptors G n v =
     (let (pool, r) = g_shuffle G (v_rng v) (v_entries v) in (take n pool, v\<lparr>v_rng := r\<rparr>))"

definition random_entry :: "'r rng_ops \<Rightarrow> 'r view \<Rightarrow> node_id option \<times> 'r view" where
  "random_entry G v =
     (if v_entries v = [] then (None, v)
      else let (k, r) = g_index G (v_rng v) (length (v_entries v))
           in (Some (pd_id (v_entries v ! k)), v\<lparr>v_rng := r\<rparr>))"

definition view_inv :: "'r view \<Rightarrow> bool" where
  "view_inv v \<longleftrightarrow> distinct (view_ids v) \<and> v_me v \<notin> set (view_ids v) \<and> length (v_entries v) \<le> v_cap v"

lemma view_contains_iff: "view_contains v i \<longleftrightarrow> i \<in> set (view_ids v)"
  by (auto simp: view_contains_def view_ids_def)

text \<open>Every way \<open>absorb\<close> can go: refusal leaves the sample alone, acceptance appends the newcomer
  and drops at most one other entry, and none while there is room.\<close>

lemma absorb_cases:
  assumes "rng_ok G" and "view_inv v"
  obtains (refused) v' where "absorb G d v = (False, v')" "v_entries v' = v_entries v"
      "v_me v' = v_me v" "v_cap v' = v_cap v"
      "pd_id d = v_me v \<or> pd_id d \<in> set (view_ids v) \<or> v_cap v = 0"
    | (room) v' where "absorb G d v = (True, v')" "v_entries v' = v_entries v @ [d]"
      "v_me v' = v_me v" "v_cap v' = v_cap v" "pd_id d \<noteq> v_me v" "pd_id d \<notin> set (view_ids v)"
      "length (v_entries v) < v_cap v"
    | (replaced) v' ys e zs where "absorb G d v = (True, v')" "v_entries v = ys @ e # zs"
      "v_entries v' = ys @ zs @ [d]" "v_me v' = v_me v" "v_cap v' = v_cap v"
      "pd_id d \<noteq> v_me v" "pd_id d \<notin> set (view_ids v)" "length (v_entries v) = v_cap v"
proof -
  consider "pd_id d = v_me v \<or> pd_id d \<in> set (view_ids v)"
    | "pd_id d \<noteq> v_me v" "pd_id d \<notin> set (view_ids v)" "length (v_entries v) < v_cap v"
    | "pd_id d \<noteq> v_me v" "pd_id d \<notin> set (view_ids v)" "\<not> length (v_entries v) < v_cap v"
    by blast
  then show thesis
  proof cases
    case 1
    then show thesis by (intro refused [of v]) (auto simp: absorb_def view_contains_iff)
  next
    case 2
    then show thesis
      by (intro room [of "v\<lparr>v_entries := v_entries v @ [d]\<rparr>"]) (auto simp: absorb_def view_contains_iff)
  next
    case 3
    show thesis
    proof (cases "v_entries v = []")
      case True
      with 3 show thesis
        by (intro refused [of v]) (auto simp: absorb_def view_contains_iff pick_victim_def)
    next
      case False
      obtain k r where k: "g_index G (v_rng v) (length (v_entries v)) = (k, r)"
        by (cases "g_index G (v_rng v) (length (v_entries v))")
      then have kl: "k < length (v_entries v)"
        using assms(1) False by (metis fst_conv length_greater_0_conv rng_ok_def)
      let ?w = "pd_id (v_entries v ! k)"
      have "position (\<lambda>e. pd_id e = ?w) (v_entries v) \<noteq> None"
        using kl by (auto simp: position_None)
      then obtain pos where pos: "position (\<lambda>e. pd_id e = ?w) (v_entries v) = Some pos" by auto
      then obtain ys e zs where s: "v_entries v = ys @ e # zs" "length ys = pos"
        by (elim position_SomeE)
      let ?v' = "v\<lparr>v_rng := r, v_entries := ys @ zs @ [d]\<rparr>"
      have rm: "remove_nth pos (v_entries v) = ys @ zs" by (simp add: s(1) s(2) [symmetric])
      have "absorb G d v = (True, ?v')"
        using 3 False k by (simp add: absorb_def view_contains_iff pick_victim_def pos rm)
      moreover have "length (v_entries v) = v_cap v"
        using 3(3) assms(2) by (simp add: view_inv_def)
      ultimately show thesis using 3(1,2) by (intro replaced [OF _ s(1), of ?v']) simp_all
    qed
  qed
qed

lemma absorb_spec:
  assumes "rng_ok G" and "view_inv v"
  shows "view_inv (snd (absorb G d v))"
    and "set (view_ids (snd (absorb G d v))) \<subseteq> insert (pd_id d) (set (view_ids v))"
    and "fst (absorb G d v) \<longleftrightarrow> pd_id d \<in> set (view_ids (snd (absorb G d v))) - set (view_ids v)"
    and "v_me (snd (absorb G d v)) = v_me v" "v_cap (snd (absorb G d v)) = v_cap v"
    and "length (v_entries v) < v_cap v \<Longrightarrow> set (view_ids v) \<subseteq> set (view_ids (snd (absorb G d v)))"
  by (rule absorb_cases [OF assms, of d]; use assms(2) in \<open>force simp: view_inv_def view_ids_def\<close>)+

lemma mset_distinct_eq: "mset xs = mset ys \<Longrightarrow> distinct xs \<longleftrightarrow> distinct ys"
  by (rule mset_eq_imp_distinct_iff)

lemma random_targets_spec:
  assumes "rng_ok G" and "view_inv v" and "random_targets G n exclude v = (ts, v')"
  shows "distinct ts" "set ts \<subseteq> set (view_ids v) - set exclude"
    "length ts = min n (length (filter (\<lambda>i. i \<notin> set exclude) (view_ids v)))"
    "v_entries v' = v_entries v" "view_inv v'"
proof -
  let ?pool = "filter (\<lambda>i. i \<notin> set exclude) (view_ids v)"
  let ?n = "min n (length ?pool)"
  obtain pool r where p: "g_partial_shuffle G (v_rng v) ?n ?pool = (pool, r)"
    by (cases "g_partial_shuffle G (v_rng v) ?n ?pool")
  have ms: "mset pool = mset ?pool" using assms(1) p by (metis fst_conv rng_ok_def)
  have ts: "ts = take ?n pool" "v' = v\<lparr>v_rng := r\<rparr>"
    using assms(3) p by (simp_all add: random_targets_def Let_def)
  have "distinct pool" using assms(2) mset_distinct_eq [OF ms] by (simp add: view_inv_def)
  then show "distinct ts" by (simp add: ts)
  have "set pool = set ?pool" using ms by (metis set_mset_mset)
  then show "set ts \<subseteq> set (view_ids v) - set exclude" using set_take_subset [of ?n pool] by (auto simp: ts)
  have "length pool = length ?pool" using ms by (metis size_mset)
  then show "length ts = ?n" by (simp add: ts)
  show "v_entries v' = v_entries v" "view_inv v'"
    using assms(2) by (simp_all add: ts view_inv_def view_ids_def)
qed

section \<open>Overlay\<close>

record overlay_config =
  oc_view_size :: nat
  oc_dedup_cap :: nat
  oc_origin_fanout :: nat
  oc_forward_fanout :: nat
  oc_forward_prob :: f64
  oc_direct_push :: nat
  oc_pex_batch :: nat
  oc_have_list :: nat

definition overlay_config_default :: overlay_config where
  "overlay_config_default =
     \<lparr>oc_view_size = VIEW_SIZE, oc_dedup_cap = DEDUP_LRU, oc_origin_fanout = 4,
      oc_forward_fanout = 1, oc_forward_prob = Finite (1 / 2), oc_direct_push = 16,
      oc_pex_batch = PEX_BATCH, oc_have_list = 16\<rparr>"

record 'r overlay =
  o_me :: node_id
  o_pseudonym :: "32 arr"
  o_view :: "'r view"
  o_dedup :: dedup
  o_cfg :: overlay_config
  o_rng :: 'r

unbundle bit_operations_syntax

definition overlay_new :: "'r rng_ops \<Rightarrow> node_id \<Rightarrow> overlay_config \<Rightarrow> u64 \<Rightarrow> 'r overlay" where
  "overlay_new G me cfg seed =
     (let (pseudonym, r) = g_fill32 G (g_seed G (seed XOR 0x5EED))
      in \<lparr>o_me = me, o_pseudonym = pseudonym, o_view = view_new G me (oc_view_size cfg) seed,
          o_dedup = dedup_new (oc_dedup_cap cfg), o_cfg = cfg, o_rng = r\<rparr>)"

definition self_descriptor :: "'r overlay \<Rightarrow> peer_descriptor" where
  "self_descriptor ov = \<lparr>pd_id = o_me ov, pd_pseudonym = o_pseudonym ov\<rparr>"

fun absorb_all :: "'r rng_ops \<Rightarrow> peer_descriptor list \<Rightarrow> 'r view \<Rightarrow> 'r view" where
  "absorb_all G [] v = v"
| "absorb_all G (p # ps) v = absorb_all G ps (snd (absorb G p v))"

definition bootstrap :: "'r rng_ops \<Rightarrow> peer_descriptor list \<Rightarrow> 'r overlay \<Rightarrow> 'r overlay" where
  "bootstrap G peers ov = ov\<lparr>o_view := absorb_all G peers (o_view ov)\<rparr>"

definition first_sighting :: "message_id \<Rightarrow> 'r overlay \<Rightarrow> (bool \<times> 'r overlay) option" where
  "first_sighting i ov = map_option (\<lambda>(b, d). (b, ov\<lparr>o_dedup := d\<rparr>)) (check_and_insert i (o_dedup ov))"

definition forget_sighting :: "message_id \<Rightarrow> 'r overlay \<Rightarrow> 'r overlay" where
  "forget_sighting i ov = ov\<lparr>o_dedup := dd_forget i (o_dedup ov)\<rparr>"

definition origin_targets :: "'r rng_ops \<Rightarrow> 'r overlay \<Rightarrow> node_id list \<times> 'r overlay" where
  "origin_targets G ov =
     (let (ts, v) = random_targets G (oc_origin_fanout (o_cfg ov)) [] (o_view ov)
      in (ts, ov\<lparr>o_view := v\<rparr>))"

definition forward_targets :: "'r rng_ops \<Rightarrow> node_id option \<Rightarrow> 'r overlay \<Rightarrow> node_id list \<times> 'r overlay" where
  "forward_targets G from ov =
     (let (x, r) = g_f64 G (o_rng ov); ov1 = ov\<lparr>o_rng := r\<rparr>
      in if f64_ge x (oc_forward_prob (o_cfg ov)) then ([], ov1)
         else let exclude = (case from of None \<Rightarrow> [] | Some f \<Rightarrow> [f]);
                  (ts, v) = random_targets G (oc_forward_fanout (o_cfg ov)) exclude (o_view ov)
              in (ts, ov1\<lparr>o_view := v\<rparr>))"

text \<open>\<open>pex_batch - 1\<close> underflows on a zero batch, which panics; \<open>None\<close> in the outer option.\<close>

definition pex_outbound ::
  "'r rng_ops \<Rightarrow> 'r overlay \<Rightarrow> ((node_id \<times> peer_descriptor list) option \<times> 'r overlay) option" where
  "pex_outbound G ov =
     (case random_entry G (o_view ov) of
        (None, v) \<Rightarrow> Some (None, ov\<lparr>o_view := v\<rparr>)
      | (Some partner, v) \<Rightarrow>
          if oc_pex_batch (o_cfg ov) = 0 then None
          else let (ds, v') = random_descriptors G (oc_pex_batch (o_cfg ov) - 1) v
               in Some (Some (partner, self_descriptor ov # ds), ov\<lparr>o_view := v'\<rparr>))"

definition MAX_ABSORB_PER_SOURCE :: nat where "MAX_ABSORB_PER_SOURCE = 4"

fun pex_absorb_loop :: "'r rng_ops \<Rightarrow> node_id \<Rightarrow> nat \<Rightarrow> peer_descriptor list \<Rightarrow> 'r view \<Rightarrow> 'r view" where
  "pex_absorb_loop G from taken [] v = v"
| "pex_absorb_loop G from taken (d # ds) v =
     (if pd_id d = from then pex_absorb_loop G from taken ds (snd (absorb G d v))
      else if MAX_ABSORB_PER_SOURCE \<le> taken then v
      else case absorb G d v of (ok, v') \<Rightarrow>
             pex_absorb_loop G from (if ok then taken + 1 else taken) ds v')"

definition pex_absorb :: "'r rng_ops \<Rightarrow> node_id \<Rightarrow> peer_descriptor list \<Rightarrow> 'r overlay \<Rightarrow> 'r overlay" where
  "pex_absorb G from ds ov = ov\<lparr>o_view := pex_absorb_loop G from 0 ds (o_view ov)\<rparr>"

definition reset_session :: "'r rng_ops \<Rightarrow> peer_descriptor list \<Rightarrow> 'r overlay \<Rightarrow> 'r overlay" where
  "reset_session G peers ov =
     (let (seed, r) = g_u64 G (o_rng ov)
      in bootstrap G peers
           (ov\<lparr>o_dedup := forget_all (o_dedup ov), o_rng := r,
               o_view := view_new G (o_me ov) (oc_view_size (o_cfg ov)) seed\<rparr>))"

definition overlay_inv :: "'r overlay \<Rightarrow> bool" where
  "overlay_inv ov \<longleftrightarrow> view_inv (o_view ov) \<and> dd_inv (o_dedup ov) \<and> v_me (o_view ov) = o_me ov"

lemma pex_absorb_loop_spec:
  assumes "rng_ok G" and "view_inv v" and "from \<in> A" and "finite A"
  shows "view_inv (pex_absorb_loop G from taken ds v)
    \<and> v_me (pex_absorb_loop G from taken ds v) = v_me v
    \<and> v_cap (pex_absorb_loop G from taken ds v) = v_cap v
    \<and> card (set (view_ids (pex_absorb_loop G from taken ds v)) - A)
        \<le> card (set (view_ids v) - A) + (MAX_ABSORB_PER_SOURCE - taken)"
  using assms(2)
proof (induction ds arbitrary: v taken)
  case (Cons d ds)
  obtain ok v' where a: "absorb G d v = (ok, v')" by (cases "absorb G d v")
  note sp = absorb_spec [OF assms(1) Cons.prems, of d, unfolded a fst_conv snd_conv]
  note IH = Cons.IH [OF sp(1)]
  have fin: "finite (set (view_ids v) - A)" by simp
  show ?case
  proof (cases "pd_id d = from")
    case True
    have "set (view_ids v') - A \<subseteq> set (view_ids v) - A" using sp(2) True assms(3) by auto
    then have "card (set (view_ids v') - A) \<le> card (set (view_ids v) - A)" by (rule card_mono [OF fin])
    with IH [of taken] True a sp(4,5) show ?thesis by simp
  next
    case False
    show ?thesis
    proof (cases "MAX_ABSORB_PER_SOURCE \<le> taken")
      case True
      with False Cons.prems show ?thesis by simp
    next
      case le: False
      show ?thesis
      proof (cases ok)
        case True
        have "set (view_ids v') - A \<subseteq> insert (pd_id d) (set (view_ids v) - A)" using sp(2) by auto
        then have "card (set (view_ids v') - A) \<le> card (insert (pd_id d) (set (view_ids v) - A))"
          by (rule card_mono [rotated]) simp
        also have "\<dots> \<le> Suc (card (set (view_ids v) - A))" by (simp add: card_insert_if)
        finally have "card (set (view_ids v') - A) \<le> Suc (card (set (view_ids v) - A))" .
        with IH [of "taken + 1"] True False le a sp(4,5) show ?thesis by (simp, arith)
      next
        case nok: False
        have "pd_id d \<notin> set (view_ids v') - set (view_ids v)" using sp(3) nok by simp
        then have "set (view_ids v') - A \<subseteq> set (view_ids v) - A" using sp(2) by auto
        then have "card (set (view_ids v') - A) \<le> card (set (view_ids v) - A)" by (rule card_mono [OF fin])
        with IH [of taken] nok False le a sp(4,5) show ?thesis by (simp, arith)
      qed
    qed
  qed
qed simp

lemma absorb_all_spec:
  assumes "rng_ok G" and "view_inv v"
  shows "view_inv (absorb_all G ps v) \<and> v_me (absorb_all G ps v) = v_me v"
  using assms(2)
proof (induction ps arbitrary: v)
  case (Cons p ps)
  note sp = absorb_spec [OF assms(1) Cons.prems, of p]
  from Cons.IH [OF sp(1)] sp(4) show ?case by simp
qed simp

lemma view_inv_rng [simp]: "view_inv (v\<lparr>v_rng := r\<rparr>) = view_inv v"
  by (simp add: view_inv_def view_ids_def)

lemma view_new_inv: "view_inv (view_new G me cap seed)" "v_me (view_new G me cap seed) = me"
  by (simp_all add: view_inv_def view_new_def view_ids_def)

lemma random_targets_view: "\<exists>ts r. random_targets G n exclude v = (ts, v\<lparr>v_rng := r\<rparr>)"
  by (simp add: random_targets_def Let_def split: prod.split) metis

lemma random_entry_view: "\<exists>x r. random_entry G v = (x, v\<lparr>v_rng := r\<rparr>)"
proof -
  have "v = v\<lparr>v_rng := v_rng v\<rparr>" by simp
  then show ?thesis by (cases "v_entries v = []") (metis random_entry_def, simp add: random_entry_def split: prod.split, metis)
qed

lemma random_descriptors_view: "\<exists>ds r. random_descriptors G n v = (ds, v\<lparr>v_rng := r\<rparr>)"
  by (simp add: random_descriptors_def split: prod.split) metis

subsection \<open>The overlay as a machine\<close>

datatype overlay_op =
  OvBootstrap "peer_descriptor list"
| OvSighting message_id
| OvForget message_id
| OvOrigin
| OvForward "node_id option"
| OvPexOut
| OvPexAbsorb node_id "peer_descriptor list"
| OvReset "peer_descriptor list"

fun overlay_step :: "'r rng_ops \<Rightarrow> overlay_op \<Rightarrow> 'r overlay \<Rightarrow> 'r overlay option" where
  "overlay_step G (OvBootstrap ps) ov = Some (bootstrap G ps ov)"
| "overlay_step G (OvSighting i) ov = map_option snd (first_sighting i ov)"
| "overlay_step G (OvForget i) ov = Some (forget_sighting i ov)"
| "overlay_step G OvOrigin ov = Some (snd (origin_targets G ov))"
| "overlay_step G (OvForward from) ov = Some (snd (forward_targets G from ov))"
| "overlay_step G OvPexOut ov = map_option snd (pex_outbound G ov)"
| "overlay_step G (OvPexAbsorb from ds) ov = Some (pex_absorb G from ds ov)"
| "overlay_step G (OvReset ps) ov = Some (reset_session G ps ov)"

definition overlay_ready :: "'r overlay \<Rightarrow> bool" where
  "overlay_ready ov \<longleftrightarrow> overlay_inv ov \<and> 1 \<le> oc_pex_batch (o_cfg ov) \<and> dd_cap (o_dedup ov) * 2 < 2 ^ 64"

text \<open>The readings of the filter's clock: the number of sightings so far.\<close>

definition sightings :: "'r overlay \<Rightarrow> nat" where
  "sightings ov = unat (dd_clock (o_dedup ov))"

lemma forget_all_inv: "dd_inv d \<Longrightarrow> dd_inv (forget_all d)"
  by (simp add: dd_inv_def forget_all_def)

lemma check_and_insert_ready:
  assumes "dd_inv d" and "dd_cap d * 2 < 2 ^ 64" and "unat (dd_clock d) < 2 ^ 64 - 1"
  obtains b d' where "check_and_insert i d = Some (b, d')" "dd_inv d'" "dd_cap d' = dd_cap d"
    "unat (dd_clock d') = Suc (unat (dd_clock d))"
proof -
  obtain c where c: "checked_add (dd_clock d) 1 = Some c" using assms(3) by (auto simp: checked_add_eq)
  show thesis
  proof (cases "i \<in> dd_knows d")
    case True
    show ?thesis by (rule check_and_insert_repeat [OF assms(1) True c assms(2)]) (use that clock_meter [OF c] in blast)
  next
    case False
    show ?thesis by (rule check_and_insert_first [OF assms(1) False c]) (use that clock_meter [OF c] in blast)
  qed
qed

lemma bootstrap_ready: "rng_ok G \<Longrightarrow> overlay_ready ov \<Longrightarrow> overlay_ready (bootstrap G ps ov)"
  using absorb_all_spec [of G "o_view ov" ps] by (simp add: bootstrap_def overlay_ready_def overlay_inv_def)

lemma bootstrap_sightings: "sightings (bootstrap G ps ov) = sightings ov"
  by (simp add: bootstrap_def sightings_def)

lemma overlay_step_returns:
  assumes "rng_ok G" and "overlay_ready ov" and "sightings ov < 2 ^ 64 - 1"
  shows "\<exists>ov'. overlay_step G x ov = Some ov' \<and> overlay_ready ov' \<and> sightings ov' \<le> Suc (sightings ov)"
proof (cases x)
  case (OvBootstrap ps)
  then show ?thesis using bootstrap_ready [OF assms(1,2)] by (simp add: bootstrap_sightings)
next
  case (OvSighting i)
  have d: "dd_inv (o_dedup ov)" "dd_cap (o_dedup ov) * 2 < 2 ^ 64" "unat (dd_clock (o_dedup ov)) < 2 ^ 64 - 1"
    using assms(2,3) by (simp_all add: overlay_ready_def overlay_inv_def sightings_def)
  obtain b d' where "check_and_insert i (o_dedup ov) = Some (b, d')" "dd_inv d'" "dd_cap d' = dd_cap (o_dedup ov)"
    "unat (dd_clock d') = Suc (unat (dd_clock (o_dedup ov)))"
    by (rule check_and_insert_ready [OF d])
  then show ?thesis using OvSighting assms(2)
    by (simp add: first_sighting_def overlay_ready_def overlay_inv_def sightings_def)
next
  case (OvForget i)
  then show ?thesis using assms(2) dd_forget_spec(1) [of "o_dedup ov" i]
    by (simp add: forget_sighting_def overlay_ready_def overlay_inv_def sightings_def dd_forget_def)
next
  case OvOrigin
  obtain ts r where "random_targets G (oc_origin_fanout (o_cfg ov)) [] (o_view ov) = (ts, (o_view ov)\<lparr>v_rng := r\<rparr>)"
    using random_targets_view by metis
  then show ?thesis using OvOrigin assms(2)
    by (simp add: origin_targets_def overlay_ready_def overlay_inv_def sightings_def)
next
  case (OvForward src)
  define ex where "ex = (case src of None \<Rightarrow> [] | Some f \<Rightarrow> [f])"
  obtain ts r where "random_targets G (oc_forward_fanout (o_cfg ov)) ex (o_view ov) = (ts, (o_view ov)\<lparr>v_rng := r\<rparr>)"
    using random_targets_view by metis
  then show ?thesis using OvForward assms(2)
    by (simp add: forward_targets_def ex_def [symmetric] Let_def overlay_ready_def overlay_inv_def sightings_def
        split: prod.split)
next
  case OvPexOut
  obtain e r where e: "random_entry G (o_view ov) = (e, (o_view ov)\<lparr>v_rng := r\<rparr>)"
    using random_entry_view by metis
  obtain ds r' where ds: "random_descriptors G (oc_pex_batch (o_cfg ov) - 1) ((o_view ov)\<lparr>v_rng := r\<rparr>)
      = (ds, (o_view ov)\<lparr>v_rng := r\<rparr>\<lparr>v_rng := r'\<rparr>)"
    using random_descriptors_view by metis
  show ?thesis using OvPexOut assms(2) e ds
    by (auto simp: pex_outbound_def overlay_ready_def overlay_inv_def sightings_def split: option.split)
next
  case (OvPexAbsorb src ds)
  then show ?thesis using assms pex_absorb_loop_spec [of G "o_view ov" src "{src}" 0 ds]
    by (simp add: pex_absorb_def overlay_ready_def overlay_inv_def sightings_def)
next
  case (OvReset ps)
  obtain seed r where s: "g_u64 G (o_rng ov) = (seed, r)" by (cases "g_u64 G (o_rng ov)")
  let ?ov = "ov\<lparr>o_dedup := forget_all (o_dedup ov), o_rng := r,
               o_view := view_new G (o_me ov) (oc_view_size (o_cfg ov)) seed\<rparr>"
  have "overlay_ready ?ov" "sightings ?ov = sightings ov" using assms(2)
    by (simp_all add: overlay_ready_def overlay_inv_def sightings_def view_new_inv forget_all_inv)
      (simp_all add: forget_all_def)
  with bootstrap_ready [OF assms(1), of ?ov ps] show ?thesis
    by (simp add: OvReset reset_session_def s bootstrap_sightings)
qed

interpretation ovm: metered_machine "overlay_step G" "\<lambda>ov. rng_ok G \<and> overlay_ready ov" sightings "2 ^ 64 - 1"
  for G :: "'r rng_ops"
  by unfold_locales (use overlay_step_returns in blast)

section \<open>Properties\<close>

lemma check_and_insert_None:
  assumes "dd_inv d"
  shows "check_and_insert i d = None \<longleftrightarrow> dd_clock d = 2 ^ 64 - 1 \<or> i \<in> dd_knows d \<and> 2 ^ 64 \<le> dd_cap d * 2"
proof -
  have "checked_add (dd_clock d) 1 = None \<longleftrightarrow> dd_clock d = 2 ^ 64 - 1"
    using unat_less_2_64 [of "dd_clock d"] by (auto simp: checked_add_eq word_unat_eq_iff)
  moreover have "i \<in> dd_knows d \<longleftrightarrow> (\<exists>s. map_of (dd_seen d) i = Some s)"
    by (metis dd_knows_def map_of_eq_None_iff not_None_eq)
  ultimately show ?thesis
    by (cases "checked_add (dd_clock d) 1"; cases "map_of (dd_seen d) i")
      (auto simp: check_and_insert_def dd_compact_def usize_mul_def Let_def split: prod.splits)
qed

lemma check_and_insert_Some:
  assumes inv: "dd_inv d" and run: "check_and_insert i d = Some (b, d')"
  shows "(b \<longleftrightarrow> i \<notin> dd_knows d) \<and> dd_inv d' \<and> i \<in> dd_knows d' \<and> dd_knows d' \<subseteq> insert i (dd_knows d)
     \<and> (i \<in> dd_knows d \<or> dd_len d < dd_cap d \<longrightarrow> dd_knows d' = insert i (dd_knows d))
     \<and> dd_cap d' = dd_cap d \<and> unat (dd_clock d') = Suc (unat (dd_clock d))"
proof -
  from run obtain c where c: "checked_add (dd_clock d) 1 = Some c" by (auto simp: check_and_insert_def bind_eq_Some_conv)
  note m = clock_meter [OF c]
  show ?thesis
  proof (cases "i \<in> dd_knows d")
    case True
    then have "dd_cap d * 2 < 2 ^ 64" using run check_and_insert_None [OF inv, of i] by (metis not_less option.discI)
    from check_and_insert_repeat [OF inv True c this] obtain d'' where
      "check_and_insert i d = Some (False, d'')" "dd_inv d''" "dd_knows d'' = dd_knows d" "dd_cap d'' = dd_cap d" "dd_clock d'' = c"
      by metis
    then show ?thesis using True m run by (auto simp: insert_absorb)
  next
    case False
    from check_and_insert_first [OF inv False c] obtain d'' where "check_and_insert i d = Some (True, d'')"
      "dd_inv d''" "i \<in> dd_knows d''" "dd_knows d'' \<subseteq> insert i (dd_knows d)"
      "length (dd_seen d) < dd_cap d \<Longrightarrow> dd_knows d'' = insert i (dd_knows d)" "dd_cap d'' = dd_cap d" "dd_clock d'' = c"
      by metis
    then show ?thesis using False m run by (auto simp: dd_len_def)
  qed
qed

text \<open>
  C31 (functional, invariant, error): \<open>check_and_insert\<close> overflows exactly when its \<open>u64\<close> clock is at
  its maximum or when a known id makes it compute twice a capacity of \<open>2 ^ 63\<close> or more. Otherwise it
  answers "first sighting" exactly for an id the filter does not remember, always remembers that
  id afterwards, invents no other id, forgets nothing while there is room or when the id was known,
  keeps the filter consistent and within its capacity, and advances the clock by one.
\<close>

theorem check_and_insert_correct:
  assumes "dd_inv d"
  shows "case check_and_insert i d of
       None \<Rightarrow> dd_clock d = 2 ^ 64 - 1 \<or> i \<in> dd_knows d \<and> 2 ^ 64 \<le> dd_cap d * 2
     | Some (b, d') \<Rightarrow>
         dd_clock d \<noteq> 2 ^ 64 - 1 \<and> (i \<in> dd_knows d \<longrightarrow> dd_cap d * 2 < 2 ^ 64)
         \<and> (b \<longleftrightarrow> i \<notin> dd_knows d) \<and> dd_inv d' \<and> i \<in> dd_knows d' \<and> dd_knows d' \<subseteq> insert i (dd_knows d)
         \<and> (i \<in> dd_knows d \<or> dd_len d < dd_cap d \<longrightarrow> dd_knows d' = insert i (dd_knows d))
         \<and> dd_cap d' = dd_cap d \<and> unat (dd_clock d') = Suc (unat (dd_clock d))"
  using check_and_insert_None [OF assms, of i] check_and_insert_Some [OF assms, of i]
  by (auto split: option.split simp: not_le)

theorem check_and_insert_correct_witness:
  "(\<exists>d'. check_and_insert (arr_fill 1) (dedup_new 2) = Some (True, d') \<and> dd_knows d' = {arr_fill 1})
   \<and> check_and_insert (arr_fill 1) ((dedup_new 2)\<lparr>dd_clock := 2 ^ 64 - 1\<rparr>) = None"
proof
  show "\<exists>d'. check_and_insert (arr_fill 1) (dedup_new 2) = Some (True, d') \<and> dd_knows d' = {arr_fill 1}"
    using check_and_insert_correct [OF dedup_new_inv [of 2], of "arr_fill 1"]
    by (auto simp: dd_knows_def dedup_new_def dd_len_def split: option.splits)
  have "dd_inv ((dedup_new 2)\<lparr>dd_clock := 2 ^ 64 - 1\<rparr>)" by (simp add: dd_inv_def dedup_new_def)
  from check_and_insert_correct [OF this, of "arr_fill 1"]
  show "check_and_insert (arr_fill 1) ((dedup_new 2)\<lparr>dd_clock := 2 ^ 64 - 1\<rparr>) = None"
    by (simp split: option.splits prod.splits)
qed

text \<open>
  While the queue's stamps ascend, a new id in a full filter displaces the id
  whose last sighting is the oldest, and only that one.
\<close>

lemma full_filter_evicts_oldest:
  assumes "dd_inv d" and "i \<notin> dd_knows d" and "dd_len d = dd_cap d"
    and "sorted_wrt (<) (map snd (dd_order d))" and "check_and_insert i d = Some (b, d')"
  shows "\<exists>j s. (j, s) \<in> set (dd_seen d) \<and> (\<forall>p \<in> set (dd_seen d). s \<le> snd p)
           \<and> dd_knows d' = insert i (dd_knows d - {j})"
  using check_and_insert_evicts_oldest [OF assms(1,2) _ assms(4,5)] assms(3) by (simp add: dd_len_def)

lemma fill_distinct: "(arr_fill 1 :: message_id) \<noteq> arr_fill 2" "(arr_fill 3 :: message_id) \<noteq> arr_fill 1"
  "(arr_fill 3 :: message_id) \<noteq> arr_fill 2"
  by code_simp+

text \<open>
  The queue does not stay ascending. Compaction re-appends the live front, so
  after five sightings of two ids in a filter of capacity two, the id sighted four times in a row
  and last is evicted by a third id, while the older one stays; its next arrival counts as new.
\<close>

lemma compaction_breaks_recency:
  "let a = arr_fill 1; b = arr_fill 2; c = arr_fill 3;
       run = run_ops (\<lambda>i d. map_option snd (check_and_insert i d)) [a, b, b, b, b, c] (dedup_new 2)
   in map_option fst (Option.bind run (check_and_insert a)) = Some False
    \<and> map_option fst (Option.bind run (check_and_insert b)) = Some True"
  using fill_distinct fill_distinct [symmetric]
  by (simp add: check_and_insert_def checked_add_def dd_compact_def usize_mul_def dedup_new_def) blast

text \<open>A concrete source of draws: always the first index, no reordering, zero bytes.\<close>

definition rng_zero :: "unit rng_ops" where
  "rng_zero = \<lparr>g_index = (\<lambda>r n. (0, r)), g_partial_shuffle = (\<lambda>r n xs. (xs, r)),
     g_shuffle = (\<lambda>r xs. (xs, r)), g_f64 = (\<lambda>r. (Finite 0, r)), g_u64 = (\<lambda>r. (0, r)),
     g_fill32 = (\<lambda>r. (arr_fill 0, r)), g_seed = (\<lambda>_. ())\<rparr>"

lemma rng_zero_ok: "rng_ok rng_zero"
  by (simp add: rng_ok_def rng_zero_def)

definition ov_zero :: "unit overlay" where
  "ov_zero = overlay_new rng_zero 7 overlay_config_default 0"

lemma ov_zero_inv: "overlay_inv ov_zero"
  by (simp add: ov_zero_def overlay_inv_def overlay_new_def view_new_inv dedup_new_inv split: prod.split)

definition peer :: "node_id \<Rightarrow> peer_descriptor" where
  "peer i = \<lparr>pd_id = i, pd_pseudonym = arr_fill 0\<rparr>"

text \<open>
  One peer-exchange batch, whatever it contains, brings at most four identities
  other than the sender's own into the view, and keeps the view duplicate-free, without the node
  itself and within its capacity.
\<close>

lemma pex_absorb_bounded:
  assumes "rng_ok G" and "overlay_inv ov"
  shows "card (set (view_ids (o_view (pex_absorb G from ds ov))) - set (view_ids (o_view ov)) - {from})
           \<le> MAX_ABSORB_PER_SOURCE
     \<and> overlay_inv (pex_absorb G from ds ov)"
proof -
  have "view_inv (o_view ov)" using assms(2) by (simp add: overlay_inv_def)
  from pex_absorb_loop_spec [OF assms(1) this, of "from" "insert from (set (view_ids (o_view ov)))" 0 ds]
  show ?thesis using assms(2)
    by (simp add: pex_absorb_def overlay_inv_def) (metis Diff_eq_empty_iff Diff_insert card.empty plus_nat.add_0 subset_insertI)
qed

text \<open>
  Forwarding never returns the message to its sender, never names a peer twice or
  one outside the view, and never exceeds the configured fanout.
\<close>

lemma forward_targets_safe:
  assumes "rng_ok G" and "overlay_inv ov"
  shows "distinct (fst (forward_targets G from ov))
     \<and> set (fst (forward_targets G from ov)) \<subseteq> set (view_ids (o_view ov)) - set_option from
     \<and> o_me ov \<notin> set (fst (forward_targets G from ov))
     \<and> length (fst (forward_targets G from ov)) \<le> oc_forward_fanout (o_cfg ov)"
proof -
  define ex where "ex = (case from of None \<Rightarrow> [] | Some f \<Rightarrow> [f])"
  have ex: "set ex = set_option from" by (cases "from") (simp_all add: ex_def)
  have inv: "view_inv (o_view ov)" "v_me (o_view ov) = o_me ov" using assms(2) by (simp_all add: overlay_inv_def)
  obtain ts v' where ts: "random_targets G (oc_forward_fanout (o_cfg ov)) ex (o_view ov) = (ts, v')"
    by (cases "random_targets G (oc_forward_fanout (o_cfg ov)) ex (o_view ov)")
  note sp = random_targets_spec [OF assms(1) inv(1) ts]
  have "fst (forward_targets G from ov) \<in> {[], ts}"
    using ts by (simp add: forward_targets_def ex_def [symmetric] Let_def split: prod.split)
  then show ?thesis using sp(1-3) ex inv by (auto simp: view_inv_def)
qed

text \<open>
  C34 (invariant, termination): a fresh overlay with a non-zero exchange batch and a filter capacity
  below \<open>2 ^ 63\<close> runs any sequence of fewer than \<open>2 ^ 64\<close> of its operations without an overflow or
  other panic, and then its view is duplicate-free, excludes the node and is within capacity, and
  its duplicate filter is consistent and within capacity.
\<close>

theorem overlay_runs:
  assumes "rng_ok G" and "1 \<le> oc_pex_batch cfg" and "oc_dedup_cap cfg < 2 ^ 63" and "length xs < 2 ^ 64"
  shows "\<exists>ov. run_ops (overlay_step G) xs (overlay_new G me cfg seed) = Some ov \<and> overlay_inv ov"
proof -
  have "overlay_ready (overlay_new G me cfg seed)" "sightings (overlay_new G me cfg seed) = 0"
    using assms(2,3) by (simp_all add: overlay_new_def overlay_ready_def overlay_inv_def view_new_inv dedup_new_inv
        sightings_def split: prod.split) (simp_all add: dedup_new_def)
  then show ?thesis using ovm.metered_run_returns [of G "overlay_new G me cfg seed" xs] assms(1,4)
    by (auto simp: overlay_ready_def)
qed

theorem overlay_runs_witness:
  "\<exists>ov. run_ops (overlay_step rng_zero) [OvBootstrap [peer 1, peer 2], OvSighting (arr_fill 1), OvPexOut,
          OvPexAbsorb 1 [peer 1, peer 3], OvForward (Some 1), OvReset [peer 2]]
        (overlay_new rng_zero 7 overlay_config_default 0) = Some ov \<and> overlay_inv ov"
  by (rule overlay_runs [OF rng_zero_ok]) (simp_all add: overlay_config_default_def PEX_BATCH_def DEDUP_LRU_def)

end
