(* ===== verification/Crypto_Ops.thy ===== *)
theory Crypto_Ops
  imports Gc_Prelude
begin

text \<open>
  The primitives of the third-party cryptography packages (\<open>sha2\<close>, \<open>hkdf\<close>, \<open>aes-gcm\<close>) that the
  protocol code calls, as a record of functions the model is parameterised over, and the
  documented behaviour of authenticated encryption the theorems rely on. No secrecy or
  unforgeability assumption is made here.
\<close>

record crypto_ops =
  cr_sha256 :: "bytes \<Rightarrow> 32 arr"
  cr_hkdf :: "bytes \<Rightarrow> bytes \<Rightarrow> bytes \<Rightarrow> nat \<Rightarrow> bytes"
  cr_seal256 :: "32 arr \<Rightarrow> bytes \<Rightarrow> bytes \<Rightarrow> bytes \<Rightarrow> bytes option"
  cr_open256 :: "32 arr \<Rightarrow> bytes \<Rightarrow> bytes \<Rightarrow> bytes \<Rightarrow> bytes option"

text \<open>
  Arguments: \<open>cr_hkdf salt ikm info length\<close>, \<open>cr_seal256 key nonce aad message\<close>. Sealing a message
  below 16 MiB succeeds and adds a 16-byte tag; opening inverts it; and, because the mode is
  deterministic, whatever opens is the sealing of what it opens to.
\<close>

definition aead_ok :: "('k \<Rightarrow> bytes \<Rightarrow> bytes \<Rightarrow> bytes \<Rightarrow> bytes option)
    \<Rightarrow> ('k \<Rightarrow> bytes \<Rightarrow> bytes \<Rightarrow> bytes \<Rightarrow> bytes option) \<Rightarrow> bool" where
  "aead_ok seal open \<longleftrightarrow>
     (\<forall>k n a m. length m < 16777216 \<longrightarrow>
        (\<exists>c. seal k n a m = Some c \<and> length c = length m + 16 \<and> open k n a c = Some m))
     \<and> (\<forall>k n a c m. open k n a c = Some m \<longrightarrow> seal k n a m = Some c \<and> length c = length m + 16)"

abbreviation crypto_ok :: "crypto_ops \<Rightarrow> bool" where
  "crypto_ok C \<equiv> aead_ok (cr_seal256 C) (cr_open256 C)"

lemma aead_ok_seal_largeE:
  assumes "aead_ok seal open" and "length m < 16777216"
  obtains c where "seal k n a m = Some c" "length c = length m + 16" "open k n a c = Some m"
  using assms unfolding aead_ok_def by blast

lemma aead_ok_sealE:
  assumes "aead_ok seal open" and "length m < 65536"
  obtains c where "seal k n a m = Some c" "length c = length m + 16" "open k n a c = Some m"
  by (rule aead_ok_seal_largeE [OF assms(1)]) (use assms(2) in auto)

lemma aead_ok_openD:
  "aead_ok seal open \<Longrightarrow> open k n a c = Some m \<Longrightarrow> seal k n a m = Some c \<and> length c = length m + 16"
  unfolding aead_ok_def by blast

text \<open>A concrete instance, for evaluation: the tag is the first sixteen bytes of the padded key.\<close>

definition toy_seal :: "'n::len arr \<Rightarrow> bytes \<Rightarrow> bytes \<Rightarrow> bytes \<Rightarrow> bytes option" where
  "toy_seal k n a m = Some (m @ take 16 (list_of k))"

definition toy_open :: "'n::len arr \<Rightarrow> bytes \<Rightarrow> bytes \<Rightarrow> bytes \<Rightarrow> bytes option" where
  "toy_open k n a c =
     (if 16 \<le> length c \<and> drop (length c - 16) c = take 16 (list_of k)
      then Some (take (length c - 16) c) else None)"

definition toy_crypto :: crypto_ops where
  "toy_crypto =
     \<lparr>cr_sha256 = arr_pad, cr_hkdf = (\<lambda>salt ikm info n. take n (ikm @ salt)),
      cr_seal256 = toy_seal, cr_open256 = toy_open\<rparr>"

lemma toy_aead_ok:
  assumes "16 \<le> LENGTH('n::len)"
  shows "aead_ok (toy_seal :: 'n arr \<Rightarrow> _) toy_open"
proof -
  have "m @ take 16 (list_of k) = c" if "toy_open k n a c = Some m"
    for k :: "'n arr" and n a c m
  proof -
    have "drop (length c - 16) c = take 16 (list_of k)" "m = take (length c - 16) c"
      using that by (auto simp: toy_open_def split: if_splits)
    then show ?thesis by (metis append_take_drop_id)
  qed
  with assms show ?thesis by (auto simp: aead_ok_def toy_seal_def toy_open_def split: if_splits)
qed

lemma toy_crypto_ok: "crypto_ok toy_crypto"
  by (simp add: toy_crypto_def toy_aead_ok)

end
