(* ===== verification/Ratchet_Ops.thy ===== *)
theory Ratchet_Ops
  imports Crypto_Ops
begin

text \<open>
  What the ratchet and the handshake (\<open>crates/crypto\<close>) use of third-party packages: AES-128-GCM
  (\<open>aes-gcm\<close>), X25519 (\<open>x25519-dalek\<close>), ML-KEM-768 (\<open>ml-kem\<close>), ML-DSA-65 (\<open>ml-dsa\<close>) and the seeded
  generator \<open>StdRng\<close> (\<open>rand\<close>), as a record of functions, with the documented behaviour the
  theorems rely on. A decapsulation key is represented by the 64-byte seed it is exported to and
  restored from, an X25519 secret and an ML-DSA signing key by its 32 bytes. The type \<open>'g\<close> is the
  state of a generator and \<open>'h\<close> the state of the platform's entropy source.
\<close>

record ('g, 'h) ratchet_ops =
  ro_crypto :: crypto_ops
  ro_seal128 :: "16 arr \<Rightarrow> bytes \<Rightarrow> bytes \<Rightarrow> bytes \<Rightarrow> bytes option"
  ro_open128 :: "16 arr \<Rightarrow> bytes \<Rightarrow> bytes \<Rightarrow> bytes \<Rightarrow> bytes option"
  ro_xpub :: "32 arr \<Rightarrow> 32 arr"
  ro_dh :: "32 arr \<Rightarrow> 32 arr \<Rightarrow> 32 arr"
  ro_kem_pub :: "64 arr \<Rightarrow> bytes"
  ro_kem_valid :: "bytes \<Rightarrow> bool"
  ro_encaps :: "bytes \<Rightarrow> 32 arr \<Rightarrow> bytes \<times> bytes"
  ro_decaps :: "64 arr \<Rightarrow> bytes \<Rightarrow> bytes option"
  ro_vk :: "32 arr \<Rightarrow> bytes"
  ro_sign :: "32 arr \<Rightarrow> bytes \<Rightarrow> bytes"
  ro_verify :: "bytes \<Rightarrow> bytes \<Rightarrow> bytes \<Rightarrow> bool"
  ro_fill :: "'g \<Rightarrow> nat \<Rightarrow> bytes \<times> 'g"
  ro_seeded :: "32 arr \<Rightarrow> 'g"
  ro_entropy :: "'h \<Rightarrow> nat \<Rightarrow> bytes option \<times> 'h"

text \<open>
  Arguments: \<open>ro_seal128 key nonce aad message\<close>, \<open>ro_dh secret public\<close>, \<open>ro_encaps key randomness\<close>
  (ciphertext and shared key), \<open>ro_verify key message signature\<close>. \<open>ro_kem_valid\<close> is
  \<open>EncapsulationKey::new(..).is_ok()\<close> and \<open>ro_entropy\<close> is \<open>try_fill_bytes\<close>, which may fail.
\<close>

definition KEM_EK_LEN :: nat where "KEM_EK_LEN = 1184"
definition KEM_CT_LEN :: nat where "KEM_CT_LEN = 1088"

definition dh_ok :: "('g, 'h) ratchet_ops \<Rightarrow> bool" where
  "dh_ok R \<longleftrightarrow> (\<forall>a b. ro_dh R a (ro_xpub R b) = ro_dh R b (ro_xpub R a))"

definition kem_ok :: "('g, 'h) ratchet_ops \<Rightarrow> bool" where
  "kem_ok R \<longleftrightarrow>
     (\<forall>d. length (ro_kem_pub R d) = KEM_EK_LEN \<and> ro_kem_valid R (ro_kem_pub R d))
     \<and> (\<forall>k m. length (fst (ro_encaps R k m)) = KEM_CT_LEN)
     \<and> (\<forall>d m. ro_decaps R d (fst (ro_encaps R (ro_kem_pub R d) m))
                = Some (snd (ro_encaps R (ro_kem_pub R d) m)))"

definition signature_ok :: "('g, 'h) ratchet_ops \<Rightarrow> bool" where
  "signature_ok R \<longleftrightarrow>
     (\<forall>s. length (ro_vk R s) = 1952) \<and> (\<forall>s m. length (ro_sign R s m) = 3309)
     \<and> (\<forall>s m. ro_verify R (ro_vk R s) m (ro_sign R s m))"

definition ratchet_ok :: "('g, 'h) ratchet_ops \<Rightarrow> bool" where
  "ratchet_ok R \<longleftrightarrow>
     crypto_ok (ro_crypto R) \<and> aead_ok (ro_seal128 R) (ro_open128 R) \<and> dh_ok R \<and> kem_ok R \<and> signature_ok R"

lemma ratchet_okD:
  assumes "ratchet_ok R"
  shows "crypto_ok (ro_crypto R)" "aead_ok (ro_seal128 R) (ro_open128 R)" "dh_ok R" "kem_ok R" "signature_ok R"
  using assms by (simp_all add: ratchet_ok_def)

lemma kem_okD:
  assumes "kem_ok R"
  shows "length (ro_kem_pub R d) = KEM_EK_LEN" "ro_kem_valid R (ro_kem_pub R d)"
    "length (fst (ro_encaps R k m)) = KEM_CT_LEN"
    "ro_decaps R d (fst (ro_encaps R (ro_kem_pub R d) m)) = Some (snd (ro_encaps R (ro_kem_pub R d) m))"
  using assms by (simp_all add: kem_ok_def)

text \<open>
  An instance for evaluation: every public value determines its secret and Diffie-Hellman adds
  bytes; the generator is a counter and entropy never fails.
\<close>

definition toy_ratchet :: "(nat, nat) ratchet_ops" where
  "toy_ratchet =
     \<lparr>ro_crypto = toy_crypto, ro_seal128 = toy_seal, ro_open128 = toy_open,
      ro_xpub = (\<lambda>s. s), ro_dh = (\<lambda>s p. arr_pad (map2 (+) (list_of s) (list_of p))),
      ro_kem_pub = (\<lambda>d. list_of d @ replicate (KEM_EK_LEN - 64) 0),
      ro_kem_valid = (\<lambda>k. True),
      ro_encaps = (\<lambda>k m. (list_of m @ replicate (KEM_CT_LEN - 32) 0, list_of m)),
      ro_decaps = (\<lambda>d c. if length c = KEM_CT_LEN then Some (take 32 c) else None),
      ro_vk = (\<lambda>s. list_of s @ replicate 1920 0),
      ro_sign = (\<lambda>s m. replicate 3309 7),
      ro_verify = (\<lambda>k m sg. sg = replicate 3309 7),
      ro_fill = (\<lambda>g n. (replicate n (of_nat (Suc g)), Suc g)),
      ro_seeded = (\<lambda>s. unat (list_of s ! 0)),
      ro_entropy = (\<lambda>h n. (Some (replicate n (of_nat (Suc h))), Suc h))\<rparr>"

lemma map2_plus_commute: "map2 (+) xs ys = map2 (+) ys (xs :: byte list)"
  by (rule nth_equalityI) (simp_all add: add.commute)

lemma toy_ratchet_ok: "ratchet_ok toy_ratchet"
proof -
  have "dh_ok toy_ratchet"
    unfolding dh_ok_def toy_ratchet_def
    by (intro allI) (simp, rule arg_cong [where f = arr_pad], rule map2_plus_commute)
  moreover have "kem_ok toy_ratchet"
    by (simp add: kem_ok_def toy_ratchet_def KEM_EK_LEN_def KEM_CT_LEN_def)
  moreover have "signature_ok toy_ratchet"
    by (simp add: signature_ok_def toy_ratchet_def)
  moreover have "aead_ok (ro_seal128 toy_ratchet) (ro_open128 toy_ratchet)"
    by (simp add: toy_ratchet_def toy_aead_ok)
  moreover have "crypto_ok (ro_crypto toy_ratchet)"
    by (simp add: toy_ratchet_def toy_crypto_ok)
  ultimately show ?thesis by (simp add: ratchet_ok_def)
qed

end
