(* ===== verification/Ratchet_Wire.thy ===== *)
theory Ratchet_Wire
  imports Ratchet_Ops
begin

text \<open>
  The wire values of the hybrid ratchet, \<open>crates/crypto/src/session.rs\<close>: \<open>FirstMove\<close> (the handshake
  message), \<open>Frame\<close> (a ratchet message) and the framing of an authenticated first-move payload,
  with their decoders and the theorems that the decoders invert the encoders.
\<close>

section \<open>Errors\<close>

text \<open>\<open>CryptoError\<close> of \<open>lib.rs\<close>. \<open>CPanic\<close> stands for the panic of the \<open>expect\<close> in \<open>len16\<close>.\<close>

datatype crypto_error =
    BundleInvalid | BadKemKey | BadKemCiphertext | Encrypt | Decrypt | Replay | Gap | UnknownMixKey
  | NoPqKey | BadEncoding | InvalidStateContext | StateTooLarge | StateAuthentication
  | StaleTransaction | BadSignature | Entropy | CPanic

definition len16 :: "bytes \<Rightarrow> crypto_error + u16" where
  "len16 bs = (if length bs < 65536 then Inr (of_nat (length bs)) else Inl CPanic)"

lemma len16_ok: "length bs < 65536 \<Longrightarrow> len16 bs = Inr (of_nat (length bs))"
  by (simp add: len16_def)

lemma len16_Inr: "len16 bs = Inr n \<longleftrightarrow> length bs < 65536 \<and> n = of_nat (length bs)"
  by (auto simp: len16_def)

section \<open>First move\<close>

record first_move =
  fm_eph_pub :: "32 arr"
  fm_kem_ct :: bytes
  fm_nonce :: "12 arr"
  fm_ct :: bytes

definition first_move_header :: "first_move \<Rightarrow> crypto_error + bytes" where
  "first_move_header fm =
     rbind (len16 (fm_kem_ct fm)) (\<lambda>n.
     Inr (list_of (fm_eph_pub fm) @ be16 n @ fm_kem_ct fm @ list_of (fm_nonce fm)))"

definition first_move_encode :: "first_move \<Rightarrow> crypto_error + bytes" where
  "first_move_encode fm =
     rbind (len16 (fm_kem_ct fm)) (\<lambda>n.
     Inr (list_of (fm_eph_pub fm) @ be16 n @ fm_kem_ct fm @ list_of (fm_nonce fm) @ fm_ct fm))"

definition first_move_decode :: "bytes \<Rightarrow> first_move option" where
  "first_move_decode buf =
     (if length buf < 32 + 2 + 12 then None else
      let klen = unat (de16 (sub_list buf 32 34)) in
      if length buf < 34 + klen + 12 then None else
      Some \<lparr>fm_eph_pub = arr_pad (sub_list buf 0 32), fm_kem_ct = sub_list buf 34 (34 + klen),
            fm_nonce = arr_pad (sub_list buf (34 + klen) (34 + klen + 12)),
            fm_ct = drop (34 + klen + 12) buf\<rparr>)"

section \<open>Frames\<close>

record frame =
  f_ctr :: u64
  f_pn :: u64
  f_sender_pub :: "32 arr"
  f_mixed_with :: "32 arr option"
  f_pq_ct :: "bytes option"
  f_ct :: bytes

definition header_bytes :: "frame \<Rightarrow> crypto_error + bytes" where
  "header_bytes f =
     rbind (case f_pq_ct f of
              Some c \<Rightarrow> rbind (len16 c) (\<lambda>n. Inr ([1] @ be16 n @ c))
            | None \<Rightarrow> Inr [0]) (\<lambda>pq.
     Inr (be64 (f_ctr f) @ be64 (f_pn f) @ list_of (f_sender_pub f)
          @ (case f_mixed_with f of Some m \<Rightarrow> [1] @ list_of m | None \<Rightarrow> [0]) @ pq))"

definition frame_encode :: "frame \<Rightarrow> crypto_error + bytes" where
  "frame_encode f = rbind (header_bytes f) (\<lambda>h. Inr (h @ f_ct f))"

text \<open>The two optional fields; the cursor \<open>p\<close> is the suffix of the buffer it points to.\<close>

definition read_mixed_with :: "bytes \<Rightarrow> (32 arr option \<times> bytes) option" where
  "read_mixed_with r =
     (if hd r = 1
      then if length r < 33 then None else Some (Some (arr_pad (sub_list r 1 33)), drop 33 r)
      else Some (None, drop 1 r))"

definition read_pq_ct :: "bytes \<Rightarrow> (bytes option \<times> bytes) option" where
  "read_pq_ct r =
     (if hd r = 1
      then if length r < 3 then None else
           let l = unat (de16 (sub_list r 1 3)); r = drop 3 r in
           if length r < l then None else Some (Some (take l r), drop l r)
      else Some (None, drop 1 r))"

definition frame_decode :: "bytes \<Rightarrow> frame option" where
  "frame_decode buf =
     (if length buf < 8 + 8 + 32 + 1 + 1 then None else
      let ctr = de64 (sub_list buf 0 8); pn = de64 (sub_list buf 8 16) in
      if ctr \<le> pn then None else
      Option.bind (read_mixed_with (drop 48 buf)) (\<lambda>(mixed_with, r).
      if length r < 1 then None else
      Option.bind (read_pq_ct r) (\<lambda>(pq_ct, r).
      Some \<lparr>f_ctr = ctr, f_pn = pn, f_sender_pub = arr_pad (sub_list buf 16 48),
            f_mixed_with = mixed_with, f_pq_ct = pq_ct, f_ct = r\<rparr>)))"

text \<open>The frames the encoder handles without a panic and the decoder accepts.\<close>

definition pq_fits :: "bytes option \<Rightarrow> bool" where
  "pq_fits x \<longleftrightarrow> (case x of Some c \<Rightarrow> length c < 65536 | None \<Rightarrow> True)"

definition frame_ok :: "frame \<Rightarrow> bool" where
  "frame_ok f \<longleftrightarrow> f_pn f < f_ctr f \<and> pq_fits (f_pq_ct f)"

definition opt_bytes :: "bytes option \<Rightarrow> bytes" where
  "opt_bytes x = (case x of Some c \<Rightarrow> [1] @ be16 (of_nat (length c)) @ c | None \<Rightarrow> [0])"

definition opt32_bytes :: "32 arr option \<Rightarrow> bytes" where
  "opt32_bytes x = (case x of Some m \<Rightarrow> [1] @ list_of m | None \<Rightarrow> [0])"

lemma header_bytes_eq:
  "frame_ok f \<Longrightarrow> header_bytes f =
     Inr (be64 (f_ctr f) @ be64 (f_pn f) @ list_of (f_sender_pub f)
          @ opt32_bytes (f_mixed_with f) @ opt_bytes (f_pq_ct f))"
  by (cases "f_pq_ct f") (simp_all add: header_bytes_def frame_ok_def pq_fits_def len16_def opt_bytes_def opt32_bytes_def)

lemma header_bytes_ct [simp]: "header_bytes (f\<lparr>f_ct := c\<rparr>) = header_bytes f"
  by (simp add: header_bytes_def)

lemma read_mixed_with_append: "read_mixed_with (opt32_bytes x @ r) = Some (x, r)"
  by (cases x) (simp_all add: read_mixed_with_def opt32_bytes_def sub_list_def)

lemma read_pq_ct_append:
  "pq_fits x \<Longrightarrow> read_pq_ct (opt_bytes x @ r) = Some (x, r)"
  by (cases x) (simp_all add: read_pq_ct_def pq_fits_def opt_bytes_def sub_list_def unat_of_nat_u16)

lemma opt_bytes_nonempty [simp]: "opt_bytes x \<noteq> []" "opt32_bytes y \<noteq> []"
  by (simp_all add: opt_bytes_def opt32_bytes_def split: option.splits)

lemma frame_decode_encode:
  assumes "frame_ok f"
  shows "\<exists>w. frame_encode f = Inr w \<and> frame_decode w = Some f"
proof -
  let ?r = "opt32_bytes (f_mixed_with f) @ opt_bytes (f_pq_ct f) @ f_ct f"
  let ?w = "be64 (f_ctr f) @ be64 (f_pn f) @ list_of (f_sender_pub f) @ ?r"
  have enc: "frame_encode f = Inr ?w"
    using header_bytes_eq [OF assms] by (simp add: frame_encode_def)
  have "length (opt32_bytes (f_mixed_with f)) > 0" "length (opt_bytes (f_pq_ct f)) > 0" by simp_all
  then have "2 \<le> length ?r" unfolding length_append by linarith
  then have len: "\<not> length ?w < 8 + 8 + 32 + 1 + 1" by simp
  have "frame_decode ?w = Some f"
    using assms read_mixed_with_append read_pq_ct_append [of "f_pq_ct f" "f_ct f"] len
    by (simp add: frame_decode_def frame_ok_def sub_list_def Let_def not_le)
  with enc show ?thesis by blast
qed

text \<open>What the decoder accepts: a well-formed frame whose body is the rest of the buffer.\<close>

lemma read_mixed_with_length:
  "read_mixed_with r = Some (x, r') \<Longrightarrow> length r' \<le> length r - 1"
  by (auto simp: read_mixed_with_def split: if_splits)

lemma read_pq_ct_Some:
  assumes "read_pq_ct r = Some (x, r')"
  shows "pq_fits x"
proof -
  have "unat (de16 bs) < 65536" for bs using unsigned_less [of "de16 bs", where 'a = nat] by simp
  with assms show ?thesis
    by (auto simp: read_pq_ct_def pq_fits_def Let_def split: if_splits option.splits)
qed

lemma frame_decode_ok: "frame_decode w = Some f \<Longrightarrow> frame_ok f"
  by (auto simp: frame_decode_def frame_ok_def Let_def not_le split: if_splits bind_splits)
    (erule read_pq_ct_Some)

section \<open>First moves are canonical\<close>

definition first_move_ok :: "first_move \<Rightarrow> bool" where
  "first_move_ok fm \<longleftrightarrow> length (fm_kem_ct fm) < 65536"

lemma first_move_encode_eq:
  "first_move_ok fm \<Longrightarrow> first_move_encode fm =
     Inr (list_of (fm_eph_pub fm) @ be16 (of_nat (length (fm_kem_ct fm))) @ fm_kem_ct fm
          @ list_of (fm_nonce fm) @ fm_ct fm)"
  by (simp add: first_move_encode_def first_move_ok_def len16_ok)

lemma first_move_decode_iff:
  "first_move_decode w = Some fm \<longleftrightarrow> first_move_ok fm \<and> first_move_encode fm = Inr w"
proof
  assume d: "first_move_decode w = Some fm"
  let ?k = "unat (de16 (sub_list w 32 34))"
  from d have len: "46 \<le> length w" "34 + ?k + 12 \<le> length w"
    and fm: "fm = \<lparr>fm_eph_pub = arr_pad (sub_list w 0 32), fm_kem_ct = sub_list w 34 (34 + ?k),
            fm_nonce = arr_pad (sub_list w (34 + ?k) (34 + ?k + 12)), fm_ct = drop (34 + ?k + 12) w\<rparr>"
    by (auto simp: first_move_decode_def Let_def split: if_splits)
  have k: "?k < 65536" using unsigned_less [of "de16 (sub_list w 32 34)", where 'a = nat] by simp
  have lk: "length (fm_kem_ct fm) = ?k" using len fm by simp
  have b: "be16 (of_nat ?k) = sub_list w 32 34" using len by (simp add: be_de)
  have "w = sub_list w 0 32 @ sub_list w 32 34 @ sub_list w 34 (34 + ?k)
          @ sub_list w (34 + ?k) (34 + ?k + 12) @ drop (34 + ?k + 12) w"
    by (simp add: sub_list_drop sub_list_take [symmetric])
  with k lk b len fm show "first_move_ok fm \<and> first_move_encode fm = Inr w"
    by (simp add: first_move_ok_def first_move_encode_def len16_def)
next
  assume "first_move_ok fm \<and> first_move_encode fm = Inr w"
  then have w: "w = list_of (fm_eph_pub fm) @ be16 (of_nat (length (fm_kem_ct fm))) @ fm_kem_ct fm
          @ list_of (fm_nonce fm) @ fm_ct fm" and k: "length (fm_kem_ct fm) < 65536"
    by (auto simp: first_move_encode_eq first_move_ok_def)
  then show "first_move_decode w = Some fm"
    by (simp add: first_move_decode_def Let_def sub_list_def unat_of_nat_u16)
qed

section \<open>Authenticated payload framing\<close>

definition frame_authenticated_payload :: "bytes \<Rightarrow> bytes \<Rightarrow> bytes" where
  "frame_authenticated_payload info signature =
     be32 (of_nat (length info)) @ info @ be16 (of_nat (length signature)) @ signature"

definition split_authenticated_payload :: "bytes \<Rightarrow> (bytes \<times> bytes) option" where
  "split_authenticated_payload payload =
     Option.bind (get_range payload 0 4) (\<lambda>n.
     let info_end = 4 + unat (de32 n) in
     Option.bind (get_range payload 4 info_end) (\<lambda>info.
     Option.bind (get_range payload info_end (info_end + 2)) (\<lambda>m.
     let sig_start = info_end + 2; sig_end = sig_start + unat (de16 m) in
     if sig_end \<noteq> length payload then None
     else Option.bind (get_range payload sig_start sig_end) (\<lambda>s. Some (info, s)))))"

lemma split_authenticated_payload_iff:
  "split_authenticated_payload p = Some (info, sg) \<longleftrightarrow>
     length info < 2 ^ 32 \<and> length sg < 2 ^ 16 \<and> p = frame_authenticated_payload info sg"
proof
  assume d: "split_authenticated_payload p = Some (info, sg)"
  let ?e = "4 + unat (de32 (sub_list p 0 4))"
  let ?n = "unat (de16 (sub_list p ?e (?e + 2)))"
  from d have len: "?e + 2 + ?n = length p" and i: "info = sub_list p 4 ?e"
    and s: "sg = sub_list p (?e + 2) (?e + 2 + ?n)"
    by (auto simp: split_authenticated_payload_def get_range_def Let_def split: if_splits bind_splits)
  have n: "?n < 2 ^ 16" "unat (de32 (sub_list p 0 4)) < 2 ^ 32"
    using unsigned_less [of "de16 (sub_list p ?e (?e + 2))", where 'a = nat]
      unsigned_less [of "de32 (sub_list p 0 4)", where 'a = nat] by simp_all
  have l: "length info = unat (de32 (sub_list p 0 4))" "length sg = ?n" using i s len by simp_all
  have "p = sub_list p 0 4 @ sub_list p 4 ?e @ sub_list p ?e (?e + 2) @ sub_list p (?e + 2) (?e + 2 + ?n)"
    using len by (simp add: sub_list_join sub_list_all)
  moreover have "be32 (of_nat (length info)) = sub_list p 0 4" "be16 (of_nat (length sg)) = sub_list p ?e (?e + 2)"
    using l len by (simp_all add: be_de)
  ultimately have "p = frame_authenticated_payload info sg"
    unfolding frame_authenticated_payload_def i [symmetric] s [symmetric] by (simp only:)
  with n l show "length info < 2 ^ 32 \<and> length sg < 2 ^ 16 \<and> p = frame_authenticated_payload info sg"
    by simp
next
  assume "length info < 2 ^ 32 \<and> length sg < 2 ^ 16 \<and> p = frame_authenticated_payload info sg"
  then show "split_authenticated_payload p = Some (info, sg)"
    by (simp add: split_authenticated_payload_def frame_authenticated_payload_def get_range_def sub_list_def
        Let_def unat_of_nat_u16 unat_of_nat_u32)
qed

end
