(* ===== verification/Flow_Window.thy ===== *)
theory Flow_Window
  imports Cells Coverage Crypto_Ops
begin

text \<open>
  The GC/2 ratchet credit window of \<open>crates/protocol/src/flow.rs\<close>: flow records and their codec,
  receipt authorities, the window's send and receive state, and the encrypted cumulative credit a
  receiver returns. Hashing, key derivation and authenticated encryption are parameters
  (theory \<open>Crypto_Ops\<close>).
\<close>

unbundle bit_operations_syntax

section \<open>Limits and purposes\<close>

definition INTERACTIVE_WINDOW :: u64 where "INTERACTIVE_WINDOW = COUNTER_WINDOW - 8"
definition BULK_WINDOW :: u64 where "BULK_WINDOW = INTERACTIVE_WINDOW - 8"
definition RECORD_HEADER :: nat where "RECORD_HEADER = 4 + 1 + 8 + 32 + 2"
definition SESSION_HEADER :: nat where "SESSION_HEADER = 4 + 16"
definition MAX_FRAME_OVERHEAD :: nat where
  "MAX_FRAME_OVERHEAD = 8 + 8 + 32 + 1 + 32 + 1 + 2 + 1088 + 16"
definition MAX_RECORD_BODY :: nat where
  "MAX_RECORD_BODY = MAX_MESSAGE - SESSION_HEADER - MAX_FRAME_OVERHEAD - RECORD_HEADER"
definition CREDIT_BYTES :: nat where "CREDIT_BYTES = 4 + 16 + 16 + 12 + 16 + 16"
definition RECORD_MAGIC :: bytes where "RECORD_MAGIC = lit ''GCF2''"
definition CREDIT_MAGIC :: bytes where "CREDIT_MAGIC = lit ''GCA2''"

text \<open>\<open>SKIP_KEY_TTL\<close> in seconds.\<close>

definition SKIP_KEY_TTL :: u64 where "SKIP_KEY_TTL = 24 * 60 * 60"

datatype purpose = PBulk | PInteractive | PControl

fun purpose_byte :: "purpose \<Rightarrow> byte" where
  "purpose_byte PBulk = 0"
| "purpose_byte PInteractive = 1"
| "purpose_byte PControl = 2"

definition purpose_traffic :: "purpose \<Rightarrow> traffic_class" where
  "purpose_traffic p = (if p = PBulk then Bulk else Interactive)"

fun purpose_limit :: "purpose \<Rightarrow> u64" where
  "purpose_limit PBulk = BULK_WINDOW"
| "purpose_limit PInteractive = INTERACTIVE_WINDOW"
| "purpose_limit PControl = COUNTER_WINDOW"

definition purpose_decode :: "byte \<Rightarrow> flow_error + purpose" where
  "purpose_decode b =
     (if b = 0 then Inr PBulk else if b = 1 then Inr PInteractive else if b = 2 then Inr PControl
      else Inl FVersion)"

lemma purpose_decode_byte [simp]: "purpose_decode (purpose_byte p) = Inr p"
  by (cases p) (simp_all add: purpose_decode_def)

lemma purpose_decode_Inr: "purpose_decode b = Inr p \<longleftrightarrow> b = purpose_byte p"
  by (cases p) (auto simp: purpose_decode_def split: if_splits)

lemma purpose_limit_le: "purpose_limit p \<le> 63"
  by (cases p) (simp_all add: BULK_WINDOW_def INTERACTIVE_WINDOW_def)

section \<open>Flow records\<close>

record flow_record =
  fr_purpose :: purpose
  fr_not_after :: u64
  fr_secret :: "32 arr"
  fr_body :: bytes

text \<open>\<open>Record::new\<close>; \<open>secret\<close> is what \<open>fill_bytes\<close> writes.\<close>

definition flow_record_new :: "purpose \<Rightarrow> u64 \<Rightarrow> bytes \<Rightarrow> 32 arr \<Rightarrow> flow_error + flow_record" where
  "flow_record_new purpose not_after body secret =
     reject (MAX_RECORD_BODY < length body \<or> (not_after = 0 \<and> purpose \<noteq> PControl)) FLength
       (Inr \<lparr>fr_purpose = purpose, fr_not_after = not_after, fr_secret = secret, fr_body = body\<rparr>)"

definition fr_expired :: "flow_record \<Rightarrow> u64 \<Rightarrow> bool" where
  "fr_expired r now_unix \<longleftrightarrow> fr_not_after r \<noteq> 0 \<and> fr_not_after r \<le> now_unix"

definition fr_encode :: "flow_record \<Rightarrow> bytes" where
  "fr_encode r =
     RECORD_MAGIC @ [purpose_byte (fr_purpose r)] @ be64 (fr_not_after r) @ list_of (fr_secret r)
     @ be16 (of_nat (length (fr_body r))) @ fr_body r"

definition fr_decode :: "bytes \<Rightarrow> flow_error + flow_record" where
  "fr_decode bytes =
     reject (get_range bytes 0 4 \<noteq> Some RECORD_MAGIC) FVersion (
     reject (\<not> (RECORD_HEADER \<le> length bytes \<and> length bytes \<le> RECORD_HEADER + MAX_RECORD_BODY)) FLength (
     rbind (purpose_decode (bytes ! 4)) (\<lambda>purpose.
     let not_after = de64 (sub_list bytes 5 13);
         len = unat (de16 (sub_list bytes 45 47))
     in reject (length bytes \<noteq> RECORD_HEADER + len \<or> (not_after = 0 \<and> purpose \<noteq> PControl)) FLength
          (Inr \<lparr>fr_purpose = purpose, fr_not_after = not_after,
                fr_secret = arr_pad (sub_list bytes 13 45), fr_body = drop RECORD_HEADER bytes\<rparr>))))"

text \<open>The fields of \<open>Record\<close> are private: every value came out of \<open>new\<close> or \<open>decode\<close>.\<close>

definition fr_ok :: "flow_record \<Rightarrow> bool" where
  "fr_ok r \<longleftrightarrow> length (fr_body r) \<le> MAX_RECORD_BODY \<and> (fr_not_after r = 0 \<longrightarrow> fr_purpose r = PControl)"

lemma flow_record_new_ok: "flow_record_new p n b s = Inr r \<Longrightarrow> fr_ok r"
  by (auto simp: flow_record_new_def fr_ok_def)

lemma record_consts: "RECORD_HEADER = 47" "MAX_RECORD_BODY = 14105" "SESSION_HEADER = 20"
  "MAX_FRAME_OVERHEAD = 1188" "CREDIT_BYTES = 80"
  by (simp_all add: RECORD_HEADER_def MAX_RECORD_BODY_def MAX_MESSAGE_def SESSION_HEADER_def
      MAX_FRAME_OVERHEAD_def CREDIT_BYTES_def)

lemma fr_decode_encode:
  assumes "fr_ok r"
  shows "fr_decode (fr_encode r) = Inr r"
proof -
  let ?h = "RECORD_MAGIC @ [purpose_byte (fr_purpose r)] @ be64 (fr_not_after r) @ list_of (fr_secret r)
     @ be16 (of_nat (length (fr_body r)))"
  have l4: "length RECORD_MAGIC = 4" by (simp add: RECORD_MAGIC_def)
  have e: "fr_encode r = ?h @ fr_body r" by (simp add: fr_encode_def)
  have n: "unat (of_nat (length (fr_body r)) :: u16) = length (fr_body r)"
    using assms by (simp add: fr_ok_def record_consts unat_of_nat_u16)
  have "get_range (fr_encode r) 0 4 = Some RECORD_MAGIC"
    by (simp add: get_range_def fr_encode_def l4 sub_list_def)
  moreover have "fr_encode r ! 4 = purpose_byte (fr_purpose r)" by (simp add: fr_encode_def l4 nth_append)
  moreover have "sub_list (fr_encode r) 5 13 = be64 (fr_not_after r)"
    by (simp add: fr_encode_def sub_list_def l4)
  moreover have "sub_list (fr_encode r) 13 45 = list_of (fr_secret r)"
    by (simp add: fr_encode_def sub_list_def l4)
  moreover have "sub_list (fr_encode r) 45 47 = be16 (of_nat (length (fr_body r)))"
    by (simp add: fr_encode_def sub_list_def l4)
  moreover have "length (fr_encode r) = 47 + length (fr_body r)" "drop 47 (fr_encode r) = fr_body r"
    by (simp_all add: e l4)
  ultimately show ?thesis
    using assms n by (auto simp: fr_decode_def record_consts fr_ok_def Let_def reject_def)
qed

lemma fr_encode_decode:
  assumes "fr_decode w = Inr r"
  shows "fr_encode r = w" and "fr_ok r"
proof -
  from assms have m: "get_range w 0 4 = Some RECORD_MAGIC" and l: "47 \<le> length w" "length w \<le> 47 + 14105"
    and p: "w ! 4 = purpose_byte (fr_purpose r)" and n: "length w = 47 + unat (de16 (sub_list w 45 47))"
    and z: "fr_not_after r = 0 \<longrightarrow> fr_purpose r = PControl"
    and r: "fr_not_after r = de64 (sub_list w 5 13)" "fr_secret r = arr_pad (sub_list w 13 45)" "fr_body r = drop 47 w"
    by (auto simp: fr_decode_def record_consts Let_def purpose_decode_Inr)
  have b: "length (fr_body r) = unat (de16 (sub_list w 45 47))" using n r(3) by simp
  have "be16 (of_nat (length (fr_body r))) = sub_list w 45 47" using l by (simp add: b be_de)
  moreover have "RECORD_MAGIC = sub_list w 0 4" using m by (simp add: get_range_def split: if_splits)
  moreover have "[purpose_byte (fr_purpose r)] = sub_list w 4 5"
    using p l by (simp add: sub_list_def take_Suc_conv_app_nth hd_drop_conv_nth take_Suc flip: p)
  moreover have "be64 (fr_not_after r) = sub_list w 5 13" "list_of (fr_secret r) = sub_list w 13 45"
    using l r by (simp_all add: be_de)
  ultimately have "fr_encode r = sub_list w 0 4 @ sub_list w 4 5 @ sub_list w 5 13 @ sub_list w 13 45 @ sub_list w 45 47 @ drop 47 w"
    using r(3) by (simp add: fr_encode_def)
  also have "\<dots> = w" by (simp add: sub_list_drop)
  finally show "fr_encode r = w" .
  show "fr_ok r" using z l r(3) by (simp add: fr_ok_def record_consts)
qed

interpretation flow_record: canonical_codec fr_encode fr_decode fr_ok
  by unfold_locales (simp_all add: fr_decode_encode fr_encode_decode)

section \<open>Receipt authorities\<close>

record authority =
  au_secret :: "32 arr"
  au_packet_hash :: "32 arr"
  au_reference :: "16 arr"

definition authority_new :: "crypto_ops \<Rightarrow> 16 arr \<Rightarrow> 32 arr \<Rightarrow> 32 arr \<Rightarrow> authority" where
  "authority_new C session packet_hash secret =
     \<lparr>au_secret = secret, au_packet_hash = packet_hash,
      au_reference = arr_pad (cr_hkdf C (list_of packet_hash) (list_of secret)
        (lit ''GC2/credit-reference'' @ [0] @ list_of session) 16)\<rparr>"

definition authority_key :: "crypto_ops \<Rightarrow> authority \<Rightarrow> 16 arr \<Rightarrow> 32 arr" where
  "authority_key C au session =
     arr_pad (cr_hkdf C (list_of (au_packet_hash au)) (list_of (au_secret au))
       (lit ''GC2/credit-encryption'' @ [0] @ list_of session) 32)"

type_synonym credit = "80 arr"

record sent_entry =
  se_authority :: authority
  se_packet :: bytes
  se_purpose :: purpose
  se_sent_unix :: u64
  se_volatile :: bool

record received_entry =
  re_authority :: authority
  re_cached :: "credit option"

section \<open>The window\<close>

record window =
  w_generation :: u64
  w_session :: "16 arr"
  w_sent :: u64
  w_credited :: coverage
  w_received :: coverage
  w_tx :: "(u64 \<times> sent_entry) list"
  w_rx :: "(u64 \<times> received_entry) list"

definition window_new_generation :: "16 arr \<Rightarrow> u64 \<Rightarrow> flow_error + window" where
  "window_new_generation session generation =
     reject (session = arr_fill 0 \<or> generation = 0) FState
       (Inr \<lparr>w_generation = generation, w_session = session, w_sent = 0, w_credited = cov_default,
             w_received = cov_default, w_tx = [], w_rx = []\<rparr>)"

definition window_new :: "16 arr \<Rightarrow> flow_error + window" where
  "window_new session = window_new_generation session 1"

definition is_credited :: "window \<Rightarrow> u64 \<Rightarrow> bool" where
  "is_credited w counter \<longleftrightarrow> counter \<noteq> 0 \<and> counter \<le> w_sent w \<and> cov_contains (w_credited w) counter"

definition is_credit_gap :: "window \<Rightarrow> u64 \<Rightarrow> bool" where
  "is_credit_gap w counter \<longleftrightarrow>
     counter \<noteq> 0 \<and> counter \<le> w_sent w \<and> map_of (w_tx w) counter \<noteq> None
     \<and> \<not> cov_contains (w_credited w) counter
     \<and> (case cov_highest (w_credited w) of Inl _ \<Rightarrow> False | Inr highest \<Rightarrow> counter < highest)"

definition cached_payload_count :: "window \<Rightarrow> nat" where
  "cached_payload_count w = length (filter (\<lambda>(_, e). se_packet e \<noteq> []) (w_tx w))"

definition cached_payload_bytes :: "window \<Rightarrow> nat" where
  "cached_payload_bytes w = sum_list (map (\<lambda>(_, e). length (se_packet e)) (w_tx w))"

definition oldest_uncredited_unix :: "window \<Rightarrow> u64 option" where
  "oldest_uncredited_unix w =
     (case map (\<lambda>(_, e). se_sent_unix e) (w_tx w) of [] \<Rightarrow> None | t # ts \<Rightarrow> Some (foldl min t ts))"

definition repair_expired :: "window \<Rightarrow> u64 \<Rightarrow> bool" where
  "repair_expired w now_unix =
     (case oldest_uncredited_unix w of
        None \<Rightarrow> False
      | Some oldest \<Rightarrow> SKIP_KEY_TTL \<le> saturating_sub now_unix oldest)"

definition recovery_required :: "window \<Rightarrow> u64 \<Rightarrow> bool" where
  "recovery_required w now_unix \<longleftrightarrow>
     repair_expired w now_unix
     \<or> (\<exists>(counter, e) \<in> set (w_tx w).
           se_volatile e \<and> se_packet e = [] \<and> \<not> cov_contains (w_credited w) counter)"

definition has_volatile_counters :: "window \<Rightarrow> bool" where
  "has_volatile_counters w \<longleftrightarrow> (\<exists>(_, e) \<in> set (w_tx w). se_volatile e)"

definition next_counter :: "window \<Rightarrow> purpose \<Rightarrow> flow_error + u64" where
  "next_counter w purpose =
     rbind (ok_or FCounter (checked_add (w_sent w) 1)) (\<lambda>nxt.
     reject (purpose_limit purpose < nxt - cov_floor (w_credited w)) FFull (Inr nxt))"

definition record_sent ::
  "crypto_ops \<Rightarrow> u64 \<Rightarrow> bytes \<Rightarrow> flow_record \<Rightarrow> u64 \<Rightarrow> window \<Rightarrow> flow_error + window" where
  "record_sent C counter packet r sent_unix w =
     reject (packet = [] \<or> MAX_MESSAGE < length packet) FLength (
     reject (sent_unix = 0) FCounter (
     rbind (next_counter w (fr_purpose r)) (\<lambda>nxt.
     reject (nxt \<noteq> counter) FCounter (
     let authority = authority_new C (w_session w) (cr_sha256 C packet) (fr_secret r)
     in reject (\<exists>(_, e) \<in> set (w_tx w). au_reference (se_authority e) = au_reference authority) FState
          (Inr (w\<lparr>w_tx := bt_insert counter
                    \<lparr>se_authority = authority, se_packet = packet, se_purpose = fr_purpose r,
                     se_sent_unix = sent_unix, se_volatile = False\<rparr> (w_tx w),
                  w_sent := counter\<rparr>))))))"

definition record_authenticated ::
  "crypto_ops \<Rightarrow> u64 \<Rightarrow> bytes \<Rightarrow> flow_record \<Rightarrow> window \<Rightarrow> flow_error + window" where
  "record_authenticated C counter packet r w =
     reject (packet = [] \<or> MAX_MESSAGE < length packet) FLength (
     rbind (cov_accept counter (w_received w)) (\<lambda>cov.
     let authority = authority_new C (w_session w) (cr_sha256 C packet) (fr_secret r);
         rx = bt_insert counter \<lparr>re_authority = authority, re_cached = None\<rparr> (w_rx w)
     in rbind (cov_highest cov) (\<lambda>highest.
        let minimum = saturating_sub highest (COUNTER_WINDOW - 1)
        in Inr (w\<lparr>w_received := cov, w_rx := filter (\<lambda>(k, _). minimum \<le> k) rx\<rparr>))))"

text \<open>The 80 bytes of a credit: magic, session, reference, nonce, sealed floor and mask.\<close>

definition credit_nonce :: "u64 \<Rightarrow> bytes" where
  "credit_nonce count = [0, 0, 0, 0] @ be64 count"

definition credit_header :: "16 arr \<Rightarrow> authority \<Rightarrow> bytes" where
  "credit_header session au = CREDIT_MAGIC @ list_of session @ list_of (au_reference au)"

definition credit_seal :: "crypto_ops \<Rightarrow> 16 arr \<Rightarrow> authority \<Rightarrow> u64 \<Rightarrow> coverage \<Rightarrow> flow_error + credit" where
  "credit_seal C session au count cov =
     (let nonce = credit_nonce count; header = credit_header session au
      in rbind (ok_or FAuthentication
           (cr_seal256 C (authority_key C au session) nonce header
              (be64 (cov_floor cov) @ be64 (cov_mask cov)))) (\<lambda>ciphertext.
         Inr (arr_pad (header @ nonce @ ciphertext))))"

definition credit_for_duplicate ::
  "crypto_ops \<Rightarrow> u64 \<Rightarrow> bytes \<Rightarrow> window \<Rightarrow> flow_error + (credit \<times> window)" where
  "credit_for_duplicate C counter packet w =
     reject (MAX_MESSAGE < length packet) FLength (
     rbind (ok_or FUnknownReceipt (map_of (w_rx w) counter)) (\<lambda>entry.
     reject (au_packet_hash (re_authority entry) \<noteq> cr_sha256 C packet) FAuthentication (
     reject (w_rx w = []) FState (
     let (key, entry) = last (w_rx w)
     in rbind (cov_count (w_received w)) (\<lambda>count.
        let fresh = rbind (credit_seal C (w_session w) (re_authority entry) count (w_received w)) (\<lambda>bytes.
              Inr (bytes, w\<lparr>w_rx := bt_insert key (entry\<lparr>re_cached := Some bytes\<rparr>) (w_rx w)\<rparr>))
        in case re_cached entry of
             Some cached \<Rightarrow>
               if sub_list (list_of cached) 36 48 = credit_nonce count then Inr (cached, w) else fresh
           | None \<Rightarrow> fresh)))))"

definition decode_credit :: "crypto_ops \<Rightarrow> 16 arr \<Rightarrow> authority \<Rightarrow> bytes \<Rightarrow> flow_error + coverage" where
  "decode_credit C session au bytes =
     reject (length bytes \<noteq> CREDIT_BYTES \<or> sub_list bytes 0 4 \<noteq> CREDIT_MAGIC
        \<or> sub_list bytes 4 20 \<noteq> list_of session \<or> sub_list bytes 20 36 \<noteq> list_of (au_reference au)
        \<or> sub_list bytes 36 40 \<noteq> [0, 0, 0, 0]) FAuthentication (
     rbind (ok_or FAuthentication
        (cr_open256 C (authority_key C au session) (sub_list bytes 36 48) (sub_list bytes 0 36)
           (drop 48 bytes))) (\<lambda>plaintext.
     reject (length (drop 8 plaintext) \<noteq> 8) FLength (
     let cov = \<lparr>cov_floor = de64 (take 8 plaintext), cov_mask = de64 (drop 8 plaintext)\<rparr>
     in reject (\<not> cov_valid cov) FCounter (
        rbind (cov_count cov) (\<lambda>count.
        reject (be64 count \<noteq> sub_list bytes 40 48) FCounter (Inr cov))))))"

definition accept_credit :: "crypto_ops \<Rightarrow> bytes \<Rightarrow> window \<Rightarrow> flow_error + (bool \<times> window)" where
  "accept_credit C bytes w =
     reject (length bytes \<noteq> CREDIT_BYTES) FLength (
     reject (sub_list bytes 0 4 \<noteq> CREDIT_MAGIC) FVersion (
     reject (sub_list bytes 4 20 \<noteq> list_of (w_session w)) FAuthentication (
     rbind (ok_or FUnknownReceipt
        (find (\<lambda>(_, e). list_of (au_reference (se_authority e)) = sub_list bytes 20 36) (w_tx w))) (\<lambda>(_, entry).
     rbind (decode_credit C (w_session w) (se_authority entry) bytes) (\<lambda>cov.
     rbind (cov_highest cov) (\<lambda>highest.
     reject (w_sent w < highest) FCounter (
     if cov_floor cov < cov_floor (w_credited w) then Inr (False, w)
     else rbind (cov_merge (w_credited w) cov) (\<lambda>credited.
       Inr (credited \<noteq> w_credited w,
            w\<lparr>w_credited := credited, w_tx := filter (\<lambda>(k, _). cov_floor credited < k) (w_tx w)\<rparr>)))))))))"

definition retries :: "window \<Rightarrow> (u64 \<times> purpose \<times> bytes) list" where
  "retries w =
     map (\<lambda>(k, e). (k, se_purpose e, se_packet e))
       (filter (\<lambda>(k, e). \<not> cov_contains (w_credited w) k \<and> se_packet e \<noteq> []) (w_tx w))"

section \<open>Invariant\<close>

definition authority_ok :: "crypto_ops \<Rightarrow> 16 arr \<Rightarrow> authority \<Rightarrow> bool" where
  "authority_ok C session au \<longleftrightarrow> au = authority_new C session (au_packet_hash au) (au_secret au)"

definition sent_ok :: "crypto_ops \<Rightarrow> 16 arr \<Rightarrow> sent_entry \<Rightarrow> bool" where
  "sent_ok C session e \<longleftrightarrow>
     authority_ok C session (se_authority e) \<and> se_sent_unix e \<noteq> 0
     \<and> length (se_packet e) \<le> MAX_MESSAGE
     \<and> (se_packet e \<noteq> [] \<longrightarrow> au_packet_hash (se_authority e) = cr_sha256 C (se_packet e))
     \<and> (se_packet e = [] \<longrightarrow> se_volatile e)
     \<and> (se_volatile e \<longrightarrow> se_purpose e \<noteq> PControl)"

text \<open>A cached credit is the sealing of some earlier coverage that already had this counter.\<close>

definition received_ok :: "crypto_ops \<Rightarrow> 16 arr \<Rightarrow> coverage \<Rightarrow> u64 \<Rightarrow> received_entry \<Rightarrow> bool" where
  "received_ok C session received k e \<longleftrightarrow>
     authority_ok C session (re_authority e)
     \<and> (\<forall>b. re_cached e = Some b \<longrightarrow>
          (\<exists>cov count. cov_valid cov \<and> cov_set cov \<subseteq> cov_set received \<and> unat k \<in> cov_set cov
             \<and> cov_count cov = Inr count \<and> credit_seal C session (re_authority e) count cov = Inr b))"

definition tx_ok :: "crypto_ops \<Rightarrow> window \<Rightarrow> bool" where
  "tx_ok C w \<longleftrightarrow>
     map (unat \<circ> fst) (w_tx w) = [unat (cov_floor (w_credited w)) + 1..<unat (w_sent w) + 1]
     \<and> distinct (map (au_reference \<circ> se_authority \<circ> snd) (w_tx w))
     \<and> (\<forall>(k, e) \<in> set (w_tx w). sent_ok C (w_session w) e)"

definition rx_ok :: "crypto_ops \<Rightarrow> window \<Rightarrow> bool" where
  "rx_ok C w \<longleftrightarrow>
     bt_ok (w_rx w)
     \<and> unat ` fst ` set (w_rx w) = {n \<in> cov_set (w_received w). cov_hi (w_received w) \<le> n + 62}
     \<and> (\<forall>(k, e) \<in> set (w_rx w). received_ok C (w_session w) (w_received w) k e)"

definition window_inv :: "crypto_ops \<Rightarrow> window \<Rightarrow> bool" where
  "window_inv C w \<longleftrightarrow>
     w_generation w \<noteq> 0 \<and> w_session w \<noteq> arr_fill 0
     \<and> cov_valid (w_credited w) \<and> cov_valid (w_received w)
     \<and> cov_hi (w_credited w) \<le> unat (w_sent w)
     \<and> unat (w_sent w) \<le> unat (cov_floor (w_credited w)) + 63
     \<and> tx_ok C w \<and> rx_ok C w"

lemma authority_new_ok [simp]: "authority_ok C s (authority_new C s h k)"
  by (simp add: authority_ok_def authority_new_def)

lemma authority_new_fields [simp]:
  "au_packet_hash (authority_new C s h k) = h" "au_secret (authority_new C s h k) = k"
  by (simp_all add: authority_new_def)

lemma cov_default_facts [simp]:
  "cov_valid cov_default" "cov_set cov_default = {}" "cov_hi cov_default = 0" "cov_floor cov_default = 0"
  by (simp_all add: cov_valid_iff cov_default_def cov_set_def cov_hi_def)

lemma window_new_inv: "window_new_generation s g = Inr w \<Longrightarrow> window_inv C w"
  by (auto simp: window_new_generation_def window_inv_def tx_ok_def rx_ok_def)

subsection \<open>Sending\<close>

lemma tx_keys:
  assumes "tx_ok C w"
  shows "unat ` fst ` set (w_tx w) = {unat (cov_floor (w_credited w)) + 1..unat (w_sent w)}"
proof -
  have "set (map (unat \<circ> fst) (w_tx w)) = {unat (cov_floor (w_credited w)) + 1..<unat (w_sent w) + 1}"
    using assms by (simp only: tx_ok_def set_upt)
  then show ?thesis by (simp add: image_comp atLeastLessThanSuc_atLeastAtMost)
qed

lemma window_floor_le_sent: "window_inv C w \<Longrightarrow> unat (cov_floor (w_credited w)) \<le> unat (w_sent w)"
  by (simp add: window_inv_def cov_hi_def)

lemma next_counter_eq:
  assumes "window_inv C w"
  shows "next_counter w p = Inr n \<longleftrightarrow>
    unat n = unat (w_sent w) + 1 \<and> unat n \<le> unat (cov_floor (w_credited w)) + unat (purpose_limit p)"
proof (cases "unat (w_sent w) + 1 < 2 ^ 64")
  case True
  let ?n = "w_sent w + 1"
  have n: "unat ?n = unat (w_sent w) + 1" using unat_plus_u64 [of "w_sent w" 1] True by simp
  have le: "cov_floor (w_credited w) \<le> ?n"
    using window_floor_le_sent [OF assms] n by (simp add: word_le_nat_alt)
  have "next_counter w p = Inr n \<longleftrightarrow> n = ?n \<and> \<not> purpose_limit p < ?n - cov_floor (w_credited w)"
    using True by (auto simp: next_counter_def checked_add_eq)
  also have "purpose_limit p < ?n - cov_floor (w_credited w)
      \<longleftrightarrow> unat (purpose_limit p) < unat ?n - unat (cov_floor (w_credited w))"
    using unat_minus_u64 [OF le] by (simp add: word_less_nat_alt)
  finally show ?thesis using n le by (auto simp: word_unat_eq_iff word_le_nat_alt)
next
  case False
  then have "next_counter w p = Inl FCounter" by (simp add: next_counter_def checked_add_eq)
  then show ?thesis using False unat_less_2_64 [of n] by auto
qed

definition sent_entry_new :: "crypto_ops \<Rightarrow> window \<Rightarrow> bytes \<Rightarrow> flow_record \<Rightarrow> u64 \<Rightarrow> sent_entry" where
  "sent_entry_new C w packet r sent_unix =
     \<lparr>se_authority = authority_new C (w_session w) (cr_sha256 C packet) (fr_secret r), se_packet = packet,
      se_purpose = fr_purpose r, se_sent_unix = sent_unix, se_volatile = False\<rparr>"

lemma record_sent_cases:
  assumes "window_inv C w" and "record_sent C k packet r u w = Inr w'"
  shows "w' = w\<lparr>w_tx := w_tx w @ [(k, sent_entry_new C w packet r u)], w_sent := k\<rparr>"
    and "unat k = unat (w_sent w) + 1" and "unat k \<le> unat (cov_floor (w_credited w)) + unat (purpose_limit (fr_purpose r))"
    and "sent_ok C (w_session w) (sent_entry_new C w packet r u)"
    and "au_reference (se_authority (sent_entry_new C w packet r u))
      \<notin> (au_reference \<circ> se_authority \<circ> snd) ` set (w_tx w)"
proof -
  from assms(2) have nc: "next_counter w (fr_purpose r) = Inr k" and p: "packet \<noteq> []" "length packet \<le> MAX_MESSAGE"
    and u: "u \<noteq> 0" and w': "w' = w\<lparr>w_tx := bt_insert k (sent_entry_new C w packet r u) (w_tx w), w_sent := k\<rparr>"
    and ref: "\<forall>(_, e) \<in> set (w_tx w). au_reference (se_authority e)
       \<noteq> au_reference (se_authority (sent_entry_new C w packet r u))"
    by (auto simp: record_sent_def Let_def sent_entry_new_def)
  show k: "unat k = unat (w_sent w) + 1" "unat k \<le> unat (cov_floor (w_credited w)) + unat (purpose_limit (fr_purpose r))"
    using nc next_counter_eq [OF assms(1)] by blast+
  have "unat (fst q) < unat k" if "q \<in> set (w_tx w)" for q
  proof -
    have "unat (fst q) \<in> unat ` fst ` set (w_tx w)" using that by blast
    also have "\<dots> = {unat (cov_floor (w_credited w)) + 1..unat (w_sent w)}"
      using assms(1) by (intro tx_keys [of C]) (simp add: window_inv_def)
    finally show ?thesis using k(1) by simp
  qed
  then have "bt_insert k (sent_entry_new C w packet r u) (w_tx w) = w_tx w @ [(k, sent_entry_new C w packet r u)]"
    by (intro bt_insert_last) (simp add: word_less_nat_alt)
  with w' show "w' = w\<lparr>w_tx := w_tx w @ [(k, sent_entry_new C w packet r u)], w_sent := k\<rparr>" by simp
  show "sent_ok C (w_session w) (sent_entry_new C w packet r u)"
    using p u by (simp add: sent_ok_def sent_entry_new_def)
  show "au_reference (se_authority (sent_entry_new C w packet r u)) \<notin> (au_reference \<circ> se_authority \<circ> snd) ` set (w_tx w)"
    using ref by fastforce
qed

lemma record_sent_inv:
  assumes "window_inv C w" and "record_sent C k packet r u w = Inr w'"
  shows "window_inv C w'"
proof -
  note s = record_sent_cases [OF assms]
  have lim: "unat (purpose_limit (fr_purpose r)) \<le> 63"
    using purpose_limit_le [of "fr_purpose r"] by (simp add: word_le_nat_alt)
  have "[unat (cov_floor (w_credited w)) + 1..<unat (w_sent w) + 1] @ [unat (w_sent w) + 1]
      = [unat (cov_floor (w_credited w)) + 1..<unat (w_sent w) + 1 + 1]"
    using window_floor_le_sent [OF assms(1)] by simp
  then have "tx_ok C w'" using assms(1) s by (auto simp: window_inv_def tx_ok_def)
  moreover have "rx_ok C w'" using assms(1) s by (simp add: window_inv_def rx_ok_def)
  ultimately show ?thesis using assms(1) s lim by (auto simp: window_inv_def)
qed

subsection \<open>Credits\<close>

lemma length_CREDIT_MAGIC [simp]: "length CREDIT_MAGIC = 4"
  by (simp add: CREDIT_MAGIC_def)

lemma length_credit_nonce [simp]: "length (credit_nonce n) = 12"
  by (simp add: credit_nonce_def)

lemma length_credit_header [simp]: "length (credit_header s au) = 36"
  by (simp add: credit_header_def)

lemma credit_seal_total:
  assumes "crypto_ok C"
  shows "\<exists>b. credit_seal C s au n cov = Inr b"
  using aead_ok_sealE [OF assms, of "be64 (cov_floor cov) @ be64 (cov_mask cov)" "authority_key C au s"
      "credit_nonce n" "credit_header s au"]
  by (auto simp: credit_seal_def Let_def)

lemma credit_seal_bytes:
  assumes "crypto_ok C" and "credit_seal C s au n cov = Inr b"
  obtains c where "cr_seal256 C (authority_key C au s) (credit_nonce n) (credit_header s au)
      (be64 (cov_floor cov) @ be64 (cov_mask cov)) = Some c" "length c = 32"
    "list_of b = credit_header s au @ credit_nonce n @ c"
    "cr_open256 C (authority_key C au s) (credit_nonce n) (credit_header s au) c
       = Some (be64 (cov_floor cov) @ be64 (cov_mask cov))"
proof -
  obtain c where c: "cr_seal256 C (authority_key C au s) (credit_nonce n) (credit_header s au)
      (be64 (cov_floor cov) @ be64 (cov_mask cov)) = Some c" "length c = 32"
    "cr_open256 C (authority_key C au s) (credit_nonce n) (credit_header s au) c
       = Some (be64 (cov_floor cov) @ be64 (cov_mask cov))"
    using aead_ok_sealE [OF assms(1), of "be64 (cov_floor cov) @ be64 (cov_mask cov)" "authority_key C au s"
      "credit_nonce n" "credit_header s au"] by auto
  moreover have "list_of b = credit_header s au @ credit_nonce n @ c"
    using assms(2) c by (auto simp: credit_seal_def Let_def)
  ultimately show ?thesis using that by blast
qed

text \<open>The fixed fields of a credit, read back by their offsets.\<close>

lemma credit_fields:
  assumes "bytes = credit_header s au @ credit_nonce n @ c"
  shows "sub_list bytes 0 4 = CREDIT_MAGIC" "sub_list bytes 4 20 = list_of s"
    "sub_list bytes 20 36 = list_of (au_reference au)" "sub_list bytes 36 40 = [0, 0, 0, 0]"
    "sub_list bytes 40 48 = be64 n" "sub_list bytes 36 48 = credit_nonce n"
    "sub_list bytes 0 36 = credit_header s au" "drop 48 bytes = c"
proof -
  note defs = assms sub_list_def credit_header_def credit_nonce_def
  show "sub_list bytes 0 4 = CREDIT_MAGIC" "sub_list bytes 4 20 = list_of s"
    "sub_list bytes 20 36 = list_of (au_reference au)" "sub_list bytes 36 40 = [0, 0, 0, 0]"
    "sub_list bytes 40 48 = be64 n" by (simp_all add: defs)
  show "sub_list bytes 36 48 = credit_nonce n" "sub_list bytes 0 36 = credit_header s au"
    by (simp_all add: assms sub_list_def)
  show "drop 48 bytes = c" by (simp add: assms)
qed

lemma decode_credit_seal:
  assumes "crypto_ok C" and "cov_valid cov" and "cov_count cov = Inr n" and "credit_seal C s au n cov = Inr b"
  shows "decode_credit C s au (list_of b) = Inr cov"
proof -
  obtain c where c: "length c = 32" "list_of b = credit_header s au @ credit_nonce n @ c"
    "cr_open256 C (authority_key C au s) (credit_nonce n) (credit_header s au) c
       = Some (be64 (cov_floor cov) @ be64 (cov_mask cov))"
    using credit_seal_bytes [OF assms(1,4)] by metis
  show ?thesis using assms(2,3) c(1,3)
    by (simp add: decode_credit_def credit_fields [OF c(2)] record_consts Let_def)
qed

lemma decode_credit_valid:
  assumes "decode_credit C s au bytes = Inr cov"
  shows "cov_valid cov"
  using assms by (auto simp: decode_credit_def Let_def)

text \<open>An accepted credit is the sealing of the coverage it decodes to.\<close>

lemma decode_credit_sealed:
  assumes "crypto_ok C" and "decode_credit C s au bytes = Inr cov"
  shows "\<exists>n. cov_count cov = Inr n \<and> credit_seal C s au n cov = Inr (arr_pad bytes)"
proof -
  from assms(2) obtain m n where
    f: "length bytes = 80" "sub_list bytes 0 4 = CREDIT_MAGIC" "sub_list bytes 4 20 = list_of s"
      "sub_list bytes 20 36 = list_of (au_reference au)" "sub_list bytes 36 40 = [0, 0, 0, 0]"
    and o: "cr_open256 C (authority_key C au s) (sub_list bytes 36 48) (sub_list bytes 0 36) (drop 48 bytes) = Some m"
    and m: "length m - 8 = 8" "cov = \<lparr>cov_floor = de64 (take 8 m), cov_mask = de64 (drop 8 m)\<rparr>"
    and n: "cov_count cov = Inr n" "be64 n = sub_list bytes 40 48"
    by (auto simp: decode_credit_def Let_def record_consts)
  have nonce: "sub_list bytes 36 48 = credit_nonce n"
    using sub_list_join [of 36 40 48 bytes] f(5) n(2) by (simp add: credit_nonce_def)
  have hdr: "sub_list bytes 0 36 = credit_header s au"
    using sub_list_join [of 0 4 20 bytes] sub_list_join [of 0 20 36 bytes] f(2-4)
    by (simp add: credit_header_def) (metis append.assoc)
  have "length m = 16" using m(1) by simp
  then have pt: "be64 (cov_floor cov) @ be64 (cov_mask cov) = m" by (simp add: m(2) be_de)
  have "cr_seal256 C (authority_key C au s) (credit_nonce n) (credit_header s au) m = Some (drop 48 bytes)"
    using aead_ok_openD [OF assms(1) o] nonce hdr by simp
  moreover have "credit_header s au @ credit_nonce n @ drop 48 bytes = bytes"
  proof -
    have "credit_header s au @ credit_nonce n = take 48 bytes"
      using sub_list_join [of 0 36 48 bytes] nonce hdr by (simp add: sub_list_take)
    then show ?thesis by (metis append.assoc append_take_drop_id)
  qed
  ultimately have "credit_seal C s au n cov = Inr (arr_pad bytes)" by (simp add: credit_seal_def Let_def pt)
  with n(1) show ?thesis by blast
qed

lemma accept_credit_cases:
  assumes "window_inv C w" and "accept_credit C bytes w = Inr (changed, w')"
  obtains k e cov where "(k, e) \<in> set (w_tx w)" "decode_credit C (w_session w) (se_authority e) bytes = Inr cov"
    "cov_valid cov" "cov_hi cov \<le> unat (w_sent w)"
    "(cov_floor cov < cov_floor (w_credited w) \<and> \<not> changed \<and> w' = w)
     \<or> (cov_floor (w_credited w) \<le> cov_floor cov \<and>
        (\<exists>c. cov_valid c \<and> cov_set c = cov_set (w_credited w) \<union> cov_set cov \<and> cov_floor (w_credited w) \<le> cov_floor c
           \<and> changed = (c \<noteq> w_credited w)
           \<and> w' = w\<lparr>w_credited := c, w_tx := filter (\<lambda>(k, _). cov_floor c < k) (w_tx w)\<rparr>))"
proof -
  from assms(2) obtain k e cov h where
    f: "find (\<lambda>(_, e). list_of (au_reference (se_authority e)) = sub_list bytes 20 36) (w_tx w) = Some (k, e)"
    and d: "decode_credit C (w_session w) (se_authority e) bytes = Inr cov"
    and h: "cov_highest cov = Inr h" "\<not> w_sent w < h"
    and r: "(if cov_floor cov < cov_floor (w_credited w) then Inr (False, w)
       else rbind (cov_merge (w_credited w) cov) (\<lambda>credited. Inr (credited \<noteq> w_credited w,
            w\<lparr>w_credited := credited, w_tx := filter (\<lambda>(k, _). cov_floor credited < k) (w_tx w)\<rparr>))) = Inr (changed, w')"
    unfolding accept_credit_def rbind_eq_Inr reject_eq_Inr ok_or_eq_Inr by (auto split: prod.splits)
  have mem: "(k, e) \<in> set (w_tx w)" using f by (metis find_Some_iff nth_mem)
  have v: "cov_valid cov" by (rule decode_credit_valid [OF d])
  have hi: "cov_hi cov \<le> unat (w_sent w)"
    using cov_highest_eq [of cov] v h by (auto simp: cov_valid_iff word_less_nat_alt)
  show ?thesis
  proof (cases "cov_floor cov < cov_floor (w_credited w)")
    case True
    with r that [OF mem d v hi] show ?thesis by auto
  next
    case False
    then have ge: "cov_floor (w_credited w) \<le> cov_floor cov" by simp
    have "unat (cov_floor cov) \<le> unat (cov_floor (w_credited w)) + 63"
      using hi assms(1) by (simp add: window_inv_def cov_hi_def)
    then obtain c where c: "cov_merge (w_credited w) cov = Inr c" "cov_valid c"
        "cov_set c = cov_set (w_credited w) \<union> cov_set cov" "cov_floor cov \<le> cov_floor c"
      using cov_merge_ok [OF _ v ge] assms(1) by (auto simp: window_inv_def)
    have "cov_floor (w_credited w) \<le> cov_floor c" using ge c(4) by simp
    moreover have "changed = (c \<noteq> w_credited w)"
        "w' = w\<lparr>w_credited := c, w_tx := filter (\<lambda>(k, _). cov_floor c < k) (w_tx w)\<rparr>"
      using r c(1) False by auto
    ultimately show ?thesis using that [OF mem d v hi] c ge by blast
  qed
qed

lemma filter_upt_above: "a \<le> f \<Longrightarrow> f < b \<Longrightarrow> filter (\<lambda>n. f < n) [a + 1..<b] = [f + 1..<b]"
proof -
  assume "a \<le> f" "f < b"
  then have "[a + 1..<b] = [a + 1..<f + 1] @ [f + 1..<b]"
    using upt_add_eq_append [of "a + 1" "f + 1" "b - (f + 1)"] by simp
  then show ?thesis by (auto simp: filter_id_conv filter_empty_conv)
qed

lemma tx_retain:
  assumes "window_inv C w" and "cov_floor (w_credited w) \<le> cov_floor c" and "unat (cov_floor c) \<le> unat (w_sent w)"
  shows "tx_ok C (w\<lparr>w_credited := c, w_tx := filter (\<lambda>(k, _). cov_floor c < k) (w_tx w)\<rparr>)"
proof -
  have tx: "tx_ok C w" using assms(1) by (simp add: window_inv_def)
  have "map (unat \<circ> fst) (filter (\<lambda>(k, _). cov_floor c < k) (w_tx w))
      = filter (\<lambda>n. unat (cov_floor c) < n) (map (unat \<circ> fst) (w_tx w))"
    by (simp add: filter_map comp_def case_prod_unfold word_less_nat_alt)
  also have "\<dots> = [unat (cov_floor c) + 1..<unat (w_sent w) + 1]"
    using tx assms(2,3) filter_upt_above [of "unat (cov_floor (w_credited w))" "unat (cov_floor c)" "unat (w_sent w) + 1"]
    by (simp add: tx_ok_def word_le_nat_alt)
  finally show ?thesis using tx by (auto simp: tx_ok_def distinct_map_filter)
qed

lemma accept_credit_inv:
  assumes "window_inv C w" and "accept_credit C bytes w = Inr (changed, w')"
  shows "window_inv C w'"
proof (rule accept_credit_cases [OF assms], elim disjE conjE exE)
  fix k e cov c
  assume hi: "cov_hi cov \<le> unat (w_sent w)" and c: "cov_valid c" "cov_set c = cov_set (w_credited w) \<union> cov_set cov"
    "cov_floor (w_credited w) \<le> cov_floor c"
    and w': "w' = w\<lparr>w_credited := c, w_tx := filter (\<lambda>(k, _). cov_floor c < k) (w_tx w)\<rparr>"
  have "cov_hi c \<le> unat (w_sent w)"
  proof (rule cov_hi_leI)
    fix n assume "n \<in> cov_set c"
    then show "n \<le> unat (w_sent w)"
      using c(2) hi assms(1) cov_set_le_hi [of n cov] cov_set_le_hi [of n "w_credited w"] by (auto simp: window_inv_def)
  qed
  moreover from this have "unat (cov_floor c) \<le> unat (w_sent w)" by (simp add: cov_hi_def)
  with tx_retain [OF assms(1) c(3)] have "tx_ok C w'" by (simp add: w')
  moreover have "rx_ok C w'" using assms(1) by (simp add: w' window_inv_def rx_ok_def)
  ultimately show ?thesis using assms(1) c by (simp add: window_inv_def w' word_le_nat_alt)
qed (use assms(1) in simp)

subsection \<open>Receiving\<close>

lemma received_ok_mono:
  "received_ok C s c k e \<Longrightarrow> cov_set c \<subseteq> cov_set c' \<Longrightarrow> received_ok C s c' k e"
  unfolding received_ok_def by (meson subset_trans)

lemma record_authenticated_cases:
  assumes "window_inv C w" and "record_authenticated C k packet r w = Inr w'"
  obtains cov where "cov_accept k (w_received w) = Inr cov" "cov_valid cov"
    "unat k \<notin> cov_set (w_received w)" "cov_set cov = insert (unat k) (cov_set (w_received w))"
    "w' = w\<lparr>w_received := cov,
       w_rx := filter (\<lambda>(j, _). cov_hi cov \<le> unat j + 62)
         (bt_insert k \<lparr>re_authority = authority_new C (w_session w) (cr_sha256 C packet) (fr_secret r),
                       re_cached = None\<rparr> (w_rx w))\<rparr>"
proof -
  from assms(2) obtain cov h where a: "cov_accept k (w_received w) = Inr cov" and h: "cov_highest cov = Inr h"
    and w': "w' = w\<lparr>w_received := cov, w_rx := filter (\<lambda>(j, _). saturating_sub h (COUNTER_WINDOW - 1) \<le> j)
      (bt_insert k \<lparr>re_authority = authority_new C (w_session w) (cr_sha256 C packet) (fr_secret r),
                    re_cached = None\<rparr> (w_rx w))\<rparr>"
    by (auto simp: record_authenticated_def Let_def)
  have v: "cov_valid (w_received w)" using assms(1) by (simp add: window_inv_def)
  have n: "unat k \<notin> cov_set (w_received w)" "unat (cov_floor (w_received w)) < unat k"
      "unat k \<le> unat (cov_floor (w_received w)) + 63"
    using cov_accept_iff [OF v, of k] a by auto
  from cov_accept_ok [OF v n] a have c: "cov_valid cov" "cov_set cov = insert (unat k) (cov_set (w_received w))"
    by auto
  have "unat h = cov_hi cov" using cov_highest_eq [of cov] c(1) h by (auto simp: cov_valid_iff)
  then have "saturating_sub h (COUNTER_WINDOW - 1) \<le> j \<longleftrightarrow> cov_hi cov \<le> unat j + 62" for j
    by (simp add: word_le_nat_alt unat_saturating_sub) linarith
  with w' that [OF a c(1) n(1) c(2)] show ?thesis by simp
qed

lemma record_authenticated_inv:
  assumes "window_inv C w" and "record_authenticated C k packet r w = Inr w'"
  shows "window_inv C w'"
proof (rule record_authenticated_cases [OF assms])
  fix cov
  let ?e = "\<lparr>re_authority = authority_new C (w_session w) (cr_sha256 C packet) (fr_secret r), re_cached = None\<rparr>"
  assume c: "cov_valid cov" "cov_set cov = insert (unat k) (cov_set (w_received w))" "unat k \<notin> cov_set (w_received w)"
    and w': "w' = w\<lparr>w_received := cov, w_rx := filter (\<lambda>(j, _). cov_hi cov \<le> unat j + 62) (bt_insert k ?e (w_rx w))\<rparr>"
  have rx: "bt_ok (w_rx w)" "unat ` fst ` set (w_rx w) = {n \<in> cov_set (w_received w). cov_hi (w_received w) \<le> n + 62}"
    "\<forall>(k, e) \<in> set (w_rx w). received_ok C (w_session w) (w_received w) k e"
    using assms(1) by (simp_all add: window_inv_def rx_ok_def)
  have le: "cov_hi (w_received w) \<le> cov_hi cov"
    by (rule cov_hi_leI) (use c(2) cov_set_le_hi [of _ cov] in auto)
  have "unat ` fst ` set (w_rx w') = {n \<in> unat ` fst ` set (bt_insert k ?e (w_rx w)). cov_hi cov \<le> n + 62}"
    by (force simp: w')
  also have "\<dots> = {n \<in> cov_set cov. cov_hi cov \<le> n + 62}"
    unfolding keys_bt_insert image_insert rx(2) c(2) using le by auto
  finally have keys: "unat ` fst ` set (w_rx w') = {n \<in> cov_set cov. cov_hi cov \<le> n + 62}" .
  have "received_ok C (w_session w) cov j e" if "(j, e) \<in> set (w_rx w')" for j e
  proof -
    have "(j, e) = (k, ?e) \<or> (j, e) \<in> set (w_rx w)" using that set_bt_insert [OF rx(1)] by (auto simp: w')
    then show ?thesis
    proof
      assume "(j, e) = (k, ?e)"
      then show ?thesis by (simp add: received_ok_def)
    next
      assume "(j, e) \<in> set (w_rx w)"
      then have "received_ok C (w_session w) (w_received w) j e" using rx(3) by blast
      then show ?thesis by (rule received_ok_mono) (use c(2) in auto)
    qed
  qed
  moreover have "bt_ok (w_rx w')" using rx(1) by (simp add: w' bt_ok_filter bt_ok_insert)
  ultimately have "rx_ok C w'" using keys unfolding rx_ok_def by (simp add: w')
  moreover have "tx_ok C w'" using assms(1) by (simp add: w' window_inv_def tx_ok_def)
  ultimately show ?thesis using assms(1) c(1) by (simp add: window_inv_def w')
qed

lemma rx_last:
  assumes "window_inv C w" and "w_rx w \<noteq> []"
  obtains k e where "last (w_rx w) = (k, e)" "(k, e) \<in> set (w_rx w)" "unat k = cov_hi (w_received w)"
    "received_ok C (w_session w) (w_received w) k e"
proof -
  have rx: "bt_ok (w_rx w)" "unat ` fst ` set (w_rx w) = {n \<in> cov_set (w_received w). cov_hi (w_received w) \<le> n + 62}"
    "\<forall>(k, e) \<in> set (w_rx w). received_ok C (w_session w) (w_received w) k e"
    using assms(1) by (simp_all add: window_inv_def rx_ok_def)
  obtain k e where l: "last (w_rx w) = (k, e)" by (cases "last (w_rx w)")
  with assms(2) have mem: "(k, e) \<in> set (w_rx w)" by (metis last_in_set)
  then have "unat k \<in> {n \<in> cov_set (w_received w). cov_hi (w_received w) \<le> n + 62}" using rx(2) by force
  then have k: "unat k \<le> cov_hi (w_received w)" "0 < cov_hi (w_received w)"
    using cov_set_le_hi [of "unat k" "w_received w"] by auto
  from cov_hi_in [OF k(2)] have "cov_hi (w_received w) \<in> unat ` fst ` set (w_rx w)" using rx(2) by simp
  then obtain q where "q \<in> set (w_rx w)" "unat (fst q) = cov_hi (w_received w)" by auto
  with bt_ok_last [OF rx(1), of q] l have "cov_hi (w_received w) \<le> unat k" by (simp add: word_le_nat_alt)
  with that [OF l mem] k rx(3) mem show ?thesis by force
qed

lemma sub_list_credit_nonce:
  assumes "crypto_ok C" and "credit_seal C s au n cov = Inr b"
  shows "sub_list (list_of b) 36 48 = credit_nonce n"
proof -
  obtain c where "list_of b = credit_header s au @ credit_nonce n @ c" using credit_seal_bytes [OF assms] by metis
  then show ?thesis by (rule credit_fields(6))
qed

lemma credit_nonce_inject [simp]: "credit_nonce a = credit_nonce b \<longleftrightarrow> a = b"
  by (simp add: credit_nonce_def)

text \<open>
  A cached credit with the nonce of the current coverage is the sealing of the current coverage:
  the nonce is the number of covered counters, and coverage only grows.
\<close>

lemma cached_is_current:
  assumes "crypto_ok C" and "cov_valid received" and "received_ok C s received k e" and "re_cached e = Some b"
    and "cov_count received = Inr n" and "sub_list (list_of b) 36 48 = credit_nonce n"
  shows "credit_seal C s (re_authority e) n received = Inr b"
proof -
  obtain cov m where cov: "cov_valid cov" "cov_set cov \<subseteq> cov_set received" "cov_count cov = Inr m"
      "credit_seal C s (re_authority e) m cov = Inr b"
    using assms(3,4) unfolding received_ok_def by blast
  have "m = n" using sub_list_credit_nonce [OF assms(1) cov(4)] assms(6) by simp
  then have "card (cov_set cov) = card (cov_set received)"
    using cov_count_eq [of cov] cov_count_eq [of received] cov(1,3) assms(2,5) by (auto simp: cov_valid_iff)
  with cov(2) have "cov_set cov = cov_set received" by (simp add: card_subset_eq)
  with cov_valid_inject [OF cov(1) assms(2)] \<open>m = n\<close> cov(4) show ?thesis by simp
qed

text \<open>The credit handed out is always the sealing of the current coverage, cached or not.\<close>

lemma credit_for_duplicate_cases:
  assumes "crypto_ok C" and "window_inv C w" and "credit_for_duplicate C k packet w = Inr (b, w')"
  obtains j e n where "last (w_rx w) = (j, e)" "(j, e) \<in> set (w_rx w)" "unat j = cov_hi (w_received w)"
    "received_ok C (w_session w) (w_received w) j e"
    "cov_count (w_received w) = Inr n" "credit_seal C (w_session w) (re_authority e) n (w_received w) = Inr b"
    "w' = w \<or> w' = w\<lparr>w_rx := bt_insert j (e\<lparr>re_cached := Some b\<rparr>) (w_rx w)\<rparr>"
    "unat k \<in> cov_set (w_received w)"
proof -
  have v: "cov_valid (w_received w)" using assms(2) by (simp add: window_inv_def)
  from assms(3) have ne: "w_rx w \<noteq> []" by (auto simp: credit_for_duplicate_def)
  obtain j e where l: "last (w_rx w) = (j, e)" "(j, e) \<in> set (w_rx w)" "unat j = cov_hi (w_received w)"
      "received_ok C (w_session w) (w_received w) j e"
    using rx_last [OF assms(2) ne] by metis
  from assms(3) have "map_of (w_rx w) k \<noteq> None" by (auto simp: credit_for_duplicate_def)
  then have "unat k \<in> unat ` fst ` set (w_rx w)" by (auto simp: map_of_eq_None_iff)
  then have k: "unat k \<in> cov_set (w_received w)" using assms(2) by (auto simp: window_inv_def rx_ok_def)
  let ?fresh = "\<lambda>n. rbind (credit_seal C (w_session w) (re_authority e) n (w_received w)) (\<lambda>bytes.
      Inr (bytes, w\<lparr>w_rx := bt_insert j (e\<lparr>re_cached := Some bytes\<rparr>) (w_rx w)\<rparr>))"
  from assms(3) l(1) obtain n where n: "cov_count (w_received w) = Inr n"
    and r: "(case re_cached e of
       Some cached \<Rightarrow> if sub_list (list_of cached) 36 48 = credit_nonce n then Inr (cached, w) else ?fresh n
     | None \<Rightarrow> ?fresh n) = Inr (b, w')"
    by (auto simp: credit_for_duplicate_def Let_def)
  have "(re_cached e = Some b \<and> sub_list (list_of b) 36 48 = credit_nonce n \<and> w' = w) \<or> ?fresh n = Inr (b, w')"
    using r by (auto split: option.splits if_splits)
  then have "credit_seal C (w_session w) (re_authority e) n (w_received w) = Inr b
      \<and> (w' = w \<or> w' = w\<lparr>w_rx := bt_insert j (e\<lparr>re_cached := Some b\<rparr>) (w_rx w)\<rparr>)"
    using cached_is_current [OF assms(1) v l(4) _ n] by auto
  with that [OF l n _ _ k] show ?thesis by blast
qed

lemma bt_insert_same_keys:
  "bt_ok m \<Longrightarrow> (j, e) \<in> set m \<Longrightarrow> fst ` set (bt_insert j e' m) = fst ` set m"
  by (force simp: keys_bt_insert)

lemma credit_for_duplicate_inv:
  assumes "crypto_ok C" and "window_inv C w" and "credit_for_duplicate C k packet w = Inr (b, w')"
  shows "window_inv C w'"
proof (rule credit_for_duplicate_cases [OF assms], elim disjE)
  fix j e n
  assume l: "(j, e) \<in> set (w_rx w)" "unat j = cov_hi (w_received w)" "received_ok C (w_session w) (w_received w) j e"
    and n: "cov_count (w_received w) = Inr n" "credit_seal C (w_session w) (re_authority e) n (w_received w) = Inr b"
    and w': "w' = w\<lparr>w_rx := bt_insert j (e\<lparr>re_cached := Some b\<rparr>) (w_rx w)\<rparr>"
  have v: "cov_valid (w_received w)" and rx: "rx_ok C w" using assms(2) by (simp_all add: window_inv_def)
  have bt: "bt_ok (w_rx w)" using rx by (simp add: rx_ok_def)
  have "0 < cov_hi (w_received w)"
    using l(1,2) rx cov_set_le_hi [of "unat j" "w_received w"] by (force simp: rx_ok_def)
  then have "unat j \<in> cov_set (w_received w)" using cov_hi_in l(2) by simp
  then have "received_ok C (w_session w) (w_received w) j (e\<lparr>re_cached := Some b\<rparr>)"
    using l(3) v n unfolding received_ok_def by auto
  then have "rx_ok C w'"
    using rx bt_insert_same_keys [OF bt l(1)]
    by (auto simp: rx_ok_def w' bt_ok_insert set_bt_insert)
  then show ?thesis using assms(2) by (simp add: window_inv_def w' tx_ok_def)
qed (use assms(2) in simp)

lemma credit_for_duplicate_returns:
  assumes "crypto_ok C" and "window_inv C w" and "(k, e) \<in> set (w_rx w)"
    and "au_packet_hash (re_authority e) = cr_sha256 C packet" and "length packet \<le> MAX_MESSAGE"
  shows "\<exists>b w'. credit_for_duplicate C k packet w = Inr (b, w')"
proof -
  have "bt_ok (w_rx w)" "cov_hi (w_received w) < 2 ^ 64"
    using assms(2) by (simp_all add: window_inv_def rx_ok_def cov_valid_iff)
  then have "map_of (w_rx w) k = Some e" using assms(3) by (simp add: bt_ok_map_of)
  moreover obtain n where "cov_count (w_received w) = Inr n"
    using cov_count_eq \<open>cov_hi (w_received w) < 2 ^ 64\<close> by blast
  moreover obtain j l where "last (w_rx w) = (j, l)" by (cases "last (w_rx w)")
  moreover obtain b where "credit_seal C (w_session w) (re_authority l) n (w_received w) = Inr b"
    using credit_seal_total [OF assms(1)] by blast
  ultimately show ?thesis
    using assms(3-5) by (auto simp: credit_for_duplicate_def Let_def split: option.split)
qed

subsection \<open>Delivering a credit\<close>

lemma find_unique:
  assumes "x \<in> set xs" and "P x" and "\<And>y. y \<in> set xs \<Longrightarrow> P y \<Longrightarrow> y = x"
  shows "find P xs = Some x"
proof (cases "find P xs")
  case None
  then show ?thesis using assms(1,2) by (auto simp: find_None_iff)
next
  case (Some y)
  then have "y \<in> set xs" "P y" by (auto simp: find_Some_iff)
  with Some assms(3) show ?thesis by blast
qed

lemma accept_credit_sealed:
  assumes "crypto_ok C" and inv: "window_inv C w" and mem: "(k, e) \<in> set (w_tx w)"
    and cov: "cov_valid cov" "cov_count cov = Inr n" and b: "credit_seal C (w_session w) (se_authority e) n cov = Inr b"
    and hi: "cov_hi cov \<le> unat (w_sent w)" and ge: "cov_floor (w_credited w) \<le> cov_floor cov"
  shows "\<exists>changed w'. accept_credit C (list_of b) w = Inr (changed, w')
     \<and> cov_set (w_credited w') = cov_set (w_credited w) \<union> cov_set cov"
proof -
  obtain c where c: "list_of b = credit_header (w_session w) (se_authority e) @ credit_nonce n @ c"
    using credit_seal_bytes [OF assms(1) b] by metis
  have dist: "distinct (map (au_reference \<circ> se_authority \<circ> snd) (w_tx w))"
    using inv by (simp add: window_inv_def tx_ok_def)
  have find: "find (\<lambda>(_, e'). list_of (au_reference (se_authority e')) = list_of (au_reference (se_authority e))) (w_tx w) = Some (k, e)"
  proof (rule find_unique [OF mem])
    fix q assume q: "q \<in> set (w_tx w)"
      "case q of (_, e') \<Rightarrow> list_of (au_reference (se_authority e')) = list_of (au_reference (se_authority e))"
    then have "(au_reference \<circ> se_authority \<circ> snd) q = (au_reference \<circ> se_authority \<circ> snd) (k, e)" by auto
    with dist q(1) mem show "q = (k, e)" by (meson distinct_map inj_onD)
  qed simp
  obtain h where h: "cov_highest cov = Inr h" "unat h = cov_hi cov"
    using cov_highest_eq [of cov] cov(1) by (auto simp: cov_valid_iff)
  have "unat (cov_floor cov) \<le> unat (cov_floor (w_credited w)) + 63"
    using hi inv by (simp add: window_inv_def cov_hi_def)
  then obtain m where m: "cov_merge (w_credited w) cov = Inr m" "cov_set m = cov_set (w_credited w) \<union> cov_set cov"
    using cov_merge_ok [OF _ cov(1) ge] inv by (auto simp: window_inv_def)
  have "\<not> w_sent w < h" using h hi by (simp add: word_less_nat_alt)
  moreover have "decode_credit C (w_session w) (se_authority e) (list_of b) = Inr cov"
    by (rule decode_credit_seal [OF assms(1) cov b])
  moreover have "\<not> cov_floor cov < cov_floor (w_credited w)" using ge by simp
  ultimately show ?thesis using find h m
    by (simp add: accept_credit_def credit_fields [OF c] record_consts)
qed

subsection \<open>The window as a machine\<close>

text \<open>A failed operation is a transaction that is not committed: the window stays as it was.\<close>

datatype window_op =
  OpSent u64 bytes flow_record u64
| OpAuthenticated u64 bytes flow_record
| OpCreditFor u64 bytes
| OpAccept bytes

fun window_op_result :: "crypto_ops \<Rightarrow> window_op \<Rightarrow> window \<Rightarrow> flow_error + window" where
  "window_op_result C (OpSent k p r u) w = record_sent C k p r u w"
| "window_op_result C (OpAuthenticated k p r) w = record_authenticated C k p r w"
| "window_op_result C (OpCreditFor k p) w = rbind (credit_for_duplicate C k p w) (\<lambda>(_, w'). Inr w')"
| "window_op_result C (OpAccept bs) w = rbind (accept_credit C bs w) (\<lambda>(_, w'). Inr w')"

definition window_step :: "crypto_ops \<Rightarrow> window_op \<Rightarrow> window \<Rightarrow> window option" where
  "window_step C x w = Some (case window_op_result C x w of Inl _ \<Rightarrow> w | Inr w' \<Rightarrow> w')"

lemma window_op_inv:
  assumes "crypto_ok C" and "window_inv C w" and "window_op_result C x w = Inr w'"
  shows "window_inv C w'"
  using assms by (cases x) (auto intro: record_sent_inv record_authenticated_inv credit_for_duplicate_inv accept_credit_inv)

interpretation wm: invariant_machine "window_step C" "\<lambda>w. crypto_ok C \<and> window_inv C w"
  for C :: crypto_ops
  by unfold_locales (auto simp: window_step_def window_op_inv split: sum.split)

section \<open>Properties\<close>

text \<open>
  C19 (invariant): a window created for a session keeps its invariant over any sequence of sends,
  authenticated receipts, emitted credits and accepted credits. The retained packets are, in order,
  those of the counters above the credited floor up to the last one sent, never more than 63; so
  every counter that was sent and not credited has its packet. The retained receipts are exactly those
  of the received counters within 62 of the highest one. Coverages stay valid.
\<close>

theorem window_runs:
  assumes "crypto_ok C" and "window_new_generation s g = Inr w0"
  shows "\<exists>w. run_ops (window_step C) xs w0 = Some w \<and> window_inv C w
     \<and> map (unat \<circ> fst) (w_tx w) = [unat (cov_floor (w_credited w)) + 1..<unat (w_sent w) + 1]
     \<and> length (w_tx w) = unat (w_sent w) - unat (cov_floor (w_credited w)) \<and> length (w_tx w) \<le> 63
     \<and> {1..unat (w_sent w)} - cov_set (w_credited w) \<subseteq> unat ` fst ` set (w_tx w)
     \<and> unat ` fst ` set (w_rx w) = {n \<in> cov_set (w_received w). cov_hi (w_received w) \<le> n + 62}
     \<and> cov_valid (w_credited w) \<and> cov_valid (w_received w)"
proof -
  obtain w where w: "run_ops (window_step C) xs w0 = Some w" "window_inv C w"
    using wm.run_returns [of C w0 xs] assms(1) window_new_inv [OF assms(2)] by auto
  then have tx: "map (unat \<circ> fst) (w_tx w) = [unat (cov_floor (w_credited w)) + 1..<unat (w_sent w) + 1]"
    by (simp only: window_inv_def tx_ok_def)
  then have "length (w_tx w) = unat (w_sent w) - unat (cov_floor (w_credited w))"
    by (metis add_diff_cancel_right length_map length_upt)
  moreover have keys: "unat ` fst ` set (w_tx w) = {unat (cov_floor (w_credited w)) + 1..unat (w_sent w)}"
    by (rule tx_keys [of C]) (use w(2) in \<open>simp add: window_inv_def\<close>)
  moreover have "{1..unat (w_sent w)} - cov_set (w_credited w) \<subseteq> unat ` fst ` set (w_tx w)"
    unfolding keys by (auto simp: cov_set_def)
  moreover have "unat ` fst ` set (w_rx w) = {n \<in> cov_set (w_received w). cov_hi (w_received w) \<le> n + 62}"
    using w(2) by (simp add: window_inv_def rx_ok_def)
  moreover have "unat (w_sent w) - unat (cov_floor (w_credited w)) \<le> 63" using w(2) by (auto simp: window_inv_def)
  ultimately show ?thesis using w tx by (simp add: window_inv_def)
qed

text \<open>A window with one outstanding packet, for evaluation.\<close>

definition demo_record :: flow_record where
  "demo_record = \<lparr>fr_purpose = PControl, fr_not_after = 0, fr_secret = arr_fill 3, fr_body = []\<rparr>"

definition demo_new :: window where
  "demo_new = \<lparr>w_generation = 1, w_session = arr_fill 1, w_sent = 0, w_credited = cov_default,
     w_received = cov_default, w_tx = [], w_rx = []\<rparr>"

definition demo_window :: window where
  "demo_window = demo_new\<lparr>w_sent := 1, w_tx := [(1, sent_entry_new toy_crypto demo_new [7] demo_record 5)]\<rparr>"

lemma demo_new_eq: "window_new_generation (arr_fill 1) 1 = Inr demo_new"
  by (simp add: window_new_generation_def demo_new_def)

lemma demo_window_eq: "record_sent toy_crypto 1 [7] demo_record 5 demo_new = Inr demo_window"
  by (simp add: record_sent_def next_counter_def checked_add_eq demo_record_def demo_new_def demo_window_def
      sent_entry_new_def MAX_MESSAGE_def Let_def)

lemma demo_window_inv: "window_inv toy_crypto demo_window"
  by (rule record_sent_inv [OF window_new_inv [OF demo_new_eq] demo_window_eq])

theorem window_runs_witness:
  "\<exists>w. run_ops (window_step toy_crypto) [OpSent 1 [7] demo_record 5, OpAuthenticated 1 [9] demo_record, OpCreditFor 1 [9]]
       demo_new = Some w \<and> window_inv toy_crypto w \<and> length (w_tx w) \<le> 63"
  using window_runs [OF toy_crypto_ok demo_new_eq] by blast

text \<open>
  Accepting a credit never removes coverage and never retires an uncredited packet:
  the credited counters become the union with the authenticated coverage (or stay when the credit
  is stale), and exactly the packets at or below the new floor are dropped.
\<close>

lemma accept_credit_monotone:
  assumes "window_inv C w" and "accept_credit C bytes w = Inr (changed, w')"
  shows "cov_set (w_credited w) \<subseteq> cov_set (w_credited w')
     \<and> cov_floor (w_credited w) \<le> cov_floor (w_credited w')
     \<and> w_tx w' = filter (\<lambda>(k, _). \<not> k \<le> cov_floor (w_credited w')) (w_tx w)
     \<and> (\<forall>(k, e) \<in> set (w_tx w) - set (w_tx w'). is_credited w' k)
     \<and> (changed \<longleftrightarrow> w_credited w' \<noteq> w_credited w)
     \<and> w_sent w' = w_sent w \<and> w_received w' = w_received w \<and> w_rx w' = w_rx w"
proof (rule accept_credit_cases [OF assms], elim disjE conjE exE)
  have tx: "cov_floor (w_credited w) < k \<and> k \<le> w_sent w \<and> k \<noteq> 0" if "(k, e) \<in> set (w_tx w)" for k e
  proof -
    have "unat k \<in> unat ` fst ` set (w_tx w)" using that by force
    also have "\<dots> = {unat (cov_floor (w_credited w)) + 1..unat (w_sent w)}"
      by (rule tx_keys [of C]) (use assms(1) in \<open>simp add: window_inv_def\<close>)
    finally show ?thesis by (auto simp: word_less_nat_alt word_le_nat_alt)
  qed
  {
    assume "\<not> changed" "w' = w"
    moreover from tx have "filter (\<lambda>(k, _). \<not> k \<le> cov_floor (w_credited w)) (w_tx w) = w_tx w"
      by (auto simp: filter_id_conv not_le)
    ultimately show ?thesis by simp
  }
  fix k e cov c
  assume "cov_set c = cov_set (w_credited w) \<union> cov_set cov" "cov_floor (w_credited w) \<le> cov_floor c"
    "changed = (c \<noteq> w_credited w)" "w' = w\<lparr>w_credited := c, w_tx := filter (\<lambda>(k, _). cov_floor c < k) (w_tx w)\<rparr>"
  then show ?thesis using tx by (auto simp: not_le is_credited_def cov_contains_def not_less dest: le_less_trans)
qed

end
