(* ===== verification/Gc2_Packets.thy ===== *)
theory Gc2_Packets
  imports Ratchet_Wire Flow_Window
begin

text \<open>
  The GC/2 session envelopes of \<open>crates/protocol/src/gc2_session.rs\<close>: a magic, a session tag and a
  ratchet first move, a ratchet frame or a credit. The decoder is strict where the ratchet's own
  decoder is lenient; the theorem shows that it accepts exactly what the encoders produce.
\<close>

section \<open>Envelopes\<close>

definition GC2_FIRST :: bytes where "GC2_FIRST = lit ''GCH2''"
definition GC2_FRAME :: bytes where "GC2_FRAME = lit ''GCM2''"
definition GC2_CREDIT :: bytes where "GC2_CREDIT = lit ''GCA2''"

datatype packet_kind = KFirstMove | KFrame | KCredit

record packet =
  pk_kind :: packet_kind
  pk_tag :: "16 arr"
  pk_bytes :: bytes

definition validate_tag :: "16 arr \<Rightarrow> flow_error + unit" where
  "validate_tag tag = (if tag = arr_fill 0 then Inl FState else Inr ())"

definition validate_frame_bytes :: "bytes \<Rightarrow> flow_error + unit" where
  "validate_frame_bytes bytes =
     reject (length bytes < 8 + 8 + 32 + 1 + 1 + 16) FLength (
     let counter = de64 (sub_list bytes 0 8); previous = de64 (sub_list bytes 8 16) in
     reject (counter = 0 \<or> counter \<le> previous) FCounter (
     rbind (if bytes ! 48 = 0 then Inr 49 else if bytes ! 48 = 1 then Inr 81 else Inl FVersion) (\<lambda>position.
     rbind (if length bytes \<le> position then Inl FVersion
            else if bytes ! position = 0 then Inr (position + 1)
            else if bytes ! position = 1 then
              reject (get_range bytes (position + 1) (position + 3) \<noteq> Some (be16 1088)) FLength
                (Inr (position + (3 + 1088)))
            else Inl FVersion) (\<lambda>position.
     reject (length bytes < position + 16) FLength (Inr ())))))"

definition validate_first :: "first_move \<Rightarrow> flow_error + unit" where
  "validate_first first =
     reject (length (fm_kem_ct first) \<noteq> KEM_CT_LEN \<or> length (fm_ct first) < 16
        \<or> MAX_MESSAGE - SESSION_HEADER - (32 + 2 + 1088 + 12) < length (fm_ct first)) FLength (Inr ())"

definition validate_frame :: "frame \<Rightarrow> flow_error + unit" where
  "validate_frame f =
     (let header = 8 + 8 + 32 + 1 + (if f_mixed_with f \<noteq> None then 32 else 0) + 1
            + (if f_pq_ct f \<noteq> None then 2 + 1088 else 0)
      in reject (f_ctr f = 0 \<or> f_ctr f \<le> f_pn f
           \<or> (case f_pq_ct f of None \<Rightarrow> False | Some ct \<Rightarrow> length ct \<noteq> KEM_CT_LEN)
           \<or> length (f_ct f) < 16 \<or> MAX_MESSAGE - SESSION_HEADER - header < length (f_ct f)) FLength (Inr ()))"

definition envelope :: "bytes \<Rightarrow> 16 arr \<Rightarrow> bytes \<Rightarrow> bytes" where
  "envelope magic tag body = magic @ list_of tag @ body"

text \<open>
  The ratchet encoders panic on a field of 64 KiB; validation has excluded that, which the lemmas
  \<open>frame_encode_valid\<close> and \<open>first_move_encode_valid\<close> show, so \<open>body\<close> below is always there.
\<close>

definition gc2_encode_first_move :: "16 arr \<Rightarrow> first_move \<Rightarrow> flow_error + bytes" where
  "gc2_encode_first_move tag first =
     rbind (validate_tag tag) (\<lambda>_.
     rbind (validate_first first) (\<lambda>_.
     rbind (map_err (\<lambda>_. FLength) (first_move_encode first)) (\<lambda>body.
     Inr (envelope GC2_FIRST tag body))))"

definition gc2_encode_frame :: "16 arr \<Rightarrow> frame \<Rightarrow> flow_error + bytes" where
  "gc2_encode_frame tag f =
     rbind (validate_tag tag) (\<lambda>_.
     rbind (validate_frame f) (\<lambda>_.
     rbind (map_err (\<lambda>_. FLength) (frame_encode f)) (\<lambda>body.
     Inr (envelope GC2_FRAME tag body))))"

definition encode_frame_bytes :: "16 arr \<Rightarrow> bytes \<Rightarrow> flow_error + bytes" where
  "encode_frame_bytes tag bytes =
     rbind (validate_tag tag) (\<lambda>_.
     reject (MAX_MESSAGE - SESSION_HEADER < length bytes) FLength (
     rbind (validate_frame_bytes bytes) (\<lambda>_.
     Inr (envelope GC2_FRAME tag bytes))))"

definition packet_decode :: "bytes \<Rightarrow> flow_error + packet" where
  "packet_decode bytes =
     reject (\<not> (SESSION_HEADER \<le> length bytes \<and> length bytes \<le> MAX_MESSAGE)) FLength (
     let value = sub_list bytes 0 4 in
     rbind (if value = GC2_FIRST then Inr KFirstMove
            else if value = GC2_FRAME then Inr KFrame
            else if value = GC2_CREDIT \<and> length bytes = CREDIT_BYTES then Inr KCredit
            else Inl FVersion) (\<lambda>kind.
     let tag = arr_pad (sub_list bytes 4 SESSION_HEADER) in
     rbind (validate_tag tag) (\<lambda>_.
     rbind (case kind of
              KFirstMove \<Rightarrow>
                (let body = drop SESSION_HEADER bytes in
                 reject (length body < 32 + 2 + 1088 + 12 + 16 \<or> get_range body 32 34 \<noteq> Some (be16 1088))
                   FLength (Inr ()))
            | KFrame \<Rightarrow> validate_frame_bytes (drop SESSION_HEADER bytes)
            | KCredit \<Rightarrow> Inr ()) (\<lambda>_.
     Inr \<lparr>pk_kind = kind, pk_tag = tag, pk_bytes = bytes\<rparr>))))"

definition packet_first_move :: "packet \<Rightarrow> flow_error + first_move" where
  "packet_first_move p =
     reject (pk_kind p \<noteq> KFirstMove) FVersion (
     rbind (ok_or FLength (first_move_decode (drop SESSION_HEADER (pk_bytes p)))) (\<lambda>first.
     rbind (validate_first first) (\<lambda>_. Inr first)))"

definition packet_frame :: "packet \<Rightarrow> flow_error + frame" where
  "packet_frame p =
     reject (pk_kind p \<noteq> KFrame) FVersion
       (ok_or FLength (frame_decode (drop SESSION_HEADER (pk_bytes p))))"

section \<open>Validated frames\<close>

lemma validate_frame_ok: "validate_frame f = Inr () \<Longrightarrow> frame_ok f"
  by (auto simp: validate_frame_def frame_ok_def pq_fits_def Let_def KEM_CT_LEN_def not_le split: option.splits)

lemma frame_encode_valid:
  assumes "validate_frame f = Inr ()"
  shows "frame_encode f = Inr (be64 (f_ctr f) @ be64 (f_pn f) @ list_of (f_sender_pub f)
          @ opt32_bytes (f_mixed_with f) @ opt_bytes (f_pq_ct f) @ f_ct f)"
  using header_bytes_eq [OF validate_frame_ok [OF assms]] by (simp add: frame_encode_def)

lemma first_move_encode_valid:
  assumes "validate_first fm = Inr ()"
  shows "first_move_ok fm" and "first_move_encode fm =
     Inr (list_of (fm_eph_pub fm) @ be16 1088 @ fm_kem_ct fm @ list_of (fm_nonce fm) @ fm_ct fm)"
    and "length (fm_kem_ct fm) = 1088"
proof -
  show l: "length (fm_kem_ct fm) = 1088" using assms by (auto simp: validate_first_def KEM_CT_LEN_def)
  then show ok: "first_move_ok fm" by (simp add: first_move_ok_def)
  show "first_move_encode fm =
     Inr (list_of (fm_eph_pub fm) @ be16 1088 @ fm_kem_ct fm @ list_of (fm_nonce fm) @ fm_ct fm)"
    using first_move_encode_eq [OF ok] l by simp
qed

text \<open>The strict byte check is the structural check on the frame it encodes.\<close>

lemma opt_lengths:
  "length (opt32_bytes m) = (if m \<noteq> None then 33 else 1)"
  "length (opt_bytes q) = (case q of None \<Rightarrow> 1 | Some c \<Rightarrow> 3 + length c)"
  by (auto simp: opt32_bytes_def opt_bytes_def split: option.splits)

lemma validate_frame_bytes_encode:
  assumes v: "validate_frame f = Inr ()"
  shows "\<exists>b. frame_encode f = Inr b \<and> validate_frame_bytes b = Inr () \<and> length b \<le> MAX_MESSAGE - SESSION_HEADER"
proof -
  let ?h = "be64 (f_ctr f) @ be64 (f_pn f) @ list_of (f_sender_pub f)"
  let ?b = "?h @ opt32_bytes (f_mixed_with f) @ opt_bytes (f_pq_ct f) @ f_ct f"
  have enc: "frame_encode f = Inr ?b" using frame_encode_valid [OF v] by simp
  from v have c: "f_ctr f \<noteq> 0" "\<not> f_ctr f \<le> f_pn f" "16 \<le> length (f_ct f)"
    and q: "\<And>ct. f_pq_ct f = Some ct \<Longrightarrow> length ct = 1088"
    and l: "length (f_ct f) + (50 + (if f_mixed_with f \<noteq> None then 32 else 0) + (if f_pq_ct f \<noteq> None then 1090 else 0)) \<le> 15340"
    by (auto simp: validate_frame_def Let_def KEM_CT_LEN_def MAX_MESSAGE_def SESSION_HEADER_def split: if_splits)
  have n48: "?b ! 48 = (if f_mixed_with f = None then 0 else 1)"
    by (cases "f_mixed_with f") (simp_all add: nth_append opt32_bytes_def)
  have "validate_frame_bytes ?b = Inr ()"
  proof (cases "f_mixed_with f")
    case None
    then show ?thesis using c q n48
      by (cases "f_pq_ct f")
         (simp_all add: validate_frame_bytes_def Let_def nth_append opt_bytes_def opt32_bytes_def get_range_def sub_list_def reject_def)
  next
    case (Some m)
    then show ?thesis using c q n48
      by (cases "f_pq_ct f")
         (simp_all add: validate_frame_bytes_def Let_def nth_append opt_bytes_def opt32_bytes_def get_range_def sub_list_def reject_def)
  qed
  moreover have "length ?b \<le> MAX_MESSAGE - SESSION_HEADER"
    using l q by (auto simp: opt_lengths MAX_MESSAGE_def SESSION_HEADER_def split: option.splits if_splits)
  ultimately show ?thesis using enc by blast
qed

lemma validate_frame_bytes_decode:
  assumes v: "validate_frame_bytes b = Inr ()" and l: "length b \<le> MAX_MESSAGE - SESSION_HEADER"
  shows "\<exists>f. frame_decode b = Some f \<and> validate_frame f = Inr () \<and> frame_encode f = Inr b"
proof -
  let ?p = "if b ! 48 = 0 then 49 else 81 :: nat"
  let ?q = "if b ! ?p = 0 then ?p + 1 else ?p + 1091"
  from v have len: "66 \<le> length b" "?p < length b" "?q + 16 \<le> length b"
    and c: "de64 (sub_list b 0 8) \<noteq> 0" "\<not> de64 (sub_list b 0 8) \<le> de64 (sub_list b 8 16)"
    and m: "b ! 48 = 0 \<or> b ! 48 = 1" and q: "b ! ?p = 0 \<or> (b ! ?p = 1 \<and> sub_list b (?p + 1) (?p + 3) = be16 1088)"
    by (auto simp: validate_frame_bytes_def Let_def get_range_def split: if_splits)
  define mx where "mx = (if b ! 48 = 0 then None else Some (arr_pad (sub_list b 49 81) :: 32 arr))"
  define pq where "pq = (if b ! ?p = 0 then None else Some (sub_list b (?p + 3) (?p + 1091)))"
  let ?f = "\<lparr>f_ctr = de64 (sub_list b 0 8), f_pn = de64 (sub_list b 8 16), f_sender_pub = arr_pad (sub_list b 16 48),
       f_mixed_with = mx, f_pq_ct = pq, f_ct = drop ?q b\<rparr>"
  have cons: "[b ! i] @ sub_list b (i + 1) n = sub_list b i n" if "i < length b" "i < n" for i n
    using that by (simp add: sub_list_def Cons_nth_drop_Suc [symmetric] Suc_diff_Suc [symmetric])
  have "opt32_bytes mx = sub_list b 48 ?p"
  proof (cases "b ! 48 = 0")
    case True
    then show ?thesis using cons [of 48 49] len(1) by (simp add: mx_def opt32_bytes_def sub_list_def)
  next
    case False
    then have "b ! 48 = 1" using m by simp
    then show ?thesis using cons [of 48 81] len by (simp add: mx_def opt32_bytes_def)
  qed
  moreover have "opt_bytes pq = sub_list b ?p ?q"
  proof (cases "b ! ?p = 0")
    case True
    then show ?thesis using len(2) cons [of ?p "?p + 1"] by (simp add: pq_def opt_bytes_def sub_list_def)
  next
    case False
    then have "opt_bytes pq = [b ! ?p] @ sub_list b (?p + 1) (?p + 3) @ sub_list b (?p + 3) (?p + 1091)"
      using q len by (simp add: pq_def opt_bytes_def)
    also have "\<dots> = [b ! ?p] @ sub_list b (?p + 1) (?p + 1091)" by (subst sub_list_join) simp_all
    also have "\<dots> = sub_list b ?p ?q" using cons [of ?p "?p + 1091"] len False by simp
    finally show ?thesis .
  qed
  moreover have "sub_list b 0 8 @ sub_list b 8 16 @ sub_list b 16 48 @ sub_list b 48 ?p @ sub_list b ?p ?q @ drop ?q b = b"
    by (simp add: sub_list_drop)
  ultimately have w: "be64 (f_ctr ?f) @ be64 (f_pn ?f) @ list_of (f_sender_pub ?f) @ opt32_bytes (f_mixed_with ?f)
      @ opt_bytes (f_pq_ct ?f) @ f_ct ?f = b"
    using len(1) by (simp add: be_de)
  have v': "validate_frame ?f = Inr ()"
    using c len l m q by (auto simp: validate_frame_def Let_def mx_def pq_def KEM_CT_LEN_def MAX_MESSAGE_def SESSION_HEADER_def reject_def)
  have "frame_encode ?f = Inr b" using frame_encode_valid [OF v'] w by simp
  with frame_decode_encode [OF validate_frame_ok [OF v']] v' show ?thesis by auto
qed

section \<open>Packets\<close>

lemma magic_lengths [simp]:
  "length GC2_FIRST = 4" "length GC2_FRAME = 4" "length GC2_CREDIT = 4"
  "GC2_FRAME \<noteq> GC2_FIRST" "GC2_FIRST \<noteq> GC2_FRAME" "GC2_CREDIT \<noteq> GC2_FIRST" "GC2_CREDIT \<noteq> GC2_FRAME"
  by (simp_all add: GC2_FIRST_def GC2_FRAME_def GC2_CREDIT_def)

lemma validate_tag_Inr: "validate_tag tag = Inr u \<longleftrightarrow> tag \<noteq> arr_fill 0"
  by (simp add: validate_tag_def)

lemma envelope_parts:
  assumes "length magic = 4"
  shows "sub_list (envelope magic tag body) 0 4 = magic" "sub_list (envelope magic tag body) 4 SESSION_HEADER = list_of tag"
    "drop SESSION_HEADER (envelope magic tag body) = body" "length (envelope magic tag body) = SESSION_HEADER + length body"
  using assms by (simp_all add: envelope_def sub_list_def SESSION_HEADER_def)

lemma envelope_split:
  assumes "SESSION_HEADER \<le> length w" and "sub_list w 0 4 = magic"
  shows "w = envelope magic (arr_pad (sub_list w 4 SESSION_HEADER)) (drop SESSION_HEADER w)"
proof -
  have "w = sub_list w 0 4 @ sub_list w 4 20 @ drop 20 w" by (simp add: sub_list_drop)
  with assms show ?thesis by (simp add: envelope_def SESSION_HEADER_def)
qed

lemma encode_frame_bytes_eq:
  assumes "validate_frame f = Inr ()" and "frame_encode f = Inr b"
  shows "encode_frame_bytes tag b = gc2_encode_frame tag f"
  using validate_frame_bytes_encode [OF assms(1)] assms by (auto simp: encode_frame_bytes_def gc2_encode_frame_def reject_def)

lemma gc2_encode_frame_iff:
  "gc2_encode_frame tag f = Inr w \<longleftrightarrow>
     tag \<noteq> arr_fill 0 \<and> validate_frame f = Inr () \<and> (\<exists>b. frame_encode f = Inr b \<and> w = envelope GC2_FRAME tag b)"
  using frame_encode_valid [of f] by (auto simp: gc2_encode_frame_def validate_tag_Inr)

lemma gc2_encode_first_move_iff:
  "gc2_encode_first_move tag fm = Inr w \<longleftrightarrow>
     tag \<noteq> arr_fill 0 \<and> validate_first fm = Inr ()
     \<and> w = envelope GC2_FIRST tag (list_of (fm_eph_pub fm) @ be16 1088 @ fm_kem_ct fm @ list_of (fm_nonce fm) @ fm_ct fm)"
  using first_move_encode_valid(2) [of fm] by (auto simp: gc2_encode_first_move_def validate_tag_Inr)

lemma packet_decode_frame:
  assumes "gc2_encode_frame tag f = Inr w"
  shows "\<exists>p. packet_decode w = Inr p \<and> pk_kind p = KFrame \<and> pk_tag p = tag \<and> pk_bytes p = w \<and> packet_frame p = Inr f"
proof -
  from assms obtain b where t: "tag \<noteq> arr_fill 0" and v: "validate_frame f = Inr ()" and b: "frame_encode f = Inr b"
    and w: "w = envelope GC2_FRAME tag b" by (auto simp: gc2_encode_frame_iff)
  have vb: "validate_frame_bytes b = Inr ()" "length b \<le> MAX_MESSAGE - SESSION_HEADER"
    using validate_frame_bytes_encode [OF v] b by auto
  have "frame_decode b = Some f" using frame_decode_encode [OF validate_frame_ok [OF v]] b by auto
  moreover have "SESSION_HEADER + length b \<le> MAX_MESSAGE" using vb(2) by (simp add: MAX_MESSAGE_def SESSION_HEADER_def)
  ultimately show ?thesis
    using vb(1) t by (simp add: w packet_decode_def packet_frame_def envelope_parts Let_def validate_tag_Inr reject_def)
qed

lemma packet_decode_frame_only:
  assumes "packet_decode w = Inr p" and "pk_kind p = KFrame"
  shows "\<exists>f. gc2_encode_frame (pk_tag p) f = Inr w"
proof -
  let ?b = "drop SESSION_HEADER w"
  from assms have l: "SESSION_HEADER \<le> length w" "length w \<le> MAX_MESSAGE" and m: "sub_list w 0 4 = GC2_FRAME"
    and t: "arr_pad (sub_list w 4 SESSION_HEADER) \<noteq> (arr_fill 0 :: 16 arr)" and v: "validate_frame_bytes ?b = Inr ()"
    and p: "pk_tag p = arr_pad (sub_list w 4 SESSION_HEADER)"
    by (auto simp: packet_decode_def Let_def validate_tag_Inr split: if_splits)
  have "length ?b \<le> MAX_MESSAGE - SESSION_HEADER" using l by simp
  from validate_frame_bytes_decode [OF v this] envelope_split [OF l(1) m] t p show ?thesis
    by (auto simp: gc2_encode_frame_iff)
qed

lemma packet_decode_first:
  assumes "gc2_encode_first_move tag fm = Inr w"
  shows "\<exists>p. packet_decode w = Inr p \<and> pk_kind p = KFirstMove \<and> pk_tag p = tag \<and> pk_bytes p = w \<and> packet_first_move p = Inr fm"
proof -
  let ?b = "list_of (fm_eph_pub fm) @ be16 1088 @ fm_kem_ct fm @ list_of (fm_nonce fm) @ fm_ct fm"
  from assms have t: "tag \<noteq> arr_fill 0" and v: "validate_first fm = Inr ()" and w: "w = envelope GC2_FIRST tag ?b"
    by (auto simp: gc2_encode_first_move_iff)
  note e = first_move_encode_valid [OF v]
  have "first_move_decode ?b = Some fm" using e first_move_decode_iff by blast
  moreover have "1150 \<le> length ?b" "SESSION_HEADER + length ?b \<le> MAX_MESSAGE"
    using v e(3) by (auto simp: validate_first_def MAX_MESSAGE_def SESSION_HEADER_def)
  moreover have "get_range ?b 32 34 = Some (be16 1088)" by (simp add: get_range_def sub_list_def)
  ultimately show ?thesis
    using t v by (simp add: w packet_decode_def packet_first_move_def envelope_parts Let_def validate_tag_Inr reject_def)
qed

lemma packet_decode_first_only:
  assumes "packet_decode w = Inr p" and "pk_kind p = KFirstMove"
  shows "\<exists>fm. gc2_encode_first_move (pk_tag p) fm = Inr w"
proof -
  let ?b = "drop SESSION_HEADER w"
  from assms have l: "SESSION_HEADER \<le> length w" "length w \<le> MAX_MESSAGE" and m: "sub_list w 0 4 = GC2_FIRST"
    and t: "arr_pad (sub_list w 4 SESSION_HEADER) \<noteq> (arr_fill 0 :: 16 arr)"
    and b: "1150 \<le> length ?b" "sub_list ?b 32 34 = be16 1088"
    and p: "pk_tag p = arr_pad (sub_list w 4 SESSION_HEADER)"
    by (auto simp: packet_decode_def Let_def validate_tag_Inr get_range_def not_less split: if_splits)
  let ?fm = "\<lparr>fm_eph_pub = arr_pad (sub_list ?b 0 32), fm_kem_ct = sub_list ?b 34 1122,
     fm_nonce = arr_pad (sub_list ?b 1122 1134), fm_ct = drop 1134 ?b\<rparr>"
  have v: "validate_first ?fm = Inr ()"
    using b(1) l by (auto simp: validate_first_def reject_def KEM_CT_LEN_def MAX_MESSAGE_def SESSION_HEADER_def)
  have "?b = sub_list ?b 0 32 @ sub_list ?b 32 34 @ sub_list ?b 34 1122 @ sub_list ?b 1122 1134 @ drop 1134 ?b"
    by (simp add: sub_list_drop sub_list_take [symmetric] del: drop_drop)
  then have "w = envelope GC2_FIRST (pk_tag p) (list_of (fm_eph_pub ?fm) @ be16 1088 @ fm_kem_ct ?fm @ list_of (fm_nonce ?fm) @ fm_ct ?fm)"
    using envelope_split [OF l(1) m] p b by simp
  with t v p show ?thesis using gc2_encode_first_move_iff by fastforce
qed

section \<open>Properties\<close>

text \<open>
  C23 (roundtrip): the GC/2 packet decoder accepts exactly the encoder's output. A buffer decodes to a
  packet with a given tag that holds a given frame (first move) if and only if it is the encoding of
  that frame (first move) under that tag; and every buffer accepted as a frame or first-move packet
  is such an encoding, so opening it never fails afterwards.
\<close>

theorem packets_canonical:
  "((\<exists>p. packet_decode w = Inr p \<and> pk_tag p = tag \<and> packet_frame p = Inr f) \<longleftrightarrow> gc2_encode_frame tag f = Inr w)
   \<and> ((\<exists>p. packet_decode w = Inr p \<and> pk_tag p = tag \<and> packet_first_move p = Inr fm) \<longleftrightarrow> gc2_encode_first_move tag fm = Inr w)
   \<and> ((\<exists>p. packet_decode w = Inr p \<and> pk_kind p = KFrame) \<longleftrightarrow> (\<exists>tag f. gc2_encode_frame tag f = Inr w))
   \<and> ((\<exists>p. packet_decode w = Inr p \<and> pk_kind p = KFirstMove) \<longleftrightarrow> (\<exists>tag fm. gc2_encode_first_move tag fm = Inr w))"
proof -
  have "gc2_encode_frame tag f = Inr w" if "packet_decode w = Inr p" "pk_tag p = tag" "packet_frame p = Inr f" for p
  proof -
    have "pk_kind p = KFrame" using that(3) by (simp add: packet_frame_def)
    from packet_decode_frame_only [OF that(1) this] obtain g where g: "gc2_encode_frame (pk_tag p) g = Inr w" by blast
    with packet_decode_frame [OF g] that show ?thesis by auto
  qed
  moreover have "gc2_encode_first_move tag fm = Inr w" if "packet_decode w = Inr p" "pk_tag p = tag" "packet_first_move p = Inr fm" for p
  proof -
    have "pk_kind p = KFirstMove" using that(3) by (simp add: packet_first_move_def)
    from packet_decode_first_only [OF that(1) this] obtain g where g: "gc2_encode_first_move (pk_tag p) g = Inr w" by blast
    with packet_decode_first [OF g] that show ?thesis by auto
  qed
  ultimately show ?thesis
    using packet_decode_frame packet_decode_first packet_decode_frame_only packet_decode_first_only by metis
qed

end
