(* ===== verification/Flow_Storage.thy ===== *)
theory Flow_Storage
  imports Flow_Window
begin

text \<open>
  The private archive of the credit window, \<open>crates/protocol/src/flow/storage.rs\<close>:
  \<open>encode_private\<close>, \<open>decode_private\<close> and the bounds-checked input cursor. An archive keeps the
  repair bytes of durable counters only; of a volatile counter it keeps the receipt authority.
\<close>

unbundle bit_operations_syntax

section \<open>Input cursor\<close>

text \<open>The cursor is the suffix of the input that has not been read; \<open>None\<close> of \<open>get\<close> is \<open>Length\<close>.\<close>

definition in_take :: "nat \<Rightarrow> bytes \<Rightarrow> flow_error + (bytes \<times> bytes)" where
  "in_take n inp = ok_or FLength (rd n inp)"

definition in_array :: "bytes \<Rightarrow> flow_error + ('n::len arr \<times> bytes)" where
  "in_array inp = rbind (in_take LENGTH('n) inp) (\<lambda>(bs, inp). Inr (arr_pad bs, inp))"

definition in_byte :: "bytes \<Rightarrow> flow_error + (byte \<times> bytes)" where
  "in_byte inp = rbind (in_take 1 inp) (\<lambda>(bs, inp). Inr (bs ! 0, inp))"

definition in_u64 :: "bytes \<Rightarrow> flow_error + (u64 \<times> bytes)" where
  "in_u64 inp = rbind (in_take 8 inp) (\<lambda>(bs, inp). Inr (de64 bs, inp))"

definition in_u16 :: "bytes \<Rightarrow> flow_error + (u16 \<times> bytes)" where
  "in_u16 inp = rbind (in_take 2 inp) (\<lambda>(bs, inp). Inr (de16 bs, inp))"

lemma in_take_append [simp]: "length xs = n \<Longrightarrow> in_take n (xs @ ys) = Inr (xs, ys)"
  by (simp add: in_take_def)

lemma in_take_Inr: "in_take n inp = Inr (xs, ys) \<longleftrightarrow> inp = xs @ ys \<and> length xs = n"
  by (simp add: in_take_def)

lemma in_array_append [simp]: "in_array (list_of a @ r) = Inr (a, r)"
  by (simp add: in_array_def)

lemma in_array_Inr: "in_array inp = Inr (a, r) \<longleftrightarrow> inp = list_of a @ r"
  by (auto simp: in_array_def in_take_Inr)

lemma in_byte_Cons [simp]: "in_byte (b # r) = Inr (b, r)"
  using in_take_append [of "[b]" 1 r] by (simp add: in_byte_def)

lemma in_byte_Inr: "in_byte inp = Inr (b, r) \<longleftrightarrow> inp = b # r"
  by (auto simp: in_byte_def in_take_Inr length_Suc_conv)

lemma in_u64_append [simp]: "in_u64 (be64 x @ r) = Inr (x, r)"
  by (simp add: in_u64_def)

lemma in_u64_Inr: "in_u64 inp = Inr (x, r) \<longleftrightarrow> inp = be64 x @ r"
  by (auto simp: in_u64_def in_take_Inr be_de)

lemma in_u16_append [simp]: "in_u16 (be16 x @ r) = Inr (x, r)"
  by (simp add: in_u16_def)

lemma in_u16_Inr: "in_u16 inp = Inr (x, r) \<longleftrightarrow> inp = be16 x @ r"
  by (auto simp: in_u16_def in_take_Inr be_de)

lemmas in_Inr = in_take_Inr in_array_Inr in_byte_Inr in_u64_Inr in_u16_Inr

section \<open>Encoding\<close>

definition FLOW_MAGIC :: bytes where "FLOW_MAGIC = lit ''GCW2'' @ [1]"
definition RECOVERY_MAGIC :: bytes where "RECOVERY_MAGIC = lit ''GCW2'' @ [2]"
definition VOLATILE_MAGIC :: bytes where "VOLATILE_MAGIC = lit ''GCW2'' @ [3]"
definition MAX_PRIVATE_BYTES :: nat where
  "MAX_PRIVATE_BYTES = 128 + (MAX_MESSAGE + 43 + 153) * unat COUNTER_WINDOW"

definition tx_entry_encode :: "bool \<Rightarrow> sent_entry \<Rightarrow> bytes" where
  "tx_entry_encode has_volatile e =
     [purpose_byte (se_purpose e)] @ be64 (se_sent_unix e) @ list_of (au_secret (se_authority e))
     @ (if has_volatile then [if se_volatile e then 1 else 0] else [])
     @ (if se_volatile e then list_of (au_packet_hash (se_authority e))
        else be16 (of_nat (length (se_packet e))) @ se_packet e)"

definition rx_entry_encode :: "u64 \<times> received_entry \<Rightarrow> bytes" where
  "rx_entry_encode p =
     (case p of (counter, e) \<Rightarrow>
        be64 counter @ list_of (au_packet_hash (re_authority e)) @ list_of (au_secret (re_authority e))
        @ (case re_cached e of None \<Rightarrow> [0] | Some b \<Rightarrow> [1] @ list_of b))"

definition encode_private :: "window \<Rightarrow> bytes" where
  "encode_private w =
     (let has_volatile = has_volatile_counters w
      in (if has_volatile then VOLATILE_MAGIC else if w_generation w = 1 then FLOW_MAGIC else RECOVERY_MAGIC)
         @ list_of (w_session w)
         @ (if 1 < w_generation w \<or> has_volatile then be64 (w_generation w) else [])
         @ be64 (w_sent w) @ be64 (cov_floor (w_credited w)) @ be64 (cov_mask (w_credited w))
         @ be64 (cov_floor (w_received w)) @ be64 (cov_mask (w_received w))
         @ [of_nat (length (w_tx w))] @ concat (map (\<lambda>(_, e). tx_entry_encode has_volatile e) (w_tx w))
         @ [of_nat (length (w_rx w))] @ concat (map rx_entry_encode (w_rx w)))"

section \<open>Decoding\<close>

definition tx_entry_decode :: "crypto_ops \<Rightarrow> nat \<Rightarrow> 16 arr \<Rightarrow> bytes \<Rightarrow> flow_error + (sent_entry \<times> bytes)" where
  "tx_entry_decode C version session inp =
     rbind (in_byte inp) (\<lambda>(pb, inp).
     rbind (purpose_decode pb) (\<lambda>purpose.
     rbind (in_u64 inp) (\<lambda>(sent_unix, inp).
     reject (sent_unix = 0) FState (
     rbind (in_array inp) (\<lambda>(secret, inp).
     rbind (if version = 3
            then rbind (in_byte inp) (\<lambda>(v, inp).
                   if v = 0 then Inr (False, inp)
                   else if v = 1 \<and> purpose \<noteq> PControl then Inr (True, inp)
                   else Inl FState)
            else Inr (False, inp)) (\<lambda>(vol, inp).
     rbind (if vol
            then rbind (in_array inp) (\<lambda>(hash, inp). Inr (([], hash), inp))
            else rbind (in_u16 inp) (\<lambda>(len, inp).
                 reject (unat len = 0 \<or> MAX_MESSAGE < unat len) FLength (
                 rbind (in_take (unat len) inp) (\<lambda>(packet, inp). Inr ((packet, cr_sha256 C packet), inp)))))
       (\<lambda>((packet, packet_hash), inp).
     Inr (\<lparr>se_authority = authority_new C session packet_hash secret, se_packet = packet,
           se_purpose = purpose, se_sent_unix = sent_unix, se_volatile = vol\<rparr>, inp))))))))"

fun tx_decode :: "crypto_ops \<Rightarrow> nat \<Rightarrow> 16 arr \<Rightarrow> nat \<Rightarrow> u64 \<Rightarrow> (u64 \<times> sent_entry) list \<Rightarrow> bytes
    \<Rightarrow> flow_error + ((u64 \<times> sent_entry) list \<times> bytes)" where
  "tx_decode C version session 0 counter tx inp = Inr (tx, inp)"
| "tx_decode C version session (Suc n) counter tx inp =
     rbind (tx_entry_decode C version session inp) (\<lambda>(e, inp).
     reject (\<exists>(_, e') \<in> set tx. au_reference (se_authority e') = au_reference (se_authority e)) FState
       (tx_decode C version session n (counter + 1) (bt_insert counter e tx) inp))"

text \<open>The check of a cached credit against the restored coverage.\<close>

definition prior_ok :: "coverage \<Rightarrow> u64 \<Rightarrow> u64 \<Rightarrow> coverage \<Rightarrow> bool" where
  "prior_ok received highest counter prior \<longleftrightarrow>
     cov_floor prior \<le> cov_floor received
     \<and> (case cov_highest prior of Inl _ \<Rightarrow> False | Inr h \<Rightarrow> h \<le> highest)
     \<and> cov_contains prior counter
     \<and> (\<forall>shift \<in> set [0..<unat COUNTER_WINDOW].
          cov_mask prior AND push_bit shift 1 \<noteq> 0 \<longrightarrow>
          cov_contains received (cov_floor prior + of_nat shift + 1))"

definition rx_entry_decode ::
  "crypto_ops \<Rightarrow> 16 arr \<Rightarrow> coverage \<Rightarrow> u64 \<Rightarrow> u64 \<Rightarrow> u64 \<Rightarrow> bytes \<Rightarrow> flow_error + ((u64 \<times> received_entry) \<times> bytes)" where
  "rx_entry_decode C session received minimum highest previous inp =
     rbind (in_u64 inp) (\<lambda>(counter, inp).
     reject (counter < minimum \<or> highest < counter \<or> counter \<le> previous \<or> \<not> cov_contains received counter) FState (
     rbind (in_array inp) (\<lambda>(packet_hash, inp).
     rbind (in_array inp) (\<lambda>(secret, inp).
     let authority = authority_new C session packet_hash secret
     in rbind (in_byte inp) (\<lambda>(tag, inp).
        rbind (if tag = 0 then Inr (None, inp)
               else if tag = 1
               then rbind (in_array inp) (\<lambda>(b, inp).
                    rbind (decode_credit C session authority (list_of b)) (\<lambda>prior.
                    reject (\<not> prior_ok received highest counter prior) FState (Inr (Some b, inp))))
               else Inl FState) (\<lambda>(cached, inp).
        Inr ((counter, \<lparr>re_authority = authority, re_cached = cached\<rparr>), inp)))))))"

fun rx_decode :: "crypto_ops \<Rightarrow> 16 arr \<Rightarrow> coverage \<Rightarrow> u64 \<Rightarrow> u64 \<Rightarrow> nat \<Rightarrow> u64 \<Rightarrow> (u64 \<times> received_entry) list \<Rightarrow> bytes
    \<Rightarrow> flow_error + ((u64 \<times> received_entry) list \<times> bytes)" where
  "rx_decode C session received minimum highest 0 previous rx inp = Inr (rx, inp)"
| "rx_decode C session received minimum highest (Suc n) previous rx inp =
     rbind (rx_entry_decode C session received minimum highest previous inp) (\<lambda>((counter, e), inp).
       rx_decode C session received minimum highest n counter (bt_insert counter e rx) inp)"

definition archive_version :: "bytes \<Rightarrow> flow_error + nat" where
  "archive_version m =
     (if m = FLOW_MAGIC then Inr 1 else if m = RECOVERY_MAGIC then Inr 2
      else if m = VOLATILE_MAGIC then Inr 3 else Inl FVersion)"

text \<open>The header up to the two coverages, and the checks that precede the first entry.\<close>

definition decode_header :: "bytes \<Rightarrow> flow_error + ((nat \<times> nat \<times> window) \<times> bytes)" where
  "decode_header inp =
     rbind (in_take 5 inp) (\<lambda>(m, inp).
     rbind (archive_version m) (\<lambda>version.
     rbind (in_array inp) (\<lambda>(tag, inp).
     rbind (if 2 \<le> version then in_u64 inp else Inr (1, inp)) (\<lambda>(generation, inp).
     reject (version = 2 \<and> generation < 2) FState (
     rbind (window_new_generation tag generation) (\<lambda>w.
     rbind (in_u64 inp) (\<lambda>(sent, inp).
     rbind (in_u64 inp) (\<lambda>(cf, inp).
     rbind (in_u64 inp) (\<lambda>(cm, inp).
     rbind (in_u64 inp) (\<lambda>(rf, inp).
     rbind (in_u64 inp) (\<lambda>(rm, inp).
     rbind (in_byte inp) (\<lambda>(tx_count, inp).
     let credited = \<lparr>cov_floor = cf, cov_mask = cm\<rparr>; received = \<lparr>cov_floor = rf, cov_mask = rm\<rparr>
     in reject (\<not> cov_valid credited \<or> \<not> cov_valid received) FState (
        rbind (cov_highest credited) (\<lambda>h.
        reject (sent < h \<or> checked_sub sent cf \<noteq> Some (ucast tx_count) \<or> COUNTER_WINDOW < ucast tx_count) FState (
        Inr ((version, unat tx_count, w\<lparr>w_sent := sent, w_credited := credited, w_received := received\<rparr>), inp))))))))))))))))"

text \<open>Coverage and receipts agree on the whole retained horizon.\<close>

definition rx_covers :: "coverage \<Rightarrow> u64 \<Rightarrow> u64 \<Rightarrow> (u64 \<times> received_entry) list \<Rightarrow> bool" where
  "rx_covers received minimum highest rx \<longleftrightarrow>
     (0 < highest \<longrightarrow> (\<forall>n \<in> set [unat minimum..<unat highest + 1].
        cov_contains received (of_nat n) = (map_of rx (of_nat n) \<noteq> None)))"

definition decode_private :: "crypto_ops \<Rightarrow> bytes \<Rightarrow> flow_error + window" where
  "decode_private C bytes =
     reject (MAX_PRIVATE_BYTES < length bytes) FLength (
     rbind (decode_header bytes) (\<lambda>((version, tx_count, w), inp).
     rbind (tx_decode C version (w_session w) tx_count (cov_floor (w_credited w) + 1) [] inp) (\<lambda>(tx, inp).
     rbind (in_byte inp) (\<lambda>(rx_count, inp).
     reject (unat COUNTER_WINDOW < unat rx_count) FState (
     rbind (cov_highest (w_received w)) (\<lambda>highest.
     let minimum = max (saturating_sub highest (COUNTER_WINDOW - 1)) 1
     in rbind (rx_decode C (w_session w) (w_received w) minimum highest (unat rx_count) 0 [] inp) (\<lambda>(rx, inp).
        reject (\<not> rx_covers (w_received w) minimum highest rx) FState (
        reject (inp \<noteq> []) FLength (
        reject (version = 3 \<and> \<not> has_volatile_counters (w\<lparr>w_tx := tx\<rparr>)) FState (
        Inr (w\<lparr>w_tx := tx, w_rx := rx\<rparr>)))))))))))"

text \<open>What an archive remembers of a window: the repair bytes of volatile counters are dropped.\<close>

definition archived_entry :: "sent_entry \<Rightarrow> sent_entry" where
  "archived_entry e = (if se_volatile e then e\<lparr>se_packet := []\<rparr> else e)"

definition archived :: "window \<Rightarrow> window" where
  "archived w = w\<lparr>w_tx := map (apsnd archived_entry) (w_tx w)\<rparr>"

section \<open>Round trip\<close>

lemma tx_entry_roundtrip:
  assumes "sent_ok C s e" and "version = 3 \<longleftrightarrow> hv" and "se_volatile e \<longrightarrow> hv"
  shows "tx_entry_decode C version s (tx_entry_encode hv e @ r) = Inr (archived_entry e, r)"
proof -
  have au: "authority_new C s (au_packet_hash (se_authority e)) (au_secret (se_authority e)) = se_authority e"
    using assms(1) by (simp add: sent_ok_def authority_ok_def)
  have "unat (of_nat (length (se_packet e)) :: u16) = length (se_packet e)"
    using assms(1) by (simp add: sent_ok_def MAX_MESSAGE_def unat_of_nat_u16)
  then show ?thesis using assms au
    by (cases "se_volatile e")
      (auto simp: tx_entry_decode_def tx_entry_encode_def archived_entry_def sent_ok_def)
qed

lemma archived_entry_fields [simp]:
  "se_authority (archived_entry e) = se_authority e" "se_volatile (archived_entry e) = se_volatile e"
  "se_purpose (archived_entry e) = se_purpose e" "se_sent_unix (archived_entry e) = se_sent_unix e"
  by (simp_all add: archived_entry_def)

lemma tx_roundtrip:
  assumes "\<forall>(k, e) \<in> set es. sent_ok C s e \<and> (se_volatile e \<longrightarrow> hv)" and "version = 3 \<longleftrightarrow> hv"
    and "map (unat \<circ> fst) es = [unat counter..<unat counter + length es]"
    and "\<forall>p \<in> set acc. unat (fst p) < unat counter"
    and "distinct (map (au_reference \<circ> se_authority \<circ> snd) (acc @ es))"
  shows "tx_decode C version s (length es) counter acc (concat (map (\<lambda>(_, e). tx_entry_encode hv e) es) @ r)
     = Inr (acc @ map (apsnd archived_entry) es, r)"
  using assms
proof (induction es arbitrary: counter acc)
  case (Cons p es)
  obtain k e where p: "p = (k, e)" by (cases p)
  have up: "[unat counter..<unat counter + length (p # es)] = unat counter # [unat counter + 1..<unat counter + 1 + length es]"
    by (subst upt_conv_Cons) (simp_all del: upt_Suc)
  have k: "k = counter" and rest: "map (unat \<circ> fst) es = [unat counter + 1..<unat counter + 1 + length es]"
    using Cons.prems(3) unfolding up by (simp_all add: p word_unat_eq_iff comp_def del: upt_Suc)
  have ins: "bt_insert counter (archived_entry e) acc = acc @ [(counter, archived_entry e)]"
    using Cons.prems(4) by (intro bt_insert_last) (simp add: word_less_nat_alt)
  have fresh: "\<not> (\<exists>(_, e') \<in> set acc. au_reference (se_authority e') = au_reference (se_authority (archived_entry e)))"
    using Cons.prems(5) by (auto simp: p) (metis comp_apply image_eqI snd_conv)
  have ent: "tx_entry_decode C version s (tx_entry_encode hv e @ r') = Inr (archived_entry e, r')" for r'
    using Cons.prems(1,2) by (intro tx_entry_roundtrip) (auto simp: p)
  show ?case
  proof (cases es)
    case Nil
    then show ?thesis using ent fresh ins by (simp add: p k)
  next
    case ne: (Cons q es')
    have "unat (fst q) = unat counter + 1"
      using rest unfolding ne by (subst (asm) upt_conv_Cons) (simp_all del: upt_Suc)
    then have c1: "unat (counter + 1) = unat counter + 1"
      using unat_plus_u64 [of counter 1] unat_less_2_64 [of "fst q"] by simp
    have "tx_decode C version s (length es) (counter + 1) (acc @ [(counter, archived_entry e)])
        (concat (map (\<lambda>(_, e). tx_entry_encode hv e) es) @ r)
      = Inr ((acc @ [(counter, archived_entry e)]) @ map (apsnd archived_entry) es, r)"
    proof (rule Cons.IH)
      show "\<forall>(k, e) \<in> set es. sent_ok C s e \<and> (se_volatile e \<longrightarrow> hv)" using Cons.prems(1) by (simp add: p)
      show "version = 3 \<longleftrightarrow> hv" by (rule Cons.prems(2))
      show "map (unat \<circ> fst) es = [unat (counter + 1)..<unat (counter + 1) + length es]"
        unfolding c1 by (rule rest)
      show "\<forall>p \<in> set (acc @ [(counter, archived_entry e)]). unat (fst p) < unat (counter + 1)"
        using Cons.prems(4) c1 by auto
      show "distinct (map (au_reference \<circ> se_authority \<circ> snd) ((acc @ [(counter, archived_entry e)]) @ es))"
        using Cons.prems(5) by (auto simp: p comp_def)
    qed
    then show ?thesis using ent fresh ins by (simp add: p k)
  qed
qed simp

lemma cov_contains_bit:
  assumes "bit (cov_mask prior) i" and "cov_hi prior < 2 ^ 64" and "\<not> bit (cov_mask received) 63"
  shows "cov_contains received (cov_floor prior + of_nat i + 1) \<longleftrightarrow> unat (cov_floor prior) + 1 + i \<in> cov_set received"
proof -
  have le: "unat (cov_floor prior) + 1 + i < 2 ^ 64"
    using bit_less_bit_len [OF assms(1)] assms(2) by (simp add: cov_hi_def)
  then have "cov_floor prior + of_nat i + 1 = of_nat (unat (cov_floor prior) + 1 + i)" by simp
  then have u: "unat (cov_floor prior + of_nat i + 1) = unat (cov_floor prior) + 1 + i"
    using unat_of_nat_u64 [OF le] by metis
  then have "cov_floor prior + of_nat i + 1 \<noteq> 0" by (metis Suc_eq_plus1 add.commute add_Suc_right nat.distinct(1) unat_0)
  with cov_contains_iff [OF assms(3)] u show ?thesis by simp
qed

lemma prior_ok_iff:
  assumes "cov_valid prior" and "cov_valid received" and "cov_highest received = Inr highest"
  shows "prior_ok received highest counter prior \<longleftrightarrow>
    cov_set prior \<subseteq> cov_set received \<and> cov_contains prior counter"
proof -
  have v: "\<not> bit (cov_mask prior) 63" "cov_hi prior < 2 ^ 64" "\<not> bit (cov_mask received) 63"
      "\<not> bit (cov_mask received) 0" "cov_hi received < 2 ^ 64"
    using assms(1,2) by (simp_all add: cov_valid_iff)
  obtain h where h: "cov_highest prior = Inr h" "unat h = cov_hi prior" using cov_highest_eq [OF v(2)] by blast
  have hr: "unat highest = cov_hi received" using cov_highest_eq [OF v(5)] assms(3) by auto
  have bit: "(\<forall>shift \<in> set [0..<unat COUNTER_WINDOW]. cov_mask prior AND push_bit shift 1 \<noteq> 0 \<longrightarrow>
      cov_contains received (cov_floor prior + of_nat shift + 1))
    \<longleftrightarrow> (\<forall>i. bit (cov_mask prior) i \<longrightarrow> unat (cov_floor prior) + 1 + i \<in> cov_set received)"
    using cov_contains_bit [OF _ v(2,3)] bit_u64_63 [OF v(1)] by (auto simp: and_exp_eq_0_iff_not_bit)
  have "h \<le> highest" if "cov_set prior \<subseteq> cov_set received"
    using that cov_hi_in [of prior] cov_set_le_hi [of "cov_hi prior" received] h(2) hr
    by (cases "cov_hi prior") (auto simp: word_le_nat_alt)
  then show ?thesis unfolding prior_ok_def bit cov_subset_iff [OF v(4)] using h(1)
    cov_subset_iff [OF v(4), of prior] by auto
qed

definition rx_in_range :: "coverage \<Rightarrow> u64 \<Rightarrow> u64 \<Rightarrow> u64 \<Rightarrow> bool" where
  "rx_in_range received minimum highest k \<longleftrightarrow>
     minimum \<le> k \<and> k \<le> highest \<and> cov_contains received k"

lemma rx_entry_roundtrip:
  assumes "crypto_ok C" and "cov_valid received" and "cov_highest received = Inr highest"
    and "received_ok C s received k e" and "rx_in_range received minimum highest k" and "previous < k"
  shows "rx_entry_decode C s received minimum highest previous (rx_entry_encode (k, e) @ r) = Inr ((k, e), r)"
proof -
  have au: "authority_new C s (au_packet_hash (re_authority e)) (au_secret (re_authority e)) = re_authority e"
    using assms(4) by (simp add: received_ok_def authority_ok_def)
  have g: "\<not> (k < minimum \<or> highest < k \<or> k \<le> previous \<or> \<not> cov_contains received k)"
    using assms(5,6) by (auto simp: rx_in_range_def)
  show ?thesis
  proof (cases "re_cached e")
    case None
    then have "e = \<lparr>re_authority = re_authority e, re_cached = None\<rparr>" by simp
    with None au g show ?thesis by (simp add: rx_entry_decode_def rx_entry_encode_def)
  next
    case (Some b)
    then obtain cov n where cov: "cov_valid cov" "cov_set cov \<subseteq> cov_set received" "unat k \<in> cov_set cov"
        "cov_count cov = Inr n" "credit_seal C s (re_authority e) n cov = Inr b"
      using assms(4) unfolding received_ok_def by blast
    have "cov_contains cov k" using cov_contains_iff [of cov k] cov(1,3) by (simp add: cov_valid_iff)
    then have "prior_ok received highest k cov" using prior_ok_iff [OF cov(1) assms(2,3)] cov(2) by simp
    moreover have "decode_credit C s (re_authority e) (list_of b) = Inr cov"
      by (rule decode_credit_seal [OF assms(1) cov(1,4,5)])
    moreover have "e = \<lparr>re_authority = re_authority e, re_cached = Some b\<rparr>" using Some by simp
    ultimately show ?thesis using Some au g by (simp add: rx_entry_decode_def rx_entry_encode_def)
  qed
qed

lemma rx_roundtrip:
  assumes "crypto_ok C" and "cov_valid received" and "cov_highest received = Inr highest"
    and "bt_ok es" and "\<forall>(k, e) \<in> set es. received_ok C s received k e \<and> rx_in_range received minimum highest k"
    and "\<forall>p \<in> set es. previous < fst p" and "\<forall>p \<in> set acc. fst p \<le> previous"
  shows "rx_decode C s received minimum highest (length es) previous acc (concat (map rx_entry_encode es) @ r)
     = Inr (acc @ es, r)"
  using assms(4-7)
proof (induction es arbitrary: previous acc)
  case (Cons p es)
  obtain k e where p: "p = (k, e)" by (cases p)
  have ent: "rx_entry_decode C s received minimum highest previous (rx_entry_encode (k, e) @ r') = Inr ((k, e), r')" for r'
    using Cons.prems(2,3) by (intro rx_entry_roundtrip [OF assms(1-3)]) (auto simp: p)
  have "bt_insert k e acc = acc @ [(k, e)]"
    using Cons.prems(3,4) by (intro bt_insert_last) (auto simp: p dest: le_less_trans)
  moreover have "rx_decode C s received minimum highest (length es) k (acc @ [(k, e)]) (concat (map rx_entry_encode es) @ r)
      = Inr ((acc @ [(k, e)]) @ es, r)"
    using Cons.prems by (intro Cons.IH) (auto simp: p intro: less_imp_le le_less_trans)
  ultimately show ?case using ent by (simp add: p)
qed simp

subsection \<open>Length\<close>

lemma tx_entry_length:
  assumes "sent_ok C s e"
  shows "length (tx_entry_encode hv e) \<le> (if se_volatile e then 74 else (if hv then 44 else 43) + MAX_MESSAGE)"
  using assms by (simp add: tx_entry_encode_def sent_ok_def)

lemma rx_entry_length: "length (rx_entry_encode p) \<le> 153"
  by (simp add: rx_entry_encode_def split: prod.split option.split)

lemma sum_list_le: "(\<And>x. x \<in> set xs \<Longrightarrow> f x \<le> b) \<Longrightarrow> sum_list (map f xs) \<le> length xs * (b :: nat)"
  by (induction xs) (auto intro: add_mono)

lemma tx_length:
  assumes "\<forall>(k, e) \<in> set es. sent_ok C s e" and "length es \<le> 63"
  shows "length (concat (map (\<lambda>(_, e). tx_entry_encode (\<exists>(_, e) \<in> set es. se_volatile e) e) es)) \<le> 63 * (MAX_MESSAGE + 43)"
proof (cases "\<exists>(_, e) \<in> set es. se_volatile e")
  case False
  let ?f = "\<lambda>x. length (case x of (_, e) \<Rightarrow> tx_entry_encode False e)"
  have "sum_list (map ?f es) \<le> length es * (MAX_MESSAGE + 43)"
    using assms(1) False tx_entry_length [of C s _ False] by (intro sum_list_le) fastforce
  also have "\<dots> \<le> 63 * (MAX_MESSAGE + 43)" using assms(2) by (rule mult_le_mono1)
  finally show ?thesis using False by (simp add: length_concat comp_def)
next
  case True
  let ?f = "\<lambda>x. length (case x of (_, e) \<Rightarrow> tx_entry_encode True e)"
  obtain ys k e zs where es: "es = ys @ (k, e) # zs" "se_volatile e"
    using True by (metis (mono_tags, lifting) case_prodE split_list)
  have b: "?f x \<le> MAX_MESSAGE + 44" if "x \<in> set es" for x
    using that assms(1) tx_entry_length [of C s "snd x" True] by (auto simp: MAX_MESSAGE_def split: if_splits)
  have "sum_list (map ?f ys) \<le> length ys * (MAX_MESSAGE + 44)" "sum_list (map ?f zs) \<le> length zs * (MAX_MESSAGE + 44)"
    by (rule sum_list_le, rule b, simp add: es)+
  moreover have "?f (k, e) \<le> 74" using assms(1) tx_entry_length [of C s e True] es by auto
  ultimately have "sum_list (map ?f es) \<le> (length ys + length zs) * (MAX_MESSAGE + 44) + 74"
    by (simp add: es algebra_simps)
  also have "\<dots> \<le> 62 * (MAX_MESSAGE + 44) + 74"
    using mult_le_mono1 [of "length ys + length zs" 62 "MAX_MESSAGE + 44"] assms(2) by (simp add: es)
  also have "\<dots> \<le> 63 * (MAX_MESSAGE + 43)" by (simp add: MAX_MESSAGE_def)
  finally show ?thesis using True by (simp add: length_concat comp_def)
qed

subsection \<open>The whole archive\<close>

definition window_version :: "window \<Rightarrow> nat" where
  "window_version w = (if has_volatile_counters w then 3 else if w_generation w = 1 then 1 else 2)"

lemma magics: "length FLOW_MAGIC = 5" "length RECOVERY_MAGIC = 5" "length VOLATILE_MAGIC = 5"
  "archive_version FLOW_MAGIC = Inr 1" "archive_version RECOVERY_MAGIC = Inr 2" "archive_version VOLATILE_MAGIC = Inr 3"
  by (simp_all add: FLOW_MAGIC_def RECOVERY_MAGIC_def VOLATILE_MAGIC_def archive_version_def)

lemma window_inv_tx_length:
  assumes "window_inv C w"
  shows "length (w_tx w) = unat (w_sent w) - unat (cov_floor (w_credited w))" "length (w_tx w) \<le> 63"
proof -
  from assms have "length (map (unat \<circ> fst) (w_tx w)) = unat (w_sent w) - unat (cov_floor (w_credited w))"
    unfolding window_inv_def tx_ok_def by (simp only: length_upt)
  then show "length (w_tx w) = unat (w_sent w) - unat (cov_floor (w_credited w))" by simp
  with assms show "length (w_tx w) \<le> 63" unfolding window_inv_def by linarith
qed

lemma window_inv_rx_length:
  assumes "window_inv C w"
  shows "length (w_rx w) \<le> 63"
proof -
  have rx: "bt_ok (w_rx w)" "unat ` fst ` set (w_rx w) = {n \<in> cov_set (w_received w). cov_hi (w_received w) \<le> n + 62}"
    using assms by (simp_all add: window_inv_def rx_ok_def)
  have "length (w_rx w) = card (fst ` set (w_rx w))"
    using bt_ok_distinct [OF rx(1)] by (metis distinct_card length_map set_map)
  also have "\<dots> = card (unat ` fst ` set (w_rx w))" by (rule card_image [symmetric]) (simp add: inj_on_def word_unat_eq_iff)
  also have "\<dots> \<le> card {cov_hi (w_received w) - 62..cov_hi (w_received w)}"
    unfolding rx(2) by (rule card_mono) (use cov_set_le_hi in auto)
  finally show ?thesis by simp
qed

lemma header_roundtrip:
  assumes "window_inv C w"
  defines "h \<equiv> (if has_volatile_counters w then VOLATILE_MAGIC else if w_generation w = 1 then FLOW_MAGIC else RECOVERY_MAGIC)
         @ list_of (w_session w)
         @ (if 1 < w_generation w \<or> has_volatile_counters w then be64 (w_generation w) else [])
         @ be64 (w_sent w) @ be64 (cov_floor (w_credited w)) @ be64 (cov_mask (w_credited w))
         @ be64 (cov_floor (w_received w)) @ be64 (cov_mask (w_received w)) @ [of_nat (length (w_tx w))]"
  shows "decode_header (h @ r) = Inr ((window_version w, length (w_tx w), w\<lparr>w_tx := [], w_rx := []\<rparr>), r)"
    and "length h \<le> 5 + 16 + 8 + 40 + 1"
proof -
  have len: "length (w_tx w) = unat (w_sent w) - unat (cov_floor (w_credited w))" "length (w_tx w) \<le> 63"
    using window_inv_tx_length [OF assms(1)] by simp_all
  have v: "cov_valid (w_credited w)" "cov_valid (w_received w)" "w_generation w \<noteq> 0" "w_session w \<noteq> arr_fill 0"
      "cov_hi (w_credited w) \<le> unat (w_sent w)"
    using assms(1) by (simp_all add: window_inv_def)
  obtain hh where hh: "cov_highest (w_credited w) = Inr hh" "unat hh = cov_hi (w_credited w)"
    using cov_highest_eq [of "w_credited w"] v(1) by (auto simp: cov_valid_iff)
  have c: "unat (of_nat (length (w_tx w)) :: byte) = length (w_tx w)"
    using len(2) by (simp add: unat_of_nat)
  then have u: "unat (ucast (of_nat (length (w_tx w)) :: byte) :: u64) = length (w_tx w)"
    by (simp add: unsigned_ucast_eq take_bit_nat_eq_self unat_of_nat len(2))
  have fl: "cov_floor (w_credited w) \<le> w_sent w"
    using window_floor_le_sent [OF assms(1)] by (simp add: word_le_nat_alt)
  have sub: "checked_sub (w_sent w) (cov_floor (w_credited w)) = Some (ucast (of_nat (length (w_tx w)) :: byte))"
    using fl u len(1) unat_minus_u64 [OF fl] by (simp add: checked_sub_def word_unat_eq_iff)
  have g: "\<not> w_sent w < hh" "\<not> COUNTER_WINDOW < ucast (of_nat (length (w_tx w)) :: byte)"
    using hh(2) v(5) u len(2) by (simp_all add: word_less_nat_alt)
  have "w_generation w = 1 \<or> 1 < w_generation w" "1 < w_generation w \<Longrightarrow> \<not> w_generation w < 2"
    using v(3) by (auto simp: word_less_nat_alt word_unat_eq_iff)
  then show "decode_header (h @ r) = Inr ((window_version w, length (w_tx w), w\<lparr>w_tx := [], w_rx := []\<rparr>), r)"
    using v hh(1) sub g c magics
    by (auto simp: decode_header_def h_def window_version_def window_new_generation_def Let_def)
  show "length h \<le> 5 + 16 + 8 + 40 + 1" by (simp add: h_def magics)
qed

lemma rx_range:
  assumes "window_inv C w" and "cov_highest (w_received w) = Inr highest" and "(k, e) \<in> set (w_rx w)"
  shows "rx_in_range (w_received w) (max (saturating_sub highest (COUNTER_WINDOW - 1)) 1) highest k"
proof -
  have v: "cov_valid (w_received w)" using assms(1) by (simp add: window_inv_def)
  have "unat k \<in> unat ` fst ` set (w_rx w)" using assms(3) by force
  then have k: "unat k \<in> cov_set (w_received w)" "cov_hi (w_received w) \<le> unat k + 62"
    using assms(1) by (auto simp: window_inv_def rx_ok_def)
  have h: "unat highest = cov_hi (w_received w)"
    using cov_highest_eq [of "w_received w"] v assms(2) by (auto simp: cov_valid_iff)
  have "cov_contains (w_received w) k" using cov_contains_iff [of "w_received w" k] v k(1) by (simp add: cov_valid_iff)
  moreover have "saturating_sub highest (COUNTER_WINDOW - 1) \<le> k" "1 \<le> k" "k \<le> highest"
    using k(2) h cov_set_le_hi [OF k(1)] by (simp_all add: word_le_nat_alt unat_saturating_sub)
  ultimately show ?thesis by (simp add: rx_in_range_def)
qed

lemma rx_complete:
  assumes "window_inv C w" and "cov_highest (w_received w) = Inr highest"
    and "n \<in> set [unat (max (saturating_sub highest (COUNTER_WINDOW - 1)) 1)..<unat highest + 1]"
  shows "cov_contains (w_received w) (of_nat n) = (map_of (w_rx w) (of_nat n) \<noteq> None)"
proof -
  have v: "cov_valid (w_received w)" using assms(1) by (simp add: window_inv_def)
  have h: "unat highest = cov_hi (w_received w)"
    using cov_highest_eq [of "w_received w"] v assms(2) by (auto simp: cov_valid_iff)
  let ?m = "max (saturating_sub highest (COUNTER_WINDOW - 1)) 1"
  have "1 \<le> ?m" "saturating_sub highest (COUNTER_WINDOW - 1) \<le> ?m" by simp_all
  then have "1 \<le> unat ?m" "unat highest - 62 \<le> unat ?m"
    unfolding word_le_nat_alt by (simp_all add: unat_saturating_sub)
  then have n: "1 \<le> n" "n \<le> cov_hi (w_received w)" "cov_hi (w_received w) \<le> n + 62"
    using assms(3) h by auto
  have u: "unat (of_nat n :: u64) = n" using n(2) v by (intro unat_of_nat_u64) (simp add: cov_valid_iff)
  have "map_of (w_rx w) (of_nat n) \<noteq> None \<longleftrightarrow> of_nat n \<in> fst ` set (w_rx w)" by (simp add: map_of_eq_None_iff)
  also have "\<dots> \<longleftrightarrow> unat (of_nat n :: u64) \<in> unat ` fst ` set (w_rx w)"
    by (simp add: inj_image_mem_iff inj_on_def word_unat_eq_iff)
  also have "\<dots> \<longleftrightarrow> n \<in> cov_set (w_received w)" using assms(1) n(3) by (simp add: u window_inv_def rx_ok_def)
  also have "\<dots> \<longleftrightarrow> cov_contains (w_received w) (of_nat n)"
    using cov_contains_iff [of "w_received w" "of_nat n"] v u n(1) by (auto simp: cov_valid_iff)
  finally show ?thesis by simp
qed

lemma encode_private_split:
  "encode_private w =
    ((if has_volatile_counters w then VOLATILE_MAGIC else if w_generation w = 1 then FLOW_MAGIC else RECOVERY_MAGIC)
         @ list_of (w_session w)
         @ (if 1 < w_generation w \<or> has_volatile_counters w then be64 (w_generation w) else [])
         @ be64 (w_sent w) @ be64 (cov_floor (w_credited w)) @ be64 (cov_mask (w_credited w))
         @ be64 (cov_floor (w_received w)) @ be64 (cov_mask (w_received w)) @ [of_nat (length (w_tx w))])
    @ concat (map (\<lambda>(_, e). tx_entry_encode (has_volatile_counters w) e) (w_tx w))
    @ of_nat (length (w_rx w)) # concat (map rx_entry_encode (w_rx w)) @ []"
  by (simp add: encode_private_def Let_def)

lemma encode_private_length:
  assumes "window_inv C w"
  shows "length (encode_private w) \<le> MAX_PRIVATE_BYTES"
proof -
  have tx: "\<forall>(k, e) \<in> set (w_tx w). sent_ok C (w_session w) e" using assms by (simp add: window_inv_def tx_ok_def)
  have "length (concat (map (\<lambda>(_, e). tx_entry_encode (has_volatile_counters w) e) (w_tx w))) \<le> 63 * (MAX_MESSAGE + 43)"
    using tx_length [OF tx window_inv_tx_length(2) [OF assms]] by (simp add: has_volatile_counters_def)
  moreover have "sum_list (map (length \<circ> rx_entry_encode) (w_rx w)) \<le> length (w_rx w) * 153"
    by (rule sum_list_le) (simp add: rx_entry_length)
  then have "length (concat (map rx_entry_encode (w_rx w))) \<le> 63 * 153"
    using window_inv_rx_length [OF assms] by (simp add: length_concat comp_def)
  ultimately show ?thesis
    using header_roundtrip(2) [OF assms] unfolding encode_private_split length_append
    by (simp add: MAX_PRIVATE_BYTES_def)
qed

lemma tx_archive:
  assumes "window_inv C w"
  shows "tx_decode C (window_version w) (w_session w) (length (w_tx w)) (cov_floor (w_credited w) + 1) []
      (concat (map (\<lambda>(_, e). tx_entry_encode (has_volatile_counters w) e) (w_tx w)) @ r)
    = Inr (map (apsnd archived_entry) (w_tx w), r)"
proof (cases "w_tx w = []")
  case False
  have tx: "tx_ok C w" using assms by (simp add: window_inv_def)
  have ver: "window_version w = 3 \<longleftrightarrow> has_volatile_counters w" by (simp add: window_version_def)
  have tx1: "\<forall>(k, e) \<in> set (w_tx w). sent_ok C (w_session w) e \<and> (se_volatile e \<longrightarrow> has_volatile_counters w)"
    using tx by (auto simp: tx_ok_def has_volatile_counters_def)
  have fl: "unat (cov_floor (w_credited w)) + length (w_tx w) = unat (w_sent w)"
    using window_inv_tx_length(1) [OF assms] window_floor_le_sent [OF assms] by simp
  then have "unat (cov_floor (w_credited w)) + 1 \<le> unat (w_sent w)" using False by (cases "w_tx w") auto
  then have u: "unat (cov_floor (w_credited w) + 1) = unat (cov_floor (w_credited w)) + 1"
    using unat_plus_u64 [of "cov_floor (w_credited w)" 1] unat_less_2_64 [of "w_sent w"] by simp
  have "map (unat \<circ> fst) (w_tx w) = [unat (cov_floor (w_credited w) + 1)..<unat (cov_floor (w_credited w) + 1) + length (w_tx w)]"
    unfolding u using tx fl by (simp add: tx_ok_def add.assoc)
  with tx_roundtrip [OF tx1 ver this, of "[]"] tx show ?thesis by (simp add: tx_ok_def)
qed simp

lemma rx_archive:
  assumes "crypto_ok C" and "window_inv C w" and "cov_highest (w_received w) = Inr highest"
  shows "rx_decode C (w_session w) (w_received w) (max (saturating_sub highest (COUNTER_WINDOW - 1)) 1) highest
      (length (w_rx w)) 0 [] (concat (map rx_entry_encode (w_rx w)) @ []) = Inr ([] @ w_rx w, [])"
proof (rule rx_roundtrip [OF assms(1) _ assms(3)])
  show "\<forall>p \<in> set (w_rx w). 0 < fst p"
    using rx_range [OF assms(2,3)] by (fastforce simp: rx_in_range_def word_neq_0_conv [symmetric] intro!: gr0I)
qed (use assms(2) rx_range [OF assms(2,3)] in \<open>auto simp: window_inv_def rx_ok_def\<close>)

lemma decode_encode_private:
  assumes "crypto_ok C" and "window_inv C w"
  shows "decode_private C (encode_private w) = Inr (archived w)"
proof -
  have v: "cov_valid (w_received w)" using assms(2) by (simp add: window_inv_def)
  obtain highest where h: "cov_highest (w_received w) = Inr highest"
    using cov_highest_eq [of "w_received w"] v by (auto simp: cov_valid_iff)
  note T = tx_archive [OF assms(2)] and R = rx_archive [OF assms h]
  have c: "unat (of_nat (length (w_rx w)) :: byte) = length (w_rx w)"
    using window_inv_rx_length [OF assms(2)] by (simp add: unat_of_nat)
  have H: "decode_header (encode_private w) = Inr ((window_version w, length (w_tx w), w\<lparr>w_tx := [], w_rx := []\<rparr>),
      concat (map (\<lambda>(_, e). tx_entry_encode (has_volatile_counters w) e) (w_tx w))
      @ of_nat (length (w_rx w)) # concat (map rx_entry_encode (w_rx w)) @ [])"
    unfolding encode_private_split by (rule header_roundtrip(1) [OF assms(2)])
  have V: "\<not> (window_version w = 3 \<and> \<not> has_volatile_counters (w\<lparr>w_rx := [], w_tx := map (apsnd archived_entry) (w_tx w)\<rparr>))"
    by (force simp: window_version_def has_volatile_counters_def split: if_splits)
  have K: "rx_covers (w_received w) (max (saturating_sub highest (COUNTER_WINDOW - 1)) 1) highest (w_rx w)"
    unfolding rx_covers_def using rx_complete [OF assms(2) h] by blast
  have L: "\<not> MAX_PRIVATE_BYTES < length (encode_private w)" "\<not> unat COUNTER_WINDOW < length (w_rx w)"
    using encode_private_length [OF assms(2)] window_inv_rx_length [OF assms(2)] by simp_all
  have "decode_private C (encode_private w) = Inr (w\<lparr>w_tx := map (apsnd archived_entry) (w_tx w), w_rx := w_rx w\<rparr>)"
    unfolding decode_private_def H
    using T R V K L c h by (simp del: COUNTER_WINDOW_eq add: Let_def)
  then show ?thesis by (simp add: archived_def)
qed

section \<open>Accepted archives\<close>

lemma tx_entry_decode_Inr:
  assumes "tx_entry_decode C version s inp = Inr (e, r)"
  shows "inp = tx_entry_encode (version = 3) e @ r" "sent_ok C s e" "archived_entry e = e" "se_volatile e \<longrightarrow> version = 3"
proof -
  from assms obtain pb inp1 purpose su inp2 secret inp3 vol inp4 packet hash where
    a: "inp = pb # inp1" "pb = purpose_byte purpose" "inp1 = be64 su @ inp2" "su \<noteq> 0" "inp2 = list_of secret @ inp3"
    and v: "(if version = 3 then rbind (in_byte inp3) (\<lambda>(v, inp). if v = 0 then Inr (False, inp)
          else if v = 1 \<and> purpose \<noteq> PControl then Inr (True, inp) else Inl FState) else Inr (False, inp3)) = Inr (vol, inp4)"
    and p: "(if vol then rbind (in_array inp4) (\<lambda>(hash, inp). Inr (([], hash), inp))
            else rbind (in_u16 inp4) (\<lambda>(len, inp). reject (unat len = 0 \<or> MAX_MESSAGE < unat len) FLength (
                 rbind (in_take (unat len) inp) (\<lambda>(packet, inp). Inr ((packet, cr_sha256 C packet), inp)))))
         = Inr ((packet, hash), r)"
    and e: "e = \<lparr>se_authority = authority_new C s hash secret, se_packet = packet, se_purpose = purpose,
        se_sent_unix = su, se_volatile = vol\<rparr>"
    unfolding tx_entry_decode_def by (auto simp: in_Inr purpose_decode_Inr)
  have v': "inp3 = (if version = 3 then [if vol then 1 else 0] else []) @ inp4" "vol \<longrightarrow> version = 3 \<and> purpose \<noteq> PControl"
    using v by (auto simp: in_Inr split: if_splits)
  have p': "inp4 = (if vol then list_of hash else be16 (of_nat (length packet)) @ packet) @ r"
    "(vol \<longrightarrow> packet = []) \<and> (\<not> vol \<longrightarrow> packet \<noteq> [] \<and> hash = cr_sha256 C packet) \<and> length packet \<le> MAX_MESSAGE"
    using p by (auto simp: in_Inr split: if_splits)
  show "inp = tx_entry_encode (version = 3) e @ r" using a v' p' by (simp add: tx_entry_encode_def e)
  show "sent_ok C s e" using a(4) v' p' by (auto simp: sent_ok_def e)
  show "archived_entry e = e" using p' by (simp add: archived_entry_def e)
  show "se_volatile e \<longrightarrow> version = 3" using v' by (simp add: e)
qed

lemma tx_decode_Inr:
  assumes "tx_decode C version s n counter acc inp = Inr (tx, r)"
    and "unat counter + n \<le> 2 ^ 64" and "\<forall>p \<in> set acc. unat (fst p) < unat counter"
    and "distinct (map (au_reference \<circ> se_authority \<circ> snd) acc)"
  shows "\<exists>es. tx = acc @ es \<and> length es = n \<and> map (unat \<circ> fst) es = [unat counter..<unat counter + n]
     \<and> (\<forall>(k, e) \<in> set es. sent_ok C s e \<and> archived_entry e = e \<and> (se_volatile e \<longrightarrow> version = 3))
     \<and> inp = concat (map (\<lambda>(_, e). tx_entry_encode (version = 3) e) es) @ r
     \<and> distinct (map (au_reference \<circ> se_authority \<circ> snd) tx)"
  using assms
proof (induction n arbitrary: counter acc inp)
  case (Suc n)
  from Suc.prems(1) obtain e inp' where e: "tx_entry_decode C version s inp = Inr (e, inp')"
    and ref: "\<not> (\<exists>(_, e') \<in> set acc. au_reference (se_authority e') = au_reference (se_authority e))"
    and d: "tx_decode C version s n (counter + 1) (bt_insert counter e acc) inp' = Inr (tx, r)"
    by auto
  note ent = tx_entry_decode_Inr [OF e]
  have ins: "bt_insert counter e acc = acc @ [(counter, e)]"
    using Suc.prems(3) by (intro bt_insert_last) (simp add: word_less_nat_alt)
  have dist: "distinct (map (au_reference \<circ> se_authority \<circ> snd) (acc @ [(counter, e)]))"
    using Suc.prems(4) ref by (auto simp: comp_def case_prod_unfold)
  show ?case
  proof (cases n)
    case 0
    then show ?thesis using d ins ent dist by (intro exI [of _ "[(counter, e)]"]) (simp add: comp_def)
  next
    case sm: (Suc m)
    then have c1: "unat (counter + 1) = unat counter + 1"
      using Suc.prems(2) unat_plus_u64 [of counter 1] by simp
    have keys: "\<forall>p \<in> set (acc @ [(counter, e)]). unat (fst p) < unat (counter + 1)" using Suc.prems(3) c1 by auto
    have bound: "unat (counter + 1) + n \<le> 2 ^ 64" using Suc.prems(2) c1 by simp
    obtain es where es: "tx = (acc @ [(counter, e)]) @ es" "length es = n"
        "map (unat \<circ> fst) es = [unat counter + 1..<unat counter + 1 + n]"
        "\<forall>(k, e) \<in> set es. sent_ok C s e \<and> archived_entry e = e \<and> (se_volatile e \<longrightarrow> version = 3)"
        "inp' = concat (map (\<lambda>(_, e). tx_entry_encode (version = 3) e) es) @ r"
        "distinct (map (au_reference \<circ> se_authority \<circ> snd) tx)"
      using Suc.IH [OF d [unfolded ins] bound keys dist, unfolded c1] by blast
    have "[unat counter..<unat counter + Suc n] = unat counter # [unat counter + 1..<unat counter + 1 + n]"
      by (subst upt_conv_Cons) (simp_all del: upt_Suc)
    with es ent show ?thesis by (intro exI [of _ "(counter, e) # es"]) (simp add: comp_def del: upt_Suc)
  qed
qed simp

lemma rx_entry_decode_Inr:
  assumes "crypto_ok C" and "cov_valid received" and "cov_highest received = Inr highest"
    and "rx_entry_decode C s received minimum highest previous inp = Inr ((k, e), r)"
  shows "inp = rx_entry_encode (k, e) @ r" "rx_in_range received minimum highest k" "previous < k"
    "k \<noteq> 0 \<Longrightarrow> received_ok C s received k e"
proof -
  from assms(4) obtain hash secret inp3 tag inp4 cached where
    a: "inp = be64 k @ list_of hash @ list_of secret @ inp3" "inp3 = tag # inp4"
    and g: "\<not> (k < minimum \<or> highest < k \<or> k \<le> previous \<or> \<not> cov_contains received k)"
    and c: "(if tag = 0 then Inr (None, inp4)
       else if tag = 1 then rbind (in_array inp4) (\<lambda>(b, inp).
              rbind (decode_credit C s (authority_new C s hash secret) (list_of b)) (\<lambda>prior.
              reject (\<not> prior_ok received highest k prior) FState (Inr (Some b, inp))))
       else Inl FState) = Inr (cached, r)"
    and e: "e = \<lparr>re_authority = authority_new C s hash secret, re_cached = cached\<rparr>"
    unfolding rx_entry_decode_def by (auto simp: in_Inr Let_def)
  have c': "tag # inp4 = (case cached of None \<Rightarrow> [0] | Some b \<Rightarrow> [1] @ list_of b) @ r"
    using c by (auto simp: in_Inr split: if_splits)
  show "inp = rx_entry_encode (k, e) @ r" using a c' by (simp add: rx_entry_encode_def e)
  show "rx_in_range received minimum highest k" "previous < k" using g by (auto simp: rx_in_range_def)
  assume k: "k \<noteq> 0"
  have "\<exists>cov count. cov_valid cov \<and> cov_set cov \<subseteq> cov_set received \<and> unat k \<in> cov_set cov
      \<and> cov_count cov = Inr count \<and> credit_seal C s (re_authority e) count cov = Inr b" if "cached = Some b" for b
  proof -
    from c that obtain prior where d: "decode_credit C s (re_authority e) (list_of b) = Inr prior"
        and p: "prior_ok received highest k prior"
      by (auto simp: e split: if_splits)
    have v: "cov_valid prior" by (rule decode_credit_valid [OF d])
    have "cov_set prior \<subseteq> cov_set received" "cov_contains prior k" using p prior_ok_iff [OF v assms(2,3)] by simp_all
    moreover from this(2) have "unat k \<in> cov_set prior" using cov_contains_iff [of prior k] v k by (simp add: cov_valid_iff)
    ultimately show ?thesis using decode_credit_sealed [OF assms(1) d] v by auto
  qed
  then show "received_ok C s received k e" by (simp add: received_ok_def e)
qed

lemma rx_decode_Inr:
  assumes "crypto_ok C" and "cov_valid received" and "cov_highest received = Inr highest"
    and "rx_decode C s received minimum highest n previous acc inp = Inr (rx, r)"
    and "bt_ok acc" and "\<forall>p \<in> set acc. fst p \<le> previous"
  shows "\<exists>es. rx = acc @ es \<and> length es = n \<and> bt_ok rx
     \<and> (\<forall>(k, e) \<in> set es. rx_in_range received minimum highest k \<and> received_ok C s received k e)
     \<and> inp = concat (map rx_entry_encode es) @ r"
  using assms(4-6)
proof (induction n arbitrary: previous acc inp)
  case (Suc n)
  from Suc.prems(1) obtain k e inp' where e: "rx_entry_decode C s received minimum highest previous inp = Inr ((k, e), inp')"
    and d: "rx_decode C s received minimum highest n k (bt_insert k e acc) inp' = Inr (rx, r)"
    by auto
  note ent = rx_entry_decode_Inr [OF assms(1-3) e]
  have "k \<noteq> 0" using ent(3) by auto
  have ins: "bt_insert k e acc = acc @ [(k, e)]"
    using Suc.prems(3) ent(3) by (intro bt_insert_last) (auto dest: le_less_trans)
  have "bt_ok (acc @ [(k, e)])" using bt_ok_insert [OF Suc.prems(2)] ins by metis
  moreover have "\<forall>p \<in> set (acc @ [(k, e)]). fst p \<le> k" using Suc.prems(3) ent(3) by auto
  ultimately obtain es where "rx = (acc @ [(k, e)]) @ es" "length es = n" "bt_ok rx"
     "\<forall>(k, e) \<in> set es. rx_in_range received minimum highest k \<and> received_ok C s received k e"
     "inp' = concat (map rx_entry_encode es) @ r"
    using Suc.IH [OF d [unfolded ins]] by blast
  with ent \<open>k \<noteq> 0\<close> show ?case by (intro exI [of _ "(k, e) # es"]) simp
qed simp

lemma decode_header_Inr:
  assumes "decode_header inp = Inr ((version, n, w), r)"
  shows "cov_valid (w_credited w)" "cov_valid (w_received w)" "cov_hi (w_credited w) \<le> unat (w_sent w)"
    "unat (w_sent w) = unat (cov_floor (w_credited w)) + n" "n \<le> 63" "w_generation w \<noteq> 0" "w_session w \<noteq> arr_fill 0"
    "w_tx w = []" "w_rx w = []" "version = 2 \<longrightarrow> 1 < w_generation w" "version = 1 \<longrightarrow> w_generation w = 1"
    "version \<in> {1, 2, 3}"
    "inp = (if version = 3 then VOLATILE_MAGIC else if version = 1 then FLOW_MAGIC else RECOVERY_MAGIC)
         @ list_of (w_session w) @ (if 2 \<le> version then be64 (w_generation w) else [])
         @ be64 (w_sent w) @ be64 (cov_floor (w_credited w)) @ be64 (cov_mask (w_credited w))
         @ be64 (cov_floor (w_received w)) @ be64 (cov_mask (w_received w)) @ [of_nat n] @ r"
proof -
  from assms obtain m inp1 tag inp2 gen inp3 w0 sent cf cm rf rm tc h where
    a: "inp = m @ inp1" "length m = 5" "archive_version m = Inr version" "inp1 = list_of tag @ inp2"
    and g: "(if 2 \<le> version then in_u64 inp2 else Inr (1, inp2)) = Inr (gen, inp3)" "\<not> (version = 2 \<and> gen < 2)"
    and w0: "window_new_generation tag gen = Inr w0"
    and b: "inp3 = be64 sent @ be64 cf @ be64 cm @ be64 rf @ be64 rm @ tc # r"
    and v: "cov_valid \<lparr>cov_floor = cf, cov_mask = cm\<rparr>" "cov_valid \<lparr>cov_floor = rf, cov_mask = rm\<rparr>"
      "cov_highest \<lparr>cov_floor = cf, cov_mask = cm\<rparr> = Inr h" "\<not> sent < h" "checked_sub sent cf = Some (ucast tc)"
      "\<not> COUNTER_WINDOW < ucast tc"
    and n: "n = unat tc" and w: "w = w0\<lparr>w_sent := sent, w_credited := \<lparr>cov_floor = cf, cov_mask = cm\<rparr>,
        w_received := \<lparr>cov_floor = rf, cov_mask = rm\<rparr>\<rparr>"
    unfolding decode_header_def by (auto simp: in_Inr Let_def)
  have s: "w_session w = tag" "w_generation w = gen" "w_tx w = []" "w_rx w = []" "tag \<noteq> arr_fill 0" "gen \<noteq> 0"
    using w0 by (auto simp: w window_new_generation_def)
  have u: "unat (ucast tc :: u64) = n" using unat_byte_less [of tc] by (simp add: n unsigned_ucast_eq take_bit_nat_eq_self)
  show "cov_valid (w_credited w)" "cov_valid (w_received w)" "w_generation w \<noteq> 0" "w_session w \<noteq> arr_fill 0"
    "w_tx w = []" "w_rx w = []" using v s by (simp_all add: w)
  show "cov_hi (w_credited w) \<le> unat (w_sent w)"
    using v(3,4) cov_highest_eq [of "w_credited w"] v(1) by (auto simp: w cov_valid_iff word_less_nat_alt)
  have "cf \<le> sent" "sent - cf = ucast tc" using v(5) by (auto simp: checked_sub_def split: if_splits)
  with unat_minus_u64 [of cf sent] u show "unat (w_sent w) = unat (cov_floor (w_credited w)) + n"
    by (simp add: w word_le_nat_alt)
  show "n \<le> 63" using v(6) u by (simp add: word_less_nat_alt)
  show ver: "version \<in> {1, 2, 3}" using a(3) by (auto simp: archive_version_def split: if_splits)
  show "version = 2 \<longrightarrow> 1 < w_generation w" "version = 1 \<longrightarrow> w_generation w = 1"
    using g s by (auto simp: word_less_nat_alt)
  have "m = (if version = 3 then VOLATILE_MAGIC else if version = 1 then FLOW_MAGIC else RECOVERY_MAGIC)"
    using a(3) by (auto simp: archive_version_def split: if_splits)
  moreover have "inp2 = (if 2 \<le> version then be64 gen else []) @ inp3" using g(1) by (auto simp: in_Inr split: if_splits)
  ultimately show "inp = (if version = 3 then VOLATILE_MAGIC else if version = 1 then FLOW_MAGIC else RECOVERY_MAGIC)
         @ list_of (w_session w) @ (if 2 \<le> version then be64 (w_generation w) else [])
         @ be64 (w_sent w) @ be64 (cov_floor (w_credited w)) @ be64 (cov_mask (w_credited w))
         @ be64 (cov_floor (w_received w)) @ be64 (cov_mask (w_received w)) @ [of_nat n] @ r"
    using a(1,4) b s n by (simp add: w)
qed

lemma unat_minimum:
  "unat (max (saturating_sub highest (COUNTER_WINDOW - 1)) 1) = max (unat highest - 62) 1"
  by (simp add: max_def word_le_nat_alt unat_saturating_sub)

lemma rx_keys_exact:
  assumes v: "cov_valid received" and h: "cov_highest received = Inr highest" and bt: "bt_ok rx"
    and range: "\<forall>(k, e) \<in> set rx. rx_in_range received (max (saturating_sub highest (COUNTER_WINDOW - 1)) 1) highest k"
    and all: "rx_covers received (max (saturating_sub highest (COUNTER_WINDOW - 1)) 1) highest rx"
  shows "unat ` fst ` set rx = {n \<in> cov_set received. cov_hi received \<le> n + 62}"
proof (intro set_eqI iffI)
  have hi: "unat highest = cov_hi received" "\<not> bit (cov_mask received) 63" "cov_hi received < 2 ^ 64"
    using cov_highest_eq [of received] v h by (auto simp: cov_valid_iff)
  fix n
  {
    assume "n \<in> unat ` fst ` set rx"
    then obtain k e where k: "(k, e) \<in> set rx" "n = unat k" by auto
    with range have r: "max (saturating_sub highest (COUNTER_WINDOW - 1)) 1 \<le> k" "cov_contains received k"
      by (auto simp: rx_in_range_def)
    from r(1) have "max (unat highest - 62) 1 \<le> unat k" unfolding word_le_nat_alt unat_minimum .
    moreover have "k \<noteq> 0" using calculation by auto
    ultimately show "n \<in> {n \<in> cov_set received. cov_hi received \<le> n + 62}"
      using r(2) cov_contains_iff [OF hi(2)] hi(1) k(2) by auto
  next
    assume "n \<in> {n \<in> cov_set received. cov_hi received \<le> n + 62}"
    then have n: "n \<in> cov_set received" "cov_hi received \<le> n + 62" by auto
    have le: "1 \<le> n" "n \<le> cov_hi received" using cov_set_le_hi [OF n(1)] by auto
    have u: "unat (of_nat n :: u64) = n" using le(2) hi(3) by (intro unat_of_nat_u64) simp
    have "n \<in> set [max (unat highest - 62) 1..<unat highest + 1]" using n(2) le hi(1) by auto
    moreover have "0 < highest" using le hi(1) by (simp add: word_less_nat_alt)
    ultimately have "cov_contains received (of_nat n) = (map_of rx (of_nat n) \<noteq> None)"
      using all unfolding rx_covers_def unat_minimum by blast
    then have "map_of rx (of_nat n) \<noteq> None" using cov_contains_iff [OF hi(2), of "of_nat n"] u n(1) by simp
    then have "of_nat n \<in> fst ` set rx" by (simp add: map_of_eq_None_iff)
    then show "n \<in> unat ` fst ` set rx" using u by (metis image_eqI)
  }
qed

lemma decode_private_Inr:
  assumes "crypto_ok C" and "decode_private C bytes = Inr w"
  shows "window_inv C w" "archived w = w" "encode_private w = bytes"
proof -
  from assms(2) obtain version n w0 inp1 tx inp2 rxc inp3 highest rx where
    H: "decode_header bytes = Inr ((version, n, w0), inp1)"
    and T: "tx_decode C version (w_session w0) n (cov_floor (w_credited w0) + 1) [] inp1 = Inr (tx, inp2)"
    and b: "inp2 = rxc # inp3" "\<not> unat COUNTER_WINDOW < unat rxc" and h: "cov_highest (w_received w0) = Inr highest"
    and R: "rx_decode C (w_session w0) (w_received w0) (max (saturating_sub highest (COUNTER_WINDOW - 1)) 1) highest
        (unat rxc) 0 [] inp3 = Inr (rx, [])"
    and K: "rx_covers (w_received w0) (max (saturating_sub highest (COUNTER_WINDOW - 1)) 1) highest rx"
    and V: "\<not> (version = 3 \<and> \<not> has_volatile_counters (w0\<lparr>w_tx := tx\<rparr>))" and w: "w = w0\<lparr>w_tx := tx, w_rx := rx\<rparr>"
    unfolding decode_private_def by (auto simp: in_Inr Let_def simp del: COUNTER_WINDOW_eq)
  note hd = decode_header_Inr [OF H]
  have fl: "unat (cov_floor (w_credited w0) + 1) = unat (cov_floor (w_credited w0)) + 1 \<or> n = 0"
    using hd(4) unat_plus_u64 [of "cov_floor (w_credited w0)" 1] unat_less_2_64 [of "w_sent w0"] by (cases n) auto
  then have "unat (cov_floor (w_credited w0) + 1) + n \<le> 2 ^ 64"
    using hd(4) unat_less_2_64 [of "w_sent w0"] unat_less_2_64 [of "cov_floor (w_credited w0) + 1"] by auto
  from tx_decode_Inr [OF T this] have tx: "length tx = n"
     "map (unat \<circ> fst) tx = [unat (cov_floor (w_credited w0) + 1)..<unat (cov_floor (w_credited w0) + 1) + n]"
     "\<forall>(k, e) \<in> set tx. sent_ok C (w_session w0) e \<and> archived_entry e = e \<and> (se_volatile e \<longrightarrow> version = 3)"
     "inp1 = concat (map (\<lambda>(_, e). tx_entry_encode (version = 3) e) tx) @ inp2"
     "distinct (map (au_reference \<circ> se_authority \<circ> snd) tx)"
    by auto
  have keys: "map (unat \<circ> fst) tx = [unat (cov_floor (w_credited w0)) + 1..<unat (w_sent w0) + 1]"
    using tx(2) fl hd(4) by (auto simp: add.assoc)
  have rx: "length rx = unat rxc" "bt_ok rx"
     "\<forall>(k, e) \<in> set rx. rx_in_range (w_received w0) (max (saturating_sub highest (COUNTER_WINDOW - 1)) 1) highest k
        \<and> received_ok C (w_session w0) (w_received w0) k e"
     "inp3 = concat (map rx_entry_encode rx)"
    using rx_decode_Inr [OF assms(1) hd(2) h R] by auto
  have vol: "has_volatile_counters w \<longleftrightarrow> version = 3" using V tx(3) by (auto simp: has_volatile_counters_def w)
  have "tx_ok C w" using tx(3,5) keys by (auto simp: tx_ok_def w)
  moreover have "rx_ok C w"
    using rx rx_keys_exact [OF hd(2) h rx(2) _ K] by (auto simp: rx_ok_def w)
  ultimately show "window_inv C w" using hd(1-7) by (simp add: window_inv_def w)
  have "map (apsnd archived_entry) tx = tx" by (rule map_idI) (use tx(3) in auto)
  then show "archived w = w" by (simp add: archived_def w)
  have "version = 1 \<longleftrightarrow> \<not> has_volatile_counters w \<and> w_generation w0 = 1" "2 \<le> version \<longleftrightarrow> 1 < w_generation w0 \<or> version = 3"
    using hd(10-12) vol by auto
  then show "encode_private w = bytes"
    unfolding hd(13) tx(4) b(1) rx(4)
    using vol tx(1) rx(1) by (simp add: encode_private_def Let_def w)
qed

section \<open>Properties\<close>

text \<open>
  C20 (roundtrip): every window that satisfies the invariant can be archived within the archive
  bound and restored; the restored window is the archived one with exactly the repair bytes of
  volatile counters dropped, and it satisfies the invariant again.
\<close>

theorem archive_roundtrip:
  assumes "crypto_ok C" and "window_inv C w"
  shows "length (encode_private w) \<le> MAX_PRIVATE_BYTES
     \<and> decode_private C (encode_private w) = Inr (archived w) \<and> window_inv C (archived w)"
  using encode_private_length [OF assms(2)] decode_encode_private [OF assms]
    decode_private_Inr(1) [OF assms(1) decode_encode_private [OF assms]] by blast

theorem archive_roundtrip_witness:
  "decode_private toy_crypto (encode_private demo_window) = Inr demo_window"
proof -
  have "archived demo_window = demo_window"
    by (simp add: archived_def demo_window_def sent_entry_new_def archived_entry_def)
  with archive_roundtrip [OF toy_crypto_ok demo_window_inv] show ?thesis by simp
qed

text \<open>
  C17 (safety, roundtrip): whatever bytes are offered, an archive that decodes yields a window
  satisfying the full invariant, and the archive is the canonical encoding of that window.
\<close>

lemma archive_accepts_only_canonical:
  assumes "crypto_ok C" and "decode_private C bytes = Inr w"
  shows "window_inv C w \<and> encode_private w = bytes"
  using decode_private_Inr [OF assms] by blast

end
