(* ===== verification/Identity.thy ===== *)
theory Identity
  imports Ratchet_Wire Coverage
begin

text \<open>
  Identities and receiver bundles: \<open>crates/crypto/src/identity.rs\<close> (ML-DSA identity keys, the
  safety number with its base-32 encoder) and \<open>bundle.rs\<close> (the signed bundle of X25519 and ML-KEM
  receiver keys, its freshness window, codec and issuance).
\<close>

unbundle bit_operations_syntax

section \<open>Identity keys\<close>

definition IDENTITY_PK_LEN :: nat where "IDENTITY_PK_LEN = 1952"

text \<open>An \<open>IdentityKeypair\<close> is represented by its seed, from which the signing key is derived.\<close>

type_synonym identity_keypair = "32 arr"

definition public_bytes :: "('g, 'h) ratchet_ops \<Rightarrow> identity_keypair \<Rightarrow> bytes" where
  "public_bytes R kp = ro_vk R kp"

definition identity_sign :: "('g, 'h) ratchet_ops \<Rightarrow> identity_keypair \<Rightarrow> bytes \<Rightarrow> bytes" where
  "identity_sign R kp msg = ro_sign R kp msg"

definition try_generate :: "('g, 'h) ratchet_ops \<Rightarrow> 'h \<Rightarrow> (crypto_error + identity_keypair) \<times> 'h" where
  "try_generate R h =
     (case ro_entropy R h 32 of
        (None, h) \<Rightarrow> (Inl Entropy, h)
      | (Some seed, h) \<Rightarrow> (Inr (arr_pad seed), h))"

text \<open>
  The conversions of the key and the signature to their fixed-size encodings fail on any other
  length; \<open>ro_verify\<close> is the decoding of the signature and the verification.
\<close>

definition verify_signature :: "('g, 'h) ratchet_ops \<Rightarrow> bytes \<Rightarrow> bytes \<Rightarrow> bytes \<Rightarrow> bool" where
  "verify_signature R pk_bytes msg sg \<longleftrightarrow>
     length pk_bytes = IDENTITY_PK_LEN \<and> length sg = 3309 \<and> ro_verify R pk_bytes msg sg"

definition is_valid_identity_pk :: "bytes \<Rightarrow> bool" where
  "is_valid_identity_pk pk_bytes \<longleftrightarrow> length pk_bytes = IDENTITY_PK_LEN"

lemma verify_own:
  "signature_ok R \<Longrightarrow> verify_signature R (public_bytes R kp) msg (identity_sign R kp msg)"
  by (simp add: verify_signature_def public_bytes_def identity_sign_def signature_ok_def IDENTITY_PK_LEN_def)

section \<open>Base 32\<close>

definition B32_ALPHABET :: string where
  "B32_ALPHABET = ''ABCDEFGHIJKLMNOPQRSTUVWXYZ234567''"

definition b32_char :: "u32 \<Rightarrow> char" where
  "b32_char w = B32_ALPHABET ! unat (w AND 31)"

text \<open>The inner loop \<open>while bits >= 5\<close>: the characters it pushes and the bits it leaves.\<close>

fun b32_drain :: "u32 \<Rightarrow> nat \<Rightarrow> string \<times> nat" where
  "b32_drain buf bits =
     (if 5 \<le> bits
      then case b32_drain buf (bits - 5) of (out, n) \<Rightarrow> (b32_char (drop_bit (bits - 5) buf) # out, n)
      else ([], bits))"

declare b32_drain.simps [simp del]

fun b32_loop :: "bytes \<Rightarrow> u32 \<Rightarrow> nat \<Rightarrow> string" where
  "b32_loop [] buf bits = (if 0 < bits then [b32_char (push_bit (5 - bits) buf)] else [])"
| "b32_loop (b # data) buf bits =
     (let buf = push_bit 8 buf OR ucast b
      in case b32_drain buf (bits + 8) of (out, bits) \<Rightarrow> out @ b32_loop data buf bits)"

definition encode_base32 :: "bytes \<Rightarrow> string" where
  "encode_base32 data = b32_loop data 0 0"

definition safety_number_of :: "('g, 'h) ratchet_ops \<Rightarrow> bytes \<Rightarrow> string" where
  "safety_number_of R pk_bytes =
     (let base32 = encode_base32 (list_of (cr_sha256 (ro_crypto R) (lit ''gc1/id'' @ pk_bytes)));
          chars = take 40 base32;
          groups = map (\<lambda>i. sub_list chars (i * 8) (i * 8 + 8)) [0..<5]
      in concat (map (\<lambda>i. (if i = 0 then [] else '' '') @ groups ! i) [0..<5]))"

definition checked_safety_number_of :: "('g, 'h) ratchet_ops \<Rightarrow> bytes \<Rightarrow> string option" where
  "checked_safety_number_of R pk_bytes =
     (if is_valid_identity_pk pk_bytes then Some (safety_number_of R pk_bytes) else None)"

subsection \<open>Reference: groups of five bits\<close>

definition byte_bits :: "byte \<Rightarrow> bool list" where
  "byte_bits b = rev (map (bit b) [0..<8])"

definition bit_stream :: "bytes \<Rightarrow> bool list" where
  "bit_stream data = concat (map byte_bits data)"

definition group_char :: "bool list \<Rightarrow> char" where
  "group_char g = B32_ALPHABET ! horner_sum of_bool 2 (rev (take 5 (g @ replicate 5 False)))"

fun base32_groups :: "bool list \<Rightarrow> string" where
  "base32_groups [] = []"
| "base32_groups (x # xs) = group_char (x # xs) # base32_groups (drop 5 (x # xs))"

text \<open>The lowest \<open>n\<close> bits of the buffer, the highest first.\<close>

definition low_bits :: "u32 \<Rightarrow> nat \<Rightarrow> bool list" where
  "low_bits w n = rev (map (bit w) [0..<n])"

lemma length_low_bits [simp]: "length (low_bits w n) = n"
  by (simp add: low_bits_def)

lemma low_bits_split: "low_bits w (n + k) = map (bit w) (rev [n..<n + k]) @ low_bits w n"
  by (simp add: low_bits_def upt_add_eq_append [of 0 n] rev_map)

lemma group_char_low:
  assumes "5 \<le> n"
  shows "group_char (low_bits w n @ r) = b32_char (drop_bit (n - 5) w)"
proof -
  let ?k = "n - 5"
  have "take 5 (low_bits w n @ r @ replicate 5 False) = map (bit w) (rev [?k..<?k + 5])"
    using low_bits_split [of w ?k 5] assms by simp
  then have "rev (take 5 ((low_bits w n @ r) @ replicate 5 False)) = map (bit (drop_bit ?k w)) [0..<5]"
    by (simp add: rev_map bit_drop_bit_eq map_add_upt [of _ 5, symmetric] comp_def add.commute)
  moreover have "horner_sum of_bool 2 (map (bit (drop_bit ?k w)) [0..<5]) = unat (drop_bit ?k w AND 31)"
  proof -
    have "unat (drop_bit ?k w AND 31) = take_bit 5 (unat (drop_bit ?k w))"
      using take_bit_eq_mask [of 5 "drop_bit ?k w"]
      by (simp add: mask_eq_exp_minus_1 unsigned_take_bit_eq [symmetric])
    moreover have "bit (unat (drop_bit ?k w)) = bit (drop_bit ?k w)"
      by (simp add: fun_eq_iff bit_unsigned_iff)
    ultimately show ?thesis by (simp add: horner_sum_bit_eq_take_bit [symmetric])
  qed
  ultimately show ?thesis by (simp only: group_char_def b32_char_def)
qed

lemma base32_groups_step:
  "xs \<noteq> [] \<Longrightarrow> base32_groups xs = group_char xs # base32_groups (drop 5 xs)"
  by (cases xs) simp_all

lemma drop_low_bits: "5 \<le> n \<Longrightarrow> drop 5 (low_bits w n) = low_bits w (n - 5)"
  using low_bits_split [of w "n - 5" 5] by simp

lemma b32_drain_groups:
  "b32_drain w n = (out, m) \<Longrightarrow>
     m < 5 \<and> base32_groups (low_bits w n @ r) = out @ base32_groups (low_bits w m @ r)"
proof (induction w n arbitrary: out rule: b32_drain.induct)
  case (1 w n)
  show ?case
  proof (cases "5 \<le> n")
    case True
    then have ne: "low_bits w n @ r \<noteq> []" by (metis append_is_Nil_conv length_low_bits list.size(3) not_numeral_le_zero)
    from True 1(2) obtain out' where d: "b32_drain w (n - 5) = (out', m)"
      and out: "out = b32_char (drop_bit (n - 5) w) # out'"
      by (simp add: b32_drain.simps [of w n] split: prod.splits)
    from 1(1) [OF True d] show ?thesis
      using True base32_groups_step [OF ne] by (simp add: out group_char_low drop_low_bits)
  next
    case False
    with 1(2) show ?thesis by (simp add: b32_drain.simps)
  qed
qed

lemma low_bits_shift_in:
  assumes "n < 5"
  shows "low_bits (push_bit 8 w OR ucast (b :: byte)) (n + 8) = low_bits w n @ byte_bits b"
proof (rule nth_equalityI)
  fix i assume "i < length (low_bits (push_bit 8 w OR ucast b) (n + 8))"
  then have i: "i < n + 8" by simp
  have *: "bit (ucast b :: u32) j \<longleftrightarrow> bit b j" if "j < 32" for j
    using that by (simp add: bit_ucast_iff)
  have out: "\<not> bit b j" if "8 \<le> j" for j using that bit_imp_le_length [of b j] by force
  from i assms show "low_bits (push_bit 8 w OR ucast b) (n + 8) ! i = (low_bits w n @ byte_bits b) ! i"
    by (auto simp: low_bits_def byte_bits_def rev_nth nth_append bit_or_iff bit_push_bit_iff * out)
qed (simp add: byte_bits_def)

lemma low_bits_pad:
  assumes "n < 5"
  shows "low_bits (push_bit (5 - n) w) 5 = low_bits w n @ replicate (5 - n) False"
proof (rule nth_equalityI)
  fix i assume "i < length (low_bits (push_bit (5 - n) w) 5)"
  then have "i < 5" by simp
  with assms show "low_bits (push_bit (5 - n) w) 5 ! i = (low_bits w n @ replicate (5 - n) False) ! i"
    by (auto simp: low_bits_def rev_nth nth_append bit_push_bit_iff)
qed (use assms in simp)

lemma b32_loop_groups:
  "n < 5 \<Longrightarrow> b32_loop data w n = base32_groups (low_bits w n @ bit_stream data)"
proof (induction data arbitrary: w n)
  case Nil
  show ?case
  proof (cases "n = 0")
    case False
    then have ne: "low_bits w n \<noteq> []" by (metis length_low_bits list.size(3))
    have "group_char (low_bits w n) = group_char (low_bits (push_bit (5 - n) w) 5 @ [])"
      using Nil.prems by (simp add: low_bits_pad group_char_def replicate_add [symmetric] take_replicate)
    then have "group_char (low_bits w n) = b32_char (push_bit (5 - n) w)"
      using group_char_low [of 5 "push_bit (5 - n) w" "[]"] by simp
    with ne False Nil.prems show ?thesis by (simp add: bit_stream_def base32_groups_step [of "low_bits w n"])
  qed (simp add: bit_stream_def low_bits_def)
next
  case (Cons b data)
  let ?w = "push_bit 8 w OR ucast b"
  obtain out m where d: "b32_drain ?w (n + 8) = (out, m)" by fastforce
  have s: "low_bits w n @ bit_stream (b # data) = low_bits ?w (n + 8) @ bit_stream data"
    using low_bits_shift_in [OF Cons.prems, of w b] by (simp add: bit_stream_def)
  show ?case
    using b32_drain_groups [OF d, of "bit_stream data"] Cons.IH [of m ?w]
    unfolding s by (simp add: d)
qed

lemma encode_base32_groups: "encode_base32 data = base32_groups (bit_stream data)"
  using b32_loop_groups [of 0 data 0] by (simp add: encode_base32_def low_bits_def)

subsection \<open>What a safety number determines\<close>

lemma base32_groups_append:
  "length xs = 5 * k \<Longrightarrow> base32_groups (xs @ ys) = base32_groups xs @ base32_groups ys"
proof (induction k arbitrary: xs)
  case (Suc k)
  then have ne: "xs \<noteq> []" and len: "5 \<le> length xs" by auto
  have "group_char (xs @ ys) = group_char xs" using len by (simp add: group_char_def)
  with ne len Suc.IH [of "drop 5 xs"] Suc.prems show ?case
    by (simp add: base32_groups_step [of "xs @ ys"] base32_groups_step [of xs])
qed simp

lemma length_base32_groups: "length xs = 5 * k \<Longrightarrow> length (base32_groups xs) = k"
proof (induction k arbitrary: xs)
  case (Suc k)
  then have "xs \<noteq> []" by auto
  with Suc.IH [of "drop 5 xs"] Suc.prems show ?case by (simp add: base32_groups_step [of xs])
qed simp

lemma horner_bool_less: "horner_sum of_bool (2 :: nat) xs < 2 ^ length xs"
proof (induction xs)
  case (Cons x xs)
  then show ?case by (cases x) (simp_all add: horner_sum_simps)
qed simp

lemma horner_bool_inject:
  "length xs = length ys \<Longrightarrow> horner_sum of_bool (2 :: nat) xs = horner_sum of_bool 2 ys \<Longrightarrow> xs = ys"
proof (induction xs ys rule: list_induct2)
  case (Cons x xs y ys)
  have p: "x = y" using arg_cong [OF Cons.prems, of even] by (cases x; cases y) simp_all
  with Cons show ?case by simp
qed simp

lemma group_char_inject:
  assumes "length xs = 5" and "length ys = 5" and "group_char xs = group_char ys"
  shows "xs = ys"
proof -
  have "distinct B32_ALPHABET" "length B32_ALPHABET = 2 ^ 5" by (simp_all add: B32_ALPHABET_def)
  moreover have "horner_sum of_bool (2 :: nat) (rev xs) < 2 ^ 5" "horner_sum of_bool (2 :: nat) (rev ys) < 2 ^ 5"
    using horner_bool_less [of "rev xs"] horner_bool_less [of "rev ys"] assms(1,2) by simp_all
  ultimately have "horner_sum of_bool (2 :: nat) (rev xs) = horner_sum of_bool 2 (rev ys)"
    using assms by (simp add: group_char_def nth_eq_iff_index_eq)
  then have "rev xs = rev ys" using assms(1,2) by (intro horner_bool_inject) simp_all
  then show ?thesis by simp
qed

lemma group_char_take: "group_char xs = group_char (take 5 xs)" if "5 \<le> length xs"
  using that by (simp add: group_char_def)

lemma base32_groups_inject:
  "length xs = 5 * k \<Longrightarrow> length ys = 5 * k \<Longrightarrow> base32_groups xs = base32_groups ys \<Longrightarrow> xs = ys"
proof (induction k arbitrary: xs ys)
  case (Suc k)
  then have ne: "xs \<noteq> []" "ys \<noteq> []" and len: "5 \<le> length xs" "5 \<le> length ys" by auto
  with Suc.prems(3) have "group_char xs = group_char ys" "base32_groups (drop 5 xs) = base32_groups (drop 5 ys)"
    by (simp_all add: base32_groups_step [of xs] base32_groups_step [of ys])
  then have "take 5 xs = take 5 ys" "drop 5 xs = drop 5 ys"
    using group_char_inject [of "take 5 xs" "take 5 ys"] Suc.IH [of "drop 5 xs" "drop 5 ys"] len Suc.prems(1,2)
    by (simp_all add: group_char_take [of xs] group_char_take [of ys])
  then show ?case by (metis append_take_drop_id)
qed simp

lemma length_bit_stream: "length (bit_stream data) = 8 * length data"
  by (induction data) (simp_all add: bit_stream_def byte_bits_def)

lemma length_byte_bits [simp]: "length (byte_bits b) = 8"
  by (simp add: byte_bits_def)

lemma byte_bits_inject: "byte_bits a = byte_bits b \<longleftrightarrow> a = b"
proof
  assume "byte_bits a = byte_bits b"
  then have "\<forall>n<8. bit a n = bit b n" by (simp add: byte_bits_def)
  then show "a = b" by (auto intro!: bit_word_eqI)
qed simp

lemma bit_stream_inject: "length a = length b \<Longrightarrow> bit_stream a = bit_stream b \<longleftrightarrow> a = b"
  by (induction a b rule: list_induct2) (simp_all add: bit_stream_def byte_bits_inject)

abbreviation id_digest :: "('g, 'h) ratchet_ops \<Rightarrow> bytes \<Rightarrow> bytes" where
  "id_digest R pk \<equiv> list_of (cr_sha256 (ro_crypto R) (lit ''gc1/id'' @ pk))"

lemma take_encode_base32:
  "length d = 32 \<Longrightarrow> take 40 (encode_base32 d) = base32_groups (bit_stream (take 25 d))"
proof -
  assume d: "length d = 32"
  have "bit_stream d = bit_stream (take 25 d) @ bit_stream (drop 25 d)"
    by (simp add: bit_stream_def flip: concat_append map_append)
  moreover have l: "length (bit_stream (take 25 d)) = 5 * 40" using d by (simp add: length_bit_stream)
  ultimately show ?thesis
    by (simp add: encode_base32_groups base32_groups_append [OF l] length_base32_groups [OF l])
qed

lemma safety_number_groups:
  fixes R :: "('g, 'h) ratchet_ops" and pk :: bytes
  defines "c \<equiv> base32_groups (bit_stream (take 25 (id_digest R pk)))"
  shows "safety_number_of R pk =
      sub_list c 0 8 @ '' '' @ sub_list c 8 16 @ '' '' @ sub_list c 16 24 @ '' '' @ sub_list c 24 32
      @ '' '' @ sub_list c 32 40"
proof -
  have u: "[0..<5] = [0, 1, 2, 3, 4 :: nat]" by (simp add: eval_nat_numeral)
  have c: "take 40 (encode_base32 (id_digest R pk)) = c" by (simp add: c_def take_encode_base32)
  show ?thesis unfolding safety_number_of_def Let_def c u by simp
qed

lemma sub_list_8_groups:
  "length a = 40 \<Longrightarrow>
     a = sub_list a 0 8 @ sub_list a 8 16 @ sub_list a 16 24 @ sub_list a 24 32 @ sub_list a 32 40"
  by (simp add: sub_list_join sub_list_all)

lemma safety_number_inject:
  "safety_number_of R pk = safety_number_of R pk' \<longleftrightarrow> take 25 (id_digest R pk) = take 25 (id_digest R pk')"
proof
  let ?c = "\<lambda>pk. base32_groups (bit_stream (take 25 (id_digest R pk)))"
  have l: "length (bit_stream (take 25 (id_digest R pk))) = 5 * 40" for pk
    by (simp add: length_bit_stream)
  note len = length_base32_groups [OF l]
  assume "safety_number_of R pk = safety_number_of R pk'"
  then have "sub_list (?c pk) 0 8 = sub_list (?c pk') 0 8" "sub_list (?c pk) 8 16 = sub_list (?c pk') 8 16"
    "sub_list (?c pk) 16 24 = sub_list (?c pk') 16 24" "sub_list (?c pk) 24 32 = sub_list (?c pk') 24 32"
    "sub_list (?c pk) 32 40 = sub_list (?c pk') 32 40"
    by (simp_all add: safety_number_groups len)
  then have "?c pk = ?c pk'"
    using sub_list_8_groups [OF len [of pk]] sub_list_8_groups [OF len [of pk']] by simp
  then have "bit_stream (take 25 (id_digest R pk)) = bit_stream (take 25 (id_digest R pk'))"
    by (rule base32_groups_inject [OF l l])
  then show "take 25 (id_digest R pk) = take 25 (id_digest R pk')"
    by (simp add: bit_stream_inject)
qed (simp only: safety_number_groups)

section \<open>Bundles\<close>

definition MAX_BUNDLE_AGE_SECS :: u64 where "MAX_BUNDLE_AGE_SECS = 30 * 24 * 60 * 60"
definition MAX_BUNDLE_FUTURE_SKEW_SECS :: u64 where "MAX_BUNDLE_FUTURE_SKEW_SECS = 300"

record signed_bundle =
  b_ecdh_pub :: "32 arr"
  b_kem_pub :: bytes
  b_created :: u64
  b_sig :: bytes

definition saturating_add :: "'a::len word \<Rightarrow> 'a word \<Rightarrow> 'a word" where
  "saturating_add a b = (if a + b < a then - 1 else a + b)"

definition signing_payload :: "signed_bundle \<Rightarrow> bytes" where
  "signing_payload b = lit ''gc1/bundle'' @ list_of (b_ecdh_pub b) @ b_kem_pub b @ be64 (b_created b)"

definition bundle_verify :: "('g, 'h) ratchet_ops \<Rightarrow> bytes \<Rightarrow> signed_bundle \<Rightarrow> bool" where
  "bundle_verify R identity_pk b \<longleftrightarrow>
     length (b_kem_pub b) = KEM_EK_LEN \<and> verify_signature R identity_pk (signing_payload b) (b_sig b)"

definition is_fresh :: "u64 \<Rightarrow> signed_bundle \<Rightarrow> bool" where
  "is_fresh now_unix b \<longleftrightarrow>
     b_created b \<le> saturating_add now_unix MAX_BUNDLE_FUTURE_SKEW_SECS
     \<and> saturating_sub now_unix (b_created b) \<le> MAX_BUNDLE_AGE_SECS"

definition verify_fresh :: "('g, 'h) ratchet_ops \<Rightarrow> bytes \<Rightarrow> u64 \<Rightarrow> signed_bundle \<Rightarrow> bool" where
  "verify_fresh R identity_pk now_unix b \<longleftrightarrow> is_fresh now_unix b \<and> bundle_verify R identity_pk b"

definition bundle_encode :: "signed_bundle \<Rightarrow> bytes" where
  "bundle_encode b =
     list_of (b_ecdh_pub b) @ be16 (of_nat (length (b_kem_pub b))) @ b_kem_pub b
     @ be64 (b_created b) @ be16 (of_nat (length (b_sig b))) @ b_sig b"

definition bundle_decode :: "bytes \<Rightarrow> signed_bundle option" where
  "bundle_decode buf =
     (if length buf < 32 + 2 + 8 + 2 then None else
      let klen = unat (de16 (sub_list buf 32 34)) in
      if length buf < 34 + klen + 8 + 2 then None else
      let p = 34 + klen;
          slen = unat (de16 (sub_list buf (p + 8) (p + 10))) in
      if length buf < p + 10 + slen then None else
      if p + 10 + slen \<noteq> length buf then None else
      Some \<lparr>b_ecdh_pub = arr_pad (sub_list buf 0 32), b_kem_pub = sub_list buf 34 p,
            b_created = de64 (sub_list buf p (p + 8)), b_sig = sub_list buf (p + 10) (p + 10 + slen)\<rparr>)"

record local_secrets =
  ls_ecdh :: "32 arr"
  ls_kem_dk :: "64 arr"

definition from_seed_material :: "32 arr \<Rightarrow> 64 arr \<Rightarrow> local_secrets" where
  "from_seed_material ecdh_seed kem_seed = \<lparr>ls_ecdh = ecdh_seed, ls_kem_dk = kem_seed\<rparr>"

definition public_material :: "('g, 'h) ratchet_ops \<Rightarrow> local_secrets \<Rightarrow> 32 arr \<times> bytes" where
  "public_material R s = (ro_xpub R (ls_ecdh s), ro_kem_pub R (ls_kem_dk s))"

definition issue_bundle_from_material ::
  "('g, 'h) ratchet_ops \<Rightarrow> identity_keypair \<Rightarrow> 32 arr \<Rightarrow> 64 arr \<Rightarrow> u64 \<Rightarrow> signed_bundle \<times> local_secrets" where
  "issue_bundle_from_material R kp ecdh_bytes seed_bytes created =
     (let secrets = from_seed_material ecdh_bytes seed_bytes;
          unsigned = \<lparr>b_ecdh_pub = ro_xpub R (ls_ecdh secrets), b_kem_pub = ro_kem_pub R (ls_kem_dk secrets),
                      b_created = created, b_sig = []\<rparr>
      in (unsigned\<lparr>b_sig := identity_sign R kp (signing_payload unsigned)\<rparr>, secrets))"

definition issue_bundle_with_rng ::
  "('g, 'h) ratchet_ops \<Rightarrow> identity_keypair \<Rightarrow> u64 \<Rightarrow> 'h \<Rightarrow> (crypto_error + signed_bundle \<times> local_secrets) \<times> 'h" where
  "issue_bundle_with_rng R kp now_unix h =
     (case ro_entropy R h 32 of
        (None, h) \<Rightarrow> (Inl Entropy, h)
      | (Some ecdh, h) \<Rightarrow>
          (case ro_entropy R h 64 of
             (None, h) \<Rightarrow> (Inl Entropy, h)
           | (Some kem, h) \<Rightarrow> (Inr (issue_bundle_from_material R kp (arr_pad ecdh) (arr_pad kem) now_unix), h)))"

text \<open>\<open>ek_from_bytes\<close>: the fixed-size conversion, then the validity check of the package.\<close>

definition ek_from_bytes :: "('g, 'h) ratchet_ops \<Rightarrow> bytes \<Rightarrow> bytes option" where
  "ek_from_bytes R bs = (if length bs = KEM_EK_LEN \<and> ro_kem_valid R bs then Some bs else None)"

lemma ek_from_bytes_pub: "kem_ok R \<Longrightarrow> ek_from_bytes R (ro_kem_pub R d) = Some (ro_kem_pub R d)"
  by (simp add: ek_from_bytes_def kem_okD)

subsection \<open>Bundle codec\<close>

definition bundle_ok :: "signed_bundle \<Rightarrow> bool" where
  "bundle_ok b \<longleftrightarrow> length (b_kem_pub b) < 65536 \<and> length (b_sig b) < 65536"

lemma bundle_decode_encode: "bundle_ok b \<Longrightarrow> bundle_decode (bundle_encode b) = Some b"
  by (simp add: bundle_decode_def bundle_encode_def bundle_ok_def Let_def sub_list_def unat_of_nat_u16)

lemma bundle_decode_Some:
  assumes "bundle_decode w = Some b"
  shows "bundle_ok b \<and> bundle_encode b = w"
proof -
  let ?k = "unat (de16 (sub_list w 32 34))"
  let ?p = "34 + ?k"
  let ?s = "unat (de16 (sub_list w (?p + 8) (?p + 10)))"
  from assms have len: "length w = ?p + 10 + ?s"
    and b: "b = \<lparr>b_ecdh_pub = arr_pad (sub_list w 0 32), b_kem_pub = sub_list w 34 ?p,
            b_created = de64 (sub_list w ?p (?p + 8)), b_sig = sub_list w (?p + 10) (?p + 10 + ?s)\<rparr>"
    by (auto simp: bundle_decode_def Let_def split: if_splits)
  have small: "?k < 65536" "?s < 65536"
    using unsigned_less [of "de16 (sub_list w 32 34)", where 'a = nat]
      unsigned_less [of "de16 (sub_list w (?p + 8) (?p + 10))", where 'a = nat] by simp_all
  have l: "length (b_kem_pub b) = ?k" "length (b_sig b) = ?s" using len b by simp_all
  have e: "be16 (of_nat ?k) = sub_list w 32 34" "be16 (of_nat ?s) = sub_list w (?p + 8) (?p + 10)"
    using len by (simp_all add: be_de)
  have "w = sub_list w 0 32 @ sub_list w 32 34 @ sub_list w 34 ?p @ sub_list w ?p (?p + 8)
          @ sub_list w (?p + 8) (?p + 10) @ sub_list w (?p + 10) (?p + 10 + ?s)"
    using len by (simp add: sub_list_join sub_list_all)
  moreover have "list_of (b_ecdh_pub b) = sub_list w 0 32" "be64 (b_created b) = sub_list w ?p (?p + 8)"
    "b_kem_pub b = sub_list w 34 ?p" "b_sig b = sub_list w (?p + 10) (?p + 10 + ?s)"
    using len b by (simp_all add: be_de)
  ultimately have "bundle_encode b = w" unfolding bundle_encode_def l e by simp
  with small l show ?thesis by (simp add: bundle_ok_def)
qed

interpretation bundle_codec: canonical_codec bundle_encode "\<lambda>w. ok_or BundleInvalid (bundle_decode w)" bundle_ok
  by unfold_locales (auto simp: bundle_decode_encode dest: bundle_decode_Some)

lemma unat_saturating_add:
  "unat (saturating_add a b) = min (unat a + unat b) (2 ^ LENGTH('a) - 1)" for a b :: "'a::len word"
proof (cases "unat a + unat b < 2 ^ LENGTH('a)")
  case True
  then have "unat (a + b) = unat a + unat b" by (simp add: unat_word_ariths)
  with True show ?thesis by (simp add: saturating_add_def word_less_nat_alt)
next
  case False
  moreover have "unat b < 2 ^ LENGTH('a)" using unsigned_less [of b, where 'a = nat] by simp
  ultimately have "a + b < a" by (simp add: word_less_nat_alt not_less unat_plus_if' less_diff_conv2)
  with False show ?thesis by (simp add: saturating_add_def unsigned_minus_1_eq_mask mask_eq_exp_minus_1 not_less)
qed

lemma is_fresh_iff:
  "is_fresh now b \<longleftrightarrow>
     unat (b_created b) \<le> unat now + 300 \<and> unat now \<le> unat (b_created b) + 30 * 24 * 60 * 60"
  using unsigned_less [of "b_created b", where 'a = nat]
  by (auto simp: is_fresh_def word_le_nat_alt unat_saturating_add unat_saturating_sub
      MAX_BUNDLE_FUTURE_SKEW_SECS_def MAX_BUNDLE_AGE_SECS_def)

section \<open>Properties\<close>

text \<open>
  C39 (equivalence): the streaming base-32 encoder of \<open>identity.rs\<close>, which shifts bytes through a
  32-bit buffer that overflows on long inputs, computes the reference encoding: the input's bits
  in groups of five, the last group padded with zeros, each group a character of the alphabet.
\<close>

theorem encode_base32_correct: "encode_base32 data = base32_groups (bit_stream data)"
  by (rule encode_base32_groups)

text \<open>
  A safety number always has 44 characters, and it shows exactly the first 25
  bytes of the digest of the identity key: two keys have the same safety number if and only if
  their digests agree on those 200 bits.
\<close>

lemma safety_number_binds_digest:
  "length (safety_number_of R pk) = 44
   \<and> (safety_number_of R pk = safety_number_of R pk' \<longleftrightarrow> take 25 (id_digest R pk) = take 25 (id_digest R pk'))"
proof -
  have "length (base32_groups (bit_stream (take 25 (id_digest R pk)))) = 40"
    by (rule length_base32_groups) (simp add: length_bit_stream)
  then have "length (safety_number_of R pk) = 44" by (simp add: safety_number_groups)
  then show ?thesis using safety_number_inject by blast
qed

text \<open>
  The freshness test of a bundle, written with saturating 64-bit arithmetic, is the
  window [created - 5 minutes, created + 30 days] over the unbounded integers, at every clock value.
\<close>

lemma is_fresh_window:
  "is_fresh now b \<longleftrightarrow>
     unat (b_created b) \<le> unat now + 300 \<and> unat now \<le> unat (b_created b) + 30 * 24 * 60 * 60"
  by (rule is_fresh_iff)

text \<open>
  A bundle issued from drawn material carries the public keys of the secrets that
  are kept, decodes from its encoding, and passes the signature and freshness check of its issuer's
  identity at its creation time.
\<close>

lemma issued_bundle_verifies:
  assumes "ratchet_ok R" and "issue_bundle_with_rng R kp now h = (Inr (b, secrets), h')"
  shows "public_material R secrets = (b_ecdh_pub b, b_kem_pub b)
     \<and> bundle_decode (bundle_encode b) = Some b
     \<and> verify_fresh R (public_bytes R kp) now b"
proof -
  from assms(2) obtain ecdh kem where
    b: "issue_bundle_from_material R kp ecdh kem now = (b, secrets)"
    by (auto simp: issue_bundle_with_rng_def split: prod.splits option.splits)
  note ok = ratchet_okD(4,5) [OF assms(1)]
  have "is_fresh now b" using b by (auto simp: is_fresh_iff issue_bundle_from_material_def Let_def)
  moreover have "bundle_ok b"
    using b ok by (auto simp: bundle_ok_def issue_bundle_from_material_def Let_def from_seed_material_def
        kem_okD KEM_EK_LEN_def identity_sign_def signature_ok_def)
  moreover have "bundle_verify R (public_bytes R kp) b"
    using b verify_own [OF ok(2)] kem_okD(1) [OF ok(1)]
    by (auto simp: bundle_verify_def issue_bundle_from_material_def Let_def signing_payload_def)
  ultimately show ?thesis
    using b by (auto simp: bundle_decode_encode verify_fresh_def public_material_def
        issue_bundle_from_material_def Let_def)
qed

end
