(* ===== verification/Ratchet.thy ===== *)
theory Ratchet
  imports Identity
begin

text \<open>
  The hybrid double ratchet of \<open>crates/crypto/src/session.rs\<close>: the session state, sending with
  epoch rotation and post-quantum refresh, receiving with retained keys for skipped frames, and
  the authenticated handshake. Operations thread the session explicitly; \<open>send_at\<close> and
  \<open>receive_at\<close> return the state the code leaves also when they fail. Monotonic time is an integer
  number of nanoseconds.
\<close>

section \<open>Time and randomness\<close>

type_synonym session_time = int
type_synonym duration = int

definition from_secs :: "int \<Rightarrow> duration" where "from_secs n = n * 1000000000"
definition as_secs :: "duration \<Rightarrow> int" where "as_secs d = d div 1000000000"

definition elapsed :: "session_time \<Rightarrow> session_time \<Rightarrow> duration" where
  "elapsed now thn = (if thn \<le> now then now - thn else 0)"

definition rand32 :: "('g, 'h) ratchet_ops \<Rightarrow> 'g \<Rightarrow> 32 arr \<times> 'g" where
  "rand32 R rng = (case ro_fill R rng 32 of (b, rng) \<Rightarrow> (arr_pad b, rng))"

text \<open>\<open>StdRng::from_rng\<close> draws a seed from the entropy source.\<close>

definition std_from_rng :: "('g, 'h) ratchet_ops \<Rightarrow> 'h \<Rightarrow> (crypto_error + 'g) \<times> 'h" where
  "std_from_rng R h =
     (case ro_entropy R h 32 of
        (None, h) \<Rightarrow> (Inl Entropy, h)
      | (Some seed, h) \<Rightarrow> (Inr (ro_seeded R (arr_pad seed)), h))"

definition encaps_from_message :: "('g, 'h) ratchet_ops \<Rightarrow> bytes \<Rightarrow> 32 arr \<Rightarrow> bytes \<times> bytes" where
  "encaps_from_message R ek m = ro_encaps R ek m"

definition encaps_deterministic :: "('g, 'h) ratchet_ops \<Rightarrow> bytes \<Rightarrow> 'g \<Rightarrow> (bytes \<times> bytes) \<times> 'g" where
  "encaps_deterministic R ek rng =
     (case rand32 R rng of (m, rng) \<Rightarrow> (encaps_from_message R ek m, rng))"

section \<open>Constants\<close>

definition SKIP_KEY_TTL_NS :: duration where "SKIP_KEY_TTL_NS = from_secs (24 * 60 * 60)"
definition OLD_KP_CAP :: nat where "OLD_KP_CAP = 8"
definition DEFAULT_PQ_EVERY_MSGS :: u32 where "DEFAULT_PQ_EVERY_MSGS = 32"
definition DEFAULT_PQ_AFTER :: duration where "DEFAULT_PQ_AFTER = from_secs (30 * 60)"

section \<open>Key schedule\<close>

definition hkdf32 :: "('g, 'h) ratchet_ops \<Rightarrow> bytes \<Rightarrow> bytes \<Rightarrow> bytes \<Rightarrow> 32 arr" where
  "hkdf32 R salt ikm info = arr_pad (cr_hkdf (ro_crypto R) salt ikm info 32)"

definition mix :: "('g, 'h) ratchet_ops \<Rightarrow> 32 arr \<Rightarrow> bytes \<Rightarrow> 32 arr" where
  "mix R chain secret = hkdf32 R (list_of chain) secret (lit ''gc1/mix'')"

definition dir_key :: "('g, 'h) ratchet_ops \<Rightarrow> 32 arr \<Rightarrow> bytes \<Rightarrow> 32 arr" where
  "dir_key R root label = hkdf32 R (list_of root) label (lit ''gc1/dir'')"

definition chain_step :: "('g, 'h) ratchet_ops \<Rightarrow> 32 arr \<Rightarrow> u64 \<Rightarrow> 32 arr \<times> 32 arr \<times> 12 arr" where
  "chain_step R chain ctr =
     (let okm = cr_hkdf (ro_crypto R) (list_of chain) (be64 ctr) (lit ''gc1/step'') 76
      in (arr_pad (sub_list okm 0 32), arr_pad (sub_list okm 32 64), arr_pad (sub_list okm 64 76)))"

definition seal :: "('g, 'h) ratchet_ops \<Rightarrow> 32 arr \<Rightarrow> 12 arr \<Rightarrow> bytes \<Rightarrow> bytes \<Rightarrow> bytes option" where
  "seal R key nonce plaintext aad =
     ro_seal128 R (arr_pad (take 16 (list_of key))) (list_of nonce) aad plaintext"

definition open_ct :: "('g, 'h) ratchet_ops \<Rightarrow> 32 arr \<Rightarrow> 12 arr \<Rightarrow> bytes \<Rightarrow> bytes \<Rightarrow> bytes option" where
  "open_ct R key nonce ct aad =
     ro_open128 R (arr_pad (take 16 (list_of key))) (list_of nonce) aad ct"

section \<open>Session\<close>

record skipped_key =
  sk_ctr :: u64
  sk_mk :: "32 arr"
  sk_nonce :: "12 arr"
  sk_stored_at :: session_time

record 'g session =
  s_send_chain :: "32 arr"
  s_recv_chain :: "32 arr"
  s_send_ctr :: u64
  s_recv_ctr :: u64
  s_my_kp :: "32 arr"
  s_old_kps :: "(32 arr \<times> 32 arr) list"
  s_peer_pub :: "32 arr option"
  s_skipped :: "skipped_key list"
  s_send_rotated_at :: u64
  s_mixed_peer :: "32 arr option"
  s_epoch_pq_ct :: "bytes option"
  s_peer_kem :: "bytes option"
  s_kem_dk :: "64 arr option"
  s_sent_since_pq :: u32
  s_pq_every :: u32
  s_pq_after :: duration
  s_last_pq :: session_time
  s_rng :: 'g

definition set_pq_policy :: "u32 \<Rightarrow> duration \<Rightarrow> 'g session \<Rightarrow> 'g session" where
  "set_pq_policy every_msgs after s = s\<lparr>s_pq_every := max every_msgs 1, s_pq_after := after\<rparr>"

definition provide_peer_kem ::
  "('g, 'h) ratchet_ops \<Rightarrow> bytes \<Rightarrow> 'g session \<Rightarrow> crypto_error + 'g session" where
  "provide_peer_kem R kem_pub s =
     reject (length kem_pub \<noteq> KEM_EK_LEN \<or> ek_from_bytes R kem_pub = None) BadKemKey
       (Inr (s\<lparr>s_peer_kem := Some kem_pub\<rparr>))"

definition provide_local_kem :: "64 arr \<Rightarrow> 'g session \<Rightarrow> 'g session" where
  "provide_local_kem dk s = s\<lparr>s_kem_dk := Some dk\<rparr>"

definition my_pub :: "('g, 'h) ratchet_ops \<Rightarrow> 'g session \<Rightarrow> 32 arr" where
  "my_pub R s = ro_xpub R (s_my_kp s)"

text \<open>\<open>while len > cap { pop_front }\<close> keeps the last \<open>cap\<close> entries.\<close>

definition keep_last :: "nat \<Rightarrow> 'a list \<Rightarrow> 'a list" where
  "keep_last cap xs = drop (length xs - cap) xs"

definition rotate_self_key :: "('g, 'h) ratchet_ops \<Rightarrow> 32 arr \<Rightarrow> 'g session \<Rightarrow> 'g session" where
  "rotate_self_key R new_sk s =
     s\<lparr>s_old_kps := keep_last OLD_KP_CAP (s_old_kps s @ [(my_pub R s, s_my_kp s)]), s_my_kp := new_sk\<rparr>"

definition find_keypair :: "('g, 'h) ratchet_ops \<Rightarrow> 32 arr \<Rightarrow> 'g session \<Rightarrow> 32 arr option" where
  "find_keypair R pub_bytes s =
     (if my_pub R s = pub_bytes then Some (s_my_kp s)
      else map_option snd (find (\<lambda>(p, _). p = pub_bytes) (s_old_kps s)))"

definition prune_skipped :: "session_time \<Rightarrow> 'g session \<Rightarrow> 'g session" where
  "prune_skipped now s =
     s\<lparr>s_skipped := keep_last MAX_SKIP (filter (\<lambda>k. elapsed now (sk_stored_at k) < SKIP_KEY_TTL_NS) (s_skipped s))\<rparr>"

section \<open>Sending\<close>

text \<open>
  The rotation block of \<open>send_at\<close>. A malformed peer key makes it return with the self key already
  rotated and the mixed peer recorded.
\<close>

definition begin_epoch ::
  "('g, 'h) ratchet_ops \<Rightarrow> session_time \<Rightarrow> u64 \<Rightarrow> 32 arr \<Rightarrow> 'g session \<Rightarrow> 'g session \<times> (crypto_error + 32 arr)" where
  "begin_epoch R now ctr peer s =
     (case rand32 R (s_rng s) of (new_sk, rng) \<Rightarrow>
      let chain = mix R (s_send_chain s) (list_of (ro_dh R new_sk peer));
          s = (rotate_self_key R new_sk (s\<lparr>s_rng := rng\<rparr>))\<lparr>s_mixed_peer := Some peer, s_epoch_pq_ct := None\<rparr>;
          pq_due = s_pq_every s \<le> s_sent_since_pq s \<or> s_pq_after s \<le> elapsed now (s_last_pq s)
      in case (if pq_due then s_peer_kem s else None) of
           None \<Rightarrow> (s\<lparr>s_send_rotated_at := ctr\<rparr>, Inr chain)
         | Some ekb \<Rightarrow>
             (case ek_from_bytes R ekb of
                None \<Rightarrow> (s, Inl BadKemKey)
              | Some ek \<Rightarrow>
                  (case encaps_deterministic R ek (s_rng s) of ((ct, ss), rng) \<Rightarrow>
                   (s\<lparr>s_rng := rng, s_epoch_pq_ct := Some ct, s_sent_since_pq := 0, s_last_pq := now,
                      s_send_rotated_at := ctr\<rparr>, Inr (mix R chain ss)))))"

definition send_at ::
  "('g, 'h) ratchet_ops \<Rightarrow> bytes \<Rightarrow> session_time \<Rightarrow> 'g session \<Rightarrow> 'g session \<times> (crypto_error + frame)" where
  "send_at R payload now s =
     (let ctr = s_send_ctr s + 1;
          rotate = (case s_peer_pub s of Some peer \<Rightarrow> Some peer \<noteq> s_mixed_peer s | None \<Rightarrow> False)
      in case (if rotate then begin_epoch R now ctr (the (s_peer_pub s)) s else (s, Inr (s_send_chain s))) of
           (s, Inl e) \<Rightarrow> (s, Inl e)
         | (s, Inr chain) \<Rightarrow>
             let pn = saturating_sub (s_send_rotated_at s) 1;
                 f = \<lparr>f_ctr = ctr, f_pn = pn, f_sender_pub = my_pub R s, f_mixed_with = s_mixed_peer s,
                      f_pq_ct = s_epoch_pq_ct s, f_ct = []\<rparr>
             in case chain_step R chain ctr of (nxt, mk, nonce) \<Rightarrow>
                case rbind (header_bytes f) (\<lambda>hdr. ok_or Encrypt (seal R mk nonce payload hdr)) of
                  Inl e \<Rightarrow> (s, Inl e)
                | Inr ct \<Rightarrow>
                    (s\<lparr>s_send_chain := nxt, s_send_ctr := ctr,
                       s_sent_since_pq := saturating_add (s_sent_since_pq s) 1\<rparr>, Inr (f\<lparr>f_ct := ct\<rparr>)))"

section \<open>Receiving\<close>

text \<open>The two loops that derive and retain the keys of skipped frames.\<close>

fun skip_keys ::
  "('g, 'h) ratchet_ops \<Rightarrow> session_time \<Rightarrow> nat \<Rightarrow> u64 \<Rightarrow> 32 arr \<Rightarrow> skipped_key list \<times> u64 \<times> 32 arr" where
  "skip_keys R now 0 ctr chain = ([], ctr, chain)"
| "skip_keys R now (Suc n) ctr chain =
     (case chain_step R chain ctr of (nxt, mk, nonce) \<Rightarrow>
      case skip_keys R now n (ctr + 1) nxt of (ks, c, ch) \<Rightarrow>
      (\<lparr>sk_ctr = ctr, sk_mk = mk, sk_nonce = nonce, sk_stored_at = now\<rparr> # ks, c, ch))"

text \<open>
  How many frames were skipped under the chain as it is held and under the chain the frame
  announces, the mixing of a new epoch's secrets into the chain, and everything \<open>receive_at\<close>
  computes for a frame above the counter before it changes the state.
\<close>

definition before_rotation :: "frame \<Rightarrow> 'g session \<Rightarrow> u64" where
  "before_rotation f s =
     (if Some (f_sender_pub f) \<noteq> s_peer_pub s then saturating_sub (f_pn f) (s_recv_ctr s)
      else f_ctr f - 1 - s_recv_ctr s)"

definition after_rotation :: "frame \<Rightarrow> 'g session \<Rightarrow> u64" where
  "after_rotation f s =
     (if Some (f_sender_pub f) \<noteq> s_peer_pub s then f_ctr f - 1 - max (f_pn f) (s_recv_ctr s) else 0)"

definition total_gap :: "frame \<Rightarrow> 'g session \<Rightarrow> nat" where
  "total_gap f s = unat (saturating_add (before_rotation f s) (after_rotation f s))"

definition mix_epoch ::
  "('g, 'h) ratchet_ops \<Rightarrow> frame \<Rightarrow> 'g session \<Rightarrow> 32 arr \<Rightarrow> crypto_error + (32 arr \<times> 32 arr option)" where
  "mix_epoch R f s chain =
     (if Some (f_sender_pub f) \<noteq> s_peer_pub s
      then rbind (ok_or UnknownMixKey (f_mixed_with f)) (\<lambda>target.
           rbind (ok_or UnknownMixKey (find_keypair R target s)) (\<lambda>sk.
           let chain = mix R chain (list_of (ro_dh R sk (f_sender_pub f))) in
           rbind (case f_pq_ct f of
                    None \<Rightarrow> Inr chain
                  | Some ct \<Rightarrow>
                      rbind (ok_or NoPqKey (s_kem_dk s)) (\<lambda>dk.
                      rbind (ok_or BadKemCiphertext (ro_decaps R dk ct)) (\<lambda>ss.
                      Inr (mix R chain ss)))) (\<lambda>chain.
           Inr (chain, Some (f_sender_pub f)))))
      else Inr (chain, s_peer_pub s))"

definition receive_advance ::
  "('g, 'h) ratchet_ops \<Rightarrow> frame \<Rightarrow> session_time \<Rightarrow> 'g session
   \<Rightarrow> crypto_error + (32 arr \<times> 32 arr option \<times> skipped_key list \<times> bytes)" where
  "receive_advance R f now s =
     reject (f_ctr f \<le> f_pn f) Decrypt (
     reject (MAX_SKIP < total_gap f s \<or> MAX_SKIP < length (s_skipped s) + total_gap f s) Gap (
     case skip_keys R now (unat (before_rotation f s)) (s_recv_ctr s + 1) (s_recv_chain s) of (ks1, c1, chain) \<Rightarrow>
     rbind (mix_epoch R f s chain) (\<lambda>(chain, peer_pub).
     case skip_keys R now (unat (after_rotation f s)) c1 chain of (ks2, c2, chain) \<Rightarrow>
     case chain_step R chain (f_ctr f) of (nxt, mk, nonce) \<Rightarrow>
     rbind (header_bytes f) (\<lambda>hdr.
     rbind (ok_or Decrypt (open_ct R mk nonce (f_ct f) hdr)) (\<lambda>payload.
     Inr (nxt, peer_pub, ks1 @ ks2, payload))))))"

definition receive_skipped ::
  "('g, 'h) ratchet_ops \<Rightarrow> frame \<Rightarrow> 'g session \<Rightarrow> 'g session \<times> (crypto_error + bytes)" where
  "receive_skipped R f s =
     (case position (\<lambda>k. sk_ctr k = f_ctr f) (s_skipped s) of
        None \<Rightarrow> (s, Inl Replay)
      | Some i \<Rightarrow>
          let key = s_skipped s ! i in
          case rbind (header_bytes f) (\<lambda>hdr. ok_or Decrypt (open_ct R (sk_mk key) (sk_nonce key) (f_ct f) hdr)) of
            Inl e \<Rightarrow> (s, Inl e)
          | Inr payload \<Rightarrow> (s\<lparr>s_skipped := remove_nth i (s_skipped s)\<rparr>, Inr payload))"

definition receive_at ::
  "('g, 'h) ratchet_ops \<Rightarrow> frame \<Rightarrow> session_time \<Rightarrow> 'g session \<Rightarrow> 'g session \<times> (crypto_error + bytes)" where
  "receive_at R f now s =
     (let s = prune_skipped now s in
      if f_ctr f \<le> s_recv_ctr s then receive_skipped R f s
      else case receive_advance R f now s of
             Inl e \<Rightarrow> (s, Inl e)
           | Inr (nxt, peer_pub, newly_skipped, payload) \<Rightarrow>
               (prune_skipped now (s\<lparr>s_recv_chain := nxt, s_recv_ctr := f_ctr f, s_peer_pub := peer_pub,
                  s_skipped := s_skipped s @ newly_skipped\<rparr>), Inr payload))"

section \<open>Handshake\<close>

record initiator_material =
  im_eph :: "32 arr"
  im_kem_message :: "32 arr"
  im_nonce :: "12 arr"
  im_ratchet :: "32 arr"

definition draw_initiator_material :: "('g, 'h) ratchet_ops \<Rightarrow> 'g \<Rightarrow> initiator_material \<times> 'g" where
  "draw_initiator_material R rng =
     (case rand32 R rng of (eph, rng) \<Rightarrow>
      case rand32 R rng of (kem_message, rng) \<Rightarrow>
      case ro_fill R rng 12 of (nonce, rng) \<Rightarrow>
      case rand32 R rng of (ratchet, rng) \<Rightarrow>
      (\<lparr>im_eph = eph, im_kem_message = kem_message, im_nonce = arr_pad nonce, im_ratchet = ratchet\<rparr>, rng))"

definition handshake_root :: "('g, 'h) ratchet_ops \<Rightarrow> 32 arr \<Rightarrow> 12 arr \<Rightarrow> 32 arr \<Rightarrow> bytes \<Rightarrow> 32 arr" where
  "handshake_root R eph_pub nonce es pq_ss =
     hkdf32 R (list_of eph_pub @ list_of nonce) (list_of es @ pq_ss) (lit ''gc1/handshake'')"

definition initiate_core ::
  "('g, 'h) ratchet_ops \<Rightarrow> bytes \<Rightarrow> signed_bundle \<Rightarrow> initiator_material \<Rightarrow> 'g \<Rightarrow> session_time
   \<Rightarrow> (32 arr \<Rightarrow> bytes \<Rightarrow> 12 arr \<Rightarrow> bytes) \<Rightarrow> crypto_error + (first_move \<times> 'g session)" where
  "initiate_core R peer_identity_pk b material rng now build_payload =
     reject (\<not> bundle_verify R peer_identity_pk b) BundleInvalid (
     rbind (ok_or BadKemKey (ek_from_bytes R (b_kem_pub b))) (\<lambda>ek.
     let es = ro_dh R (im_eph material) (b_ecdh_pub b);
         (kem_ct, pq_ss) = encaps_from_message R ek (im_kem_message material);
         nonce = im_nonce material;
         eph_pub = ro_xpub R (im_eph material);
         root = handshake_root R eph_pub nonce es pq_ss;
         a2b = dir_key R root (lit ''a2b'');
         b2a = dir_key R root (lit ''b2a'');
         my_kp = im_ratchet material;
         plaintext0 = list_of (ro_xpub R my_kp) @ build_payload eph_pub kem_ct nonce;
         (next_chain, mk, mk_nonce) = chain_step R a2b 1;
         fm = \<lparr>fm_eph_pub = eph_pub, fm_kem_ct = kem_ct, fm_nonce = nonce, fm_ct = []\<rparr>
     in rbind (first_move_header fm) (\<lambda>hdr.
        rbind (ok_or Encrypt (seal R mk mk_nonce plaintext0 hdr)) (\<lambda>ct.
        Inr (fm\<lparr>fm_ct := ct\<rparr>,
             \<lparr>s_send_chain = next_chain, s_recv_chain = b2a, s_send_ctr = 1, s_recv_ctr = 0,
              s_my_kp = my_kp, s_old_kps = [], s_peer_pub = None, s_skipped = [], s_send_rotated_at = 1,
              s_mixed_peer = None, s_epoch_pq_ct = None, s_peer_kem = Some (b_kem_pub b), s_kem_dk = None,
              s_sent_since_pq = 1, s_pq_every = DEFAULT_PQ_EVERY_MSGS, s_pq_after = DEFAULT_PQ_AFTER,
              s_last_pq = now, s_rng = rng\<rparr>)))))"

definition first_move_auth_transcript ::
  "('g, 'h) ratchet_ops \<Rightarrow> 32 arr \<Rightarrow> bytes \<Rightarrow> 12 arr \<Rightarrow> bytes \<Rightarrow> signed_bundle \<Rightarrow> bytes \<Rightarrow> bytes" where
  "first_move_auth_transcript R eph_pub kem_ct nonce responder_identity_pk responder_bundle payload =
     lit ''gc1/first-move-auth/v1'' @ responder_identity_pk
     @ list_of (cr_sha256 (ro_crypto R) (bundle_encode responder_bundle)) @ list_of eph_pub
     @ list_of (cr_sha256 (ro_crypto R) kem_ct) @ list_of nonce @ list_of (cr_sha256 (ro_crypto R) payload)"

definition initiate_authenticated_from_material_at ::
  "('g, 'h) ratchet_ops \<Rightarrow> identity_keypair \<Rightarrow> bytes \<Rightarrow> signed_bundle \<Rightarrow> bytes \<Rightarrow> initiator_material \<Rightarrow> 'g
   \<Rightarrow> session_time \<Rightarrow> crypto_error + (first_move \<times> 'g session)" where
  "initiate_authenticated_from_material_at R identity peer_identity_pk b payload0 material rng now =
     initiate_core R peer_identity_pk b material rng now (\<lambda>eph_pub kem_ct nonce.
       let transcript = first_move_auth_transcript R eph_pub kem_ct nonce peer_identity_pk b payload0
       in frame_authenticated_payload payload0 (identity_sign R identity transcript))"

definition initiate_from_material ::
  "('g, 'h) ratchet_ops \<Rightarrow> bytes \<Rightarrow> signed_bundle \<Rightarrow> bytes \<Rightarrow> initiator_material \<Rightarrow> 'g
   \<Rightarrow> session_time \<Rightarrow> crypto_error + (first_move \<times> 'g session)" where
  "initiate_from_material R peer_identity_pk b payload0 material rng now =
     initiate_core R peer_identity_pk b material rng now (\<lambda>_ _ _. payload0)"

definition initiate_authenticated_with_rng_at ::
  "('g, 'h) ratchet_ops \<Rightarrow> identity_keypair \<Rightarrow> bytes \<Rightarrow> signed_bundle \<Rightarrow> bytes \<Rightarrow> 'h \<Rightarrow> session_time
   \<Rightarrow> (crypto_error + (first_move \<times> 'g session)) \<times> 'h" where
  "initiate_authenticated_with_rng_at R identity peer_identity_pk b payload0 h now =
     (case std_from_rng R h of
        (Inl e, h) \<Rightarrow> (Inl e, h)
      | (Inr rng, h) \<Rightarrow>
          (case draw_initiator_material R rng of (material, rng) \<Rightarrow>
           (initiate_authenticated_from_material_at R identity peer_identity_pk b payload0 material rng now, h)))"

definition verify_first_move_auth ::
  "('g, 'h) ratchet_ops \<Rightarrow> first_move \<Rightarrow> bytes \<Rightarrow> bytes \<Rightarrow> signed_bundle \<Rightarrow> bytes \<Rightarrow> bytes \<Rightarrow> bool" where
  "verify_first_move_auth R fm initiator_identity_pk responder_identity_pk responder_bundle payload signature =
     verify_signature R initiator_identity_pk
       (first_move_auth_transcript R (fm_eph_pub fm) (fm_kem_ct fm) (fm_nonce fm) responder_identity_pk
          responder_bundle payload) signature"

definition accept_from_material_at ::
  "('g, 'h) ratchet_ops \<Rightarrow> local_secrets \<Rightarrow> first_move \<Rightarrow> 32 arr \<Rightarrow> 'g \<Rightarrow> session_time
   \<Rightarrow> crypto_error + (bytes \<times> 'g session)" where
  "accept_from_material_at R secrets fm ratchet rng now =
     (let es = ro_dh R (ls_ecdh secrets) (fm_eph_pub fm) in
      rbind (ok_or BadKemCiphertext (ro_decaps R (ls_kem_dk secrets) (fm_kem_ct fm))) (\<lambda>pq_ss.
      let root = handshake_root R (fm_eph_pub fm) (fm_nonce fm) es pq_ss;
          a2b = dir_key R root (lit ''a2b'');
          b2a = dir_key R root (lit ''b2a'');
          (next_chain, mk, mk_nonce) = chain_step R a2b 1
      in rbind (first_move_header fm) (\<lambda>hdr.
         rbind (ok_or Decrypt (open_ct R mk mk_nonce (fm_ct fm) hdr)) (\<lambda>plaintext0.
         reject (length plaintext0 < 32) Decrypt (
         Inr (drop 32 plaintext0,
              \<lparr>s_send_chain = b2a, s_recv_chain = next_chain, s_send_ctr = 0, s_recv_ctr = 1,
               s_my_kp = ratchet, s_old_kps = [], s_peer_pub = Some (arr_pad (sub_list plaintext0 0 32)),
               s_skipped = [], s_send_rotated_at = 0, s_mixed_peer = None, s_epoch_pq_ct = None,
               s_peer_kem = None, s_kem_dk = Some (ls_kem_dk secrets), s_sent_since_pq = 1,
               s_pq_every = DEFAULT_PQ_EVERY_MSGS, s_pq_after = DEFAULT_PQ_AFTER, s_last_pq = now,
               s_rng = rng\<rparr>))))))"

definition accept_with_rng_at ::
  "('g, 'h) ratchet_ops \<Rightarrow> local_secrets \<Rightarrow> first_move \<Rightarrow> 'h \<Rightarrow> session_time
   \<Rightarrow> (crypto_error + (bytes \<times> 'g session)) \<times> 'h" where
  "accept_with_rng_at R secrets fm h now =
     (case std_from_rng R h of
        (Inl e, h) \<Rightarrow> (Inl e, h)
      | (Inr rng, h) \<Rightarrow>
          (case rand32 R rng of (ratchet, rng) \<Rightarrow>
           (accept_from_material_at R secrets fm ratchet rng now, h)))"

end
