(* ===== verification/Ratchet_Safety.thy ===== *)
theory Ratchet_Safety
  imports Ratchet
begin

text \<open>
  Safety of one ratchet session against arbitrary frames: the invariant of the session, that every
  operation keeps it whatever bytes the network delivers, that a refused frame changes nothing but
  expired keys, and that no counter is ever accepted twice. Nothing is assumed of the cryptographic
  primitives here.
\<close>

section \<open>Invariant\<close>

definition session_inv :: "('g, 'h) ratchet_ops \<Rightarrow> 'g session \<Rightarrow> bool" where
  "session_inv R s \<longleftrightarrow>
     length (s_skipped s) \<le> MAX_SKIP
     \<and> distinct (map sk_ctr (s_skipped s))
     \<and> (\<forall>k \<in> set (s_skipped s). sk_ctr k \<le> s_recv_ctr s)
     \<and> length (s_old_kps s) \<le> OLD_KP_CAP
     \<and> 0 < s_pq_every s
     \<and> (\<forall>k. s_peer_kem s = Some k \<longrightarrow> ek_from_bytes R k = Some k)"

lemma length_keep_last [simp]: "length (keep_last n xs) = min n (length xs)"
  by (simp add: keep_last_def)

lemma keep_last_id [simp]: "length xs \<le> n \<Longrightarrow> keep_last n xs = xs"
  by (simp add: keep_last_def)

lemma set_keep_last: "set (keep_last n xs) \<subseteq> set xs"
  by (simp add: keep_last_def set_drop_subset)

lemma prune_skipped_sel [simp]:
  "s_send_chain (prune_skipped now s) = s_send_chain s" "s_recv_chain (prune_skipped now s) = s_recv_chain s"
  "s_send_ctr (prune_skipped now s) = s_send_ctr s" "s_recv_ctr (prune_skipped now s) = s_recv_ctr s"
  "s_my_kp (prune_skipped now s) = s_my_kp s" "s_old_kps (prune_skipped now s) = s_old_kps s"
  "s_peer_pub (prune_skipped now s) = s_peer_pub s" "s_send_rotated_at (prune_skipped now s) = s_send_rotated_at s"
  "s_mixed_peer (prune_skipped now s) = s_mixed_peer s" "s_epoch_pq_ct (prune_skipped now s) = s_epoch_pq_ct s"
  "s_peer_kem (prune_skipped now s) = s_peer_kem s" "s_kem_dk (prune_skipped now s) = s_kem_dk s"
  "s_pq_every (prune_skipped now s) = s_pq_every s" "s_rng (prune_skipped now s) = s_rng s"
  by (simp_all add: prune_skipped_def)

lemma prune_skipped_keys:
  "set (s_skipped (prune_skipped now s)) \<subseteq> set (s_skipped s)"
  "length (s_skipped (prune_skipped now s)) \<le> MAX_SKIP"
  "length (s_skipped (prune_skipped now s)) \<le> length (s_skipped s)"
  "distinct (map sk_ctr (s_skipped s)) \<Longrightarrow> distinct (map sk_ctr (s_skipped (prune_skipped now s)))"
  using set_keep_last [of MAX_SKIP "filter (\<lambda>k. elapsed now (sk_stored_at k) < SKIP_KEY_TTL_NS) (s_skipped s)"]
  by (auto simp: prune_skipped_def keep_last_def drop_map [symmetric] distinct_map_filter
      intro!: distinct_drop le_trans [OF diff_le_self])

lemma prune_skipped_eq:
  "length (s_skipped s) \<le> MAX_SKIP \<Longrightarrow>
     s_skipped (prune_skipped now s) = filter (\<lambda>k. elapsed now (sk_stored_at k) < SKIP_KEY_TTL_NS) (s_skipped s)"
  by (simp add: prune_skipped_def le_trans [OF length_filter_le])

lemma prune_skipped_inv: "session_inv R s \<Longrightarrow> session_inv R (prune_skipped now s)"
  using prune_skipped_keys [where now = now and s = s] by (auto simp: session_inv_def)

section \<open>Skipped keys\<close>

lemma skip_keys_ctrs:
  "skip_keys R now n c chain = (ks, c', chain') \<Longrightarrow>
     c' = c + of_nat n \<and> map sk_ctr ks = map (\<lambda>i. c + of_nat i) [0..<n]"
proof (induction n arbitrary: c chain ks)
  case (Suc n)
  from Suc.prems obtain ks' k nxt where
    r: "skip_keys R now n (c + 1) nxt = (ks', c', chain')" and ks: "ks = k # ks'" "sk_ctr k = c"
    by (auto split: prod.splits)
  from Suc.IH [OF r] ks show ?case
    by (simp add: map_Suc_upt [symmetric] comp_def add.assoc add.commute del: upt_Suc)
       (simp add: upt_conv_Cons map_Suc_upt [symmetric] comp_def add.assoc add.commute del: upt_Suc)
qed simp

lemma frame_gap:
  assumes "r < c" and "p < (c :: u64)"
  shows "unat (saturating_sub p r) + unat (c - 1 - max p r) = unat c - 1 - unat r"
    and "unat (c - 1 - r) = unat c - 1 - unat r"
proof -
  have c: "unat (c - 1) = unat c - 1" using assms(1) by (subst unat_minus_u64) (auto simp: word_le_nat_alt word_less_nat_alt)
  have m: "x \<le> c - 1" if "x < c" for x
    using that assms(1) c by (simp add: word_le_nat_alt word_less_nat_alt)
  show "unat (c - 1 - r) = unat c - 1 - unat r"
    using m [OF assms(1)] c by (simp add: unat_minus_u64)
  have "unat (c - 1 - max p r) = unat c - 1 - max (unat p) (unat r)"
    using m [of "max p r"] assms c by (simp add: unat_minus_u64 max_def word_le_nat_alt)
  then show "unat (saturating_sub p r) + unat (c - 1 - max p r) = unat c - 1 - unat r"
    using assms by (simp add: unat_saturating_sub word_less_nat_alt)
qed

lemma receive_advance_InrE:
  assumes "receive_advance R f now s = Inr (nxt, pp, ks, payload)"
  obtains ks1 c1 ch1 ch2 ks2 c2 ch3 mk nonce hdr where
    "f_pn f < f_ctr f" "total_gap f s \<le> MAX_SKIP" "length (s_skipped s) + total_gap f s \<le> MAX_SKIP"
    "skip_keys R now (unat (before_rotation f s)) (s_recv_ctr s + 1) (s_recv_chain s) = (ks1, c1, ch1)"
    "mix_epoch R f s ch1 = Inr (ch2, pp)"
    "skip_keys R now (unat (after_rotation f s)) c1 ch2 = (ks2, c2, ch3)"
    "chain_step R ch3 (f_ctr f) = (nxt, mk, nonce)" "header_bytes f = Inr hdr"
    "open_ct R mk nonce (f_ct f) hdr = Some payload" "ks = ks1 @ ks2"
proof -
  obtain ks1 c1 ch1 where k1:
    "skip_keys R now (unat (before_rotation f s)) (s_recv_ctr s + 1) (s_recv_chain s) = (ks1, c1, ch1)"
    by (metis prod_cases3)
  from assms k1 obtain ch2 p' where m: "mix_epoch R f s ch1 = Inr (ch2, p')"
    by (auto simp: receive_advance_def)
  obtain ks2 c2 ch3 where k2: "skip_keys R now (unat (after_rotation f s)) c1 ch2 = (ks2, c2, ch3)"
    by (metis prod_cases3)
  obtain nx mk nonce where st: "chain_step R ch3 (f_ctr f) = (nx, mk, nonce)" by (metis prod_cases3)
  from assms obtain hdr where "f_pn f < f_ctr f" "total_gap f s \<le> MAX_SKIP"
    "length (s_skipped s) + total_gap f s \<le> MAX_SKIP" "header_bytes f = Inr hdr"
    "open_ct R mk nonce (f_ct f) hdr = Some payload" "nx = nxt" "p' = pp" "ks = ks1 @ ks2"
    by (auto simp: receive_advance_def not_le not_less k1 m k2 st)
  with k1 m k2 st show thesis by (intro that) simp_all
qed

text \<open>
  A frame that is accepted above the counter retains exactly the keys of the counters it jumps
  over, and there is room for them.
\<close>

lemma gap_sum:
  assumes "s_recv_ctr s < f_ctr f" and "f_pn f < f_ctr f"
  shows "unat (before_rotation f s) + unat (after_rotation f s) = unat (f_ctr f) - 1 - unat (s_recv_ctr s)"
    and "total_gap f s = unat (f_ctr f) - 1 - unat (s_recv_ctr s)"
proof -
  show sum: "unat (before_rotation f s) + unat (after_rotation f s) = unat (f_ctr f) - 1 - unat (s_recv_ctr s)"
    using frame_gap [OF assms] by (simp add: before_rotation_def after_rotation_def)
  then show "total_gap f s = unat (f_ctr f) - 1 - unat (s_recv_ctr s)"
    using unsigned_less [of "f_ctr f", where 'a = nat] by (simp add: total_gap_def unat_saturating_add)
qed

lemma skip_keys_append:
  assumes "skip_keys R now n c chain = (ks1, c1, ch1)" and "skip_keys R now m c1 ch2 = (ks2, c2, ch3)"
  shows "map sk_ctr (ks1 @ ks2) = map (\<lambda>i. c + of_nat i) [0..<n + m]" and "c2 = c + of_nat (n + m)"
proof -
  have m1: "c1 = c + of_nat n" "map sk_ctr ks1 = map (\<lambda>i. c + of_nat i) [0..<n]"
    using skip_keys_ctrs [OF assms(1)] by simp_all
  have "map sk_ctr ks2 = map (\<lambda>i. c + of_nat (i + n)) [0..<m]"
    using skip_keys_ctrs [OF assms(2)] by (simp add: m1(1) ac_simps)
  also have "\<dots> = map (\<lambda>i. c + of_nat i) (map (\<lambda>i. i + n) [0..<m])"
    by (simp only: map_map comp_def)
  also have "map (\<lambda>i. i + n) [0..<m] = [n..<n + m]" by (simp add: map_add_upt add.commute)
  finally show "map sk_ctr (ks1 @ ks2) = map (\<lambda>i. c + of_nat i) [0..<n + m]"
    using upt_add_eq_append [of 0 n m] m1(2) by (simp only: map_append add_0)
  show "c2 = c + of_nat (n + m)" using skip_keys_ctrs [OF assms(2)] m1 by (simp add: add.assoc)
qed

lemma receive_advance_keys:
  assumes "receive_advance R f now s = Inr (nxt, pp, ks, payload)" and "s_recv_ctr s < f_ctr f"
  shows "map sk_ctr ks = map of_nat [unat (s_recv_ctr s) + 1..<unat (f_ctr f)]"
    and "length (s_skipped s) + length ks \<le> MAX_SKIP"
proof -
  let ?n = "unat (f_ctr f) - 1 - unat (s_recv_ctr s)"
  from assms(1) obtain ks1 c1 ch1 ch2 ks2 c2 ch3 where pn: "f_pn f < f_ctr f"
    and room: "length (s_skipped s) + total_gap f s \<le> MAX_SKIP"
    and k1: "skip_keys R now (unat (before_rotation f s)) (s_recv_ctr s + 1) (s_recv_chain s) = (ks1, c1, ch1)"
    and k2: "skip_keys R now (unat (after_rotation f s)) c1 ch2 = (ks2, c2, ch3)" and ks: "ks = ks1 @ ks2"
    by (rule receive_advance_InrE)
  note sum = gap_sum [OF assms(2) pn]
  have all: "map sk_ctr ks = map (\<lambda>i. s_recv_ctr s + 1 + of_nat i) [0..<?n]"
    using skip_keys_append(1) [OF k1 k2] unfolding sum(1) ks .
  also have "\<dots> = map of_nat (map (\<lambda>i. i + (unat (s_recv_ctr s) + 1)) [0..<?n])"
    by (simp add: add.commute add.left_commute)
  also have "\<dots> = map of_nat [unat (s_recv_ctr s) + 1..<unat (f_ctr f)]"
    using assms(2) by (subst map_add_upt) (simp add: word_less_nat_alt)
  finally show "map sk_ctr ks = map of_nat [unat (s_recv_ctr s) + 1..<unat (f_ctr f)]" .
  have "length ks = ?n" using arg_cong [OF all, of length] by simp
  with room sum show "length (s_skipped s) + length ks \<le> MAX_SKIP" by simp
qed

section \<open>Every operation keeps the invariant\<close>

lemma rotate_self_key_sel [simp]:
  "s_skipped (rotate_self_key R k s) = s_skipped s" "s_recv_ctr (rotate_self_key R k s) = s_recv_ctr s"
  "s_peer_kem (rotate_self_key R k s) = s_peer_kem s" "s_pq_every (rotate_self_key R k s) = s_pq_every s"
  "s_recv_chain (rotate_self_key R k s) = s_recv_chain s" "s_peer_pub (rotate_self_key R k s) = s_peer_pub s"
  "s_kem_dk (rotate_self_key R k s) = s_kem_dk s" "s_send_ctr (rotate_self_key R k s) = s_send_ctr s"
  "s_send_chain (rotate_self_key R k s) = s_send_chain s" "s_my_kp (rotate_self_key R k s) = k"
  "s_sent_since_pq (rotate_self_key R k s) = s_sent_since_pq s" "s_pq_after (rotate_self_key R k s) = s_pq_after s"
  "s_last_pq (rotate_self_key R k s) = s_last_pq s" "s_rng (rotate_self_key R k s) = s_rng s"
  "length (s_old_kps (rotate_self_key R k s)) = min OLD_KP_CAP (Suc (length (s_old_kps s)))"
  by (simp_all add: rotate_self_key_def)

text \<open>Sending never touches the receiving side of the session.\<close>

definition same_recv :: "'g session \<Rightarrow> 'g session \<Rightarrow> bool" where
  "same_recv s s' \<longleftrightarrow>
     s_skipped s' = s_skipped s \<and> s_recv_ctr s' = s_recv_ctr s \<and> s_recv_chain s' = s_recv_chain s
     \<and> s_peer_pub s' = s_peer_pub s \<and> s_kem_dk s' = s_kem_dk s \<and> s_peer_kem s' = s_peer_kem s
     \<and> s_pq_every s' = s_pq_every s"

lemma begin_epoch_recv:
  assumes "begin_epoch R now ctr peer s = (s', r)"
  shows "same_recv s s'" and "length (s_old_kps s') = min OLD_KP_CAP (Suc (length (s_old_kps s)))"
  using assms
  by (auto simp: begin_epoch_def Let_def same_recv_def split: prod.splits option.splits if_splits)

lemma send_at_recv:
  assumes "send_at R payload now s = (s', r)"
  shows "same_recv s s'" and "length (s_old_kps s) \<le> OLD_KP_CAP \<Longrightarrow> length (s_old_kps s') \<le> OLD_KP_CAP"
proof -
  let ?rotate = "case s_peer_pub s of Some peer \<Rightarrow> Some peer \<noteq> s_mixed_peer s | None \<Rightarrow> False"
  obtain s1 r1 where e:
    "(if ?rotate then begin_epoch R now (s_send_ctr s + 1) (the (s_peer_pub s)) s else (s, Inr (s_send_chain s))) = (s1, r1)"
    by fastforce
  then have s1: "same_recv s s1" "length (s_old_kps s) \<le> OLD_KP_CAP \<Longrightarrow> length (s_old_kps s1) \<le> OLD_KP_CAP"
    by (cases ?rotate; force dest: begin_epoch_recv simp: same_recv_def)+
  have "same_recv s1 s' \<and> s_old_kps s' = s_old_kps s1"
    using assms unfolding send_at_def Let_def e
    by (cases r1) (auto simp: same_recv_def split: prod.splits sum.splits)
  with s1 show "same_recv s s'" "length (s_old_kps s) \<le> OLD_KP_CAP \<Longrightarrow> length (s_old_kps s') \<le> OLD_KP_CAP"
    by (auto simp: same_recv_def)
qed

lemma send_at_inv:
  assumes "session_inv R s" and "send_at R payload now s = (s', r)"
  shows "session_inv R s'"
  using assms send_at_recv [OF assms(2)] by (auto simp: session_inv_def same_recv_def)

text \<open>
  The two ways a frame is accepted, and what a refused frame leaves behind: the session with its
  expired keys dropped.
\<close>

lemma receive_at_cases:
  assumes "receive_at R f now s = (s', r)"
  obtains (refused) e where "r = Inl e" "s' = prune_skipped now s"
  | (skipped) payload ys k zs where "r = Inr payload" "f_ctr f \<le> s_recv_ctr s"
      "s_skipped (prune_skipped now s) = ys @ k # zs" "sk_ctr k = f_ctr f"
      "rbind (header_bytes f) (\<lambda>hdr. ok_or Decrypt (open_ct R (sk_mk k) (sk_nonce k) (f_ct f) hdr)) = Inr payload"
      "s' = (prune_skipped now s)\<lparr>s_skipped := ys @ zs\<rparr>"
  | (advanced) payload nxt pp ks where "r = Inr payload" "s_recv_ctr s < f_ctr f"
      "receive_advance R f now (prune_skipped now s) = Inr (nxt, pp, ks, payload)"
      "s' = prune_skipped now ((prune_skipped now s)\<lparr>s_recv_chain := nxt, s_recv_ctr := f_ctr f,
         s_peer_pub := pp, s_skipped := s_skipped (prune_skipped now s) @ ks\<rparr>)"
proof (cases "f_ctr f \<le> s_recv_ctr s")
  case True
  let ?s = "prune_skipped now s"
  from True assms have r: "receive_skipped R f ?s = (s', r)" by (simp add: receive_at_def)
  show thesis
  proof (cases "position (\<lambda>k. sk_ctr k = f_ctr f) (s_skipped ?s)")
    case None
    with r show thesis by (intro refused) (auto simp: receive_skipped_def)
  next
    case (Some i)
    then obtain ys k zs where k: "s_skipped ?s = ys @ k # zs" "length ys = i" "sk_ctr k = f_ctr f"
      by (rule position_SomeE)
    then have nth: "s_skipped ?s ! i = k" "remove_nth i (s_skipped ?s) = ys @ zs" by auto
    let ?open = "rbind (header_bytes f) (\<lambda>hdr. ok_or Decrypt (open_ct R (sk_mk k) (sk_nonce k) (f_ct f) hdr))"
    show thesis
    proof (cases ?open)
      case (Inl e)
      with r Some nth show thesis by (intro refused [of e]) (auto simp: receive_skipped_def Let_def)
    next
      case (Inr payload)
      with r Some nth True k show thesis by (intro skipped) (auto simp: receive_skipped_def Let_def)
    qed
  qed
next
  case False
  with assms show thesis
    by (cases "receive_advance R f now (prune_skipped now s)")
       (auto simp: receive_at_def Let_def not_le intro: refused advanced split: prod.splits)
qed

lemma receive_at_inv:
  assumes inv: "session_inv R s" and r: "receive_at R f now s = (s', r)"
  shows "session_inv R s'"
  using r
proof (cases rule: receive_at_cases)
  case refused
  with inv show ?thesis by (simp add: prune_skipped_inv)
next
  case (skipped payload ys k zs)
  with prune_skipped_inv [OF inv, of now] show ?thesis by (auto simp: session_inv_def)
next
  case (advanced payload nxt pp ks)
  let ?s = "prune_skipped now s"
  note keys = receive_advance_keys [OF advanced(3)]
  have i: "session_inv R ?s" using inv by (rule prune_skipped_inv)
  have new: "\<exists>n. sk_ctr k = of_nat n \<and> unat (s_recv_ctr s) < n \<and> n < unat (f_ctr f)" if "k \<in> set ks" for k
    using arg_cong [OF keys(1), of set] advanced(2) imageI [OF that, of sk_ctr] by auto
  have small: "n < 2 ^ 64" if "n < unat (f_ctr f)" for n using that unsigned_less [of "f_ctr f", where 'a = nat] by simp
  have above: "s_recv_ctr s < sk_ctr k \<and> sk_ctr k \<le> f_ctr f" if "k \<in> set ks" for k
    using new [OF that] small by (auto simp: word_less_nat_alt word_le_nat_alt unat_of_nat_u64)
  have "distinct (map sk_ctr ks)"
    using keys(1) advanced(2) small
    by (auto simp: distinct_map inj_on_def word_unat_eq_iff unat_of_nat_u64)
  moreover have "sk_ctr k \<le> s_recv_ctr s" if "k \<in> set (s_skipped ?s)" for k
    using that i by (simp add: session_inv_def)
  ultimately have "session_inv R (?s\<lparr>s_recv_chain := nxt, s_recv_ctr := f_ctr f, s_peer_pub := pp,
      s_skipped := s_skipped ?s @ ks\<rparr>)"
    using i above keys(2) advanced(2)
    by (fastforce simp: session_inv_def intro: order.strict_implies_order dest: order.strict_trans1)
  then show ?thesis unfolding advanced(4) by (rule prune_skipped_inv)
qed

section \<open>Runs against an arbitrary network\<close>

datatype ratchet_op =
    RSend bytes session_time
  | RReceive frame session_time
  | RPolicy u32 duration
  | RPeerKem bytes
  | RLocalKem "64 arr"

text \<open>The session together with the counters whose payloads it has handed out.\<close>

definition ratchet_step ::
  "('g, 'h) ratchet_ops \<Rightarrow> ratchet_op \<Rightarrow> 'g session \<times> u64 list \<Rightarrow> ('g session \<times> u64 list) option" where
  "ratchet_step R x sa =
     (case sa of (s, accepted) \<Rightarrow>
      case x of
        RSend payload now \<Rightarrow> Some (fst (send_at R payload now s), accepted)
      | RReceive f now \<Rightarrow>
          (case receive_at R f now s of
             (s, Inl _) \<Rightarrow> Some (s, accepted)
           | (s, Inr _) \<Rightarrow> Some (s, accepted @ [f_ctr f]))
      | RPolicy every after \<Rightarrow> Some (set_pq_policy every after s, accepted)
      | RPeerKem k \<Rightarrow>
          (case provide_peer_kem R k s of Inl _ \<Rightarrow> Some (s, accepted) | Inr s \<Rightarrow> Some (s, accepted))
      | RLocalKem dk \<Rightarrow> Some (provide_local_kem dk s, accepted))"

definition ratchet_inv :: "('g, 'h) ratchet_ops \<Rightarrow> 'g session \<times> u64 list \<Rightarrow> bool" where
  "ratchet_inv R sa \<longleftrightarrow>
     (case sa of (s, accepted) \<Rightarrow>
        session_inv R s \<and> distinct accepted
        \<and> (\<forall>c \<in> set accepted. c \<le> s_recv_ctr s \<and> c \<notin> sk_ctr ` set (s_skipped s)))"

lemma receive_at_accepted:
  assumes inv: "ratchet_inv R (s, accepted)" and r: "receive_at R f now s = (s', Inr payload)"
  shows "ratchet_inv R (s', accepted @ [f_ctr f])"
proof -
  from inv have i: "session_inv R s" and d: "distinct accepted"
    and a: "\<And>c. c \<in> set accepted \<Longrightarrow> c \<le> s_recv_ctr s" "\<And>c. c \<in> set accepted \<Longrightarrow> c \<notin> sk_ctr ` set (s_skipped s)"
    by (auto simp: ratchet_inv_def)
  have i': "session_inv R s'" by (rule receive_at_inv [OF i r])
  have sub: "set (s_skipped (prune_skipped now s)) \<subseteq> set (s_skipped s)" by (rule prune_skipped_keys)
  from r have "f_ctr f \<notin> set accepted
    \<and> (\<forall>c \<in> set accepted \<union> {f_ctr f}. c \<le> s_recv_ctr s' \<and> c \<notin> sk_ctr ` set (s_skipped s'))"
  proof (cases rule: receive_at_cases)
    case (skipped p ys k zs)
    have k: "k \<in> set (s_skipped s)" using sub skipped(3) by auto
    have dist: "distinct (map sk_ctr (ys @ k # zs))"
      using prune_skipped_inv [OF i, of now] skipped(3) by (simp add: session_inv_def)
    have fresh: "f_ctr f \<notin> sk_ctr ` set (ys @ zs)" using dist skipped(4) by auto
    have sub': "sk_ctr ` set (ys @ zs) \<subseteq> sk_ctr ` set (s_skipped s)" using sub skipped(3) by auto
    have new: "f_ctr f \<notin> set accepted" using a(2) [of "f_ctr f"] imageI [OF k, of sk_ctr] skipped(4) by auto
    have "c \<notin> sk_ctr ` set (ys @ zs)" if "c \<in> set accepted" for c using a(2) [OF that] sub' by blast
    with a(1) fresh new skipped(2) show ?thesis unfolding skipped(6) by simp
  next
    case (advanced p nxt pp ks)
    note keys = receive_advance_keys(1) [OF advanced(3)]
    have above: "unat (s_recv_ctr s) < unat c \<and> unat c < unat (f_ctr f)" if "c \<in> sk_ctr ` set ks" for c
      using that arg_cong [OF keys, of set] advanced(2) unsigned_less [of "f_ctr f", where 'a = nat]
      by (auto simp: unat_of_nat_u64)
    let ?mid = "(prune_skipped now s)\<lparr>s_recv_chain := nxt, s_recv_ctr := f_ctr f,
         s_peer_pub := pp, s_skipped := s_skipped (prune_skipped now s) @ ks\<rparr>"
    have "set (s_skipped s') \<subseteq> set (s_skipped ?mid)" unfolding advanced(4) by (rule prune_skipped_keys)
    also have "\<dots> \<subseteq> set (s_skipped s) \<union> set ks" using sub by auto
    finally have "sk_ctr ` set (s_skipped s') \<subseteq> sk_ctr ` set (s_skipped s) \<union> sk_ctr ` set ks" by blast
    then have mem: "c \<in> sk_ctr ` set (s_skipped s) \<or> c \<in> sk_ctr ` set ks"
      if "c \<in> sk_ctr ` set (s_skipped s')" for c using that by blast
    have recv: "s_recv_ctr s' = f_ctr f" by (simp add: advanced(4))
    have old: "c \<le> s_recv_ctr s" if "c \<in> sk_ctr ` set (s_skipped s)" for c
      using that i by (auto simp: session_inv_def)
    have "c \<notin> sk_ctr ` set (s_skipped s')" if "c \<in> set accepted" for c
      using mem [of c] above [of c] a [OF that] by (auto simp: word_le_nat_alt)
    moreover have "f_ctr f \<notin> sk_ctr ` set (s_skipped s')"
      using mem [of "f_ctr f"] above [of "f_ctr f"] old [of "f_ctr f"] advanced(2) by (auto simp: not_le)
    moreover have "c < f_ctr f" if "c \<in> set accepted" for c using a(1) [OF that] advanced(2) by simp
    ultimately show ?thesis using recv by (auto intro: less_imp_le)
  qed simp
  with i' d show ?thesis by (auto simp: ratchet_inv_def)
qed

lemma receive_at_refused:
  assumes inv: "ratchet_inv R (s, accepted)" and r: "receive_at R f now s = (s', Inl e)"
  shows "ratchet_inv R (s', accepted)"
proof -
  have "s' = prune_skipped now s" using r by (cases rule: receive_at_cases) simp_all
  with inv prune_skipped_keys(1) [of now s] show ?thesis
    by (auto simp: ratchet_inv_def prune_skipped_inv dest!: subsetD)
qed

lemma ratchet_step_inv:
  assumes "ratchet_inv R sa"
  shows "\<exists>sa'. ratchet_step R x sa = Some sa' \<and> ratchet_inv R sa'"
proof -
  obtain s accepted where sa: "sa = (s, accepted)" by fastforce
  with assms have inv: "ratchet_inv R (s, accepted)" by simp
  show ?thesis
  proof (cases x)
    case (RSend payload now)
    obtain s' r where "send_at R payload now s = (s', r)" by fastforce
    with inv send_at_inv send_at_recv(1) show ?thesis
      by (fastforce simp: RSend sa ratchet_step_def ratchet_inv_def same_recv_def)
  next
    case (RReceive f now)
    obtain s' r where r: "receive_at R f now s = (s', r)" by fastforce
    with inv receive_at_accepted receive_at_refused show ?thesis
      by (cases r) (auto simp: RReceive sa ratchet_step_def)
  next
    case (RPolicy every after)
    then show ?thesis using inv
      by (auto simp: sa ratchet_step_def ratchet_inv_def session_inv_def set_pq_policy_def max_def word_gt_0
          not_le dest: order.strict_trans1)
  next
    case (RPeerKem k)
    then show ?thesis using inv
      by (auto simp: sa ratchet_step_def ratchet_inv_def session_inv_def provide_peer_kem_def reject_def
          ek_from_bytes_def split: if_splits)
  next
    case (RLocalKem dk)
    then show ?thesis using inv
      by (auto simp: sa ratchet_step_def ratchet_inv_def session_inv_def provide_local_kem_def)
  qed
qed

interpretation ratchet_machine: invariant_machine "ratchet_step R" "ratchet_inv R"
  by unfold_locales (rule ratchet_step_inv)

subsection \<open>An evaluated session\<close>

definition demo_session :: "32 arr option \<Rightarrow> byte \<Rightarrow> nat session" where
  "demo_session peer kp =
     \<lparr>s_send_chain = arr_fill 5, s_recv_chain = arr_fill 5, s_send_ctr = 0, s_recv_ctr = 0,
      s_my_kp = arr_fill kp, s_old_kps = [], s_peer_pub = peer, s_skipped = [], s_send_rotated_at = 0,
      s_mixed_peer = None, s_epoch_pq_ct = None, s_peer_kem = None, s_kem_dk = None, s_sent_since_pq = 0,
      s_pq_every = 1, s_pq_after = 0, s_last_pq = 0, s_rng = 0\<rparr>"

definition demo_sender :: "nat session" where "demo_sender = demo_session None 3"

definition demo_receiver :: "nat session" where "demo_receiver = demo_session (Some (arr_fill 3)) 4"

definition demo_frame :: frame where
  "demo_frame = (case send_at toy_ratchet [7, 8] 0 demo_sender of
     (_, Inr f) \<Rightarrow> f | (_, Inl _) \<Rightarrow> \<lparr>f_ctr = 0, f_pn = 0, f_sender_pub = arr_fill 0, f_mixed_with = None, f_pq_ct = None, f_ct = []\<rparr>)"

lemma demo_receiver_inv: "session_inv toy_ratchet demo_receiver"
  by (simp add: session_inv_def demo_receiver_def demo_session_def)

lemma demo_accepted:
  "map_option snd (run_ops (ratchet_step toy_ratchet) [RReceive demo_frame 0, RReceive demo_frame 0] (demo_receiver, []))
   = Some [1]"
  by code_simp

lemma demo_refused: "receive_at toy_ratchet demo_frame 0 demo_sender = (demo_sender, Inl UnknownMixKey)"
  by code_simp

section \<open>Properties\<close>

text \<open>
  C3 (safety): whatever frames the network delivers, replays or forges, in any order and mixed with
  sends and key updates, a ratchet session never hands out a payload for the same counter twice, and
  it never retains more than 64 skipped keys or 8 old key pairs.
\<close>

theorem no_counter_accepted_twice:
  assumes "session_inv R s"
  shows "\<exists>s' accepted. run_ops (ratchet_step R) ops (s, []) = Some (s', accepted)
     \<and> distinct accepted \<and> session_inv R s'"
proof -
  have "ratchet_inv R (s, [])" using assms by (simp add: ratchet_inv_def)
  from ratchet_machine.run_returns [OF this, of ops] show ?thesis by (auto simp: ratchet_inv_def)
qed

theorem no_counter_accepted_twice_witness:
  "\<exists>s'. run_ops (ratchet_step toy_ratchet) [RReceive demo_frame 0, RReceive demo_frame 0] (demo_receiver, [])
     = Some (s', [1]) \<and> session_inv toy_ratchet s'"
  using no_counter_accepted_twice [OF demo_receiver_inv, of "[RReceive demo_frame 0, RReceive demo_frame 0]"]
    demo_accepted by auto

text \<open>
  C37 (error): a frame that \<open>receive_at\<close> refuses, for whatever reason, changes nothing in the session
  but the retained keys that had expired; in particular the chains and counters stay.
\<close>

theorem refused_frame_changes_nothing:
  assumes "receive_at R f now s = (s', Inl e)"
  shows "s' = s\<lparr>s_skipped := s_skipped s'\<rparr> \<and> set (s_skipped s') \<subseteq> set (s_skipped s)
    \<and> (length (s_skipped s) \<le> MAX_SKIP \<longrightarrow>
       (\<forall>k \<in> set (s_skipped s). elapsed now (sk_stored_at k) < SKIP_KEY_TTL_NS \<longrightarrow> k \<in> set (s_skipped s')))"
proof -
  have s': "s' = prune_skipped now s" using assms by (cases rule: receive_at_cases) simp_all
  have "prune_skipped now s = s\<lparr>s_skipped := s_skipped (prune_skipped now s)\<rparr>" by (simp add: prune_skipped_def)
  with prune_skipped_keys(1) [of now s] show ?thesis unfolding s' by (auto simp: prune_skipped_eq)
qed

theorem refused_frame_changes_nothing_witness:
  "receive_at toy_ratchet demo_frame 0 demo_sender = (demo_sender, Inl UnknownMixKey)
   \<and> set (s_skipped demo_sender) \<subseteq> set (s_skipped demo_sender)"
  using demo_refused refused_frame_changes_nothing [OF demo_refused] by blast

end
