(* ===== verification/Ratchet_Link.thy ===== *)
theory Ratchet_Link
  imports Ratchet_Safety
begin

text \<open>
  Two ratchet sessions joined by a network that loses, delays, repeats, reorders and corrupts
  frames. The link invariant relates the chain and counters of each receiver to the history of
  its sender across epoch rotations and post-quantum refreshes, and gives end-to-end delivery:
  every genuine frame that is within the bounded window decrypts to the payload that was sent.
\<close>

section \<open>The link\<close>

record 'g rlink =
  lk_sess :: "bool \<Rightarrow> 'g session"
  lk_sent :: "bool \<Rightarrow> (bytes \<times> frame) list"

text \<open>
  Side \<open>True\<close> is the initiator of the handshake; its counter 1 is the first move, so its frames
  start at counter 2 and those of the responder at counter 1.
\<close>

definition lk_base :: "bool \<Rightarrow> nat" where "lk_base d = (if d then 1 else 0)"

text \<open>
  A session restored from its archive, or given another refresh policy: the same keys, counters
  and chains, a fresh generator and clock, and possibly fewer retained keys.
\<close>

definition restored :: "'g session \<Rightarrow> 'g session \<Rightarrow> bool" where
  "restored s s' \<longleftrightarrow>
     s_send_chain s' = s_send_chain s \<and> s_recv_chain s' = s_recv_chain s
     \<and> s_send_ctr s' = s_send_ctr s \<and> s_recv_ctr s' = s_recv_ctr s \<and> s_my_kp s' = s_my_kp s
     \<and> s_old_kps s' = s_old_kps s \<and> s_peer_pub s' = s_peer_pub s
     \<and> s_send_rotated_at s' = s_send_rotated_at s \<and> s_mixed_peer s' = s_mixed_peer s
     \<and> s_epoch_pq_ct s' = s_epoch_pq_ct s \<and> s_peer_kem s' = s_peer_kem s \<and> s_kem_dk s' = s_kem_dk s
     \<and> (0 < s_pq_every s \<longrightarrow> 0 < s_pq_every s')
     \<and> (\<exists>P. map (\<lambda>k. (sk_ctr k, sk_mk k, sk_nonce k)) (s_skipped s')
              = map (\<lambda>k. (sk_ctr k, sk_mk k, sk_nonce k)) (filter P (s_skipped s)))"

inductive rlink_step :: "('g, 'h) ratchet_ops \<Rightarrow> 'g rlink \<Rightarrow> 'g rlink \<Rightarrow> bool" for R where
  send: "rlink_step R l (l\<lparr>lk_sess := (lk_sess l)(d := s'), lk_sent := (lk_sent l)(d := lk_sent l d @ [(payload, f)])\<rparr>)"
    if "send_at R payload now (lk_sess l d) = (s', Inr f)" and "length payload < 65536"
      and "s_send_ctr (lk_sess l d) < - 1"
      and "s_mixed_peer s' \<noteq> s_mixed_peer (lk_sess l d) \<longrightarrow> my_pub R s' \<noteq> my_pub R (lk_sess l d)"
| receive: "rlink_step R l (l\<lparr>lk_sess := (lk_sess l)(d := s')\<rparr>)"
    if "receive_at R f now (lk_sess l d) = (s', r)"
      and "is_ok r \<longrightarrow> f \<in> snd ` set (lk_sent l (\<not> d))"
| restore: "rlink_step R l (l\<lparr>lk_sess := (lk_sess l)(d := s')\<rparr>)"
    if "restored (lk_sess l d) s'"
| peer_kem: "rlink_step R l (l\<lparr>lk_sess := (lk_sess l)(d := s')\<rparr>)"
    if "s_kem_dk (lk_sess l (\<not> d)) = Some dk"
      and "provide_peer_kem R (ro_kem_pub R dk) (lk_sess l d) = Inr s'"
| local_kem: "rlink_step R l (l\<lparr>lk_sess := (lk_sess l)(d := provide_local_kem dk (lk_sess l d))\<rparr>)"
    if "s_kem_dk (lk_sess l d) = None"
      and "s_peer_kem (lk_sess l (\<not> d)) = None"

inductive rlink_reach :: "('g, 'h) ratchet_ops \<Rightarrow> 'g rlink \<Rightarrow> 'g rlink \<Rightarrow> bool" for R l0 where
  start: "rlink_reach R l0 l0"
| step: "rlink_reach R l0 l' \<Longrightarrow> rlink_step R l' l \<Longrightarrow> rlink_reach R l0 l"

section \<open>Invariant\<close>

definition lk_ctr :: "nat \<Rightarrow> nat \<Rightarrow> u64" where
  "lk_ctr b i = of_nat (b + i + 1)"

text \<open>
  For one direction: \<open>hs ! i\<close> is the chain key from which the \<open>i\<close>-th frame's keys are derived,
  \<open>chain_after i\<close> the chain key after \<open>i\<close> frames.
\<close>

definition chain_after :: "('g, 'h) ratchet_ops \<Rightarrow> nat \<Rightarrow> 32 arr \<Rightarrow> 32 arr list \<Rightarrow> nat \<Rightarrow> 32 arr" where
  "chain_after R b c0 hs i = (case i of 0 \<Rightarrow> c0 | Suc j \<Rightarrow> fst (chain_step R (hs ! j) (lk_ctr b j)))"

definition frame_key :: "('g, 'h) ratchet_ops \<Rightarrow> nat \<Rightarrow> 32 arr list \<Rightarrow> nat \<Rightarrow> u64 \<times> 32 arr \<times> 12 arr" where
  "frame_key R b hs i = (lk_ctr b i, snd (chain_step R (hs ! i) (lk_ctr b i)))"

definition entry_ok :: "('g, 'h) ratchet_ops \<Rightarrow> nat \<Rightarrow> 32 arr list \<Rightarrow> nat \<Rightarrow> bytes \<times> frame \<Rightarrow> bool" where
  "entry_ok R b hs i e \<longleftrightarrow>
     (case e of (payload, f) \<Rightarrow>
        f_ctr f = lk_ctr b i \<and> frame_ok f
        \<and> (\<exists>hdr. header_bytes f = Inr hdr
             \<and> (case frame_key R b hs i of (_, mk, nonce) \<Rightarrow> open_ct R mk nonce (f_ct f) hdr = Some payload)))"

definition epoch_mix ::
  "('g, 'h) ratchet_ops \<Rightarrow> 32 arr \<Rightarrow> 64 arr option \<Rightarrow> 32 arr \<Rightarrow> bytes option \<Rightarrow> 32 arr \<Rightarrow> 32 arr option" where
  "epoch_mix R sk dk pub pq chain =
     (let c = mix R chain (list_of (ro_dh R sk pub))
      in case pq of
           None \<Rightarrow> Some c
         | Some ct \<Rightarrow> Option.bind dk (\<lambda>d. map_option (mix R c) (ro_decaps R d ct)))"

text \<open>
  The direction from session \<open>S\<close> to session \<open>V\<close>: the receiver stands after \<open>k\<close> frames, the frames
  from index \<open>r\<close> on belong to an epoch the receiver has not entered.
\<close>

definition sender_ok :: "('g, 'h) ratchet_ops \<Rightarrow> nat \<Rightarrow> 32 arr \<Rightarrow> 32 arr list \<Rightarrow> (bytes \<times> frame) list \<Rightarrow> 'g session \<Rightarrow> bool" where
  "sender_ok R b c0 hs H S \<longleftrightarrow>
     length hs = length H \<and> unat (s_send_ctr S) = b + length H
     \<and> s_send_chain S = chain_after R b c0 hs (length H)
     \<and> (\<forall>i < length H. entry_ok R b hs i (H ! i))
     \<and> s_send_rotated_at S \<le> s_send_ctr S
     \<and> (\<forall>ct. s_epoch_pq_ct S = Some ct \<longrightarrow> length ct = KEM_CT_LEN)"

definition receiver_ok :: "('g, 'h) ratchet_ops \<Rightarrow> nat \<Rightarrow> 32 arr \<Rightarrow> 32 arr list \<Rightarrow> nat \<Rightarrow> 'g session \<Rightarrow> bool" where
  "receiver_ok R b c0 hs k V \<longleftrightarrow>
     unat (s_recv_ctr V) = b + k \<and> s_recv_chain V = chain_after R b c0 hs k
     \<and> (\<forall>x \<in> set (s_skipped V). \<exists>i < k. (sk_ctr x, sk_mk x, sk_nonce x) = frame_key R b hs i)"

definition same_epoch ::
  "('g, 'h) ratchet_ops \<Rightarrow> nat \<Rightarrow> 32 arr \<Rightarrow> 32 arr list \<Rightarrow> (bytes \<times> frame) list \<Rightarrow> 'g session \<Rightarrow> nat \<Rightarrow> nat \<Rightarrow> bool" where
  "same_epoch R b c0 hs H V k r \<longleftrightarrow>
     (\<forall>i \<in> {k..<r}. Some (f_sender_pub (snd (H ! i))) = s_peer_pub V \<and> hs ! i = chain_after R b c0 hs i)"

definition next_epoch ::
  "('g, 'h) ratchet_ops \<Rightarrow> nat \<Rightarrow> 32 arr \<Rightarrow> 32 arr list \<Rightarrow> (bytes \<times> frame) list \<Rightarrow> 'g session \<Rightarrow> 'g session \<Rightarrow> nat \<Rightarrow> bool" where
  "next_epoch R b c0 hs H S V r \<longleftrightarrow>
     (r < length H \<longrightarrow>
        s_send_rotated_at S = lk_ctr b r
        \<and> epoch_mix R (s_my_kp V) (s_kem_dk V) (my_pub R S) (s_epoch_pq_ct S) (chain_after R b c0 hs r) = Some (hs ! r))
     \<and> (\<forall>i \<in> {r..<length H}. \<exists>ct. snd (H ! i) =
          \<lparr>f_ctr = lk_ctr b i, f_pn = of_nat (b + r), f_sender_pub = my_pub R S,
           f_mixed_with = Some (my_pub R V), f_pq_ct = s_epoch_pq_ct S, f_ct = ct\<rparr>)
     \<and> (\<forall>i \<in> {r<..<length H}. hs ! i = chain_after R b c0 hs i)"

definition dir_ok ::
  "('g, 'h) ratchet_ops \<Rightarrow> nat \<Rightarrow> 32 arr \<Rightarrow> 32 arr list \<Rightarrow> (bytes \<times> frame) list \<Rightarrow> 'g session \<Rightarrow> 'g session \<Rightarrow> nat \<Rightarrow> nat \<Rightarrow> bool" where
  "dir_ok R b c0 hs H S V k r \<longleftrightarrow>
     k \<le> r \<and> r \<le> length H \<and> sender_ok R b c0 hs H S \<and> receiver_ok R b c0 hs k V
     \<and> same_epoch R b c0 hs H V k r \<and> next_epoch R b c0 hs H S V r"

text \<open>
  Which side acts next: \<open>X\<close> may start an epoch (\<open>ready\<close>), or it has started one that \<open>Y\<close> has not
  entered (\<open>pending\<close>).
\<close>

definition ready :: "('g, 'h) ratchet_ops \<Rightarrow> 'g session \<Rightarrow> 'g session \<Rightarrow> bool" where
  "ready R X Y \<longleftrightarrow>
     s_peer_pub X = Some (my_pub R Y) \<and> s_mixed_peer X \<noteq> s_peer_pub X
     \<and> s_mixed_peer Y = s_peer_pub Y \<and> s_peer_pub Y \<in> {None, Some (my_pub R X)}"

definition pending :: "('g, 'h) ratchet_ops \<Rightarrow> 'g session \<Rightarrow> 'g session \<Rightarrow> bool" where
  "pending R X Y \<longleftrightarrow>
     s_peer_pub X = Some (my_pub R Y) \<and> s_mixed_peer X = s_peer_pub X
     \<and> s_mixed_peer Y = s_peer_pub Y \<and> s_peer_pub Y \<noteq> Some (my_pub R X)"

definition kem_link :: "('g, 'h) ratchet_ops \<Rightarrow> 'g session \<Rightarrow> 'g session \<Rightarrow> bool" where
  "kem_link R S V \<longleftrightarrow>
     (\<forall>k. s_peer_kem S = Some k \<longrightarrow> (\<exists>d. s_kem_dk V = Some d \<and> k = ro_kem_pub R d))"

definition rlink_inv :: "('g, 'h) ratchet_ops \<Rightarrow> 'g rlink \<Rightarrow> bool" where
  "rlink_inv R l \<longleftrightarrow>
     (\<forall>d. session_inv R (lk_sess l d) \<and> kem_link R (lk_sess l d) (lk_sess l (\<not> d)))
     \<and> (\<exists>c0 hs k r x.
          (\<forall>d. dir_ok R (lk_base d) (c0 d) (hs d) (lk_sent l d) (lk_sess l d) (lk_sess l (\<not> d)) (k d) (r d))
          \<and> r (\<not> x) = length (lk_sent l (\<not> x))
          \<and> (ready R (lk_sess l x) (lk_sess l (\<not> x)) \<and> r x = length (lk_sent l x)
             \<or> pending R (lk_sess l x) (lk_sess l (\<not> x)) \<and> r x < length (lk_sent l x)))"

section \<open>Receiving a genuine frame\<close>

lemma chain_after_Suc: "chain_after R b c0 hs (Suc i) = fst (chain_step R (hs ! i) (lk_ctr b i))"
  by (simp add: chain_after_def)

lemma lk_ctr_Suc: "lk_ctr b (Suc i) = lk_ctr b i + 1"
  by (simp add: lk_ctr_def add.commute)

definition key_at :: "('g, 'h) ratchet_ops \<Rightarrow> session_time \<Rightarrow> nat \<Rightarrow> 32 arr list \<Rightarrow> nat \<Rightarrow> skipped_key" where
  "key_at R now b hs i =
     (case frame_key R b hs i of (c, mk, nonce) \<Rightarrow> \<lparr>sk_ctr = c, sk_mk = mk, sk_nonce = nonce, sk_stored_at = now\<rparr>)"

lemma skip_walk:
  "\<forall>i \<in> {k..<k + n}. hs ! i = chain_after R b c0 hs i \<Longrightarrow>
     skip_keys R now n (lk_ctr b k) (chain_after R b c0 hs k)
     = (map (key_at R now b hs) [k..<k + n], lk_ctr b (k + n), chain_after R b c0 hs (k + n))"
proof (induction n arbitrary: k)
  case (Suc n)
  have a: "hs ! k = chain_after R b c0 hs k" using Suc.prems by simp
  obtain nxt mk nonce where st: "chain_step R (hs ! k) (lk_ctr b k) = (nxt, mk, nonce)" by (metis prod_cases3)
  have "skip_keys R now n (lk_ctr b (Suc k)) (chain_after R b c0 hs (Suc k))
     = (map (key_at R now b hs) [Suc k..<Suc k + n], lk_ctr b (Suc k + n), chain_after R b c0 hs (Suc k + n))"
    using Suc.prems by (intro Suc.IH) simp
  moreover have "chain_after R b c0 hs (Suc k) = nxt" by (simp add: chain_after_Suc st)
  ultimately show ?case
    by (simp add: a [symmetric] st lk_ctr_Suc upt_conv_Cons key_at_def frame_key_def del: upt_Suc)
qed simp

lemma unat_lk_ctr: "b + i + 1 < 2 ^ 64 \<Longrightarrow> unat (lk_ctr b i) = b + i + 1"
  unfolding lk_ctr_def by (rule unat_of_nat_u64)

lemma sender_range:
  assumes "sender_ok R b c0 hs H S" and "i < length H"
  shows "unat (lk_ctr b i) = b + i + 1" and "b + length H < 2 ^ 64"
proof -
  show l: "b + length H < 2 ^ 64"
    using assms(1) unsigned_less [of "s_send_ctr S", where 'a = nat] by (simp add: sender_ok_def)
  then show "unat (lk_ctr b i) = b + i + 1" using assms(2) by (intro unat_lk_ctr) simp
qed

lemma entry_of:
  assumes "sender_ok R b c0 hs H S" and "(p, f) \<in> set H"
  obtains i where "i < length H" "H ! i = (p, f)" "f_ctr f = lk_ctr b i" "unat (f_ctr f) = b + i + 1" "frame_ok f"
proof -
  from assms(2) obtain i where i: "i < length H" "H ! i = (p, f)" by (auto simp: in_set_conv_nth)
  with assms(1) have "entry_ok R b hs i (p, f)" by (auto simp: sender_ok_def)
  with i sender_range(1) [OF assms(1) i(1)] show thesis by (intro that) (auto simp: entry_ok_def)
qed

lemma mix_epoch_rotates:
  assumes "Some (f_sender_pub f) \<noteq> s_peer_pub V" and "f_mixed_with f = Some (my_pub R V)"
    and "epoch_mix R (s_my_kp V) (s_kem_dk V) (f_sender_pub f) (f_pq_ct f) chain = Some c"
  shows "mix_epoch R f V chain = Inr (c, Some (f_sender_pub f))"
  using assms
  by (cases "f_pq_ct f"; cases "s_kem_dk V")
     (auto simp: mix_epoch_def epoch_mix_def find_keypair_def Let_def)

text \<open>
  The receiver's derivation for a frame: the keys it skips and the chain key it arrives at,
  within the current epoch and into the next one.
\<close>

definition walks ::
  "('g, 'h) ratchet_ops \<Rightarrow> session_time \<Rightarrow> frame \<Rightarrow> 'g session \<Rightarrow> skipped_key list \<Rightarrow> 32 arr \<Rightarrow> bool" where
  "walks R now f V ks chain \<longleftrightarrow>
     (\<exists>ks1 c1 ch1 ks2 c2 ch2.
        skip_keys R now (unat (before_rotation f V)) (s_recv_ctr V + 1) (s_recv_chain V) = (ks1, c1, ch1)
        \<and> mix_epoch R f V ch1 = Inr (ch2, Some (f_sender_pub f))
        \<and> skip_keys R now (unat (after_rotation f V)) c1 ch2 = (ks2, c2, chain) \<and> ks = ks1 @ ks2)"

lemma unat_of_nat_eq_iff_u64: "unat (w :: u64) = n \<Longrightarrow> w = of_nat n"
  by (metis of_nat_unat ucast_id)

lemma receiver_start:
  "receiver_ok R b c0 hs k V \<Longrightarrow> s_recv_ctr V + 1 = lk_ctr b k \<and> s_recv_chain V = chain_after R b c0 hs k"
proof -
  assume ro: "receiver_ok R b c0 hs k V"
  then have "s_recv_ctr V = of_nat (b + k)" unfolding receiver_ok_def by (metis unat_of_nat_eq_iff_u64)
  with ro show ?thesis by (simp add: lk_ctr_def receiver_ok_def)
qed

lemma walks_same:
  assumes ro: "receiver_ok R b c0 hs k V" and i: "k \<le> i" "unat (f_ctr f) = b + i + 1" "f_pn f < f_ctr f"
    and same: "Some (f_sender_pub f) = s_peer_pub V" "\<forall>j \<in> {k..<i}. hs ! j = chain_after R b c0 hs j"
  shows "walks R now f V (map (key_at R now b hs) [k..<i]) (chain_after R b c0 hs i)"
proof -
  have rc: "unat (s_recv_ctr V) = b + k" using ro by (simp add: receiver_ok_def)
  have "s_recv_ctr V < f_ctr f" using rc i by (simp add: word_less_nat_alt)
  from gap_sum(1) [OF this i(3)] have n: "unat (before_rotation f V) = i - k" "after_rotation f V = 0"
    using rc i(2) same(1) by (simp_all add: after_rotation_def)
  have "skip_keys R now (i - k) (lk_ctr b k) (chain_after R b c0 hs k)
        = (map (key_at R now b hs) [k..<i], lk_ctr b i, chain_after R b c0 hs i)"
    using skip_walk [of k "i - k" hs R b c0 now] i(1) same(2) by simp
  then show ?thesis
    using receiver_start [OF ro] same(1) unfolding walks_def n by (simp add: mix_epoch_def)
qed

lemma walks_next:
  assumes ro: "receiver_ok R b c0 hs k V" and kr: "k \<le> r" "r \<le> i" "unat (f_ctr f) = b + i + 1" "f_pn f < f_ctr f"
    and rot: "Some (f_sender_pub f) \<noteq> s_peer_pub V" "f_mixed_with f = Some (my_pub R V)" "unat (f_pn f) = b + r"
    and mixed: "epoch_mix R (s_my_kp V) (s_kem_dk V) (f_sender_pub f) (f_pq_ct f) (chain_after R b c0 hs r) = Some (hs ! r)"
    and hs: "\<forall>j \<in> {k..<r}. hs ! j = chain_after R b c0 hs j" "\<forall>j \<in> {r<..i}. hs ! j = chain_after R b c0 hs j"
  shows "walks R now f V (map (key_at R now b hs) [k..<i]) (hs ! i)"
proof -
  have rc: "unat (s_recv_ctr V) = b + k" using ro by (simp add: receiver_ok_def)
  have lt: "s_recv_ctr V < f_ctr f" using rc kr by (simp add: word_less_nat_alt)
  have bf: "unat (before_rotation f V) = r - k"
    using rot rc by (simp add: before_rotation_def unat_saturating_sub)
  have af: "unat (after_rotation f V) = i - r" using gap_sum(1) [OF lt kr(4)] bf rc kr by simp
  have w1: "skip_keys R now (r - k) (lk_ctr b k) (chain_after R b c0 hs k)
      = (map (key_at R now b hs) [k..<r], lk_ctr b r, chain_after R b c0 hs r)"
    using skip_walk [of k "r - k" hs R b c0 now] kr(1) hs(1) by simp
  have w2: "skip_keys R now (i - r) (lk_ctr b r) (hs ! r) = (map (key_at R now b hs) [r..<i], lk_ctr b i, hs ! i)"
  proof (cases "i = r")
    case False
    with kr have n: "i - r = Suc (i - Suc r)" "Suc r \<le> i" by simp_all
    have "skip_keys R now (i - Suc r) (lk_ctr b (Suc r)) (chain_after R b c0 hs (Suc r))
        = (map (key_at R now b hs) [Suc r..<i], lk_ctr b i, chain_after R b c0 hs i)"
      using skip_walk [of "Suc r" "i - Suc r" hs R b c0 now] n hs(2) by simp
    moreover have "hs ! i = chain_after R b c0 hs i" using hs(2) n(2) by simp
    ultimately show ?thesis
      using n by (cases "chain_step R (hs ! r) (lk_ctr b r)")
        (simp add: chain_after_Suc lk_ctr_Suc upt_conv_Cons key_at_def frame_key_def del: upt_Suc)
  qed simp
  have "[k..<i] = [k..<r] @ [r..<i]" using kr by (metis le_add_diff_inverse upt_add_eq_append)
  then show ?thesis
    using w1 w2 mix_epoch_rotates [OF rot(1,2) mixed] receiver_start [OF ro] unfolding walks_def bf af by simp
qed

lemma advance_by_walk:
  assumes "walks R now f V ks (hs ! i)" and "entry_ok R b hs i (payload, f)"
    and "length (s_skipped V) + total_gap f V \<le> MAX_SKIP"
  shows "receive_advance R f now V = Inr (chain_after R b c0 hs (Suc i), Some (f_sender_pub f), ks, payload)"
proof -
  have e: "f_ctr f = lk_ctr b i" "f_pn f < f_ctr f" using assms(2) by (auto simp: entry_ok_def frame_ok_def)
  obtain mk nonce hdr where "chain_step R (hs ! i) (f_ctr f) = (chain_after R b c0 hs (Suc i), mk, nonce)"
    and "header_bytes f = Inr hdr" and "open_ct R mk nonce (f_ct f) hdr = Some payload"
    using assms(2) e(1) by (cases "chain_step R (hs ! i) (lk_ctr b i)") (auto simp: entry_ok_def frame_key_def chain_after_Suc)
  with assms(1,3) e show ?thesis by (auto simp: receive_advance_def walks_def not_le)
qed

lemma advance_genuine:
  assumes dir: "dir_ok R b c0 hs H S V k r" and i: "k \<le> i" "i < length H" "H ! i = (payload, f)"
    and new: "r < length H \<longrightarrow> Some (my_pub R S) \<noteq> s_peer_pub V"
    and room: "length (s_skipped V) + (i - k) \<le> MAX_SKIP"
  shows "receive_advance R f now V =
    Inr (chain_after R b c0 hs (Suc i), Some (f_sender_pub f), map (key_at R now b hs) [k..<i], payload)"
proof -
  have so: "sender_ok R b c0 hs H S" and ro: "receiver_ok R b c0 hs k V"
    and se: "same_epoch R b c0 hs H V k r" and ne: "next_epoch R b c0 hs H S V r" and kr: "k \<le> r" "r \<le> length H"
    using dir by (simp_all add: dir_ok_def)
  have e: "entry_ok R b hs i (payload, f)" using so i by (auto simp: sender_ok_def)
  have c: "f_ctr f = lk_ctr b i" and pn: "f_pn f < f_ctr f" using e by (auto simp: entry_ok_def frame_ok_def)
  have uc: "unat (f_ctr f) = b + i + 1" using sender_range(1) [OF so i(2)] c by simp
  have "total_gap f V = i - k"
    using gap_sum(2) [of V f] pn uc ro i(1) by (simp add: receiver_ok_def word_less_nat_alt)
  moreover have "walks R now f V (map (key_at R now b hs) [k..<i]) (hs ! i)"
  proof (cases "i < r")
    case True
    then have "Some (f_sender_pub f) = s_peer_pub V" "hs ! i = chain_after R b c0 hs i"
      "\<forall>j \<in> {k..<i}. hs ! j = chain_after R b c0 hs j"
      using bspec [OF se [unfolded same_epoch_def], of i] se i by (auto simp: same_epoch_def)
    with walks_same [OF ro i(1) uc pn] show ?thesis by simp
  next
    case False
    then have r: "r \<le> i" "r < length H" using i by auto
    from ne r(1) i(2) have "\<exists>ct. snd (H ! i) = \<lparr>f_ctr = lk_ctr b i, f_pn = of_nat (b + r), f_sender_pub = my_pub R S,
           f_mixed_with = Some (my_pub R V), f_pq_ct = s_epoch_pq_ct S, f_ct = ct\<rparr>"
      by (simp add: next_epoch_def)
    with i(3) obtain ct where f: "f = \<lparr>f_ctr = lk_ctr b i, f_pn = of_nat (b + r), f_sender_pub = my_pub R S,
           f_mixed_with = Some (my_pub R V), f_pq_ct = s_epoch_pq_ct S, f_ct = ct\<rparr>"
      by auto
    have "unat (f_pn f) = b + r"
      unfolding f using sender_range(2) [OF so i(2)] r by (simp only: frame.simps) (rule unat_of_nat_u64, simp)
    moreover have "\<forall>j \<in> {k..<r}. hs ! j = chain_after R b c0 hs j" "\<forall>j \<in> {r<..i}. hs ! j = chain_after R b c0 hs j"
      using se ne i(2) by (auto simp: same_epoch_def next_epoch_def)
    moreover have "epoch_mix R (s_my_kp V) (s_kem_dk V) (f_sender_pub f) (f_pq_ct f) (chain_after R b c0 hs r) = Some (hs ! r)"
      using ne r(2) by (simp add: f next_epoch_def)
    ultimately show ?thesis using new r by (intro walks_next [OF ro kr(1) r(1) uc pn]) (simp_all add: f)
  qed
  ultimately show ?thesis using e room by (intro advance_by_walk) simp_all
qed

section \<open>What a direction depends on\<close>

abbreviation key3 :: "skipped_key \<Rightarrow> u64 \<times> 32 arr \<times> 12 arr" where
  "key3 x \<equiv> (sk_ctr x, sk_mk x, sk_nonce x)"

definition same_send :: "'g session \<Rightarrow> 'g session \<Rightarrow> bool" where
  "same_send S S' \<longleftrightarrow>
     s_send_ctr S' = s_send_ctr S \<and> s_send_chain S' = s_send_chain S \<and> s_send_rotated_at S' = s_send_rotated_at S
     \<and> s_epoch_pq_ct S' = s_epoch_pq_ct S \<and> s_my_kp S' = s_my_kp S \<and> s_mixed_peer S' = s_mixed_peer S"

definition weaker_recv :: "'g session \<Rightarrow> 'g session \<Rightarrow> bool" where
  "weaker_recv V V' \<longleftrightarrow>
     s_recv_ctr V' = s_recv_ctr V \<and> s_recv_chain V' = s_recv_chain V \<and> s_peer_pub V' = s_peer_pub V
     \<and> (s_kem_dk V' = s_kem_dk V \<or> s_kem_dk V = None) \<and> key3 ` set (s_skipped V') \<subseteq> key3 ` set (s_skipped V)"

lemma same_send_refl [simp]: "same_send S S"
  by (simp add: same_send_def)

lemma weaker_recv_refl [simp]: "weaker_recv V V"
  by (simp add: weaker_recv_def)

lemma same_send_pub: "same_send S S' \<Longrightarrow> my_pub R S' = my_pub R S"
  by (simp add: same_send_def my_pub_def)

lemma epoch_mix_mono:
  "epoch_mix R sk dk pub pq c = Some c' \<Longrightarrow> dk' = dk \<or> dk = None \<Longrightarrow> epoch_mix R sk dk' pub pq c = Some c'"
  by (auto simp: epoch_mix_def Let_def split: option.splits)

lemma receiver_ok_weaker:
  assumes "receiver_ok R b c0 hs k V" and "weaker_recv V V'"
  shows "receiver_ok R b c0 hs k V'"
proof -
  have "\<exists>i<k. key3 x = frame_key R b hs i" if "x \<in> set (s_skipped V')" for x
  proof -
    from that assms(2) have "key3 x \<in> key3 ` set (s_skipped V)" unfolding weaker_recv_def by blast
    then obtain y where y: "y \<in> set (s_skipped V)" and e: "key3 x = key3 y" by blast
    from assms(1) y show ?thesis unfolding e receiver_ok_def by blast
  qed
  with assms show ?thesis by (simp add: receiver_ok_def weaker_recv_def)
qed

text \<open>
  A direction survives any change that keeps the sender's chain and key, weakens the receiver, and
  keeps the receiver's key pair unless no epoch is pending.
\<close>

lemma dir_ok_weaken:
  assumes dir: "dir_ok R b c0 hs H S V k r" and s: "same_send S S'" and w: "weaker_recv V V'"
    and kp: "r < length H \<longrightarrow> s_my_kp V' = s_my_kp V"
  shows "dir_ok R b c0 hs H S' V' k r"
proof -
  have "sender_ok R b c0 hs H S'" "same_epoch R b c0 hs H V' k r"
    using dir s w by (simp_all add: dir_ok_def sender_ok_def same_epoch_def same_send_def weaker_recv_def)
  moreover have "receiver_ok R b c0 hs k V'"
    by (rule receiver_ok_weaker [OF _ w]) (use dir in \<open>simp add: dir_ok_def\<close>)
  moreover have "next_epoch R b c0 hs H S' V' r"
  proof (cases "r < length H")
    case True
    with kp have "my_pub R V' = my_pub R V" "s_my_kp V' = s_my_kp V" by (simp_all add: my_pub_def)
    moreover have "s_kem_dk V' = s_kem_dk V \<or> s_kem_dk V = None" using w by (simp add: weaker_recv_def)
    ultimately show ?thesis using dir s same_send_pub [OF s, of R]
      by (auto simp: dir_ok_def next_epoch_def same_send_def intro: epoch_mix_mono)
  qed (simp add: next_epoch_def)
  ultimately show ?thesis using dir by (simp add: dir_ok_def)
qed

lemma prune_weaker: "weaker_recv V (prune_skipped now V)" "same_send V (prune_skipped now V)"
  using prune_skipped_keys(1) [of now V] by (auto simp: weaker_recv_def same_send_def)

lemma remove_weaker:
  assumes "s_skipped V = ys @ y # zs"
  shows "weaker_recv V (V\<lparr>s_skipped := ys @ zs\<rparr>)" "same_send V (V\<lparr>s_skipped := ys @ zs\<rparr>)"
  using assms by (auto simp: weaker_recv_def same_send_def)

text \<open>Entering index \<open>i\<close>: the receiver that has advanced over the genuine frame number \<open>i\<close>.\<close>

definition advanced ::
  "('g, 'h) ratchet_ops \<Rightarrow> session_time \<Rightarrow> nat \<Rightarrow> 32 arr \<Rightarrow> 32 arr list \<Rightarrow> nat \<Rightarrow> nat \<Rightarrow> frame \<Rightarrow> 'g session \<Rightarrow> 'g session" where
  "advanced R now b c0 hs k i f V =
     V\<lparr>s_recv_chain := chain_after R b c0 hs (Suc i), s_recv_ctr := f_ctr f, s_peer_pub := Some (f_sender_pub f),
       s_skipped := s_skipped V @ map (key_at R now b hs) [k..<i]\<rparr>"

lemma receiver_ok_advanced:
  assumes ro: "receiver_ok R b c0 hs k V" and i: "k \<le> i" "unat (f_ctr f) = b + Suc i"
  shows "receiver_ok R b c0 hs (Suc i) (advanced R now b c0 hs k i f V)"
proof -
  have "\<exists>j<Suc i. key3 x = frame_key R b hs j" if "x \<in> set (s_skipped (advanced R now b c0 hs k i f V))" for x
  proof -
    from that consider "x \<in> set (s_skipped V)" | j where "j < i" "x = key_at R now b hs j"
      by (auto simp: advanced_def)
    then show ?thesis
    proof cases
      case 1
      with ro obtain j where "j < k" "key3 x = frame_key R b hs j" unfolding receiver_ok_def by blast
      with i(1) show ?thesis by (intro exI [of _ j]) simp
    next
      case 2
      have "key3 x = frame_key R b hs j" unfolding 2 by (simp add: key_at_def split: prod.splits)
      with 2(1) show ?thesis by (intro exI [of _ j]) simp
    qed
  qed
  with i show ?thesis by (simp add: receiver_ok_def advanced_def)
qed

lemma next_epoch_frame:
  assumes "next_epoch R b c0 hs H S V r" and "r \<le> i" and "i < length H"
  obtains ct where "snd (H ! i) =
    \<lparr>f_ctr = lk_ctr b i, f_pn = of_nat (b + r), f_sender_pub = my_pub R S, f_mixed_with = Some (my_pub R V),
     f_pq_ct = s_epoch_pq_ct S, f_ct = ct\<rparr>"
proof -
  have "\<exists>ct. snd (H ! i) = \<lparr>f_ctr = lk_ctr b i, f_pn = of_nat (b + r), f_sender_pub = my_pub R S,
     f_mixed_with = Some (my_pub R V), f_pq_ct = s_epoch_pq_ct S, f_ct = ct\<rparr>"
    using assms by (simp add: next_epoch_def)
  with that show thesis by blast
qed

lemma dir_ok_advance:
  assumes dir: "dir_ok R b c0 hs H S V k r" and i: "k \<le> i" "i < length H" "H ! i = (payload, f)"
    and V': "V' = advanced R now b c0 hs k i f V"
  shows "i < r \<Longrightarrow> dir_ok R b c0 hs H S V' (Suc i) r \<and> s_peer_pub V' = s_peer_pub V"
    and "r \<le> i \<Longrightarrow> dir_ok R b c0 hs H S V' (Suc i) (length H) \<and> s_peer_pub V' = Some (my_pub R S)"
proof -
  have so: "sender_ok R b c0 hs H S" and ro: "receiver_ok R b c0 hs k V"
    and se: "same_epoch R b c0 hs H V k r" and ne: "next_epoch R b c0 hs H S V r" and kr: "k \<le> r" "r \<le> length H"
    using dir by (simp_all add: dir_ok_def)
  have "entry_ok R b hs i (payload, f)" using so i by (auto simp: sender_ok_def)
  then have "unat (f_ctr f) = b + Suc i" using sender_range(1) [OF so i(2)] by (simp add: entry_ok_def)
  from receiver_ok_advanced [OF ro i(1) this] have ro': "receiver_ok R b c0 hs (Suc i) V'" by (simp add: V')
  have p: "s_peer_pub V' = Some (f_sender_pub (snd (H ! i)))" using i(3) by (simp add: V' advanced_def)
  show "dir_ok R b c0 hs H S V' (Suc i) r \<and> s_peer_pub V' = s_peer_pub V" if "i < r"
  proof -
    have p': "s_peer_pub V' = s_peer_pub V"
      using bspec [OF se [unfolded same_epoch_def], of i] that i p by simp
    have "next_epoch R b c0 hs H S V' r" using ne by (simp add: V' advanced_def next_epoch_def my_pub_def)
    moreover have "same_epoch R b c0 hs H V' (Suc i) r" using se i(1) p' by (simp add: same_epoch_def)
    ultimately show ?thesis using so ro' kr that p' by (simp add: dir_ok_def)
  qed
  show "dir_ok R b c0 hs H S V' (Suc i) (length H) \<and> s_peer_pub V' = Some (my_pub R S)" if "r \<le> i"
  proof -
    have pub: "f_sender_pub (snd (H ! j)) = my_pub R S" if "r \<le> j" "j < length H" for j
      by (rule next_epoch_frame [OF ne that]) simp
    have "same_epoch R b c0 hs H V' (Suc i) (length H)"
      using pub ne that p pub [OF that i(2)] by (simp add: same_epoch_def next_epoch_def)
    then show ?thesis using so ro' i(2) p pub [OF that i(2)] by (simp add: dir_ok_def next_epoch_def)
  qed
qed

text \<open>
  A receiver offered a frame of its peer's history: it advances exactly as the derivation says, or
  uses a retained key, and in both cases the payload is the one that was sent.
\<close>

lemma receive_genuine:
  assumes dir: "dir_ok R b c0 hs H S V k r" and f: "f \<in> snd ` set H"
    and new: "r < length H \<longrightarrow> Some (my_pub R S) \<noteq> s_peer_pub V"
    and rx: "receive_at R f now V = (V', Inr p)"
  obtains (retained) "(p, f) \<in> set H" "weaker_recv V V'" "same_send V V'"
  | (entered) i where "k \<le> i" "i < length H" "H ! i = (p, f)"
      "V' = prune_skipped now (advanced R now b c0 hs k i f (prune_skipped now V))"
proof -
  let ?V = "prune_skipped now V"
  have dir': "dir_ok R b c0 hs H S ?V k r"
    by (rule dir_ok_weaken [OF dir _ prune_weaker(1)]) simp_all
  have so: "sender_ok R b c0 hs H S" and ro: "receiver_ok R b c0 hs k ?V" using dir' by (simp_all add: dir_ok_def)
  from f obtain p0 where "(p0, f) \<in> set H" by auto
  with so obtain i where i: "i < length H" "H ! i = (p0, f)" "f_ctr f = lk_ctr b i" "unat (f_ctr f) = b + i + 1"
    by (rule entry_of)
  have e: "entry_ok R b hs i (p0, f)" using so i by (auto simp: sender_ok_def)
  from rx show thesis
  proof (cases rule: receive_at_cases)
    case (skipped payload ys x zs)
    from ro skipped(3) obtain j where j: "j < k" "key3 x = frame_key R b hs j"
      unfolding receiver_ok_def by fastforce
    have "lk_ctr b j = lk_ctr b i" using j(2) skipped(4) i(3) by (simp add: frame_key_def)
    moreover have "j < length H" using j(1) dir by (simp add: dir_ok_def)
    ultimately have "j = i" using sender_range(1) [OF so] i(1) by (metis add_left_imp_eq add_right_imp_eq)
    with j(2) have k3: "frame_key R b hs i = key3 x" by simp
    with e skipped(1,5) have "payload = p0" "p = payload" by (auto simp: entry_ok_def)
    moreover have "weaker_recv V V'" "same_send V V'"
      using prune_weaker [of V now] remove_weaker [OF skipped(3)] unfolding skipped(6)
      by (auto simp: weaker_recv_def same_send_def)
    moreover have "(p0, f) \<in> set H" using nth_mem [OF i(1)] i(2) by simp
    ultimately show thesis using retained by simp
  next
    case (advanced payload nxt pp ks)
    have "s_recv_ctr ?V < f_ctr f" "unat (s_recv_ctr ?V) = b + k" using advanced(2) ro by (simp_all add: receiver_ok_def)
    then have ki: "k \<le> i" using i(4) by (simp add: word_less_nat_alt)
    have "f_pn f < f_ctr f" using e by (auto simp: entry_ok_def frame_ok_def)
    then have "total_gap f ?V = i - k"
      using gap_sum(2) [of ?V f] advanced(2) ro i(4) by (simp add: receiver_ok_def)
    then have "length (s_skipped ?V) + (i - k) \<le> MAX_SKIP"
      using advanced(3) by (elim receive_advance_InrE) simp
    with advance_genuine [OF dir' ki i(1,2)] new advanced(1,3)
    have *: "nxt = chain_after R b c0 hs (Suc i)" "pp = Some (f_sender_pub f)" "ks = map (key_at R now b hs) [k..<i]" "p = p0"
      by auto
    show thesis using ki i(1,2) advanced(4)
      by (intro entered [of i]) (simp_all add: * Ratchet_Link.advanced_def)
  qed simp
qed

section \<open>Sending\<close>

lemma sealed_opens:
  assumes "aead_ok (ro_seal128 R) (ro_open128 R)" and "seal R mk nonce payload hdr = Some ct"
    and "length payload < 65536"
  shows "open_ct R mk nonce ct hdr = Some payload"
  using aead_ok_sealE [OF assms(1,3), of "arr_pad (take 16 (list_of mk))" "list_of nonce" hdr] assms(2)
  by (auto simp: seal_def open_ct_def)

text \<open>
  A send that does not rotate extends the chain; the frame carries the key and the epoch data the
  session already had.
\<close>

definition rotates :: "'g session \<Rightarrow> bool" where
  "rotates s \<longleftrightarrow> s_peer_pub s \<noteq> None \<and> s_peer_pub s \<noteq> s_mixed_peer s"

definition sealed_frame :: "('g, 'h) ratchet_ops \<Rightarrow> u64 \<Rightarrow> 32 arr \<Rightarrow> bytes \<Rightarrow> frame \<Rightarrow> bool" where
  "sealed_frame R ctr chain payload f \<longleftrightarrow>
     (case chain_step R chain ctr of (nxt, mk, nonce) \<Rightarrow>
        \<exists>hdr. header_bytes f = Inr hdr \<and> seal R mk nonce payload hdr = Some (f_ct f))"

definition epoch_frame :: "('g, 'h) ratchet_ops \<Rightarrow> 'g session \<Rightarrow> bytes \<Rightarrow> frame" where
  "epoch_frame R s ct =
     \<lparr>f_ctr = s_send_ctr s + 1, f_pn = saturating_sub (s_send_rotated_at s) 1, f_sender_pub = my_pub R s,
      f_mixed_with = s_mixed_peer s, f_pq_ct = s_epoch_pq_ct s, f_ct = ct\<rparr>"

lemma send_at_cases:
  assumes "send_at R payload now s = (s', Inr f)"
  obtains s1 chain where
    "if rotates s then begin_epoch R now (s_send_ctr s + 1) (the (s_peer_pub s)) s = (s1, Inr chain)
     else s1 = s \<and> chain = s_send_chain s"
    "f = (epoch_frame R s1 (f_ct f))\<lparr>f_ctr := s_send_ctr s + 1\<rparr>" "sealed_frame R (s_send_ctr s + 1) chain payload f"
    "s' = s1\<lparr>s_send_chain := fst (chain_step R chain (s_send_ctr s + 1)), s_send_ctr := s_send_ctr s + 1,
       s_sent_since_pq := saturating_add (s_sent_since_pq s1) 1\<rparr>"
proof -
  let ?e = "if rotates s then begin_epoch R now (s_send_ctr s + 1) (the (s_peer_pub s)) s else (s, Inr (s_send_chain s))"
  obtain s1 r1 where e: "?e = (s1, r1)" by fastforce
  have rot: "(case s_peer_pub s of Some peer \<Rightarrow> Some peer \<noteq> s_mixed_peer s | None \<Rightarrow> False) = rotates s"
    by (auto simp: rotates_def split: option.splits)
  show thesis
  proof (cases r1)
    case (Inl x)
    with assms e show thesis by (simp add: send_at_def Let_def rot)
  next
    case (Inr chain)
    show thesis
      by (rule that [of s1 chain])
        (use assms e Inr in \<open>auto simp: send_at_def Let_def rot epoch_frame_def sealed_frame_def header_bytes_def
          split: prod.splits sum.splits if_splits\<close>)
  qed
qed

lemma chain_after_append: "i \<le> length hs \<Longrightarrow> chain_after R b c0 (hs @ [c]) i = chain_after R b c0 hs i"
  by (cases i) (simp_all add: chain_after_def nth_append)

lemma frame_key_append: "i < length hs \<Longrightarrow> frame_key R b (hs @ [c]) i = frame_key R b hs i"
  by (simp add: frame_key_def nth_append)

lemma receiver_ok_append:
  "receiver_ok R b c0 hs k V \<Longrightarrow> k \<le> length hs \<Longrightarrow> receiver_ok R b c0 (hs @ [c]) k V"
  unfolding receiver_ok_def by (auto simp: chain_after_append frame_key_append) (metis frame_key_append less_le_trans)

lemma send_ctr_next:
  assumes "sender_ok R b c0 hs H S" and "s_send_ctr S < - 1"
  shows "s_send_ctr S + 1 = lk_ctr b (length H)" and "unat (s_send_ctr S + 1) = b + length H + 1"
proof -
  have u: "unat (s_send_ctr S) = b + length H" using assms(1) by (simp add: sender_ok_def)
  then have "s_send_ctr S = of_nat (b + length H)" by (rule unat_of_nat_eq_iff_u64)
  then show c: "s_send_ctr S + 1 = lk_ctr b (length H)" by (simp add: lk_ctr_def)
  have "unat (s_send_ctr S) < unat (- 1 :: u64)" using assms(2) by (simp add: word_less_nat_alt)
  then have "b + length H + 1 < 2 ^ 64" using u by (simp add: unsigned_minus_1_eq_mask mask_eq_exp_minus_1)
  then show "unat (s_send_ctr S + 1) = b + length H + 1" unfolding c by (rule unat_lk_ctr)
qed

text \<open>What one successful send appends: the sender's side of the direction.\<close>

lemma sender_ok_append:
  assumes aead: "aead_ok (ro_seal128 R) (ro_open128 R)" and so: "sender_ok R b c0 hs H S"
    and lt: "s_send_ctr S < - 1" and f: "f_ctr f = s_send_ctr S + 1" "frame_ok f"
    and sealed: "sealed_frame R (s_send_ctr S + 1) chain payload f" "length payload < 65536"
    and S': "s_send_ctr S' = s_send_ctr S + 1" "s_send_chain S' = fst (chain_step R chain (s_send_ctr S + 1))"
      "s_send_rotated_at S' \<le> s_send_ctr S'" "\<forall>ct. s_epoch_pq_ct S' = Some ct \<longrightarrow> length ct = KEM_CT_LEN"
  shows "sender_ok R b c0 (hs @ [chain]) (H @ [(payload, f)]) S'"
proof -
  let ?n = "length H"
  note c = send_ctr_next [OF so lt]
  have len: "length hs = ?n" using so by (simp add: sender_ok_def)
  obtain nxt mk nonce where st: "chain_step R chain (lk_ctr b ?n) = (nxt, mk, nonce)" by (metis prod_cases3)
  with sealed(1) obtain hdr where h: "header_bytes f = Inr hdr" "seal R mk nonce payload hdr = Some (f_ct f)"
    by (auto simp: sealed_frame_def c(1))
  have "entry_ok R b (hs @ [chain]) ?n (payload, f)"
    using f h st sealed_opens [OF aead h(2) sealed(2)] len by (simp add: entry_ok_def c(1) frame_key_def nth_append)
  moreover have "entry_ok R b (hs @ [chain]) i (H ! i)" if "i < ?n" for i
    using so that len by (simp add: sender_ok_def entry_ok_def frame_key_append split: prod.splits)
  ultimately have "\<forall>i < length (H @ [(payload, f)]). entry_ok R b (hs @ [chain]) i ((H @ [(payload, f)]) ! i)"
    by (auto simp: nth_append less_Suc_eq)
  moreover have "s_send_chain S' = chain_after R b c0 (hs @ [chain]) (Suc ?n)"
    using S'(2) len by (simp add: chain_after_Suc nth_append c(1))
  ultimately show ?thesis using S' c(2) len by (simp add: sender_ok_def)
qed

text \<open>A send within the epoch the receiver is in, and a send of an epoch the receiver has not entered.\<close>

lemma same_epoch_append:
  assumes "same_epoch R b c0 hs H V k r" and "r \<le> length H" and "length hs = length H"
  shows "same_epoch R b c0 (hs @ [c]) (H @ [e]) V k r"
  using assms by (simp add: same_epoch_def nth_append chain_after_append)

lemma dir_ok_append_same:
  assumes dir: "dir_ok R b c0 hs H S V k (length H)"
    and so: "sender_ok R b c0 (hs @ [chain]) (H @ [(payload, f)]) S'"
    and same: "Some (f_sender_pub f) = s_peer_pub V" "chain = chain_after R b c0 hs (length H)"
  shows "dir_ok R b c0 (hs @ [chain]) (H @ [(payload, f)]) S' V k (Suc (length H))"
proof -
  have so0: "sender_ok R b c0 hs H S" and ro: "receiver_ok R b c0 hs k V"
    and se: "same_epoch R b c0 hs H V k (length H)" and k: "k \<le> length H"
    using dir by (simp_all add: dir_ok_def)
  have len: "length hs = length H" using so0 by (simp add: sender_ok_def)
  have "(hs @ [chain]) ! length H = chain_after R b c0 (hs @ [chain]) (length H)"
    using same(2) len by (simp add: nth_append chain_after_append)
  moreover have "Some (f_sender_pub (snd ((H @ [(payload, f)]) ! length H))) = s_peer_pub V" using same(1) by simp
  ultimately have "same_epoch R b c0 (hs @ [chain]) (H @ [(payload, f)]) V k (Suc (length H))"
    using same_epoch_append [OF se le_refl len, of chain "(payload, f)"] unfolding same_epoch_def
    by (auto simp only: atLeastLessThan_iff less_Suc_eq)
  moreover have "next_epoch R b c0 (hs @ [chain]) (H @ [(payload, f)]) S' V (Suc (length H))"
    by (simp add: next_epoch_def)
  ultimately show ?thesis using so receiver_ok_append [OF ro, of chain] k len by (simp add: dir_ok_def)
qed

lemma dir_ok_append_next:
  assumes dir: "dir_ok R b c0 hs H S V k r" and so: "sender_ok R b c0 (hs @ [chain]) (H @ [(payload, f)]) S'"
    and old: "r < length H \<Longrightarrow> chain = chain_after R b c0 hs (length H) \<and> my_pub R S' = my_pub R S
         \<and> s_epoch_pq_ct S' = s_epoch_pq_ct S"
    and f: "f = \<lparr>f_ctr = lk_ctr b (length H), f_pn = of_nat (b + r), f_sender_pub = my_pub R S',
           f_mixed_with = Some (my_pub R V), f_pq_ct = s_epoch_pq_ct S', f_ct = ct\<rparr>"
    and rot: "s_send_rotated_at S' = lk_ctr b r"
    and mixed: "epoch_mix R (s_my_kp V) (s_kem_dk V) (my_pub R S') (s_epoch_pq_ct S') (chain_after R b c0 hs r)
             = Some ((hs @ [chain]) ! r)"
  shows "dir_ok R b c0 (hs @ [chain]) (H @ [(payload, f)]) S' V k r"
proof -
  have so0: "sender_ok R b c0 hs H S" and ro: "receiver_ok R b c0 hs k V"
    and se: "same_epoch R b c0 hs H V k r" and ne: "next_epoch R b c0 hs H S V r" and kr: "k \<le> r" "r \<le> length H"
    using dir by (simp_all add: dir_ok_def)
  have len: "length hs = length H" using so0 by (simp add: sender_ok_def)
  have fr: "\<exists>ct. snd ((H @ [(payload, f)]) ! i) = \<lparr>f_ctr = lk_ctr b i, f_pn = of_nat (b + r),
      f_sender_pub = my_pub R S', f_mixed_with = Some (my_pub R V), f_pq_ct = s_epoch_pq_ct S', f_ct = ct\<rparr>"
    if i: "r \<le> i" "i < Suc (length H)" for i
  proof (cases "i = length H")
    case True
    then show ?thesis unfolding f by simp
  next
    case False
    with i have lt: "i < length H" by simp
    show ?thesis by (rule next_epoch_frame [OF ne i(1) lt]) (use old i lt in \<open>simp add: nth_append\<close>)
  qed
  have "(hs @ [chain]) ! i = chain_after R b c0 (hs @ [chain]) i" if i: "r < i" "i < Suc (length H)" for i
  proof (cases "i = length H")
    case True
    then show ?thesis using old i len by (simp add: nth_append chain_after_append)
  next
    case False
    with i have "hs ! i = chain_after R b c0 hs i" using ne by (simp add: next_epoch_def)
    then show ?thesis using False i len by (simp add: nth_append chain_after_append)
  qed
  with fr rot mixed kr len have "next_epoch R b c0 (hs @ [chain]) (H @ [(payload, f)]) S' V r"
    unfolding next_epoch_def by (simp add: chain_after_append)
  then show ?thesis
    using so receiver_ok_append [OF ro, of chain] same_epoch_append [OF se kr(2) len] kr len
    by (simp add: dir_ok_def)
qed

section \<open>Starting an epoch\<close>

lemma begin_epoch_ok:
  assumes ok: "ratchet_ok R" and e: "begin_epoch R now ctr (my_pub R V) S = (S1, Inr chain)" and kem: "kem_link R S V"
  shows "epoch_mix R (s_my_kp V) (s_kem_dk V) (my_pub R S1) (s_epoch_pq_ct S1) (s_send_chain S) = Some chain
    \<and> s_mixed_peer S1 = Some (my_pub R V) \<and> s_send_rotated_at S1 = ctr
    \<and> (\<forall>ct. s_epoch_pq_ct S1 = Some ct \<longrightarrow> length ct = KEM_CT_LEN)"
proof -
  note K = kem_okD [OF ratchet_okD(4) [OF ok]]
  obtain new_sk rng where rnd: "rand32 R (s_rng S) = (new_sk, rng)" by fastforce
  let ?c = "mix R (s_send_chain S) (list_of (ro_dh R new_sk (my_pub R V)))"
  have dh: "ro_dh R (s_my_kp V) (ro_xpub R new_sk) = ro_dh R new_sk (my_pub R V)"
    using ratchet_okD(3) [OF ok] by (simp add: dh_ok_def my_pub_def)
  let ?due = "s_pq_every S \<le> s_sent_since_pq S \<or> s_pq_after S \<le> elapsed now (s_last_pq S)"
  let ?s = "(rotate_self_key R new_sk (S\<lparr>s_rng := rng\<rparr>))\<lparr>s_mixed_peer := Some (my_pub R V), s_epoch_pq_ct := None\<rparr>"
  consider (plain) "(if ?due then s_peer_kem S else None) = None" | (pq) k where "?due" "s_peer_kem S = Some k"
    by (cases ?due; cases "s_peer_kem S") auto
  then show ?thesis
  proof cases
    case plain
    with e rnd have "S1 = ?s\<lparr>s_send_rotated_at := ctr\<rparr>" "chain = ?c" by (auto simp: begin_epoch_def Let_def cong: if_cong)
    then show ?thesis by (simp add: epoch_mix_def my_pub_def dh [unfolded my_pub_def])
  next
    case (pq k)
    with kem obtain d where d: "s_kem_dk V = Some d" "k = ro_kem_pub R d" by (auto simp: kem_link_def)
    obtain m rng' where m: "rand32 R rng = (m, rng')" by fastforce
    obtain ct ss where en: "ro_encaps R k m = (ct, ss)" by fastforce
    have dec: "ro_decaps R d ct = Some ss" "length ct = KEM_CT_LEN" using K(4) [of d m] K(3) [of k m] en d by simp_all
    have "S1 = ?s\<lparr>s_rng := rng', s_epoch_pq_ct := Some ct, s_sent_since_pq := 0, s_last_pq := now, s_send_rotated_at := ctr\<rparr>"
      "chain = mix R ?c ss"
      using e rnd m en pq ek_from_bytes_pub [OF ratchet_okD(4) [OF ok], of d] d
      by (auto simp: begin_epoch_def Let_def encaps_deterministic_def encaps_from_message_def)
    then show ?thesis using d dec by (simp add: epoch_mix_def my_pub_def dh [unfolded my_pub_def])
  qed
qed

text \<open>Sending always succeeds on a session that satisfies its invariant.\<close>

lemma begin_epoch_returns:
  assumes "session_inv R S"
  obtains S1 chain where "begin_epoch R now ctr peer S = (S1, Inr chain)"
proof -
  have "ek_from_bytes R k = Some k" if "s_peer_kem S = Some k" for k using assms that by (simp add: session_inv_def)
  then have "\<exists>S1 chain. begin_epoch R now ctr peer S = (S1, Inr chain)"
    by (auto simp: begin_epoch_def Let_def split: prod.splits option.splits)
  with that show thesis by blast
qed

lemma saturating_sub_1: "unat (c :: u64) = n + 1 \<Longrightarrow> saturating_sub c 1 = of_nat n"
  by (rule unat_of_nat_eq_iff_u64) (simp add: unat_saturating_sub)

lemma send_same_epoch:
  assumes aead: "aead_ok (ro_seal128 R) (ro_open128 R)" and so: "sender_ok R b c0 hs H S"
    and lt: "s_send_ctr S < - 1" and len: "length payload < 65536"
    and tx: "send_at R payload now S = (S', Inr f)" and no: "\<not> rotates S"
  shows "sender_ok R b c0 (hs @ [chain_after R b c0 hs (length H)]) (H @ [(payload, f)]) S'"
    and "f = \<lparr>f_ctr = lk_ctr b (length H), f_pn = saturating_sub (s_send_rotated_at S) 1, f_sender_pub = my_pub R S,
        f_mixed_with = s_mixed_peer S, f_pq_ct = s_epoch_pq_ct S, f_ct = f_ct f\<rparr>"
    and "s_my_kp S' = s_my_kp S \<and> s_mixed_peer S' = s_mixed_peer S \<and> s_epoch_pq_ct S' = s_epoch_pq_ct S
         \<and> s_send_rotated_at S' = s_send_rotated_at S"
proof -
  let ?ctr = "s_send_ctr S + 1"
  from tx no have f: "f = (epoch_frame R S (f_ct f))\<lparr>f_ctr := ?ctr\<rparr>"
    and sealed: "sealed_frame R ?ctr (s_send_chain S) payload f"
    and S': "S' = S\<lparr>s_send_chain := fst (chain_step R (s_send_chain S) ?ctr), s_send_ctr := ?ctr,
       s_sent_since_pq := saturating_add (s_sent_since_pq S) 1\<rparr>"
    by (auto elim!: send_at_cases)
  note c = send_ctr_next [OF so lt]
  have chain: "s_send_chain S = chain_after R b c0 hs (length H)" using so by (simp add: sender_ok_def)
  have rot: "s_send_rotated_at S \<le> s_send_ctr S" "\<forall>ct. s_epoch_pq_ct S = Some ct \<longrightarrow> length ct = KEM_CT_LEN"
    using so by (simp_all add: sender_ok_def)
  show f': "f = \<lparr>f_ctr = lk_ctr b (length H), f_pn = saturating_sub (s_send_rotated_at S) 1, f_sender_pub = my_pub R S,
        f_mixed_with = s_mixed_peer S, f_pq_ct = s_epoch_pq_ct S, f_ct = f_ct f\<rparr>"
    using f c(1) by (simp add: epoch_frame_def)
  have "unat (saturating_sub (s_send_rotated_at S) 1) < unat ?ctr"
    using rot(1) c(2) so by (simp add: unat_saturating_sub word_le_nat_alt sender_ok_def)
  then have ok: "frame_ok f" using rot(2) c(1)
    by (subst f') (auto simp: frame_ok_def pq_fits_def word_less_nat_alt KEM_CT_LEN_def split: option.splits)
  have "s_send_ctr S \<le> ?ctr" using c(2) so by (simp add: word_le_nat_alt sender_ok_def)
  with rot(1) have "s_send_rotated_at S' \<le> s_send_ctr S'" by (simp add: S')
  moreover have "f_ctr f = ?ctr" using f' c(1) by (metis frame.select_convs(1))
  ultimately show "sender_ok R b c0 (hs @ [chain_after R b c0 hs (length H)]) (H @ [(payload, f)]) S'"
    using sender_ok_append [OF aead so lt _ ok sealed len, of S'] rot(2) chain by (simp add: S')
  show "s_my_kp S' = s_my_kp S \<and> s_mixed_peer S' = s_mixed_peer S \<and> s_epoch_pq_ct S' = s_epoch_pq_ct S
         \<and> s_send_rotated_at S' = s_send_rotated_at S" by (simp add: S')
qed

lemma send_new_epoch:
  assumes ok: "ratchet_ok R" and so: "sender_ok R b c0 hs H S"
    and lt: "s_send_ctr S < - 1" and len: "length payload < 65536"
    and tx: "send_at R payload now S = (S', Inr f)" and rot: "rotates S" "s_peer_pub S = Some (my_pub R V)"
    and kem: "kem_link R S V"
  obtains chain where "sender_ok R b c0 (hs @ [chain]) (H @ [(payload, f)]) S'"
    "f = \<lparr>f_ctr = lk_ctr b (length H), f_pn = of_nat (b + length H), f_sender_pub = my_pub R S',
        f_mixed_with = Some (my_pub R V), f_pq_ct = s_epoch_pq_ct S', f_ct = f_ct f\<rparr>"
    "s_send_rotated_at S' = lk_ctr b (length H)" "s_mixed_peer S' = Some (my_pub R V)"
    "epoch_mix R (s_my_kp V) (s_kem_dk V) (my_pub R S') (s_epoch_pq_ct S') (chain_after R b c0 hs (length H)) = Some chain"
proof -
  let ?ctr = "s_send_ctr S + 1"
  from tx rot obtain S1 chain where e: "begin_epoch R now ?ctr (my_pub R V) S = (S1, Inr chain)"
    and f: "f = (epoch_frame R S1 (f_ct f))\<lparr>f_ctr := ?ctr\<rparr>" and sealed: "sealed_frame R ?ctr chain payload f"
    and S': "S' = S1\<lparr>s_send_chain := fst (chain_step R chain ?ctr), s_send_ctr := ?ctr,
       s_sent_since_pq := saturating_add (s_sent_since_pq S1) 1\<rparr>"
    by (auto elim!: send_at_cases)
  note E = begin_epoch_ok [OF ok e kem]
  note c = send_ctr_next [OF so lt]
  have chain: "s_send_chain S = chain_after R b c0 hs (length H)" using so by (simp add: sender_ok_def)
  have pub: "my_pub R S' = my_pub R S1" "s_epoch_pq_ct S' = s_epoch_pq_ct S1"
    "s_send_rotated_at S' = s_send_rotated_at S1" "s_mixed_peer S' = s_mixed_peer S1"
    by (simp_all add: S' my_pub_def)
  have pn: "saturating_sub ?ctr 1 = of_nat (b + length H)" using c(2) by (rule saturating_sub_1)
  have f': "f = \<lparr>f_ctr = lk_ctr b (length H), f_pn = of_nat (b + length H), f_sender_pub = my_pub R S',
        f_mixed_with = Some (my_pub R V), f_pq_ct = s_epoch_pq_ct S', f_ct = f_ct f\<rparr>"
    using f E c(1) pn by (simp add: epoch_frame_def pub)
  have "unat (saturating_sub ?ctr 1) < unat ?ctr" using c(2) by (simp add: unat_saturating_sub)
  then have okf: "frame_ok f" using E c(1) pn
    by (subst f') (auto simp: frame_ok_def pq_fits_def word_less_nat_alt KEM_CT_LEN_def pub split: option.splits)
  have "f_ctr f = ?ctr" using f' c(1) by (metis frame.select_convs(1))
  then have "sender_ok R b c0 (hs @ [chain]) (H @ [(payload, f)]) S'"
    using sender_ok_append [OF ratchet_okD(2) [OF ok] so lt _ okf sealed len, of S'] E by (simp add: S')
  with that [of chain] f' E c(1) chain show thesis by (simp add: pub)
qed

section \<open>The invariant is kept by every step\<close>

text \<open>
  The two directions and the phase in one place: \<open>D d\<close> is the direction from side \<open>d\<close>, \<open>x\<close> the side
  that may start or has started an epoch.
\<close>

definition phase :: "('g, 'h) ratchet_ops \<Rightarrow> 'g rlink \<Rightarrow> (bool \<Rightarrow> nat) \<Rightarrow> bool \<Rightarrow> bool" where
  "phase R l r x \<longleftrightarrow>
     r (\<not> x) = length (lk_sent l (\<not> x))
     \<and> (ready R (lk_sess l x) (lk_sess l (\<not> x)) \<and> r x = length (lk_sent l x)
        \<or> pending R (lk_sess l x) (lk_sess l (\<not> x)) \<and> r x < length (lk_sent l x))"

definition dirs ::
  "('g, 'h) ratchet_ops \<Rightarrow> 'g rlink \<Rightarrow> (bool \<Rightarrow> 32 arr) \<Rightarrow> (bool \<Rightarrow> 32 arr list) \<Rightarrow> (bool \<Rightarrow> nat) \<Rightarrow> (bool \<Rightarrow> nat) \<Rightarrow> bool" where
  "dirs R l c0 hs k r \<longleftrightarrow>
     (\<forall>d. dir_ok R (lk_base d) (c0 d) (hs d) (lk_sent l d) (lk_sess l d) (lk_sess l (\<not> d)) (k d) (r d))"

definition sides :: "('g, 'h) ratchet_ops \<Rightarrow> 'g rlink \<Rightarrow> bool" where
  "sides R l \<longleftrightarrow> (\<forall>d. session_inv R (lk_sess l d) \<and> kem_link R (lk_sess l d) (lk_sess l (\<not> d)))"

lemma rlink_inv_alt: "rlink_inv R l \<longleftrightarrow> sides R l \<and> (\<exists>c0 hs k r x. dirs R l c0 hs k r \<and> phase R l r x)"
  by (simp add: rlink_inv_def sides_def dirs_def phase_def)

lemma dirsD:
  "dirs R l c0 hs k r \<Longrightarrow>
     dir_ok R (lk_base d) (c0 d) (hs d) (lk_sent l d) (lk_sess l d) (lk_sess l (\<not> d)) (k d) (r d)"
  by (simp add: dirs_def)

lemma dirs_I:
  assumes "dir_ok R (lk_base d) (c0 d) (hs d) (lk_sent l d) (lk_sess l d) (lk_sess l (\<not> d)) (k d) (r d)"
    and "dir_ok R (lk_base (\<not> d)) (c0 (\<not> d)) (hs (\<not> d)) (lk_sent l (\<not> d)) (lk_sess l (\<not> d)) (lk_sess l d) (k (\<not> d)) (r (\<not> d))"
  shows "dirs R l c0 hs k r"
  using assms unfolding dirs_def by (cases d) (auto simp: all_bool_eq)

lemma phase_new:
  "phase R l r x \<Longrightarrow> r d < length (lk_sent l d) \<longrightarrow> Some (my_pub R (lk_sess l d)) \<noteq> s_peer_pub (lk_sess l (\<not> d))"
  unfolding phase_def pending_def by (cases "d = x") auto

text \<open>A change of one session that keeps its sending side and weakens its receiving side.\<close>

lemma rlink_inv_weaken:
  assumes inv: "rlink_inv R l" and s: "same_send (lk_sess l d) s'" and w: "weaker_recv (lk_sess l d) s'"
    and i: "session_inv R s'" and kem: "kem_link R s' (lk_sess l (\<not> d))" "kem_link R (lk_sess l (\<not> d)) s'"
  shows "rlink_inv R (l\<lparr>lk_sess := (lk_sess l)(d := s')\<rparr>)"
proof -
  let ?l = "l\<lparr>lk_sess := (lk_sess l)(d := s')\<rparr>"
  from inv obtain c0 hs k r x where D: "dirs R l c0 hs k r" and ph: "phase R l r x" and sd: "sides R l"
    by (auto simp: rlink_inv_alt)
  have "sides R ?l" using sd i kem by (auto simp: sides_def)
  moreover have "dirs R ?l c0 hs k r"
  proof (rule dirs_I [of _ d])
    show "dir_ok R (lk_base d) (c0 d) (hs d) (lk_sent ?l d) (lk_sess ?l d) (lk_sess ?l (\<not> d)) (k d) (r d)"
      using dir_ok_weaken [OF dirsD [OF D, of d] s, of "lk_sess l (\<not> d)"] by simp
    show "dir_ok R (lk_base (\<not> d)) (c0 (\<not> d)) (hs (\<not> d)) (lk_sent ?l (\<not> d)) (lk_sess ?l (\<not> d)) (lk_sess ?l d) (k (\<not> d)) (r (\<not> d))"
      using dir_ok_weaken [OF dirsD [OF D, of "\<not> d"], of "lk_sess l (\<not> d)" s'] w s
      by (simp add: same_send_def)
  qed
  moreover have "phase R ?l r x"
    using ph s w same_send_pub [OF s, of R] unfolding phase_def ready_def pending_def same_send_def weaker_recv_def
    by (cases "d = x") auto
  ultimately show ?thesis unfolding rlink_inv_alt by blast
qed

lemma kem_link_cong: "s_peer_kem S' = s_peer_kem S \<Longrightarrow> s_kem_dk V' = s_kem_dk V \<Longrightarrow> kem_link R S' V' = kem_link R S V"
  by (simp add: kem_link_def)

lemma rlink_inv_sides: "rlink_inv R l \<Longrightarrow> session_inv R (lk_sess l d)" "rlink_inv R l \<Longrightarrow> kem_link R (lk_sess l d) (lk_sess l (\<not> d))"
  by (simp_all add: rlink_inv_def)

lemma sides_update:
  assumes "sides R l" and "session_inv R V'"
    and "s_peer_kem V' = s_peer_kem (lk_sess l d)" and "s_kem_dk V' = s_kem_dk (lk_sess l d)"
  shows "sides R (l\<lparr>lk_sess := (lk_sess l)(d := V')\<rparr>)"
proof -
  have "kem_link R (lk_sess l d) (lk_sess l (\<not> d))" "kem_link R (lk_sess l (\<not> d)) (lk_sess l d)"
    using assms(1) spec [OF assms(1) [unfolded sides_def], of "\<not> d"] by (simp_all add: sides_def)
  with assms show ?thesis by (auto simp: sides_def kem_link_def)
qed

text \<open>The receiver advances over genuine frame number \<open>j\<close> of its peer, possibly into the peer's new epoch.\<close>

lemma rlink_inv_entered:
  assumes inv: "sides R l" "dirs R l c0 hs k r" "phase R l r x"
    and j: "k (\<not> d) \<le> j" "j < length (lk_sent l (\<not> d))" "lk_sent l (\<not> d) ! j = (p, f)"
    and V': "V' = prune_skipped now (advanced R now (lk_base (\<not> d)) (c0 (\<not> d)) (hs (\<not> d)) (k (\<not> d)) j f
        (prune_skipped now (lk_sess l d)))" and i: "session_inv R V'"
  shows "rlink_inv R (l\<lparr>lk_sess := (lk_sess l)(d := V')\<rparr>)"
proof -
  let ?V = "lk_sess l d" and ?S = "lk_sess l (\<not> d)" and ?l = "l\<lparr>lk_sess := (lk_sess l)(d := V')\<rparr>"
  let ?A = "advanced R now (lk_base (\<not> d)) (c0 (\<not> d)) (hs (\<not> d)) (k (\<not> d)) j f (prune_skipped now ?V)"
  let ?dir = "\<lambda>V. dir_ok R (lk_base (\<not> d)) (c0 (\<not> d)) (hs (\<not> d)) (lk_sent l (\<not> d)) ?S V"
  have ss: "same_send ?V V'" by (simp add: V' same_send_def advanced_def)
  have D1: "?dir (prune_skipped now ?V) (k (\<not> d)) (r (\<not> d))"
    by (rule dir_ok_weaken [OF dirsD [OF inv(2), of "\<not> d", simplified] _ prune_weaker(1)]) simp_all
  have D2: "?dir V' k' r'" if "?dir ?A k' r'" for k' r'
    unfolding V' by (rule dir_ok_weaken [OF that _ prune_weaker(1)]) simp_all
  have D3: "dir_ok R (lk_base d) (c0 d) (hs d) (lk_sent l d) V' ?S (k d) (r d)"
    by (rule dir_ok_weaken [OF dirsD [OF inv(2)] ss]) simp_all
  have pub: "s_peer_pub V' = s_peer_pub ?A" "s_mixed_peer V' = s_mixed_peer ?V" "my_pub R V' = my_pub R ?V"
    using ss same_send_pub [OF ss] by (simp_all add: V' same_send_def)
  note adv = dir_ok_advance [OF D1 j refl]
  have "\<exists>k' r' x'. dirs R ?l c0 hs k' r' \<and> phase R ?l r' x'"
  proof (cases "j < r (\<not> d)")
    case True
    from adv(1) [OF True] have a: "dirs R ?l c0 hs (k(\<not> d := Suc j)) r" and p: "s_peer_pub V' = s_peer_pub ?V"
      using D2 D3 pub by (auto intro!: dirs_I [of _ d])
    have "phase R ?l r x"
      using inv(3) p pub unfolding phase_def ready_def pending_def by (cases "d = x") auto
    with a show ?thesis by blast
  next
    case False
    then have ge: "r (\<not> d) \<le> j" by simp
    from adv(2) [OF ge] have a: "dirs R ?l c0 hs (k(\<not> d := Suc j)) (r(\<not> d := length (lk_sent l (\<not> d))))"
      and p: "s_peer_pub V' = Some (my_pub R ?S)"
      using D2 D3 pub by (auto intro!: dirs_I [of _ d])
    have lt: "r (\<not> d) < length (lk_sent l (\<not> d))" using ge j(2) by simp
    then have x: "x = (\<not> d)" using inv(3) unfolding phase_def by (cases "d = x") auto
    have "phase R ?l (r(\<not> d := length (lk_sent l (\<not> d)))) d"
      using inv(3) lt p pub unfolding phase_def x ready_def pending_def by auto
    with a show ?thesis by blast
  qed
  moreover have "sides R ?l" by (rule sides_update [OF inv(1) i]) (simp_all add: V' advanced_def)
  ultimately show ?thesis unfolding rlink_inv_alt by blast
qed

lemma rlink_inv_receive:
  assumes inv: "rlink_inv R l" and rx: "receive_at R f now (lk_sess l d) = (s', rr)"
    and genuine: "is_ok rr \<longrightarrow> f \<in> snd ` set (lk_sent l (\<not> d))"
  shows "rlink_inv R (l\<lparr>lk_sess := (lk_sess l)(d := s')\<rparr>)"
proof -
  let ?V = "lk_sess l d" and ?S = "lk_sess l (\<not> d)"
  have i: "session_inv R s'" by (rule receive_at_inv [OF rlink_inv_sides(1) [OF inv] rx])
  have sel: "s_peer_kem s' = s_peer_kem ?V" "s_kem_dk s' = s_kem_dk ?V" "same_send ?V s'"
    using rx by (cases rule: receive_at_cases; simp add: same_send_def)+
  have kem: "kem_link R s' ?S" "kem_link R ?S s'"
    using rlink_inv_sides(2) [OF inv, of d] rlink_inv_sides(2) [OF inv, of "\<not> d"] sel by (simp_all add: kem_link_def)
  note weaken = rlink_inv_weaken [OF inv sel(3) _ i kem]
  from inv obtain c0 hs k r x where sd: "sides R l" and D: "dirs R l c0 hs k r" and ph: "phase R l r x"
    by (auto simp: rlink_inv_alt)
  show ?thesis
  proof (cases rr)
    case (Inl e)
    have p: "s' = prune_skipped now ?V" using rx [unfolded Inl] by (cases rule: receive_at_cases) simp_all
    show ?thesis by (rule weaken) (simp add: p prune_weaker)
  next
    case (Inr p)
    with genuine have g: "f \<in> snd ` set (lk_sent l (\<not> d))" by simp
    have new: "r (\<not> d) < length (lk_sent l (\<not> d)) \<longrightarrow> Some (my_pub R ?S) \<noteq> s_peer_pub ?V"
      using phase_new [OF ph, of "\<not> d"] by simp
    from dirsD [OF D, of "\<not> d", simplified] g new rx [unfolded Inr] show ?thesis
    proof (cases rule: receive_genuine)
      case retained
      then show ?thesis by (intro weaken)
    next
      case (entered j)
      then show ?thesis using rlink_inv_entered [OF sd D ph entered(1-3) _ i] by simp
    qed
  qed
qed

text \<open>The three kinds of send, on the direction they extend.\<close>

lemma dir_send_pending:
  assumes ok: "ratchet_ok R" and dir: "dir_ok R b c0 hs H S V k r" and lt: "s_send_ctr S < - 1"
    and len: "length payload < 65536" and tx: "send_at R payload now S = (S', Inr f)"
    and no: "\<not> rotates S" and pn: "r < length H" "s_mixed_peer S = Some (my_pub R V)"
  shows "dir_ok R b c0 (hs @ [chain_after R b c0 hs (length H)]) (H @ [(payload, f)]) S' V k r"
proof -
  have so: "sender_ok R b c0 hs H S" and ne: "next_epoch R b c0 hs H S V r" using dir by (simp_all add: dir_ok_def)
  note sent = send_same_epoch [OF ratchet_okD(2) [OF ok] so lt len tx no]
  have pub: "my_pub R S' = my_pub R S" using sent(3) by (simp add: my_pub_def)
  have "unat (s_send_rotated_at S) = b + r + 1"
    using ne pn sender_range(1) [OF so, of r] by (simp add: next_epoch_def)
  then have f: "f = \<lparr>f_ctr = lk_ctr b (length H), f_pn = of_nat (b + r), f_sender_pub = my_pub R S',
      f_mixed_with = Some (my_pub R V), f_pq_ct = s_epoch_pq_ct S', f_ct = f_ct f\<rparr>"
    using sent(2,3) pn saturating_sub_1 [of "s_send_rotated_at S" "b + r"] by (simp add: pub)
  have m: "s_send_rotated_at S' = lk_ctr b r"
    "epoch_mix R (s_my_kp V) (s_kem_dk V) (my_pub R S') (s_epoch_pq_ct S') (chain_after R b c0 hs r)
       = Some ((hs @ [chain_after R b c0 hs (length H)]) ! r)"
    using ne pn sent(3) pub so by (simp_all add: next_epoch_def nth_append sender_ok_def)
  show ?thesis by (rule dir_ok_append_next [OF dir sent(1) _ f m]) (use sent(3) pub in simp)
qed

lemma dir_send_same:
  assumes ok: "ratchet_ok R" and dir: "dir_ok R b c0 hs H S V k (length H)" and lt: "s_send_ctr S < - 1"
    and len: "length payload < 65536" and tx: "send_at R payload now S = (S', Inr f)"
    and no: "\<not> rotates S" and p: "s_peer_pub V = Some (my_pub R S)"
  shows "dir_ok R b c0 (hs @ [chain_after R b c0 hs (length H)]) (H @ [(payload, f)]) S' V k (Suc (length H))"
proof -
  have so: "sender_ok R b c0 hs H S" using dir by (simp add: dir_ok_def)
  note sent = send_same_epoch [OF ratchet_okD(2) [OF ok] so lt len tx no]
  have "f_sender_pub f = my_pub R S" by (subst sent(2)) simp
  with p show ?thesis by (intro dir_ok_append_same [OF dir sent(1)]) simp_all
qed

lemma dir_send_rotate:
  assumes ok: "ratchet_ok R" and dir: "dir_ok R b c0 hs H S V k (length H)" and lt: "s_send_ctr S < - 1"
    and len: "length payload < 65536" and tx: "send_at R payload now S = (S', Inr f)"
    and rot: "rotates S" "s_peer_pub S = Some (my_pub R V)" and kem: "kem_link R S V"
  obtains chain where "dir_ok R b c0 (hs @ [chain]) (H @ [(payload, f)]) S' V k (length H)"
    "s_mixed_peer S' = Some (my_pub R V)"
proof -
  have so: "sender_ok R b c0 hs H S" using dir by (simp add: dir_ok_def)
  from ok so lt len tx rot kem obtain chain where
    so': "sender_ok R b c0 (hs @ [chain]) (H @ [(payload, f)]) S'"
    and f: "f = \<lparr>f_ctr = lk_ctr b (length H), f_pn = of_nat (b + length H), f_sender_pub = my_pub R S',
      f_mixed_with = Some (my_pub R V), f_pq_ct = s_epoch_pq_ct S', f_ct = f_ct f\<rparr>"
    and rot: "s_send_rotated_at S' = lk_ctr b (length H)" "s_mixed_peer S' = Some (my_pub R V)"
    and m: "epoch_mix R (s_my_kp V) (s_kem_dk V) (my_pub R S') (s_epoch_pq_ct S')
        (chain_after R b c0 hs (length H)) = Some chain"
    by (rule send_new_epoch)
  have lh: "length hs = length H" using so by (simp add: sender_ok_def)
  have "dir_ok R b c0 (hs @ [chain]) (H @ [(payload, f)]) S' V k (length H)"
    by (rule dir_ok_append_next [OF dir so' _ f rot(1)]) (use m lh in \<open>simp_all add: nth_append\<close>)
  with rot(2) that show thesis by blast
qed

lemma rlink_inv_send:
  assumes ok: "ratchet_ok R" and inv: "rlink_inv R l"
    and tx: "send_at R payload now (lk_sess l d) = (s', Inr f)" and len: "length payload < 65536"
    and lt: "s_send_ctr (lk_sess l d) < - 1"
    and fresh: "s_mixed_peer s' \<noteq> s_mixed_peer (lk_sess l d) \<longrightarrow> my_pub R s' \<noteq> my_pub R (lk_sess l d)"
  shows "rlink_inv R (l\<lparr>lk_sess := (lk_sess l)(d := s'), lk_sent := (lk_sent l)(d := lk_sent l d @ [(payload, f)])\<rparr>)"
proof -
  let ?S = "lk_sess l d" and ?V = "lk_sess l (\<not> d)" and ?H = "lk_sent l d" and ?b = "lk_base d"
  let ?l = "l\<lparr>lk_sess := (lk_sess l)(d := s'), lk_sent := (lk_sent l)(d := ?H @ [(payload, f)])\<rparr>"
  from inv obtain c0 hs k r x where sd: "sides R l" and D: "dirs R l c0 hs k r" and ph: "phase R l r x"
    by (auto simp: rlink_inv_alt)
  note Dd = dirsD [OF D, of d]
  note kept = send_at_recv(1) [OF tx]
  have w: "weaker_recv ?S s'" using kept by (simp add: weaker_recv_def same_recv_def)
  have other: "dir_ok R (lk_base (\<not> d)) (c0 (\<not> d)) (hs (\<not> d)) (lk_sent l (\<not> d)) ?V s' (k (\<not> d)) (r (\<not> d))"
    if "r (\<not> d) < length (lk_sent l (\<not> d)) \<longrightarrow> s_my_kp s' = s_my_kp ?S"
    by (rule dir_ok_weaken [OF dirsD [OF D, of "\<not> d", simplified] _ w that]) simp
  have both: "dirs R ?l c0 (hs(d := h')) k (r(d := r'))"
    if "dir_ok R ?b (c0 d) h' (?H @ [(payload, f)]) s' ?V (k d) r'"
      "r (\<not> d) < length (lk_sent l (\<not> d)) \<longrightarrow> s_my_kp s' = s_my_kp ?S" for h' r'
    by (rule dirs_I [of _ d]) (use that other in simp_all)
  have "\<exists>hs' r' x'. dirs R ?l c0 hs' k r' \<and> phase R ?l r' x'"
  proof (cases "rotates ?S")
    case no: False
    have so: "sender_ok R ?b (c0 d) (hs d) ?H ?S" using Dd by (simp add: dir_ok_def)
    note sel = send_same_epoch(3) [OF ratchet_okD(2) [OF ok] so lt len tx no]
    then have pub: "my_pub R s' = my_pub R ?S" by (simp add: my_pub_def)
    show ?thesis
    proof (cases "d = x")
      case True
      then have pn: "pending R ?S ?V" "r d < length ?H" using ph no by (auto simp: phase_def ready_def rotates_def)
      then have "s_mixed_peer ?S = Some (my_pub R ?V)" by (simp add: pending_def)
      from both [OF dir_send_pending [OF ok Dd lt len tx no pn(2) this]] sel
      have "dirs R ?l c0 (hs(d := hs d @ [chain_after R ?b (c0 d) (hs d) (length ?H)])) k (r(d := r d))" by simp
      moreover have "phase R ?l (r(d := r d)) x"
        using ph pn sel pub kept True unfolding phase_def pending_def same_recv_def by auto
      ultimately show ?thesis by blast
    next
      case False
      then have x: "x = (\<not> d)" by auto
      have r: "r d = length ?H" and p: "s_peer_pub ?V = Some (my_pub R ?S)"
        using ph unfolding phase_def x ready_def pending_def by auto
      from both [OF dir_send_same [OF ok Dd [unfolded r] lt len tx no p]] sel
      have "dirs R ?l c0 (hs(d := hs d @ [chain_after R ?b (c0 d) (hs d) (length ?H)])) k (r(d := Suc (length ?H)))" by simp
      moreover have "phase R ?l (r(d := Suc (length ?H))) x"
        using ph sel pub kept unfolding phase_def x ready_def pending_def same_recv_def by auto
      ultimately show ?thesis by blast
    qed
  next
    case True
    have "x = d" using ph True unfolding phase_def ready_def pending_def rotates_def by (cases "d = x") auto
    then have rd: "ready R ?S ?V" "r d = length ?H" and rb: "r (\<not> d) = length (lk_sent l (\<not> d))"
      using ph True unfolding phase_def pending_def rotates_def by auto
    have p: "s_peer_pub ?S = Some (my_pub R ?V)" using rd by (simp add: ready_def)
    from ok Dd [unfolded rd(2)] lt len tx True p rlink_inv_sides(2) [OF inv, of d] obtain chain where
      "dir_ok R ?b (c0 d) (hs d @ [chain]) (?H @ [(payload, f)]) s' ?V (k d) (length ?H)"
      and mx: "s_mixed_peer s' = Some (my_pub R ?V)" by (rule dir_send_rotate)
    from both [OF this(1)] rb have "dirs R ?l c0 (hs(d := hs d @ [chain])) k (r(d := length ?H))" by simp
    moreover have "phase R ?l (r(d := length ?H)) d"
      using rd rb mx p kept fresh unfolding phase_def ready_def pending_def same_recv_def by auto
    ultimately show ?thesis by blast
  qed
  moreover have "sides R ?l"
    using sides_update [OF sd send_at_inv [OF rlink_inv_sides(1) [OF inv] tx], of d] kept
    by (simp add: sides_def same_recv_def)
  ultimately show ?thesis unfolding rlink_inv_alt by blast
qed

lemma distinct_map_filter_eq:
  assumes "map g xs = map g (filter P ys)" and "distinct (map (h \<circ> g) ys)"
  shows "distinct (map (h \<circ> g) xs)"
proof -
  have "map (h \<circ> g) xs = map (h \<circ> g) (filter P ys)" using assms(1) by (metis map_map)
  with assms(2) show ?thesis by (simp add: distinct_map_filter)
qed

lemma restored_ok:
  assumes r: "restored s s'"
  shows "same_send s s'" and "weaker_recv s s'" and "session_inv R s \<Longrightarrow> session_inv R s'"
proof -
  from r obtain P where P: "map key3 (s_skipped s') = map key3 (filter P (s_skipped s))"
    by (auto simp: restored_def)
  have sub: "key3 ` set (s_skipped s') \<subseteq> key3 ` set (s_skipped s)" using arg_cong [OF P, of set] by auto
  show "same_send s s'" using r by (simp add: restored_def same_send_def)
  show "weaker_recv s s'" using r sub by (simp add: restored_def weaker_recv_def)
  show "session_inv R s'" if i: "session_inv R s"
  proof -
    have c: "fst \<circ> key3 = sk_ctr" by (simp add: fun_eq_iff)
    have "length (s_skipped s') \<le> length (s_skipped s)"
      using arg_cong [OF P, of length] length_filter_le [of P "s_skipped s"] by simp
    moreover have "distinct (map sk_ctr (s_skipped s'))"
      using distinct_map_filter_eq [OF P, of fst] i unfolding c by (simp add: session_inv_def)
    moreover have "sk_ctr k \<le> s_recv_ctr s'" if "k \<in> set (s_skipped s')" for k
    proof -
      from that sub obtain k' where "k' \<in> set (s_skipped s)" "key3 k = key3 k'" by blast
      then show ?thesis using i r by (auto simp: session_inv_def restored_def)
    qed
    ultimately show ?thesis using i r by (simp add: session_inv_def restored_def)
  qed
qed

lemma rlink_step_inv:
  assumes ok: "ratchet_ok R" and step: "rlink_step R l l'" and inv: "rlink_inv R l"
  shows "rlink_inv R l'"
  using step
proof cases
  case (send payload now d s' f)
  then show ?thesis using rlink_inv_send [OF ok inv] by blast
next
  case (receive f now d s' r)
  then show ?thesis using rlink_inv_receive [OF inv] by blast
next
  case (restore d s')
  note rs = restored_ok [OF restore(2)]
  have "kem_link R s' (lk_sess l (\<not> d))" "kem_link R (lk_sess l (\<not> d)) s'"
    using rlink_inv_sides(2) [OF inv, of d] rlink_inv_sides(2) [OF inv, of "\<not> d"] restore(2)
    by (simp_all add: kem_link_def restored_def)
  with rs(1,2) rs(3) [OF rlink_inv_sides(1) [OF inv]] show ?thesis
    unfolding restore(1) by (intro rlink_inv_weaken [OF inv])
next
  case (peer_kem d dk s')
  then have s': "s' = (lk_sess l d)\<lparr>s_peer_kem := Some (ro_kem_pub R dk)\<rparr>"
    and k: "ek_from_bytes R (ro_kem_pub R dk) = Some (ro_kem_pub R dk)"
    by (auto simp: provide_peer_kem_def reject_def ek_from_bytes_def split: if_splits)
  have "kem_link R s' (lk_sess l (\<not> d))" "kem_link R (lk_sess l (\<not> d)) s'"
    using rlink_inv_sides(2) [OF inv, of "\<not> d"] peer_kem(2) by (simp_all add: kem_link_def s')
  with rlink_inv_sides(1) [OF inv, of d] k show ?thesis
    unfolding peer_kem(1) by (intro rlink_inv_weaken [OF inv]) (simp_all add: s' same_send_def weaker_recv_def session_inv_def)
next
  case (local_kem d dk)
  let ?s = "provide_local_kem dk (lk_sess l d)"
  have "kem_link R ?s (lk_sess l (\<not> d))" "kem_link R (lk_sess l (\<not> d)) ?s"
    using rlink_inv_sides(2) [OF inv, of d] local_kem(3) by (simp_all add: kem_link_def provide_local_kem_def)
  with rlink_inv_sides(1) [OF inv, of d] local_kem(2) show ?thesis
    unfolding local_kem(1)
    by (intro rlink_inv_weaken [OF inv]) (simp_all add: provide_local_kem_def same_send_def weaker_recv_def session_inv_def)
qed

lemma rlink_reach_inv:
  assumes "rlink_reach R l0 l" and "ratchet_ok R" and "rlink_inv R l0"
  shows "rlink_inv R l"
  using assms by (induction rule: rlink_reach.induct) (auto intro: rlink_step_inv)

section \<open>Delivery\<close>

text \<open>A genuine frame offered to a receiver, in any state that satisfies the invariant.\<close>

lemma deliver_ahead:
  assumes inv: "rlink_inv R l" and sent: "(p, f) \<in> set (lk_sent l (\<not> d))"
    and ahead: "s_recv_ctr (lk_sess l d) < f_ctr f"
    and room: "length (s_skipped (prune_skipped now (lk_sess l d)))
       + (unat (f_ctr f) - 1 - unat (s_recv_ctr (lk_sess l d))) \<le> MAX_SKIP"
  shows "\<exists>s'. receive_at R f now (lk_sess l d) = (s', Inr p) \<and> s_recv_ctr s' = f_ctr f"
proof -
  let ?P = "prune_skipped now (lk_sess l d)"
  from inv obtain c0 hs k r x where D: "dirs R l c0 hs k r" and ph: "phase R l r x" by (auto simp: rlink_inv_alt)
  have D1: "dir_ok R (lk_base (\<not> d)) (c0 (\<not> d)) (hs (\<not> d)) (lk_sent l (\<not> d)) (lk_sess l (\<not> d)) ?P (k (\<not> d)) (r (\<not> d))"
    by (rule dir_ok_weaken [OF dirsD [OF D, of "\<not> d", simplified] _ prune_weaker(1)]) simp_all
  then have so: "sender_ok R (lk_base (\<not> d)) (c0 (\<not> d)) (hs (\<not> d)) (lk_sent l (\<not> d)) (lk_sess l (\<not> d))"
    and rc: "unat (s_recv_ctr (lk_sess l d)) = lk_base (\<not> d) + k (\<not> d)" by (simp_all add: dir_ok_def receiver_ok_def)
  from so sent obtain i where i: "i < length (lk_sent l (\<not> d))" "lk_sent l (\<not> d) ! i = (p, f)"
    "unat (f_ctr f) = lk_base (\<not> d) + i + 1" by (rule entry_of)
  have ki: "k (\<not> d) \<le> i" "length (s_skipped ?P) + (i - k (\<not> d)) \<le> MAX_SKIP"
    using ahead room rc i(3) by (simp_all add: word_less_nat_alt)
  have new: "r (\<not> d) < length (lk_sent l (\<not> d)) \<longrightarrow> Some (my_pub R (lk_sess l (\<not> d))) \<noteq> s_peer_pub ?P"
    using phase_new [OF ph, of "\<not> d"] by simp
  from advance_genuine [OF D1 ki(1) i(1,2) new ki(2)] ahead show ?thesis
    by (simp add: receive_at_def Let_def not_le [symmetric])
qed

lemma deliver_genuine_payload:
  assumes inv: "rlink_inv R l" and sent: "f \<in> snd ` set (lk_sent l (\<not> d))"
    and rx: "receive_at R f now (lk_sess l d) = (s', Inr p)"
  shows "(p, f) \<in> set (lk_sent l (\<not> d))"
proof -
  from inv obtain c0 hs k r x where D: "dirs R l c0 hs k r" and ph: "phase R l r x" by (auto simp: rlink_inv_alt)
  have new: "r (\<not> d) < length (lk_sent l (\<not> d)) \<longrightarrow> Some (my_pub R (lk_sess l (\<not> d))) \<noteq> s_peer_pub (lk_sess l d)"
    using phase_new [OF ph, of "\<not> d"] by simp
  from dirsD [OF D, of "\<not> d", simplified] sent new rx show ?thesis
    by (cases rule: receive_genuine) (auto dest: nth_mem)
qed

lemma deliver_retained:
  assumes inv: "rlink_inv R l" and sent: "(p, f) \<in> set (lk_sent l (\<not> d))"
    and key: "x \<in> set (s_skipped (prune_skipped now (lk_sess l d)))" "sk_ctr x = f_ctr f"
  shows "\<exists>s'. receive_at R f now (lk_sess l d) = (s', Inr p)"
proof -
  let ?P = "prune_skipped now (lk_sess l d)"
  from inv obtain c0 hs k r where D: "dirs R l c0 hs k r" by (auto simp: rlink_inv_alt)
  let ?b = "lk_base (\<not> d)" and ?h = "hs (\<not> d)" and ?H = "lk_sent l (\<not> d)"
  have D1: "dir_ok R ?b (c0 (\<not> d)) ?h ?H (lk_sess l (\<not> d)) ?P (k (\<not> d)) (r (\<not> d))"
    by (rule dir_ok_weaken [OF dirsD [OF D, of "\<not> d", simplified] _ prune_weaker(1)]) simp_all
  then have so: "sender_ok R ?b (c0 (\<not> d)) ?h ?H (lk_sess l (\<not> d))"
    and ro: "receiver_ok R ?b (c0 (\<not> d)) ?h (k (\<not> d)) ?P" by (simp_all add: dir_ok_def)
  from so sent obtain i where i: "i < length ?H" "?H ! i = (p, f)" "f_ctr f = lk_ctr ?b i" by (rule entry_of)
  have e: "entry_ok R ?b ?h i (p, f)" using so i by (auto simp: sender_ok_def)
  have P: "session_inv R ?P" using rlink_inv_sides(1) [OF inv] by (rule prune_skipped_inv)
  have le: "f_ctr f \<le> s_recv_ctr ?P" using P key by (auto simp: session_inv_def)
  from key obtain n where pos: "position (\<lambda>y. sk_ctr y = f_ctr f) (s_skipped ?P) = Some n"
    by (cases "position (\<lambda>y. sk_ctr y = f_ctr f) (s_skipped ?P)") (auto simp: position_None)
  then obtain ys y zs where y: "s_skipped ?P = ys @ y # zs" "length ys = n" "sk_ctr y = f_ctr f"
    by (rule position_SomeE)
  from ro y(1) obtain j where j: "j < k (\<not> d)" "key3 y = frame_key R ?b ?h j"
    unfolding receiver_ok_def by fastforce
  have "lk_ctr ?b j = lk_ctr ?b i" using j(2) y(3) i(3) by (simp add: frame_key_def)
  moreover have "j < length ?H" using j(1) D1 by (simp add: dir_ok_def)
  ultimately have "j = i" using sender_range(1) [OF so] i(1) by (metis add_left_imp_eq add_right_imp_eq)
  with j(2) have "frame_key R ?b ?h i = key3 y" by simp
  with e obtain hdr where "header_bytes f = Inr hdr" "open_ct R (sk_mk y) (sk_nonce y) (f_ct f) hdr = Some p"
    by (auto simp: entry_ok_def)
  moreover have "s_skipped ?P ! n = y" using y by auto
  ultimately show ?thesis using le pos by (simp add: receive_at_def receive_skipped_def Let_def)
qed

end
