(* ===== verification/Ratchet_Handshake.thy ===== *)
theory Ratchet_Handshake
  imports Ratchet_Link
begin

text \<open>
  From bundle to conversation: the authenticated handshake of \<open>crates/crypto/src/session.rs\<close> between
  an initiator that holds the responder's bundle and the responder that holds its secrets gives two
  sessions that satisfy the link invariant; hence end-to-end delivery from the handshake on.
\<close>

section \<open>The handshake\<close>

definition rlink_of :: "'g session \<Rightarrow> 'g session \<Rightarrow> 'g rlink" where
  "rlink_of a b = \<lparr>lk_sess = (\<lambda>d. if d then a else b), lk_sent = (\<lambda>_. [])\<rparr>"

lemma rlink_of_inject [simp]: "rlink_of a b = rlink_of a' b' \<longleftrightarrow> a = a' \<and> b = b'"
  by (auto simp: rlink_of_def fun_eq_iff split: if_splits)

lemma rlink_of_sess [simp]: "lk_sess (rlink_of a b) True = a" "lk_sess (rlink_of a b) False = b"
  by (simp_all add: rlink_of_def)

lemma rlink_of_inv:
  assumes "session_inv R a" "session_inv R b"
    and "s_send_chain a = s_recv_chain b" "s_send_chain b = s_recv_chain a"
    and "s_send_ctr a = 1" "s_recv_ctr a = 0" "s_send_ctr b = 0" "s_recv_ctr b = 1"
    and "s_send_rotated_at a = 1" "s_send_rotated_at b = 0" "s_epoch_pq_ct a = None" "s_epoch_pq_ct b = None"
    and "s_skipped a = []" "s_skipped b = []"
    and "s_peer_pub a = None" "s_mixed_peer a = None" "s_peer_pub b = Some (my_pub R a)" "s_mixed_peer b = None"
    and "kem_link R a b" "kem_link R b a"
  shows "rlink_inv R (rlink_of a b)"
proof -
  have "sides R (rlink_of a b)" using assms by (auto simp: sides_def rlink_of_def)
  moreover have "dirs R (rlink_of a b) (\<lambda>d. if d then s_send_chain a else s_send_chain b) (\<lambda>_. []) (\<lambda>_. 0) (\<lambda>_. 0)"
    using assms by (intro dirs_I [of _ True])
      (simp_all add: rlink_of_def dir_ok_def sender_ok_def receiver_ok_def same_epoch_def next_epoch_def lk_base_def chain_after_def)
  moreover have "phase R (rlink_of a b) (\<lambda>_. 0) False"
    using assms by (simp add: phase_def rlink_of_def ready_def)
  ultimately show ?thesis unfolding rlink_inv_alt by blast
qed

definition rlink_start :: "('g, 'h) ratchet_ops \<Rightarrow> 'g rlink \<Rightarrow> bool" where
  "rlink_start R l \<longleftrightarrow>
     (\<exists>pk b secrets material rng now build fm a ratchet rng' now' payload s.
        public_material R secrets = (b_ecdh_pub b, b_kem_pub b)
        \<and> initiate_core R pk b material rng now build = Inr (fm, a)
        \<and> length (build (fm_eph_pub fm) (fm_kem_ct fm) (fm_nonce fm)) < 65504
        \<and> accept_from_material_at R secrets fm ratchet rng' now' = Inr (payload, s)
        \<and> l = rlink_of a s)"

lemma initiate_core_InrE:
  assumes "initiate_core R pk b material rng now build = Inr (fm, a)"
  obtains kem_ct pq_ss nx mk nonce hdr where
    "ek_from_bytes R (b_kem_pub b) = Some (b_kem_pub b)"
    "ro_encaps R (b_kem_pub b) (im_kem_message material) = (kem_ct, pq_ss)"
    "chain_step R (dir_key R (handshake_root R (ro_xpub R (im_eph material)) (im_nonce material)
        (ro_dh R (im_eph material) (b_ecdh_pub b)) pq_ss) (lit ''a2b'')) 1 = (nx, mk, nonce)"
    "fm_eph_pub fm = ro_xpub R (im_eph material)" "fm_kem_ct fm = kem_ct" "fm_nonce fm = im_nonce material"
    "first_move_header fm = Inr hdr"
    "seal R mk nonce (list_of (ro_xpub R (im_ratchet material)) @ build (fm_eph_pub fm) kem_ct (fm_nonce fm)) hdr = Some (fm_ct fm)"
    "a = \<lparr>s_send_chain = nx, s_recv_chain = dir_key R (handshake_root R (ro_xpub R (im_eph material))
          (im_nonce material) (ro_dh R (im_eph material) (b_ecdh_pub b)) pq_ss) (lit ''b2a''), s_send_ctr = 1, s_recv_ctr = 0,
          s_my_kp = im_ratchet material, s_old_kps = [], s_peer_pub = None, s_skipped = [], s_send_rotated_at = 1,
          s_mixed_peer = None, s_epoch_pq_ct = None, s_peer_kem = Some (b_kem_pub b), s_kem_dk = None,
          s_sent_since_pq = 1, s_pq_every = DEFAULT_PQ_EVERY_MSGS, s_pq_after = DEFAULT_PQ_AFTER,
          s_last_pq = now, s_rng = rng\<rparr>"
proof -
  have ek: "ek_from_bytes R (b_kem_pub b) = Some (b_kem_pub b)"
    using assms by (auto simp: initiate_core_def ek_from_bytes_def split: if_splits)
  obtain kem_ct pq_ss where en: "ro_encaps R (b_kem_pub b) (im_kem_message material) = (kem_ct, pq_ss)" by fastforce
  obtain nx mk nonce where st: "chain_step R (dir_key R (handshake_root R (ro_xpub R (im_eph material)) (im_nonce material)
        (ro_dh R (im_eph material) (b_ecdh_pub b)) pq_ss) (lit ''a2b'')) 1 = (nx, mk, nonce)" by (metis prod_cases3)
  from assms obtain n ct where "len16 kem_ct = Inr n"
    and "seal R mk nonce (list_of (ro_xpub R (im_ratchet material)) @ build (ro_xpub R (im_eph material)) kem_ct (im_nonce material))
       (list_of (ro_xpub R (im_eph material)) @ be16 n @ kem_ct @ list_of (im_nonce material)) = Some ct"
    and "fm = \<lparr>fm_eph_pub = ro_xpub R (im_eph material), fm_kem_ct = kem_ct, fm_nonce = im_nonce material, fm_ct = ct\<rparr>"
    by (auto simp: initiate_core_def ek encaps_from_message_def en st Let_def first_move_header_def)
  then show thesis
    by (intro that [OF ek en st]) (use assms in \<open>auto simp: initiate_core_def ek encaps_from_message_def en st Let_def first_move_header_def\<close>)
qed

text \<open>The two sides derive the same secrets, and the responder gets the initiator's payload and key.\<close>

lemma accept_initiated:
  assumes ok: "ratchet_ok R" and pub: "public_material R secrets = (b_ecdh_pub b, b_kem_pub b)"
    and ini: "initiate_core R pk b material rng now build = Inr (fm, a)"
    and short: "length (build (fm_eph_pub fm) (fm_kem_ct fm) (fm_nonce fm)) < 65504"
  shows "accept_from_material_at R secrets fm ratchet rng' now' =
       Inr (build (fm_eph_pub fm) (fm_kem_ct fm) (fm_nonce fm),
         \<lparr>s_send_chain = s_recv_chain a, s_recv_chain = s_send_chain a, s_send_ctr = 0, s_recv_ctr = 1,
          s_my_kp = ratchet, s_old_kps = [], s_peer_pub = Some (my_pub R a), s_skipped = [], s_send_rotated_at = 0,
          s_mixed_peer = None, s_epoch_pq_ct = None, s_peer_kem = None, s_kem_dk = Some (ls_kem_dk secrets),
          s_sent_since_pq = 1, s_pq_every = DEFAULT_PQ_EVERY_MSGS, s_pq_after = DEFAULT_PQ_AFTER,
          s_last_pq = now', s_rng = rng'\<rparr>)"
proof -
  from ini obtain kem_ct pq_ss nx mk nonce hdr where
    en: "ro_encaps R (b_kem_pub b) (im_kem_message material) = (kem_ct, pq_ss)"
    and st: "chain_step R (dir_key R (handshake_root R (ro_xpub R (im_eph material)) (im_nonce material)
        (ro_dh R (im_eph material) (b_ecdh_pub b)) pq_ss) (lit ''a2b'')) 1 = (nx, mk, nonce)"
    and fm: "fm_eph_pub fm = ro_xpub R (im_eph material)" "fm_kem_ct fm = kem_ct" "fm_nonce fm = im_nonce material"
    and hd: "first_move_header fm = Inr hdr"
    and se: "seal R mk nonce (list_of (ro_xpub R (im_ratchet material)) @ build (fm_eph_pub fm) kem_ct (fm_nonce fm)) hdr = Some (fm_ct fm)"
    and a: "s_recv_chain a = dir_key R (handshake_root R (ro_xpub R (im_eph material)) (im_nonce material)
        (ro_dh R (im_eph material) (b_ecdh_pub b)) pq_ss) (lit ''b2a'')" "s_send_chain a = nx" "s_my_kp a = im_ratchet material"
    by (rule initiate_core_InrE) (erule that; simp)
  have keys: "b_ecdh_pub b = ro_xpub R (ls_ecdh secrets)" "b_kem_pub b = ro_kem_pub R (ls_kem_dk secrets)"
    using pub by (simp_all add: public_material_def)
  have dec: "ro_decaps R (ls_kem_dk secrets) kem_ct = Some pq_ss"
    using kem_okD(4) [OF ratchet_okD(4) [OF ok], of "ls_kem_dk secrets" "im_kem_message material"] en keys by simp
  have dh: "ro_dh R (ls_ecdh secrets) (ro_xpub R (im_eph material)) = ro_dh R (im_eph material) (b_ecdh_pub b)"
    using ratchet_okD(3) [OF ok] keys by (simp add: dh_ok_def)
  have "open_ct R mk nonce (fm_ct fm) hdr = Some (list_of (ro_xpub R (im_ratchet material)) @ build (fm_eph_pub fm) kem_ct (fm_nonce fm))"
    using sealed_opens [OF ratchet_okD(2) [OF ok] se] short fm by simp
  then show ?thesis using dec st hd fm by (simp add: accept_from_material_at_def dh a my_pub_def sub_list_def)
qed

lemma initiate_returns:
  assumes ok: "ratchet_ok R" and ver: "bundle_verify R pk b" and kem: "b_kem_pub b = ro_kem_pub R d"
    and short: "\<And>e c n. length (build e c n) < 65504"
  obtains fm a where "initiate_core R pk b material rng now build = Inr (fm, a)" "length (fm_kem_ct fm) = KEM_CT_LEN"
proof -
  note K = kem_okD [OF ratchet_okD(4) [OF ok]]
  have ek: "ek_from_bytes R (b_kem_pub b) = Some (b_kem_pub b)"
    using ek_from_bytes_pub [OF ratchet_okD(4) [OF ok]] kem by simp
  obtain kem_ct pq_ss where en: "ro_encaps R (b_kem_pub b) (im_kem_message material) = (kem_ct, pq_ss)" by fastforce
  then have ct: "length kem_ct = KEM_CT_LEN" using K(3) [of "b_kem_pub b" "im_kem_message material"] by simp
  obtain nx mk nonce where st: "chain_step R (dir_key R (handshake_root R (ro_xpub R (im_eph material)) (im_nonce material)
        (ro_dh R (im_eph material) (b_ecdh_pub b)) pq_ss) (lit ''a2b'')) 1 = (nx, mk, nonce)" by (metis prod_cases3)
  let ?p = "list_of (ro_xpub R (im_ratchet material)) @ build (ro_xpub R (im_eph material)) kem_ct (im_nonce material)"
  have "length ?p < 65536" using short [of "ro_xpub R (im_eph material)" kem_ct "im_nonce material"] by simp
  then have "\<exists>c. seal R mk nonce ?p h = Some c" for h
    using aead_ok_sealE [OF ratchet_okD(2) [OF ok]] unfolding seal_def by metis
  then obtain c where "seal R mk nonce ?p (list_of (ro_xpub R (im_eph material)) @ be16 (of_nat (length kem_ct)) @ kem_ct
      @ list_of (im_nonce material)) = Some c" by blast
  with that show thesis using ver ek en ct st
    by (simp add: initiate_core_def encaps_from_message_def Let_def first_move_header_def len16_def KEM_CT_LEN_def)
qed

lemma rlink_startE:
  assumes ok: "ratchet_ok R" and start: "rlink_start R l"
  obtains a dk ratchet rng now where
    "l = rlink_of a \<lparr>s_send_chain = s_recv_chain a, s_recv_chain = s_send_chain a, s_send_ctr = 0, s_recv_ctr = 1,
          s_my_kp = ratchet, s_old_kps = [], s_peer_pub = Some (my_pub R a), s_skipped = [], s_send_rotated_at = 0,
          s_mixed_peer = None, s_epoch_pq_ct = None, s_peer_kem = None, s_kem_dk = Some dk,
          s_sent_since_pq = 1, s_pq_every = DEFAULT_PQ_EVERY_MSGS, s_pq_after = DEFAULT_PQ_AFTER,
          s_last_pq = now, s_rng = rng\<rparr>"
    "s_send_ctr a = 1" "s_recv_ctr a = 0" "s_send_rotated_at a = 1" "s_epoch_pq_ct a = None" "s_skipped a = []"
    "s_peer_pub a = None" "s_mixed_peer a = None" "s_peer_kem a = Some (ro_kem_pub R dk)" "s_old_kps a = []"
    "s_pq_every a = DEFAULT_PQ_EVERY_MSGS" "ek_from_bytes R (ro_kem_pub R dk) = Some (ro_kem_pub R dk)"
proof -
  from start obtain pk b secrets material rng now build fm a ratchet rng' now' payload s where
    pub: "public_material R secrets = (b_ecdh_pub b, b_kem_pub b)"
    and ini: "initiate_core R pk b material rng now build = Inr (fm, a)"
    and short: "length (build (fm_eph_pub fm) (fm_kem_ct fm) (fm_nonce fm)) < 65504"
    and acc: "accept_from_material_at R secrets fm ratchet rng' now' = Inr (payload, s)" and l: "l = rlink_of a s"
    unfolding rlink_start_def by blast
  note s = accept_initiated [OF ok pub ini short, of ratchet rng' now', unfolded acc]
  have "b_kem_pub b = ro_kem_pub R (ls_kem_dk secrets)" using pub by (simp add: public_material_def)
  then show thesis using s
    by (intro that [of a ratchet "ls_kem_dk secrets" now' rng'])
       (use ini in \<open>auto simp: l elim!: initiate_core_InrE\<close>)
qed

lemma rlink_start_inv:
  assumes ok: "ratchet_ok R" and start: "rlink_start R l"
  shows "rlink_inv R l"
  by (rule rlink_startE [OF assms], hypsubst, rule rlink_of_inv)
     (simp_all add: session_inv_def kem_link_def DEFAULT_PQ_EVERY_MSGS_def)

section \<open>Sending never fails\<close>

lemma send_at_ctr: "send_at R payload now s = (s', Inr f) \<Longrightarrow> f_ctr f = s_send_ctr s + 1"
  by (auto simp: send_at_def Let_def split: prod.splits sum.splits)

lemma send_returns:
  assumes ok: "ratchet_ok R" and inv: "rlink_inv R l" and lt: "s_send_ctr (lk_sess l d) < - 1"
    and len: "length payload < 65536"
  shows "\<exists>s' f. send_at R payload now (lk_sess l d) = (s', Inr f)"
proof -
  let ?S = "lk_sess l d" and ?ctr = "s_send_ctr (lk_sess l d) + 1"
  from inv obtain c0 hs k r x where D: "dirs R l c0 hs k r" and ph: "phase R l r x" by (auto simp: rlink_inv_alt)
  have so: "sender_ok R (lk_base d) (c0 d) (hs d) (lk_sent l d) ?S" using dirsD [OF D, of d] by (simp add: dir_ok_def)
  have p: "rotates ?S \<Longrightarrow> s_peer_pub ?S = Some (my_pub R (lk_sess l (\<not> d)))"
    using ph unfolding phase_def ready_def pending_def rotates_def by (cases "d = x") auto
  obtain s1 chain where e: "(if rotates ?S then begin_epoch R now ?ctr (the (s_peer_pub ?S)) ?S else (?S, Inr (s_send_chain ?S))) = (s1, Inr chain)"
    and pq: "\<forall>ct. s_epoch_pq_ct s1 = Some ct \<longrightarrow> length ct = KEM_CT_LEN"
  proof (cases "rotates ?S")
    case True
    obtain s1 chain where b: "begin_epoch R now ?ctr (my_pub R (lk_sess l (\<not> d))) ?S = (s1, Inr chain)"
      by (rule begin_epoch_returns [OF rlink_inv_sides(1) [OF inv]])
    with begin_epoch_ok [OF ok b rlink_inv_sides(2) [OF inv]] True p [OF True] that show thesis by simp
  next
    case False
    with so that show thesis by (simp add: sender_ok_def)
  qed
  have rot: "(case s_peer_pub ?S of Some peer \<Rightarrow> Some peer \<noteq> s_mixed_peer ?S | None \<Rightarrow> False) = rotates ?S"
    by (auto simp: rotates_def split: option.splits)
  let ?f = "\<lparr>f_ctr = ?ctr, f_pn = saturating_sub (s_send_rotated_at s1) 1, f_sender_pub = my_pub R s1,
     f_mixed_with = s_mixed_peer s1, f_pq_ct = s_epoch_pq_ct s1, f_ct = []\<rparr>"
  obtain hdr where h: "header_bytes ?f = Inr hdr"
    using pq by (cases "s_epoch_pq_ct s1") (auto simp: header_bytes_def len16_def KEM_CT_LEN_def)
  obtain nx mk nonce where st: "chain_step R chain ?ctr = (nx, mk, nonce)" by (metis prod_cases3)
  obtain ct where "seal R mk nonce payload hdr = Some ct"
    using aead_ok_sealE [OF ratchet_okD(2) [OF ok] len] unfolding seal_def by metis
  then show ?thesis using e h st by (simp add: send_at_def Let_def rot)
qed

lemma rlink_sent_unique:
  assumes inv: "rlink_inv R l" and "(p, f) \<in> set (lk_sent l d)" and "(q, f) \<in> set (lk_sent l d)"
  shows "p = q"
proof -
  from inv obtain c0 hs k r where D: "dirs R l c0 hs k r" by (auto simp: rlink_inv_alt)
  have so: "sender_ok R (lk_base d) (c0 d) (hs d) (lk_sent l d) (lk_sess l d)" using dirsD [OF D, of d] by (simp add: dir_ok_def)
  from so assms(2) obtain i where i: "lk_sent l d ! i = (p, f)" "unat (f_ctr f) = lk_base d + i + 1" by (rule entry_of)
  from so assms(3) obtain j where j: "lk_sent l d ! j = (q, f)" "unat (f_ctr f) = lk_base d + j + 1" by (rule entry_of)
  from i j show ?thesis by simp
qed

section \<open>An authenticated handshake succeeds\<close>

lemma handshake_ok:
  assumes ok: "ratchet_ok R" and issued: "issue_bundle_from_material R bob ecdh seed created = (b, secrets)"
    and short: "length payload0 < 60000"
  shows "\<exists>fm a sg s.
      initiate_authenticated_from_material_at R alice (public_bytes R bob) b payload0 material rng now = Inr (fm, a)
      \<and> (\<exists>w. first_move_encode fm = Inr w \<and> first_move_decode w = Some fm)
      \<and> accept_from_material_at R secrets fm ratchet rng' now' = Inr (frame_authenticated_payload payload0 sg, s)
      \<and> split_authenticated_payload (frame_authenticated_payload payload0 sg) = Some (payload0, sg)
      \<and> verify_first_move_auth R fm (public_bytes R alice) (public_bytes R bob) b payload0 sg
      \<and> rlink_start R (rlink_of a s)"
proof -
  note K = kem_okD [OF ratchet_okD(4) [OF ok]]
  have sl: "length (identity_sign R k m) = 3309" for k m
    using ratchet_okD(5) [OF ok] by (simp add: signature_ok_def identity_sign_def)
  have pub: "public_material R secrets = (b_ecdh_pub b, b_kem_pub b)" "b_kem_pub b = ro_kem_pub R (ls_kem_dk secrets)"
    using issued by (auto simp: issue_bundle_from_material_def Let_def public_material_def)
  have ver: "bundle_verify R (public_bytes R bob) b"
    using issued verify_own [OF ratchet_okD(5) [OF ok]] K(1)
    by (auto simp: bundle_verify_def issue_bundle_from_material_def Let_def signing_payload_def)
  define build where "build = (\<lambda>e (c :: bytes) n. let transcript = first_move_auth_transcript R e c n (public_bytes R bob) b payload0
       in frame_authenticated_payload payload0 (identity_sign R alice transcript))"
  have bl: "length (build e c n) < 65504" for e c n
    using short by (simp add: build_def Let_def frame_authenticated_payload_def sl)
  obtain fm a where ini: "initiate_core R (public_bytes R bob) b material rng now build = Inr (fm, a)"
    and fct: "length (fm_kem_ct fm) = KEM_CT_LEN"
    by (rule initiate_returns [OF ok ver pub(2)]) (use bl in auto)
  let ?sg = "identity_sign R alice (first_move_auth_transcript R (fm_eph_pub fm) (fm_kem_ct fm) (fm_nonce fm) (public_bytes R bob) b payload0)"
  have fb: "build (fm_eph_pub fm) (fm_kem_ct fm) (fm_nonce fm) = frame_authenticated_payload payload0 ?sg"
    by (simp add: build_def Let_def)
  obtain s where acc: "accept_from_material_at R secrets fm ratchet rng' now' = Inr (frame_authenticated_payload payload0 ?sg, s)"
    using accept_initiated [OF ok pub(1) ini bl] unfolding fb by blast
  have "rlink_start R (rlink_of a s)" unfolding rlink_start_def using pub(1) ini bl acc by blast
  moreover have "initiate_authenticated_from_material_at R alice (public_bytes R bob) b payload0 material rng now = Inr (fm, a)"
    using ini unfolding build_def initiate_authenticated_from_material_at_def .
  moreover have "\<exists>w. first_move_encode fm = Inr w \<and> first_move_decode w = Some fm"
    using fct first_move_decode_iff by (auto simp: first_move_ok_def first_move_encode_def len16_def KEM_CT_LEN_def)
  moreover have "split_authenticated_payload (frame_authenticated_payload payload0 ?sg) = Some (payload0, ?sg)"
    using short by (simp add: split_authenticated_payload_iff sl)
  moreover have "verify_first_move_auth R fm (public_bytes R alice) (public_bytes R bob) b payload0 ?sg"
    unfolding verify_first_move_auth_def by (rule verify_own [OF ratchet_okD(5) [OF ok]])
  ultimately show ?thesis using acc by blast
qed

text \<open>A started link over the evaluation instance, and the same link after the initiator has sent one frame.\<close>

lemma toy_start:
  obtains l where "rlink_start toy_ratchet l" "s_send_ctr (lk_sess l True) = 1" "s_recv_ctr (lk_sess l False) = 1"
    "s_skipped (lk_sess l False) = []" "s_peer_pub (lk_sess l True) = None"
proof -
  obtain b secrets where "issue_bundle_from_material toy_ratchet (arr_fill 2) (arr_fill 3) (arr_fill 4) 0 = (b, secrets)"
    by fastforce
  from handshake_ok [OF toy_ratchet_ok this, of "[]"] obtain a s where start: "rlink_start toy_ratchet (rlink_of a s)"
    by fastforce
  then show thesis by (rule that) (use start in \<open>auto elim!: rlink_startE [OF toy_ratchet_ok]\<close>)
qed

lemma send_no_rotation:
  "send_at R payload now s = (s', Inr f) \<Longrightarrow> s_peer_pub s = None \<Longrightarrow> s_mixed_peer s' = s_mixed_peer s"
  by (auto simp: send_at_def Let_def split: prod.splits sum.splits)

lemma one_below_max: "(1 :: u64) < - 1"
  by (simp add: word_less_nat_alt unsigned_minus_1_eq_mask mask_eq_exp_minus_1)

lemma toy_link:
  obtains l l' f where "rlink_start toy_ratchet l" "rlink_reach toy_ratchet l l'" "([9], f) \<in> set (lk_sent l' True)"
    "s_recv_ctr (lk_sess l' False) < f_ctr f" "s_skipped (lk_sess l' False) = []"
    "unat (f_ctr f) - 1 - unat (s_recv_ctr (lk_sess l' False)) = 0"
proof -
  obtain l where start: "rlink_start toy_ratchet l" and c: "s_send_ctr (lk_sess l True) = 1"
    "s_recv_ctr (lk_sess l False) = 1" "s_skipped (lk_sess l False) = []" "s_peer_pub (lk_sess l True) = None"
    by (rule toy_start)
  obtain s' f where tx: "send_at toy_ratchet [9] 0 (lk_sess l True) = (s', Inr f)"
    using send_returns [OF toy_ratchet_ok rlink_start_inv [OF toy_ratchet_ok start], of True "[9]" 0] c(1) one_below_max
    by auto
  have f: "f_ctr f = 2" using send_at_ctr [OF tx] c(1) by simp
  let ?nxt = "l\<lparr>lk_sess := (lk_sess l)(True := s'), lk_sent := (lk_sent l)(True := lk_sent l True @ [([9], f)])\<rparr>"
  have "rlink_step toy_ratchet l ?nxt"
    by (rule rlink_step.send [OF tx]) (use c send_no_rotation [OF tx] one_below_max in simp_all)
  then have "rlink_reach toy_ratchet l ?nxt" by (blast intro: rlink_reach.intros)
  then show thesis by (rule that [OF start, where f = f]) (simp_all add: c f)
qed

section \<open>Properties\<close>

text \<open>
  C16 (functional): the authenticated handshake. For a bundle issued by the responder and any
  payload and randomness, initiating succeeds, the first move survives its wire encoding, and
  accepting it with the responder's secrets yields exactly the initiator's payload with a signature
  that verifies for the initiator, the responder and this bundle; the two sessions satisfy the link
  invariant (same chains, counters and keys on both sides).
\<close>

theorem handshake_establishes:
  assumes "ratchet_ok R" and "issue_bundle_from_material R bob ecdh seed created = (b, secrets)"
    and "length payload0 < 60000"
  shows "\<exists>fm a sg s.
      initiate_authenticated_from_material_at R alice (public_bytes R bob) b payload0 material rng now = Inr (fm, a)
      \<and> (\<exists>w. first_move_encode fm = Inr w \<and> first_move_decode w = Some fm)
      \<and> accept_from_material_at R secrets fm ratchet rng' now' = Inr (frame_authenticated_payload payload0 sg, s)
      \<and> split_authenticated_payload (frame_authenticated_payload payload0 sg) = Some (payload0, sg)
      \<and> verify_first_move_auth R fm (public_bytes R alice) (public_bytes R bob) b payload0 sg
      \<and> rlink_inv R (rlink_of a s)"
  using handshake_ok [OF assms] rlink_start_inv [OF assms(1)] by fast

theorem handshake_establishes_witness:
  "\<exists>fm a sg s b secrets. issue_bundle_from_material toy_ratchet (arr_fill 2) (arr_fill 3) (arr_fill 4) 0 = (b, secrets)
     \<and> accept_from_material_at toy_ratchet secrets fm (arr_fill 5) 0 0 = Inr (frame_authenticated_payload [1, 2] sg, s)
     \<and> rlink_inv toy_ratchet (rlink_of a s)"
proof -
  obtain b secrets where i: "issue_bundle_from_material toy_ratchet (arr_fill 2) (arr_fill 3) (arr_fill 4) 0 = (b, secrets)"
    by fastforce
  from handshake_establishes [OF toy_ratchet_ok i, of "[1, 2]"] i show ?thesis by fastforce
qed

text \<open>
  C2 (safety): end-to-end delivery. Start from any handshake and let both sides send, restart from
  their archives and change refresh policy, while the network loses, delays, repeats, reorders and
  forges frames at will (a frame that authenticates was sent). Then every frame the peer ever sent
  is decrypted to its payload if it is ahead of the receiver and the gap fits the 64 retained keys,
  or if its key is still retained; and whatever it decrypts to is the payload that was sent. This
  covers all epoch changes and post-quantum refreshes in between.
\<close>

theorem ratchet_delivers:
  assumes ok: "ratchet_ok R" and start: "rlink_start R l0" and reach: "rlink_reach R l0 l"
    and sent: "(p, f) \<in> set (lk_sent l (\<not> d))"
  shows "(s_recv_ctr (lk_sess l d) < f_ctr f
        \<and> length (s_skipped (prune_skipped now (lk_sess l d)))
           + (unat (f_ctr f) - 1 - unat (s_recv_ctr (lk_sess l d))) \<le> MAX_SKIP
        \<longrightarrow> (\<exists>s'. receive_at R f now (lk_sess l d) = (s', Inr p)))
    \<and> (f_ctr f \<in> sk_ctr ` set (s_skipped (prune_skipped now (lk_sess l d)))
        \<longrightarrow> (\<exists>s'. receive_at R f now (lk_sess l d) = (s', Inr p)))
    \<and> (\<forall>s' q. receive_at R f now (lk_sess l d) = (s', Inr q) \<longrightarrow> q = p)"
proof -
  have inv: "rlink_inv R l" by (rule rlink_reach_inv [OF reach ok rlink_start_inv [OF ok start]])
  have "q = p" if "receive_at R f now (lk_sess l d) = (s', Inr q)" for s' q
  proof -
    have g: "f \<in> snd ` set (lk_sent l (\<not> d))" using sent by force
    show ?thesis using rlink_sent_unique [OF inv deliver_genuine_payload [OF inv g that] sent] .
  qed
  moreover have "\<exists>s'. receive_at R f now (lk_sess l d) = (s', Inr p)"
    if k: "f_ctr f \<in> sk_ctr ` set (s_skipped (prune_skipped now (lk_sess l d)))"
  proof -
    from k obtain x where "x \<in> set (s_skipped (prune_skipped now (lk_sess l d)))" "sk_ctr x = f_ctr f" by auto
    then show ?thesis by (rule deliver_retained [OF inv sent])
  qed
  ultimately show ?thesis using deliver_ahead [OF inv sent, of now] by blast
qed

theorem ratchet_delivers_witness:
  "\<exists>l0 l f s'. rlink_start toy_ratchet l0 \<and> rlink_reach toy_ratchet l0 l \<and> ([9], f) \<in> set (lk_sent l True)
     \<and> receive_at toy_ratchet f 0 (lk_sess l False) = (s', Inr [9])"
proof -
  obtain l0 l f where l: "rlink_start toy_ratchet l0" "rlink_reach toy_ratchet l0 l" "([9], f) \<in> set (lk_sent l True)"
    "s_recv_ctr (lk_sess l False) < f_ctr f" "s_skipped (lk_sess l False) = []"
    "unat (f_ctr f) - 1 - unat (s_recv_ctr (lk_sess l False)) = 0"
    by (rule toy_link)
  have "s_skipped (prune_skipped 0 (lk_sess l False)) = []" using l(5) by (simp add: prune_skipped_def)
  with ratchet_delivers [OF toy_ratchet_ok l(1,2), of "[9]" f False 0] l show ?thesis by auto
qed

text \<open>
  C13 (liveness): in every reachable state each side can send every payload below 64 KiB, and a
  receiver that is in step with the sender decrypts the frame at once.
\<close>

theorem ratchet_progress:
  assumes ok: "ratchet_ok R" and start: "rlink_start R l0" and reach: "rlink_reach R l0 l"
    and lt: "s_send_ctr (lk_sess l d) < - 1" and len: "length payload < 65536"
  shows "\<exists>s' f. send_at R payload now (lk_sess l d) = (s', Inr f)
     \<and> (s_recv_ctr (lk_sess l (\<not> d)) = s_send_ctr (lk_sess l d)
        \<and> (s_mixed_peer s' \<noteq> s_mixed_peer (lk_sess l d) \<longrightarrow> my_pub R s' \<noteq> my_pub R (lk_sess l d))
        \<longrightarrow> (\<exists>v. receive_at R f now (lk_sess l (\<not> d)) = (v, Inr payload)))"
proof -
  have inv: "rlink_inv R l" by (rule rlink_reach_inv [OF reach ok rlink_start_inv [OF ok start]])
  from send_returns [OF ok inv lt len] obtain s' f where tx: "send_at R payload now (lk_sess l d) = (s', Inr f)" by blast
  let ?l = "l\<lparr>lk_sess := (lk_sess l)(d := s'), lk_sent := (lk_sent l)(d := lk_sent l d @ [(payload, f)])\<rparr>"
  have "\<exists>v. receive_at R f now (lk_sess l (\<not> d)) = (v, Inr payload)"
    if step: "s_recv_ctr (lk_sess l (\<not> d)) = s_send_ctr (lk_sess l d)"
      and fresh: "s_mixed_peer s' \<noteq> s_mixed_peer (lk_sess l d) \<longrightarrow> my_pub R s' \<noteq> my_pub R (lk_sess l d)"
  proof -
    have inv': "rlink_inv R ?l" by (rule rlink_inv_send [OF ok inv tx len lt fresh])
    have "f_ctr f = s_send_ctr (lk_sess l d) + 1" using tx by (rule send_at_ctr)
    moreover have "unat (s_send_ctr (lk_sess l d) + 1) = unat (s_send_ctr (lk_sess l d)) + 1"
      using lt by (simp add: word_less_nat_alt unat_plus_u64 unsigned_minus_1_eq_mask mask_eq_exp_minus_1)
    moreover have "length (s_skipped (prune_skipped now (lk_sess l (\<not> d)))) \<le> MAX_SKIP" by (rule prune_skipped_keys)
    ultimately show ?thesis
      using deliver_ahead [OF inv', of payload f "\<not> d" now] step by (auto simp: word_less_nat_alt)
  qed
  with tx show ?thesis by blast
qed

theorem ratchet_progress_witness:
  "\<exists>l s' f v. rlink_start toy_ratchet l \<and> send_at toy_ratchet [9] 0 (lk_sess l True) = (s', Inr f)
     \<and> receive_at toy_ratchet f 0 (lk_sess l False) = (v, Inr [9])"
proof -
  obtain l where start: "rlink_start toy_ratchet l" and c: "s_send_ctr (lk_sess l True) = 1"
    "s_recv_ctr (lk_sess l False) = 1" "s_peer_pub (lk_sess l True) = None" by (rule toy_start)
  from ratchet_progress [OF toy_ratchet_ok start rlink_reach.start, of True "[9]" 0] c one_below_max
  show ?thesis using start send_no_rotation [OF _ c(3)] by fastforce
qed

end
