(* ===== verification/Ratchet_Storage.thy ===== *)
theory Ratchet_Storage
  imports Ratchet_Handshake
begin

text \<open>
  Persistence of a ratchet session: the private archive (module \<open>persist\<close> of
  \<open>crates/crypto/src/session.rs\<close>), the sealed archive bound to a context, and the transactional
  prepare/commit interface (\<open>crates/crypto/src/session/storage.rs\<close>).
\<close>

section \<open>Private archive\<close>

definition SES_MAGIC_V1 :: bytes where "SES_MAGIC_V1 = lit ''GCSES1''"
definition SES_MAGIC :: bytes where "SES_MAGIC = lit ''GCSES2''"

definition put_opt32 :: "32 arr option \<Rightarrow> bytes" where
  "put_opt32 x = (case x of Some b \<Rightarrow> [1] @ list_of b | None \<Rightarrow> [0])"

text \<open>The cursor \<open>p\<close> is the suffix of the buffer that has not been read.\<close>

definition take_byte :: "bytes \<Rightarrow> (byte \<times> bytes) option" where
  "take_byte inp = (case inp of [] \<Rightarrow> None | b # r \<Rightarrow> Some (b, r))"

definition take_arr :: "bytes \<Rightarrow> ('n::len arr \<times> bytes) option" where
  "take_arr inp = map_option (\<lambda>(b, r). (arr_pad b, r)) (rd LENGTH('n) inp)"

definition take_u64 :: "bytes \<Rightarrow> (u64 \<times> bytes) option" where
  "take_u64 inp = map_option (\<lambda>(b, r). (de64 b, r)) (rd 8 inp)"

definition take_u32 :: "bytes \<Rightarrow> (u32 \<times> bytes) option" where
  "take_u32 inp = map_option (\<lambda>(b, r). (de32 b, r)) (rd 4 inp)"

definition take_opt32 :: "bytes \<Rightarrow> (32 arr option \<times> bytes) option" where
  "take_opt32 inp =
     Option.bind (take_byte inp) (\<lambda>(t, r).
     if t = 1 then Option.bind (take_arr r) (\<lambda>(b, r). Some (Some b, r))
     else if t = 0 then Some (None, r) else None)"

text \<open>
  The three optional byte strings (peer encapsulation key, decapsulation seed, epoch ciphertext):
  a tag, a 16-bit length that must be the expected one, the bytes.
\<close>

definition put_opt_bytes :: "bytes option \<Rightarrow> bytes" where
  "put_opt_bytes x = (case x of Some k \<Rightarrow> [1] @ be16 (of_nat (length k)) @ k | None \<Rightarrow> [0])"

definition take_opt_bytes :: "nat \<Rightarrow> bytes \<Rightarrow> (bytes option \<times> bytes) option" where
  "take_opt_bytes expected inp =
     Option.bind (take_byte inp) (\<lambda>(t, r).
     if t = 1 then
       Option.bind (rd 2 r) (\<lambda>(l, r).
       if unat (de16 l) \<noteq> expected then None
       else Option.bind (rd expected r) (\<lambda>(k, r). Some (Some k, r)))
     else if t = 0 then Some (None, r) else None)"

definition secs32 :: "duration \<Rightarrow> u32" where
  "secs32 d = of_int (min (as_secs d) 4294967295)"

definition skipped_encode :: "session_time \<Rightarrow> skipped_key \<Rightarrow> bytes" where
  "skipped_encode now k =
     be64 (sk_ctr k) @ list_of (sk_mk k) @ list_of (sk_nonce k) @ be32 (secs32 (elapsed now (sk_stored_at k)))"

definition encode_private_at :: "session_time \<Rightarrow> 'g session \<Rightarrow> bytes" where
  "encode_private_at now s =
     SES_MAGIC @ list_of (s_send_chain s) @ list_of (s_recv_chain s) @ be64 (s_send_ctr s) @ be64 (s_recv_ctr s)
     @ list_of (s_my_kp s)
     @ [of_nat (length (s_old_kps s))] @ concat (map (\<lambda>(pk, sk). list_of pk @ list_of sk) (s_old_kps s))
     @ put_opt32 (s_peer_pub s)
     @ put_opt_bytes (s_peer_kem s)
     @ put_opt_bytes (map_option list_of (s_kem_dk s))
     @ be32 (s_sent_since_pq s) @ be32 (s_pq_every s) @ be64 (of_int (as_secs (s_pq_after s)))
     @ be32 (secs32 (elapsed now (s_last_pq s)))
     @ be64 (s_send_rotated_at s)
     @ put_opt32 (s_mixed_peer s)
     @ put_opt_bytes (s_epoch_pq_ct s)
     @ [of_nat (length (s_skipped s))] @ concat (map (skipped_encode now) (s_skipped s))"

text \<open>\<open>Duration::MAX\<close>, the cap of \<open>saturating_add\<close>; \<open>checked_sub\<close> of a clock value fails below its origin.\<close>

definition DURATION_MAX :: duration where "DURATION_MAX = 18446744073709551615 * 1000000000 + 999999999"

definition duration_add :: "duration \<Rightarrow> duration \<Rightarrow> duration" where
  "duration_add a b = min (a + b) DURATION_MAX"

definition time_checked_sub :: "session_time \<Rightarrow> duration \<Rightarrow> session_time option" where
  "time_checked_sub now d = (if d \<le> now then Some (now - d) else None)"

fun old_kps_decode :: "nat \<Rightarrow> bytes \<Rightarrow> ((32 arr \<times> 32 arr) list \<times> bytes) option" where
  "old_kps_decode 0 inp = Some ([], inp)"
| "old_kps_decode (Suc n) inp =
     Option.bind (take_arr inp) (\<lambda>(pk, inp).
     Option.bind (take_arr inp) (\<lambda>(sk, inp).
     Option.bind (old_kps_decode n inp) (\<lambda>(kps, inp). Some ((pk, sk) # kps, inp))))"

text \<open>One retained key: \<open>Some None\<close> is a key that is read and dropped.\<close>

definition skipped_decode ::
  "u64 \<Rightarrow> session_time \<Rightarrow> duration \<Rightarrow> bytes \<Rightarrow> (skipped_key option \<times> bytes) option" where
  "skipped_decode recv_ctr now offline inp =
     Option.bind (take_u64 inp) (\<lambda>(ctr, inp).
     Option.bind (take_arr inp) (\<lambda>(mk, inp).
     Option.bind (take_arr inp) (\<lambda>(nonce, inp).
     Option.bind (take_u32 inp) (\<lambda>(age, inp).
     if recv_ctr < ctr then None else
     let age = duration_add (from_secs (uint age)) offline in
     if SKIP_KEY_TTL_NS \<le> age then Some (None, inp)
     else case time_checked_sub now age of
            None \<Rightarrow> Some (None, inp)
          | Some stored_at \<Rightarrow>
              Some (Some \<lparr>sk_ctr = ctr, sk_mk = mk, sk_nonce = nonce, sk_stored_at = stored_at\<rparr>, inp)))))"

fun skipped_decode_all ::
  "u64 \<Rightarrow> session_time \<Rightarrow> duration \<Rightarrow> nat \<Rightarrow> bytes \<Rightarrow> (skipped_key list \<times> bytes) option" where
  "skipped_decode_all recv_ctr now offline 0 inp = Some ([], inp)"
| "skipped_decode_all recv_ctr now offline (Suc n) inp =
     Option.bind (skipped_decode recv_ctr now offline inp) (\<lambda>(k, inp).
     Option.bind (skipped_decode_all recv_ctr now offline n inp) (\<lambda>(ks, inp).
     Some ((case k of None \<Rightarrow> ks | Some k \<Rightarrow> k # ks), inp)))"

text \<open>
  The part of the archive after the refresh policy: refresh age, epoch data and retained keys in a
  current archive; defaults that force a refresh in a version-1 archive.
\<close>

record epoch_state =
  es_last_pq :: session_time
  es_send_rotated_at :: u64
  es_mixed_peer :: "32 arr option"
  es_epoch_pq_ct :: "bytes option"
  es_skipped :: "skipped_key list"
  es_sent_since_pq :: u32

definition epoch_decode ::
  "bool \<Rightarrow> u64 \<Rightarrow> u64 \<Rightarrow> u32 \<Rightarrow> u32 \<Rightarrow> duration \<Rightarrow> session_time \<Rightarrow> duration \<Rightarrow> bytes \<Rightarrow> (epoch_state \<times> bytes) option" where
  "epoch_decode legacy send_ctr recv_ctr sent_since_pq pq_every pq_after now offline inp =
     (if legacy then
        Some (\<lparr>es_last_pq = (case time_checked_sub now pq_after of None \<Rightarrow> now | Some t \<Rightarrow> t),
               es_send_rotated_at = send_ctr, es_mixed_peer = None, es_epoch_pq_ct = None, es_skipped = [],
               es_sent_since_pq = pq_every\<rparr>, inp)
      else
        Option.bind (take_u32 inp) (\<lambda>(since_pq_secs, inp).
        Option.bind (take_u64 inp) (\<lambda>(send_rotated_at, inp).
        if send_ctr < send_rotated_at then None else
        Option.bind (take_opt32 inp) (\<lambda>(mixed_peer, inp).
        Option.bind (take_opt_bytes KEM_CT_LEN inp) (\<lambda>(epoch_pq_ct, inp).
        Option.bind (take_byte inp) (\<lambda>(n_skipped, inp).
        if MAX_SKIP < unat n_skipped then None else
        Option.bind (skipped_decode_all recv_ctr now offline (unat n_skipped) inp) (\<lambda>(skipped, inp).
        let age = duration_add (from_secs (uint since_pq_secs)) offline in
        let (last_pq, sent) = (case time_checked_sub now age of
              Some t \<Rightarrow> (t, sent_since_pq) | None \<Rightarrow> (now, pq_every)) in
        Some (\<lparr>es_last_pq = last_pq, es_send_rotated_at = send_rotated_at, es_mixed_peer = mixed_peer,
               es_epoch_pq_ct = epoch_pq_ct, es_skipped = skipped, es_sent_since_pq = sent\<rparr>, inp))))))))"

definition decode_private_at ::
  "bytes \<Rightarrow> session_time \<Rightarrow> duration \<Rightarrow> 'g \<Rightarrow> 'g session option" where
  "decode_private_at buf now offline rng =
     (if length buf < 6 + 32 * 3 + 8 * 2 + 32 + 1 then None else
      let magic = take 6 buf; inp = drop 6 buf in
      if magic \<noteq> SES_MAGIC \<and> magic \<noteq> SES_MAGIC_V1 then None else
      Option.bind (take_arr inp) (\<lambda>(send_chain, inp).
      Option.bind (take_arr inp) (\<lambda>(recv_chain, inp).
      Option.bind (take_u64 inp) (\<lambda>(send_ctr, inp).
      Option.bind (take_u64 inp) (\<lambda>(recv_ctr, inp).
      Option.bind (take_arr inp) (\<lambda>(my_kp, inp).
      Option.bind (take_byte inp) (\<lambda>(n_old, inp).
      if OLD_KP_CAP < unat n_old then None else
      Option.bind (old_kps_decode (unat n_old) inp) (\<lambda>(old_kps, inp).
      Option.bind (take_opt32 inp) (\<lambda>(peer_pub, inp).
      Option.bind (take_opt_bytes KEM_EK_LEN inp) (\<lambda>(peer_kem, inp).
      Option.bind (take_opt_bytes 64 inp) (\<lambda>(kem_dk, inp).
      Option.bind (take_u32 inp) (\<lambda>(sent_since_pq, inp).
      Option.bind (take_u32 inp) (\<lambda>(pq_every, inp).
      Option.bind (take_u64 inp) (\<lambda>(pq_after_secs, inp).
      if pq_every = 0 \<or> 366 * 24 * 60 * 60 < pq_after_secs then None else
      let pq_after = from_secs (uint pq_after_secs) in
      Option.bind (epoch_decode (magic = SES_MAGIC_V1) send_ctr recv_ctr sent_since_pq pq_every pq_after now offline inp)
        (\<lambda>(e, inp).
      if inp \<noteq> [] then None else
      Some \<lparr>s_send_chain = send_chain, s_recv_chain = recv_chain, s_send_ctr = send_ctr, s_recv_ctr = recv_ctr,
            s_my_kp = my_kp, s_old_kps = old_kps, s_peer_pub = peer_pub, s_skipped = es_skipped e,
            s_send_rotated_at = es_send_rotated_at e, s_mixed_peer = es_mixed_peer e,
            s_epoch_pq_ct = es_epoch_pq_ct e, s_peer_kem = peer_kem, s_kem_dk = map_option arr_pad kem_dk,
            s_sent_since_pq = es_sent_since_pq e, s_pq_every = pq_every, s_pq_after = pq_after,
            s_last_pq = es_last_pq e, s_rng = rng\<rparr>)))))))))))))))"

section \<open>Round trip of the private archive\<close>

lemma take_simps [simp]:
  "take_byte (b # r) = Some (b, r)" "take_arr (list_of a @ r) = Some (a, r)"
  "take_u64 (be64 x @ r) = Some (x, r)" "take_u32 (be32 y @ r) = Some (y, r)"
  by (simp_all add: take_byte_def take_arr_def take_u64_def take_u32_def)

lemma take_opt32_put [simp]: "take_opt32 (put_opt32 x @ r) = Some (x, r)"
  by (cases x) (simp_all add: take_opt32_def put_opt32_def)

lemma take_opt_bytes_put:
  assumes "\<forall>k. x = Some k \<longrightarrow> length k = n" and "n < 65536"
  shows "take_opt_bytes n (put_opt_bytes x @ r) = Some (x, r)"
  using assms by (cases x) (simp_all add: take_opt_bytes_def put_opt_bytes_def unat_of_nat_u16)

lemma old_kps_roundtrip:
  "old_kps_decode (length kps) (concat (map (\<lambda>(pk, sk). list_of pk @ list_of sk) kps) @ r) = Some (kps, r)"
  by (induction kps) auto

text \<open>What a retained key becomes: its age in whole seconds plus the time offline, or nothing.\<close>

definition reload_key :: "session_time \<Rightarrow> session_time \<Rightarrow> duration \<Rightarrow> skipped_key \<Rightarrow> skipped_key option" where
  "reload_key saved now offline k =
     (let age = duration_add (from_secs (uint (secs32 (elapsed saved (sk_stored_at k))))) offline
      in if SKIP_KEY_TTL_NS \<le> age then None
         else map_option (\<lambda>t. k\<lparr>sk_stored_at := t\<rparr>) (time_checked_sub now age))"

lemma skipped_decode_encode:
  "sk_ctr k \<le> recv_ctr \<Longrightarrow>
     skipped_decode recv_ctr now offline (skipped_encode saved k @ r) = Some (reload_key saved now offline k, r)"
  by (simp add: skipped_decode_def skipped_encode_def reload_key_def Let_def not_less split: option.splits)

lemma skipped_roundtrip:
  "\<forall>k \<in> set ks. sk_ctr k \<le> recv_ctr \<Longrightarrow>
     skipped_decode_all recv_ctr now offline (length ks) (concat (map (skipped_encode saved) ks) @ r)
     = Some (List.map_filter (reload_key saved now offline) ks, r)"
  by (induction ks) (auto simp: skipped_decode_encode map_filter_simps split: option.splits)

text \<open>The session a restart yields.\<close>

definition reload :: "session_time \<Rightarrow> session_time \<Rightarrow> duration \<Rightarrow> 'g \<Rightarrow> 'g session \<Rightarrow> 'g session" where
  "reload saved now offline rng s =
     (let last = time_checked_sub now (duration_add (from_secs (uint (secs32 (elapsed saved (s_last_pq s))))) offline)
      in s\<lparr>s_skipped := List.map_filter (reload_key saved now offline) (s_skipped s),
           s_pq_after := from_secs (as_secs (s_pq_after s)),
           s_last_pq := (case last of Some t \<Rightarrow> t | None \<Rightarrow> now),
           s_sent_since_pq := (case last of Some _ \<Rightarrow> s_sent_since_pq s | None \<Rightarrow> s_pq_every s),
           s_rng := rng\<rparr>)"

definition archivable :: "'g session \<Rightarrow> bool" where
  "archivable s \<longleftrightarrow>
     length (s_old_kps s) \<le> OLD_KP_CAP \<and> length (s_skipped s) \<le> MAX_SKIP
     \<and> (\<forall>k \<in> set (s_skipped s). sk_ctr k \<le> s_recv_ctr s)
     \<and> (\<forall>k. s_peer_kem s = Some k \<longrightarrow> length k = KEM_EK_LEN)
     \<and> (\<forall>k. s_epoch_pq_ct s = Some k \<longrightarrow> length k = KEM_CT_LEN)
     \<and> s_pq_every s \<noteq> 0 \<and> 0 \<le> s_pq_after s \<and> as_secs (s_pq_after s) \<le> 366 * 24 * 60 * 60
     \<and> s_send_rotated_at s \<le> s_send_ctr s"

lemma epoch_roundtrip:
  assumes "archivable s"
  shows "epoch_decode False (s_send_ctr s) (s_recv_ctr s) sent every after now offline
     (be32 (secs32 (elapsed saved (s_last_pq s))) @ be64 (s_send_rotated_at s) @ put_opt32 (s_mixed_peer s)
      @ put_opt_bytes (s_epoch_pq_ct s) @ of_nat (length (s_skipped s)) # concat (map (skipped_encode saved) (s_skipped s)))
   = (let last = time_checked_sub now (duration_add (from_secs (uint (secs32 (elapsed saved (s_last_pq s))))) offline)
      in Some (\<lparr>es_last_pq = (case last of Some t \<Rightarrow> t | None \<Rightarrow> now), es_send_rotated_at = s_send_rotated_at s,
            es_mixed_peer = s_mixed_peer s, es_epoch_pq_ct = s_epoch_pq_ct s,
            es_skipped = List.map_filter (reload_key saved now offline) (s_skipped s),
            es_sent_since_pq = (case last of Some _ \<Rightarrow> sent | None \<Rightarrow> every)\<rparr>, []))"
proof -
  have n: "unat (of_nat (length (s_skipped s)) :: byte) = length (s_skipped s)" "length (s_skipped s) \<le> MAX_SKIP"
    using assms by (simp_all add: archivable_def unat_of_nat MAX_SKIP_def)
  have sk: "skipped_decode_all (s_recv_ctr s) now offline (length (s_skipped s)) (concat (map (skipped_encode saved) (s_skipped s)))
      = Some (List.map_filter (reload_key saved now offline) (s_skipped s), [])"
    using skipped_roundtrip [of "s_skipped s" "s_recv_ctr s" now offline saved "[]"] assms by (simp add: archivable_def)
  have "take_opt_bytes KEM_CT_LEN (put_opt_bytes (s_epoch_pq_ct s) @ r) = Some (s_epoch_pq_ct s, r)" for r
    using assms by (intro take_opt_bytes_put) (simp_all add: archivable_def KEM_CT_LEN_def)
  with n sk assms show ?thesis
    by (simp add: epoch_decode_def Let_def archivable_def not_less not_le split: option.splits)
qed

lemma as_secs_word:
  assumes "0 \<le> d" and "as_secs d \<le> 366 * 24 * 60 * 60"
  shows "uint (of_int (as_secs d) :: u64) = as_secs d" and "\<not> 366 * 24 * 60 * 60 < (of_int (as_secs d) :: u64)"
proof -
  have p: "0 \<le> as_secs d" using assms(1) by (simp add: as_secs_def pos_imp_zdiv_nonneg_iff)
  then show u: "uint (of_int (as_secs d) :: u64) = as_secs d"
    using assms(2) by (simp add: unsigned_of_int take_bit_eq_mod)
  show "\<not> 366 * 24 * 60 * 60 < (of_int (as_secs d) :: u64)"
    using assms(2) by (simp add: word_less_def u)
qed

lemma session_decode_encode:
  assumes arch: "archivable s"
  shows "decode_private_at (encode_private_at saved s) now offline rng = Some (reload saved now offline rng s)"
proof -
  let ?w = "encode_private_at saved s"
  have m: "take 6 ?w = SES_MAGIC" "SES_MAGIC \<noteq> SES_MAGIC_V1" "length SES_MAGIC = 6"
    by (simp_all add: encode_private_at_def SES_MAGIC_def SES_MAGIC_V1_def)
  have "1 \<le> length (put_opt32 x)" "1 \<le> length (put_opt_bytes y)" for x y
    by (simp_all add: put_opt32_def put_opt_bytes_def split: option.splits)
  note o = this
  have len: "\<not> length ?w < 6 + 32 * 3 + 8 * 2 + 32 + 1"
    using o(1) [of "s_peer_pub s"] o(1) [of "s_mixed_peer s"] o(2) [of "s_peer_kem s"]
      o(2) [of "map_option list_of (s_kem_dk s)"] o(2) [of "s_epoch_pq_ct s"] m(3)
    by (simp add: encode_private_at_def)
  have n: "unat (of_nat (length (s_old_kps s)) :: byte) = length (s_old_kps s)" "\<not> OLD_KP_CAP < length (s_old_kps s)"
    using arch by (simp_all add: archivable_def unat_of_nat OLD_KP_CAP_def)
  have k1: "take_opt_bytes KEM_EK_LEN (put_opt_bytes (s_peer_kem s) @ r) = Some (s_peer_kem s, r)" for r
    using arch by (intro take_opt_bytes_put) (simp_all add: archivable_def KEM_EK_LEN_def)
  have k2: "take_opt_bytes 64 (put_opt_bytes (map_option list_of (s_kem_dk s)) @ r) = Some (map_option list_of (s_kem_dk s), r)" for r
    by (intro take_opt_bytes_put) auto
  have every: "s_pq_every s \<noteq> 0" and d: "0 \<le> s_pq_after s" "as_secs (s_pq_after s) \<le> 366 * 24 * 60 * 60"
    using arch by (simp_all add: archivable_def)
  note secs = as_secs_word [OF d]
  have dk: "map_option arr_pad (map_option list_of (s_kem_dk s)) = s_kem_dk s"
    by (cases "s_kem_dk s") simp_all
  show ?thesis
    unfolding decode_private_at_def Let_def m if_not_P [OF len]
    using m n k1 k2 every secs dk epoch_roundtrip [OF arch] old_kps_roundtrip
    by (simp add: encode_private_at_def reload_def Let_def)
qed

lemma reload_restored: "restored s (reload saved now offline rng s)"
proof -
  have "map key3 (List.map_filter (reload_key saved now offline) ks)
      = map key3 (filter (\<lambda>k. reload_key saved now offline k \<noteq> None) ks)" for ks
    by (induction ks)
       (auto simp: map_filter_simps reload_key_def Let_def time_checked_sub_def split: option.splits if_splits)
  then show ?thesis by (auto simp: restored_def reload_def Let_def)
qed

lemma rlink_archivable:
  assumes inv: "rlink_inv R l"
    and policy: "0 \<le> s_pq_after (lk_sess l d)" "as_secs (s_pq_after (lk_sess l d)) \<le> 366 * 24 * 60 * 60"
  shows "archivable (lk_sess l d)"
proof -
  from inv obtain c0 hs k r where D: "dirs R l c0 hs k r" by (auto simp: rlink_inv_alt)
  have so: "sender_ok R (lk_base d) (c0 d) (hs d) (lk_sent l d) (lk_sess l d)"
    using dirsD [OF D, of d] by (simp add: dir_ok_def)
  have "length k = KEM_EK_LEN" if "s_peer_kem (lk_sess l d) = Some k" for k
    using rlink_inv_sides(1) [OF inv, of d] that by (auto simp: session_inv_def ek_from_bytes_def split: if_splits)
  with so policy rlink_inv_sides(1) [OF inv, of d] show ?thesis
    by (simp add: archivable_def session_inv_def sender_ok_def word_gt_0)
qed

section \<open>Sealed archive\<close>

definition SEALED_MAGIC :: bytes where "SEALED_MAGIC = lit ''GCSEAL1'' @ [0]"
definition SEALED_VERSION :: u16 where "SEALED_VERSION = 1"
definition MAX_CONTEXT_FIELD :: nat where "MAX_CONTEXT_FIELD = 128"
definition MAX_SEALED_STATE :: nat where "MAX_SEALED_STATE = 64 * 1024"
definition MAX_STATE_ATTACHMENT :: nat where "MAX_STATE_ATTACHMENT = 4 * 1024"

record session_context =
  cx_machine :: bytes
  cx_component :: bytes
  cx_peer :: bytes
  cx_conversation :: bytes

definition session_context_new :: "bytes \<Rightarrow> bytes \<Rightarrow> bytes \<Rightarrow> bytes \<Rightarrow> crypto_error + session_context" where
  "session_context_new machine component peer conversation =
     reject (\<exists>field \<in> set [machine, component, peer, conversation]. field = [] \<or> MAX_CONTEXT_FIELD < length field)
       InvalidStateContext
       (Inr \<lparr>cx_machine = machine, cx_component = component, cx_peer = peer, cx_conversation = conversation\<rparr>)"

definition context_aad :: "session_context \<Rightarrow> bytes" where
  "context_aad c =
     lit ''gc1/sealed-session/v1''
     @ concat (map (\<lambda>field. be16 (of_nat (length field)) @ field)
         [cx_machine c, cx_component c, cx_peer c, cx_conversation c])"

definition sealed_from_bytes :: "bytes \<Rightarrow> crypto_error + bytes" where
  "sealed_from_bytes bs =
     reject (length bs < 8 + 2 + 12 + 16 \<or> MAX_SEALED_STATE < length bs) BadEncoding (Inr bs)"

definition seal_state_with_attachment_at ::
  "('g, 'h) ratchet_ops \<Rightarrow> 32 arr \<Rightarrow> session_context \<Rightarrow> bytes \<Rightarrow> session_time \<Rightarrow> 'h \<Rightarrow> 'g session
   \<Rightarrow> (crypto_error + bytes) \<times> 'h" where
  "seal_state_with_attachment_at R wrapping_key context attachment now h s =
     (if MAX_STATE_ATTACHMENT < length attachment then (Inl StateTooLarge, h)
      else if now < s_last_pq s \<or> (\<exists>k \<in> set (s_skipped s). now < sk_stored_at k) then (Inl StaleTransaction, h)
      else
        let state = encode_private_at now s;
            plaintext = be32 (of_nat (length state)) @ state @ attachment
        in if MAX_SEALED_STATE - 64 < length plaintext then (Inl StateTooLarge, h)
           else case ro_entropy R h 12 of
             (None, h) \<Rightarrow> (Inl Entropy, h)
           | (Some nonce, h) \<Rightarrow>
               (rbind (ok_or Encrypt (cr_seal256 (ro_crypto R) wrapping_key (list_of (arr_pad nonce :: 12 arr)) (context_aad context) plaintext))
                  (\<lambda>ciphertext. sealed_from_bytes (SEALED_MAGIC @ be16 SEALED_VERSION @ list_of (arr_pad nonce :: 12 arr) @ ciphertext)), h))"

definition open_state_with_attachment_at ::
  "('g, 'h) ratchet_ops \<Rightarrow> bytes \<Rightarrow> 32 arr \<Rightarrow> session_context \<Rightarrow> session_time \<Rightarrow> duration \<Rightarrow> 'h
   \<Rightarrow> (crypto_error + ('g session \<times> bytes)) \<times> 'h" where
  "open_state_with_attachment_at R bs wrapping_key context now offline h =
     (if length bs < 38 \<or> take 8 bs \<noteq> SEALED_MAGIC \<or> de16 (sub_list bs 8 10) \<noteq> SEALED_VERSION
      then (Inl BadEncoding, h)
      else case cr_open256 (ro_crypto R) wrapping_key (sub_list bs 10 22) (context_aad context) (drop 22 bs) of
        None \<Rightarrow> (Inl StateAuthentication, h)
      | Some plaintext \<Rightarrow>
          if length plaintext < 4 then (Inl BadEncoding, h)
          else let state_len = unat (de32 (take 4 plaintext)) in
          if length plaintext - 4 < state_len \<or> MAX_STATE_ATTACHMENT < length plaintext - 4 - state_len
          then (Inl BadEncoding, h)
          else case std_from_rng R h of
            (Inl e, h) \<Rightarrow> (Inl e, h)
          | (Inr rng, h) \<Rightarrow>
              (rbind (ok_or BadEncoding (decode_private_at (sub_list plaintext 4 (4 + state_len)) now offline rng))
                 (\<lambda>session. Inr (session, drop (4 + state_len) plaintext)), h))"

definition open_state_at_least ::
  "('g, 'h) ratchet_ops \<Rightarrow> bytes \<Rightarrow> 32 arr \<Rightarrow> session_context \<Rightarrow> u64 \<Rightarrow> u64 \<Rightarrow> session_time \<Rightarrow> 'h
   \<Rightarrow> (crypto_error + 'g session) \<times> 'h" where
  "open_state_at_least R bs wrapping_key context minimum_send_ctr minimum_recv_ctr now h =
     (case open_state_with_attachment_at R bs wrapping_key context now 0 h of
        (r, h) \<Rightarrow>
          (rbind r (\<lambda>(session, _).
             reject (s_send_ctr session < minimum_send_ctr \<or> s_recv_ctr session < minimum_recv_ctr)
               StaleTransaction (Inr session)), h))"

section \<open>Transactions\<close>

record 'g prepared =
  pr_base_send_ctr :: u64
  pr_base_recv_ctr :: u64
  pr_output :: bytes
  pr_sealed :: bytes
  pr_next :: "'g session option"

text \<open>\<open>PreparedSend\<close> has the wire bytes as its output, \<open>PreparedReceive\<close> the plaintext.\<close>

definition clone_with_fresh_entropy ::
  "('g, 'h) ratchet_ops \<Rightarrow> 'h \<Rightarrow> 'g session \<Rightarrow> (crypto_error + 'g session) \<times> 'h" where
  "clone_with_fresh_entropy R h s =
     (case std_from_rng R h of
        (Inl e, h) \<Rightarrow> (Inl e, h)
      | (Inr rng, h) \<Rightarrow> (Inr (s\<lparr>s_rng := rng\<rparr>), h))"

definition prepare_send_with_attachment_at ::
  "('g, 'h) ratchet_ops \<Rightarrow> bytes \<Rightarrow> 32 arr \<Rightarrow> session_context \<Rightarrow> bytes \<Rightarrow> session_time \<Rightarrow> 'h \<Rightarrow> 'g session
   \<Rightarrow> (crypto_error + 'g prepared) \<times> 'h" where
  "prepare_send_with_attachment_at R payload wrapping_key context attachment now h s =
     (case clone_with_fresh_entropy R h s of
        (Inl e, h) \<Rightarrow> (Inl e, h)
      | (Inr nxt, h) \<Rightarrow>
          (case send_at R payload now nxt of
             (nxt, Inl e) \<Rightarrow> (Inl e, h)
           | (nxt, Inr f) \<Rightarrow>
               (case frame_encode f of
                  Inl e \<Rightarrow> (Inl e, h)
                | Inr wire \<Rightarrow>
                    (case seal_state_with_attachment_at R wrapping_key context attachment now h nxt of
                       (Inl e, h) \<Rightarrow> (Inl e, h)
                     | (Inr sealed, h) \<Rightarrow>
                         (Inr \<lparr>pr_base_send_ctr = s_send_ctr s, pr_base_recv_ctr = s_recv_ctr s,
                               pr_output = wire, pr_sealed = sealed, pr_next = Some nxt\<rparr>, h)))))"

definition session_prepare_receive_at ::
  "('g, 'h) ratchet_ops \<Rightarrow> frame \<Rightarrow> 32 arr \<Rightarrow> session_context \<Rightarrow> session_time \<Rightarrow> 'h \<Rightarrow> 'g session
   \<Rightarrow> (crypto_error + 'g prepared) \<times> 'h" where
  "session_prepare_receive_at R f wrapping_key context now h s =
     (case clone_with_fresh_entropy R h s of
        (Inl e, h) \<Rightarrow> (Inl e, h)
      | (Inr nxt, h) \<Rightarrow>
          (case receive_at R f now nxt of
             (nxt, Inl e) \<Rightarrow> (Inl e, h)
           | (nxt, Inr plaintext) \<Rightarrow>
               (case seal_state_with_attachment_at R wrapping_key context [] now h nxt of
                  (Inl e, h) \<Rightarrow> (Inl e, h)
                | (Inr sealed, h) \<Rightarrow>
                    (Inr \<lparr>pr_base_send_ctr = s_send_ctr s, pr_base_recv_ctr = s_recv_ctr s,
                          pr_output = plaintext, pr_sealed = sealed, pr_next = Some nxt\<rparr>, h))))"

definition session_commit_send :: "'g prepared \<Rightarrow> 'g session \<Rightarrow> crypto_error + 'g session" where
  "session_commit_send p s =
     reject (s_send_ctr s \<noteq> pr_base_send_ctr p \<or> s_recv_ctr s \<noteq> pr_base_recv_ctr p) StaleTransaction
       (ok_or StaleTransaction (pr_next p))"

definition session_commit_receive :: "'g prepared \<Rightarrow> 'g session \<Rightarrow> crypto_error + 'g session" where
  "session_commit_receive p s =
     reject (s_send_ctr s \<noteq> pr_base_send_ctr p \<or> s_recv_ctr s \<noteq> pr_base_recv_ctr p) StaleTransaction
       (ok_or StaleTransaction (pr_next p))"

section \<open>Sealing and opening\<close>

lemma length_put_opt32: "length (put_opt32 x) \<le> 33"
  by (simp add: put_opt32_def split: option.splits)

lemma length_put_opt_bytes: "\<forall>k. x = Some k \<longrightarrow> length k = n \<Longrightarrow> length (put_opt_bytes x) \<le> n + 3"
  by (simp add: put_opt_bytes_def split: option.splits)

lemma length_skipped_encode: "length (skipped_encode now k) = 56"
  by (simp add: skipped_encode_def)

lemma length_encode_private:
  assumes "archivable s"
  shows "length (encode_private_at now s) \<le> 6655"
proof -
  have "length (concat (map (\<lambda>(pk, sk). list_of pk @ list_of sk) kps)) = 64 * length kps" for kps :: "(32 arr \<times> 32 arr) list"
    by (induction kps) auto
  then have kps: "length (concat (map (\<lambda>(pk, sk). list_of pk @ list_of sk) (s_old_kps s))) \<le> 512"
    using assms by (simp add: archivable_def OLD_KP_CAP_def)
  have "length (concat (map (skipped_encode now) ks)) = 56 * length ks" for ks
    by (induction ks) (simp_all add: length_skipped_encode)
  then have sk: "length (concat (map (skipped_encode now) (s_skipped s))) \<le> 3584"
    using assms by (simp add: archivable_def MAX_SKIP_def)
  have k: "length (put_opt_bytes (s_peer_kem s)) \<le> KEM_EK_LEN + 3" "length (put_opt_bytes (s_epoch_pq_ct s)) \<le> KEM_CT_LEN + 3"
    "length (put_opt_bytes (map_option list_of (s_kem_dk s))) \<le> 64 + 3"
    by (rule length_put_opt_bytes; use assms in \<open>auto simp: archivable_def\<close>)+
  show ?thesis
    using kps sk k length_put_opt32 [of "s_peer_pub s"] length_put_opt32 [of "s_mixed_peer s"]
    by (simp add: encode_private_at_def SES_MAGIC_def KEM_EK_LEN_def KEM_CT_LEN_def)
qed

lemma SEALED_MAGIC_length [simp]: "length SEALED_MAGIC = 8"
  by (simp add: SEALED_MAGIC_def)

lemma seal_state_returns:
  assumes ok: "crypto_ok (ro_crypto R)" and arch: "archivable s" and att: "length attachment \<le> MAX_STATE_ATTACHMENT"
    and clock: "s_last_pq s \<le> now" "\<forall>k \<in> set (s_skipped s). sk_stored_at k \<le> now"
    and ent: "ro_entropy R h 12 = (Some nonce, h')"
  obtains ct where "seal_state_with_attachment_at R key context attachment now h s
      = (Inr (SEALED_MAGIC @ be16 SEALED_VERSION @ list_of (arr_pad nonce :: 12 arr) @ ct), h')"
    "cr_open256 (ro_crypto R) key (list_of (arr_pad nonce :: 12 arr)) (context_aad context) ct
      = Some (be32 (of_nat (length (encode_private_at now s))) @ encode_private_at now s @ attachment)"
    "16 \<le> length ct"
proof -
  let ?p = "be32 (of_nat (length (encode_private_at now s))) @ encode_private_at now s @ attachment"
  have len: "length ?p \<le> 10755" using length_encode_private [OF arch, of now] att by (simp add: MAX_STATE_ATTACHMENT_def)
  then have "length ?p < 65536" by simp
  from ok this obtain ct where ct: "cr_seal256 (ro_crypto R) key (list_of (arr_pad nonce :: 12 arr)) (context_aad context) ?p = Some ct"
    "length ct = length ?p + 16" "cr_open256 (ro_crypto R) key (list_of (arr_pad nonce :: 12 arr)) (context_aad context) ct = Some ?p"
    by (rule aead_ok_sealE)
  have "\<not> (now < s_last_pq s \<or> (\<exists>k \<in> set (s_skipped s). now < sk_stored_at k))" using clock by auto
  then have "seal_state_with_attachment_at R key context attachment now h s
      = (Inr (SEALED_MAGIC @ be16 SEALED_VERSION @ list_of (arr_pad nonce :: 12 arr) @ ct), h')"
    using att len ent ct
    by (simp add: seal_state_with_attachment_at_def Let_def sealed_from_bytes_def MAX_SEALED_STATE_def reject_def)
  with that ct show thesis by simp
qed

lemma seal_open_state:
  assumes ok: "crypto_ok (ro_crypto R)" and arch: "archivable s" and att: "length attachment \<le> MAX_STATE_ATTACHMENT"
    and clock: "s_last_pq s \<le> saved" "\<forall>k \<in> set (s_skipped s). sk_stored_at k \<le> saved"
    and ent: "ro_entropy R h 12 = (Some nonce, h')" and rng: "std_from_rng R h2 = (Inr rng, h2')"
  obtains sealed where "seal_state_with_attachment_at R key context attachment saved h s = (Inr sealed, h')"
    "open_state_with_attachment_at R sealed key context now offline h2
       = (Inr (reload saved now offline rng s, attachment), h2')"
proof -
  let ?n = "list_of (arr_pad nonce :: 12 arr)" and ?e = "encode_private_at saved s"
  obtain ct where seal: "seal_state_with_attachment_at R key context attachment saved h s
      = (Inr (SEALED_MAGIC @ be16 SEALED_VERSION @ ?n @ ct), h')"
    and op: "cr_open256 (ro_crypto R) key ?n (context_aad context) ct = Some (be32 (of_nat (length ?e)) @ ?e @ attachment)"
    and l: "16 \<le> length ct"
    by (rule seal_state_returns [OF ok arch att clock ent])
  have le: "unat (of_nat (length ?e) :: u32) = length ?e"
    using length_encode_private [OF arch, of saved] by (intro unat_of_nat_u32) simp
  have "open_state_with_attachment_at R (SEALED_MAGIC @ be16 SEALED_VERSION @ ?n @ ct) key context now offline h2
       = (Inr (reload saved now offline rng s, attachment), h2')"
    using l op le rng att session_decode_encode [OF arch]
    by (simp add: open_state_with_attachment_at_def sub_list_def Let_def)
  with seal that show thesis by blast
qed

text \<open>The associated data determines the context.\<close>

lemma field_inject:
  assumes "be16 (of_nat (length a)) @ a @ r = be16 (of_nat (length b)) @ b @ r'" and "length a < 65536" and "length b < 65536"
  shows "a = b \<and> r = r'"
proof -
  have "be16 (of_nat (length a)) = be16 (of_nat (length b))" and rest: "a @ r = b @ r'"
    using assms(1) by (metis append_eq_append_conv length_be(1))+
  then have "length a = length b" using assms(2,3) by (metis be_inject(1) unat_of_nat_u16)
  with rest show ?thesis by simp
qed

definition context_ok :: "session_context \<Rightarrow> bool" where
  "context_ok c \<longleftrightarrow> (\<exists>m co p cv. session_context_new m co p cv = Inr c)"

lemma context_ok_fields:
  assumes "context_ok c"
  shows "length (cx_machine c) < 65536" "length (cx_component c) < 65536" "length (cx_peer c) < 65536" "length (cx_conversation c) < 65536"
  using assms by (auto simp: context_ok_def session_context_new_def MAX_CONTEXT_FIELD_def)

lemma context_aad_inject: "context_ok c \<Longrightarrow> context_ok c' \<Longrightarrow> context_aad c = context_aad c' \<longleftrightarrow> c = c'"
proof
  assume c: "context_ok c" "context_ok c'" and e: "context_aad c = context_aad c'"
  note l = context_ok_fields [OF c(1)] context_ok_fields [OF c(2)]
  from e have *: "be16 (of_nat (length (cx_machine c))) @ cx_machine c @ be16 (of_nat (length (cx_component c))) @ cx_component c
       @ be16 (of_nat (length (cx_peer c))) @ cx_peer c @ be16 (of_nat (length (cx_conversation c))) @ cx_conversation c @ []
     = be16 (of_nat (length (cx_machine c'))) @ cx_machine c' @ be16 (of_nat (length (cx_component c'))) @ cx_component c'
       @ be16 (of_nat (length (cx_peer c'))) @ cx_peer c' @ be16 (of_nat (length (cx_conversation c'))) @ cx_conversation c' @ []"
    by (simp add: context_aad_def)
  note f1 = field_inject [OF * l(1,5)]
  note f2 = field_inject [OF conjunct2 [OF f1] l(2,6)]
  note f3 = field_inject [OF conjunct2 [OF f2] l(3,7)]
  note f4 = field_inject [OF conjunct2 [OF f3] l(4,8)]
  from f1 f2 f3 f4 show "c = c'" by simp
qed simp

section \<open>Transactions in terms of the session\<close>

lemma prepare_receive_InrE:
  assumes "session_prepare_receive_at R f key context now h s = (Inr p, h')"
  obtains rng s' sealed where "receive_at R f now (s\<lparr>s_rng := rng\<rparr>) = (s', Inr (pr_output p))"
    "p = \<lparr>pr_base_send_ctr = s_send_ctr s, pr_base_recv_ctr = s_recv_ctr s, pr_output = pr_output p,
          pr_sealed = sealed, pr_next = Some s'\<rparr>"
  using assms
  by (auto simp: session_prepare_receive_at_def clone_with_fresh_entropy_def split: prod.splits sum.splits)

lemma prepare_send_InrE:
  assumes "prepare_send_with_attachment_at R payload key context attachment now h s = (Inr p, h')"
  obtains rng s' f sealed where "send_at R payload now (s\<lparr>s_rng := rng\<rparr>) = (s', Inr f)" "frame_encode f = Inr (pr_output p)"
    "p = \<lparr>pr_base_send_ctr = s_send_ctr s, pr_base_recv_ctr = s_recv_ctr s, pr_output = pr_output p,
          pr_sealed = sealed, pr_next = Some s'\<rparr>"
  using assms
  by (auto simp: prepare_send_with_attachment_at_def clone_with_fresh_entropy_def split: prod.splits sum.splits)

lemma receive_rng:
  assumes "receive_at R f now s = (s', r)"
  shows "receive_at R f now (s\<lparr>s_rng := rng\<rparr>) = (s'\<lparr>s_rng := rng\<rparr>, r)"
proof -
  have p: "prune_skipped now (s\<lparr>s_rng := rng\<rparr>) = (prune_skipped now s)\<lparr>s_rng := rng\<rparr>" for s :: "'a session"
    by (cases s) (simp add: prune_skipped_def)
  have u2: "(s\<lparr>s_rng := rng\<rparr>)\<lparr>s_skipped := ks\<rparr> = (s\<lparr>s_skipped := ks\<rparr>)\<lparr>s_rng := rng\<rparr>" for s :: "'a session" and ks
    by (cases s) simp
  have k: "receive_skipped R f (s\<lparr>s_rng := rng\<rparr>) = (case receive_skipped R f s of (s', r) \<Rightarrow> (s'\<lparr>s_rng := rng\<rparr>, r))"
    for s :: "'a session"
  proof (cases "position (\<lambda>k. sk_ctr k = f_ctr f) (s_skipped s)")
    case (Some i)
    let ?k = "s_skipped s ! i"
    show ?thesis
      by (cases "rbind (header_bytes f) (\<lambda>hdr. ok_or Decrypt (open_ct R (sk_mk ?k) (sk_nonce ?k) (f_ct f) hdr))")
         (simp_all add: receive_skipped_def Let_def Some u2 del: rbind_eq_Inr)
  qed (simp add: receive_skipped_def)
  have a: "receive_advance R f now (s\<lparr>s_rng := rng\<rparr>) = receive_advance R f now s" for s :: "'a session"
  proof -
    have g: "before_rotation f (s\<lparr>s_rng := rng\<rparr>) = before_rotation f s" "after_rotation f (s\<lparr>s_rng := rng\<rparr>) = after_rotation f s"
      by (simp_all add: before_rotation_def after_rotation_def cong: if_cong)
    have fk: "find_keypair R q (s\<lparr>s_rng := rng\<rparr>) = find_keypair R q s" for q
      by (simp add: find_keypair_def my_pub_def cong: if_cong)
    have "mix_epoch R f (s\<lparr>s_rng := rng\<rparr>) c = mix_epoch R f s c" for c
      by (simp add: mix_epoch_def fk cong: if_cong option.case_cong)
    then show ?thesis by (simp add: receive_advance_def total_gap_def g)
  qed
  have u: "(s\<lparr>s_rng := rng\<rparr>)\<lparr>s_recv_chain := c, s_recv_ctr := n, s_peer_pub := q, s_skipped := ks\<rparr>
     = (s\<lparr>s_recv_chain := c, s_recv_ctr := n, s_peer_pub := q, s_skipped := ks\<rparr>)\<lparr>s_rng := rng\<rparr>" for s :: "'a session" and c n q ks
    by (cases s) simp
  show ?thesis using assms
    by (auto simp: receive_at_def Let_def p k a u split: prod.splits sum.splits if_splits)
qed

text \<open>
  A late frame (at or below the counter) leaves the counters, so the freshness check of the
  transaction interface does not see it: committing it between the preparation and the commit of
  another operation goes unnoticed.
\<close>

lemma distinct_remove_middle: "distinct (xs @ c # ys) \<Longrightarrow> set (xs @ ys) = set (xs @ c # ys) - {c}"
  by auto

lemma distinct_key: "distinct (map sk_ctr ks) \<Longrightarrow> x \<in> set ks \<Longrightarrow> y \<in> set ks \<Longrightarrow> sk_ctr x = sk_ctr y \<Longrightarrow> x = y"
  by (auto simp: distinct_map dest: inj_onD)

lemma receive_late:
  assumes inv: "session_inv R s" and late: "f_ctr f \<le> s_recv_ctr s" and rx: "receive_at R f now s = (s', Inr p)"
  shows "s_send_ctr s' = s_send_ctr s" "s_recv_ctr s' = s_recv_ctr s"
    and "sk_ctr ` set (s_skipped s') = sk_ctr ` set (s_skipped (prune_skipped now s)) - {f_ctr f}"
    and "f_ctr f \<in> sk_ctr ` set (s_skipped (prune_skipped now s))"
proof -
  from rx have "s_send_ctr s' = s_send_ctr s \<and> s_recv_ctr s' = s_recv_ctr s
     \<and> sk_ctr ` set (s_skipped s') = sk_ctr ` set (s_skipped (prune_skipped now s)) - {f_ctr f}
     \<and> f_ctr f \<in> sk_ctr ` set (s_skipped (prune_skipped now s))"
  proof (cases rule: receive_at_cases)
    case (skipped q ys k zs)
    have d: "distinct (map sk_ctr (ys @ k # zs))"
      using prune_skipped_inv [OF inv, of now] skipped(3) by (simp add: session_inv_def)
    have "sk_ctr ` set (s_skipped s') = set (map sk_ctr (ys @ zs))" by (simp add: skipped(6) image_Un)
    also have "\<dots> = set (map sk_ctr (ys @ k # zs)) - {sk_ctr k}"
      using d unfolding map_append list.map by (rule distinct_remove_middle)
    also have "\<dots> = sk_ctr ` set (s_skipped (prune_skipped now s)) - {f_ctr f}" by (simp add: skipped(3,4) image_Un)
    finally have "sk_ctr ` set (s_skipped s') = sk_ctr ` set (s_skipped (prune_skipped now s)) - {f_ctr f}" .
    moreover have "f_ctr f \<in> sk_ctr ` set (s_skipped (prune_skipped now s))"
      unfolding skipped(3) using skipped(4) by (simp flip: skipped(4))
    moreover have "s_send_ctr s' = s_send_ctr s \<and> s_recv_ctr s' = s_recv_ctr s" by (simp add: skipped(6))
    ultimately show ?thesis by blast
  next
    case (advanced q nxt pp ks)
    with late show ?thesis by simp
  qed simp
  then show "s_send_ctr s' = s_send_ctr s" "s_recv_ctr s' = s_recv_ctr s"
    "sk_ctr ` set (s_skipped s') = sk_ctr ` set (s_skipped (prune_skipped now s)) - {f_ctr f}"
    "f_ctr f \<in> sk_ctr ` set (s_skipped (prune_skipped now s))" by simp_all
qed

lemma receive_same_key:
  assumes inv: "session_inv R s" "session_inv R t" and late: "f_ctr f \<le> s_recv_ctr s" "s_recv_ctr t = s_recv_ctr s"
    and rx: "receive_at R f now s = (s', Inr p)"
    and key: "\<exists>k \<in> set (s_skipped (prune_skipped now s)). sk_ctr k = f_ctr f \<and> k \<in> set (s_skipped (prune_skipped now t))"
  shows "\<exists>t'. receive_at R f now t = (t', Inr p)"
proof -
  from rx late obtain ys k zs where k: "s_skipped (prune_skipped now s) = ys @ k # zs" "sk_ctr k = f_ctr f"
    and o: "rbind (header_bytes f) (\<lambda>hdr. ok_or Decrypt (open_ct R (sk_mk k) (sk_nonce k) (f_ct f) hdr)) = Inr p"
    by (cases rule: receive_at_cases) auto
  have ds: "distinct (map sk_ctr (s_skipped (prune_skipped now s)))" "distinct (map sk_ctr (s_skipped (prune_skipped now t)))"
    using prune_skipped_inv [OF inv(1), of now] prune_skipped_inv [OF inv(2), of now] by (simp_all add: session_inv_def)
  from key obtain k' where k': "k' \<in> set (s_skipped (prune_skipped now s))" "sk_ctr k' = f_ctr f" "k' \<in> set (s_skipped (prune_skipped now t))"
    by blast
  have "k' = k" using distinct_key [OF ds(1) k'(1), of k] k k'(2) by simp
  let ?t = "s_skipped (prune_skipped now t)"
  obtain n where n: "position (\<lambda>y. sk_ctr y = f_ctr f) ?t = Some n"
    using k' by (cases "position (\<lambda>y. sk_ctr y = f_ctr f) ?t") (auto simp: position_None)
  then have "n < length ?t" "sk_ctr (?t ! n) = f_ctr f" using position_SomeD [OF n] by simp_all
  then have "?t ! n = k" using distinct_key [OF ds(2) nth_mem k'(3)] k'(2) \<open>k' = k\<close> by simp
  moreover from o obtain hdr where "header_bytes f = Inr hdr" "open_ct R (sk_mk k) (sk_nonce k) (f_ct f) hdr = Some p"
    by auto
  ultimately show ?thesis using n late by (simp add: receive_at_def receive_skipped_def Let_def)
qed

lemma late_keeps_key:
  assumes inv: "session_inv R s" and late: "f_ctr f \<le> s_recv_ctr s" and rx: "receive_at R f now s = (s', Inr p)"
    and k: "k \<in> set (s_skipped (prune_skipped now s))" and other: "sk_ctr k \<noteq> f_ctr f"
  shows "k \<in> set (s_skipped (prune_skipped now s'))"
  using rx
proof (cases rule: receive_at_cases)
  case (skipped q ys x zs)
  have len: "length (s_skipped s') \<le> MAX_SKIP"
    using prune_skipped_keys(2) [of now s] unfolding skipped(3,6) by simp
  have "k \<in> set (s_skipped s')" using k other skipped(3,4) unfolding skipped(6) by auto
  moreover have "elapsed now (sk_stored_at k) < SKIP_KEY_TTL_NS"
    using k inv by (simp add: prune_skipped_eq session_inv_def)
  ultimately show ?thesis by (simp add: prune_skipped_eq [OF len])
next
  case (advanced q nxt pp ks)
  with late show ?thesis by simp
qed simp

lemma session_inv_rng [simp]: "session_inv R (s\<lparr>s_rng := rng\<rparr>) = session_inv R s"
  by (simp add: session_inv_def)

lemma prune_skipped_rng [simp]: "s_skipped (prune_skipped now (s\<lparr>s_rng := rng\<rparr>)) = s_skipped (prune_skipped now s)"
  by (simp add: prune_skipped_def)

lemma prepare_receive_returns:
  assumes ok: "crypto_ok (ro_crypto R)" and rx: "receive_at R f now s = (s', Inr payload)" and arch: "archivable s'"
    and clock: "s_last_pq s' \<le> now" "\<forall>k \<in> set (s_skipped s'). sk_stored_at k \<le> now"
    and ent: "std_from_rng R h = (Inr rng, h1)" "ro_entropy R h1 12 = (Some nonce, h2)"
  shows "\<exists>p. session_prepare_receive_at R f key context now h s = (Inr p, h2) \<and> pr_output p = payload"
proof -
  have a: "archivable (s'\<lparr>s_rng := rng\<rparr>)" using arch by (simp add: archivable_def)
  obtain ct where "seal_state_with_attachment_at R key context [] now h1 (s'\<lparr>s_rng := rng\<rparr>)
      = (Inr (SEALED_MAGIC @ be16 SEALED_VERSION @ list_of (arr_pad nonce :: 12 arr) @ ct), h2)"
    by (rule seal_state_returns [OF ok a _ _ _ ent(2), of "[]" now key "context"])
       (use clock in \<open>simp_all add: MAX_STATE_ATTACHMENT_def\<close>)
  then show ?thesis using ent(1) receive_rng [OF rx]
    by (simp add: session_prepare_receive_at_def clone_with_fresh_entropy_def)
qed

subsection \<open>Every decoded archive is well formed\<close>

lemma skipped_decode_all_bound:
  "skipped_decode_all recv_ctr now offline n inp = Some (ks, r) \<Longrightarrow>
     length ks \<le> n \<and> (\<forall>k \<in> set ks. sk_ctr k \<le> recv_ctr)"
proof (induction n arbitrary: inp ks r)
  case (Suc n)
  from Suc.prems obtain k inp' ks' where k: "skipped_decode recv_ctr now offline inp = Some (k, inp')"
    and ks': "skipped_decode_all recv_ctr now offline n inp' = Some (ks', r)" and ks: "ks = (case k of None \<Rightarrow> ks' | Some k \<Rightarrow> k # ks')"
    by (auto simp: bind_eq_Some_conv)
  have "sk_ctr x \<le> recv_ctr" if "k = Some x" for x
    using k that by (auto simp: skipped_decode_def bind_eq_Some_conv Let_def not_less split: if_splits option.splits)
  with Suc.IH [OF ks'] show ?case unfolding ks by (auto split: option.splits)
qed simp

lemma old_kps_decode_length: "old_kps_decode n inp = Some (kps, r) \<Longrightarrow> length kps = n"
  by (induction n arbitrary: inp kps r) (auto simp: bind_eq_Some_conv)

lemma rd_length: "rd n inp = Some (a, r) \<Longrightarrow> length a = n"
  by (auto simp: rd_def split: if_splits)

lemma take_opt_bytes_length: "take_opt_bytes n inp = Some (Some k, r) \<Longrightarrow> length k = n"
  by (auto simp: take_opt_bytes_def bind_eq_Some_conv split: if_splits dest: rd_length)

lemma epoch_decode_bound:
  assumes "epoch_decode legacy send_ctr recv_ctr sent every after now offline inp = Some (e, r)"
  shows "length (es_skipped e) \<le> MAX_SKIP \<and> (\<forall>k \<in> set (es_skipped e). sk_ctr k \<le> recv_ctr)
    \<and> (\<forall>c. es_epoch_pq_ct e = Some c \<longrightarrow> length c = KEM_CT_LEN) \<and> es_send_rotated_at e \<le> send_ctr"
proof (cases legacy)
  case True
  with assms show ?thesis by (auto simp: epoch_decode_def)
next
  case False
  with assms show ?thesis
    by (auto simp: epoch_decode_def bind_eq_Some_conv Let_def not_less take_opt_bytes_length
        split: if_splits option.splits dest!: skipped_decode_all_bound)
qed

lemma decode_archivable:
  assumes "decode_private_at buf now offline rng = Some s"
  shows "archivable s"
proof -
  have secs: "0 \<le> from_secs (uint n) \<and> as_secs (from_secs (uint n)) \<le> 31622400" if "n \<le> 31622400" for n :: u64
    using that by (simp add: from_secs_def as_secs_def word_le_def)
  show ?thesis
    using assms unfolding decode_private_at_def Let_def
    by (auto simp: bind_eq_Some_conv not_less archivable_def take_opt_bytes_length
        split: if_splits dest!: epoch_decode_bound secs old_kps_decode_length)
qed

subsection \<open>Evaluated sessions and archives\<close>

lemma toy_entropy [simp]:
  "ro_entropy toy_ratchet h n = (Some (replicate n (of_nat (Suc h))), Suc h)"
  "std_from_rng toy_ratchet h = (Inr (ro_seeded toy_ratchet (arr_pad (replicate 32 (of_nat (Suc h))))), Suc h)"
  by (simp_all add: toy_ratchet_def std_from_rng_def)

definition demo_key :: "u64 \<Rightarrow> skipped_key" where
  "demo_key c = \<lparr>sk_ctr = c, sk_mk = arr_fill 6, sk_nonce = arr_fill 1, sk_stored_at = 0\<rparr>"

definition demo_late :: "nat session" where
  "demo_late = demo_receiver\<lparr>s_recv_ctr := 2, s_skipped := [demo_key 1, demo_key 2]\<rparr>"

definition demo_late_frame :: "u64 \<Rightarrow> frame" where
  "demo_late_frame c = \<lparr>f_ctr = c, f_pn = 0, f_sender_pub = arr_fill 3, f_mixed_with = None, f_pq_ct = None,
     f_ct = 9 # replicate 16 6\<rparr>"

definition demo_context :: session_context where
  "demo_context = \<lparr>cx_machine = [1], cx_component = [2], cx_peer = [3], cx_conversation = [4]\<rparr>"

lemma demo_late_inv: "session_inv toy_ratchet demo_late"
  by (simp add: session_inv_def demo_late_def demo_receiver_def demo_session_def demo_key_def MAX_SKIP_def)

lemma demo_late_receive:
  "receive_at toy_ratchet (demo_late_frame 1) 0 demo_late = (demo_late\<lparr>s_skipped := [demo_key 2]\<rparr>, Inr [9])"
  "receive_at toy_ratchet (demo_late_frame 2) 0 demo_late = (demo_late\<lparr>s_skipped := [demo_key 1]\<rparr>, Inr [9])"
  by code_simp+

lemma demo_late_prepared:
  assumes "c = 1 \<or> c = 2"
  shows "\<exists>p. session_prepare_receive_at toy_ratchet (demo_late_frame c) (arr_fill 7) demo_context 0 h demo_late
     = (Inr p, Suc (Suc h)) \<and> pr_output p = [9]"
proof -
  obtain ks where ks: "receive_at toy_ratchet (demo_late_frame c) 0 demo_late = (demo_late\<lparr>s_skipped := ks\<rparr>, Inr [9])"
    "ks = [demo_key 1] \<or> ks = [demo_key 2]"
    using assms demo_late_receive by auto
  show ?thesis
    by (rule prepare_receive_returns [OF ratchet_okD(1) [OF toy_ratchet_ok] ks(1)])
       (use ks(2) in \<open>auto simp: archivable_def demo_late_def demo_receiver_def demo_session_def demo_key_def
          MAX_SKIP_def OLD_KP_CAP_def as_secs_def\<close>)
qed

section \<open>Properties\<close>

text \<open>
  C12 (refinement): a session survives a restart. In every state two peers can reach from a
  handshake, suppose that the session's refresh interval is at most 366 days, the attachment is
  within its limit, the clock at sealing is not before the last rotation and the storing of the
  retained keys, and the operating system gives its randomness for the seal and the new generator.
  Then sealing the session and opening the sealed bytes again with the same key and context
  (at any clock reading, after any time offline) succeeds, returns the attachment and a session with
  the same counters, and the pair of peers with that session in place of the old one is again a
  reachable state, so everything shown of reachable states holds after the restart.
\<close>

theorem restart_continues:
  assumes ok: "ratchet_ok R" and start: "rlink_start R l0" and reach: "rlink_reach R l0 l"
    and policy: "0 \<le> s_pq_after (lk_sess l d)" "as_secs (s_pq_after (lk_sess l d)) \<le> 366 * 24 * 60 * 60"
    and att: "length attachment \<le> MAX_STATE_ATTACHMENT"
    and clock: "s_last_pq (lk_sess l d) \<le> saved" "\<forall>k \<in> set (s_skipped (lk_sess l d)). sk_stored_at k \<le> saved"
    and ent: "ro_entropy R h 12 = (Some nonce, h')" "std_from_rng R g = (Inr rng, g')"
  shows "\<exists>sealed s'. seal_state_with_attachment_at R key context attachment saved h (lk_sess l d) = (Inr sealed, h')
    \<and> open_state_with_attachment_at R sealed key context now offline g = (Inr (s', attachment), g')
    \<and> s_send_ctr s' = s_send_ctr (lk_sess l d) \<and> s_recv_ctr s' = s_recv_ctr (lk_sess l d)
    \<and> rlink_reach R l0 (l\<lparr>lk_sess := (lk_sess l)(d := s')\<rparr>)"
proof -
  have "rlink_inv R l" by (rule rlink_reach_inv [OF reach ok rlink_start_inv [OF ok start]])
  note arch = rlink_archivable [OF this policy]
  obtain sealed where "seal_state_with_attachment_at R key context attachment saved h (lk_sess l d) = (Inr sealed, h')"
    "open_state_with_attachment_at R sealed key context now offline g
       = (Inr (reload saved now offline rng (lk_sess l d), attachment), g')"
    by (rule seal_open_state [OF ratchet_okD(1) [OF ok] arch att clock ent])
  moreover note rlink_reach.step [OF reach rlink_step.restore [OF reload_restored]]
  moreover have "restored (lk_sess l d) (reload saved now offline rng (lk_sess l d))" by (rule reload_restored)
  ultimately show ?thesis unfolding restored_def by blast
qed

theorem restart_continues_witness:
  "\<exists>l saved sealed s'. rlink_start toy_ratchet l
     \<and> seal_state_with_attachment_at toy_ratchet (arr_fill 7) demo_context [5] saved 0 (lk_sess l False) = (Inr sealed, 1)
     \<and> open_state_with_attachment_at toy_ratchet sealed (arr_fill 7) demo_context (saved + 1) 1 0 = (Inr (s', [5]), 1)
     \<and> rlink_reach toy_ratchet l (l\<lparr>lk_sess := (lk_sess l)(False := s')\<rparr>)"
proof -
  obtain l where start: "rlink_start toy_ratchet l" using toy_start by blast
  have "s_skipped (lk_sess l False) = [] \<and> s_pq_after (lk_sess l False) = DEFAULT_PQ_AFTER"
    by (rule rlink_startE [OF toy_ratchet_ok start]) (simp add: rlink_of_def)
  then have "\<exists>sealed s'. seal_state_with_attachment_at toy_ratchet (arr_fill 7) demo_context [5] (s_last_pq (lk_sess l False)) 0
        (lk_sess l False) = (Inr sealed, 1)
      \<and> open_state_with_attachment_at toy_ratchet sealed (arr_fill 7) demo_context (s_last_pq (lk_sess l False) + 1) 1 0 = (Inr (s', [5]), 1)
      \<and> s_send_ctr s' = s_send_ctr (lk_sess l False) \<and> s_recv_ctr s' = s_recv_ctr (lk_sess l False)
      \<and> rlink_reach toy_ratchet l (l\<lparr>lk_sess := (lk_sess l)(False := s')\<rparr>)"
    by (intro restart_continues [OF toy_ratchet_ok start rlink_reach.start])
       (auto simp: DEFAULT_PQ_AFTER_def from_secs_def as_secs_def MAX_STATE_ATTACHMENT_def)
  with start show ?thesis by blast
qed

text \<open>
  C35 (type): whatever bytes \<open>decode_private_at\<close> accepts, the session it returns is well formed: at
  most 64 retained keys, none above the receive counter, at most 8 old key pairs, key material of
  the exact lengths, a refresh policy within its limits and a last rotation not in the future; and
  archiving that session again is read back.
\<close>

theorem decoded_session_well_formed:
  assumes "decode_private_at buf now offline rng = Some s"
  shows "archivable s \<and> decode_private_at (encode_private_at saved s) t away rng = Some (reload saved t away rng s)"
  using decode_archivable [OF assms] by (simp add: session_decode_encode)

theorem decoded_session_well_formed_witness:
  "\<exists>s. decode_private_at (encode_private_at 0 demo_late) 0 0 (0 :: nat) = Some s \<and> archivable s"
proof -
  have "archivable demo_late"
    by (simp add: archivable_def demo_late_def demo_receiver_def demo_session_def demo_key_def MAX_SKIP_def OLD_KP_CAP_def as_secs_def)
  from session_decode_encode [OF this, of 0 0 0 "0 :: nat"] decoded_session_well_formed [OF session_decode_encode [OF this, of 0 0 0 "0 :: nat"]]
  show ?thesis by blast
qed

text \<open>
  A prepared receive is a receive. When preparing succeeds, receiving the frame
  directly would have returned the same plaintext, and committing on the unchanged session installs
  the state that receive leaves, up to the generator; on a session whose counters moved the commit
  is refused.
\<close>

lemma prepared_receive_refines_receive:
  assumes "session_prepare_receive_at R f key context now h s = (Inr p, h')"
  shows "(\<exists>s' rng. receive_at R f now s = (s', Inr (pr_output p)) \<and> session_commit_receive p s = Inr (s'\<lparr>s_rng := rng\<rparr>))
    \<and> (s_send_ctr t \<noteq> s_send_ctr s \<or> s_recv_ctr t \<noteq> s_recv_ctr s \<longrightarrow> session_commit_receive p t = Inl StaleTransaction)"
proof -
  obtain rng s' sealed where rx: "receive_at R f now (s\<lparr>s_rng := rng\<rparr>) = (s', Inr (pr_output p))"
    and p: "p = \<lparr>pr_base_send_ctr = s_send_ctr s, pr_base_recv_ctr = s_recv_ctr s, pr_output = pr_output p,
          pr_sealed = sealed, pr_next = Some s'\<rparr>"
    by (rule prepare_receive_InrE [OF assms])
  obtain s1 r where r: "receive_at R f now s = (s1, r)" by fastforce
  have "s' = s1\<lparr>s_rng := rng\<rparr>" "r = Inr (pr_output p)" using receive_rng [OF r, of rng] rx by simp_all
  with r show ?thesis by (subst (2 3) p) (auto simp: session_commit_receive_def reject_def)
qed

text \<open>
  C36 (error): the freshness check of the transactions does not see a late frame. Prepare two late
  frames from the same session and commit both: the first commit removes the key of its frame, the
  second is accepted as well (the counters have not moved) and puts that key back, so the first
  frame is delivered a second time.
\<close>

theorem stale_commit_restores_key:
  assumes inv: "session_inv R s"
    and prep: "session_prepare_receive_at R f1 key context now h s = (Inr p1, h1)"
      "session_prepare_receive_at R f2 key context now h1 s = (Inr p2, h2)"
    and late: "f_ctr f1 \<le> s_recv_ctr s" "f_ctr f2 \<le> s_recv_ctr s" "f_ctr f1 \<noteq> f_ctr f2"
  shows "\<exists>s1 s2 s3. session_commit_receive p1 s = Inr s1 \<and> f_ctr f1 \<notin> sk_ctr ` set (s_skipped s1)
    \<and> session_commit_receive p2 s1 = Inr s2 \<and> receive_at R f1 now s2 = (s3, Inr (pr_output p1))"
proof -
  obtain rng1 s1 sealed1 where rx1: "receive_at R f1 now (s\<lparr>s_rng := rng1\<rparr>) = (s1, Inr (pr_output p1))"
    and p1: "p1 = \<lparr>pr_base_send_ctr = s_send_ctr s, pr_base_recv_ctr = s_recv_ctr s, pr_output = pr_output p1,
          pr_sealed = sealed1, pr_next = Some s1\<rparr>"
    by (rule prepare_receive_InrE [OF prep(1)])
  obtain rng2 s2 sealed2 where rx2: "receive_at R f2 now (s\<lparr>s_rng := rng2\<rparr>) = (s2, Inr (pr_output p2))"
    and p2: "p2 = \<lparr>pr_base_send_ctr = s_send_ctr s, pr_base_recv_ctr = s_recv_ctr s, pr_output = pr_output p2,
          pr_sealed = sealed2, pr_next = Some s2\<rparr>"
    by (rule prepare_receive_InrE [OF prep(2)])
  have i: "session_inv R (s\<lparr>s_rng := rng\<rparr>)" "f_ctr f1 \<le> s_recv_ctr (s\<lparr>s_rng := rng\<rparr>)" "f_ctr f2 \<le> s_recv_ctr (s\<lparr>s_rng := rng\<rparr>)" for rng
    using inv late by simp_all
  note l1 = receive_late [OF i(1,2) rx1] and l2 = receive_late [OF i(1,3) rx2]
  have "session_inv R s2" by (rule receive_at_inv [OF i(1) rx2])
  moreover from l1(4) obtain k where k: "k \<in> set (s_skipped (prune_skipped now s))" "sk_ctr k = f_ctr f1" by auto
  moreover have "k \<in> set (s_skipped (prune_skipped now s2))"
    using late_keeps_key [OF i(1,3) rx2, of k] k late(3) by simp
  moreover have "s_recv_ctr s2 = s_recv_ctr (s\<lparr>s_rng := rng1\<rparr>)" using l2(2) by simp
  ultimately obtain s3 where "receive_at R f1 now s2 = (s3, Inr (pr_output p1))"
    using receive_same_key [OF i(1) _ i(2) _ rx1, of s2] by auto
  moreover have "session_commit_receive p1 s = Inr s1" by (subst p1) (simp add: session_commit_receive_def reject_def)
  moreover have "session_commit_receive p2 s1 = Inr s2"
    using l1(1,2) by (subst p2) (simp add: session_commit_receive_def reject_def)
  ultimately show ?thesis using l1(3) by auto
qed

theorem stale_commit_restores_key_witness:
  "\<exists>p1 p2 s1 s2 s3.
     session_prepare_receive_at toy_ratchet (demo_late_frame 1) (arr_fill 7) demo_context 0 0 demo_late = (Inr p1, 2)
     \<and> session_commit_receive p1 demo_late = Inr s1 \<and> session_commit_receive p2 s1 = Inr s2
     \<and> receive_at toy_ratchet (demo_late_frame 1) 0 s2 = (s3, Inr [9])"
proof -
  obtain p1 where p1: "session_prepare_receive_at toy_ratchet (demo_late_frame 1) (arr_fill 7) demo_context 0 0 demo_late = (Inr p1, 2)"
    "pr_output p1 = [9]"
    using demo_late_prepared [of 1 0] by auto
  obtain p2 where p2: "session_prepare_receive_at toy_ratchet (demo_late_frame 2) (arr_fill 7) demo_context 0 2 demo_late = (Inr p2, 4)"
    using demo_late_prepared [of 2 2] by auto
  from stale_commit_restores_key [OF demo_late_inv p1(1) p2(1)] p1 show ?thesis
    by (fastforce simp: demo_late_frame_def demo_late_def)
qed

end
