(* ===== verification/Credited_Session.thy ===== *)
theory Credited_Session
  imports Gc2_Packets Flow_Storage Ratchet_Storage
begin

text \<open>
  \<open>CreditedSession\<close> of \<open>crates/protocol/src/flow/session.rs\<close>: the hybrid ratchet and the credit
  window as one object, changed only by transactions that are prepared on a copy and committed
  later. A prepared transaction carries the revision it was prepared on, an \<open>Arc\<close> compared by
  address: revisions are numbers here, and an operation that allocates a new one takes it as its
  argument \<open>tok\<close>.
\<close>

section \<open>State and errors\<close>

datatype session_error = SFlow flow_error | SCrypto crypto_error | SStaleTransaction | SRecoveryRequired

type_synonym revision = nat

record 'g credited_session =
  cs_ratchet :: "'g session"
  cs_window :: window
  cs_revision :: revision

record 'g prepared_send =
  ps_revision :: revision
  ps_ratchet :: "'g prepared"
  ps_window :: window

record 'g prepared_receive =
  pv_revision :: revision
  pv_next_revision :: revision
  pv_ratchet :: "'g prepared option"
  pv_record :: "flow_record option"
  pv_window :: window
  pv_credit :: credit

record prepared_credit =
  pc_revision :: revision
  pc_window :: window

abbreviation flow :: "flow_error + 'a \<Rightarrow> session_error + 'a" where "flow \<equiv> map_err SFlow"
abbreviation crypto :: "crypto_error + 'a \<Rightarrow> session_error + 'a" where "crypto \<equiv> map_err SCrypto"

section \<open>Operations\<close>

definition from_authenticated :: "'g session \<Rightarrow> window \<Rightarrow> revision \<Rightarrow> session_error + 'g credited_session" where
  "from_authenticated ratchet window tok =
     reject (s_send_ctr ratchet \<noteq> w_sent window) (SFlow FState) (
     rbind (flow (cov_highest (w_received window))) (\<lambda>highest.
     reject (s_recv_ctr ratchet \<noteq> highest) (SFlow FState)
       (Inr \<lparr>cs_ratchet = ratchet, cs_window = window, cs_revision = tok\<rparr>)))"

definition restore_at ::
  "('g, 'h) ratchet_ops \<Rightarrow> bytes \<Rightarrow> bytes \<Rightarrow> 32 arr \<Rightarrow> session_context \<Rightarrow> session_time \<Rightarrow> duration \<Rightarrow> revision \<Rightarrow> 'h
   \<Rightarrow> (session_error + 'g credited_session) \<times> 'h" where
  "restore_at R sealed private_flow wrapping_key ctx now offline tok h =
     (case open_state_with_attachment_at R sealed wrapping_key ctx now offline h of
        (Inl e, h) \<Rightarrow> (Inl (SCrypto e), h)
      | (Inr (ratchet, _), h) \<Rightarrow>
          (rbind (flow (decode_private (ro_crypto R) private_flow)) (\<lambda>window.
           from_authenticated ratchet window tok), h))"

definition provide_local_secrets :: "local_secrets \<Rightarrow> revision \<Rightarrow> 'g credited_session \<Rightarrow> 'g credited_session" where
  "provide_local_secrets secrets tok cs =
     cs\<lparr>cs_ratchet := provide_local_kem (ls_kem_dk secrets) (cs_ratchet cs), cs_revision := tok\<rparr>"

definition credited_provide_peer_kem ::
  "('g, 'h) ratchet_ops \<Rightarrow> bytes \<Rightarrow> revision \<Rightarrow> 'g credited_session \<Rightarrow> session_error + 'g credited_session" where
  "credited_provide_peer_kem R key tok cs =
     rbind (crypto (provide_peer_kem R key (cs_ratchet cs))) (\<lambda>ratchet.
     Inr (cs\<lparr>cs_ratchet := ratchet, cs_revision := tok\<rparr>))"

definition seal_ratchet_at ::
  "('g, 'h) ratchet_ops \<Rightarrow> 32 arr \<Rightarrow> session_context \<Rightarrow> session_time \<Rightarrow> 'h \<Rightarrow> 'g credited_session
   \<Rightarrow> (session_error + bytes) \<times> 'h" where
  "seal_ratchet_at R wrapping_key ctx now h cs =
     (case seal_state_with_attachment_at R wrapping_key ctx [] now h (cs_ratchet cs) of (r, h) \<Rightarrow> (crypto r, h))"

text \<open>\<open>window.tx.get_mut(&counter).volatile = volatile\<close>.\<close>

definition set_volatile :: "u64 \<Rightarrow> bool \<Rightarrow> window \<Rightarrow> window" where
  "set_volatile counter volatile w =
     w\<lparr>w_tx := map (\<lambda>(k, e). (k, if k = counter then e\<lparr>se_volatile := volatile\<rparr> else e)) (w_tx w)\<rparr>"

definition prepare_send_inner ::
  "('g, 'h) ratchet_ops \<Rightarrow> flow_record \<Rightarrow> u64 \<Rightarrow> 32 arr \<Rightarrow> session_context \<Rightarrow> bool \<Rightarrow> session_time \<Rightarrow> 'h
   \<Rightarrow> 'g credited_session \<Rightarrow> (session_error + 'g prepared_send) \<times> 'h" where
  "prepare_send_inner R record now_unix wrapping_key ctx volatile now h cs =
     (if recovery_required (cs_window cs) now_unix then (Inl SRecoveryRequired, h) else
      case next_counter (cs_window cs) (fr_purpose record) of
        Inl e \<Rightarrow> (Inl (SFlow e), h)
      | Inr counter \<Rightarrow>
          (case prepare_send_with_attachment_at R (fr_encode record) wrapping_key ctx [] now h (cs_ratchet cs) of
             (Inl e, h) \<Rightarrow> (Inl (SCrypto e), h)
           | (Inr prepared, h) \<Rightarrow>
               (rbind (flow (encode_frame_bytes (w_session (cs_window cs)) (pr_output prepared))) (\<lambda>packet.
                rbind (flow (record_sent (ro_crypto R) counter packet record now_unix (cs_window cs))) (\<lambda>window.
                Inr \<lparr>ps_revision = cs_revision cs, ps_ratchet = prepared,
                     ps_window = set_volatile counter volatile window\<rparr>)), h)))"

definition prepare_send_at ::
  "('g, 'h) ratchet_ops \<Rightarrow> flow_record \<Rightarrow> u64 \<Rightarrow> 32 arr \<Rightarrow> session_context \<Rightarrow> session_time \<Rightarrow> 'h
   \<Rightarrow> 'g credited_session \<Rightarrow> (session_error + 'g prepared_send) \<times> 'h" where
  "prepare_send_at R record now_unix wrapping_key ctx now h cs =
     prepare_send_inner R record now_unix wrapping_key ctx False now h cs"

definition prepare_volatile_send_at ::
  "('g, 'h) ratchet_ops \<Rightarrow> flow_record \<Rightarrow> u64 \<Rightarrow> 32 arr \<Rightarrow> session_context \<Rightarrow> session_time \<Rightarrow> 'h
   \<Rightarrow> 'g credited_session \<Rightarrow> (session_error + 'g prepared_send) \<times> 'h" where
  "prepare_volatile_send_at R record now_unix wrapping_key ctx now h cs =
     (if fr_purpose record = PControl then (Inl (SFlow FState), h)
      else prepare_send_inner R record now_unix wrapping_key ctx True now h cs)"

definition check_revision :: "revision \<Rightarrow> 'g credited_session \<Rightarrow> session_error + unit" where
  "check_revision tok cs = reject (cs_revision cs \<noteq> tok) SStaleTransaction (Inr ())"

definition commit_send :: "'g prepared_send \<Rightarrow> revision \<Rightarrow> 'g credited_session \<Rightarrow> session_error + 'g credited_session" where
  "commit_send p tok cs =
     rbind (check_revision (ps_revision p) cs) (\<lambda>_.
     rbind (crypto (session_commit_send (ps_ratchet p) (cs_ratchet cs))) (\<lambda>ratchet.
     Inr \<lparr>cs_ratchet = ratchet, cs_window = ps_window p, cs_revision = tok\<rparr>))"

text \<open>The branch of \<open>prepare_receive_at\<close> for a counter that is not covered yet.\<close>

definition prepare_fresh ::
  "('g, 'h) ratchet_ops \<Rightarrow> frame \<Rightarrow> bytes \<Rightarrow> 32 arr \<Rightarrow> session_context \<Rightarrow> session_time \<Rightarrow> 'h
   \<Rightarrow> 'g credited_session \<Rightarrow> (session_error + ('g prepared option \<times> flow_record option \<times> window)) \<times> 'h" where
  "prepare_fresh R f packet wrapping_key ctx now h cs =
     (case session_prepare_receive_at R f wrapping_key ctx now h (cs_ratchet cs) of
        (Inl e, h) \<Rightarrow> (Inl (SCrypto e), h)
      | (Inr prepared, h) \<Rightarrow>
          (rbind (flow (fr_decode (pr_output prepared))) (\<lambda>record.
           rbind (flow (record_authenticated (ro_crypto R) (f_ctr f) packet record (cs_window cs))) (\<lambda>window.
           Inr (Some prepared, Some record, window))), h))"

definition prepare_receive_at ::
  "('g, 'h) ratchet_ops \<Rightarrow> frame \<Rightarrow> 32 arr \<Rightarrow> session_context \<Rightarrow> session_time \<Rightarrow> revision \<Rightarrow> 'h
   \<Rightarrow> 'g credited_session \<Rightarrow> (session_error + 'g prepared_receive) \<times> 'h" where
  "prepare_receive_at R f wrapping_key ctx now tok h cs =
     (case rbind (validate_frame f) (\<lambda>_. gc2_encode_frame (w_session (cs_window cs)) f) of
        Inl e \<Rightarrow> (Inl (SFlow e), h)
      | Inr packet \<Rightarrow>
          (case (if cov_contains (w_received (cs_window cs)) (f_ctr f) then (Inr (None, None, cs_window cs), h)
                 else prepare_fresh R f packet wrapping_key ctx now h cs) of (r, h) \<Rightarrow>
             (rbind r (\<lambda>(ratchet, record, window).
              rbind (flow (credit_for_duplicate (ro_crypto R) (f_ctr f) packet window)) (\<lambda>(credit, window).
              Inr \<lparr>pv_revision = cs_revision cs, pv_next_revision = tok, pv_ratchet = ratchet,
                   pv_record = record, pv_window = window, pv_credit = credit\<rparr>)), h)))"

definition commit_receive :: "'g prepared_receive \<Rightarrow> 'g credited_session \<Rightarrow> session_error + 'g credited_session" where
  "commit_receive p cs =
     rbind (check_revision (pv_revision p) cs) (\<lambda>_.
     rbind (case pv_ratchet p of
              Some ratchet \<Rightarrow> crypto (session_commit_receive ratchet (cs_ratchet cs))
            | None \<Rightarrow> Inr (cs_ratchet cs)) (\<lambda>ratchet.
     Inr \<lparr>cs_ratchet = ratchet, cs_window = pv_window p, cs_revision = pv_next_revision p\<rparr>))"

definition stage_received_at ::
  "('g, 'h) ratchet_ops \<Rightarrow> 'g prepared_receive \<Rightarrow> 32 arr \<Rightarrow> session_context \<Rightarrow> session_time \<Rightarrow> 'h
   \<Rightarrow> 'g credited_session \<Rightarrow> (session_error + 'g credited_session) \<times> 'h" where
  "stage_received_at R p wrapping_key ctx now h cs =
     (case check_revision (pv_revision p) cs of
        Inl e \<Rightarrow> (Inl e, h)
      | Inr _ \<Rightarrow>
          (case (case pv_ratchet p of
                   Some ratchet \<Rightarrow> (Inr (pr_sealed ratchet), h)
                 | None \<Rightarrow> seal_ratchet_at R wrapping_key ctx now h cs) of
             (Inl e, h) \<Rightarrow> (Inl e, h)
           | (Inr sealed, h) \<Rightarrow>
               (case open_state_with_attachment_at R sealed wrapping_key ctx now 0 h of
                  (Inl e, h) \<Rightarrow> (Inl (SCrypto e), h)
                | (Inr (ratchet, _), h) \<Rightarrow>
                    (Inr \<lparr>cs_ratchet = ratchet, cs_window = pv_window p, cs_revision = pv_next_revision p\<rparr>, h))))"

definition prepare_first_move_retry ::
  "crypto_ops \<Rightarrow> packet \<Rightarrow> revision \<Rightarrow> 'g credited_session \<Rightarrow> session_error + 'g prepared_receive" where
  "prepare_first_move_retry C p tok cs =
     reject (pk_kind p \<noteq> KFirstMove \<or> pk_tag p \<noteq> w_session (cs_window cs)) (SFlow FAuthentication) (
     rbind (flow (credit_for_duplicate C 1 (pk_bytes p) (cs_window cs))) (\<lambda>(credit, window).
     Inr \<lparr>pv_revision = cs_revision cs, pv_next_revision = tok, pv_ratchet = None, pv_record = None,
          pv_window = window, pv_credit = credit\<rparr>))"

definition prepare_credit :: "crypto_ops \<Rightarrow> bytes \<Rightarrow> 'g credited_session \<Rightarrow> session_error + prepared_credit option" where
  "prepare_credit C bytes cs =
     rbind (flow (accept_credit C bytes (cs_window cs))) (\<lambda>(changed, window).
     if \<not> changed then Inr None
     else Inr (Some \<lparr>pc_revision = cs_revision cs, pc_window = window\<rparr>))"

definition commit_credit :: "prepared_credit \<Rightarrow> revision \<Rightarrow> 'g credited_session \<Rightarrow> session_error + 'g credited_session" where
  "commit_credit p tok cs =
     rbind (check_revision (pc_revision p) cs) (\<lambda>_. Inr (cs\<lparr>cs_window := pc_window p, cs_revision := tok\<rparr>))"

end
