(* ===== verification/Credited_Safety.thy ===== *)
theory Credited_Safety
  imports Credited_Session
begin

text \<open>
  The invariant of a credited session (the ratchet and the window agree on what was sent and
  received) and the transactions in any interleaving: preparing, committing, refusing what is stale.
\<close>

section \<open>Invariant\<close>

definition credited_ok :: "('g, 'h) ratchet_ops \<Rightarrow> 'g credited_session \<Rightarrow> bool" where
  "credited_ok R cs \<longleftrightarrow>
     session_inv R (cs_ratchet cs) \<and> window_inv (ro_crypto R) (cs_window cs)
     \<and> s_send_ctr (cs_ratchet cs) = w_sent (cs_window cs)
     \<and> unat (s_recv_ctr (cs_ratchet cs)) = cov_hi (w_received (cs_window cs))
     \<and> (\<forall>k \<in> set (s_skipped (cs_ratchet cs)). unat (sk_ctr k) \<notin> cov_set (w_received (cs_window cs)))"

lemma credited_ok_revision [simp]: "credited_ok R (cs\<lparr>cs_revision := tok\<rparr>) = credited_ok R cs"
  by (simp add: credited_ok_def)

lemma credited_ok_ratchet_inv:
  assumes "credited_ok R cs"
  obtains acc where "ratchet_inv R (cs_ratchet cs, acc)" "unat ` set acc = cov_set (w_received (cs_window cs))"
proof -
  let ?A = "{c :: u64. unat c \<in> cov_set (w_received (cs_window cs))}"
  obtain acc where acc: "set acc = ?A" "distinct acc"
    using finite_distinct_list [of ?A] by auto
  have hi: "cov_hi (w_received (cs_window cs)) < 2 ^ 64"
    using assms unsigned_less [of "s_recv_ctr (cs_ratchet cs)", where 'a = nat] by (simp add: credited_ok_def)
  have "n \<in> unat ` ?A" if n: "n \<in> cov_set (w_received (cs_window cs))" for n
  proof -
    have "unat (of_nat n :: u64) = n" using cov_set_le_hi [OF n] hi by (intro unat_of_nat_u64) simp
    with n show ?thesis by (intro image_eqI [where x = "of_nat n"]) simp_all
  qed
  then have "unat ` set acc = cov_set (w_received (cs_window cs))" using acc(1) by auto
  moreover have "ratchet_inv R (cs_ratchet cs, acc)"
    using assms acc cov_set_le_hi by (fastforce simp: ratchet_inv_def credited_ok_def word_le_nat_alt)
  ultimately show thesis using that by blast
qed

lemma ratchet_inv_credited:
  assumes "ratchet_inv R (s, acc)" and "unat ` set acc = cov_set (w_received w)" and "window_inv (ro_crypto R) w"
    and "s_send_ctr s = w_sent w" and "unat (s_recv_ctr s) = cov_hi (w_received w)"
  shows "credited_ok R \<lparr>cs_ratchet = s, cs_window = w, cs_revision = tok\<rparr>"
proof -
  have "unat (sk_ctr k) \<notin> cov_set (w_received w)" if "k \<in> set (s_skipped s)" for k
    using assms(1) that unfolding assms(2) [symmetric] by (auto simp: ratchet_inv_def simp flip: word_unat_eq_iff)
  with assms show ?thesis by (simp add: credited_ok_def ratchet_inv_def)
qed

lemma from_authenticated_Inr:
  assumes "from_authenticated s w tok = Inr cs"
  shows "cs = \<lparr>cs_ratchet = s, cs_window = w, cs_revision = tok\<rparr>" "s_send_ctr s = w_sent w"
    "cov_highest (w_received w) = Inr (s_recv_ctr s)"
  using assms by (auto simp: from_authenticated_def)

lemma cov_hi_insert:
  assumes "cov_set c' = insert n (cov_set c)" and "1 \<le> n"
  shows "cov_hi c' = max n (cov_hi c)"
proof (rule antisym)
  show "cov_hi c' \<le> max n (cov_hi c)"
    by (rule cov_hi_leI) (use assms cov_set_le_hi [of _ c] in fastforce)
  have "n \<le> cov_hi c'" using assms cov_set_le_hi [of n c'] by simp
  moreover have "cov_hi c \<le> cov_hi c'"
    by (rule cov_hi_leI) (use assms cov_set_le_hi [of _ c'] in auto)
  ultimately show "max n (cov_hi c) \<le> cov_hi c'" by simp
qed

section \<open>Sending\<close>

definition can_prepare_send ::
  "('g, 'h) ratchet_ops \<Rightarrow> flow_record \<Rightarrow> u64 \<Rightarrow> 32 arr \<Rightarrow> session_context \<Rightarrow> bool \<Rightarrow> session_time \<Rightarrow> 'h
   \<Rightarrow> 'g credited_session \<Rightarrow> 'g prepared_send \<Rightarrow> bool" where
  "can_prepare_send R r u key ctx volatile now h cs p \<longleftrightarrow>
     (\<exists>h'. (if volatile then prepare_volatile_send_at R r u key ctx now h cs
            else prepare_send_at R r u key ctx now h cs) = (Inr p, h'))"

lemma prepare_sendE:
  assumes "can_prepare_send R r u key ctx volatile now h cs p"
  obtains rng s' f packet w sealed wire where
    "send_at R (fr_encode r) now ((cs_ratchet cs)\<lparr>s_rng := rng\<rparr>) = (s', Inr f)" "frame_encode f = Inr wire"
    "encode_frame_bytes (w_session (cs_window cs)) wire = Inr packet"
    "record_sent (ro_crypto R) (w_sent (cs_window cs) + 1) packet r u (cs_window cs) = Inr w"
    "\<not> recovery_required (cs_window cs) u" "volatile \<longrightarrow> fr_purpose r \<noteq> PControl"
    "p = \<lparr>ps_revision = cs_revision cs,
          ps_ratchet = \<lparr>pr_base_send_ctr = s_send_ctr (cs_ratchet cs), pr_base_recv_ctr = s_recv_ctr (cs_ratchet cs),
             pr_output = wire, pr_sealed = sealed, pr_next = Some s'\<rparr>,
          ps_window = set_volatile (w_sent (cs_window cs) + 1) volatile w\<rparr>"
proof -
  from assms obtain h' where p: "prepare_send_inner R r u key ctx volatile now h cs = (Inr p, h')"
    and v: "volatile \<longrightarrow> fr_purpose r \<noteq> PControl"
    by (auto simp: can_prepare_send_def prepare_volatile_send_at_def prepare_send_at_def split: if_splits)
  then obtain n q h1 packet w where rr: "\<not> recovery_required (cs_window cs) u"
    and n: "next_counter (cs_window cs) (fr_purpose r) = Inr n"
    and q: "prepare_send_with_attachment_at R (fr_encode r) key ctx [] now h (cs_ratchet cs) = (Inr q, h1)"
    and e: "encode_frame_bytes (w_session (cs_window cs)) (pr_output q) = Inr packet"
    and w: "record_sent (ro_crypto R) n packet r u (cs_window cs) = Inr w"
    and p: "p = \<lparr>ps_revision = cs_revision cs, ps_ratchet = q, ps_window = set_volatile n volatile w\<rparr>"
    by (auto simp: prepare_send_inner_def split: if_splits sum.splits prod.splits)
  have n1: "n = w_sent (cs_window cs) + 1" using n by (auto simp: next_counter_def checked_add_Some)
  show thesis
    by (rule prepare_send_InrE [OF q], rule that [OF _ _ e [unfolded] w [unfolded n1] rr v])
       (simp_all add: p n1)
qed

lemma tx_ok_update:
  "tx_ok C (w\<lparr>w_tx := tx\<rparr>) \<longleftrightarrow>
     map (unat \<circ> fst) tx = [unat (cov_floor (w_credited w)) + 1..<unat (w_sent w) + 1]
     \<and> distinct (map (au_reference \<circ> se_authority \<circ> snd) tx) \<and> (\<forall>(k, e) \<in> set tx. sent_ok C (w_session w) e)"
  by (simp add: tx_ok_def)

lemma set_volatile_inv:
  assumes inv: "window_inv C w" and r: "record_sent C k packet r u w = Inr w'" and v: "volatile \<longrightarrow> fr_purpose r \<noteq> PControl"
  shows "window_inv C (set_volatile k volatile w')"
proof -
  note c = record_sent_cases [OF inv r]
  have i: "window_inv C w'" by (rule record_sent_inv [OF inv r])
  let ?tx = "map (\<lambda>(j, e). (j, if j = k then e\<lparr>se_volatile := volatile\<rparr> else e)) (w_tx w')"
  have keys: "map (unat \<circ> fst) ?tx = map (unat \<circ> fst) (w_tx w')"
    "map (au_reference \<circ> se_authority \<circ> snd) ?tx = map (au_reference \<circ> se_authority \<circ> snd) (w_tx w')"
    by (auto simp: o_def)
  have "sent_ok C (w_session w') e" if "(j, e) \<in> set ?tx" for j e
  proof -
    from that obtain e0 where e0: "(j, e0) \<in> set (w_tx w')" "e = (if j = k then e0\<lparr>se_volatile := volatile\<rparr> else e0)" by auto
    have ok: "sent_ok C (w_session w') e0" using i e0(1) by (auto simp: window_inv_def tx_ok_def)
    show ?thesis
    proof (cases "j = k")
      case True
      have "unat j \<notin> unat ` fst ` set (w_tx w)"
        using c(2) True tx_keys [of C w] inv by (simp add: window_inv_def)
      then have "(j, e0) \<notin> set (w_tx w)" by force
      then have "e0 = sent_entry_new C w packet r u" using e0(1) True unfolding c(1) by auto
      then have "se_purpose e0 = fr_purpose r" "\<not> se_volatile e0" by (simp_all add: sent_entry_new_def)
      with ok v e0(2) True show ?thesis by (auto simp: sent_ok_def)
    qed (use ok e0(2) in simp)
  qed
  then have "\<forall>(j, e) \<in> set ?tx. sent_ok C (w_session w') e" by blast
  moreover have tx: "tx_ok C w'" using i by (simp add: window_inv_def)
  ultimately have "tx_ok C (w'\<lparr>w_tx := ?tx\<rparr>)" using tx [unfolded tx_ok_def] unfolding tx_ok_update keys by blast
  with i show ?thesis by (simp add: window_inv_def rx_ok_def set_volatile_def)
qed

lemma set_volatile_sel [simp]:
  "w_sent (set_volatile k v w) = w_sent w" "w_received (set_volatile k v w) = w_received w"
  "w_credited (set_volatile k v w) = w_credited w" "w_session (set_volatile k v w) = w_session w"
  "w_rx (set_volatile k v w) = w_rx w" "w_generation (set_volatile k v w) = w_generation w"
  by (simp_all add: set_volatile_def)

lemma send_at_send_ctr: "send_at R payload now s = (s', Inr f) \<Longrightarrow> s_send_ctr s' = s_send_ctr s + 1"
  by (auto simp: send_at_def Let_def begin_epoch_def split: prod.splits sum.splits option.splits if_splits)

lemma commit_sent:
  assumes ok: "credited_ok R cs" and p: "can_prepare_send R r u key ctx volatile now h cs p"
  shows "\<exists>cs'. commit_send p tok cs = Inr cs' \<and> credited_ok R cs' \<and> cs_revision cs' = tok
    \<and> w_received (cs_window cs') = w_received (cs_window cs) \<and> w_sent (cs_window cs') = w_sent (cs_window cs) + 1"
proof (rule prepare_sendE [OF p])
  fix rng s' f packet w sealed wire
  let ?k = "w_sent (cs_window cs) + 1"
  assume tx: "send_at R (fr_encode r) now ((cs_ratchet cs)\<lparr>s_rng := rng\<rparr>) = (s', Inr f)"
    and w: "record_sent (ro_crypto R) ?k packet r u (cs_window cs) = Inr w" and v: "volatile \<longrightarrow> fr_purpose r \<noteq> PControl"
    and p: "p = \<lparr>ps_revision = cs_revision cs,
          ps_ratchet = \<lparr>pr_base_send_ctr = s_send_ctr (cs_ratchet cs), pr_base_recv_ctr = s_recv_ctr (cs_ratchet cs),
             pr_output = wire, pr_sealed = sealed, pr_next = Some s'\<rparr>,
          ps_window = set_volatile ?k volatile w\<rparr>"
  have i: "window_inv (ro_crypto R) (cs_window cs)" "session_inv R ((cs_ratchet cs)\<lparr>s_rng := rng\<rparr>)"
    using ok by (simp_all add: credited_ok_def)
  have "session_inv R s'" by (rule send_at_inv [OF i(2) tx])
  moreover have "same_recv (cs_ratchet cs) s'" using send_at_recv(1) [OF tx] by (simp add: same_recv_def)
  moreover have "s_send_ctr s' = ?k" using send_at_send_ctr [OF tx] ok by (simp add: credited_ok_def)
  moreover note set_volatile_inv [OF i(1) w v] record_sent_cases(1) [OF i(1) w]
  ultimately show ?thesis
    using ok by (auto simp: p commit_send_def check_revision_def session_commit_send_def reject_def credited_ok_def same_recv_def)
qed

section \<open>Receiving\<close>

lemma receive_at_recv_ctr:
  "receive_at R f now s = (s', Inr p) \<Longrightarrow> s_recv_ctr s' = max (s_recv_ctr s) (f_ctr f) \<and> s_send_ctr s' = s_send_ctr s"
  by (erule receive_at_cases) (auto simp: max_def)

text \<open>A prepared receive: a fresh frame, or a duplicate that only renews the credit.\<close>

definition can_prepare_receive ::
  "('g, 'h) ratchet_ops \<Rightarrow> frame \<Rightarrow> 32 arr \<Rightarrow> session_context \<Rightarrow> session_time \<Rightarrow> revision \<Rightarrow> 'h
   \<Rightarrow> 'g credited_session \<Rightarrow> 'g prepared_receive \<Rightarrow> bool" where
  "can_prepare_receive R f key ctx now tok h cs p \<longleftrightarrow> (\<exists>h'. prepare_receive_at R f key ctx now tok h cs = (Inr p, h'))"

lemma prepare_receiveE:
  assumes "can_prepare_receive R f key ctx now tok h cs p"
  obtains (duplicate) packet where "gc2_encode_frame (w_session (cs_window cs)) f = Inr packet"
      "cov_contains (w_received (cs_window cs)) (f_ctr f)" "pv_ratchet p = None" "pv_record p = None"
      "credit_for_duplicate (ro_crypto R) (f_ctr f) packet (cs_window cs) = Inr (pv_credit p, pv_window p)"
      "pv_revision p = cs_revision cs" "pv_next_revision p = tok"
  | (fresh) packet rng s' plain sealed r w where "gc2_encode_frame (w_session (cs_window cs)) f = Inr packet"
      "\<not> cov_contains (w_received (cs_window cs)) (f_ctr f)"
      "receive_at R f now ((cs_ratchet cs)\<lparr>s_rng := rng\<rparr>) = (s', Inr plain)" "fr_decode plain = Inr r"
      "record_authenticated (ro_crypto R) (f_ctr f) packet r (cs_window cs) = Inr w"
      "credit_for_duplicate (ro_crypto R) (f_ctr f) packet w = Inr (pv_credit p, pv_window p)"
      "pv_record p = Some r"
      "pv_ratchet p = Some \<lparr>pr_base_send_ctr = s_send_ctr (cs_ratchet cs), pr_base_recv_ctr = s_recv_ctr (cs_ratchet cs),
             pr_output = plain, pr_sealed = sealed, pr_next = Some s'\<rparr>"
      "pv_revision p = cs_revision cs" "pv_next_revision p = tok"
proof -
  from assms obtain packet where pk: "gc2_encode_frame (w_session (cs_window cs)) f = Inr packet"
    and p: "\<exists>h' x. (case (if cov_contains (w_received (cs_window cs)) (f_ctr f) then (Inr (None, None, cs_window cs), h)
                 else prepare_fresh R f packet key ctx now h cs) of (r, h) \<Rightarrow>
             (rbind r (\<lambda>(ratchet, record, window).
              rbind (flow (credit_for_duplicate (ro_crypto R) (f_ctr f) packet window)) (\<lambda>(credit, window).
              Inr \<lparr>pv_revision = cs_revision cs, pv_next_revision = tok, pv_ratchet = ratchet,
                   pv_record = record, pv_window = window, pv_credit = credit\<rparr>)), h)) = (Inr p, h')"
    by (auto simp: can_prepare_receive_def prepare_receive_at_def gc2_encode_frame_iff split: sum.splits)
  show thesis
  proof (cases "cov_contains (w_received (cs_window cs)) (f_ctr f)")
    case True
    with p show thesis by (intro duplicate [OF pk]) (auto split: prod.splits)
  next
    case False
    with p obtain q h1 r w c w2 where q: "session_prepare_receive_at R f key ctx now h (cs_ratchet cs) = (Inr q, h1)"
      and r: "fr_decode (pr_output q) = Inr r"
      and w: "record_authenticated (ro_crypto R) (f_ctr f) packet r (cs_window cs) = Inr w"
      and c: "credit_for_duplicate (ro_crypto R) (f_ctr f) packet w = Inr (c, w2)"
      and pv: "p = \<lparr>pv_revision = cs_revision cs, pv_next_revision = tok, pv_ratchet = Some q,
                   pv_record = Some r, pv_window = w2, pv_credit = c\<rparr>"
      by (auto simp: prepare_fresh_def split: prod.splits sum.splits)
    obtain rng s' sealed where "receive_at R f now ((cs_ratchet cs)\<lparr>s_rng := rng\<rparr>) = (s', Inr (pr_output q))"
      and "q = \<lparr>pr_base_send_ctr = s_send_ctr (cs_ratchet cs), pr_base_recv_ctr = s_recv_ctr (cs_ratchet cs), pr_output = pr_output q,
          pr_sealed = sealed, pr_next = Some s'\<rparr>"
      by (rule prepare_receive_InrE [OF q])
    with fresh [OF pk False _ r w] c pv show thesis by simp
  qed
qed

lemma credit_same:
  assumes "crypto_ok C" and "window_inv C w" and "credit_for_duplicate C k packet w = Inr (b, w')"
  shows "w_received w' = w_received w" "w_sent w' = w_sent w" "w_credited w' = w_credited w" "w_tx w' = w_tx w"
    "w_session w' = w_session w"
  by (rule credit_for_duplicate_cases [OF assms]; auto)+

lemma fresh_credited:
  assumes C: "crypto_ok (ro_crypto R)" and ok: "credited_ok R cs"
    and nc: "\<not> cov_contains (w_received (cs_window cs)) (f_ctr f)"
    and rx: "receive_at R f now ((cs_ratchet cs)\<lparr>s_rng := rng\<rparr>) = (s', Inr plain)"
    and w: "record_authenticated (ro_crypto R) (f_ctr f) packet r (cs_window cs) = Inr w"
    and c: "credit_for_duplicate (ro_crypto R) (f_ctr f) packet w = Inr (b, w')"
  shows "credited_ok R \<lparr>cs_ratchet = s', cs_window = w', cs_revision = tok\<rparr>"
    and "cov_set (w_received w') = insert (unat (f_ctr f)) (cov_set (w_received (cs_window cs)))"
    and "unat (f_ctr f) \<notin> cov_set (w_received (cs_window cs))"
proof -
  have wi: "window_inv (ro_crypto R) (cs_window cs)" using ok by (simp add: credited_ok_def)
  have w1: "window_inv (ro_crypto R) w" by (rule record_authenticated_inv [OF wi w])
  note same = credit_same [OF C w1 c]
  obtain cov where cov: "unat (f_ctr f) \<notin> cov_set (w_received (cs_window cs))"
    "cov_set cov = insert (unat (f_ctr f)) (cov_set (w_received (cs_window cs)))"
    "w_received w = cov" "w_sent w = w_sent (cs_window cs)"
    by (rule record_authenticated_cases [OF wi w]) simp
  show new: "cov_set (w_received w') = insert (unat (f_ctr f)) (cov_set (w_received (cs_window cs)))"
    using cov same by simp
  show "unat (f_ctr f) \<notin> cov_set (w_received (cs_window cs))" by (rule cov(1))
  obtain acc where acc: "ratchet_inv R (cs_ratchet cs, acc)" "unat ` set acc = cov_set (w_received (cs_window cs))"
    by (rule credited_ok_ratchet_inv [OF ok])
  have "ratchet_inv R ((cs_ratchet cs)\<lparr>s_rng := rng\<rparr>, acc)" using acc(1) by (simp add: ratchet_inv_def)
  from receive_at_accepted [OF this rx] have i: "ratchet_inv R (s', acc @ [f_ctr f])" .
  have pos: "1 \<le> unat (f_ctr f)" using cov(2) cov_set_le_hi [of "unat (f_ctr f)" cov] by simp
  show "credited_ok R \<lparr>cs_ratchet = s', cs_window = w', cs_revision = tok\<rparr>"
  proof (rule ratchet_inv_credited [OF i])
    show "unat ` set (acc @ [f_ctr f]) = cov_set (w_received w')" using acc(2) new by auto
    show "window_inv (ro_crypto R) w'" by (rule credit_for_duplicate_inv [OF C w1 c])
    show "s_send_ctr s' = w_sent w'" using receive_at_recv_ctr [OF rx] ok same cov by (simp add: credited_ok_def)
    show "unat (s_recv_ctr s') = cov_hi (w_received w')"
      using receive_at_recv_ctr [OF rx] ok cov_hi_insert [OF new pos]
      by (simp add: credited_ok_def max_def word_le_nat_alt)
  qed
qed

lemma commit_received:
  assumes C: "crypto_ok (ro_crypto R)" and ok: "credited_ok R cs" and p: "can_prepare_receive R f key ctx now tok h cs p"
  shows "\<exists>cs'. commit_receive p cs = Inr cs' \<and> credited_ok R cs' \<and> cs_revision cs' = tok
    \<and> (if pv_record p = None then cov_set (w_received (cs_window cs')) = cov_set (w_received (cs_window cs))
       else unat (f_ctr f) \<notin> cov_set (w_received (cs_window cs))
         \<and> cov_set (w_received (cs_window cs')) = insert (unat (f_ctr f)) (cov_set (w_received (cs_window cs))))"
  using p
proof (cases rule: prepare_receiveE)
  case (duplicate packet)
  have wi: "window_inv (ro_crypto R) (cs_window cs)" using ok by (simp add: credited_ok_def)
  note same = credit_same [OF C wi duplicate(5)]
  have "window_inv (ro_crypto R) (pv_window p)" by (rule credit_for_duplicate_inv [OF C wi duplicate(5)])
  with same ok duplicate show ?thesis
    by (simp add: commit_receive_def check_revision_def reject_def credited_ok_def)
next
  case (fresh packet rng s' plain sealed r w)
  note F = fresh_credited [OF C ok fresh(2,3,5,6)]
  have "commit_receive p cs = Inr \<lparr>cs_ratchet = s', cs_window = pv_window p, cs_revision = tok\<rparr>"
    using fresh(7-) by (simp add: commit_receive_def check_revision_def session_commit_receive_def reject_def)
  with F fresh(7) show ?thesis by auto
qed

lemma commit_retried:
  assumes C: "crypto_ok (ro_crypto R)" and ok: "credited_ok R cs" and p: "prepare_first_move_retry (ro_crypto R) q tok cs = Inr p"
  shows "\<exists>cs'. commit_receive p cs = Inr cs' \<and> credited_ok R cs' \<and> cs_revision cs' = tok
    \<and> pv_record p = None \<and> w_received (cs_window cs') = w_received (cs_window cs)"
proof -
  from p obtain c w where c: "credit_for_duplicate (ro_crypto R) 1 (pk_bytes q) (cs_window cs) = Inr (c, w)"
    and pv: "p = \<lparr>pv_revision = cs_revision cs, pv_next_revision = tok, pv_ratchet = None, pv_record = None,
          pv_window = w, pv_credit = c\<rparr>"
    by (auto simp: prepare_first_move_retry_def)
  have wi: "window_inv (ro_crypto R) (cs_window cs)" using ok by (simp add: credited_ok_def)
  have "window_inv (ro_crypto R) w" by (rule credit_for_duplicate_inv [OF C wi c])
  with credit_same [OF C wi c] ok show ?thesis
    by (simp add: pv commit_receive_def check_revision_def reject_def credited_ok_def)
qed

lemma accept_credit_same:
  assumes "window_inv C w" and "accept_credit C bytes w = Inr (changed, w')"
  shows "w_received w' = w_received w" "w_sent w' = w_sent w" "w_rx w' = w_rx w" "w_session w' = w_session w"
  by (rule accept_credit_cases [OF assms]; auto)+

lemma commit_credited:
  assumes ok: "credited_ok R cs" and p: "prepare_credit (ro_crypto R) bytes cs = Inr (Some p)"
  shows "\<exists>cs'. commit_credit p tok cs = Inr cs' \<and> credited_ok R cs' \<and> cs_revision cs' = tok
    \<and> w_received (cs_window cs') = w_received (cs_window cs)"
proof -
  from p obtain w where c: "accept_credit (ro_crypto R) bytes (cs_window cs) = Inr (True, w)"
    and pc: "p = \<lparr>pc_revision = cs_revision cs, pc_window = w\<rparr>"
    by (auto simp: prepare_credit_def split: if_splits)
  have wi: "window_inv (ro_crypto R) (cs_window cs)" using ok by (simp add: credited_ok_def)
  from accept_credit_same [OF wi c] accept_credit_inv [OF wi c] ok show ?thesis
    by (simp add: pc commit_credit_def check_revision_def reject_def credited_ok_def)
qed

lemma provide_credited:
  assumes ok: "credited_ok R cs"
  shows "credited_ok R (provide_local_secrets secrets tok cs)"
    and "credited_provide_peer_kem R key tok cs = Inr cs' \<Longrightarrow> credited_ok R cs' \<and> cs_revision cs' = tok \<and> cs_window cs' = cs_window cs"
  using ok
  by (auto simp: credited_ok_def provide_local_secrets_def provide_local_kem_def session_inv_def credited_provide_peer_kem_def
      provide_peer_kem_def ek_from_bytes_def split: if_splits)

section \<open>Interleaved transactions\<close>

text \<open>
  A caller that keeps any number of prepared transactions. \<open>cm_next\<close> is the next revision an
  allocation yields; \<open>cm_delivered\<close> records the counters whose record a commit handed to the
  application. Every operation may fail; a failed one changes nothing (a commit consumes the
  prepared transaction in either case).
\<close>

record 'g credited_machine =
  cm_session :: "'g credited_session"
  cm_next :: revision
  cm_sends :: "'g prepared_send list"
  cm_receives :: "(u64 \<times> 'g prepared_receive) list"
  cm_credits :: "prepared_credit list"
  cm_delivered :: "u64 list"

datatype 'h credited_op =
    OpPrepareSend flow_record u64 "32 arr" session_context bool session_time 'h
  | OpCommitSend nat
  | OpPrepareReceive frame "32 arr" session_context session_time 'h
  | OpRetry packet
  | OpCommitReceive nat
  | OpPrepareCredit bytes
  | OpCommitCredit nat
  | OpPeerKem bytes
  | OpLocalSecrets local_secrets

fun credited_step ::
  "('g, 'h) ratchet_ops \<Rightarrow> 'h credited_op \<Rightarrow> 'g credited_machine \<Rightarrow> 'g credited_machine option" where
  "credited_step R (OpPrepareSend r u key ctx volatile now h) m =
     (case fst (if volatile then prepare_volatile_send_at R r u key ctx now h (cm_session m)
                else prepare_send_at R r u key ctx now h (cm_session m)) of
        Inl _ \<Rightarrow> Some m
      | Inr p \<Rightarrow> Some (m\<lparr>cm_sends := cm_sends m @ [p]\<rparr>))"
| "credited_step R (OpCommitSend i) m =
     (if length (cm_sends m) \<le> i then Some m else
      let m' = m\<lparr>cm_sends := remove_nth i (cm_sends m), cm_next := cm_next m + 1\<rparr> in
      case commit_send (cm_sends m ! i) (cm_next m) (cm_session m) of
        Inl _ \<Rightarrow> Some m'
      | Inr cs \<Rightarrow> Some (m'\<lparr>cm_session := cs\<rparr>))"
| "credited_step R (OpPrepareReceive f key ctx now h) m =
     (case fst (prepare_receive_at R f key ctx now (cm_next m) h (cm_session m)) of
        Inl _ \<Rightarrow> Some (m\<lparr>cm_next := cm_next m + 1\<rparr>)
      | Inr p \<Rightarrow> Some (m\<lparr>cm_next := cm_next m + 1, cm_receives := cm_receives m @ [(f_ctr f, p)]\<rparr>))"
| "credited_step R (OpRetry q) m =
     (case prepare_first_move_retry (ro_crypto R) q (cm_next m) (cm_session m) of
        Inl _ \<Rightarrow> Some (m\<lparr>cm_next := cm_next m + 1\<rparr>)
      | Inr p \<Rightarrow> Some (m\<lparr>cm_next := cm_next m + 1, cm_receives := cm_receives m @ [(1, p)]\<rparr>))"
| "credited_step R (OpCommitReceive i) m =
     (if length (cm_receives m) \<le> i then Some m else
      let (c, p) = cm_receives m ! i; m' = m\<lparr>cm_receives := remove_nth i (cm_receives m)\<rparr> in
      case commit_receive p (cm_session m) of
        Inl _ \<Rightarrow> Some m'
      | Inr cs \<Rightarrow> Some (m'\<lparr>cm_session := cs,
          cm_delivered := cm_delivered m @ (if pv_record p = None then [] else [c])\<rparr>))"
| "credited_step R (OpPrepareCredit bytes) m =
     (case prepare_credit (ro_crypto R) bytes (cm_session m) of
        Inr (Some p) \<Rightarrow> Some (m\<lparr>cm_credits := cm_credits m @ [p]\<rparr>)
      | _ \<Rightarrow> Some m)"
| "credited_step R (OpCommitCredit i) m =
     (if length (cm_credits m) \<le> i then Some m else
      let m' = m\<lparr>cm_credits := remove_nth i (cm_credits m), cm_next := cm_next m + 1\<rparr> in
      case commit_credit (cm_credits m ! i) (cm_next m) (cm_session m) of
        Inl _ \<Rightarrow> Some m'
      | Inr cs \<Rightarrow> Some (m'\<lparr>cm_session := cs\<rparr>))"
| "credited_step R (OpPeerKem key) m =
     (case credited_provide_peer_kem R key (cm_next m) (cm_session m) of
        Inl _ \<Rightarrow> Some m
      | Inr cs \<Rightarrow> Some (m\<lparr>cm_session := cs, cm_next := cm_next m + 1\<rparr>))"
| "credited_step R (OpLocalSecrets secrets) m =
     Some (m\<lparr>cm_session := provide_local_secrets secrets (cm_next m) (cm_session m), cm_next := cm_next m + 1\<rparr>)"

text \<open>What a pending transaction with the current revision was prepared on.\<close>

definition sent_from :: "('g, 'h) ratchet_ops \<Rightarrow> 'g credited_session \<Rightarrow> 'g prepared_send \<Rightarrow> bool" where
  "sent_from R cs p \<longleftrightarrow> (\<exists>r u key ctx volatile now h. can_prepare_send R r u key ctx volatile now h cs p)"

definition received_from :: "('g, 'h) ratchet_ops \<Rightarrow> 'g credited_session \<Rightarrow> u64 \<Rightarrow> 'g prepared_receive \<Rightarrow> bool" where
  "received_from R cs c p \<longleftrightarrow>
     (\<exists>f key ctx now tok h. c = f_ctr f \<and> can_prepare_receive R f key ctx now tok h cs p)
     \<or> (\<exists>q tok. prepare_first_move_retry (ro_crypto R) q tok cs = Inr p)"

definition credited_from :: "('g, 'h) ratchet_ops \<Rightarrow> 'g credited_session \<Rightarrow> prepared_credit \<Rightarrow> bool" where
  "credited_from R cs p \<longleftrightarrow> (\<exists>bytes. prepare_credit (ro_crypto R) bytes cs = Inr (Some p))"

definition pending_revisions :: "'g credited_machine \<Rightarrow> revision set" where
  "pending_revisions m =
     ps_revision ` set (cm_sends m) \<union> (pv_revision \<circ> snd) ` set (cm_receives m) \<union> pc_revision ` set (cm_credits m)"

definition pending_ok :: "('g, 'h) ratchet_ops \<Rightarrow> 'g credited_machine \<Rightarrow> bool" where
  "pending_ok R m \<longleftrightarrow>
     (\<forall>p \<in> set (cm_sends m). ps_revision p = cs_revision (cm_session m) \<longrightarrow> sent_from R (cm_session m) p)
     \<and> (\<forall>(c, p) \<in> set (cm_receives m). pv_revision p = cs_revision (cm_session m) \<longrightarrow> received_from R (cm_session m) c p)
     \<and> (\<forall>p \<in> set (cm_credits m). pc_revision p = cs_revision (cm_session m) \<longrightarrow> credited_from R (cm_session m) p)"

definition revisions_ok :: "'g credited_machine \<Rightarrow> bool" where
  "revisions_ok m \<longleftrightarrow>
     distinct (map (pv_next_revision \<circ> snd) (cm_receives m))
     \<and> (insert (cs_revision (cm_session m)) (pending_revisions m)) \<inter> (pv_next_revision \<circ> snd) ` set (cm_receives m) = {}
     \<and> (\<forall>x \<in> insert (cs_revision (cm_session m)) (pending_revisions m) \<union> (pv_next_revision \<circ> snd) ` set (cm_receives m).
          x < cm_next m)"

definition machine_inv :: "('g, 'h) ratchet_ops \<Rightarrow> 'g credited_machine \<Rightarrow> bool" where
  "machine_inv R m \<longleftrightarrow>
     credited_ok R (cm_session m) \<and> pending_ok R m \<and> revisions_ok m
     \<and> distinct (cm_delivered m) \<and> unat ` set (cm_delivered m) \<subseteq> cov_set (w_received (cs_window (cm_session m)))"

subsection \<open>Steps preserve the invariant\<close>

definition fewer :: "'g credited_machine \<Rightarrow> 'g credited_machine \<Rightarrow> bool" where
  "fewer m m' \<longleftrightarrow>
     set (cm_sends m') \<subseteq> set (cm_sends m) \<and> set (cm_receives m') \<subseteq> set (cm_receives m)
     \<and> set (cm_credits m') \<subseteq> set (cm_credits m) \<and> distinct (map (pv_next_revision \<circ> snd) (cm_receives m'))
     \<and> cm_next m \<le> cm_next m'"

lemma fewer_pending:
  assumes "fewer m m'"
  shows "pending_revisions m' \<subseteq> pending_revisions m"
    and "(pv_next_revision \<circ> snd) ` set (cm_receives m') \<subseteq> (pv_next_revision \<circ> snd) ` set (cm_receives m)"
  using assms unfolding fewer_def pending_revisions_def by (intro Un_mono image_mono; simp)+

lemma fewer_revisions:
  assumes "revisions_ok m" and f: "fewer m m'"
    and r: "cs_revision (cm_session m') \<notin> (pv_next_revision \<circ> snd) ` set (cm_receives m')" "cs_revision (cm_session m') < cm_next m'"
  shows "revisions_ok m'"
proof -
  have lt: "x < cm_next m'" if "x \<in> pending_revisions m' \<union> (pv_next_revision \<circ> snd) ` set (cm_receives m')" for x
  proof -
    have "x \<in> pending_revisions m \<union> (pv_next_revision \<circ> snd) ` set (cm_receives m)" using that fewer_pending [OF f] by blast
    then have "x < cm_next m" using assms(1) unfolding revisions_ok_def by blast
    then show ?thesis using f by (simp add: fewer_def)
  qed
  have "pending_revisions m \<inter> (pv_next_revision \<circ> snd) ` set (cm_receives m) = {}" using assms(1) unfolding revisions_ok_def by blast
  then have "pending_revisions m' \<inter> (pv_next_revision \<circ> snd) ` set (cm_receives m') = {}" using fewer_pending [OF f] by blast
  moreover have "distinct (map (pv_next_revision \<circ> snd) (cm_receives m'))" using f by (simp add: fewer_def)
  ultimately show ?thesis using lt r unfolding revisions_ok_def by blast
qed

lemma fewer_same:
  assumes inv: "machine_inv R m" and f: "fewer m m'" and s: "cm_session m' = cm_session m" "cm_delivered m' = cm_delivered m"
  shows "machine_inv R m'"
proof -
  have rv: "revisions_ok m" "pending_ok R m" using inv by (simp_all add: machine_inv_def)
  have "pending_ok R m'" using rv(2) f s(1) unfolding pending_ok_def fewer_def by auto
  moreover have "revisions_ok m'"
  proof (rule fewer_revisions [OF rv(1) f])
    show "cs_revision (cm_session m') \<notin> (pv_next_revision \<circ> snd) ` set (cm_receives m')"
      using rv(1) fewer_pending(2) [OF f] s(1) unfolding revisions_ok_def by auto
    show "cs_revision (cm_session m') < cm_next m'" using rv(1) f s(1) unfolding revisions_ok_def fewer_def by auto
  qed
  ultimately show ?thesis using inv s by (simp add: machine_inv_def)
qed

lemma fewer_new:
  assumes inv: "machine_inv R m" and f: "fewer m m'" and ok: "credited_ok R (cm_session m')"
    and r: "cs_revision (cm_session m') \<notin> pending_revisions m'"
      "cs_revision (cm_session m') \<notin> (pv_next_revision \<circ> snd) ` set (cm_receives m')" "cs_revision (cm_session m') < cm_next m'"
    and d: "distinct (cm_delivered m')" "unat ` set (cm_delivered m') \<subseteq> cov_set (w_received (cs_window (cm_session m')))"
  shows "machine_inv R m'"
proof -
  have "pending_ok R m'" using r(1) by (force simp: pending_ok_def pending_revisions_def)
  moreover have "revisions_ok m'" using inv by (intro fewer_revisions [OF _ f r(2,3)]) (simp add: machine_inv_def)
  ultimately show ?thesis using ok d by (simp add: machine_inv_def)
qed

lemma set_remove_nth: "set (remove_nth i xs) \<subseteq> set xs"
  by (auto simp: remove_nth_def dest: in_set_takeD in_set_dropD)

lemma distinct_remove_nth: "distinct (map g xs) \<Longrightarrow> distinct (map g (remove_nth i xs))"
  using set_take_disj_set_drop_if_distinct [of "map g xs" i "Suc i"]
  by (simp add: remove_nth_def take_map drop_map del: set_map) (metis distinct_drop distinct_take drop_map take_map)

lemma remove_nth_image:
  assumes "distinct (map g xs)" and "i < length xs"
  shows "g (xs ! i) \<notin> g ` set (remove_nth i xs)"
proof -
  have "xs = take i xs @ xs ! i # drop (Suc i) xs" using assms(2) by (rule id_take_nth_drop)
  then have "distinct (map g (take i xs @ xs ! i # drop (Suc i) xs))" using assms(1) by simp
  then show ?thesis by (auto simp: remove_nth_def)
qed

lemma machine_inv_fresh:
  assumes "machine_inv R m"
  shows "cm_next m \<notin> pending_revisions m" "cm_next m \<notin> (pv_next_revision \<circ> snd) ` set (cm_receives m)"
    "distinct (map (pv_next_revision \<circ> snd) (cm_receives m))"
  using assms unfolding machine_inv_def revisions_ok_def by blast+

lemma step_new_session:
  assumes inv: "machine_inv R m" and f: "fewer m m'" and ok: "credited_ok R (cm_session m')"
    and r: "cs_revision (cm_session m') = cm_next m" "cm_next m' = cm_next m + 1"
    and d: "cm_delivered m' = cm_delivered m" "w_received (cs_window (cm_session m')) = w_received (cs_window (cm_session m))"
  shows "machine_inv R m'"
proof (rule fewer_new [OF inv f ok])
  show "cs_revision (cm_session m') \<notin> pending_revisions m'"
    using machine_inv_fresh(1) [OF inv] fewer_pending(1) [OF f] r(1) by auto
  show "cs_revision (cm_session m') \<notin> (pv_next_revision \<circ> snd) ` set (cm_receives m')"
    using machine_inv_fresh(2) [OF inv] f r(1) by (auto simp: fewer_def)
qed (use inv r d in \<open>simp_all add: machine_inv_def\<close>)

lemma add_send_inv:
  assumes inv: "machine_inv R m" and p: "can_prepare_send R r u key ctx volatile now h (cm_session m) p"
  shows "machine_inv R (m\<lparr>cm_sends := cm_sends m @ [p]\<rparr>)"
proof -
  have "ps_revision p = cs_revision (cm_session m)" by (rule prepare_sendE [OF p]) simp
  moreover have "sent_from R (cm_session m) p" using p unfolding sent_from_def by blast
  ultimately show ?thesis using inv by (simp add: machine_inv_def pending_ok_def revisions_ok_def pending_revisions_def)
qed

lemma add_credit_inv:
  assumes inv: "machine_inv R m" and p: "prepare_credit (ro_crypto R) bytes (cm_session m) = Inr (Some p)"
  shows "machine_inv R (m\<lparr>cm_credits := cm_credits m @ [p]\<rparr>)"
proof -
  have "pc_revision p = cs_revision (cm_session m)" using p by (auto simp: prepare_credit_def split: if_splits)
  moreover have "credited_from R (cm_session m) p" using p unfolding credited_from_def by blast
  ultimately show ?thesis using inv by (simp add: machine_inv_def pending_ok_def revisions_ok_def pending_revisions_def)
qed

lemma add_receive_inv:
  assumes inv: "machine_inv R m" and p: "received_from R (cm_session m) c p"
    and r: "pv_revision p = cs_revision (cm_session m)" "pv_next_revision p = cm_next m"
  shows "machine_inv R (m\<lparr>cm_next := cm_next m + 1, cm_receives := cm_receives m @ [(c, p)]\<rparr>)"
proof -
  let ?m = "m\<lparr>cm_next := cm_next m + 1, cm_receives := cm_receives m @ [(c, p)]\<rparr>"
  have "pending_ok R ?m" using inv p by (simp add: machine_inv_def pending_ok_def)
  moreover have "revisions_ok ?m"
    using inv r machine_inv_fresh [OF inv] unfolding machine_inv_def revisions_ok_def pending_revisions_def
    by (auto simp: less_Suc_eq)
  ultimately show ?thesis using inv by (simp add: machine_inv_def)
qed

lemma next_inv: "machine_inv R m \<Longrightarrow> machine_inv R (m\<lparr>cm_next := cm_next m + 1\<rparr>)"
  by (rule fewer_same) (auto simp: fewer_def machine_inv_fresh)

lemma fewer_remove:
  assumes "machine_inv R m"
  shows "fewer m (m\<lparr>cm_sends := remove_nth i (cm_sends m), cm_next := cm_next m + 1, cm_session := cs\<rparr>)"
    and "fewer m (m\<lparr>cm_sends := remove_nth i (cm_sends m), cm_next := cm_next m + 1\<rparr>)"
    and "fewer m (m\<lparr>cm_credits := remove_nth i (cm_credits m), cm_next := cm_next m + 1, cm_session := cs\<rparr>)"
    and "fewer m (m\<lparr>cm_credits := remove_nth i (cm_credits m), cm_next := cm_next m + 1\<rparr>)"
    and "fewer m (m\<lparr>cm_receives := remove_nth i (cm_receives m), cm_session := cs, cm_delivered := d\<rparr>)"
    and "fewer m (m\<lparr>cm_receives := remove_nth i (cm_receives m)\<rparr>)"
    and "fewer m (m\<lparr>cm_session := cs, cm_next := cm_next m + 1\<rparr>)"
  using machine_inv_fresh(3) [OF assms] set_remove_nth
  by (simp_all add: fewer_def distinct_remove_nth)

lemma commit_send_step:
  assumes inv: "machine_inv R m" and i: "i < length (cm_sends m)"
    and c: "commit_send (cm_sends m ! i) (cm_next m) (cm_session m) = Inr cs"
  shows "machine_inv R (m\<lparr>cm_sends := remove_nth i (cm_sends m), cm_next := cm_next m + 1, cm_session := cs\<rparr>)"
proof -
  let ?p = "cm_sends m ! i"
  have "ps_revision ?p = cs_revision (cm_session m)" using c by (auto simp: commit_send_def check_revision_def)
  then have "sent_from R (cm_session m) ?p" using inv i nth_mem by (auto simp: machine_inv_def pending_ok_def)
  then obtain r u key ctx volatile now h where p: "can_prepare_send R r u key ctx volatile now h (cm_session m) ?p"
    unfolding sent_from_def by blast
  have "credited_ok R (cm_session m)" using inv by (simp add: machine_inv_def)
  from commit_sent [OF this p, of "cm_next m"] c have "credited_ok R cs" "cs_revision cs = cm_next m"
    "w_received (cs_window cs) = w_received (cs_window (cm_session m))" by auto
  then show ?thesis by (intro step_new_session [OF inv fewer_remove(1) [OF inv]]) simp_all
qed

lemma commit_credit_step:
  assumes inv: "machine_inv R m" and i: "i < length (cm_credits m)"
    and c: "commit_credit (cm_credits m ! i) (cm_next m) (cm_session m) = Inr cs"
  shows "machine_inv R (m\<lparr>cm_credits := remove_nth i (cm_credits m), cm_next := cm_next m + 1, cm_session := cs\<rparr>)"
proof -
  let ?p = "cm_credits m ! i"
  have "pc_revision ?p = cs_revision (cm_session m)" using c by (auto simp: commit_credit_def check_revision_def)
  then have "credited_from R (cm_session m) ?p" using inv i nth_mem by (auto simp: machine_inv_def pending_ok_def)
  then obtain bytes where p: "prepare_credit (ro_crypto R) bytes (cm_session m) = Inr (Some ?p)"
    unfolding credited_from_def by blast
  have "credited_ok R (cm_session m)" using inv by (simp add: machine_inv_def)
  from commit_credited [OF this p, of "cm_next m"] c have "credited_ok R cs" "cs_revision cs = cm_next m"
    "w_received (cs_window cs) = w_received (cs_window (cm_session m))" by auto
  then show ?thesis by (intro step_new_session [OF inv fewer_remove(3) [OF inv]]) simp_all
qed

lemma commit_receive_step:
  assumes C: "crypto_ok (ro_crypto R)" and inv: "machine_inv R m" and i: "i < length (cm_receives m)"
    and n: "cm_receives m ! i = (c, p)" and cm: "commit_receive p (cm_session m) = Inr cs"
  shows "machine_inv R (m\<lparr>cm_receives := remove_nth i (cm_receives m), cm_session := cs,
     cm_delivered := cm_delivered m @ (if pv_record p = None then [] else [c])\<rparr>)" (is "machine_inv R ?m")
proof -
  have mem: "(c, p) \<in> set (cm_receives m)" using nth_mem [OF i] n by simp
  have ok: "credited_ok R (cm_session m)" using inv by (simp add: machine_inv_def)
  have "pv_revision p = cs_revision (cm_session m)" using cm by (auto simp: commit_receive_def check_revision_def)
  then have src: "received_from R (cm_session m) c p" using inv mem by (auto simp: machine_inv_def pending_ok_def)
  have cs: "credited_ok R cs \<and> cs_revision cs = pv_next_revision p
    \<and> (if pv_record p = None then cov_set (w_received (cs_window cs)) = cov_set (w_received (cs_window (cm_session m)))
       else unat c \<notin> cov_set (w_received (cs_window (cm_session m)))
         \<and> cov_set (w_received (cs_window cs)) = insert (unat c) (cov_set (w_received (cs_window (cm_session m)))))"
    using src unfolding received_from_def
  proof (elim disjE exE conjE)
    fix f key ctx now tok h
    assume c: "c = f_ctr f" and p: "can_prepare_receive R f key ctx now tok h (cm_session m) p"
    have "cs_revision cs = pv_next_revision p" using cm by (auto simp: commit_receive_def)
    with commit_received [OF C ok p] cm c show ?thesis by auto
  next
    fix q tok
    assume p: "prepare_first_move_retry (ro_crypto R) q tok (cm_session m) = Inr p"
    have "cs_revision cs = pv_next_revision p" using cm by (auto simp: commit_receive_def)
    with commit_retried [OF C ok p] cm show ?thesis by auto
  qed
  have rv: "revisions_ok m" using inv by (simp add: machine_inv_def)
  have nx: "pv_next_revision p \<in> (pv_next_revision \<circ> snd) ` set (cm_receives m)" using mem by force
  have f: "fewer m ?m" by (rule fewer_remove(5) [OF inv])
  show ?thesis
  proof (rule fewer_new [OF inv f])
    show "cs_revision (cm_session ?m) \<notin> pending_revisions ?m"
    proof -
      have "pv_next_revision p \<notin> pending_revisions m" using rv nx unfolding revisions_ok_def by blast
      then have "pv_next_revision p \<notin> pending_revisions ?m" using fewer_pending(1) [OF f] by blast
      with cs show ?thesis by simp
    qed
    show "cs_revision (cm_session ?m) \<notin> (pv_next_revision \<circ> snd) ` set (cm_receives ?m)"
      using remove_nth_image [OF machine_inv_fresh(3) [OF inv] i] n cs by simp
    show "cs_revision (cm_session ?m) < cm_next ?m" using rv nx cs unfolding revisions_ok_def by auto
    show "distinct (cm_delivered ?m)" "unat ` set (cm_delivered ?m) \<subseteq> cov_set (w_received (cs_window (cm_session ?m)))"
      using inv cs by (auto simp: machine_inv_def split: if_splits)
  qed (use cs in simp)
qed

lemma prepare_send_step:
  assumes inv: "machine_inv R m"
  shows "\<exists>m'. credited_step R (OpPrepareSend r u key ctx volatile now h) m = Some m' \<and> machine_inv R m'"
proof -
  obtain q h' where q: "(if volatile then prepare_volatile_send_at R r u key ctx now h (cm_session m)
                else prepare_send_at R r u key ctx now h (cm_session m)) = (q, h')" by fastforce
  show ?thesis
  proof (cases q)
    case (Inr p)
    then have "can_prepare_send R r u key ctx volatile now h (cm_session m) p" using q by (simp add: can_prepare_send_def)
    from add_send_inv [OF inv this] show ?thesis using Inr q by simp
  qed (use inv q in simp)
qed

lemma prepare_receive_step:
  assumes inv: "machine_inv R m"
  shows "\<exists>m'. credited_step R (OpPrepareReceive f key ctx now h) m = Some m' \<and> machine_inv R m'"
proof -
  obtain q h' where q: "prepare_receive_at R f key ctx now (cm_next m) h (cm_session m) = (q, h')" by fastforce
  show ?thesis
  proof (cases q)
    case (Inr p)
    then have p: "can_prepare_receive R f key ctx now (cm_next m) h (cm_session m) p" using q by (simp add: can_prepare_receive_def)
    then have "received_from R (cm_session m) (f_ctr f) p" unfolding received_from_def by blast
    moreover have "pv_revision p = cs_revision (cm_session m)" "pv_next_revision p = cm_next m"
      using p by (cases rule: prepare_receiveE; simp)+
    ultimately have "machine_inv R (m\<lparr>cm_next := cm_next m + 1, cm_receives := cm_receives m @ [(f_ctr f, p)]\<rparr>)"
      by (rule add_receive_inv [OF inv])
    then show ?thesis using Inr q by simp
  qed (use next_inv [OF inv] q in simp)
qed

lemma retry_step:
  assumes inv: "machine_inv R m"
  shows "\<exists>m'. credited_step R (OpRetry q) m = Some m' \<and> machine_inv R m'"
proof -
  show ?thesis
  proof (cases "prepare_first_move_retry (ro_crypto R) q (cm_next m) (cm_session m)")
    case (Inr p)
    then have "received_from R (cm_session m) 1 p" unfolding received_from_def by blast
    moreover have "pv_revision p = cs_revision (cm_session m)" "pv_next_revision p = cm_next m"
      using Inr by (auto simp: prepare_first_move_retry_def)
    ultimately have "machine_inv R (m\<lparr>cm_next := cm_next m + 1, cm_receives := cm_receives m @ [(1, p)]\<rparr>)"
      by (rule add_receive_inv [OF inv])
    then show ?thesis using Inr by simp
  qed (use next_inv [OF inv] in simp)
qed

lemma prepare_credit_step:
  assumes inv: "machine_inv R m"
  shows "\<exists>m'. credited_step R (OpPrepareCredit bytes) m = Some m' \<and> machine_inv R m'"
proof -
  show ?thesis
  proof (cases "prepare_credit (ro_crypto R) bytes (cm_session m)")
    case (Inr q)
    then show ?thesis using inv add_credit_inv [OF inv] by (cases q) simp_all
  qed (use inv in simp)
qed

lemma commit_send_op:
  assumes inv: "machine_inv R m"
  shows "\<exists>m'. credited_step R (OpCommitSend i) m = Some m' \<and> machine_inv R m'"
proof -
  show ?thesis
  proof (cases "commit_send (cm_sends m ! i) (cm_next m) (cm_session m)")
    case (Inl e)
    then show ?thesis using inv fewer_same [OF inv fewer_remove(2) [OF inv, of i]] by (simp add: Let_def)
  next
    case (Inr cs)
    then show ?thesis using inv commit_send_step [OF inv _ Inr] by (simp add: Let_def)
  qed
qed

lemma commit_credit_op:
  assumes inv: "machine_inv R m"
  shows "\<exists>m'. credited_step R (OpCommitCredit i) m = Some m' \<and> machine_inv R m'"
proof -
  show ?thesis
  proof (cases "commit_credit (cm_credits m ! i) (cm_next m) (cm_session m)")
    case (Inl e)
    then show ?thesis using inv fewer_same [OF inv fewer_remove(4) [OF inv, of i]] by (simp add: Let_def)
  next
    case (Inr cs)
    then show ?thesis using inv commit_credit_step [OF inv _ Inr] by (simp add: Let_def)
  qed
qed

lemma commit_receive_op:
  assumes C: "crypto_ok (ro_crypto R)" and inv: "machine_inv R m"
  shows "\<exists>m'. credited_step R (OpCommitReceive i) m = Some m' \<and> machine_inv R m'"
proof -
  obtain c p where n: "cm_receives m ! i = (c, p)" by fastforce
  show ?thesis
  proof (cases "commit_receive p (cm_session m)")
    case (Inl e)
    then show ?thesis using inv n fewer_same [OF inv fewer_remove(6) [OF inv, of i]] by (simp add: Let_def)
  next
    case (Inr cs)
    then show ?thesis using inv n commit_receive_step [OF C inv _ n Inr] by (simp add: Let_def)
  qed
qed

lemma peer_kem_step:
  assumes inv: "machine_inv R m"
  shows "\<exists>m'. credited_step R (OpPeerKem key) m = Some m' \<and> machine_inv R m'"
proof -
  have ok: "credited_ok R (cm_session m)" using inv by (simp add: machine_inv_def)
  show ?thesis
  proof (cases "credited_provide_peer_kem R key (cm_next m) (cm_session m)")
    case (Inr cs)
    from provide_credited(2) [OF ok Inr] have "machine_inv R (m\<lparr>cm_session := cs, cm_next := cm_next m + 1\<rparr>)"
      by (intro step_new_session [OF inv fewer_remove(7) [OF inv]]) simp_all
    then show ?thesis using Inr by simp
  qed (use inv in simp)
qed

lemma local_secrets_step:
  assumes inv: "machine_inv R m"
  shows "\<exists>m'. credited_step R (OpLocalSecrets secrets) m = Some m' \<and> machine_inv R m'"
proof -
  have ok: "credited_ok R (cm_session m)" using inv by (simp add: machine_inv_def)
  have "machine_inv R (m\<lparr>cm_session := provide_local_secrets secrets (cm_next m) (cm_session m), cm_next := cm_next m + 1\<rparr>)"
    using provide_credited(1) [OF ok]
    by (intro step_new_session [OF inv fewer_remove(7) [OF inv]]) (simp_all add: provide_local_secrets_def)
  then show ?thesis by simp
qed

lemma credited_step_inv:
  assumes "crypto_ok (ro_crypto R)" and "machine_inv R m"
  shows "\<exists>m'. credited_step R x m = Some m' \<and> machine_inv R m'"
  by (cases x)
     (simp_all only: prepare_send_step [OF assms(2)] prepare_receive_step [OF assms(2)] retry_step [OF assms(2)]
        prepare_credit_step [OF assms(2)] commit_send_op [OF assms(2)] commit_credit_op [OF assms(2)]
        commit_receive_op [OF assms] peer_kem_step [OF assms(2)] local_secrets_step [OF assms(2)])

text \<open>The authenticated encryption law is part of the invariant the interpretation uses.\<close>

interpretation credited_machine: invariant_machine "credited_step R"
  "\<lambda>m. crypto_ok (ro_crypto R) \<and> machine_inv R m"
  by unfold_locales (use credited_step_inv in blast)

definition machine_of :: "'g credited_session \<Rightarrow> 'g credited_machine" where
  "machine_of cs = \<lparr>cm_session = cs, cm_next = cs_revision cs + 1, cm_sends = [], cm_receives = [],
     cm_credits = [], cm_delivered = []\<rparr>"

lemma machine_of_inv: "credited_ok R cs \<Longrightarrow> machine_inv R (machine_of cs)"
  by (simp add: machine_of_def machine_inv_def pending_ok_def revisions_ok_def pending_revisions_def)

lemma commit_current:
  assumes "machine_inv R m"
  shows "p \<in> set (cm_sends m) \<Longrightarrow> commit_send p tok (cm_session m) = Inr cs \<Longrightarrow> sent_from R (cm_session m) p"
    and "(c, q) \<in> set (cm_receives m) \<Longrightarrow> commit_receive q (cm_session m) = Inr cs \<Longrightarrow> received_from R (cm_session m) c q"
    and "x \<in> set (cm_credits m) \<Longrightarrow> commit_credit x tok (cm_session m) = Inr cs \<Longrightarrow> credited_from R (cm_session m) x"
  using assms
  by (auto simp: machine_inv_def pending_ok_def commit_send_def commit_receive_def commit_credit_def check_revision_def)

section \<open>Properties\<close>

definition demo_credited :: "nat credited_session" where
  "demo_credited = \<lparr>cs_ratchet = demo_receiver, cs_window = demo_new, cs_revision = 0\<rparr>"

lemma demo_credited_ok: "credited_ok toy_ratchet demo_credited"
proof -
  have "window_inv toy_crypto demo_new" by (rule window_new_inv [OF demo_new_eq])
  moreover have "ro_crypto toy_ratchet = toy_crypto" by (simp add: toy_ratchet_def)
  ultimately show ?thesis
    using demo_receiver_inv
    by (simp add: credited_ok_def demo_credited_def demo_receiver_def demo_session_def demo_new_def)
qed

text \<open>
  C4 (safety): exactly-once delivery through transactions. Prepare, hold and commit any number of
  sends, receives, credits and setup retries in any order, with any frames and credits from the
  network: every operation returns, no counter's record is ever delivered twice, the ratchet and the
  credit window keep agreeing on the counters sent and received, and a commit that succeeds was
  prepared on exactly the current session state.
\<close>

theorem credited_exactly_once:
  assumes "crypto_ok (ro_crypto R)" and "credited_ok R cs"
  shows "\<exists>m. run_ops (credited_step R) ops (machine_of cs) = Some m \<and> distinct (cm_delivered m)
     \<and> credited_ok R (cm_session m)
     \<and> (\<forall>p tok cs'. p \<in> set (cm_sends m) \<and> commit_send p tok (cm_session m) = Inr cs' \<longrightarrow> sent_from R (cm_session m) p)
     \<and> (\<forall>c q cs'. (c, q) \<in> set (cm_receives m) \<and> commit_receive q (cm_session m) = Inr cs'
           \<longrightarrow> received_from R (cm_session m) c q)"
proof -
  from credited_machine.run_returns [OF conjI [OF assms(1) machine_of_inv [OF assms(2)]], of ops]
  obtain m where m: "run_ops (credited_step R) ops (machine_of cs) = Some m" "machine_inv R m" by blast
  then show ?thesis using commit_current [OF m(2)] by (auto simp: machine_inv_def)
qed

theorem credited_exactly_once_witness:
  "\<exists>m. run_ops (credited_step toy_ratchet) [OpPrepareReceive demo_frame (arr_fill 7) demo_context 0 0, OpCommitReceive 0]
       (machine_of demo_credited) = Some m \<and> distinct (cm_delivered m) \<and> credited_ok toy_ratchet (cm_session m)"
  using credited_exactly_once [OF ratchet_okD(1) [OF toy_ratchet_ok] demo_credited_ok,
      of "[OpPrepareReceive demo_frame (arr_fill 7) demo_context 0 0, OpCommitReceive 0]"] by blast

end
