(* ===== verification/Credit_Link.thy ===== *)
theory Credit_Link
  imports Flow_Window
begin

text \<open>
  One direction of a GC/2 session: a sending window, a receiving window and a network between
  them that may lose, repeat, delay and reorder packets and credits. The steps are the operations
  of \<open>flow.rs\<close> (theory \<open>Flow_Window\<close>); reachability and the invariant relate both ends.
\<close>

type_synonym sent_packet = "u64 \<times> bytes \<times> flow_record"

record link =
  l_snd :: window
  l_rcv :: window
  l_net :: "sent_packet set"
  l_credits :: "credit set"

definition packet_authority :: "crypto_ops \<Rightarrow> 16 arr \<Rightarrow> sent_packet \<Rightarrow> authority" where
  "packet_authority C s q = (case q of (_, p, r) \<Rightarrow> authority_new C s (cr_sha256 C p) (fr_secret r))"

text \<open>
  A packet enters the network when the sender records it; every packet has a fresh random secret,
  so its receipt reference differs from those of the session's earlier packets. Anything in the
  network may arrive at any time, any number of times.
\<close>

inductive link_step :: "crypto_ops \<Rightarrow> link \<Rightarrow> link \<Rightarrow> bool" for C where
  send: "record_sent C k p r u (l_snd l) = Inr w \<Longrightarrow>
    au_reference (packet_authority C (w_session (l_snd l)) (k, p, r))
      \<notin> au_reference ` packet_authority C (w_session (l_snd l)) ` l_net l \<Longrightarrow>
    link_step C l (l\<lparr>l_snd := w, l_net := insert (k, p, r) (l_net l)\<rparr>)"
| receive: "(k, p, r) \<in> l_net l \<Longrightarrow> record_authenticated C k p r (l_rcv l) = Inr w \<Longrightarrow>
    link_step C l (l\<lparr>l_rcv := w\<rparr>)"
| credit: "credit_for_duplicate C k p (l_rcv l) = Inr (b, w) \<Longrightarrow>
    link_step C l (l\<lparr>l_rcv := w, l_credits := insert b (l_credits l)\<rparr>)"
| accept: "b \<in> l_credits l \<Longrightarrow> accept_credit C (list_of b) (l_snd l) = Inr (changed, w) \<Longrightarrow>
    link_step C l (l\<lparr>l_snd := w\<rparr>)"

definition link_start :: "16 arr \<Rightarrow> u64 \<Rightarrow> link \<Rightarrow> bool" where
  "link_start s g l \<longleftrightarrow>
     window_new_generation s g = Inr (l_snd l) \<and> window_new_generation s g = Inr (l_rcv l)
     \<and> l_net l = {} \<and> l_credits l = {}"

inductive link_reach :: "crypto_ops \<Rightarrow> link \<Rightarrow> bool" for C where
  start: "link_start s g l \<Longrightarrow> link_reach C l"
| step: "link_reach C l \<Longrightarrow> link_step C l l' \<Longrightarrow> link_reach C l'"

section \<open>Invariant\<close>

definition net_ok :: "crypto_ops \<Rightarrow> link \<Rightarrow> bool" where
  "net_ok C l \<longleftrightarrow>
     inj_on (au_reference \<circ> packet_authority C (w_session (l_snd l))) (l_net l)
     \<and> inj_on fst (l_net l) \<and> unat ` fst ` l_net l \<subseteq> {1..unat (w_sent (l_snd l))}"

definition from_net :: "crypto_ops \<Rightarrow> 16 arr \<Rightarrow> sent_packet set \<Rightarrow> u64 \<Rightarrow> authority \<Rightarrow> bool" where
  "from_net C s N k au \<longleftrightarrow> (\<exists>p r. (k, p, r) \<in> N \<and> au = packet_authority C s (k, p, r))"

definition ends_ok :: "crypto_ops \<Rightarrow> link \<Rightarrow> bool" where
  "ends_ok C l \<longleftrightarrow>
     (\<forall>(k, e) \<in> set (w_tx (l_snd l)). from_net C (w_session (l_snd l)) (l_net l) k (se_authority e))
     \<and> (\<forall>(k, e) \<in> set (w_rx (l_rcv l)). from_net C (w_session (l_snd l)) (l_net l) k (re_authority e))"

definition credit_true :: "crypto_ops \<Rightarrow> 16 arr \<Rightarrow> sent_packet set \<Rightarrow> coverage \<Rightarrow> credit \<Rightarrow> bool" where
  "credit_true C s N received b \<longleftrightarrow>
     (\<exists>k au cov n. from_net C s N k au \<and> cov_valid cov \<and> cov_set cov \<subseteq> cov_set received
        \<and> cov_count cov = Inr n \<and> credit_seal C s au n cov = Inr b)"

definition credits_ok :: "crypto_ops \<Rightarrow> link \<Rightarrow> bool" where
  "credits_ok C l \<longleftrightarrow>
     (\<forall>b \<in> l_credits l. credit_true C (w_session (l_snd l)) (l_net l) (w_received (l_rcv l)) b)"

lemma from_net_mono: "from_net C s N k au \<Longrightarrow> N \<subseteq> N' \<Longrightarrow> from_net C s N' k au"
  unfolding from_net_def by blast

lemma credit_true_mono:
  "credit_true C s N received b \<Longrightarrow> N \<subseteq> N' \<Longrightarrow> cov_set received \<subseteq> cov_set received' \<Longrightarrow> credit_true C s N' received' b"
  unfolding credit_true_def by (meson from_net_mono subset_trans)

definition link_inv :: "crypto_ops \<Rightarrow> link \<Rightarrow> bool" where
  "link_inv C l \<longleftrightarrow>
     window_inv C (l_snd l) \<and> window_inv C (l_rcv l) \<and> w_session (l_rcv l) = w_session (l_snd l)
     \<and> net_ok C l \<and> ends_ok C l \<and> credits_ok C l
     \<and> cov_set (w_received (l_rcv l)) \<subseteq> {1..unat (w_sent (l_snd l))}
     \<and> cov_set (w_credited (l_snd l)) \<subseteq> cov_set (w_received (l_rcv l))"

lemmas link_inv_defs = link_inv_def net_ok_def ends_ok_def credits_ok_def

lemma window_new_fields:
  assumes "window_new_generation s g = Inr w"
  shows "w_tx w = []" "w_rx w = []" "w_sent w = 0" "w_credited w = cov_default" "w_received w = cov_default"
    "w_session w = s"
  using assms by (auto simp: window_new_generation_def)

lemma link_start_inv:
  assumes "link_start s g l"
  shows "link_inv C l"
proof -
  have w: "window_new_generation s g = Inr (l_snd l)" "window_new_generation s g = Inr (l_rcv l)"
    "l_net l = {}" "l_credits l = {}" using assms unfolding link_start_def by blast+
  note f = window_new_fields [OF w(1)] window_new_fields [OF w(2)]
  show ?thesis using w window_new_inv [OF w(1), of C] window_new_inv [OF w(2), of C] by (simp add: link_inv_defs f)
qed

lemma send_inv:
  assumes "link_inv C l" and "record_sent C k p r u (l_snd l) = Inr w"
    and "au_reference (packet_authority C (w_session (l_snd l)) (k, p, r))
      \<notin> au_reference ` packet_authority C (w_session (l_snd l)) ` l_net l"
  shows "link_inv C (l\<lparr>l_snd := w, l_net := insert (k, p, r) (l_net l)\<rparr>)"
proof -
  have inv: "window_inv C (l_snd l)" using assms(1) by (simp add: link_inv_def)
  note s = record_sent_cases [OF inv assms(2)]
  have "unat ` fst ` l_net l \<subseteq> {1..unat (w_sent (l_snd l))}" using assms(1) by (simp add: link_inv_def net_ok_def)
  moreover have "unat k \<notin> {1..unat (w_sent (l_snd l))}" using s(2) by simp
  ultimately have k: "k \<notin> fst ` l_net l" by blast
  have "net_ok C (l\<lparr>l_snd := w, l_net := insert (k, p, r) (l_net l)\<rparr>)"
    using assms(1,3) s(1,2) k by (auto simp: link_inv_def net_ok_def image_comp)
  moreover have "ends_ok C (l\<lparr>l_snd := w, l_net := insert (k, p, r) (l_net l)\<rparr>)"
    using assms(1) s(1) from_net_mono [OF _ subset_insertI]
    by (auto simp: link_inv_def ends_ok_def sent_entry_new_def packet_authority_def from_net_def [of _ _ "insert _ _"])
  moreover have "credits_ok C (l\<lparr>l_snd := w, l_net := insert (k, p, r) (l_net l)\<rparr>)"
    using assms(1) s(1) credit_true_mono [OF _ subset_insertI order_refl] by (auto simp: link_inv_def credits_ok_def)
  moreover have "window_inv C w" by (rule record_sent_inv [OF inv assms(2)])
  ultimately show ?thesis using assms(1) s(1,2) by (auto simp: link_inv_def)
qed

lemma receive_inv:
  assumes "link_inv C l" and net: "(k, p, r) \<in> l_net l" and "record_authenticated C k p r (l_rcv l) = Inr w"
  shows "link_inv C (l\<lparr>l_rcv := w\<rparr>)"
proof -
  have inv: "window_inv C (l_rcv l)" "w_session (l_rcv l) = w_session (l_snd l)" using assms(1) by (simp_all add: link_inv_def)
  obtain cov where c: "cov_set cov = insert (unat k) (cov_set (w_received (l_rcv l)))"
    and w: "w = (l_rcv l)\<lparr>w_received := cov, w_rx := filter (\<lambda>(j, _). cov_hi cov \<le> unat j + 62)
         (bt_insert k \<lparr>re_authority = authority_new C (w_session (l_rcv l)) (cr_sha256 C p) (fr_secret r), re_cached = None\<rparr>
           (w_rx (l_rcv l)))\<rparr>"
    by (rule record_authenticated_cases [OF inv(1) assms(3)])
  have bt: "bt_ok (w_rx (l_rcv l))" using inv(1) by (simp add: window_inv_def rx_ok_def)
  have "from_net C (w_session (l_snd l)) (l_net l) k (authority_new C (w_session (l_rcv l)) (cr_sha256 C p) (fr_secret r))"
    using net inv(2) by (auto simp: from_net_def packet_authority_def)
  then have "ends_ok C (l\<lparr>l_rcv := w\<rparr>)"
    using assms(1) set_bt_insert [OF bt] by (auto simp: link_inv_def ends_ok_def w)
  moreover have "credits_ok C (l\<lparr>l_rcv := w\<rparr>)"
    using assms(1) c credit_true_mono [OF _ order_refl, of C _ "l_net l" "w_received (l_rcv l)" _ cov]
    by (auto simp: link_inv_def credits_ok_def w)
  moreover have "unat k \<in> {1..unat (w_sent (l_snd l))}" using assms(1) net by (force simp: link_inv_def net_ok_def)
  moreover have "window_inv C w" by (rule record_authenticated_inv [OF inv(1) assms(3)])
  ultimately show ?thesis using assms(1) c by (auto simp: link_inv_def net_ok_def w)
qed

lemma credit_inv:
  assumes "crypto_ok C" and "link_inv C l" and "credit_for_duplicate C k p (l_rcv l) = Inr (b, w)"
  shows "link_inv C (l\<lparr>l_rcv := w, l_credits := insert b (l_credits l)\<rparr>)"
proof -
  have inv: "window_inv C (l_rcv l)" "w_session (l_rcv l) = w_session (l_snd l)" using assms(2) by (simp_all add: link_inv_def)
  obtain j e n where j: "(j, e) \<in> set (w_rx (l_rcv l))" and n: "cov_count (w_received (l_rcv l)) = Inr n"
      "credit_seal C (w_session (l_rcv l)) (re_authority e) n (w_received (l_rcv l)) = Inr b"
    and w: "w = l_rcv l \<or> w = (l_rcv l)\<lparr>w_rx := bt_insert j (e\<lparr>re_cached := Some b\<rparr>) (w_rx (l_rcv l))\<rparr>"
    by (rule credit_for_duplicate_cases [OF assms(1) inv(1) assms(3)])
  have bt: "bt_ok (w_rx (l_rcv l))" and v: "cov_valid (w_received (l_rcv l))"
    using inv(1) by (simp_all add: window_inv_def rx_ok_def)
  have same: "w_received w = w_received (l_rcv l)" "w_session w = w_session (l_rcv l)" using w by auto
  have q: "from_net C (w_session (l_snd l)) (l_net l) j (re_authority e)"
    using assms(2) j by (auto simp: link_inv_def ends_ok_def)
  then have "ends_ok C (l\<lparr>l_rcv := w, l_credits := insert b (l_credits l)\<rparr>)"
    using assms(2) w set_bt_insert [OF bt] by (auto simp: link_inv_def ends_ok_def)
  moreover have "credit_true C (w_session (l_snd l)) (l_net l) (w_received (l_rcv l)) b"
    using q n v inv(2) unfolding credit_true_def by auto
  then have "credits_ok C (l\<lparr>l_rcv := w, l_credits := insert b (l_credits l)\<rparr>)"
    using assms(2) by (simp add: link_inv_def credits_ok_def same)
  moreover have "window_inv C w" by (rule credit_for_duplicate_inv [OF assms(1) inv(1) assms(3)])
  ultimately show ?thesis using assms(2) by (simp add: link_inv_def net_ok_def same)
qed

lemma decode_link_credit:
  assumes "crypto_ok C" and "link_inv C l" and "b \<in> l_credits l" and "(k, e) \<in> set (w_tx (l_snd l))"
    and "decode_credit C (w_session (l_snd l)) (se_authority e) (list_of b) = Inr cov"
  shows "cov_set cov \<subseteq> cov_set (w_received (l_rcv l))"
proof -
  let ?s = "w_session (l_snd l)"
  obtain k' au c n where f: "from_net C ?s (l_net l) k' au" and c: "cov_valid c" "cov_set c \<subseteq> cov_set (w_received (l_rcv l))"
      "cov_count c = Inr n" "credit_seal C ?s au n c = Inr b"
    using assms(2,3) unfolding link_inv_def credits_ok_def credit_true_def by blast
  obtain q where q: "q \<in> l_net l" "au = packet_authority C ?s q" using f unfolding from_net_def by blast
  have "from_net C ?s (l_net l) k (se_authority e)" using assms(2,4) by (auto simp: link_inv_def ends_ok_def)
  then obtain p where p: "p \<in> l_net l" "se_authority e = packet_authority C ?s p" unfolding from_net_def by blast
  obtain d where d: "list_of b = credit_header ?s au @ credit_nonce n @ d"
    using credit_seal_bytes [OF assms(1) c(4)] by metis
  have "sub_list (list_of b) 20 36 = list_of (au_reference (se_authority e))"
    using assms(5) by (simp add: decode_credit_def)
  then have "au_reference (packet_authority C ?s q) = au_reference (packet_authority C ?s p)"
    using credit_fields(3) [OF d] p(2) q(2) by simp
  moreover have "inj_on (au_reference \<circ> packet_authority C ?s) (l_net l)" using assms(2) by (simp add: link_inv_def net_ok_def)
  ultimately have "q = p" using q(1) p(1) by (simp add: inj_on_def)
  then have "decode_credit C ?s (se_authority e) (list_of b) = Inr c"
    using decode_credit_seal [OF assms(1) c(1,3,4)] p(2) q(2) by simp
  with assms(5) c(2) show ?thesis by simp
qed

lemma accept_inv:
  assumes "crypto_ok C" and "link_inv C l" and "b \<in> l_credits l"
    and "accept_credit C (list_of b) (l_snd l) = Inr (changed, w)"
  shows "link_inv C (l\<lparr>l_snd := w\<rparr>)"
proof -
  have inv: "window_inv C (l_snd l)" using assms(2) by (simp add: link_inv_def)
  obtain k e cov where ke: "(k, e) \<in> set (w_tx (l_snd l))"
      "decode_credit C (w_session (l_snd l)) (se_authority e) (list_of b) = Inr cov"
    and w: "(cov_floor cov < cov_floor (w_credited (l_snd l)) \<and> \<not> changed \<and> w = l_snd l)
     \<or> (cov_floor (w_credited (l_snd l)) \<le> cov_floor cov \<and>
        (\<exists>c. cov_valid c \<and> cov_set c = cov_set (w_credited (l_snd l)) \<union> cov_set cov \<and> cov_floor (w_credited (l_snd l)) \<le> cov_floor c
           \<and> changed = (c \<noteq> w_credited (l_snd l))
           \<and> w = (l_snd l)\<lparr>w_credited := c, w_tx := filter (\<lambda>(k, _). cov_floor c < k) (w_tx (l_snd l))\<rparr>))"
    by (rule accept_credit_cases [OF inv assms(4)])
  have sub: "cov_set cov \<subseteq> cov_set (w_received (l_rcv l))" by (rule decode_link_credit [OF assms(1-3) ke])
  have same: "w_session w = w_session (l_snd l) \<and> w_sent w = w_sent (l_snd l) \<and> set (w_tx w) \<subseteq> set (w_tx (l_snd l))
      \<and> cov_set (w_credited w) \<subseteq> cov_set (w_credited (l_snd l)) \<union> cov_set cov"
    using w by (elim disjE conjE exE) simp_all
  have "ends_ok C (l\<lparr>l_snd := w\<rparr>)" using assms(2) same by (auto simp: link_inv_def ends_ok_def)
  moreover have "net_ok C (l\<lparr>l_snd := w\<rparr>)" "credits_ok C (l\<lparr>l_snd := w\<rparr>)"
    using assms(2) same by (simp_all add: link_inv_def net_ok_def credits_ok_def)
  moreover have "window_inv C w" by (rule accept_credit_inv [OF inv assms(4)])
  moreover have "cov_set (w_credited w) \<subseteq> cov_set (w_received (l_rcv l))"
    using same sub assms(2) by (blast dest: link_inv_def [THEN iffD1])
  ultimately show ?thesis using assms(2) same by (simp add: link_inv_def)
qed

lemma link_reach_inv:
  assumes "crypto_ok C" and "link_reach C l"
  shows "link_inv C l"
  using assms(2)
proof (induction rule: link_reach.induct)
  case (start s g l)
  then show ?case by (rule link_start_inv)
next
  case (step l l')
  from step.hyps(2) step.IH show ?case
    by (cases rule: link_step.cases)
      (simp_all add: send_inv receive_inv credit_inv [OF assms(1)] accept_inv [OF assms(1)])
qed

section \<open>Properties\<close>

text \<open>
  C17 (safety): whatever the network loses, repeats, delays or reorders, the sender never counts a
  counter as credited that the receiver has not authenticated, the receiver never covers a counter
  that was not sent, and at most 63 counters are outstanding.
\<close>

theorem credited_only_received:
  assumes "crypto_ok C" and "link_reach C l"
  shows "cov_set (w_credited (l_snd l)) \<subseteq> cov_set (w_received (l_rcv l))
     \<and> cov_set (w_received (l_rcv l)) \<subseteq> {1..unat (w_sent (l_snd l))}
     \<and> unat (w_sent (l_snd l)) \<le> unat (cov_floor (w_credited (l_snd l))) + 63"
  using link_reach_inv [OF assms] by (simp add: link_inv_def window_inv_def)

lemma credit_sync_step:
  assumes "crypto_ok C" and "link_inv C l" and "credit_for_duplicate C k p (l_rcv l) = Inr (b, w)"
    and "unat (cov_floor (w_credited (l_snd l))) < cov_hi (w_received (l_rcv l))"
  shows "\<exists>changed s. accept_credit C (list_of b) (l_snd l) = Inr (changed, s)
     \<and> cov_set (w_credited s) = cov_set (w_received (l_rcv l))"
proof -
  let ?R = "l_rcv l" and ?S = "l_snd l"
  have inv: "window_inv C ?R" "window_inv C ?S" "w_session ?R = w_session ?S" using assms(2) by (simp_all add: link_inv_def)
  have v: "cov_valid (w_received ?R)" using inv(1) by (simp add: window_inv_def)
  obtain j e n where j: "(j, e) \<in> set (w_rx ?R)" "unat j = cov_hi (w_received ?R)" and n: "cov_count (w_received ?R) = Inr n"
      "credit_seal C (w_session ?R) (re_authority e) n (w_received ?R) = Inr b"
    by (rule credit_for_duplicate_cases [OF assms(1) inv(1) assms(3)])
  have le: "cov_hi (w_received ?R) \<le> unat (w_sent ?S)"
    by (rule cov_hi_leI) (use assms(2) in \<open>auto simp: link_inv_def\<close>)
  have "unat j \<in> {unat (cov_floor (w_credited ?S)) + 1..unat (w_sent ?S)}" using j(2) le assms(4) by simp
  also have "\<dots> = unat ` fst ` set (w_tx ?S)"
    by (rule tx_keys [of C, symmetric]) (use inv(2) in \<open>simp add: window_inv_def\<close>)
  finally obtain f where f: "(j, f) \<in> set (w_tx ?S)" by (auto simp: word_unat_eq_iff [symmetric])
  have "from_net C (w_session ?S) (l_net l) j (se_authority f)" "from_net C (w_session ?S) (l_net l) j (re_authority e)"
    using assms(2) j(1) f by (auto simp: link_inv_def ends_ok_def)
  moreover have "inj_on fst (l_net l)" using assms(2) by (simp add: link_inv_def net_ok_def)
  ultimately have au: "se_authority f = re_authority e" unfolding from_net_def by (metis fst_conv inj_onD)
  have sub: "cov_set (w_credited ?S) \<subseteq> cov_set (w_received ?R)" using assms(2) by (simp add: link_inv_def)
  then have "cov_floor (w_credited ?S) \<le> cov_floor (w_received ?R)"
    by (rule cov_subset_floor) (use v in \<open>simp add: cov_valid_iff\<close>)
  with accept_credit_sealed [OF assms(1) inv(2) f v n(1) _ le] n(2) inv(3) au sub show ?thesis by auto
qed

lemma credit_sync_idle:
  assumes "link_inv C l" and "\<not> unat (cov_floor (w_credited (l_snd l))) < cov_hi (w_received (l_rcv l))"
  shows "cov_set (w_credited (l_snd l)) = cov_set (w_received (l_rcv l))"
proof
  show "cov_set (w_credited (l_snd l)) \<subseteq> cov_set (w_received (l_rcv l))" using assms(1) by (simp add: link_inv_def)
  show "cov_set (w_received (l_rcv l)) \<subseteq> cov_set (w_credited (l_snd l))"
    using assms(2) by (auto dest!: cov_set_le_hi intro: cov_set_below)
qed

text \<open>
  C18 (liveness): in every reachable state one credit that the receiver forms now leaves the sender
  exactly up to date. If the highest received counter is above the sender's credited floor, the
  sender accepts the credit and then counts as credited precisely what the receiver has
  authenticated; otherwise it counts precisely that already, before the credit arrives.
\<close>

theorem credit_synchronises:
  assumes "crypto_ok C" and "link_reach C l" and "credit_for_duplicate C k p (l_rcv l) = Inr (b, w)"
  shows "if unat (cov_floor (w_credited (l_snd l))) < cov_hi (w_received (l_rcv l))
     then \<exists>changed s. accept_credit C (list_of b) (l_snd l) = Inr (changed, s)
       \<and> cov_set (w_credited s) = cov_set (w_received (l_rcv l))
     else cov_set (w_credited (l_snd l)) = cov_set (w_received (l_rcv l))"
  using credit_sync_step [OF assms(1) link_reach_inv [OF assms(1,2)] assms(3)]
    credit_sync_idle [OF link_reach_inv [OF assms(1,2)]] by auto

definition demo_link :: link where
  "demo_link = \<lparr>l_snd = demo_window, l_rcv = demo_new, l_net = {(1, [7], demo_record)}, l_credits = {}\<rparr>"

lemma demo_link_reach: "link_reach toy_crypto demo_link"
proof -
  let ?l = "\<lparr>l_snd = demo_new, l_rcv = demo_new, l_net = {}, l_credits = {}\<rparr>"
  have "link_reach toy_crypto ?l"
    by (rule link_reach.start [of "arr_fill 1" 1]) (simp add: link_start_def demo_new_eq)
  moreover have "link_step toy_crypto ?l (?l\<lparr>l_snd := demo_window, l_net := insert (1, [7], demo_record) (l_net ?l)\<rparr>)"
    by (rule link_step.send [where u = 5]) (simp_all add: demo_window_eq)
  ultimately show ?thesis unfolding demo_link_def by (metis (no_types, lifting) link.select_convs(3) link.update_convs(1,3) link_reach.step)
qed

lemma demo_received:
  obtains w where "record_authenticated toy_crypto 1 [7] demo_record demo_new = Inr w" "window_inv toy_crypto w"
    "cov_set (w_received w) = {1}" "cov_hi (w_received w) = 1"
    "(1, \<lparr>re_authority = authority_new toy_crypto (arr_fill 1) (cr_sha256 toy_crypto [7]) (arr_fill 3), re_cached = None\<rparr>) \<in> set (w_rx w)"
proof -
  have inv: "window_inv toy_crypto demo_new" by (rule window_new_inv [OF demo_new_eq])
  have "cov_accept 1 cov_default = Inr \<lparr>cov_floor = 1, cov_mask = 0\<rparr>" by code_simp
  moreover have "cov_highest \<lparr>cov_floor = 1, cov_mask = 0\<rparr> = Inr 1" by code_simp
  ultimately have r: "record_authenticated toy_crypto 1 [7] demo_record demo_new = Inr (demo_new\<lparr>
      w_received := \<lparr>cov_floor = 1, cov_mask = 0\<rparr>,
      w_rx := [(1, \<lparr>re_authority = authority_new toy_crypto (arr_fill 1) (cr_sha256 toy_crypto [7]) (arr_fill 3), re_cached = None\<rparr>)]\<rparr>)"
    by (simp add: record_authenticated_def demo_new_def demo_record_def MAX_MESSAGE_def saturating_sub_def Let_def
        word_le_nat_alt)
  show ?thesis
    by (rule that [OF r record_authenticated_inv [OF inv r]]) (simp_all add: cov_set_def cov_hi_def)
qed

theorem credited_only_received_witness:
  "cov_set (w_credited (l_snd demo_link)) \<subseteq> cov_set (w_received (l_rcv demo_link))
   \<and> unat (w_sent (l_snd demo_link)) \<le> 63"
  using credited_only_received [OF toy_crypto_ok demo_link_reach]
  by (simp add: demo_link_def demo_window_def demo_new_def)

theorem credit_synchronises_witness:
  "\<exists>b changed s. accept_credit toy_crypto b demo_window = Inr (changed, s) \<and> cov_set (w_credited s) = {1}"
proof -
  obtain w where w: "record_authenticated toy_crypto 1 [7] demo_record demo_new = Inr w" "window_inv toy_crypto w"
    "cov_set (w_received w) = {1}" "cov_hi (w_received w) = 1"
    "(1, \<lparr>re_authority = authority_new toy_crypto (arr_fill 1) (cr_sha256 toy_crypto [7]) (arr_fill 3), re_cached = None\<rparr>) \<in> set (w_rx w)"
    by (rule demo_received)
  have "link_step toy_crypto demo_link (demo_link\<lparr>l_rcv := w\<rparr>)"
    by (rule link_step.receive [where k = 1 and p = "[7]" and r = demo_record]) (simp_all add: demo_link_def w(1))
  then have reach: "link_reach toy_crypto (demo_link\<lparr>l_rcv := w\<rparr>)" by (rule link_reach.step [OF demo_link_reach])
  obtain b w' where "credit_for_duplicate toy_crypto 1 [7] w = Inr (b, w')"
    using credit_for_duplicate_returns [OF toy_crypto_ok w(2,5), of "[7]"] by (auto simp: MAX_MESSAGE_def)
  then have "credit_for_duplicate toy_crypto 1 [7] (l_rcv (demo_link\<lparr>l_rcv := w\<rparr>)) = Inr (b, w')" by simp
  from credit_synchronises [OF toy_crypto_ok reach this] w(3,4)
  show ?thesis by (auto simp: demo_link_def demo_window_def demo_new_def)
qed

end
