(* ===== verification/Readers.thy ===== *)
theory Readers
  imports Gc_Prelude
begin

text \<open>
  Readers of binary formats, shared by the codecs of \<open>crates/core\<close> and \<open>crates/protocol\<close>. A reader
  takes the input from the cursor on and returns a value with the rest of the input. The equations
  of this theory turn a chain of readers into the shape of the input, so that a decoder and its
  encoder are compared by simplification.
\<close>

text \<open>HMAC-SHA-256 of the \<open>hmac\<close> crate: a key and a message to a tag.\<close>

type_synonym mac_fn = "32 arr \<Rightarrow> bytes \<Rightarrow> 32 arr"

section \<open>Optional readers\<close>

definition rd_arr :: "bytes \<Rightarrow> ('n::len arr \<times> bytes) option" where
  "rd_arr bs = Option.bind (rd LENGTH('n) bs) (\<lambda>(xs, rest). Some (arr_pad xs, rest))"

definition rd_u8 :: "bytes \<Rightarrow> (byte \<times> bytes) option" where
  "rd_u8 bs = (case bs of [] \<Rightarrow> None | b # rest \<Rightarrow> Some (b, rest))"

definition rd_u16 :: "bytes \<Rightarrow> (u16 \<times> bytes) option" where
  "rd_u16 bs = Option.bind (rd 2 bs) (\<lambda>(xs, rest). Some (de16 xs, rest))"

definition rd_u32 :: "bytes \<Rightarrow> (u32 \<times> bytes) option" where
  "rd_u32 bs = Option.bind (rd 4 bs) (\<lambda>(xs, rest). Some (de32 xs, rest))"

definition rd_u64 :: "bytes \<Rightarrow> (u64 \<times> bytes) option" where
  "rd_u64 bs = Option.bind (rd 8 bs) (\<lambda>(xs, rest). Some (de64 xs, rest))"

named_theorems readers \<open>what a reader accepts\<close>

lemma rd_arr_iff [readers]: "rd_arr bs = Some (a, rest) \<longleftrightarrow> bs = list_of a @ rest"
  by (auto simp: rd_arr_def bind_eq_Some_conv)

lemma rd_u8_iff [readers]: "rd_u8 bs = Some (b, rest) \<longleftrightarrow> bs = b # rest"
  by (auto simp: rd_u8_def split: list.splits)

lemma rd_u16_iff [readers]: "rd_u16 bs = Some (a, rest) \<longleftrightarrow> bs = be16 a @ rest"
  by (auto simp: rd_u16_def bind_eq_Some_conv be_de)

lemma rd_u32_iff [readers]: "rd_u32 bs = Some (a, rest) \<longleftrightarrow> bs = be32 a @ rest"
  by (auto simp: rd_u32_def bind_eq_Some_conv be_de)

lemma rd_u64_iff [readers]: "rd_u64 bs = Some (a, rest) \<longleftrightarrow> bs = be64 a @ rest"
  by (auto simp: rd_u64_def bind_eq_Some_conv be_de)

lemma reader_simps:
  "rd_arr (list_of a @ rest) = Some (a, rest)" "rd_u8 (b # rest) = Some (b, rest)" "rd_u16 (be16 h @ rest) = Some (h, rest)"
  "rd_u32 (be32 w @ rest) = Some (w, rest)" "rd_u64 (be64 l @ rest) = Some (l, rest)"
  "rd_arr (list_of a) = Some (a, [])" "rd_u64 (be64 l) = Some (l, [])"
  by (simp_all add: rd_arr_iff rd_u8_iff rd_u16_iff rd_u32_iff rd_u64_iff)

lemma bind_pair_iff [readers]:
  "Option.bind m (\<lambda>(a, rest). k a rest) = Some y \<longleftrightarrow> (\<exists>a rest. m = Some (a, rest) \<and> k a rest = Some y)"
  by (cases m) auto

section \<open>Prefix codecs\<close>

text \<open>
  A self-delimiting codec: the reader returns a value exactly when the input starts with the
  value's encoding. A counted sequence of such values is one again.
\<close>

locale prefix_codec =
  fixes enc :: "'a \<Rightarrow> bytes"
    and dec :: "bytes \<Rightarrow> ('a \<times> bytes) option"
    and valid :: "'a \<Rightarrow> bool"
  assumes dec_iff: "dec bs = Some (x, rest) \<longleftrightarrow> valid x \<and> bs = enc x @ rest"
begin

lemma dec_enc: "valid x \<Longrightarrow> dec (enc x @ rest) = Some (x, rest)"
  by (simp add: dec_iff)

lemma dec_enc_end: "valid x \<Longrightarrow> dec (enc x) = Some (x, [])"
  by (simp add: dec_iff)

lemma enc_prefix_free: "valid x \<Longrightarrow> valid y \<Longrightarrow> enc x @ r = enc y @ s \<longleftrightarrow> x = y \<and> r = s"
  using dec_enc by (metis option.inject prod.inject)

end

fun rd_list :: "(bytes \<Rightarrow> ('a \<times> bytes) option) \<Rightarrow> nat \<Rightarrow> bytes \<Rightarrow> ('a list \<times> bytes) option" where
  "rd_list dec 0 bs = Some ([], bs)"
| "rd_list dec (Suc n) bs =
     Option.bind (dec bs) (\<lambda>(x, rest). Option.bind (rd_list dec n rest) (\<lambda>(xs, rest). Some (x # xs, rest)))"

context prefix_codec
begin

lemma rd_list_iff:
  "rd_list dec n bs = Some (xs, rest) \<longleftrightarrow> length xs = n \<and> list_all valid xs \<and> bs = concat (map enc xs) @ rest"
proof (induction n arbitrary: bs xs)
  case (Suc n)
  then show ?case by (cases xs) (auto simp: bind_pair_iff dec_iff)
qed auto

lemma rd_list_enc: "list_all valid xs \<Longrightarrow> rd_list dec (length xs) (concat (map enc xs) @ rest) = Some (xs, rest)"
  by (simp add: rd_list_iff)

end

section \<open>Length-prefixed fields\<close>

definition put16 :: "bytes \<Rightarrow> bytes" where
  "put16 b = be16 (of_nat (length b)) @ b"

definition put32 :: "bytes \<Rightarrow> bytes" where
  "put32 b = be32 (of_nat (length b)) @ b"

definition take16 :: "bytes \<Rightarrow> (bytes \<times> bytes) option" where
  "take16 bs = Option.bind (rd_u16 bs) (\<lambda>(len, rest). rd (unat len) rest)"

definition take32 :: "bytes \<Rightarrow> (bytes \<times> bytes) option" where
  "take32 bs = Option.bind (rd_u32 bs) (\<lambda>(len, rest). rd (unat len) rest)"

lemma length_eq_unat_iff:
  "length xs = unat (len :: 'a::len word) \<longleftrightarrow> len = of_nat (length xs) \<and> length xs < 2 ^ LENGTH('a)"
  by (metis of_nat_inverse of_nat_unat ucast_id unsigned_less)

interpretation put16: prefix_codec put16 take16 "\<lambda>b. length b < 65536"
proof
  show "take16 bs = Some (x, rest) \<longleftrightarrow> length x < 65536 \<and> bs = put16 x @ rest" for bs x rest
    by (auto simp: take16_def put16_def readers length_eq_unat_iff)
qed

interpretation put32: prefix_codec put32 take32 "\<lambda>b. length b < 4294967296"
proof
  show "take32 bs = Some (x, rest) \<longleftrightarrow> length x < 4294967296 \<and> bs = put32 x @ rest" for bs x rest
    by (auto simp: take32_def put32_def readers length_eq_unat_iff)
qed

section \<open>Text\<close>

text \<open>
  A \<open>String\<close> is its UTF-8 bytes; \<open>String::from_utf8\<close> and \<open>str::from_utf8\<close> accept exactly the
  well-formed sequences (no overlong forms, no surrogates, nothing above U+10FFFF).
\<close>

definition utf8_cont :: "byte \<Rightarrow> bool" where
  "utf8_cont b \<longleftrightarrow> 0x80 \<le> b \<and> b \<le> 0xbf"

fun utf8_valid :: "bytes \<Rightarrow> bool" where
  "utf8_valid [] = True"
| "utf8_valid (a # bs) =
     (if a \<le> 0x7f then utf8_valid bs
      else case bs of
        [] \<Rightarrow> False
      | b # bs1 \<Rightarrow>
          if 0xc2 \<le> a \<and> a \<le> 0xdf then utf8_cont b \<and> utf8_valid bs1
          else case bs1 of
            [] \<Rightarrow> False
          | c # bs2 \<Rightarrow>
              if 0xe0 \<le> a \<and> a \<le> 0xef then
                (if a = 0xe0 then 0xa0 \<le> b \<and> b \<le> 0xbf else if a = 0xed then 0x80 \<le> b \<and> b \<le> 0x9f else utf8_cont b)
                \<and> utf8_cont c \<and> utf8_valid bs2
              else case bs2 of
                [] \<Rightarrow> False
              | d # bs3 \<Rightarrow>
                  if 0xf0 \<le> a \<and> a \<le> 0xf4 then
                    (if a = 0xf0 then 0x90 \<le> b \<and> b \<le> 0xbf else if a = 0xf4 then 0x80 \<le> b \<and> b \<le> 0x8f else utf8_cont b)
                    \<and> utf8_cont c \<and> utf8_cont d \<and> utf8_valid bs3
                  else False)"

definition from_utf8 :: "bytes \<Rightarrow> bytes option" where
  "from_utf8 bs = (if utf8_valid bs then Some bs else None)"

lemma from_utf8_iff [readers]: "from_utf8 bs = Some s \<longleftrightarrow> utf8_valid s \<and> s = bs"
  by (auto simp: from_utf8_def)

lemmas field_readers = readers put16.dec_iff put32.dec_iff

lemmas field_simps = reader_simps put16.dec_enc put16.dec_enc_end put32.dec_enc put32.dec_enc_end from_utf8_def

end
