(* ===== verification/Relay_Cells.thy ===== *)
theory Relay_Cells
  imports Cells Readers
begin

text \<open>
  The relay cells of \<open>crates/protocol/src/relay.rs\<close>: deposits (\<open>RELAY_PUSH\<close>), subscriptions
  (\<open>RELAY_SUB\<close>) and forwarding envelopes (\<open>FRWD\<close>), each authenticated by HMAC-SHA-256 under a
  capability, and the policy on forwarding targets. HMAC is the parameter \<open>hmac\<close>; creating one
  from a 32-byte key never fails, so the corresponding error branch is absent. Socket addresses are
  those \<open>SocketAddr::new\<close> builds (flow information and scope zero). The two CIDR constructors of
  the policy are not modelled: they parse address text.
\<close>

unbundle bit_operations_syntax

section \<open>Addresses and targets\<close>

datatype ip_addr = V4 "4 arr" | V6 "16 arr"

record socket_addr =
  sa_ip :: ip_addr
  sa_port :: u16

record relay_target =
  rt_address :: socket_addr
  rt_service :: "32 arr"

datatype relay_error =
    WrongCellType | NonCanonicalCell | RMalformed | TrailingBytes | InvalidMac
  | Expired u64 u64 | InnerNotMsg | InnerNotRelayPush | CellTooLarge | InvalidTarget | NonCanonicalTarget

definition RELAY_PUSH_DOMAIN :: bytes where "RELAY_PUSH_DOMAIN = lit ''GC1/RELAY-PUSH'' @ [0]"
definition RELAY_SUB_DOMAIN :: bytes where "RELAY_SUB_DOMAIN = lit ''GC1/RELAY-SUB'' @ [0]"
definition FRWD_DOMAIN :: bytes where "FRWD_DOMAIN = lit ''GC1/FRWD'' @ [0]"
definition RELAY_SUBSCRIBE :: byte where "RELAY_SUBSCRIBE = 5"
definition TARGET_LEN :: nat where "TARGET_LEN = 51"
definition MAX_MSG_NATURAL_LEN :: nat where "MAX_MSG_NATURAL_LEN = 15366"
definition RELAY_PUSH_FIXED_LEN :: nat where "RELAY_PUSH_FIXED_LEN = 99"
definition RELAY_SUB_LEN :: nat where "RELAY_SUB_LEN = 98"
definition FRWD_FIXED_LEN :: nat where "FRWD_FIXED_LEN = 110"
definition MAX_RELAY_PUSH_NATURAL_LEN :: nat where
  "MAX_RELAY_PUSH_NATURAL_LEN = HEADER_LEN + RELAY_PUSH_FIXED_LEN + MAX_MSG_NATURAL_LEN"

lemmas relay_consts = TARGET_LEN_def MAX_MSG_NATURAL_LEN_def RELAY_PUSH_FIXED_LEN_def RELAY_SUB_LEN_def
  FRWD_FIXED_LEN_def MAX_RELAY_PUSH_NATURAL_LEN_def HEADER_LEN_def

record private_target =
  pt_network :: ip_addr
  pt_prefix :: byte
  pt_port :: "u16 option"

record target_policy =
  tp_allow_local_fixture :: bool
  tp_private_targets :: "private_target list"

definition target_policy_new :: "bool \<Rightarrow> target_policy" where
  "target_policy_new allow_local_fixture =
     \<lparr>tp_allow_local_fixture = allow_local_fixture, tp_private_targets = []\<rparr>"

text \<open>\<open>IpAddr::is_unspecified\<close> and \<open>is_multicast\<close> of the standard library.\<close>

fun ip_is_unspecified :: "ip_addr \<Rightarrow> bool" where
  "ip_is_unspecified (V4 a) = (a = arr_fill 0)"
| "ip_is_unspecified (V6 a) = (a = arr_fill 0)"

fun ip_is_multicast :: "ip_addr \<Rightarrow> bool" where
  "ip_is_multicast (V4 a) = (224 \<le> list_of a ! 0 \<and> list_of a ! 0 \<le> 239)"
| "ip_is_multicast (V6 a) = (list_of a ! 0 = 255)"

definition allow_exact_address :: "socket_addr \<Rightarrow> target_policy \<Rightarrow> target_policy option" where
  "allow_exact_address address p =
     (if sa_port address = 0 \<or> ip_is_unspecified (sa_ip address) \<or> ip_is_multicast (sa_ip address) then None
      else Some (p\<lparr>tp_private_targets := tp_private_targets p @
        [\<lparr>pt_network = sa_ip address,
          pt_prefix = (case sa_ip address of V4 _ \<Rightarrow> 32 | V6 _ \<Rightarrow> 128), pt_port = Some (sa_port address)\<rparr>]\<rparr>))"

text \<open>\<open>u32::from\<close> and \<open>u128::from\<close> an address, and the prefix test.\<close>

definition prefix_mask32 :: "byte \<Rightarrow> 32 word" where
  "prefix_mask32 prefix = (if prefix = 0 then 0 else push_bit (unat (32 - prefix)) (- 1))"

definition prefix_mask128 :: "byte \<Rightarrow> 128 word" where
  "prefix_mask128 prefix = (if prefix = 0 then 0 else push_bit (unat (128 - prefix)) (- 1))"

fun private_contains :: "private_target \<Rightarrow> ip_addr \<Rightarrow> bool" where
  "private_contains t address =
     (case (pt_network t, address) of
        (V4 network, V4 a) \<Rightarrow>
          of_nat (of_be (list_of network)) AND prefix_mask32 (pt_prefix t) = of_nat (of_be (list_of a)) AND prefix_mask32 (pt_prefix t)
      | (V6 network, V6 a) \<Rightarrow>
          of_nat (of_be (list_of network)) AND prefix_mask128 (pt_prefix t) = of_nat (of_be (list_of a)) AND prefix_mask128 (pt_prefix t)
      | _ \<Rightarrow> False)"

definition ipv4_global :: "byte \<Rightarrow> byte \<Rightarrow> byte \<Rightarrow> bool" where
  "ipv4_global a b c \<longleftrightarrow>
     \<not> (a = 0 \<or> a = 10 \<or> a = 127
        \<or> (a = 100 \<and> 64 \<le> b \<and> b \<le> 127)
        \<or> (a = 169 \<and> b = 254)
        \<or> (a = 172 \<and> 16 \<le> b \<and> b \<le> 31)
        \<or> (a = 192 \<and> b = 0 \<and> c = 0)
        \<or> (a = 192 \<and> b = 0 \<and> c = 2)
        \<or> (a = 192 \<and> b = 88 \<and> c = 99)
        \<or> (a = 192 \<and> b = 168)
        \<or> (a = 198 \<and> (b = 18 \<or> b = 19))
        \<or> (a = 198 \<and> b = 51 \<and> c = 100)
        \<or> (a = 203 \<and> b = 0 \<and> c = 113)
        \<or> 224 \<le> a)"

fun is_ordinary_global :: "ip_addr \<Rightarrow> bool" where
  "is_ordinary_global (V4 ip) = ipv4_global (list_of ip ! 0) (list_of ip ! 1) (list_of ip ! 2)"
| "is_ordinary_global (V6 ip) =
     (let octets = list_of ip; segment0 = de16 (sub_list octets 0 2); segment1 = de16 (sub_list octets 2 4)
      in segment0 AND 0xe000 = 0x2000
         \<and> \<not> (segment0 = 0x2001
              \<and> (segment1 = 0x0002 \<or> segment1 = 0x000d \<or> (0x0010 \<le> segment1 \<and> segment1 \<le> 0x002f) \<or> segment1 = 0x0db8))
         \<and> segment0 \<noteq> 0x2002
         \<and> \<not> (segment0 = 0x3fff \<and> octets ! 2 < 0x10)
         \<and> \<not> (take 10 octets = replicate 10 0 \<and> sub_list octets 10 12 = [255, 255]))"

definition policy_permits :: "target_policy \<Rightarrow> relay_target \<Rightarrow> bool" where
  "policy_permits p target \<longleftrightarrow>
     tp_allow_local_fixture p
     \<or> is_ordinary_global (sa_ip (rt_address target))
     \<or> (\<exists>allowed \<in> set (tp_private_targets p).
           (case pt_port allowed of None \<Rightarrow> True | Some port \<Rightarrow> port = sa_port (rt_address target))
           \<and> private_contains allowed (sa_ip (rt_address target)))"

definition validate_frwd_target_with_policy :: "relay_target \<Rightarrow> target_policy \<Rightarrow> relay_error + unit" where
  "validate_frwd_target_with_policy target policy =
     reject (sa_port (rt_address target) = 0) InvalidTarget
       (if policy_permits policy target then Inr () else Inl InvalidTarget)"

text \<open>The family byte and the sixteen address bytes of a target.\<close>

fun ip_bytes :: "ip_addr \<Rightarrow> bytes" where
  "ip_bytes (V4 a) = 4 # list_of a @ replicate 12 0"
| "ip_bytes (V6 a) = 6 # list_of a"

definition target_encode :: "relay_target \<Rightarrow> bytes" where
  "target_encode t = ip_bytes (sa_ip (rt_address t)) @ be16 (sa_port (rt_address t)) @ list_of (rt_service t)"

definition target_decode :: "bytes \<Rightarrow> relay_error + relay_target" where
  "target_decode encoded =
     reject (length encoded \<noteq> TARGET_LEN) RMalformed (
     rbind (if encoded ! 0 = 4 then
              (if \<exists>b \<in> set (sub_list encoded 5 17). b \<noteq> 0 then Inl NonCanonicalTarget
               else Inr (V4 (arr_pad (sub_list encoded 1 5))))
            else if encoded ! 0 = 6 then Inr (V6 (arr_pad (sub_list encoded 1 17)))
            else Inl NonCanonicalTarget) (\<lambda>ip.
     Inr \<lparr>rt_address = \<lparr>sa_ip = ip, sa_port = de16 (sub_list encoded 17 19)\<rparr>,
          rt_service = arr_pad (drop 19 encoded)\<rparr>))"

section \<open>Natural cells inside relay payloads\<close>

definition natural_length :: "cell \<Rightarrow> nat \<Rightarrow> relay_error + nat" where
  "natural_length c max_len =
     reject (c_version c \<noteq> PROTOCOL_VERSION \<or> c_flags c AND NOT 3 \<noteq> 0
        \<or> cell_type_from_raw (c_raw_type c) = None) NonCanonicalCell (
     let natural_len = HEADER_LEN + length (c_payload c) in
     reject (max_len < natural_len \<or> 65535 < length (c_payload c)) CellTooLarge (Inr natural_len))"

definition natural_bytes :: "cell \<Rightarrow> bytes" where
  "natural_bytes c =
     [push_bit 4 (c_version c) OR c_raw_type c, c_flags c] @ be16 (c_round_ctr c)
     @ be16 (of_nat (length (c_payload c))) @ c_payload c"

definition encode_natural :: "cell \<Rightarrow> nat \<Rightarrow> relay_error + bytes" where
  "encode_natural c max_len =
     rbind (natural_length c max_len) (\<lambda>_.
     reject (65535 < length (c_payload c)) CellTooLarge
       (Inr (natural_bytes c)))"

definition inner_type_error :: "cell_type \<Rightarrow> relay_error" where
  "inner_type_error expected =
     (case expected of Msg \<Rightarrow> InnerNotMsg | RelayPush \<Rightarrow> InnerNotRelayPush | _ \<Rightarrow> WrongCellType)"

definition validate_natural :: "bytes \<Rightarrow> cell_type \<Rightarrow> relay_error + unit" where
  "validate_natural encoded expected =
     reject (length encoded < HEADER_LEN) RMalformed (
     let version = drop_bit 4 (encoded ! 0); raw_type = encoded ! 0 AND 15 in
     reject (raw_type \<noteq> cell_type_raw expected) (inner_type_error expected) (
     reject (version \<noteq> PROTOCOL_VERSION \<or> encoded ! 1 AND NOT 3 \<noteq> 0) NonCanonicalCell (
     let expected_len = HEADER_LEN + unat (de16 (sub_list encoded 4 6)) in
     if length encoded < expected_len then Inl RMalformed
     else if expected_len < length encoded then Inl TrailingBytes
     else Inr ())))"

definition decode_validated_natural :: "bytes \<Rightarrow> cell" where
  "decode_validated_natural encoded =
     \<lparr>c_version = drop_bit 4 (encoded ! 0), c_raw_type = encoded ! 0 AND 15, c_flags = encoded ! 1,
      c_round_ctr = de16 (sub_list encoded 2 4), c_payload = drop HEADER_LEN encoded\<rparr>"

definition decode_msg_natural :: "bytes \<Rightarrow> relay_error + cell" where
  "decode_msg_natural encoded =
     rbind (validate_natural encoded Msg) (\<lambda>_. Inr (decode_validated_natural encoded))"

definition decode_relay_push_natural :: "bytes \<Rightarrow> relay_error + cell" where
  "decode_relay_push_natural encoded =
     rbind (validate_natural encoded RelayPush) (\<lambda>_. Inr (decode_validated_natural encoded))"

definition require_outer :: "cell \<Rightarrow> cell_type \<Rightarrow> relay_error + unit" where
  "require_outer c expected =
     reject (cell_type_of c \<noteq> Some expected) WrongCellType
       (reject (c_version c \<noteq> PROTOCOL_VERSION \<or> c_flags c \<noteq> 0) NonCanonicalCell (Inr ()))"

definition reject_expired :: "u64 \<Rightarrow> u64 \<Rightarrow> relay_error + unit" where
  "reject_expired expires_unix now_unix =
     (if expires_unix \<le> now_unix then Inl (Expired expires_unix now_unix) else Inr ())"

definition validate_message :: "cell \<Rightarrow> relay_error + unit" where
  "validate_message c =
     reject (cell_type_of c \<noteq> Some Msg) InnerNotMsg
       (rbind (natural_length c MAX_MSG_NATURAL_LEN) (\<lambda>_. Inr ()))"

definition encode_msg_natural :: "cell \<Rightarrow> relay_error + bytes" where
  "encode_msg_natural c = rbind (validate_message c) (\<lambda>_. encode_natural c MAX_MSG_NATURAL_LEN)"

section \<open>Deposits\<close>

record relay_push =
  rp_queue_id :: "32 arr"
  rp_epoch :: u64
  rp_nonce :: "16 arr"
  rp_expiry :: u64
  rp_msg :: "cell option"

record push_parts =
  pp_queue_id :: "32 arr"
  pp_epoch :: u64
  pp_nonce :: "16 arr"
  pp_expiry :: u64
  pp_msg_len :: u16
  pp_msg_natural :: bytes
  pp_tag :: bytes

definition parse_push_payload :: "bytes \<Rightarrow> relay_error + push_parts" where
  "parse_push_payload payload =
     reject (RELAY_PUSH_FIXED_LEN + MAX_MSG_NATURAL_LEN < length payload) CellTooLarge (
     reject (length payload < RELAY_PUSH_FIXED_LEN) RMalformed (
     reject (payload ! 0 \<noteq> PROTOCOL_VERSION) NonCanonicalCell (
     let msg_len = de16 (sub_list payload 65 67) in
     reject (msg_len \<noteq> 0 \<and> unat msg_len < HEADER_LEN) RMalformed (
     reject (MAX_MSG_NATURAL_LEN < unat msg_len) CellTooLarge (
     let expected_len = RELAY_PUSH_FIXED_LEN + unat msg_len in
     if length payload < expected_len then Inl RMalformed
     else if expected_len < length payload then Inl TrailingBytes
     else
       let msg_end = 67 + unat msg_len in
       rbind (if msg_len \<noteq> 0 then validate_natural (sub_list payload 67 msg_end) Msg else Inr ()) (\<lambda>_.
       Inr \<lparr>pp_queue_id = arr_pad (sub_list payload 1 33), pp_epoch = de64 (sub_list payload 33 41),
            pp_nonce = arr_pad (sub_list payload 41 57), pp_expiry = de64 (sub_list payload 57 65),
            pp_msg_len = msg_len, pp_msg_natural = sub_list payload 67 msg_end,
            pp_tag = drop msg_end payload\<rparr>))))))"

text \<open>The bytes the deposit's tag authenticates, common to \<open>relay_push_tag\<close> and \<open>verify_relay_push_tag\<close>.\<close>

definition push_mac_input :: "32 arr \<Rightarrow> 32 arr \<Rightarrow> u64 \<Rightarrow> 16 arr \<Rightarrow> u64 \<Rightarrow> u16 \<Rightarrow> bytes \<Rightarrow> bytes" where
  "push_mac_input relay_service_id queue_id epoch nonce expiry msg_len msg_natural =
     RELAY_PUSH_DOMAIN @ [PROTOCOL_VERSION] @ list_of relay_service_id @ list_of queue_id @ be64 epoch
     @ [cell_type_raw RelayPush] @ list_of nonce @ be64 expiry @ be16 msg_len @ msg_natural"

definition relay_push_tag :: "mac_fn \<Rightarrow> 32 arr \<Rightarrow> 32 arr \<Rightarrow> relay_push \<Rightarrow> u16 \<Rightarrow> bytes \<Rightarrow> 32 arr" where
  "relay_push_tag hmac key relay_service_id p msg_len msg_natural =
     hmac key (push_mac_input relay_service_id (rp_queue_id p) (rp_epoch p) (rp_nonce p) (rp_expiry p) msg_len msg_natural)"

definition verify_relay_push_tag :: "mac_fn \<Rightarrow> 32 arr \<Rightarrow> 32 arr \<Rightarrow> push_parts \<Rightarrow> relay_error + unit" where
  "verify_relay_push_tag hmac key relay_service_id parts =
     (if list_of (hmac key (push_mac_input relay_service_id (pp_queue_id parts) (pp_epoch parts) (pp_nonce parts)
           (pp_expiry parts) (pp_msg_len parts) (pp_msg_natural parts))) = pp_tag parts
      then Inr () else Inl InvalidMac)"

definition push_encode_into_cell :: "mac_fn \<Rightarrow> 32 arr \<Rightarrow> 32 arr \<Rightarrow> relay_push \<Rightarrow> relay_error + cell" where
  "push_encode_into_cell hmac push_cap relay_service_id p =
     rbind (case rp_msg p of Some msg \<Rightarrow> encode_msg_natural msg | None \<Rightarrow> Inr []) (\<lambda>msg_natural.
     reject (MAX_MSG_NATURAL_LEN < length msg_natural) CellTooLarge (
     reject (65535 < length msg_natural) CellTooLarge (
     let msg_len = of_nat (length msg_natural) in
     reject (max_payload B3 < RELAY_PUSH_FIXED_LEN + length msg_natural) CellTooLarge
       (Inr (cell_new RelayPush 0 0
          ([PROTOCOL_VERSION] @ list_of (rp_queue_id p) @ be64 (rp_epoch p) @ list_of (rp_nonce p)
           @ be64 (rp_expiry p) @ be16 msg_len @ msg_natural
           @ list_of (relay_push_tag hmac push_cap relay_service_id p msg_len msg_natural)))))))"

definition push_decode_from_cell :: "mac_fn \<Rightarrow> 32 arr \<Rightarrow> 32 arr \<Rightarrow> u64 \<Rightarrow> cell \<Rightarrow> relay_error + relay_push" where
  "push_decode_from_cell hmac push_cap relay_service_id now_unix c =
     rbind (require_outer c RelayPush) (\<lambda>_.
     rbind (parse_push_payload (c_payload c)) (\<lambda>parts.
     rbind (verify_relay_push_tag hmac push_cap relay_service_id parts) (\<lambda>_.
     rbind (reject_expired (pp_expiry parts) now_unix) (\<lambda>_.
     rbind (if pp_msg_len parts = 0 then Inr None
            else rbind (decode_msg_natural (pp_msg_natural parts)) (\<lambda>m. Inr (Some m))) (\<lambda>msg.
     Inr \<lparr>rp_queue_id = pp_queue_id parts, rp_epoch = pp_epoch parts, rp_nonce = pp_nonce parts,
          rp_expiry = pp_expiry parts, rp_msg = msg\<rparr>)))))"

text \<open>\<open>UnauthenticatedRelayPush\<close> is a cell that passed \<open>parse\<close>.\<close>

definition unauthenticated_parse :: "cell \<Rightarrow> relay_error + cell" where
  "unauthenticated_parse c =
     rbind (require_outer c RelayPush) (\<lambda>_. rbind (parse_push_payload (c_payload c)) (\<lambda>_. Inr c))"

section \<open>Subscriptions\<close>

definition push_cover :: "32 arr \<Rightarrow> u64 \<Rightarrow> 16 arr \<Rightarrow> u64 \<Rightarrow> relay_push" where
  "push_cover queue_id epoch nonce expiry =
     \<lparr>rp_queue_id = queue_id, rp_epoch = epoch, rp_nonce = nonce, rp_expiry = expiry, rp_msg = None\<rparr>"

record relay_sub =
  rs_queue_id :: "32 arr"
  rs_epoch :: u64
  rs_expiry :: u64
  rs_nonce :: "16 arr"

definition relay_sub_mac :: "mac_fn \<Rightarrow> 32 arr \<Rightarrow> 32 arr \<Rightarrow> relay_sub \<Rightarrow> 32 arr" where
  "relay_sub_mac hmac key relay_service_id s =
     hmac key (RELAY_SUB_DOMAIN @ [PROTOCOL_VERSION] @ list_of relay_service_id @ list_of (rs_queue_id s)
       @ be64 (rs_epoch s) @ [RELAY_SUBSCRIBE] @ be64 (rs_expiry s) @ list_of (rs_nonce s) @ be16 0)"

definition sub_encode_into_cell :: "mac_fn \<Rightarrow> 32 arr \<Rightarrow> 32 arr \<Rightarrow> relay_sub \<Rightarrow> cell" where
  "sub_encode_into_cell hmac sub_cap relay_service_id s =
     cell_new RelaySub 0 0
       ([PROTOCOL_VERSION, RELAY_SUBSCRIBE] @ list_of (rs_queue_id s) @ be64 (rs_epoch s) @ be64 (rs_expiry s)
        @ list_of (rs_nonce s) @ list_of (relay_sub_mac hmac sub_cap relay_service_id s))"

definition sub_decode_from_cell :: "mac_fn \<Rightarrow> 32 arr \<Rightarrow> 32 arr \<Rightarrow> u64 \<Rightarrow> cell \<Rightarrow> relay_error + relay_sub" where
  "sub_decode_from_cell hmac sub_cap relay_service_id now_unix c =
     rbind (require_outer c RelaySub) (\<lambda>_.
     let payload = c_payload c in
     if length payload < RELAY_SUB_LEN then Inl RMalformed
     else if RELAY_SUB_LEN < length payload then Inl TrailingBytes
     else reject (payload ! 0 \<noteq> PROTOCOL_VERSION \<or> payload ! 1 \<noteq> RELAY_SUBSCRIBE) NonCanonicalCell (
       let s = \<lparr>rs_queue_id = arr_pad (sub_list payload 2 34), rs_epoch = de64 (sub_list payload 34 42),
                rs_expiry = de64 (sub_list payload 42 50), rs_nonce = arr_pad (sub_list payload 50 66)\<rparr> in
       reject (list_of (relay_sub_mac hmac sub_cap relay_service_id s) \<noteq> drop 66 payload) InvalidMac (
       rbind (reject_expired (rs_expiry s) now_unix) (\<lambda>_. Inr s))))"

section \<open>Forwarding envelopes\<close>

record frwd =
  fw_target :: relay_target
  fw_expiry :: u64
  fw_push :: "cell option"
  fw_nonce :: "16 arr"

text \<open>The queue, epoch and expiry of the nested deposit, \<open>self.parts()\<close>.\<close>

definition nested_parts :: "cell \<Rightarrow> push_parts option" where
  "nested_parts c = (case parse_push_payload (c_payload c) of Inl _ \<Rightarrow> None | Inr p \<Rightarrow> Some p)"

definition frwd_mac_input :: "32 arr \<Rightarrow> frwd \<Rightarrow> bytes \<Rightarrow> u16 \<Rightarrow> bytes" where
  "frwd_mac_input intermediary_service_id f push_natural push_len =
     (let (queue_id, epoch) = (case Option.bind (fw_push f) nested_parts of
            Some parts \<Rightarrow> (pp_queue_id parts, pp_epoch parts) | None \<Rightarrow> (arr_fill 0, 0))
      in FRWD_DOMAIN @ [PROTOCOL_VERSION] @ list_of intermediary_service_id @ list_of (rt_service (fw_target f))
         @ list_of queue_id @ be64 epoch @ [cell_type_raw Frwd] @ be64 (fw_expiry f) @ list_of (fw_nonce f)
         @ be16 push_len @ push_natural)"

definition encode_relay_push_natural :: "cell \<Rightarrow> relay_error + bytes" where
  "encode_relay_push_natural c =
     rbind (require_outer c RelayPush) (\<lambda>_.
     rbind (parse_push_payload (c_payload c)) (\<lambda>_. encode_natural c MAX_RELAY_PUSH_NATURAL_LEN))"

definition frwd_encode_into_cell_with_policy ::
  "mac_fn \<Rightarrow> 32 arr \<Rightarrow> 32 arr \<Rightarrow> target_policy \<Rightarrow> frwd \<Rightarrow> relay_error + cell" where
  "frwd_encode_into_cell_with_policy hmac hop_key intermediary_service_id policy f =
     rbind (validate_frwd_target_with_policy (fw_target f) policy) (\<lambda>_.
     rbind (case fw_push f of Some push \<Rightarrow> encode_relay_push_natural push | None \<Rightarrow> Inr []) (\<lambda>push_natural.
     reject (MAX_RELAY_PUSH_NATURAL_LEN < length push_natural) CellTooLarge (
     reject (65535 < length push_natural) CellTooLarge (
     let push_len = of_nat (length push_natural) in
     reject (max_payload B3 < FRWD_FIXED_LEN + length push_natural) CellTooLarge
       (Inr (cell_new Frwd 0 0
          ([PROTOCOL_VERSION] @ target_encode (fw_target f) @ be64 (fw_expiry f) @ be16 push_len @ push_natural
           @ list_of (fw_nonce f)
           @ list_of (hmac hop_key (frwd_mac_input intermediary_service_id f push_natural push_len)))))))))"

text \<open>The nested deposit of a decoded forward, and the check of its expiry.\<close>

definition decode_nested_push :: "bytes \<Rightarrow> relay_error + cell option" where
  "decode_nested_push push_natural =
     (if length push_natural = 0 then Inr None
      else rbind (decode_relay_push_natural push_natural) (\<lambda>nested.
           rbind (unauthenticated_parse nested) (\<lambda>u. Inr (Some u))))"

definition reject_nested_expired :: "frwd \<Rightarrow> u64 \<Rightarrow> relay_error + unit" where
  "reject_nested_expired f now_unix =
     (case Option.bind (fw_push f) nested_parts of
        Some parts \<Rightarrow> reject_expired (pp_expiry parts) now_unix | None \<Rightarrow> Inr ())"

definition frwd_decode_from_cell_with_policy ::
  "mac_fn \<Rightarrow> 32 arr \<Rightarrow> 32 arr \<Rightarrow> u64 \<Rightarrow> target_policy \<Rightarrow> cell \<Rightarrow> relay_error + frwd" where
  "frwd_decode_from_cell_with_policy hmac hop_key intermediary_service_id now_unix policy c =
     rbind (require_outer c Frwd) (\<lambda>_.
     let payload = c_payload c in
     reject (max_payload B3 < length payload) CellTooLarge (
     reject (length payload < FRWD_FIXED_LEN) RMalformed (
     reject (payload ! 0 \<noteq> PROTOCOL_VERSION) NonCanonicalCell (
     rbind (target_decode (sub_list payload 1 52)) (\<lambda>target.
     let frwd_expiry = de64 (sub_list payload 52 60); push_len = unat (de16 (sub_list payload 60 62)) in
     reject (MAX_RELAY_PUSH_NATURAL_LEN < push_len) CellTooLarge (
     let expected_len = FRWD_FIXED_LEN + push_len in
     if length payload < expected_len then Inl RMalformed
     else if expected_len < length payload then Inl TrailingBytes
     else
       let push_end = 62 + push_len in
       rbind (decode_nested_push (sub_list payload 62 push_end)) (\<lambda>relay_push.
       let f = \<lparr>fw_target = target, fw_expiry = frwd_expiry, fw_push = relay_push,
                fw_nonce = arr_pad (sub_list payload push_end (push_end + 16))\<rparr> in
       reject (list_of (hmac hop_key (frwd_mac_input intermediary_service_id f (sub_list payload 62 push_end) (of_nat push_len)))
               \<noteq> drop (push_end + 16) payload) InvalidMac (
       rbind (reject_expired (fw_expiry f) now_unix) (\<lambda>_.
       rbind (reject_nested_expired f now_unix) (\<lambda>_.
       rbind (validate_frwd_target_with_policy (fw_target f) policy) (\<lambda>_.
       Inr f)))))))))))"

section \<open>The natural codec\<close>

definition natural_valid :: "cell_type \<Rightarrow> cell \<Rightarrow> bool" where
  "natural_valid k c \<longleftrightarrow>
     c_version c = PROTOCOL_VERSION \<and> c_raw_type c = cell_type_raw k \<and> c_flags c AND NOT 3 = 0
     \<and> length (c_payload c) \<le> 65535"

lemma length_natural_bytes [simp]: "length (natural_bytes c) = 6 + length (c_payload c)"
  by (simp add: natural_bytes_def)

lemma natural_bytes_not_Nil [simp]: "natural_bytes c \<noteq> []"
  by (simp add: natural_bytes_def)

lemma natural_bytes_parts:
  assumes "natural_valid k c"
  shows "drop_bit 4 (natural_bytes c ! 0) = 1" "natural_bytes c ! 0 AND 15 = cell_type_raw k"
    "natural_bytes c ! 1 = c_flags c" "sub_list (natural_bytes c) 2 4 = be16 (c_round_ctr c)"
    "sub_list (natural_bytes c) 4 6 = be16 (of_nat (length (c_payload c)))"
    "drop 6 (natural_bytes c) = c_payload c"
  using assms drop_bit_4_nibbles [of 1 "cell_type_raw k"] take_bit_4_nibbles [of 1 "cell_type_raw k"]
  by (simp_all add: natural_bytes_def natural_valid_def PROTOCOL_VERSION_def and_15 sub_list_def)

lemma validate_natural_bytes:
  assumes "natural_valid k c"
  shows "validate_natural (natural_bytes c) k = Inr ()" "decode_validated_natural (natural_bytes c) = c"
  using assms natural_bytes_parts [OF assms]
  by (simp_all add: validate_natural_def decode_validated_natural_def HEADER_LEN_def PROTOCOL_VERSION_def
      unat_of_nat_u16 natural_valid_def)

lemma validate_naturalD:
  assumes "validate_natural e k = Inr ()"
  shows "natural_valid k (decode_validated_natural e)" "natural_bytes (decode_validated_natural e) = e"
proof -
  from assms have e: "6 \<le> length e" "drop_bit 4 (e ! 0) = 1" "e ! 0 AND 15 = cell_type_raw k" "e ! 1 AND NOT 3 = 0"
    "length e = 6 + unat (de16 (sub_list e 4 6))"
    by (auto simp: validate_natural_def HEADER_LEN_def PROTOCOL_VERSION_def Let_def split: if_splits)
  have u: "unat (de16 (sub_list e 4 6)) < 65536"
    using unsigned_less [of "de16 (sub_list e 4 6)", where 'a = nat] by simp
  then show "natural_valid k (decode_validated_natural e)"
    using e by (simp add: natural_valid_def decode_validated_natural_def PROTOCOL_VERSION_def HEADER_LEN_def)
  have "be16 (of_nat (length e - 6)) = sub_list e 4 6" using e by (simp add: be_de)
  moreover have "push_bit 4 1 OR cell_type_raw k = e ! 0"
    using nibbles_join [of "e ! 0"] e(2,3) by (simp add: and_15)
  ultimately have "natural_bytes (decode_validated_natural e) = [e ! 0, e ! 1] @ sub_list e 2 4 @ sub_list e 4 6 @ drop 6 e"
    using e(1-3) by (simp add: natural_bytes_def decode_validated_natural_def HEADER_LEN_def be_de)
  also have "\<dots> = e" using e(1) by (simp add: sub_list_drop drop_2_Cons [simplified])
  finally show "natural_bytes (decode_validated_natural e) = e" .
qed

lemma validate_natural_iff:
  "validate_natural e k = Inr () \<longleftrightarrow> (\<exists>c. natural_valid k c \<and> e = natural_bytes c)"
  using validate_natural_bytes validate_naturalD by metis

lemma encode_natural_iff:
  assumes "m \<le> 65541"
  shows "encode_natural c m = Inr e \<and> c_raw_type c = cell_type_raw k
    \<longleftrightarrow> natural_valid k c \<and> length e \<le> m \<and> e = natural_bytes c"
  using assms by (auto simp: encode_natural_def natural_length_def natural_valid_def Let_def HEADER_LEN_def not_less)

lemma encode_msg_natural_iff:
  "encode_msg_natural c = Inr e \<longleftrightarrow> natural_valid Msg c \<and> length e \<le> MAX_MSG_NATURAL_LEN \<and> e = natural_bytes c"
  using encode_natural_iff [of MAX_MSG_NATURAL_LEN c e Msg]
  by (auto simp: encode_msg_natural_def validate_message_def cell_type_of_def cell_type_from_raw_Some
      natural_length_def natural_valid_def MAX_MSG_NATURAL_LEN_def HEADER_LEN_def Let_def intro: exI [of _ Msg])

section \<open>Deposits: parsing is canonical\<close>

definition push_bytes :: "push_parts \<Rightarrow> bytes" where
  "push_bytes p =
     [PROTOCOL_VERSION] @ list_of (pp_queue_id p) @ be64 (pp_epoch p) @ list_of (pp_nonce p)
     @ be64 (pp_expiry p) @ be16 (pp_msg_len p) @ pp_msg_natural p @ pp_tag p"

definition push_parts_ok :: "push_parts \<Rightarrow> bool" where
  "push_parts_ok p \<longleftrightarrow>
     length (pp_tag p) = 32 \<and> length (pp_msg_natural p) = unat (pp_msg_len p)
     \<and> length (pp_msg_natural p) \<le> MAX_MSG_NATURAL_LEN
     \<and> (pp_msg_natural p \<noteq> [] \<longrightarrow> validate_natural (pp_msg_natural p) Msg = Inr ())"

lemma push_bytes_parts:
  assumes "push_parts_ok p"
  shows "push_bytes p ! 0 = PROTOCOL_VERSION" "length (push_bytes p) = 99 + unat (pp_msg_len p)"
    "sub_list (push_bytes p) 1 33 = list_of (pp_queue_id p)" "sub_list (push_bytes p) 33 41 = be64 (pp_epoch p)"
    "sub_list (push_bytes p) 41 57 = list_of (pp_nonce p)" "sub_list (push_bytes p) 57 65 = be64 (pp_expiry p)"
    "sub_list (push_bytes p) 65 67 = be16 (pp_msg_len p)"
    "sub_list (push_bytes p) 67 (67 + unat (pp_msg_len p)) = pp_msg_natural p"
    "drop (67 + unat (pp_msg_len p)) (push_bytes p) = pp_tag p"
  using assms by (simp_all add: push_bytes_def push_parts_ok_def sub_list_def drop_Cons')

lemma validate_natural_len: "validate_natural e k = Inr () \<Longrightarrow> 6 \<le> length e"
  by (auto simp: validate_natural_iff)

lemma parse_push_bytes:
  assumes "push_parts_ok p"
  shows "parse_push_payload (push_bytes p) = Inr p"
proof (cases "pp_msg_natural p = []")
  case True
  with assms push_bytes_parts [OF assms] show ?thesis
    by (simp add: parse_push_payload_def relay_consts push_parts_ok_def Let_def unat_eq_0)
next
  case False
  with assms push_bytes_parts [OF assms] validate_natural_len [of "pp_msg_natural p" Msg] show ?thesis
    by (simp add: parse_push_payload_def relay_consts push_parts_ok_def Let_def)
qed

lemma drop_1_Cons: "0 < length w \<Longrightarrow> w ! 0 # drop (Suc 0) w = w"
  by (cases w) simp_all

lemma parse_pushD:
  assumes "parse_push_payload w = Inr p"
  shows "push_parts_ok p \<and> push_bytes p = w"
proof -
  let ?m = "unat (de16 (sub_list w 65 67))"
  from assms have w: "length w = 99 + ?m" "w ! 0 = PROTOCOL_VERSION" "?m \<le> MAX_MSG_NATURAL_LEN"
    "?m \<noteq> 0 \<Longrightarrow> validate_natural (sub_list w 67 (67 + ?m)) Msg = Inr ()"
    and p: "p = \<lparr>pp_queue_id = arr_pad (sub_list w 1 33), pp_epoch = de64 (sub_list w 33 41),
            pp_nonce = arr_pad (sub_list w 41 57), pp_expiry = de64 (sub_list w 57 65),
            pp_msg_len = de16 (sub_list w 65 67), pp_msg_natural = sub_list w 67 (67 + ?m), pp_tag = drop (67 + ?m) w\<rparr>"
    by (auto simp: parse_push_payload_def relay_consts Let_def unat_eq_0 split: if_splits)
  have "push_bytes p = [w ! 0] @ sub_list w 1 33 @ sub_list w 33 41 @ sub_list w 41 57 @ sub_list w 57 65 @ sub_list w 65 67
     @ sub_list w 67 (67 + ?m) @ drop (67 + ?m) w"
    using w(1,2) by (simp add: push_bytes_def p be_de)
  also have "\<dots> = w" using w(1) drop_1_Cons [of w] by (simp add: sub_list_drop)
  finally have "push_bytes p = w" .
  moreover have "?m \<noteq> 0" if "sub_list w 67 (67 + ?m) \<noteq> []"
    using that w(1) by (simp flip: length_greater_0_conv)
  ultimately show ?thesis using w by (simp add: push_parts_ok_def p)
qed

lemma parse_push_iff: "parse_push_payload w = Inr p \<longleftrightarrow> push_parts_ok p \<and> push_bytes p = w"
  using parse_push_bytes parse_pushD by blast

section \<open>Deposits, subscriptions and forwards: encoding and decoding\<close>

lemma require_outer_iff:
  "require_outer c k = Inr () \<longleftrightarrow>
     c_version c = PROTOCOL_VERSION \<and> c_raw_type c = cell_type_raw k \<and> c_flags c = 0"
  by (auto simp: require_outer_def cell_type_of_def cell_type_from_raw_Some)

lemma outer_cell_iff:
  "require_outer c k = Inr () \<longleftrightarrow> c = (cell_new k 0 0 (c_payload c))\<lparr>c_round_ctr := c_round_ctr c\<rparr>"
  by (cases c) (simp add: require_outer_iff cell_new_def)

lemma reject_expired_iff: "reject_expired e now = Inr () \<longleftrightarrow> now < e"
  by (auto simp: reject_expired_def not_le)

text \<open>The parts a deposit is written from.\<close>

definition parts_of :: "mac_fn \<Rightarrow> 32 arr \<Rightarrow> 32 arr \<Rightarrow> relay_push \<Rightarrow> push_parts" where
  "parts_of hmac cap sid p =
     (let m = (case rp_msg p of None \<Rightarrow> [] | Some c \<Rightarrow> natural_bytes c)
      in \<lparr>pp_queue_id = rp_queue_id p, pp_epoch = rp_epoch p, pp_nonce = rp_nonce p, pp_expiry = rp_expiry p,
          pp_msg_len = of_nat (length m), pp_msg_natural = m,
          pp_tag = list_of (relay_push_tag hmac cap sid p (of_nat (length m)) m)\<rparr>)"

definition push_ok :: "relay_push \<Rightarrow> bool" where
  "push_ok p \<longleftrightarrow>
     (\<forall>c. rp_msg p = Some c \<longrightarrow> natural_valid Msg c \<and> length (natural_bytes c) \<le> MAX_MSG_NATURAL_LEN)"

lemma push_encode_iff:
  "push_encode_into_cell hmac cap sid p = Inr c
     \<longleftrightarrow> push_ok p \<and> c = cell_new RelayPush 0 0 (push_bytes (parts_of hmac cap sid p))"
  by (auto simp: push_encode_into_cell_def push_ok_def parts_of_def push_bytes_def encode_msg_natural_iff
      relay_consts max_payload_def Let_def split: option.splits)

lemma parts_of_ok: "push_ok p \<Longrightarrow> push_parts_ok (parts_of hmac cap sid p)"
  by (auto simp: push_ok_def push_parts_ok_def parts_of_def Let_def relay_consts unat_of_nat_u16
      validate_natural_bytes simp del: length_natural_bytes split: option.splits)

text \<open>The deposit that parsed parts stand for.\<close>

definition push_of :: "push_parts \<Rightarrow> relay_push" where
  "push_of parts =
     \<lparr>rp_queue_id = pp_queue_id parts, rp_epoch = pp_epoch parts, rp_nonce = pp_nonce parts,
      rp_expiry = pp_expiry parts,
      rp_msg = (if pp_msg_natural parts = [] then None else Some (decode_validated_natural (pp_msg_natural parts)))\<rparr>"

lemma push_of_parts_of: "push_ok p \<Longrightarrow> push_of (parts_of hmac cap sid p) = p"
  by (cases p) (auto simp: push_of_def parts_of_def Let_def push_ok_def validate_natural_bytes
      simp del: length_natural_bytes split: option.splits)

lemma push_of_ok: "push_parts_ok parts \<Longrightarrow> push_ok (push_of parts)"
  by (auto simp: push_parts_ok_def push_ok_def push_of_def validate_naturalD [where k = Msg] simp del: length_natural_bytes)

lemma parts_of_push_of:
  assumes "push_parts_ok parts"
  shows "parts_of hmac cap sid (push_of parts) = parts
    \<longleftrightarrow> verify_relay_push_tag hmac cap sid parts = Inr ()"
proof -
  let ?m = "pp_msg_natural parts"
  have m: "(case rp_msg (push_of parts) of None \<Rightarrow> [] | Some c \<Rightarrow> natural_bytes c) = ?m"
    using assms by (simp add: push_of_def push_parts_ok_def validate_naturalD(2) [where k = Msg])
  have "of_nat (length ?m) = pp_msg_len parts" using assms by (simp add: push_parts_ok_def)
  then show ?thesis unfolding parts_of_def m
    by (cases parts) (auto simp: push_of_def Let_def relay_push_tag_def verify_relay_push_tag_def)
qed

lemma push_decode_parts:
  assumes "require_outer c RelayPush = Inr ()" "parse_push_payload (c_payload c) = Inr parts"
  shows "push_decode_from_cell hmac cap sid now c = Inr p
    \<longleftrightarrow> verify_relay_push_tag hmac cap sid parts = Inr () \<and> now < pp_expiry parts \<and> p = push_of parts"
proof -
  have ok: "push_parts_ok parts" using assms(2) by (simp add: parse_push_iff)
  then have "pp_msg_len parts = 0 \<longleftrightarrow> pp_msg_natural parts = []"
    by (auto simp: push_parts_ok_def unat_eq_0)
  then show ?thesis using assms ok
    by (auto simp: push_decode_from_cell_def reject_expired_iff push_of_def push_parts_ok_def decode_msg_natural_def)
qed

lemma push_decode_iff:
  "push_decode_from_cell hmac cap sid now c = Inr p \<longleftrightarrow>
     now < rp_expiry p \<and> (\<exists>c'. push_encode_into_cell hmac cap sid p = Inr c' \<and> c = c'\<lparr>c_round_ctr := c_round_ctr c\<rparr>)"
  (is "?D \<longleftrightarrow> ?E")
proof
  assume ?D
  then obtain parts where o: "require_outer c RelayPush = Inr ()" and q: "parse_push_payload (c_payload c) = Inr parts"
    by (auto simp: push_decode_from_cell_def)
  from \<open>?D\<close> have v: "verify_relay_push_tag hmac cap sid parts = Inr ()" "now < pp_expiry parts" "p = push_of parts"
    by (simp_all add: push_decode_parts [OF o q])
  have ok: "push_parts_ok parts" "push_bytes parts = c_payload c" using q by (simp_all add: parse_push_iff)
  have "push_encode_into_cell hmac cap sid p = Inr (cell_new RelayPush 0 0 (c_payload c))"
    using v ok parts_of_push_of [OF ok(1), of hmac cap sid] push_of_ok [OF ok(1)] by (simp add: push_encode_iff)
  moreover have "now < rp_expiry p" using v by (simp add: push_of_def)
  ultimately show ?E using o by (simp add: outer_cell_iff)
next
  assume ?E
  then obtain c' where e: "now < rp_expiry p" "push_ok p" "c' = cell_new RelayPush 0 0 (push_bytes (parts_of hmac cap sid p))"
    "c = c'\<lparr>c_round_ctr := c_round_ctr c\<rparr>" by (auto simp: push_encode_iff)
  let ?q = "parts_of hmac cap sid p"
  have ok: "push_parts_ok ?q" using e(2) by (rule parts_of_ok)
  have pay: "c_payload c = push_bytes ?q" by (subst e(4)) (simp add: e(3) cell_new_def)
  have o: "require_outer c RelayPush = Inr ()"
    unfolding require_outer_iff by (subst (1 2 3) e(4)) (simp add: e(3) cell_new_def)
  have "verify_relay_push_tag hmac cap sid ?q = Inr ()"
    using parts_of_push_of [OF ok, of hmac cap sid] push_of_parts_of [OF e(2), of hmac cap sid] by simp
  then show ?D
    using push_decode_parts [OF o] pay ok e push_of_parts_of [OF e(2), of hmac cap sid]
    by (simp add: parse_push_bytes) (simp add: parts_of_def Let_def)
qed

text \<open>Subscriptions have no inner cell: the payload is fixed.\<close>

lemma sub_decode_iff:
  "sub_decode_from_cell hmac cap sid now c = Inr s \<longleftrightarrow>
     now < rs_expiry s \<and> c = (sub_encode_into_cell hmac cap sid s)\<lparr>c_round_ctr := c_round_ctr c\<rparr>"
  (is "?D \<longleftrightarrow> ?E")
proof
  let ?w = "c_payload c"
  assume ?D
  then have o: "require_outer c RelaySub = Inr ()" and w: "length ?w = 98" "?w ! 0 = 1" "?w ! 1 = 5"
    and s: "s = \<lparr>rs_queue_id = arr_pad (sub_list ?w 2 34), rs_epoch = de64 (sub_list ?w 34 42),
                rs_expiry = de64 (sub_list ?w 42 50), rs_nonce = arr_pad (sub_list ?w 50 66)\<rparr>"
    and t: "list_of (relay_sub_mac hmac cap sid s) = drop 66 ?w" and e: "now < rs_expiry s"
    by (auto simp: sub_decode_from_cell_def Let_def RELAY_SUB_LEN_def PROTOCOL_VERSION_def RELAY_SUBSCRIBE_def
        reject_expired_iff split: if_splits)
  have "[1, 5] @ list_of (rs_queue_id s) @ be64 (rs_epoch s) @ be64 (rs_expiry s) @ list_of (rs_nonce s) @ drop 66 ?w
    = [?w ! 0, ?w ! 1] @ sub_list ?w 2 34 @ sub_list ?w 34 42 @ sub_list ?w 42 50 @ sub_list ?w 50 66 @ drop 66 ?w"
    using w by (simp add: s be_de)
  also have "\<dots> = ?w" using w(1) by (simp add: sub_list_drop drop_2_Cons [simplified])
  finally have "sub_encode_into_cell hmac cap sid s = cell_new RelaySub 0 0 ?w"
    by (simp add: sub_encode_into_cell_def t PROTOCOL_VERSION_def RELAY_SUBSCRIBE_def)
  with e o show ?E by (simp add: outer_cell_iff)
next
  assume E: ?E
  let ?w = "[PROTOCOL_VERSION, RELAY_SUBSCRIBE] @ list_of (rs_queue_id s) @ be64 (rs_epoch s) @ be64 (rs_expiry s)
        @ list_of (rs_nonce s) @ list_of (relay_sub_mac hmac cap sid s)"
  have c: "c = (cell_new RelaySub 0 0 ?w)\<lparr>c_round_ctr := c_round_ctr c\<rparr>"
    using E by (simp add: sub_encode_into_cell_def)
  have pay: "c_payload c = ?w" by (subst c) (simp add: cell_new_def)
  have o: "require_outer c RelaySub = Inr ()" unfolding require_outer_iff
    by (subst (1 2 3) c) (simp add: cell_new_def)
  have "sub_list ?w 2 34 = list_of (rs_queue_id s)" "sub_list ?w 34 42 = be64 (rs_epoch s)"
    "sub_list ?w 42 50 = be64 (rs_expiry s)" "sub_list ?w 50 66 = list_of (rs_nonce s)"
    "drop 66 ?w = list_of (relay_sub_mac hmac cap sid s)" "length ?w = 98"
    by (simp_all add: sub_list_def)
  with o E pay show ?D
    by (cases s) (simp add: sub_decode_from_cell_def RELAY_SUB_LEN_def reject_expired_iff Let_def)
qed

section \<open>Targets\<close>

lemma length_ip_bytes [simp]: "length (ip_bytes a) = 17"
  by (cases a) simp_all

lemma length_target_encode [simp]: "length (target_encode t) = 51"
  by (simp add: target_encode_def)

lemma target_decode_encode: "target_decode (target_encode t) = Inr t"
proof -
  have s: "sub_list (target_encode t) 17 19 = be16 (sa_port (rt_address t))"
    "drop 19 (target_encode t) = list_of (rt_service t)"
    by (simp_all add: target_encode_def sub_list_def)
  show ?thesis
  proof (cases "sa_ip (rt_address t)")
    case (V4 a)
    have "target_encode t ! 0 = 4" "sub_list (target_encode t) 1 5 = list_of a" "sub_list (target_encode t) 5 17 = replicate 12 0"
      by (simp_all add: target_encode_def V4 sub_list_def)
    with s V4 show ?thesis by (simp add: target_decode_def TARGET_LEN_def flip: V4)
  next
    case (V6 a)
    have "target_encode t ! 0 = 6" "sub_list (target_encode t) 1 17 = list_of a"
      by (simp_all add: target_encode_def V6 sub_list_def)
    with s V6 show ?thesis by (simp add: target_decode_def TARGET_LEN_def flip: V6)
  qed
qed

lemma target_encode_decode:
  assumes "target_decode w = Inr t"
  shows "target_encode t = w"
proof -
  obtain ip where w: "length w = 51" and t: "t = \<lparr>rt_address = \<lparr>sa_ip = ip, sa_port = de16 (sub_list w 17 19)\<rparr>, rt_service = arr_pad (drop 19 w)\<rparr>"
    and ip: "w ! 0 = 4 \<and> (\<forall>b \<in> set (sub_list w 5 17). b = 0) \<and> ip = V4 (arr_pad (sub_list w 1 5))
      \<or> w ! 0 = 6 \<and> ip = V6 (arr_pad (sub_list w 1 17))"
    using assms by (auto simp: target_decode_def TARGET_LEN_def split: if_splits)
  have z: "sub_list w 5 17 = replicate 12 0" if "\<forall>b \<in> set (sub_list w 5 17). b = 0"
    using that w replicate_eqI [of "sub_list w 5 17" 12 0] by simp
  have "ip_bytes ip = w ! 0 # sub_list w 1 17"
    using ip w z sub_list_join [of 1 5 17 w] by auto
  then have "target_encode t = [w ! 0] @ sub_list w 1 17 @ sub_list w 17 19 @ drop 19 w"
    using w by (simp add: target_encode_def t be_de)
  also have "\<dots> = w" using w drop_1_Cons [of w] by (simp add: sub_list_drop)
  finally show ?thesis .
qed

lemma target_decode_iff: "target_decode w = Inr t \<longleftrightarrow> w = target_encode t"
  using target_decode_encode target_encode_decode by blast

section \<open>Forwards\<close>

definition frwd_natural :: "frwd \<Rightarrow> bytes" where
  "frwd_natural f = (case fw_push f of None \<Rightarrow> [] | Some c \<Rightarrow> natural_bytes c)"

definition frwd_ok :: "frwd \<Rightarrow> bool" where
  "frwd_ok f \<longleftrightarrow> (\<forall>c. fw_push f = Some c \<longrightarrow> unauthenticated_parse c = Inr c)"

definition frwd_payload :: "mac_fn \<Rightarrow> 32 arr \<Rightarrow> 32 arr \<Rightarrow> frwd \<Rightarrow> bytes" where
  "frwd_payload hmac key sid f =
     (let n = frwd_natural f in
      [PROTOCOL_VERSION] @ target_encode (fw_target f) @ be64 (fw_expiry f) @ be16 (of_nat (length n)) @ n
      @ list_of (fw_nonce f) @ list_of (hmac key (frwd_mac_input sid f n (of_nat (length n)))))"

lemma unauthenticated_parse_iff:
  "unauthenticated_parse c = Inr u \<longleftrightarrow> u = c \<and> require_outer c RelayPush = Inr () \<and> (\<exists>p. parse_push_payload (c_payload c) = Inr p)"
  by (auto simp: unauthenticated_parse_def)

lemma parse_push_len: "parse_push_payload w = Inr p \<Longrightarrow> length w \<le> 15465"
  by (simp add: parse_push_payload_def relay_consts)

lemma nested_natural:
  assumes "unauthenticated_parse c = Inr c"
  shows "natural_valid RelayPush c" "length (natural_bytes c) \<le> MAX_RELAY_PUSH_NATURAL_LEN"
    "encode_relay_push_natural c = Inr (natural_bytes c)"
proof -
  show v: "natural_valid RelayPush c" and l: "length (natural_bytes c) \<le> MAX_RELAY_PUSH_NATURAL_LEN"
    using assms by (auto simp: unauthenticated_parse_iff require_outer_iff natural_valid_def relay_consts
        dest!: parse_push_len)
  have "encode_natural c MAX_RELAY_PUSH_NATURAL_LEN = Inr (natural_bytes c)"
    using v l encode_natural_iff [of MAX_RELAY_PUSH_NATURAL_LEN c "natural_bytes c" RelayPush]
    by (simp add: relay_consts)
  then show "encode_relay_push_natural c = Inr (natural_bytes c)"
    using assms by (auto simp: unauthenticated_parse_iff encode_relay_push_natural_def)
qed

lemma encode_relay_push_natural_iff:
  "encode_relay_push_natural c = Inr e \<longleftrightarrow> unauthenticated_parse c = Inr c \<and> e = natural_bytes c"
  using nested_natural [of c] by (auto simp: unauthenticated_parse_iff encode_relay_push_natural_def)

lemma decode_nested_iff:
  "rbind (decode_relay_push_natural e) unauthenticated_parse = Inr u
    \<longleftrightarrow> unauthenticated_parse u = Inr u \<and> e = natural_bytes u"
  using nested_natural(1) [of u] validate_natural_bytes [of RelayPush u] validate_naturalD [of e RelayPush]
  by (auto simp: decode_relay_push_natural_def unauthenticated_parse_iff)

lemma frwd_natural_len: "frwd_ok f \<Longrightarrow> length (frwd_natural f) \<le> 15471"
  using nested_natural(2) by (auto simp: frwd_ok_def frwd_natural_def relay_consts split: option.splits
      simp del: length_natural_bytes)

lemma encode_frwd_push_iff:
  "(case fw_push f of Some push \<Rightarrow> encode_relay_push_natural push | None \<Rightarrow> Inr []) = Inr n
      \<longleftrightarrow> frwd_ok f \<and> n = frwd_natural f"
  by (auto simp: frwd_ok_def frwd_natural_def encode_relay_push_natural_iff split: option.splits)

lemma frwd_encode_iff:
  "frwd_encode_into_cell_with_policy hmac key sid policy f = Inr c
     \<longleftrightarrow> validate_frwd_target_with_policy (fw_target f) policy = Inr () \<and> frwd_ok f
         \<and> c = cell_new Frwd 0 0 (frwd_payload hmac key sid f)"
proof (cases "frwd_ok f")
  case True
  then have "length (frwd_natural f) \<le> 15471" by (rule frwd_natural_len)
  with True show ?thesis
    by (auto simp: frwd_encode_into_cell_with_policy_def encode_frwd_push_iff frwd_payload_def Let_def relay_consts
        max_payload_def)
qed (simp add: frwd_encode_into_cell_with_policy_def encode_frwd_push_iff)

lemma frwd_payload_parts:
  fixes f
  defines "n \<equiv> frwd_natural f"
  shows "frwd_payload hmac key sid f ! 0 = PROTOCOL_VERSION"
    "length (frwd_payload hmac key sid f) = 110 + length n"
    "sub_list (frwd_payload hmac key sid f) 1 52 = target_encode (fw_target f)"
    "sub_list (frwd_payload hmac key sid f) 52 60 = be64 (fw_expiry f)"
    "sub_list (frwd_payload hmac key sid f) 60 62 = be16 (of_nat (length n))"
    "sub_list (frwd_payload hmac key sid f) 62 (62 + length n) = n"
    "sub_list (frwd_payload hmac key sid f) (62 + length n) (78 + length n) = list_of (fw_nonce f)"
    "drop (78 + length n) (frwd_payload hmac key sid f) = list_of (hmac key (frwd_mac_input sid f n (of_nat (length n))))"
  by (simp_all add: frwd_payload_def n_def Let_def sub_list_def drop_Cons' ac_simps)

lemma decode_nested_push_iff:
  "decode_nested_push e = Inr push \<longleftrightarrow> (\<forall>c. push = Some c \<longrightarrow> unauthenticated_parse c = Inr c)
     \<and> e = (case push of None \<Rightarrow> [] | Some c \<Rightarrow> natural_bytes c)"
proof (cases "e = []")
  case False
  then have "decode_nested_push e = Inr push
      \<longleftrightarrow> (\<exists>u. rbind (decode_relay_push_natural e) unauthenticated_parse = Inr u \<and> push = Some u)"
    by (auto simp: decode_nested_push_def)
  with False show ?thesis unfolding decode_nested_iff by (cases push) auto
qed (cases push; auto simp: decode_nested_push_def natural_bytes_def)

text \<open>The decoder accepts exactly the payloads the encoder writes.\<close>

lemma frwd_decodeD:
  assumes "frwd_decode_from_cell_with_policy hmac key sid now policy c = Inr f"
  shows "require_outer c Frwd = Inr ()" "validate_frwd_target_with_policy (fw_target f) policy = Inr ()"
    "now < fw_expiry f" "reject_nested_expired f now = Inr ()" "frwd_ok f" "c_payload c = frwd_payload hmac key sid f"
proof -
  let ?w = "c_payload c"
  let ?n = "unat (de16 (sub_list ?w 60 62))"
  from assms obtain target push where o: "require_outer c Frwd = Inr ()" and w: "length ?w = 110 + ?n" "?w ! 0 = PROTOCOL_VERSION"
    and t: "target_decode (sub_list ?w 1 52) = Inr target"
    and p: "decode_nested_push (sub_list ?w 62 (62 + ?n)) = Inr push"
    and f: "f = \<lparr>fw_target = target, fw_expiry = de64 (sub_list ?w 52 60), fw_push = push,
                fw_nonce = arr_pad (sub_list ?w (62 + ?n) (78 + ?n))\<rparr>"
    and m: "list_of (hmac key (frwd_mac_input sid f (sub_list ?w 62 (62 + ?n)) (of_nat ?n))) = drop (78 + ?n) ?w"
    and e: "now < fw_expiry f" "reject_nested_expired f now = Inr ()" and v: "validate_frwd_target_with_policy (fw_target f) policy = Inr ()"
    unfolding frwd_decode_from_cell_with_policy_def Let_def
    by (auto simp: reject_expired_iff FRWD_FIXED_LEN_def ac_simps split: if_splits)
  show "require_outer c Frwd = Inr ()" "validate_frwd_target_with_policy (fw_target f) policy = Inr ()"
    "now < fw_expiry f" "reject_nested_expired f now = Inr ()" by fact+
  have nat: "frwd_natural f = sub_list ?w 62 (62 + ?n)" and "frwd_ok f"
    using p by (simp_all add: decode_nested_push_iff frwd_natural_def frwd_ok_def f)
  show "frwd_ok f" by fact
  have "target_encode (fw_target f) = sub_list ?w 1 52" using t by (simp add: target_decode_iff f)
  moreover have "length (frwd_natural f) = ?n" using w(1) by (simp add: nat)
  moreover have "be64 (fw_expiry f) = sub_list ?w 52 60" "be16 (of_nat ?n) = sub_list ?w 60 62"
    "list_of (fw_nonce f) = sub_list ?w (62 + ?n) (78 + ?n)"
    using w(1) by (simp_all add: f be_de)
  ultimately have "frwd_payload hmac key sid f = [?w ! 0] @ sub_list ?w 1 52 @ sub_list ?w 52 60 @ sub_list ?w 60 62
     @ sub_list ?w 62 (62 + ?n) @ sub_list ?w (62 + ?n) (78 + ?n) @ drop (78 + ?n) ?w"
    using m w(2) by (simp add: frwd_payload_def Let_def nat)
  also have "\<dots> = ?w" using w(1) drop_1_Cons [of ?w] by (simp add: sub_list_drop)
  finally show "c_payload c = frwd_payload hmac key sid f" by simp
qed

lemma frwd_decodeI:
  assumes "require_outer c Frwd = Inr ()" "validate_frwd_target_with_policy (fw_target f) policy = Inr ()"
    "now < fw_expiry f" "reject_nested_expired f now = Inr ()" "frwd_ok f" "c_payload c = frwd_payload hmac key sid f"
  shows "frwd_decode_from_cell_with_policy hmac key sid now policy c = Inr f"
proof -
  have len: "length (frwd_natural f) \<le> 15471" using assms(5) by (rule frwd_natural_len)
  then have u: "unat (of_nat (length (frwd_natural f)) :: u16) = length (frwd_natural f)"
    by (intro unat_of_nat_u16) simp
  have a: "62 + n + 16 = 78 + n" for n :: nat by simp
  have p: "decode_nested_push (frwd_natural f) = Inr (fw_push f)"
    using assms(5) by (simp add: decode_nested_push_iff frwd_natural_def frwd_ok_def)
  have eta: "\<lparr>fw_target = fw_target f, fw_expiry = fw_expiry f, fw_push = fw_push f, fw_nonce = fw_nonce f\<rparr> = f"
    by simp
  show ?thesis
    using assms(1-4) len p
    by (simp add: eta frwd_decode_from_cell_with_policy_def assms(6) frwd_payload_parts u Let_def max_payload_def relay_consts
        target_decode_encode reject_expired_iff a del: One_nat_def)
qed

lemma frwd_decode_iff:
  "frwd_decode_from_cell_with_policy hmac key sid now policy c = Inr f \<longleftrightarrow>
     now < fw_expiry f \<and> reject_nested_expired f now = Inr ()
     \<and> (\<exists>c'. frwd_encode_into_cell_with_policy hmac key sid policy f = Inr c' \<and> c = c'\<lparr>c_round_ctr := c_round_ctr c\<rparr>)"
  (is "?D \<longleftrightarrow> ?E")
proof
  assume D: ?D
  note d = frwd_decodeD [OF D]
  have "c = (cell_new Frwd 0 0 (c_payload c))\<lparr>c_round_ctr := c_round_ctr c\<rparr>"
    using d(1) unfolding outer_cell_iff .
  with d show ?E by (simp add: frwd_encode_iff)
next
  assume ?E
  then obtain c' where e: "now < fw_expiry f" "reject_nested_expired f now = Inr ()"
    "validate_frwd_target_with_policy (fw_target f) policy = Inr ()" "frwd_ok f"
    and c: "c = (cell_new Frwd 0 0 (frwd_payload hmac key sid f))\<lparr>c_round_ctr := c_round_ctr c\<rparr>"
    by (auto simp: frwd_encode_iff)
  have "require_outer c Frwd = Inr ()" unfolding require_outer_iff by (subst (1 2 3) c) (simp add: cell_new_def)
  moreover have "c_payload c = frwd_payload hmac key sid f" by (subst c) (simp add: cell_new_def)
  ultimately show ?D using e frwd_decodeI by blast
qed

section \<open>What the tags bind\<close>

lemma natural_bytes_inject:
  "natural_valid k c \<Longrightarrow> natural_valid k c' \<Longrightarrow> natural_bytes c = natural_bytes c' \<longleftrightarrow> c = c'"
  using validate_natural_bytes(2) by metis

lemma msg_bytes_inject:
  assumes "\<forall>c. m = Some c \<longrightarrow> natural_valid k c" "\<forall>c. m' = Some c \<longrightarrow> natural_valid k c"
  shows "(case m of None \<Rightarrow> [] | Some c \<Rightarrow> natural_bytes c) = (case m' of None \<Rightarrow> [] | Some c \<Rightarrow> natural_bytes c)
    \<longleftrightarrow> m = m'"
  using assms natural_bytes_not_Nil
  by (cases m; cases m') (auto simp: natural_bytes_inject dest: sym)

text \<open>The input of a deposit's tag, for the deposit itself.\<close>

definition push_tag_input :: "32 arr \<Rightarrow> relay_push \<Rightarrow> bytes" where
  "push_tag_input sid p =
     (let n = (case rp_msg p of None \<Rightarrow> [] | Some c \<Rightarrow> natural_bytes c)
      in push_mac_input sid (rp_queue_id p) (rp_epoch p) (rp_nonce p) (rp_expiry p) (of_nat (length n)) n)"

lemma push_tag_input_inject:
  assumes "push_ok p" "push_ok p'"
  shows "push_tag_input sid p = push_tag_input sid' p' \<longleftrightarrow> sid = sid' \<and> p = p'"
proof -
  have "(case rp_msg p of None \<Rightarrow> [] | Some c \<Rightarrow> natural_bytes c) = (case rp_msg p' of None \<Rightarrow> [] | Some c \<Rightarrow> natural_bytes c)
    \<longleftrightarrow> rp_msg p = rp_msg p'"
    using assms by (intro msg_bytes_inject) (auto simp: push_ok_def)
  then show ?thesis by (cases p; cases p') (auto simp: push_tag_input_def push_mac_input_def Let_def)
qed

definition sub_tag_input :: "32 arr \<Rightarrow> relay_sub \<Rightarrow> bytes" where
  "sub_tag_input sid s =
     RELAY_SUB_DOMAIN @ [PROTOCOL_VERSION] @ list_of sid @ list_of (rs_queue_id s)
       @ be64 (rs_epoch s) @ [RELAY_SUBSCRIBE] @ be64 (rs_expiry s) @ list_of (rs_nonce s) @ be16 0"

lemma sub_tag_input_inject: "sub_tag_input sid s = sub_tag_input sid' s' \<longleftrightarrow> sid = sid' \<and> s = s'"
  by (cases s; cases s') (auto simp: sub_tag_input_def)

definition frwd_tag_input :: "32 arr \<Rightarrow> frwd \<Rightarrow> bytes" where
  "frwd_tag_input sid f = frwd_mac_input sid f (frwd_natural f) (of_nat (length (frwd_natural f)))"

lemma frwd_natural_inject:
  assumes "frwd_ok f" "frwd_ok f'"
  shows "frwd_natural f = frwd_natural f' \<longleftrightarrow> fw_push f = fw_push f'"
  unfolding frwd_natural_def using assms nested_natural(1) by (intro msg_bytes_inject) (auto simp: frwd_ok_def)

lemma frwd_tag_input_inject:
  assumes "frwd_ok f" "frwd_ok f'"
  shows "frwd_tag_input sid f = frwd_tag_input sid' f' \<longleftrightarrow>
    sid = sid' \<and> rt_service (fw_target f) = rt_service (fw_target f') \<and> fw_expiry f = fw_expiry f'
    \<and> fw_nonce f = fw_nonce f' \<and> fw_push f = fw_push f'"
  using frwd_natural_inject [OF assms]
  by (auto simp: frwd_tag_input_def frwd_mac_input_def split: prod.splits)

lemma tag_inputs_disjoint:
  "push_tag_input sid p \<noteq> sub_tag_input sid' s" "push_tag_input sid p \<noteq> frwd_tag_input sid' f"
  "sub_tag_input sid s \<noteq> frwd_tag_input sid' f"
  by (simp_all add: push_tag_input_def push_mac_input_def sub_tag_input_def frwd_tag_input_def frwd_mac_input_def Let_def
      RELAY_PUSH_DOMAIN_def RELAY_SUB_DOMAIN_def FRWD_DOMAIN_def lit_def split: prod.split)

text \<open>The bytes of a forward in transit with the target descriptor replaced, as an intermediary link could.\<close>

definition readdress :: "relay_target \<Rightarrow> cell \<Rightarrow> cell" where
  "readdress t c = c\<lparr>c_payload := take 1 (c_payload c) @ target_encode t @ drop 52 (c_payload c)\<rparr>"

lemma frwd_payload_split:
  "take 1 (frwd_payload hmac key sid f) = [PROTOCOL_VERSION]"
  "drop 52 (frwd_payload hmac key sid f) = be64 (fw_expiry f) @ be16 (of_nat (length (frwd_natural f))) @ frwd_natural f
      @ list_of (fw_nonce f) @ list_of (hmac key (frwd_tag_input sid f))"
  by (simp_all add: frwd_payload_def frwd_tag_input_def Let_def)

lemma readdress_accepted_iff:
  assumes "frwd_decode_from_cell_with_policy hmac key sid now policy c = Inr f"
    and "validate_frwd_target_with_policy t policy = Inr ()"
  shows "frwd_decode_from_cell_with_policy hmac key sid now policy (readdress t c) = Inr (f\<lparr>fw_target := t\<rparr>)
    \<longleftrightarrow> hmac key (frwd_tag_input sid (f\<lparr>fw_target := t\<rparr>)) = hmac key (frwd_tag_input sid f)"
proof -
  let ?f = "f\<lparr>fw_target := t\<rparr>"
  note d = frwd_decodeD [OF assms(1)]
  have same: "frwd_natural ?f = frwd_natural f" "reject_nested_expired ?f now = Inr ()" "frwd_ok ?f"
    using d by (simp_all add: frwd_natural_def reject_nested_expired_def frwd_ok_def)
  have o: "require_outer (readdress t c) Frwd = Inr ()" using d(1) by (simp add: require_outer_iff readdress_def)
  have pay: "c_payload (readdress t c) = [PROTOCOL_VERSION] @ target_encode t @ be64 (fw_expiry f)
      @ be16 (of_nat (length (frwd_natural f))) @ frwd_natural f @ list_of (fw_nonce f) @ list_of (hmac key (frwd_tag_input sid f))"
    by (simp add: readdress_def d(6) frwd_payload_split [unfolded One_nat_def])
  have "c_payload (readdress t c) = frwd_payload hmac key sid ?f
      \<longleftrightarrow> hmac key (frwd_tag_input sid ?f) = hmac key (frwd_tag_input sid f)"
    by (auto simp: pay frwd_payload_def same(1) frwd_tag_input_def Let_def)
  then show ?thesis
    using frwd_decodeD(6) frwd_decodeI [OF o _ _ same(2,3)] assms(2) d(3) by auto
qed

section \<open>Properties\<close>

text \<open>
  C27: relay cells are canonical and only authenticated ones are accepted. Each decoder accepts a
  cell exactly when it is, up to the round counter that no relay codec reads, the encoder's output
  for the decoded value under the same key and service identity, and the value (with a forward's
  nested deposit) has not expired; a forward's target is permitted, as its encoder checks too.
\<close>

theorem relay_cells_canonical:
  "(push_decode_from_cell hmac key sid now c = Inr p \<longleftrightarrow>
      now < rp_expiry p
      \<and> (\<exists>c'. push_encode_into_cell hmac key sid p = Inr c' \<and> c = c'\<lparr>c_round_ctr := c_round_ctr c\<rparr>))
   \<and> (sub_decode_from_cell hmac key sid now c = Inr s \<longleftrightarrow>
      now < rs_expiry s \<and> c = (sub_encode_into_cell hmac key sid s)\<lparr>c_round_ctr := c_round_ctr c\<rparr>)
   \<and> (frwd_decode_from_cell_with_policy hmac key sid now policy c = Inr f \<longleftrightarrow>
      now < fw_expiry f \<and> reject_nested_expired f now = Inr ()
      \<and> (\<exists>c'. frwd_encode_into_cell_with_policy hmac key sid policy f = Inr c'
               \<and> c = c'\<lparr>c_round_ctr := c_round_ctr c\<rparr>))"
  by (intro conjI push_decode_iff sub_decode_iff frwd_decode_iff)

text \<open>
  C32: the scope of a forward's tag. Replace the target descriptor of an accepted forward by another
  permitted one. If the service identity is the same, the cell is still accepted, with the new
  address: the tag does not cover the address. If the service identity differs, the cell is accepted
  only if the MACs of two different inputs, the old and the new one, collide under the hop key.
\<close>

theorem forward_tag_scope:
  assumes "frwd_decode_from_cell_with_policy hmac key sid now policy c = Inr f"
    and "validate_frwd_target_with_policy t policy = Inr ()"
  shows "if rt_service t = rt_service (fw_target f)
    then frwd_decode_from_cell_with_policy hmac key sid now policy (readdress t c) = Inr (f\<lparr>fw_target := t\<rparr>)
    else frwd_tag_input sid (f\<lparr>fw_target := t\<rparr>) \<noteq> frwd_tag_input sid f
      \<and> (frwd_decode_from_cell_with_policy hmac key sid now policy (readdress t c) = Inr (f\<lparr>fw_target := t\<rparr>)
         \<longleftrightarrow> hmac key (frwd_tag_input sid (f\<lparr>fw_target := t\<rparr>)) = hmac key (frwd_tag_input sid f))"
proof -
  let ?f = "f\<lparr>fw_target := t\<rparr>"
  have "frwd_ok f" using frwd_decodeD(5) [OF assms(1)] .
  moreover from this have "frwd_ok ?f" by (simp add: frwd_ok_def)
  ultimately have "frwd_tag_input sid ?f = frwd_tag_input sid f \<longleftrightarrow> rt_service t = rt_service (fw_target f)"
    using frwd_tag_input_inject [of ?f f sid sid] by simp
  then show ?thesis using readdress_accepted_iff [OF assms] by auto
qed

definition demo_target :: "byte \<Rightarrow> relay_target" where
  "demo_target n =
     \<lparr>rt_address = \<lparr>sa_ip = V4 (arr_pad [8, 8, 8, n]), sa_port = 443\<rparr>, rt_service = arr_fill 9\<rparr>"

definition demo_frwd :: frwd where
  "demo_frwd = \<lparr>fw_target = demo_target 1, fw_expiry = 100, fw_push = None, fw_nonce = arr_fill 3\<rparr>"

definition demo_frwd_cell :: cell where
  "demo_frwd_cell = cell_new Frwd 0 0 (frwd_payload (\<lambda>k x. k) (arr_fill 5) (arr_fill 6) demo_frwd)"

lemma demo_target_valid: "validate_frwd_target_with_policy (demo_target n) (target_policy_new False) = Inr ()"
  by (simp add: validate_frwd_target_with_policy_def policy_permits_def demo_target_def ipv4_global_def)

lemma demo_frwd_accepted:
  "frwd_decode_from_cell_with_policy (\<lambda>k x. k) (arr_fill 5) (arr_fill 6) 50 (target_policy_new False) demo_frwd_cell
    = Inr demo_frwd"
  by (rule frwd_decodeI)
    (simp_all add: demo_frwd_cell_def require_outer_iff cell_new_def demo_target_valid demo_frwd_def reject_nested_expired_def
      frwd_ok_def)

theorem forward_tag_scope_witness:
  "frwd_decode_from_cell_with_policy (\<lambda>k x. k) (arr_fill 5) (arr_fill 6) 50 (target_policy_new False)
     (readdress (demo_target 2) demo_frwd_cell) = Inr (demo_frwd\<lparr>fw_target := demo_target 2\<rparr>)"
  using forward_tag_scope [OF demo_frwd_accepted demo_target_valid [of 2]]
  by (simp add: demo_frwd_def demo_target_def)

end
