(* ===== verification/Leases.thy ===== *)
theory Leases
  imports Readers
begin

text \<open>
  Relay leases of \<open>crates/core/src/lease.rs\<close>: admission grants, the create, renew, rotate and revoke
  operations on a queue, dynamic grant requests, and the check of a retained alias. Each operation
  is a fixed-length wire form authenticated by HMAC-SHA-256 (the parameter \<open>hmac\<close>); creating an
  HMAC from a 32-byte key never fails. The theorems show that a decoder accepts exactly the
  encoder's output for values that pass validation, and what acceptance guarantees.
\<close>

section \<open>Constants, errors and policies\<close>

definition LEASE_VERSION :: byte where "LEASE_VERSION = 1"
definition OP_CREATE :: byte where "OP_CREATE = 1"
definition OP_RENEW :: byte where "OP_RENEW = 2"
definition OP_ROTATE :: byte where "OP_ROTATE = 3"
definition OP_REVOKE :: byte where "OP_REVOKE = 4"
definition OP_GRANT_REQUEST :: byte where "OP_GRANT_REQUEST = 6"
definition ADMISSION_GRANT_LEN :: nat where "ADMISSION_GRANT_LEN = 180"
definition LEASE_CREATE_LEN :: nat where "LEASE_CREATE_LEN = 386"
definition LEASE_RENEW_LEN :: nat where "LEASE_RENEW_LEN = 98"
definition LEASE_ROTATE_LEN :: nat where "LEASE_ROTATE_LEN = 202"
definition GRANT_REQUEST_LEN :: nat where "GRANT_REQUEST_LEN = 148"
definition MAX_CLOCK_SKEW_SECS :: u64 where "MAX_CLOCK_SKEW_SECS = 300"
definition TAG_LEN :: nat where "TAG_LEN = 32"
definition GRANT_DOMAIN :: bytes where "GRANT_DOMAIN = lit ''GC1/ADMISSION-GRANT'' @ [0]"
definition CREATE_DOMAIN :: bytes where "CREATE_DOMAIN = lit ''GC1/LEASE-CREATE'' @ [0]"
definition RENEW_DOMAIN :: bytes where "RENEW_DOMAIN = lit ''GC1/LEASE-RENEW'' @ [0]"
definition ROTATE_DOMAIN :: bytes where "ROTATE_DOMAIN = lit ''GC1/LEASE-ROTATE'' @ [0]"
definition REVOKE_DOMAIN :: bytes where "REVOKE_DOMAIN = lit ''GC1/LEASE-REVOKE'' @ [0]"
definition GRANT_REQUEST_DOMAIN :: bytes where "GRANT_REQUEST_DOMAIN = lit ''GC1/CHANNEL-GRANT-REQUEST'' @ [0]"
definition EMPTY_FIELD :: bytes where "EMPTY_FIELD = [0, 0]"

lemmas lease_consts = LEASE_VERSION_def OP_CREATE_def OP_RENEW_def OP_ROTATE_def OP_REVOKE_def OP_GRANT_REQUEST_def
  ADMISSION_GRANT_LEN_def LEASE_CREATE_LEN_def LEASE_RENEW_LEN_def LEASE_ROTATE_LEN_def GRANT_REQUEST_LEN_def TAG_LEN_def

datatype lease_error =
    WrongLength nat nat
  | InvalidVersion byte
  | InvalidOperation byte byte
  | InvalidGrantLength u16
  | LInvalidMac
  | RelayServiceMismatch
  | QueueBindingMismatch
  | EpochBindingMismatch
  | ClockSkewTooLarge u64
  | NotYetValid u64 u64
  | LExpired u64 u64
  | ExpiryExceedsPolicy u64 u64
  | InvalidGrantWindow
  | ZeroRandomField string
  | ZeroEpoch
  | CapabilitiesNotIndependent
  | CapabilityWasNotRotated
  | GrantLimitExceeded
  | RelayLimitExceeded
  | RenewalDoesNotExtend
  | EpochOverflow
  | InvalidNewEpoch u64 u64
  | AuthorityBindingMismatch

record validation_policy =
  vp_now :: u64
  vp_skew :: u64
  vp_max_expiry :: u64

definition validation_policy_new :: "u64 \<Rightarrow> u64 \<Rightarrow> u64 \<Rightarrow> lease_error + validation_policy" where
  "validation_policy_new now_unix clock_skew_secs max_expiry_unix =
     reject (MAX_CLOCK_SKEW_SECS < clock_skew_secs) (ClockSkewTooLarge clock_skew_secs)
       (Inr \<lparr>vp_now = now_unix, vp_skew = clock_skew_secs, vp_max_expiry = max_expiry_unix\<rparr>)"

text \<open>\<open>u64::saturating_add\<close>.\<close>

definition sat_add :: "u64 \<Rightarrow> u64 \<Rightarrow> u64" where
  "sat_add a b = (if unat a + unat b < 2 ^ 64 then a + b else - 1)"

definition validate_expiry :: "validation_policy \<Rightarrow> u64 \<Rightarrow> lease_error + unit" where
  "validate_expiry policy expiry_unix =
     reject (sat_add expiry_unix (vp_skew policy) \<le> vp_now policy) (LExpired expiry_unix (vp_now policy)) (
     reject (vp_max_expiry policy < expiry_unix) (ExpiryExceedsPolicy expiry_unix (vp_max_expiry policy)) (Inr ()))"

definition validate_policy :: "validation_policy \<Rightarrow> lease_error + unit" where
  "validate_policy policy = reject (MAX_CLOCK_SKEW_SECS < vp_skew policy) (ClockSkewTooLarge (vp_skew policy)) (Inr ())"

record lease_limits =
  ll_max_queue_cells :: u16
  ll_max_queue_bytes :: u64

record capabilities =
  cap_push :: "32 arr"
  cap_sub :: "32 arr"
  cap_admin :: "32 arr"

definition require_random :: "string \<Rightarrow> 'n::len arr \<Rightarrow> lease_error + unit" where
  "require_random field v = reject (list_all (\<lambda>b. b = 0) (list_of v)) (ZeroRandomField field) (Inr ())"

definition capabilities_validate :: "capabilities \<Rightarrow> 32 arr \<Rightarrow> lease_error + unit" where
  "capabilities_validate c queue_id =
     rbind (require_random ''queue_id'' queue_id) (\<lambda>_.
     rbind (require_random ''push_cap'' (cap_push c)) (\<lambda>_.
     rbind (require_random ''sub_cap'' (cap_sub c)) (\<lambda>_.
     rbind (require_random ''admin_cap'' (cap_admin c)) (\<lambda>_.
     reject (\<not> distinct [queue_id, cap_push c, cap_sub c, cap_admin c]) CapabilitiesNotIndependent (Inr ())))))"

definition require_len :: "bytes \<Rightarrow> nat \<Rightarrow> lease_error + unit" where
  "require_len wire expected = reject (length wire \<noteq> expected) (WrongLength expected (length wire)) (Inr ())"

definition require_header :: "byte \<Rightarrow> byte \<Rightarrow> byte \<Rightarrow> lease_error + unit" where
  "require_header version operation expected =
     reject (version \<noteq> LEASE_VERSION) (InvalidVersion version)
       (reject (operation \<noteq> expected) (InvalidOperation expected operation) (Inr ()))"

section \<open>The reader\<close>

definition lr_take :: "nat \<Rightarrow> bytes \<Rightarrow> lease_error + (bytes \<times> bytes)" where
  "lr_take n bs = (if length bs < n then Inl (WrongLength n (length bs)) else Inr (take n bs, drop n bs))"

definition lr_byte :: "bytes \<Rightarrow> lease_error + (byte \<times> bytes)" where
  "lr_byte bs = rbind (lr_take 1 bs) (\<lambda>(xs, rest). Inr (xs ! 0, rest))"

definition lr_array :: "bytes \<Rightarrow> lease_error + ('n::len arr \<times> bytes)" where
  "lr_array bs = rbind (lr_take LENGTH('n) bs) (\<lambda>(xs, rest). Inr (arr_pad xs, rest))"

definition lr_u16 :: "bytes \<Rightarrow> lease_error + (u16 \<times> bytes)" where
  "lr_u16 bs = rbind (lr_take 2 bs) (\<lambda>(xs, rest). Inr (de16 xs, rest))"

definition lr_u64 :: "bytes \<Rightarrow> lease_error + (u64 \<times> bytes)" where
  "lr_u64 bs = rbind (lr_take 8 bs) (\<lambda>(xs, rest). Inr (de64 xs, rest))"

named_theorems lease_read \<open>what the lease reader accepts\<close>

lemma lr_take_iff [lease_read]: "lr_take n bs = Inr (xs, rest) \<longleftrightarrow> bs = xs @ rest \<and> length xs = n"
  by (auto simp: lr_take_def)

lemma lr_byte_iff [lease_read]: "lr_byte bs = Inr (b, rest) \<longleftrightarrow> bs = b # rest"
  by (auto simp: lr_byte_def lr_take_iff length_Suc_conv)

lemma lr_array_iff [lease_read]: "lr_array bs = Inr (a, rest) \<longleftrightarrow> bs = list_of a @ rest"
  by (auto simp: lr_array_def lr_take_iff)

lemma lr_u16_iff [lease_read]: "lr_u16 bs = Inr (a, rest) \<longleftrightarrow> bs = be16 a @ rest"
  by (auto simp: lr_u16_def lr_take_iff be_de)

lemma lr_u64_iff [lease_read]: "lr_u64 bs = Inr (a, rest) \<longleftrightarrow> bs = be64 a @ rest"
  by (auto simp: lr_u64_def lr_take_iff be_de)

lemma last_field [lease_read]:
  "be64 x = be64 y @ rest \<longleftrightarrow> x = y \<and> rest = []" "list_of a = list_of b @ rest \<longleftrightarrow> a = b \<and> rest = []"
  by (metis append_Nil2 append_eq_append_conv be_inject(3) length_be(3), metis append_Nil2 append_eq_append_conv length_list_of list_of_inj)

section \<open>Dynamic grant requests\<close>

record grant_request =
  gr_authority_queue_id :: "32 arr"
  gr_authority_epoch :: u64
  gr_queue_id :: "32 arr"
  gr_epoch :: u64
  gr_limits :: lease_limits
  gr_nonce :: "16 arr"
  gr_expiry :: u64

definition request_validate :: "grant_request \<Rightarrow> lease_error + unit" where
  "request_validate r =
     rbind (require_random ''authority_queue_id'' (gr_authority_queue_id r)) (\<lambda>_.
     rbind (require_random ''queue_id'' (gr_queue_id r)) (\<lambda>_.
     rbind (require_random ''nonce'' (gr_nonce r)) (\<lambda>_.
     reject (gr_authority_epoch r = 0 \<or> gr_epoch r = 0) ZeroEpoch (
     reject (gr_authority_queue_id r = gr_queue_id r) CapabilitiesNotIndependent (
     reject (ll_max_queue_cells (gr_limits r) = 0 \<or> ll_max_queue_bytes (gr_limits r) = 0) GrantLimitExceeded
       (Inr ()))))))"

definition request_body :: "grant_request \<Rightarrow> bytes" where
  "request_body r =
     [LEASE_VERSION, OP_GRANT_REQUEST] @ list_of (gr_authority_queue_id r) @ be64 (gr_authority_epoch r)
     @ list_of (gr_queue_id r) @ be64 (gr_epoch r) @ be16 (ll_max_queue_cells (gr_limits r))
     @ be64 (ll_max_queue_bytes (gr_limits r)) @ list_of (gr_nonce r) @ be64 (gr_expiry r)"

definition request_encode :: "mac_fn \<Rightarrow> 32 arr \<Rightarrow> 32 arr \<Rightarrow> grant_request \<Rightarrow> lease_error + bytes" where
  "request_encode hmac admin_cap relay_service_id r =
     rbind (request_validate r) (\<lambda>_.
     Inr (request_body r @ list_of (hmac admin_cap (GRANT_REQUEST_DOMAIN @ list_of relay_service_id @ request_body r))))"

definition request_fields :: "bytes \<Rightarrow> lease_error + grant_request" where
  "request_fields bs =
     rbind (lr_byte bs) (\<lambda>(_, bs).
     rbind (lr_byte bs) (\<lambda>(_, bs).
     rbind (lr_array bs) (\<lambda>(authority_queue_id, bs).
     rbind (lr_u64 bs) (\<lambda>(authority_epoch, bs).
     rbind (lr_array bs) (\<lambda>(queue_id, bs).
     rbind (lr_u64 bs) (\<lambda>(epoch, bs).
     rbind (lr_u16 bs) (\<lambda>(cells, bs).
     rbind (lr_u64 bs) (\<lambda>(max_bytes, bs).
     rbind (lr_array bs) (\<lambda>(nonce, bs).
     rbind (lr_u64 bs) (\<lambda>(expiry, bs).
     Inr \<lparr>gr_authority_queue_id = authority_queue_id, gr_authority_epoch = authority_epoch, gr_queue_id = queue_id,
          gr_epoch = epoch, gr_limits = \<lparr>ll_max_queue_cells = cells, ll_max_queue_bytes = max_bytes\<rparr>,
          gr_nonce = nonce, gr_expiry = expiry\<rparr>))))))))))"

definition request_decode_and_verify ::
  "mac_fn \<Rightarrow> 32 arr \<Rightarrow> 32 arr \<Rightarrow> 32 arr \<Rightarrow> u64 \<Rightarrow> validation_policy \<Rightarrow> bytes \<Rightarrow> lease_error + grant_request" where
  "request_decode_and_verify hmac admin_cap relay_service_id authority_queue_id authority_epoch policy wire =
     rbind (require_len wire GRANT_REQUEST_LEN) (\<lambda>_.
     rbind (require_header (wire ! 0) (wire ! 1) OP_GRANT_REQUEST) (\<lambda>_.
     let authenticated_len = GRANT_REQUEST_LEN - TAG_LEN in
     reject (list_of (hmac admin_cap (GRANT_REQUEST_DOMAIN @ list_of relay_service_id @ take authenticated_len wire))
             \<noteq> drop authenticated_len wire) LInvalidMac (
     rbind (request_fields (take authenticated_len wire)) (\<lambda>r.
     reject (gr_authority_queue_id r \<noteq> authority_queue_id \<or> gr_authority_epoch r \<noteq> authority_epoch)
       AuthorityBindingMismatch (
     rbind (request_validate r) (\<lambda>_.
     rbind (validate_expiry policy (gr_expiry r)) (\<lambda>_. Inr r)))))))"

section \<open>Admission grants\<close>

record admission_grant =
  ag_relay_service_id :: "32 arr"
  ag_grant_id :: "16 arr"
  ag_grant_cap :: "32 arr"
  ag_queue_id :: "32 arr"
  ag_epoch :: u64
  ag_not_before :: u64
  ag_expiry :: u64
  ag_max_queue_cells :: u16
  ag_max_queue_bytes :: u64

definition grant_body :: "admission_grant \<Rightarrow> bytes" where
  "grant_body g =
     [LEASE_VERSION] @ list_of (ag_relay_service_id g) @ list_of (ag_grant_id g) @ list_of (ag_grant_cap g) @ [OP_CREATE]
     @ list_of (ag_queue_id g) @ be64 (ag_epoch g) @ be64 (ag_not_before g) @ be64 (ag_expiry g)
     @ be16 (ag_max_queue_cells g) @ be64 (ag_max_queue_bytes g)"

definition grant_encode :: "mac_fn \<Rightarrow> 32 arr \<Rightarrow> admission_grant \<Rightarrow> bytes" where
  "grant_encode hmac admit_key g =
     grant_body g @ list_of (hmac admit_key (GRANT_DOMAIN @ grant_body g @ EMPTY_FIELD))"

definition grant_decode_body :: "bytes \<Rightarrow> lease_error + admission_grant" where
  "grant_decode_body wire =
     rbind (require_len wire ADMISSION_GRANT_LEN) (\<lambda>_.
     rbind (require_header (wire ! 0) (wire ! 81) OP_CREATE) (\<lambda>_.
     rbind (lr_byte (take (ADMISSION_GRANT_LEN - TAG_LEN) wire)) (\<lambda>(_, bs).
     rbind (lr_array bs) (\<lambda>(relay_service_id, bs).
     rbind (lr_array bs) (\<lambda>(grant_id, bs).
     rbind (lr_array bs) (\<lambda>(grant_cap, bs).
     rbind (lr_byte bs) (\<lambda>(_, bs).
     rbind (lr_array bs) (\<lambda>(queue_id, bs).
     rbind (lr_u64 bs) (\<lambda>(epoch, bs).
     rbind (lr_u64 bs) (\<lambda>(not_before, bs).
     rbind (lr_u64 bs) (\<lambda>(expiry, bs).
     rbind (lr_u16 bs) (\<lambda>(cells, bs).
     rbind (lr_u64 bs) (\<lambda>(max_bytes, bs).
     Inr \<lparr>ag_relay_service_id = relay_service_id, ag_grant_id = grant_id, ag_grant_cap = grant_cap,
          ag_queue_id = queue_id, ag_epoch = epoch, ag_not_before = not_before, ag_expiry = expiry,
          ag_max_queue_cells = cells, ag_max_queue_bytes = max_bytes\<rparr>)))))))))))))"

definition grant_validate :: "validation_policy \<Rightarrow> admission_grant \<Rightarrow> lease_error + unit" where
  "grant_validate policy g =
     rbind (validate_policy policy) (\<lambda>_.
     rbind (require_random ''grant_id'' (ag_grant_id g)) (\<lambda>_.
     rbind (require_random ''grant_cap'' (ag_grant_cap g)) (\<lambda>_.
     rbind (require_random ''queue_id'' (ag_queue_id g)) (\<lambda>_.
     reject (ag_epoch g = 0) ZeroEpoch (
     reject (ag_expiry g \<le> ag_not_before g) InvalidGrantWindow (
     reject (sat_add (vp_now policy) (vp_skew policy) < ag_not_before g) (NotYetValid (ag_not_before g) (vp_now policy)) (
     validate_expiry policy (ag_expiry g))))))))"

definition grant_decode_and_verify ::
  "mac_fn \<Rightarrow> 32 arr \<Rightarrow> 32 arr \<Rightarrow> validation_policy \<Rightarrow> bytes \<Rightarrow> lease_error + admission_grant" where
  "grant_decode_and_verify hmac admit_key relay_service_id policy wire =
     rbind (require_len wire ADMISSION_GRANT_LEN) (\<lambda>_.
     rbind (require_header (wire ! 0) (wire ! 81) OP_CREATE) (\<lambda>_.
     reject (sub_list wire 1 33 \<noteq> list_of relay_service_id) RelayServiceMismatch (
     let authenticated_len = ADMISSION_GRANT_LEN - TAG_LEN in
     reject (list_of (hmac admit_key (GRANT_DOMAIN @ take authenticated_len wire @ EMPTY_FIELD))
             \<noteq> drop authenticated_len wire) LInvalidMac (
     rbind (grant_decode_body wire) (\<lambda>g.
     rbind (grant_validate policy g) (\<lambda>_. Inr g))))))"

section \<open>Creating a lease\<close>

record lease_create =
  lc_queue_id :: "32 arr"
  lc_epoch :: u64
  lc_lease_expiry :: u64
  lc_queue_cells :: u16
  lc_queue_bytes :: u64
  lc_capabilities :: capabilities
  lc_nonce :: "16 arr"
  lc_grant :: "180 arr"

definition create_mac :: "mac_fn \<Rightarrow> lease_create \<Rightarrow> 32 arr \<Rightarrow> 32 arr \<Rightarrow> 32 arr" where
  "create_mac hmac v relay_service_id grant_cap =
     hmac grant_cap (CREATE_DOMAIN @ [LEASE_VERSION] @ list_of relay_service_id @ list_of (lc_queue_id v) @ be64 (lc_epoch v)
       @ [OP_CREATE] @ be64 (lc_lease_expiry v) @ be16 (lc_queue_cells v) @ be64 (lc_queue_bytes v)
       @ list_of (cap_push (lc_capabilities v)) @ list_of (cap_sub (lc_capabilities v)) @ list_of (cap_admin (lc_capabilities v))
       @ list_of (lc_nonce v) @ be16 (of_nat ADMISSION_GRANT_LEN) @ list_of (lc_grant v))"

definition create_body :: "lease_create \<Rightarrow> bytes" where
  "create_body v =
     [LEASE_VERSION, OP_CREATE] @ list_of (lc_queue_id v) @ be64 (lc_epoch v) @ be64 (lc_lease_expiry v)
     @ be16 (lc_queue_cells v) @ be64 (lc_queue_bytes v) @ list_of (cap_push (lc_capabilities v))
     @ list_of (cap_sub (lc_capabilities v)) @ list_of (cap_admin (lc_capabilities v)) @ list_of (lc_nonce v)
     @ be16 (of_nat ADMISSION_GRANT_LEN) @ list_of (lc_grant v)"

definition create_encode :: "mac_fn \<Rightarrow> 32 arr \<Rightarrow> lease_create \<Rightarrow> bytes" where
  "create_encode hmac relay_service_id v =
     (let grant_cap = arr_pad (sub_list (list_of (lc_grant v)) 49 81)
      in create_body v @ list_of (create_mac hmac v relay_service_id grant_cap))"

definition create_decode_body :: "bytes \<Rightarrow> lease_error + lease_create" where
  "create_decode_body wire =
     rbind (require_len wire LEASE_CREATE_LEN) (\<lambda>_.
     rbind (require_header (wire ! 0) (wire ! 1) OP_CREATE) (\<lambda>_.
     let grant_len = de16 [wire ! 172, wire ! 173] in
     reject (grant_len \<noteq> of_nat ADMISSION_GRANT_LEN) (InvalidGrantLength grant_len) (
     rbind (lr_byte (take (LEASE_CREATE_LEN - TAG_LEN) wire)) (\<lambda>(_, bs).
     rbind (lr_byte bs) (\<lambda>(_, bs).
     rbind (lr_array bs) (\<lambda>(queue_id, bs).
     rbind (lr_u64 bs) (\<lambda>(epoch, bs).
     rbind (lr_u64 bs) (\<lambda>(lease_expiry, bs).
     rbind (lr_u16 bs) (\<lambda>(queue_cells, bs).
     rbind (lr_u64 bs) (\<lambda>(queue_bytes, bs).
     rbind (lr_array bs) (\<lambda>(push, bs).
     rbind (lr_array bs) (\<lambda>(sub, bs).
     rbind (lr_array bs) (\<lambda>(admin, bs).
     rbind (lr_array bs) (\<lambda>(nonce, bs).
     rbind (lr_u16 bs) (\<lambda>(_, bs).
     rbind (lr_array bs) (\<lambda>(grant, bs).
     Inr \<lparr>lc_queue_id = queue_id, lc_epoch = epoch, lc_lease_expiry = lease_expiry, lc_queue_cells = queue_cells,
          lc_queue_bytes = queue_bytes, lc_capabilities = \<lparr>cap_push = push, cap_sub = sub, cap_admin = admin\<rparr>,
          lc_nonce = nonce, lc_grant = grant\<rparr>))))))))))))))))"

definition create_validate :: "admission_grant \<Rightarrow> validation_policy \<Rightarrow> lease_limits \<Rightarrow> lease_create \<Rightarrow> lease_error + unit" where
  "create_validate grant policy relay_limits v =
     rbind (validate_policy policy) (\<lambda>_.
     reject (lc_epoch v = 0) ZeroEpoch (
     reject (lc_queue_id v \<noteq> ag_queue_id grant) QueueBindingMismatch (
     reject (lc_epoch v \<noteq> ag_epoch grant) EpochBindingMismatch (
     rbind (capabilities_validate (lc_capabilities v) (lc_queue_id v)) (\<lambda>_.
     rbind (require_random ''nonce'' (lc_nonce v)) (\<lambda>_.
     rbind (validate_expiry policy (lc_lease_expiry v)) (\<lambda>_.
     reject (ag_max_queue_cells grant < lc_queue_cells v \<or> ag_max_queue_bytes grant < lc_queue_bytes v) GrantLimitExceeded (
     reject (ll_max_queue_cells relay_limits < lc_queue_cells v \<or> ll_max_queue_bytes relay_limits < lc_queue_bytes v)
       RelayLimitExceeded (Inr ())))))))))"

definition create_decode_and_verify ::
  "mac_fn \<Rightarrow> 32 arr \<Rightarrow> 32 arr \<Rightarrow> validation_policy \<Rightarrow> validation_policy \<Rightarrow> lease_limits \<Rightarrow> bytes \<Rightarrow> lease_error + lease_create" where
  "create_decode_and_verify hmac admit_key relay_service_id grant_policy lease_policy relay_limits wire =
     rbind (require_len wire LEASE_CREATE_LEN) (\<lambda>_.
     rbind (require_header (wire ! 0) (wire ! 1) OP_CREATE) (\<lambda>_.
     let grant_len = de16 [wire ! 172, wire ! 173] in
     reject (grant_len \<noteq> of_nat ADMISSION_GRANT_LEN) (InvalidGrantLength grant_len) (
     rbind (create_decode_body wire) (\<lambda>v.
     rbind (grant_decode_and_verify hmac admit_key relay_service_id grant_policy (list_of (lc_grant v))) (\<lambda>grant.
     reject (list_of (create_mac hmac v relay_service_id (ag_grant_cap grant)) \<noteq> drop (LEASE_CREATE_LEN - TAG_LEN) wire)
       LInvalidMac (
     rbind (create_validate grant lease_policy relay_limits v) (\<lambda>_. Inr v)))))))"

section \<open>Renewing, rotating and revoking\<close>

definition short_mac :: "mac_fn \<Rightarrow> bytes \<Rightarrow> byte \<Rightarrow> 32 arr \<Rightarrow> u64 \<Rightarrow> u64 \<Rightarrow> 16 arr \<Rightarrow> 32 arr \<Rightarrow> 32 arr \<Rightarrow> 32 arr" where
  "short_mac hmac domain operation queue_id epoch expiry nonce key relay_service_id =
     hmac key (domain @ [LEASE_VERSION] @ list_of relay_service_id @ list_of queue_id @ be64 epoch @ [operation]
       @ be64 expiry @ list_of nonce @ EMPTY_FIELD)"

definition encode_short :: "mac_fn \<Rightarrow> byte \<Rightarrow> bytes \<Rightarrow> 32 arr \<Rightarrow> u64 \<Rightarrow> u64 \<Rightarrow> 16 arr \<Rightarrow> 32 arr \<Rightarrow> 32 arr \<Rightarrow> bytes" where
  "encode_short hmac operation domain queue_id epoch expiry nonce key relay_service_id =
     [LEASE_VERSION, operation] @ list_of queue_id @ be64 epoch @ be64 expiry @ list_of nonce
     @ list_of (short_mac hmac domain operation queue_id epoch expiry nonce key relay_service_id)"

definition decode_short ::
  "mac_fn \<Rightarrow> bytes \<Rightarrow> byte \<Rightarrow> bytes \<Rightarrow> 32 arr \<Rightarrow> 32 arr \<Rightarrow> lease_error + (32 arr \<times> u64 \<times> u64 \<times> 16 arr)" where
  "decode_short hmac wire operation domain key relay_service_id =
     rbind (require_len wire LEASE_RENEW_LEN) (\<lambda>_.
     rbind (require_header (wire ! 0) (wire ! 1) operation) (\<lambda>_.
     rbind (lr_byte (take (LEASE_RENEW_LEN - TAG_LEN) wire)) (\<lambda>(_, bs).
     rbind (lr_byte bs) (\<lambda>(_, bs).
     rbind (lr_array bs) (\<lambda>(queue_id, bs).
     rbind (lr_u64 bs) (\<lambda>(epoch, bs).
     rbind (lr_u64 bs) (\<lambda>(expiry, bs).
     rbind (lr_array bs) (\<lambda>(nonce, bs).
     reject (list_of (short_mac hmac domain operation queue_id epoch expiry nonce key relay_service_id)
             \<noteq> drop (LEASE_RENEW_LEN - TAG_LEN) wire) LInvalidMac
       (Inr (queue_id, epoch, expiry, nonce))))))))))"

record lease_renew =
  ln_queue_id :: "32 arr"
  ln_epoch :: u64
  ln_lease_expiry :: u64
  ln_nonce :: "16 arr"

definition renew_encode :: "mac_fn \<Rightarrow> 32 arr \<Rightarrow> 32 arr \<Rightarrow> lease_renew \<Rightarrow> bytes" where
  "renew_encode hmac admin_cap relay_service_id v =
     encode_short hmac OP_RENEW RENEW_DOMAIN (ln_queue_id v) (ln_epoch v) (ln_lease_expiry v) (ln_nonce v)
       admin_cap relay_service_id"

definition renew_decode_and_verify ::
  "mac_fn \<Rightarrow> 32 arr \<Rightarrow> 32 arr \<Rightarrow> u64 \<Rightarrow> validation_policy \<Rightarrow> bytes \<Rightarrow> lease_error + lease_renew" where
  "renew_decode_and_verify hmac admin_cap relay_service_id current_expiry policy wire =
     rbind (decode_short hmac wire OP_RENEW RENEW_DOMAIN admin_cap relay_service_id) (\<lambda>(queue_id, epoch, lease_expiry, nonce).
     let v = \<lparr>ln_queue_id = queue_id, ln_epoch = epoch, ln_lease_expiry = lease_expiry, ln_nonce = nonce\<rparr> in
     rbind (validate_policy policy) (\<lambda>_.
     rbind (require_random ''nonce'' (ln_nonce v)) (\<lambda>_.
     rbind (validate_expiry policy (ln_lease_expiry v)) (\<lambda>_.
     reject (ln_lease_expiry v \<le> current_expiry) RenewalDoesNotExtend (Inr v)))))"

record lease_rotate =
  lo_queue_id :: "32 arr"
  lo_old_epoch :: u64
  lo_new_epoch :: u64
  lo_lease_expiry :: u64
  lo_new_capabilities :: capabilities
  lo_nonce :: "16 arr"

definition rotate_mac :: "mac_fn \<Rightarrow> lease_rotate \<Rightarrow> 32 arr \<Rightarrow> 32 arr \<Rightarrow> 32 arr" where
  "rotate_mac hmac v relay_service_id admin_cap =
     hmac admin_cap (ROTATE_DOMAIN @ [LEASE_VERSION] @ list_of relay_service_id @ list_of (lo_queue_id v)
       @ be64 (lo_old_epoch v) @ [OP_ROTATE] @ be64 (lo_new_epoch v) @ be64 (lo_lease_expiry v)
       @ list_of (cap_push (lo_new_capabilities v)) @ list_of (cap_sub (lo_new_capabilities v))
       @ list_of (cap_admin (lo_new_capabilities v)) @ list_of (lo_nonce v) @ EMPTY_FIELD)"

definition rotate_encode :: "mac_fn \<Rightarrow> 32 arr \<Rightarrow> 32 arr \<Rightarrow> lease_rotate \<Rightarrow> bytes" where
  "rotate_encode hmac admin_cap relay_service_id v =
     [LEASE_VERSION, OP_ROTATE] @ list_of (lo_queue_id v) @ be64 (lo_old_epoch v) @ be64 (lo_new_epoch v)
     @ be64 (lo_lease_expiry v) @ list_of (cap_push (lo_new_capabilities v)) @ list_of (cap_sub (lo_new_capabilities v))
     @ list_of (cap_admin (lo_new_capabilities v)) @ list_of (lo_nonce v)
     @ list_of (rotate_mac hmac v relay_service_id admin_cap)"

definition rotate_validate :: "capabilities \<Rightarrow> validation_policy \<Rightarrow> lease_rotate \<Rightarrow> lease_error + unit" where
  "rotate_validate current_capabilities policy v =
     rbind (validate_policy policy) (\<lambda>_.
     reject (lo_old_epoch v = - 1) EpochOverflow (
     let expected = lo_old_epoch v + 1 in
     reject (lo_new_epoch v \<noteq> expected) (InvalidNewEpoch expected (lo_new_epoch v)) (
     rbind (capabilities_validate (lo_new_capabilities v) (lo_queue_id v)) (\<lambda>_.
     let old = [cap_push current_capabilities, cap_sub current_capabilities, cap_admin current_capabilities];
         new = [cap_push (lo_new_capabilities v), cap_sub (lo_new_capabilities v), cap_admin (lo_new_capabilities v)] in
     reject (list_ex (\<lambda>new_cap. list_ex (\<lambda>old_cap. new_cap = old_cap) old) new) CapabilityWasNotRotated (
     rbind (require_random ''nonce'' (lo_nonce v)) (\<lambda>_.
     validate_expiry policy (lo_lease_expiry v)))))))"

definition rotate_decode_and_verify ::
  "mac_fn \<Rightarrow> capabilities \<Rightarrow> 32 arr \<Rightarrow> validation_policy \<Rightarrow> bytes \<Rightarrow> lease_error + lease_rotate" where
  "rotate_decode_and_verify hmac current_capabilities relay_service_id policy wire =
     rbind (require_len wire LEASE_ROTATE_LEN) (\<lambda>_.
     rbind (require_header (wire ! 0) (wire ! 1) OP_ROTATE) (\<lambda>_.
     rbind (lr_byte (take (LEASE_ROTATE_LEN - TAG_LEN) wire)) (\<lambda>(_, bs).
     rbind (lr_byte bs) (\<lambda>(_, bs).
     rbind (lr_array bs) (\<lambda>(queue_id, bs).
     rbind (lr_u64 bs) (\<lambda>(old_epoch, bs).
     rbind (lr_u64 bs) (\<lambda>(new_epoch, bs).
     rbind (lr_u64 bs) (\<lambda>(lease_expiry, bs).
     rbind (lr_array bs) (\<lambda>(push, bs).
     rbind (lr_array bs) (\<lambda>(sub, bs).
     rbind (lr_array bs) (\<lambda>(admin, bs).
     rbind (lr_array bs) (\<lambda>(nonce, bs).
     let v = \<lparr>lo_queue_id = queue_id, lo_old_epoch = old_epoch, lo_new_epoch = new_epoch, lo_lease_expiry = lease_expiry,
              lo_new_capabilities = \<lparr>cap_push = push, cap_sub = sub, cap_admin = admin\<rparr>, lo_nonce = nonce\<rparr> in
     reject (list_of (rotate_mac hmac v relay_service_id (cap_admin current_capabilities))
             \<noteq> drop (LEASE_ROTATE_LEN - TAG_LEN) wire) LInvalidMac (
     rbind (rotate_validate current_capabilities policy v) (\<lambda>_. Inr v))))))))))))))"

record lease_revoke =
  lv_queue_id :: "32 arr"
  lv_epoch :: u64
  lv_operation_expiry :: u64
  lv_nonce :: "16 arr"

definition revoke_encode :: "mac_fn \<Rightarrow> 32 arr \<Rightarrow> 32 arr \<Rightarrow> lease_revoke \<Rightarrow> bytes" where
  "revoke_encode hmac admin_cap relay_service_id v =
     encode_short hmac OP_REVOKE REVOKE_DOMAIN (lv_queue_id v) (lv_epoch v) (lv_operation_expiry v) (lv_nonce v)
       admin_cap relay_service_id"

definition revoke_decode_and_verify ::
  "mac_fn \<Rightarrow> 32 arr \<Rightarrow> 32 arr \<Rightarrow> validation_policy \<Rightarrow> bytes \<Rightarrow> lease_error + lease_revoke" where
  "revoke_decode_and_verify hmac admin_cap relay_service_id policy wire =
     rbind (decode_short hmac wire OP_REVOKE REVOKE_DOMAIN admin_cap relay_service_id) (\<lambda>(queue_id, epoch, operation_expiry, nonce).
     let v = \<lparr>lv_queue_id = queue_id, lv_epoch = epoch, lv_operation_expiry = operation_expiry, lv_nonce = nonce\<rparr> in
     rbind (validate_policy policy) (\<lambda>_.
     rbind (require_random ''nonce'' (lv_nonce v)) (\<lambda>_.
     rbind (validate_expiry policy (lv_operation_expiry v)) (\<lambda>_. Inr v))))"

section \<open>The decoders invert the encoders\<close>

lemma tagged_iff:
  "length b = n \<Longrightarrow> take n w = b \<and> list_of (mac (take n w)) = drop n w \<longleftrightarrow> w = b @ list_of (mac b)"
  by (metis append_eq_conv_conj append_take_drop_id)

lemma require_len_iff: "require_len w n = Inr () \<longleftrightarrow> length w = n"
  by (simp add: require_len_def)

lemma require_header_iff: "require_header v op e = Inr () \<longleftrightarrow> v = LEASE_VERSION \<and> op = e"
  by (auto simp: require_header_def)

lemmas requires = require_len_iff require_header_iff

lemma rbind_pair_iff: "rbind m (\<lambda>(a, b). k a b) = Inr y \<longleftrightarrow> (\<exists>a b. m = Inr (a, b) \<and> k a b = Inr y)"
  by auto

lemma length_bodies:
  "length (request_body r) = 116" "length (grant_body g) = 148" "length (create_body v) = 354"
  by (simp_all add: request_body_def grant_body_def create_body_def)

lemma request_fields_iff:
  assumes "length b = 116"
  shows "b ! 0 = LEASE_VERSION \<and> b ! 1 = OP_GRANT_REQUEST \<and> request_fields b = Inr r \<longleftrightarrow> b = request_body r"
  (is "?L \<longleftrightarrow> ?R")
proof
  assume ?L
  then show ?R using assms
    by (auto simp: request_fields_def rbind_pair_iff lease_read request_body_def)
next
  assume ?R
  then show ?L
    by (cases r; cases "gr_limits r") (auto simp: request_fields_def lease_read request_body_def)
qed

lemma request_decode_iff:
  "request_decode_and_verify hmac cap sid aq ae policy w = Inr r \<longleftrightarrow>
     request_encode hmac cap sid r = Inr w \<and> gr_authority_queue_id r = aq \<and> gr_authority_epoch r = ae
     \<and> validate_expiry policy (gr_expiry r) = Inr ()"
proof (cases "length w = 148")
  case True
  have b: "length (take 116 w) = 116" using True by simp
  have "request_decode_and_verify hmac cap sid aq ae policy w = Inr r \<longleftrightarrow>
     ((take 116 w ! 0 = LEASE_VERSION \<and> take 116 w ! 1 = OP_GRANT_REQUEST \<and> request_fields (take 116 w) = Inr r)
     \<and> list_of (hmac cap (GRANT_REQUEST_DOMAIN @ list_of sid @ take 116 w)) = drop 116 w)
     \<and> gr_authority_queue_id r = aq \<and> gr_authority_epoch r = ae \<and> request_validate r = Inr ()
     \<and> validate_expiry policy (gr_expiry r) = Inr ()"
    using True by (auto simp: request_decode_and_verify_def requires GRANT_REQUEST_LEN_def TAG_LEN_def)
  then show ?thesis
    unfolding request_fields_iff [OF b] tagged_iff [OF length_bodies(1), where mac = "\<lambda>b. hmac cap (GRANT_REQUEST_DOMAIN @ list_of sid @ b)"]
    by (auto simp: request_encode_def)
qed (auto simp: request_decode_and_verify_def requires GRANT_REQUEST_LEN_def request_encode_def length_bodies)

lemma header2_iff:
  "length b = 2 + length xs \<Longrightarrow> b ! 0 = x \<Longrightarrow> b ! 1 = y \<Longrightarrow> (\<exists>a c rest. b = a # c # xs @ rest) \<longleftrightarrow> b = x # y # xs"
  by (metis One_nat_def add_diff_cancel_left' append.right_neutral append_eq_conv_conj diff_Suc_Suc diff_zero
      length_Cons nth_Cons_0 nth_Cons_Suc numeral_2_eq_2 take_all_iff order_refl)

lemma split_iff: "length b = n \<Longrightarrow> take n w = b \<and> t = drop n w \<longleftrightarrow> w = b @ t"
  by (metis append_eq_conv_conj append_take_drop_id)

text \<open>Admission grants.\<close>

lemma grant_decode_body_iff:
  "grant_decode_body w = Inr g \<longleftrightarrow> length w = 180 \<and> take 148 w = grant_body g"
  (is "?L \<longleftrightarrow> ?R")
proof
  assume L: ?L
  then have len: "length w = 180" "w ! 0 = LEASE_VERSION" "w ! 81 = OP_CREATE"
    by (simp_all add: grant_decode_body_def requires ADMISSION_GRANT_LEN_def)
  obtain x y rest where t: "take 148 w = x # list_of (ag_relay_service_id g) @ list_of (ag_grant_id g) @ list_of (ag_grant_cap g) @ y #
     list_of (ag_queue_id g) @ be64 (ag_epoch g) @ be64 (ag_not_before g) @ be64 (ag_expiry g)
     @ be16 (ag_max_queue_cells g) @ be64 (ag_max_queue_bytes g) @ rest"
    using L by (auto simp: grant_decode_body_def rbind_pair_iff lease_read ADMISSION_GRANT_LEN_def TAG_LEN_def)
  have "rest = []" using arg_cong [OF t, of length] len(1) by simp
  moreover have "x = LEASE_VERSION" using arg_cong [OF t, of "\<lambda>l. l ! 0"] len by simp
  moreover have "y = OP_CREATE" using arg_cong [OF t, of "\<lambda>l. l ! 81"] len by (simp add: nth_append)
  ultimately show ?R using t len(1) by (simp add: grant_body_def)
next
  assume R: ?R
  then have t: "take 148 w = grant_body g" by simp
  have "w ! 0 = LEASE_VERSION" "w ! 81 = OP_CREATE"
    using arg_cong [OF t, of "\<lambda>l. l ! 0"] arg_cong [OF t, of "\<lambda>l. l ! 81"] by (simp_all add: grant_body_def nth_append)
  with R show ?L
    by (simp add: grant_decode_body_def requires lease_read ADMISSION_GRANT_LEN_def TAG_LEN_def grant_body_def)
qed

lemma grant_decode_iff:
  "grant_decode_and_verify hmac key sid policy w = Inr g \<longleftrightarrow>
     w = grant_encode hmac key g \<and> ag_relay_service_id g = sid \<and> grant_validate policy g = Inr ()"
  (is "?L \<longleftrightarrow> ?R")
proof (cases "grant_decode_body w = Inr g")
  case True
  then have w: "length w = 180" "take 148 w = grant_body g" by (simp_all add: grant_decode_body_iff)
  have "sub_list w 1 33 = sub_list (take 148 w) 1 33" by (simp add: sub_list_def take_drop)
  then have s: "sub_list w 1 33 = list_of (ag_relay_service_id g)" by (simp add: w grant_body_def sub_list_def)
  have h: "w ! 0 = LEASE_VERSION" "w ! 81 = OP_CREATE"
    using True by (simp_all add: grant_decode_body_def requires)
  have "?L \<longleftrightarrow> (take 148 w = grant_body g \<and> list_of (hmac key (GRANT_DOMAIN @ take 148 w @ EMPTY_FIELD)) = drop 148 w)
      \<and> ag_relay_service_id g = sid \<and> grant_validate policy g = Inr ()"
    using True w s h by (auto simp: grant_decode_and_verify_def requires ADMISSION_GRANT_LEN_def TAG_LEN_def)
  then show ?thesis
    unfolding tagged_iff [OF length_bodies(2), where mac = "\<lambda>b. hmac key (GRANT_DOMAIN @ b @ EMPTY_FIELD)"] grant_encode_def .
next
  case False
  then have "w \<noteq> grant_encode hmac key g" by (auto simp: grant_decode_body_iff grant_encode_def length_bodies)
  with False show ?thesis by (auto simp: grant_decode_and_verify_def Let_def)
qed

text \<open>The two short operations share one form.\<close>

definition short_body :: "byte \<Rightarrow> 32 arr \<times> u64 \<times> u64 \<times> 16 arr \<Rightarrow> bytes" where
  "short_body op v = (case v of (q, e, x, n) \<Rightarrow> [LEASE_VERSION, op] @ list_of q @ be64 e @ be64 x @ list_of n)"

lemma length_short_body: "length (short_body op v) = 66"
  by (cases v) (simp add: short_body_def)

lemma decode_short_iff:
  "decode_short hmac w op domain key sid = Inr (q, e, x, n) \<longleftrightarrow> w = encode_short hmac op domain q e x n key sid"
proof (cases "length w = 98 \<and> w ! 0 = LEASE_VERSION \<and> w ! 1 = op")
  case True
  then have t: "take 66 w ! 0 = LEASE_VERSION" "take 66 w ! 1 = op" "length (take 66 w) = 66" by simp_all
  have "(\<exists>a b rest. take 66 w = a # b # list_of q @ be64 e @ be64 x @ list_of n @ rest) \<longleftrightarrow> take 66 w = short_body op (q, e, x, n)"
    using header2_iff [OF _ t(1,2), of "list_of q @ be64 e @ be64 x @ list_of n"] t(3) by (simp add: short_body_def)
  moreover have "decode_short hmac w op domain key sid = Inr (q, e, x, n) \<longleftrightarrow>
      (\<exists>a b rest. take 66 w = a # b # list_of q @ be64 e @ be64 x @ list_of n @ rest)
      \<and> list_of (short_mac hmac domain op q e x n key sid) = drop 66 w"
    using True by (auto simp: decode_short_def requires rbind_pair_iff lease_read LEASE_RENEW_LEN_def TAG_LEN_def)
  ultimately show ?thesis using split_iff [OF length_short_body, of w op "(q, e, x, n)"]
    by (simp add: encode_short_def short_body_def)
next
  case False
  then have "w \<noteq> encode_short hmac op domain q e x n key sid" by (auto simp: encode_short_def)
  with False show ?thesis by (auto simp: decode_short_def requires LEASE_RENEW_LEN_def)
qed

lemma renew_decode_iff:
  "renew_decode_and_verify hmac cap sid current policy w = Inr v \<longleftrightarrow>
     w = renew_encode hmac cap sid v \<and> validate_policy policy = Inr () \<and> require_random ''nonce'' (ln_nonce v) = Inr ()
     \<and> validate_expiry policy (ln_lease_expiry v) = Inr () \<and> current < ln_lease_expiry v"
  by (cases v) (auto simp: renew_decode_and_verify_def renew_encode_def decode_short_iff Let_def not_le)

lemma revoke_decode_iff:
  "revoke_decode_and_verify hmac cap sid policy w = Inr v \<longleftrightarrow>
     w = revoke_encode hmac cap sid v \<and> validate_policy policy = Inr () \<and> require_random ''nonce'' (lv_nonce v) = Inr ()
     \<and> validate_expiry policy (lv_operation_expiry v) = Inr ()"
  by (cases v) (auto simp: revoke_decode_and_verify_def revoke_encode_def decode_short_iff Let_def)

text \<open>Rotation.\<close>

definition rotate_body :: "lease_rotate \<Rightarrow> bytes" where
  "rotate_body v = [LEASE_VERSION, OP_ROTATE] @ list_of (lo_queue_id v) @ be64 (lo_old_epoch v) @ be64 (lo_new_epoch v)
     @ be64 (lo_lease_expiry v) @ list_of (cap_push (lo_new_capabilities v)) @ list_of (cap_sub (lo_new_capabilities v))
     @ list_of (cap_admin (lo_new_capabilities v)) @ list_of (lo_nonce v)"

lemma length_rotate_body: "length (rotate_body v) = 170"
  by (simp add: rotate_body_def)

lemma rotate_decode_iff:
  "rotate_decode_and_verify hmac caps sid policy w = Inr v \<longleftrightarrow>
     w = rotate_encode hmac (cap_admin caps) sid v \<and> rotate_validate caps policy v = Inr ()"
proof (cases "length w = 202 \<and> w ! 0 = LEASE_VERSION \<and> w ! 1 = OP_ROTATE")
  case True
  then have t: "take 170 w ! 0 = LEASE_VERSION" "take 170 w ! 1 = OP_ROTATE" "length (take 170 w) = 170" by simp_all
  obtain q oe ne x p s a n where v: "v = \<lparr>lo_queue_id = q, lo_old_epoch = oe, lo_new_epoch = ne, lo_lease_expiry = x,
      lo_new_capabilities = \<lparr>cap_push = p, cap_sub = s, cap_admin = a\<rparr>, lo_nonce = n\<rparr>"
    by (cases v; cases "lo_new_capabilities v") auto
  have "(\<exists>a' b rest. take 170 w = a' # b # list_of q @ be64 oe @ be64 ne @ be64 x @ list_of p @ list_of s @ list_of a @ list_of n @ rest)
      \<longleftrightarrow> take 170 w = rotate_body v"
    using header2_iff [OF _ t(1,2), of "list_of q @ be64 oe @ be64 ne @ be64 x @ list_of p @ list_of s @ list_of a @ list_of n"] t(3)
    by (simp add: rotate_body_def v)
  moreover have "rotate_decode_and_verify hmac caps sid policy w = Inr v \<longleftrightarrow>
      (\<exists>a' b rest. take 170 w = a' # b # list_of q @ be64 oe @ be64 ne @ be64 x @ list_of p @ list_of s @ list_of a @ list_of n @ rest)
      \<and> list_of (rotate_mac hmac v sid (cap_admin caps)) = drop 170 w \<and> rotate_validate caps policy v = Inr ()"
    using True by (auto simp: rotate_decode_and_verify_def requires rbind_pair_iff lease_read LEASE_ROTATE_LEN_def TAG_LEN_def Let_def v)
  moreover have "rotate_encode hmac (cap_admin caps) sid v = rotate_body v @ list_of (rotate_mac hmac v sid (cap_admin caps))"
    by (simp add: rotate_encode_def rotate_body_def)
  ultimately show ?thesis
    using split_iff [OF length_rotate_body, of w v "list_of (rotate_mac hmac v sid (cap_admin caps))"] by simp blast
next
  case False
  then have "w \<noteq> rotate_encode hmac (cap_admin caps) sid v" by (auto simp: rotate_encode_def)
  with False show ?thesis by (auto simp: rotate_decode_and_verify_def requires LEASE_ROTATE_LEN_def)
qed

text \<open>Creation.\<close>

lemma pair_sub_list: "Suc a < length w \<Longrightarrow> [w ! a, w ! Suc a] = take 2 (drop a w)"
  by (simp flip: Cons_nth_drop_Suc)

lemma de16_pair: "length w = 386 \<Longrightarrow> [w ! 172, w ! 173] = sub_list (take 354 w) 172 174"
  using pair_sub_list [of 172 w] by (simp add: sub_list_def drop_take)

lemma create_decode_body_iff:
  "create_decode_body w = Inr v \<longleftrightarrow> length w = 386 \<and> take 354 w = create_body v"
proof (cases "length w = 386 \<and> w ! 0 = LEASE_VERSION \<and> w ! 1 = OP_CREATE")
  case True
  then have t: "take 354 w ! 0 = LEASE_VERSION" "take 354 w ! 1 = OP_CREATE" "length (take 354 w) = 354" by simp_all
  obtain q e x c b p s a n g where v: "v = \<lparr>lc_queue_id = q, lc_epoch = e, lc_lease_expiry = x, lc_queue_cells = c,
      lc_queue_bytes = b, lc_capabilities = \<lparr>cap_push = p, cap_sub = s, cap_admin = a\<rparr>, lc_nonce = n, lc_grant = g\<rparr>"
    by (cases v; cases "lc_capabilities v") auto
  let ?F = "\<lambda>l. list_of q @ be64 e @ be64 x @ be16 c @ be64 b @ list_of p @ list_of s @ list_of a @ list_of n @ be16 l @ list_of g"
  have h: "(\<exists>a' b' rest. take 354 w = a' # b' # ?F l @ rest) \<longleftrightarrow> take 354 w = LEASE_VERSION # OP_CREATE # ?F l" for l
    using header2_iff [OF _ t(1,2), of "?F l"] t(3) by simp
  have l: "de16 [w ! 172, w ! 173] = l" if "take 354 w = LEASE_VERSION # OP_CREATE # ?F l" for l
    using True by (simp add: de16_pair that) (simp add: sub_list_def)
  have "create_decode_body w = Inr v \<longleftrightarrow> de16 [w ! 172, w ! 173] = of_nat ADMISSION_GRANT_LEN
      \<and> (\<exists>l a' b' rest. take 354 w = a' # b' # ?F l @ rest)"
    using True by (auto simp: create_decode_body_def requires rbind_pair_iff lease_read LEASE_CREATE_LEN_def TAG_LEN_def Let_def v)
  also have "\<dots> \<longleftrightarrow> take 354 w = LEASE_VERSION # OP_CREATE # ?F (of_nat ADMISSION_GRANT_LEN)"
    unfolding h using l by metis
  finally show ?thesis using True by (simp add: create_body_def v)
next
  case False
  have "\<not> (length w = 386 \<and> take 354 w = create_body v)"
  proof
    assume a: "length w = 386 \<and> take 354 w = create_body v"
    then have c: "take 354 w = create_body v" by simp
    have "w ! 0 = LEASE_VERSION" "w ! 1 = OP_CREATE"
      using arg_cong [OF c, of "\<lambda>l. l ! 0"] arg_cong [OF c, of "\<lambda>l. l ! 1"] by (simp_all add: create_body_def)
    with a False show False by simp
  qed
  with False show ?thesis by (auto simp: create_decode_body_def requires LEASE_CREATE_LEN_def)
qed

lemma create_decode_iff:
  "create_decode_and_verify hmac key sid gpolicy policy limits w = Inr v \<longleftrightarrow>
     w = create_encode hmac sid v
     \<and> (\<exists>g. list_of (lc_grant v) = grant_encode hmac key g \<and> ag_relay_service_id g = sid \<and> grant_validate gpolicy g = Inr ()
          \<and> create_validate g policy limits v = Inr ())"
  (is "?L \<longleftrightarrow> ?R")
proof -
  have cap: "arr_pad (sub_list (list_of (lc_grant v)) 49 81) = ag_grant_cap g" if "list_of (lc_grant v) = grant_encode hmac key g" for g
    by (simp add: that grant_encode_def grant_body_def sub_list_def)
  have enc: "create_encode hmac sid v = create_body v @ list_of (create_mac hmac v sid (ag_grant_cap g))"
    if "list_of (lc_grant v) = grant_encode hmac key g" for g
    using cap [OF that] by (simp add: create_encode_def)
  have tail: "create_decode_body w = Inr v \<and> list_of t = drop 354 w \<longleftrightarrow> w = create_body v @ list_of t" for t :: "32 arr"
    using split_iff [OF length_bodies(3), of w v "list_of t"] by (auto simp: create_decode_body_iff length_bodies)
  have "?L \<longleftrightarrow> (\<exists>g. (create_decode_body w = Inr v \<and> list_of (create_mac hmac v sid (ag_grant_cap g)) = drop 354 w)
      \<and> grant_decode_and_verify hmac key sid gpolicy (list_of (lc_grant v)) = Inr g \<and> create_validate g policy limits v = Inr ())"
    (is "_ \<longleftrightarrow> ?M")
  proof
    show "?L \<Longrightarrow> ?M" by (auto simp: create_decode_and_verify_def Let_def LEASE_CREATE_LEN_def TAG_LEN_def)
    show "?M \<Longrightarrow> ?L"
      by (auto simp: create_decode_and_verify_def create_decode_body_def requires Let_def LEASE_CREATE_LEN_def TAG_LEN_def)
  qed
  then show ?thesis unfolding tail grant_decode_iff using enc by metis
qed

section \<open>Retained aliases\<close>

text \<open>
  The owner keeps the accepted create operation with an alias and checks the binding again before
  using it. \<open>b64\<close> is \<open>Base64UrlUnpadded::encode_string\<close> of the \<open>base64ct\<close> crate.
\<close>

record retained_alias_binding =
  rb_payload :: bytes
  rb_relay_service_id :: "32 arr"
  rb_queue_id :: "32 arr"
  rb_epoch :: u64
  rb_expiry :: u64
  rb_push_cap :: "32 arr"
  rb_capabilities :: capabilities
  rb_create_path :: bytes
  rb_limits :: lease_limits

definition check_renewal ::
  "mac_fn \<Rightarrow> retained_alias_binding \<Rightarrow> lease_create \<Rightarrow> bytes option \<Rightarrow> lease_error + unit" where
  "check_renewal hmac alias create renewal =
     (case renewal of
        Some wire \<Rightarrow>
          rbind (decode_short hmac wire OP_RENEW RENEW_DOMAIN (cap_admin (rb_capabilities alias)) (rb_relay_service_id alias))
            (\<lambda>(queue, epoch, expiry, nonce).
          rbind (require_random ''nonce'' nonce) (\<lambda>_.
          reject (queue \<noteq> lc_queue_id create \<or> epoch \<noteq> lc_epoch create \<or> expiry \<noteq> rb_expiry alias
             \<or> expiry < lc_lease_expiry create) AuthorityBindingMismatch (Inr ())))
      | None \<Rightarrow> reject (lc_lease_expiry create \<noteq> rb_expiry alias) AuthorityBindingMismatch (Inr ()))"

definition validate_retained_alias_binding ::
  "mac_fn \<Rightarrow> (bytes \<Rightarrow> bytes) \<Rightarrow> retained_alias_binding \<Rightarrow> bytes option \<Rightarrow> lease_error + unit" where
  "validate_retained_alias_binding hmac b64 alias renewal =
     rbind (create_decode_body (rb_payload alias)) (\<lambda>create.
     rbind (grant_decode_body (list_of (lc_grant create))) (\<lambda>grant.
     reject (ag_relay_service_id grant \<noteq> rb_relay_service_id alias) RelayServiceMismatch (
     reject (lc_queue_id create \<noteq> rb_queue_id alias \<or> ag_queue_id grant \<noteq> lc_queue_id create) QueueBindingMismatch (
     reject (lc_epoch create \<noteq> rb_epoch alias \<or> ag_epoch grant \<noteq> lc_epoch create \<or> lc_epoch create = 0)
       EpochBindingMismatch (
     rbind (check_renewal hmac alias create renewal) (\<lambda>_.
     reject (lc_capabilities create \<noteq> rb_capabilities alias \<or> rb_push_cap alias \<noteq> cap_push (lc_capabilities create)
        \<or> rb_create_path alias \<noteq> b64 (list_of (ag_grant_cap grant))) AuthorityBindingMismatch (
     reject (lc_queue_cells create \<noteq> ll_max_queue_cells (rb_limits alias)
        \<or> lc_queue_bytes create \<noteq> ll_max_queue_bytes (rb_limits alias)
        \<or> ag_max_queue_cells grant < lc_queue_cells create \<or> ag_max_queue_bytes grant < lc_queue_bytes create
        \<or> lc_queue_cells create = 0 \<or> lc_queue_bytes create = 0) GrantLimitExceeded (
     reject (ag_expiry grant \<le> ag_not_before grant) InvalidGrantWindow (
     rbind (capabilities_validate (lc_capabilities create) (lc_queue_id create)) (\<lambda>_.
     rbind (require_random ''nonce'' (lc_nonce create)) (\<lambda>_.
     rbind (require_random ''grant_id'' (ag_grant_id grant)) (\<lambda>_.
     rbind (require_random ''grant_cap'' (ag_grant_cap grant)) (\<lambda>_.
     reject (list_of (create_mac hmac create (rb_relay_service_id alias) (ag_grant_cap grant))
             \<noteq> drop (LEASE_CREATE_LEN - TAG_LEN) (rb_payload alias)) LInvalidMac (Inr ()))))))))))))))"

text \<open>What the owner retains of an accepted create operation \<open>w\<close> with value \<open>v\<close>, renewed until \<open>expiry\<close>.\<close>

definition retained_of :: "(bytes \<Rightarrow> bytes) \<Rightarrow> 32 arr \<Rightarrow> bytes \<Rightarrow> lease_create \<Rightarrow> u64 \<Rightarrow> retained_alias_binding" where
  "retained_of b64 sid w v expiry =
     \<lparr>rb_payload = w, rb_relay_service_id = sid, rb_queue_id = lc_queue_id v, rb_epoch = lc_epoch v, rb_expiry = expiry,
      rb_push_cap = cap_push (lc_capabilities v), rb_capabilities = lc_capabilities v,
      rb_create_path = b64 (sub_list (list_of (lc_grant v)) 49 81),
      rb_limits = \<lparr>ll_max_queue_cells = lc_queue_cells v, ll_max_queue_bytes = lc_queue_bytes v\<rparr>\<rparr>"

lemma retained_accepted:
  assumes "create_decode_and_verify hmac key sid gpolicy policy limits w = Inr v"
    and "0 < lc_queue_cells v" "0 < lc_queue_bytes v"
    and renewal: "check_renewal hmac (retained_of b64 sid w v expiry) v renewal = Inr ()"
  shows "validate_retained_alias_binding hmac b64 (retained_of b64 sid w v expiry) renewal = Inr ()"
proof -
  from assms(1) obtain g where w: "w = create_encode hmac sid v" and g: "list_of (lc_grant v) = grant_encode hmac key g"
    "ag_relay_service_id g = sid" "grant_validate gpolicy g = Inr ()" "create_validate g policy limits v = Inr ()"
    by (auto simp: create_decode_iff)
  have cap: "sub_list (list_of (lc_grant v)) 49 81 = list_of (ag_grant_cap g)"
    by (simp add: g(1) grant_encode_def grant_body_def sub_list_def)
  have enc: "w = create_body v @ list_of (create_mac hmac v sid (ag_grant_cap g))"
    using cap by (simp add: w create_encode_def)
  have "create_decode_body w = Inr v" by (simp add: create_decode_body_iff enc length_bodies)
  moreover have "grant_decode_body (list_of (lc_grant v)) = Inr g"
    by (simp add: grant_decode_body_iff g(1) grant_encode_def length_bodies)
  moreover have "drop 354 w = list_of (create_mac hmac v sid (ag_grant_cap g))" by (simp add: enc length_bodies)
  moreover have "lc_queue_cells v \<noteq> 0" "lc_queue_bytes v \<noteq> 0" using assms(2,3) by auto
  moreover have "lc_epoch v \<noteq> 0" "ag_queue_id g = lc_queue_id v" "ag_epoch g = lc_epoch v"
    "capabilities_validate (lc_capabilities v) (lc_queue_id v) = Inr ()" "require_random ''nonce'' (lc_nonce v) = Inr ()"
    "lc_queue_cells v \<le> ag_max_queue_cells g" "lc_queue_bytes v \<le> ag_max_queue_bytes g"
    using g(4) by (auto simp: create_validate_def not_less)
  moreover have "ag_not_before g < ag_expiry g" "require_random ''grant_id'' (ag_grant_id g) = Inr ()"
    "require_random ''grant_cap'' (ag_grant_cap g) = Inr ()"
    using g(3) by (auto simp: grant_validate_def)
  ultimately show ?thesis
    using renewal g(2) cap
    by (simp add: validate_retained_alias_binding_def retained_of_def LEASE_CREATE_LEN_def TAG_LEN_def not_le not_less)
qed

section \<open>Properties\<close>

text \<open>
  C25: relay lease operations are canonical and authenticated. Each decoder accepts a wire form exactly
  when it is the encoder's output for the decoded value under the same key and service identity and
  the value passes that operation's checks; a creation also carries a grant encoded under the relay's
  admission key for this relay, valid under the grant policy, with which the creation is consistent.
\<close>

theorem lease_operations_canonical:
  "(request_decode_and_verify hmac cap sid aq ae policy w = Inr r \<longleftrightarrow>
      request_encode hmac cap sid r = Inr w \<and> gr_authority_queue_id r = aq \<and> gr_authority_epoch r = ae
      \<and> validate_expiry policy (gr_expiry r) = Inr ())
   \<and> (grant_decode_and_verify hmac key sid policy w = Inr g \<longleftrightarrow>
      w = grant_encode hmac key g \<and> ag_relay_service_id g = sid \<and> grant_validate policy g = Inr ())
   \<and> (create_decode_and_verify hmac key sid gpolicy policy limits w = Inr c \<longleftrightarrow>
      w = create_encode hmac sid c
      \<and> (\<exists>g. list_of (lc_grant c) = grant_encode hmac key g \<and> ag_relay_service_id g = sid
             \<and> grant_validate gpolicy g = Inr () \<and> create_validate g policy limits c = Inr ()))
   \<and> (renew_decode_and_verify hmac cap sid current policy w = Inr n \<longleftrightarrow>
      w = renew_encode hmac cap sid n \<and> validate_policy policy = Inr () \<and> require_random ''nonce'' (ln_nonce n) = Inr ()
      \<and> validate_expiry policy (ln_lease_expiry n) = Inr () \<and> current < ln_lease_expiry n)
   \<and> (rotate_decode_and_verify hmac caps sid policy w = Inr v \<longleftrightarrow>
      w = rotate_encode hmac (cap_admin caps) sid v \<and> rotate_validate caps policy v = Inr ())
   \<and> (revoke_decode_and_verify hmac cap sid policy w = Inr k \<longleftrightarrow>
      w = revoke_encode hmac cap sid k \<and> validate_policy policy = Inr () \<and> require_random ''nonce'' (lv_nonce k) = Inr ()
      \<and> validate_expiry policy (lv_operation_expiry k) = Inr ())"
  by (intro conjI request_decode_iff grant_decode_iff create_decode_iff renew_decode_iff rotate_decode_iff revoke_decode_iff)

text \<open>
  A lease the relay accepted stays usable for its owner. If the relay's decoder accepts a
  creation with non-zero limits, the owner's check of the retained alias built from it succeeds, and
  it still succeeds with a renewal the relay accepts for that queue, epoch and expiry.
\<close>

lemma accepted_lease_retained:
  assumes "create_decode_and_verify hmac key sid gpolicy policy limits w = Inr v"
    and "0 < lc_queue_cells v" and "0 < lc_queue_bytes v"
  shows "validate_retained_alias_binding hmac b64 (retained_of b64 sid w v (lc_lease_expiry v)) None = Inr ()
    \<and> (renew_decode_and_verify hmac (cap_admin (lc_capabilities v)) sid (lc_lease_expiry v) rpolicy r = Inr n
         \<and> ln_queue_id n = lc_queue_id v \<and> ln_epoch n = lc_epoch v
       \<longrightarrow> validate_retained_alias_binding hmac b64 (retained_of b64 sid w v (ln_lease_expiry n)) (Some r) = Inr ())"
proof -
  have "check_renewal hmac (retained_of b64 sid w v (lc_lease_expiry v)) v None = Inr ()"
    by (simp add: check_renewal_def retained_of_def)
  moreover have "check_renewal hmac (retained_of b64 sid w v (ln_lease_expiry n)) v (Some r) = Inr ()"
    if "renew_decode_and_verify hmac (cap_admin (lc_capabilities v)) sid (lc_lease_expiry v) rpolicy r = Inr n"
      "ln_queue_id n = lc_queue_id v" "ln_epoch n = lc_epoch v"
  proof -
    have "decode_short hmac r OP_RENEW RENEW_DOMAIN (cap_admin (lc_capabilities v)) sid
        = Inr (ln_queue_id n, ln_epoch n, ln_lease_expiry n, ln_nonce n)"
      and "require_random ''nonce'' (ln_nonce n) = Inr ()" "lc_lease_expiry v < ln_lease_expiry n"
      using that(1) by (simp_all add: renew_decode_iff renew_encode_def decode_short_iff)
    with that(2,3) show ?thesis by (simp add: check_renewal_def retained_of_def)
  qed
  ultimately show ?thesis using retained_accepted [OF assms] by blast
qed

text \<open>
  C26: what an accepted rotation guarantees. The epoch advances by exactly one without wrapping, the
  queue identifier and the three new capabilities are non-zero and pairwise distinct, none of them is
  one of the three old ones, and the lease has not expired beyond the allowed clock skew.
\<close>

theorem rotation_replaces_authority:
  assumes "rotate_decode_and_verify hmac caps sid policy w = Inr v"
  shows "unat (lo_new_epoch v) = unat (lo_old_epoch v) + 1
    \<and> distinct [lo_queue_id v, cap_push (lo_new_capabilities v), cap_sub (lo_new_capabilities v), cap_admin (lo_new_capabilities v)]
    \<and> arr_fill 0 \<notin> {lo_queue_id v, cap_push (lo_new_capabilities v), cap_sub (lo_new_capabilities v), cap_admin (lo_new_capabilities v)}
    \<and> {cap_push (lo_new_capabilities v), cap_sub (lo_new_capabilities v), cap_admin (lo_new_capabilities v)}
       \<inter> {cap_push caps, cap_sub caps, cap_admin caps} = {}
    \<and> unat (vp_now policy) < unat (lo_lease_expiry v) + unat (vp_skew policy)"
proof -
  have "rotate_validate caps policy v = Inr ()" using assms by (simp add: rotate_decode_iff)
  then have v: "lo_old_epoch v \<noteq> - 1" "lo_new_epoch v = lo_old_epoch v + 1"
    "capabilities_validate (lo_new_capabilities v) (lo_queue_id v) = Inr ()"
    "\<not> list_ex (\<lambda>new_cap. list_ex (\<lambda>old_cap. new_cap = old_cap) [cap_push caps, cap_sub caps, cap_admin caps])
       [cap_push (lo_new_capabilities v), cap_sub (lo_new_capabilities v), cap_admin (lo_new_capabilities v)]"
    "validate_expiry policy (lo_lease_expiry v) = Inr ()"
    by (auto simp: rotate_validate_def Let_def)
  have nz: "require_random f a = Inr () \<Longrightarrow> a \<noteq> arr_fill 0" for f and a :: "32 arr"
    by (auto simp: require_random_def list_of_arr_fill list_all_iff)
  have "1 + lo_old_epoch v \<noteq> 0" using v(1) by (metis eq_neg_iff_add_eq_0 add.commute)
  from unatSuc [OF this] have "unat (lo_new_epoch v) = unat (lo_old_epoch v) + 1" using v(2) by (simp add: add.commute)
  moreover have "unat (vp_now policy) < unat (lo_lease_expiry v) + unat (vp_skew policy)"
    using v(5) unsigned_less [of "vp_now policy", where 'a = nat]
    by (auto simp: validate_expiry_def sat_add_def not_le word_less_nat_alt unat_word_ariths split: if_splits)
  ultimately show ?thesis using v(3,4) by (auto simp: capabilities_validate_def dest!: nz)
qed

section \<open>A concrete lease\<close>

definition demo_hmac :: mac_fn where "demo_hmac k m = k"

definition demo_policy :: validation_policy where
  "demo_policy = \<lparr>vp_now = 100, vp_skew = 10, vp_max_expiry = 1000\<rparr>"

definition demo_caps :: "byte \<Rightarrow> capabilities" where
  "demo_caps n = \<lparr>cap_push = arr_fill n, cap_sub = arr_fill (n + 1), cap_admin = arr_fill (n + 2)\<rparr>"

definition demo_grant :: admission_grant where
  "demo_grant = \<lparr>ag_relay_service_id = arr_fill 1, ag_grant_id = arr_fill 2, ag_grant_cap = arr_fill 3, ag_queue_id = arr_fill 4,
     ag_epoch = 1, ag_not_before = 50, ag_expiry = 500, ag_max_queue_cells = 8, ag_max_queue_bytes = 4096\<rparr>"

definition demo_create :: lease_create where
  "demo_create = \<lparr>lc_queue_id = arr_fill 4, lc_epoch = 1, lc_lease_expiry = 400, lc_queue_cells = 4, lc_queue_bytes = 1024,
     lc_capabilities = demo_caps 5, lc_nonce = arr_fill 9, lc_grant = arr_pad (grant_encode demo_hmac (arr_fill 7) demo_grant)\<rparr>"

definition demo_rotate :: lease_rotate where
  "demo_rotate = \<lparr>lo_queue_id = arr_fill 4, lo_old_epoch = 1, lo_new_epoch = 2, lo_lease_expiry = 400,
     lo_new_capabilities = demo_caps 10, lo_nonce = arr_fill 9\<rparr>"

definition demo_limits :: lease_limits where
  "demo_limits = \<lparr>ll_max_queue_cells = 16, ll_max_queue_bytes = 8192\<rparr>"

lemma require_random_fill [simp]: "require_random f (arr_fill b :: 'n::len arr) = Inr () \<longleftrightarrow> b \<noteq> 0"
  by (auto simp: require_random_def list_of_arr_fill list_all_iff)

lemmas demo_lease = demo_policy_def demo_caps_def demo_grant_def demo_create_def demo_rotate_def demo_limits_def
  validate_policy_def validate_expiry_def MAX_CLOCK_SKEW_SECS_def sat_add_def capabilities_validate_def

lemma demo_rotate_accepted:
  "rotate_decode_and_verify demo_hmac (demo_caps 5) (arr_fill 1) demo_policy
     (rotate_encode demo_hmac (cap_admin (demo_caps 5)) (arr_fill 1) demo_rotate) = Inr demo_rotate"
  by (simp add: rotate_decode_iff rotate_validate_def demo_lease)

theorem rotation_replaces_authority_witness:
  "unat (lo_new_epoch demo_rotate) = unat (lo_old_epoch demo_rotate) + 1"
  using rotation_replaces_authority [OF demo_rotate_accepted] by blast

end
