(* ===== verification/Node_Info.thy ===== *)
theory Node_Info
  imports Relay_Cells Leases Identity
begin

text \<open>
  Node cards and the peer payload envelope: alias contacts, owned aliases, provisions and forwarding
  grants of \<open>crates/protocol/src/alias.rs\<close>, and \<open>NodeInfo\<close> with the payload kinds of
  \<open>crates/protocol/src/proto.rs\<close>. Cursor-based parsing over \<open>(buf, p)\<close> is reading from the suffix at
  \<open>p\<close>. Strings are their UTF-8 bytes.
\<close>

section \<open>Contacts, aliases and provisions\<close>

record alias_contact =
  ac_target :: relay_target
  ac_queue_id :: "32 arr"
  ac_epoch :: u64
  ac_push_cap :: "32 arr"
  ac_expiry :: u64

record owned_alias =
  oa_contact :: alias_contact
  oa_capabilities :: capabilities
  oa_limits :: lease_limits
  oa_create_path :: bytes
  oa_lease_create :: cell

record relay_provision =
  rv_aliases :: "owned_alias list"
  rv_frwd_path :: bytes
  rv_hop_key :: "32 arr"

record forward_grant =
  fg_target :: relay_target
  fg_frwd_path :: bytes
  fg_hop_key :: "32 arr"
  fg_expires_at :: u64
  fg_issued_by :: bytes

definition owned_zeroize :: "owned_alias \<Rightarrow> owned_alias" where
  "owned_zeroize a =
     a\<lparr>oa_capabilities := \<lparr>cap_push = arr_fill 0, cap_sub = arr_fill 0, cap_admin = arr_fill 0\<rparr>,
       oa_lease_create := (oa_lease_create a)\<lparr>c_payload := replicate (length (c_payload (oa_lease_create a))) 0\<rparr>,
       oa_create_path := []\<rparr>"

definition provision_alias :: "relay_provision \<Rightarrow> nat \<Rightarrow> owned_alias option" where
  "provision_alias p index = (if index < length (rv_aliases p) then Some (rv_aliases p ! index) else None)"

definition provision_forward_grant :: "u64 \<Rightarrow> bytes \<Rightarrow> relay_provision \<Rightarrow> forward_grant option" where
  "provision_forward_grant expires_at issued_by p =
     (case rv_aliases p of
        [] \<Rightarrow> None
      | a # _ \<Rightarrow> Some \<lparr>fg_target = ac_target (oa_contact a), fg_frwd_path = rv_frwd_path p, fg_hop_key = rv_hop_key p,
                       fg_expires_at = expires_at, fg_issued_by = issued_by\<rparr>)"

definition GRANT_MAX_ENCODED :: nat where "GRANT_MAX_ENCODED = 4 * 1024"

definition forward_grant_encode :: "forward_grant \<Rightarrow> bytes" where
  "forward_grant_encode g =
     [1] @ target_encode (fg_target g) @ be16 (of_nat (length (fg_frwd_path g))) @ fg_frwd_path g @ list_of (fg_hop_key g)
     @ be64 (fg_expires_at g) @ be16 (of_nat (length (fg_issued_by g))) @ fg_issued_by g"

definition target_decode_public :: "bytes \<Rightarrow> relay_target option" where
  "target_decode_public encoded = (case target_decode encoded of Inl _ \<Rightarrow> None | Inr t \<Rightarrow> Some t)"

definition forward_grant_decode :: "bytes \<Rightarrow> forward_grant option" where
  "forward_grant_decode buf =
     (if GRANT_MAX_ENCODED < length buf then None else
      Option.bind (rd_u8 buf) (\<lambda>(version, bs).
      if version \<noteq> 1 then None else
      Option.bind (rd 51 bs) (\<lambda>(encoded, bs).
      Option.bind (target_decode_public encoded) (\<lambda>target.
      Option.bind (take16 bs) (\<lambda>(path, bs).
      Option.bind (from_utf8 path) (\<lambda>frwd_path.
      if frwd_path = [] \<or> 64 < length frwd_path then None else
      Option.bind (rd_arr bs) (\<lambda>(hop_key, bs).
      if hop_key = arr_fill 0 then None else
      Option.bind (rd_u64 bs) (\<lambda>(expires_at, bs).
      Option.bind (take16 bs) (\<lambda>(issued_by, bs).
      if bs \<noteq> [] then None else
      Some \<lparr>fg_target = target, fg_frwd_path = frwd_path, fg_hop_key = hop_key, fg_expires_at = expires_at,
            fg_issued_by = issued_by\<rparr>)))))))))"

section \<open>Contacts on the wire\<close>

definition put_contact :: "alias_contact \<Rightarrow> bytes" where
  "put_contact c =
     ip_bytes (sa_ip (rt_address (ac_target c))) @ be16 (sa_port (rt_address (ac_target c)))
     @ list_of (rt_service (ac_target c)) @ list_of (ac_queue_id c) @ be64 (ac_epoch c) @ list_of (ac_push_cap c)
     @ be64 (ac_expiry c)"

definition contact_ip :: "byte \<Rightarrow> 16 arr \<Rightarrow> ip_addr option" where
  "contact_ip family address_bytes =
     (if family = 4 \<and> list_all (\<lambda>b. b = 0) (drop 4 (list_of address_bytes)) then Some (V4 (arr_pad (take 4 (list_of address_bytes))))
      else if family = 6 then Some (V6 address_bytes) else None)"

definition take_contact :: "bytes \<Rightarrow> (alias_contact \<times> bytes) option" where
  "take_contact bs =
     Option.bind (rd_u8 bs) (\<lambda>(family, bs).
     Option.bind (rd_arr bs) (\<lambda>(address_bytes, bs).
     Option.bind (contact_ip family address_bytes) (\<lambda>ip.
     Option.bind (rd_u16 bs) (\<lambda>(port, bs).
     Option.bind (rd_arr bs) (\<lambda>(relay_service_id, bs).
     Option.bind (rd_arr bs) (\<lambda>(queue_id, bs).
     Option.bind (rd_u64 bs) (\<lambda>(epoch, bs).
     Option.bind (rd_arr bs) (\<lambda>(push_cap, bs).
     Option.bind (rd_u64 bs) (\<lambda>(expiry, bs).
     Some (\<lparr>ac_target = \<lparr>rt_address = \<lparr>sa_ip = ip, sa_port = port\<rparr>, rt_service = relay_service_id\<rparr>,
            ac_queue_id = queue_id, ac_epoch = epoch, ac_push_cap = push_cap, ac_expiry = expiry\<rparr>, bs))))))))))"

lemma contact_ip_iff: "contact_ip f a = Some ip \<longleftrightarrow> ip_bytes ip = f # list_of a"
proof (cases ip)
  case (V4 b)
  have "f = 4 \<and> list_all (\<lambda>b. b = 0) (drop 4 (list_of a)) \<and> arr_pad (take 4 (list_of a)) = b
      \<longleftrightarrow> f = 4 \<and> list_of b @ replicate 12 0 = list_of a"
    (is "?L \<longleftrightarrow> ?R")
  proof
    assume L: ?L
    then have "drop 4 (list_of a) = replicate 12 0"
      using replicate_eqI [of "drop 4 (list_of a)" 12 0] by (auto simp: list_all_iff)
    moreover have "take 4 (list_of a) = list_of b" using L by auto
    ultimately show ?R using L append_take_drop_id [of 4 "list_of a"] by simp
  qed (auto simp: list_all_iff dest!: sym [of _ "list_of a"])
  then show ?thesis by (auto simp: V4 contact_ip_def)
qed (auto simp: contact_ip_def)

lemma ip_bytes_family:
  obtains f a where "ip_bytes ip = f # list_of (a :: 16 arr)"
proof (cases ip)
  case (V4 b)
  have "list_of (arr_pad (list_of b @ replicate 12 0) :: 16 arr) = list_of b @ replicate 12 0" by simp
  with V4 show thesis using that by (metis ip_bytes.simps(1))
next
  case (V6 b)
  with that show thesis by simp
qed

interpretation contact: prefix_codec put_contact take_contact "\<lambda>_. True"
proof
  show "take_contact bs = Some (c, rest) \<longleftrightarrow> True \<and> bs = put_contact c @ rest" for bs c rest
  proof
    show "take_contact bs = Some (c, rest) \<Longrightarrow> True \<and> bs = put_contact c @ rest"
      by (auto simp: take_contact_def readers bind_eq_Some_conv put_contact_def contact_ip_iff)
  next
    assume b: "True \<and> bs = put_contact c @ rest"
    obtain f a where ip: "ip_bytes (sa_ip (rt_address (ac_target c))) = f # list_of (a :: 16 arr)"
      by (rule ip_bytes_family)
    then have "contact_ip f a = Some (sa_ip (rt_address (ac_target c)))" by (simp add: contact_ip_iff)
    then show "take_contact bs = Some (c, rest)" using b ip
      by (auto simp: take_contact_def readers bind_eq_Some_conv put_contact_def)
  qed
qed

section \<open>Node cards\<close>

definition KIND_FIRST_MOVE :: byte where "KIND_FIRST_MOVE = 0"
definition KIND_FRAME :: byte where "KIND_FRAME = 1"
definition KIND_BUNDLE :: byte where "KIND_BUNDLE = 2"
definition KIND_BOOTSTRAP :: byte where "KIND_BOOTSTRAP = 3"
definition KIND_PROVISIONING :: byte where "KIND_PROVISIONING = 5"
definition KIND_PROVISIONING_GC2 :: byte where "KIND_PROVISIONING_GC2 = 8"
definition MAX_PROVISION_GC2_BYTES :: nat where "MAX_PROVISION_GC2_BYTES = 1024"
definition INFO_VERSION :: byte where "INFO_VERSION = 1"

lemmas kinds = KIND_FIRST_MOVE_def KIND_FRAME_def KIND_BUNDLE_def KIND_BOOTSTRAP_def KIND_PROVISIONING_def
  KIND_PROVISIONING_GC2_def INFO_VERSION_def

record node_info =
  ni_identity_pk :: bytes
  ni_bundle :: bytes
  ni_aliases :: "alias_contact list"
  ni_provisioning :: "relay_provision option"

definition node_public :: "node_info \<Rightarrow> node_info" where
  "node_public i = i\<lparr>ni_provisioning := None\<rparr>"

definition node_primary :: "node_info \<Rightarrow> alias_contact option" where
  "node_primary i = (case ni_aliases i of [] \<Rightarrow> None | a # _ \<Rightarrow> Some a)"

definition node_control :: "node_info \<Rightarrow> alias_contact option" where
  "node_control i = (case ni_aliases i of _ # b # _ \<Rightarrow> Some b | [a] \<Rightarrow> Some a | [] \<Rightarrow> None)"

definition encode_common :: "byte \<Rightarrow> node_info \<Rightarrow> bytes" where
  "encode_common kind i =
     [kind, INFO_VERSION] @ put16 (ni_identity_pk i) @ put32 (ni_bundle i)
     @ [of_nat (min (length (ni_aliases i)) 255)] @ concat (map put_contact (take 255 (ni_aliases i)))"

definition node_encode :: "node_info \<Rightarrow> bytes" where
  "node_encode i = encode_common KIND_BOOTSTRAP i"

definition put_owned :: "owned_alias \<Rightarrow> bytes option" where
  "put_owned a =
     (case encode_wire (oa_lease_create a) of
        Inl _ \<Rightarrow> None
      | Inr wire \<Rightarrow>
          Some (put_contact (oa_contact a) @ list_of (cap_push (oa_capabilities a)) @ list_of (cap_sub (oa_capabilities a))
            @ list_of (cap_admin (oa_capabilities a)) @ be16 (ll_max_queue_cells (oa_limits a))
            @ be64 (ll_max_queue_bytes (oa_limits a)) @ put16 (oa_create_path a) @ put16 wire))"

fun put_owned_list :: "owned_alias list \<Rightarrow> bytes option" where
  "put_owned_list [] = Some []"
| "put_owned_list (a # as) =
     Option.bind (put_owned a) (\<lambda>x. Option.bind (put_owned_list as) (\<lambda>xs. Some (x @ xs)))"

definition encode_private_provision :: "relay_provision \<Rightarrow> bytes option" where
  "encode_private_provision p =
     Option.bind (put_owned_list (take 255 (rv_aliases p))) (\<lambda>aliases.
     Some ([of_nat (min (length (rv_aliases p)) 255)] @ aliases @ put16 (rv_frwd_path p) @ list_of (rv_hop_key p)))"

definition node_encode_private :: "node_info \<Rightarrow> bytes option" where
  "node_encode_private i =
     Option.bind (ni_provisioning i) (\<lambda>provision.
     Option.bind (encode_private_provision provision) (\<lambda>v. Some (encode_common KIND_PROVISIONING i @ v)))"

definition node_encode_private_gc2 :: "bytes \<Rightarrow> node_info \<Rightarrow> bytes option" where
  "node_encode_private_gc2 introduction i =
     Option.bind (ni_provisioning i) (\<lambda>provision.
     if introduction = [] \<or> MAX_PROVISION_GC2_BYTES < length introduction then None else
     Option.bind (encode_private_provision provision) (\<lambda>v.
     Some (encode_common KIND_PROVISIONING_GC2 i @ v @ put16 introduction)))"

definition decode_common :: "byte \<Rightarrow> bytes \<Rightarrow> (node_info \<times> bytes) option" where
  "decode_common kind buf =
     Option.bind (rd 2 buf) (\<lambda>(header, bs).
     if header \<noteq> [kind, INFO_VERSION] then None else
     Option.bind (take16 bs) (\<lambda>(identity_pk, bs).
     Option.bind (take32 bs) (\<lambda>(bundle, bs).
     Option.bind (rd_u8 bs) (\<lambda>(count, bs).
     Option.bind (rd_list take_contact (unat count) bs) (\<lambda>(aliases, bs).
     Some (\<lparr>ni_identity_pk = identity_pk, ni_bundle = bundle, ni_aliases = aliases, ni_provisioning = None\<rparr>, bs))))))"

definition node_decode :: "bytes \<Rightarrow> node_info option" where
  "node_decode buf =
     Option.bind (decode_common KIND_BOOTSTRAP buf) (\<lambda>(info, rest). if rest = [] then Some info else None)"

definition take_owned :: "bytes \<Rightarrow> (owned_alias \<times> bytes) option" where
  "take_owned bs =
     Option.bind (take_contact bs) (\<lambda>(contact, bs).
     Option.bind (rd_arr bs) (\<lambda>(push, bs).
     Option.bind (rd_arr bs) (\<lambda>(sub, bs).
     Option.bind (rd_arr bs) (\<lambda>(admin, bs).
     Option.bind (rd_u16 bs) (\<lambda>(cells, bs).
     Option.bind (rd_u64 bs) (\<lambda>(max_bytes, bs).
     Option.bind (take16 bs) (\<lambda>(path, bs).
     Option.bind (from_utf8 path) (\<lambda>create_path.
     Option.bind (take16 bs) (\<lambda>(wire, bs).
     case decode wire of
       Inl _ \<Rightarrow> None
     | Inr lease_create \<Rightarrow>
         Some (\<lparr>oa_contact = contact, oa_capabilities = \<lparr>cap_push = push, cap_sub = sub, cap_admin = admin\<rparr>,
                oa_limits = \<lparr>ll_max_queue_cells = cells, ll_max_queue_bytes = max_bytes\<rparr>,
                oa_create_path = create_path, oa_lease_create = lease_create\<rparr>, bs))))))))))"

definition decode_private_inner :: "byte \<Rightarrow> bytes \<Rightarrow> (node_info \<times> bytes option) option" where
  "decode_private_inner kind buf =
     Option.bind (decode_common kind buf) (\<lambda>(info, bs).
     Option.bind (rd_u8 bs) (\<lambda>(count, bs).
     Option.bind (rd_list take_owned (unat count) bs) (\<lambda>(aliases, bs).
     Option.bind (take16 bs) (\<lambda>(path, bs).
     Option.bind (from_utf8 path) (\<lambda>frwd_path.
     Option.bind (rd_arr bs) (\<lambda>(hop_key, bs).
     Option.bind (if kind = KIND_PROVISIONING_GC2 then
                    Option.bind (take16 bs) (\<lambda>(introduction, bs).
                    if introduction = [] \<or> MAX_PROVISION_GC2_BYTES < length introduction then None
                    else Some (Some introduction, bs))
                  else Some (None, bs)) (\<lambda>(introduction, bs).
     if bs \<noteq> [] then None else
     Some (info\<lparr>ni_provisioning := Some \<lparr>rv_aliases = aliases, rv_frwd_path = frwd_path, rv_hop_key = hop_key\<rparr>\<rparr>,
           introduction))))))))"

definition node_decode_private :: "bytes \<Rightarrow> node_info option" where
  "node_decode_private buf = map_option fst (decode_private_inner KIND_PROVISIONING buf)"

definition node_decode_private_gc2 :: "bytes \<Rightarrow> (node_info \<times> bytes) option" where
  "node_decode_private_gc2 buf =
     Option.bind (decode_private_inner KIND_PROVISIONING_GC2 buf) (\<lambda>(info, introduction).
     map_option (Pair info) introduction)"

definition node_decode_private_any :: "bytes \<Rightarrow> (node_info \<times> bytes option) option" where
  "node_decode_private_any buf =
     (case buf of
        [] \<Rightarrow> None
      | kind # _ \<Rightarrow>
          if kind = KIND_PROVISIONING then decode_private_inner KIND_PROVISIONING buf
          else if kind = KIND_PROVISIONING_GC2 then
            Option.bind (decode_private_inner KIND_PROVISIONING_GC2 buf) (\<lambda>(info, introduction).
            map_option (\<lambda>x. (info, Some x)) introduction)
          else None)"

fun ip_is_loopback :: "ip_addr \<Rightarrow> bool" where
  "ip_is_loopback (V4 a) = (list_of a ! 0 = 127)"
| "ip_is_loopback (V6 a) = (list_of a = replicate 15 0 @ [1])"

definition owned_usable :: "u64 \<Rightarrow> bool \<Rightarrow> owned_alias \<Rightarrow> bool" where
  "owned_usable now_unix allow_local a \<longleftrightarrow>
     \<not> (ac_queue_id (oa_contact a) = arr_fill 0 \<or> ac_push_cap (oa_contact a) = arr_fill 0 \<or> ac_epoch (oa_contact a) = 0
        \<or> ac_expiry (oa_contact a) \<le> sat_add now_unix 300 \<or> sa_port (rt_address (ac_target (oa_contact a))) = 0
        \<or> ip_is_unspecified (sa_ip (rt_address (ac_target (oa_contact a))))
        \<or> (\<not> allow_local \<and> ip_is_loopback (sa_ip (rt_address (ac_target (oa_contact a)))))
        \<or> oa_create_path a = [] \<or> cap_push (oa_capabilities a) = arr_fill 0 \<or> cap_sub (oa_capabilities a) = arr_fill 0
        \<or> cap_admin (oa_capabilities a) = arr_fill 0 \<or> ll_max_queue_cells (oa_limits a) = 0
        \<or> ll_max_queue_bytes (oa_limits a) = 0)"

text \<open>The loop over the private aliases, with the two sets it fills.\<close>

fun owned_all_usable :: "u64 \<Rightarrow> bool \<Rightarrow> 32 arr set \<Rightarrow> 32 arr set \<Rightarrow> owned_alias list \<Rightarrow> bool" where
  "owned_all_usable now allow_local queue_ids push_caps [] = True"
| "owned_all_usable now allow_local queue_ids push_caps (a # as) =
     (owned_usable now allow_local a
      \<and> ac_queue_id (oa_contact a) \<notin> queue_ids \<and> cap_push (oa_capabilities a) \<notin> push_caps
      \<and> owned_all_usable now allow_local (insert (ac_queue_id (oa_contact a)) queue_ids)
          (insert (cap_push (oa_capabilities a)) push_caps) as)"

definition validate_relay_provision :: "u64 \<Rightarrow> bool \<Rightarrow> node_info \<Rightarrow> bool" where
  "validate_relay_provision now_unix allow_local i =
     (case ni_provisioning i of
        None \<Rightarrow> False
      | Some provision \<Rightarrow>
          length (rv_aliases provision) = 2 \<and> length (ni_aliases i) = 2
          \<and> owned_all_usable now_unix allow_local {} {} (rv_aliases provision)
          \<and> rv_frwd_path provision \<noteq> [] \<and> rv_hop_key provision \<noteq> arr_fill 0
          \<and> ni_aliases i = map oa_contact (rv_aliases provision))"

section \<open>Peer payloads\<close>

datatype node_payload = PFirstMove first_move | PFrame bytes frame | PBundle signed_bundle | PBootstrap node_info

definition proto_encode_first_move :: "first_move \<Rightarrow> crypto_error + bytes" where
  "proto_encode_first_move fm = rbind (first_move_encode fm) (\<lambda>v. Inr (KIND_FIRST_MOVE # v))"

definition proto_encode_frame :: "bytes \<Rightarrow> frame \<Rightarrow> crypto_error + bytes" where
  "proto_encode_frame sender_pk f = rbind (frame_encode f) (\<lambda>v. Inr (KIND_FRAME # put16 sender_pk @ v))"

definition proto_encode_bundle :: "signed_bundle \<Rightarrow> bytes" where
  "proto_encode_bundle b = KIND_BUNDLE # bundle_encode b"

definition decode_payload :: "cell \<Rightarrow> node_payload option" where
  "decode_payload c =
     (case c_payload c of
        [] \<Rightarrow> None
      | kind # bs \<Rightarrow>
          if kind = KIND_FIRST_MOVE then map_option PFirstMove (first_move_decode bs)
          else if kind = KIND_FRAME then
            Option.bind (take16 bs) (\<lambda>(pk, bs). map_option (PFrame pk) (frame_decode bs))
          else if kind = KIND_BUNDLE then map_option PBundle (bundle_decode bs)
          else if kind = KIND_BOOTSTRAP then map_option PBootstrap (node_decode (c_payload c))
          else None)"

section \<open>The public card is canonical\<close>

definition info_valid :: "node_info \<Rightarrow> bool" where
  "info_valid i \<longleftrightarrow>
     length (ni_identity_pk i) < 65536 \<and> length (ni_bundle i) < 4294967296 \<and> length (ni_aliases i) \<le> 255"

lemma unat_count: "n \<le> 255 \<Longrightarrow> unat (of_nat n :: byte) = n"
  by (simp add: unat_of_nat)

lemma byte_count: "unat (count :: byte) = length xs \<longleftrightarrow> count = of_nat (length xs) \<and> length xs \<le> 255"
  using length_eq_unat_iff [of xs count] by auto

lemma rd_two: "rd 2 (a # b # rest) = Some ([a, b], rest)"
  by (simp add: rd_def numeral_2_eq_2)

lemma decode_common_iff:
  "decode_common kind buf = Some (i, rest) \<longleftrightarrow>
     info_valid i \<and> ni_provisioning i = None \<and> buf = encode_common kind i @ rest"
  (is "?L \<longleftrightarrow> ?R")
proof
  assume ?L
  then obtain count where "length (ni_identity_pk i) < 65536" "length (ni_bundle i) < 4294967296" "ni_provisioning i = None"
    "buf = [kind, INFO_VERSION] @ put16 (ni_identity_pk i) @ put32 (ni_bundle i) @ count # concat (map put_contact (ni_aliases i)) @ rest"
    "unat count = length (ni_aliases i)"
    by (auto simp: decode_common_def field_readers contact.rd_list_iff split: if_splits)
  then show ?R by (auto simp: byte_count info_valid_def encode_common_def)
next
  assume ?R
  then show ?L
    by (cases i) (simp add: info_valid_def encode_common_def decode_common_def field_simps rd_two unat_count contact.rd_list_enc list_all_iff)
qed

lemma node_decode_iff:
  "node_decode w = Some i \<longleftrightarrow> info_valid i \<and> ni_provisioning i = None \<and> w = node_encode i"
  by (auto simp: node_decode_def bind_pair_iff decode_common_iff node_encode_def)

section \<open>Forwarding grants are canonical\<close>

definition grant_valid :: "forward_grant \<Rightarrow> bool" where
  "grant_valid g \<longleftrightarrow>
     utf8_valid (fg_frwd_path g) \<and> fg_frwd_path g \<noteq> [] \<and> length (fg_frwd_path g) \<le> 64 \<and> fg_hop_key g \<noteq> arr_fill 0
     \<and> length (forward_grant_encode g) \<le> GRANT_MAX_ENCODED"

lemma target_decode_public_iff: "target_decode_public w = Some t \<longleftrightarrow> w = target_encode t"
  using target_decode_iff [of w t] by (auto simp: target_decode_public_def split: sum.splits)

lemma forward_grant_decode_iff: "forward_grant_decode w = Some g \<longleftrightarrow> grant_valid g \<and> w = forward_grant_encode g"
  (is "?L \<longleftrightarrow> ?R")
proof -
  have e: "forward_grant_encode g = 1 # target_encode (fg_target g) @ put16 (fg_frwd_path g) @ list_of (fg_hop_key g)
      @ be64 (fg_expires_at g) @ put16 (fg_issued_by g)"
    by (simp add: forward_grant_encode_def put16_def)
  show ?thesis
  proof
    assume ?L
    then show ?R
      by (auto simp: forward_grant_decode_def field_readers target_decode_public_iff bind_eq_Some_conv not_less grant_valid_def e
          split: if_splits)
  next
    assume R: ?R
    then have l: "length (fg_frwd_path g) < 65536" "length (fg_issued_by g) < 65536" "length w \<le> GRANT_MAX_ENCODED"
      by (auto simp: grant_valid_def forward_grant_encode_def GRANT_MAX_ENCODED_def)
    have "target_decode_public (target_encode (fg_target g)) = Some (fg_target g)" by (simp add: target_decode_public_iff)
    with R l show ?L
      by (simp add: forward_grant_decode_def e field_simps grant_valid_def not_less)
  qed
qed

section \<open>Private cards round-trip\<close>

definition owned_valid :: "owned_alias \<Rightarrow> bool" where
  "owned_valid a \<longleftrightarrow>
     utf8_valid (oa_create_path a) \<and> length (oa_create_path a) < 65536 \<and> cell_ok (oa_lease_create a)"

lemma take_owned_put:
  assumes "owned_valid a" and "put_owned a = Some w"
  shows "take_owned (w @ rest) = Some (a, rest)"
proof -
  obtain wire where e: "encode_wire (oa_lease_create a) = Inr wire" and w: "w = put_contact (oa_contact a) @ list_of (cap_push (oa_capabilities a))
      @ list_of (cap_sub (oa_capabilities a)) @ list_of (cap_admin (oa_capabilities a)) @ be16 (ll_max_queue_cells (oa_limits a))
      @ be64 (ll_max_queue_bytes (oa_limits a)) @ put16 (oa_create_path a) @ put16 wire"
    using assms(2) by (auto simp: put_owned_def split: sum.splits)
  have l: "length wire < 65536" using encode_wire_length [OF e] by simp
  have ok: "cell_ok (oa_lease_create a)" using assms(1) by (simp add: owned_valid_def)
  have "length (c_payload (oa_lease_create a)) \<le> 16378"
    using e by (auto simp: encode_wire_def smallest_for_def split: if_splits)
  from encode_wire_accepts [OF ok this] e have "decode wire = Inr (oa_lease_create a)" by auto
  with l assms(1) show ?thesis
    by (simp add: take_owned_def w contact.dec_enc field_simps owned_valid_def)
qed

lemma rd_owned_list:
  "list_all owned_valid as \<Longrightarrow> put_owned_list as = Some w \<Longrightarrow> rd_list take_owned (length as) (w @ rest) = Some (as, rest)"
  by (induction as arbitrary: w) (auto simp: bind_eq_Some_conv take_owned_put)

definition provision_valid :: "relay_provision \<Rightarrow> bool" where
  "provision_valid p \<longleftrightarrow>
     length (rv_aliases p) \<le> 255 \<and> list_all owned_valid (rv_aliases p) \<and> utf8_valid (rv_frwd_path p)
     \<and> length (rv_frwd_path p) < 65536"

lemma decode_common_encode:
  "info_valid i \<Longrightarrow> decode_common kind (encode_common kind i @ rest) = Some (node_public i, rest)"
  by (simp add: decode_common_iff) (simp add: info_valid_def node_public_def encode_common_def)

lemma decode_private_encoded:
  assumes i: "info_valid i" and p: "ni_provisioning i = Some p" "provision_valid p" "encode_private_provision p = Some v"
    and tail: "if kind = KIND_PROVISIONING_GC2
      then \<exists>x. introduction = Some x \<and> x \<noteq> [] \<and> length x \<le> MAX_PROVISION_GC2_BYTES \<and> t = put16 x
      else introduction = None \<and> t = []"
  shows "decode_private_inner kind (encode_common kind i @ v @ t) = Some (i, introduction)"
proof -
  obtain aliases where a: "put_owned_list (rv_aliases p) = Some aliases"
    and v: "v = of_nat (length (rv_aliases p)) # aliases @ put16 (rv_frwd_path p) @ list_of (rv_hop_key p)"
    using p(2,3) by (auto simp: encode_private_provision_def bind_eq_Some_conv provision_valid_def)
  have r: "rd_list take_owned (length (rv_aliases p)) (aliases @ rest) = Some (rv_aliases p, rest)" for rest
    using p(2) by (intro rd_owned_list [OF _ a]) (simp add: provision_valid_def)
  have eta: "(node_public i)\<lparr>ni_provisioning := Some \<lparr>rv_aliases = rv_aliases p, rv_frwd_path = rv_frwd_path p, rv_hop_key = rv_hop_key p\<rparr>\<rparr> = i"
    using p(1) by (simp add: node_public_def)
  show ?thesis
  proof (cases "kind = KIND_PROVISIONING_GC2")
    case True
    with tail obtain x where x: "introduction = Some x" "x \<noteq> []" "length x \<le> MAX_PROVISION_GC2_BYTES" "t = put16 x" by auto
    have l: "length x < 65536" using x(3) by (simp add: MAX_PROVISION_GC2_BYTES_def)
    show ?thesis using p(2) x l True
      by (simp add: decode_private_inner_def decode_common_encode [OF i] v field_simps unat_count r provision_valid_def not_less eta)
  next
    case False
    with tail p(2) show ?thesis
      by (simp add: decode_private_inner_def decode_common_encode [OF i] v field_simps unat_count r provision_valid_def eta)
  qed
qed

text \<open>The provision check: two usable aliases with distinct queues and push capabilities.\<close>

lemma owned_all_usable_iff:
  "owned_all_usable now allow_local Q P as \<longleftrightarrow>
     list_all (owned_usable now allow_local) as
     \<and> distinct (map (ac_queue_id \<circ> oa_contact) as) \<and> set (map (ac_queue_id \<circ> oa_contact) as) \<inter> Q = {}
     \<and> distinct (map (cap_push \<circ> oa_capabilities) as) \<and> set (map (cap_push \<circ> oa_capabilities) as) \<inter> P = {}"
  by (induction as arbitrary: Q P) auto

text \<open>Every payload an encoder of this module writes is read back.\<close>

lemma decode_payload_first_move:
  assumes "first_move_ok fm" and "proto_encode_first_move fm = Inr (c_payload c)"
  shows "decode_payload c = Some (PFirstMove fm)"
proof -
  from assms(2) obtain x where x: "first_move_encode fm = Inr x" "c_payload c = KIND_FIRST_MOVE # x"
    by (auto simp: proto_encode_first_move_def)
  then have "first_move_decode x = Some fm" using assms(1) by (simp add: first_move_decode_iff)
  with x(2) show ?thesis by (simp add: decode_payload_def)
qed

lemma decode_payload_frame:
  assumes "frame_ok f" and "length pk < 65536" and "proto_encode_frame pk f = Inr (c_payload c)"
  shows "decode_payload c = Some (PFrame pk f)"
proof -
  from assms(3) obtain x where x: "frame_encode f = Inr x" "c_payload c = KIND_FRAME # put16 pk @ x"
    by (auto simp: proto_encode_frame_def)
  then have "frame_decode x = Some f" using frame_decode_encode [OF assms(1)] by auto
  with x(2) assms(2) show ?thesis by (simp add: decode_payload_def kinds put16.dec_enc)
qed

lemma decode_payload_card:
  "bundle_ok b \<Longrightarrow> c_payload c = proto_encode_bundle b \<Longrightarrow> decode_payload c = Some (PBundle b)"
  "info_valid i \<Longrightarrow> ni_provisioning i = None \<Longrightarrow> c_payload c = node_encode i \<Longrightarrow> decode_payload c = Some (PBootstrap i)"
  using node_decode_iff [of "node_encode i" i]
  by (simp_all add: decode_payload_def proto_encode_bundle_def kinds bundle_decode_encode node_encode_def encode_common_def)

section \<open>Properties\<close>

text \<open>
  C24: public node cards and forwarding grants are canonical. A buffer decodes to a card exactly when
  it is the encoding of a card without private authority whose fields fit their length prefixes, and
  to a grant exactly when it is the encoding of a grant with a non-empty UTF-8 path of at most 64
  bytes, a non-zero hop key and at most 4 KiB.
\<close>

theorem node_cards_canonical:
  "(node_decode w = Some i \<longleftrightarrow> info_valid i \<and> ni_provisioning i = None \<and> w = node_encode i)
   \<and> (forward_grant_decode v = Some g \<longleftrightarrow> grant_valid g \<and> v = forward_grant_encode g)"
  by (intro conjI node_decode_iff forward_grant_decode_iff)

text \<open>
  Private cards. A private card of either version decodes to the card it was made from, with
  the GC/2 introduction exactly when it is a version 2 card; the version 1 decoder refuses version 2
  cards, and the public decoder refuses both.
\<close>

lemma private_cards_roundtrip:
  assumes "info_valid i" and "ni_provisioning i = Some p" and "provision_valid p"
    and "node_encode_private i = Some w" and "node_encode_private_gc2 x i = Some w2"
  shows "node_decode_private w = Some i \<and> node_decode_private_any w = Some (i, None)
    \<and> node_decode_private_gc2 w2 = Some (i, x) \<and> node_decode_private_any w2 = Some (i, Some x)
    \<and> node_decode_private w2 = None \<and> node_decode w = None \<and> node_decode w2 = None"
proof -
  obtain v where v: "encode_private_provision p = Some v" and w: "w = encode_common KIND_PROVISIONING i @ v @ []"
    and w2: "w2 = encode_common KIND_PROVISIONING_GC2 i @ v @ put16 x" and x: "x \<noteq> []" "length x \<le> MAX_PROVISION_GC2_BYTES"
    using assms(2,4,5) by (auto simp: node_encode_private_def node_encode_private_gc2_def bind_eq_Some_conv split: if_splits)
  have d: "decode_private_inner KIND_PROVISIONING w = Some (i, None)"
    unfolding w by (rule decode_private_encoded [OF assms(1-3) v]) (simp add: kinds)
  have d2: "decode_private_inner KIND_PROVISIONING_GC2 w2 = Some (i, Some x)"
    unfolding w2 by (rule decode_private_encoded [OF assms(1-3) v]) (use x in simp)
  have h: "w = KIND_PROVISIONING # tl w" "w2 = KIND_PROVISIONING_GC2 # tl w2" by (simp_all add: w w2 encode_common_def)
  have n: "decode_common k b = None" if "b = k' # r" "k \<noteq> k'" for k k' b r
    using that by (cases r) (auto simp: decode_common_def rd_def numeral_2_eq_2)
  have "decode_common KIND_BOOTSTRAP w = None" "decode_common KIND_BOOTSTRAP w2 = None" "decode_common KIND_PROVISIONING w2 = None"
    by (rule n [OF h(1)], simp add: kinds, rule n [OF h(2)], simp add: kinds, rule n [OF h(2)], simp add: kinds)
  moreover have "node_decode_private_any w = decode_private_inner KIND_PROVISIONING w"
    using h(1) by (cases w) (auto simp: node_decode_private_any_def)
  moreover have "node_decode_private_any w2 = Some (i, Some x)"
    using d2 h(2) by (cases w2) (auto simp: node_decode_private_any_def kinds)
  ultimately show ?thesis using d d2
    by (simp add: node_decode_private_def node_decode_private_gc2_def node_decode_def decode_private_inner_def [of KIND_PROVISIONING w2])
qed

definition demo_info :: node_info where
  "demo_info = \<lparr>ni_identity_pk = [1], ni_bundle = [2], ni_aliases = [],
     ni_provisioning = Some \<lparr>rv_aliases = [], rv_frwd_path = [47], rv_hop_key = arr_fill 7\<rparr>\<rparr>"

end
