(* ===== verification/Gc2_Handshake.thy ===== *)
theory Gc2_Handshake
  imports Credited_Safety Credit_Link Node_Info
begin

text \<open>
  The GC/2 peer handshake of \<open>crates/protocol/src/gc2_session/handshake.rs\<close>: an identity-authenticated
  first move that carries the initiator's node card, the session tag and, for a recovery, the new
  generation, and its acceptance into a credited session with a first credit. The \<open>Record\<close> secret
  is drawn with \<open>fill_bytes\<close>, which panics when the entropy source fails; the model returns the
  entropy error there.
\<close>

section \<open>Constants\<close>

definition HELLO_DOMAIN :: bytes where "HELLO_DOMAIN = lit ''GC2/peer-session'' @ [0]"
definition RECOVERY_DOMAIN :: bytes where "RECOVERY_DOMAIN = lit ''GC2/peer-recovery'' @ [0]"
definition SIGNATURE_BYTES :: nat where "SIGNATURE_BYTES = 3309"
definition BUNDLE_BYTES :: nat where "BUNDLE_BYTES = 32 + 2 + 1184 + 8 + 2 + SIGNATURE_BYTES"
definition CONTACT_BYTES :: nat where "CONTACT_BYTES = 1 + 16 + 2 + 32 + 32 + 8 + 32 + 8"
definition INFO_FIXED :: nat where "INFO_FIXED = 2 + 2 + 1952 + 4 + BUNDLE_BYTES + 1"
definition MAX_INFO :: nat where
  "MAX_INFO = MAX_MESSAGE - SESSION_HEADER - (32 + 2 + 1088 + 12 + 16) - (4 + 2 + SIGNATURE_BYTES)
     - RECORD_HEADER - length RECOVERY_DOMAIN - 16 - 8"

lemma handshake_consts: "length HELLO_DOMAIN = 17" "length RECOVERY_DOMAIN = 18" "BUNDLE_BYTES = 4537" "CONTACT_BYTES = 131"
  "INFO_FIXED = 6498" "MAX_INFO = 10786"
  by (simp_all add: HELLO_DOMAIN_def RECOVERY_DOMAIN_def BUNDLE_BYTES_def SIGNATURE_BYTES_def CONTACT_BYTES_def
      INFO_FIXED_def MAX_INFO_def MAX_MESSAGE_def record_consts)

record 'g initiated =
  in_session :: "'g credited_session"
  in_packet :: bytes

record 'g accepted =
  ax_peer :: node_info
  ax_session :: "'g credited_session"
  ax_credit :: credit
  ax_recovery :: bool

section \<open>Checks\<close>

definition card_bundle :: "('g, 'h) ratchet_ops \<Rightarrow> node_info \<Rightarrow> u64 \<Rightarrow> session_error + signed_bundle" where
  "card_bundle R info now =
     reject (length (ni_identity_pk info) \<noteq> IDENTITY_PK_LEN \<or> length (ni_bundle info) \<noteq> BUNDLE_BYTES
        \<or> (MAX_INFO - INFO_FIXED) div CONTACT_BYTES < length (ni_aliases info) \<or> ni_provisioning info \<noteq> None) (SFlow FLength) (
     rbind (ok_or (SCrypto BundleInvalid) (bundle_decode (ni_bundle info))) (\<lambda>bundle.
     reject (\<not> verify_fresh R (ni_identity_pk info) now bundle) (SCrypto BundleInvalid) (
     let encoded = node_encode (node_public info) in
     rbind (ok_or (SFlow FLength) (node_decode encoded)) (\<lambda>decoded.
     reject (decoded \<noteq> info \<or> MAX_INFO < length encoded) (SFlow FState) (Inr bundle)))))"

definition check_secrets :: "('g, 'h) ratchet_ops \<Rightarrow> signed_bundle \<Rightarrow> local_secrets \<Rightarrow> session_error + unit" where
  "check_secrets R bundle secrets =
     reject (public_material R secrets \<noteq> (b_ecdh_pub bundle, b_kem_pub bundle)) (SCrypto BundleInvalid) (Inr ())"

section \<open>Initiating\<close>

definition hello_body :: "u64 \<Rightarrow> 16 arr \<Rightarrow> node_info \<Rightarrow> bytes" where
  "hello_body generation tag own =
     (if generation = 1 then HELLO_DOMAIN else RECOVERY_DOMAIN) @ list_of tag
     @ (if 1 < generation then be64 generation else []) @ node_encode (node_public own)"

text \<open>\<open>Record::new\<close> with its generator: the length is checked before the secret is drawn.\<close>

definition record_with_rng ::
  "('g, 'h) ratchet_ops \<Rightarrow> purpose \<Rightarrow> u64 \<Rightarrow> bytes \<Rightarrow> 'h \<Rightarrow> (session_error + flow_record) \<times> 'h" where
  "record_with_rng R purpose not_after body h =
     (case flow_record_new purpose not_after body (arr_fill 0) of
        Inl e \<Rightarrow> (Inl (SFlow e), h)
      | Inr record \<Rightarrow>
          (case ro_entropy R h 32 of
             (None, h) \<Rightarrow> (Inl (SCrypto Entropy), h)
           | (Some secret, h) \<Rightarrow> (Inr (record\<lparr>fr_secret := arr_pad secret\<rparr>), h)))"

text \<open>The steps after the tag and the record's secret are drawn.\<close>

definition initiate_record ::
  "('g, 'h) ratchet_ops \<Rightarrow> identity_keypair \<Rightarrow> local_secrets \<Rightarrow> node_info \<Rightarrow> signed_bundle \<Rightarrow> u64 \<Rightarrow> 16 arr \<Rightarrow> flow_record
   \<Rightarrow> u64 \<Rightarrow> session_time \<Rightarrow> revision \<Rightarrow> 'h \<Rightarrow> (session_error + 'g initiated) \<times> 'h" where
  "initiate_record R identity secrets peer remote generation tag record now monotonic tok h =
     (case initiate_authenticated_with_rng_at R identity (ni_identity_pk peer) remote (fr_encode record) h monotonic of
        (Inl e, h) \<Rightarrow> (Inl (SCrypto e), h)
      | (Inr (first, ratchet), h) \<Rightarrow>
          (let ratchet = provide_local_kem (ls_kem_dk secrets) ratchet in
           rbind (flow (gc2_encode_first_move tag first)) (\<lambda>packet.
           rbind (flow (window_new_generation tag generation)) (\<lambda>window.
           rbind (flow (record_sent (ro_crypto R) 1 packet record now window)) (\<lambda>window.
           rbind (from_authenticated ratchet window tok) (\<lambda>session.
           Inr \<lparr>in_session = session, in_packet = packet\<rparr>)))), h))"

definition initiate_generation ::
  "('g, 'h) ratchet_ops \<Rightarrow> identity_keypair \<Rightarrow> node_info \<Rightarrow> local_secrets \<Rightarrow> node_info \<Rightarrow> u64 \<Rightarrow> u64 \<Rightarrow> session_time
   \<Rightarrow> revision \<Rightarrow> 'h \<Rightarrow> (session_error + 'g initiated) \<times> 'h" where
  "initiate_generation R identity own secrets peer generation now monotonic tok h =
     (case reject (public_bytes R identity \<noteq> ni_identity_pk own \<or> ni_identity_pk own = ni_identity_pk peer) (SFlow FAuthentication)
             (rbind (card_bundle R own now) (\<lambda>local.
              rbind (check_secrets R local secrets) (\<lambda>_.
              card_bundle R peer now))) of
        Inl e \<Rightarrow> (Inl e, h)
      | Inr remote \<Rightarrow>
          (case ro_entropy R h 16 of
             (None, h) \<Rightarrow> (Inl (SCrypto Entropy), h)
           | (Some bytes, h) \<Rightarrow>
               let tag = arr_pad bytes in
               if tag = arr_fill 0 then (Inl (SCrypto Entropy), h)
               else
                 (case record_with_rng R PControl 0 (hello_body generation tag own) h of
                    (Inl e, h) \<Rightarrow> (Inl e, h)
                  | (Inr record, h) \<Rightarrow>
                      initiate_record R identity secrets peer remote generation tag record now monotonic tok h)))"

definition initiate_at ::
  "('g, 'h) ratchet_ops \<Rightarrow> identity_keypair \<Rightarrow> node_info \<Rightarrow> local_secrets \<Rightarrow> node_info \<Rightarrow> u64 \<Rightarrow> session_time
   \<Rightarrow> revision \<Rightarrow> 'h \<Rightarrow> (session_error + 'g initiated) \<times> 'h" where
  "initiate_at R identity own secrets peer now monotonic tok h =
     initiate_generation R identity own secrets peer 1 now monotonic tok h"

definition initiate_recovery_at ::
  "('g, 'h) ratchet_ops \<Rightarrow> identity_keypair \<Rightarrow> node_info \<Rightarrow> local_secrets \<Rightarrow> node_info \<Rightarrow> u64 \<Rightarrow> u64 \<Rightarrow> session_time
   \<Rightarrow> revision \<Rightarrow> 'h \<Rightarrow> (session_error + 'g initiated) \<times> 'h" where
  "initiate_recovery_at R identity own secrets peer generation now monotonic tok h =
     (if generation < 2 then (Inl (SFlow FState), h)
      else initiate_generation R identity own secrets peer generation now monotonic tok h)"

section \<open>Accepting\<close>

text \<open>The domain, generation and card of a record's body, checked against the packet's tag.\<close>

definition parse_hello :: "16 arr \<Rightarrow> flow_record \<Rightarrow> session_error + (bool \<times> u64 \<times> bytes)" where
  "parse_hello tag record =
     (let body = fr_body record in
      rbind (if take (length HELLO_DOMAIN) body = HELLO_DOMAIN then Inr (HELLO_DOMAIN, False)
             else if take (length RECOVERY_DOMAIN) body = RECOVERY_DOMAIN then Inr (RECOVERY_DOMAIN, True)
             else Inl (SFlow FAuthentication)) (\<lambda>(domain, recovery).
      let tag_end = length domain + 16 in
      reject (fr_purpose record \<noteq> PControl \<or> fr_not_after record \<noteq> 0
         \<or> get_range body (length domain) tag_end \<noteq> Some (list_of tag)) (SFlow FAuthentication) (
      let info_start = tag_end + (if recovery then 8 else 0) in
      rbind (if recovery then
               rbind (ok_or (SFlow FLength) (get_range body tag_end info_start)) (\<lambda>bytes.
               let value = de64 bytes in
               reject (value < 2) (SFlow FState) (Inr value))
             else Inr 1) (\<lambda>generation.
      rbind (ok_or (SFlow FLength) (get_range body info_start (length body))) (\<lambda>encoded.
      Inr (recovery, generation, encoded))))))"

text \<open>What follows the decryption of the first move.\<close>

definition accept_opened ::
  "('g, 'h) ratchet_ops \<Rightarrow> packet \<Rightarrow> node_info \<Rightarrow> signed_bundle \<Rightarrow> first_move \<Rightarrow> bytes \<Rightarrow> 'g session \<Rightarrow> u64 \<Rightarrow> revision
   \<Rightarrow> session_error + 'g accepted" where
  "accept_opened R packet own own_bundle first plain ratchet now tok =
     rbind (ok_or (SCrypto BadEncoding) (split_authenticated_payload plain)) (\<lambda>(signed, signature).
     rbind (flow (fr_decode signed)) (\<lambda>record.
     rbind (parse_hello (pk_tag packet) record) (\<lambda>(recovery, generation, encoded).
     rbind (ok_or (SFlow FLength) (node_decode encoded)) (\<lambda>peer.
     reject (node_encode (node_public peer) \<noteq> encoded \<or> ni_identity_pk peer = ni_identity_pk own) (SFlow FAuthentication) (
     rbind (card_bundle R peer now) (\<lambda>peer_bundle.
     reject (\<not> verify_first_move_auth R first (ni_identity_pk peer) (ni_identity_pk own) own_bundle signed signature)
       (SCrypto BadSignature) (
     rbind (crypto (provide_peer_kem R (b_kem_pub peer_bundle) ratchet)) (\<lambda>ratchet.
     rbind (flow (window_new_generation (pk_tag packet) generation)) (\<lambda>window.
     rbind (flow (record_authenticated (ro_crypto R) 1 (pk_bytes packet) record window)) (\<lambda>window.
     rbind (flow (credit_for_duplicate (ro_crypto R) 1 (pk_bytes packet) window)) (\<lambda>(credit, window).
     rbind (from_authenticated ratchet window tok) (\<lambda>session.
     Inr \<lparr>ax_peer = peer, ax_session = session, ax_credit = credit, ax_recovery = recovery\<rparr>))))))))))))"

definition accept_at ::
  "('g, 'h) ratchet_ops \<Rightarrow> packet \<Rightarrow> node_info \<Rightarrow> local_secrets \<Rightarrow> u64 \<Rightarrow> session_time \<Rightarrow> revision \<Rightarrow> 'h
   \<Rightarrow> (session_error + 'g accepted) \<times> 'h" where
  "accept_at R packet own secrets now monotonic tok h =
     (case rbind (card_bundle R own now) (\<lambda>own_bundle.
           rbind (check_secrets R own_bundle secrets) (\<lambda>_.
           rbind (flow (packet_first_move packet)) (\<lambda>first. Inr (own_bundle, first)))) of
        Inl e \<Rightarrow> (Inl e, h)
      | Inr (own_bundle, first) \<Rightarrow>
          (case accept_with_rng_at R secrets first h monotonic of
             (Inl e, h) \<Rightarrow> (Inl (SCrypto e), h)
           | (Inr (plain, ratchet), h) \<Rightarrow>
               (accept_opened R packet own own_bundle first plain ratchet now tok, h)))"

section \<open>What a successful initiation did\<close>

lemma card_bundleD:
  assumes "card_bundle R i now = Inr b"
  shows "bundle_decode (ni_bundle i) = Some b" "verify_fresh R (ni_identity_pk i) now b" "ni_provisioning i = None"
    "node_public i = i" "node_decode (node_encode i) = Some i" "length (node_encode i) \<le> MAX_INFO"
    "length (ni_identity_pk i) = IDENTITY_PK_LEN"
proof -
  show p: "ni_provisioning i = None" using assms by (auto simp: card_bundle_def)
  then show pub: "node_public i = i" by (simp add: node_public_def)
  show "bundle_decode (ni_bundle i) = Some b" "verify_fresh R (ni_identity_pk i) now b"
    "node_decode (node_encode i) = Some i" "length (node_encode i) \<le> MAX_INFO"
    "length (ni_identity_pk i) = IDENTITY_PK_LEN"
    using assms pub by (auto simp: card_bundle_def Let_def)
qed

lemma check_secrets_Inr:
  "check_secrets R b s = Inr u \<longleftrightarrow> public_material R s = (b_ecdh_pub b, b_kem_pub b)"
  by (auto simp: check_secrets_def)

lemma record_with_rng_Inr:
  assumes "record_with_rng R p n body h = (Inr r, h')"
  shows "fr_purpose r = p" "fr_not_after r = n" "fr_body r = body" "fr_ok r"
  using assms by (auto simp: record_with_rng_def flow_record_new_def fr_ok_def split: sum.splits prod.splits option.splits)

lemma initiate_recordE:
  assumes "initiate_record R identity secrets peer remote g tag r now mon tok h = (Inr ini, h')"
  obtains material rng fm a w0 w where
    "initiate_authenticated_from_material_at R identity (ni_identity_pk peer) remote (fr_encode r) material rng mon = Inr (fm, a)"
    "gc2_encode_first_move tag fm = Inr (in_packet ini)" "window_new_generation tag g = Inr w0"
    "record_sent (ro_crypto R) 1 (in_packet ini) r now w0 = Inr w"
    "in_session ini = \<lparr>cs_ratchet = provide_local_kem (ls_kem_dk secrets) a, cs_window = w, cs_revision = tok\<rparr>"
proof -
  from assms obtain fm a h1 where i: "initiate_authenticated_with_rng_at R identity (ni_identity_pk peer) remote (fr_encode r) h mon = (Inr (fm, a), h1)"
    by (auto simp: initiate_record_def split: prod.splits sum.splits)
  then obtain material rng where m: "initiate_authenticated_from_material_at R identity (ni_identity_pk peer) remote (fr_encode r) material rng mon = Inr (fm, a)"
    by (auto simp: initiate_authenticated_with_rng_at_def split: prod.splits sum.splits)
  from assms i obtain w0 w p where "gc2_encode_first_move tag fm = Inr p" "window_new_generation tag g = Inr w0"
    "record_sent (ro_crypto R) 1 p r now w0 = Inr w" "from_authenticated (provide_local_kem (ls_kem_dk secrets) a) w tok = Inr (in_session ini)"
    "in_packet ini = p"
    by (auto simp: initiate_record_def Let_def)
  with m from_authenticated_Inr(1) show thesis by (intro that [of material rng fm a w0 w]) auto
qed

lemma initiate_generationE:
  assumes "initiate_generation R identity own secrets peer g now mon tok h = (Inr ini, h')"
  obtains local remote tag r h1 where
    "public_bytes R identity = ni_identity_pk own" "ni_identity_pk own \<noteq> ni_identity_pk peer"
    "card_bundle R own now = Inr local" "check_secrets R local secrets = Inr ()" "card_bundle R peer now = Inr remote"
    "tag \<noteq> arr_fill 0" "fr_purpose r = PControl" "fr_not_after r = 0" "fr_body r = hello_body g tag own" "fr_ok r"
    "initiate_record R identity secrets peer remote g tag r now mon tok h1 = (Inr ini, h')"
proof -
  from assms obtain local remote where c: "public_bytes R identity = ni_identity_pk own" "ni_identity_pk own \<noteq> ni_identity_pk peer"
    "card_bundle R own now = Inr local" "check_secrets R local secrets = Inr ()" "card_bundle R peer now = Inr remote"
    by (cases "card_bundle R own now"; cases "card_bundle R peer now")
      (auto simp: initiate_generation_def check_secrets_Inr check_secrets_def reject_def split: if_splits)
  obtain bytes h0 where e: "ro_entropy R h 16 = (Some bytes, h0)" and t: "arr_pad bytes \<noteq> (arr_fill 0 :: 16 arr)"
    and r: "(case record_with_rng R PControl 0 (hello_body g (arr_pad bytes) own) h0 of
                    (Inl e, h) \<Rightarrow> (Inl e, h)
                  | (Inr record, h) \<Rightarrow>
                      initiate_record R identity secrets peer remote g (arr_pad bytes) record now mon tok h) = (Inr ini, h')"
    using assms c by (auto simp: initiate_generation_def Let_def split: prod.splits option.splits if_splits)
  from r obtain rc h1 where "record_with_rng R PControl 0 (hello_body g (arr_pad bytes) own) h0 = (Inr rc, h1)"
    "initiate_record R identity secrets peer remote g (arr_pad bytes) rc now mon tok h1 = (Inr ini, h')"
    by (auto split: prod.splits sum.splits)
  with c t record_with_rng_Inr show thesis by (intro that) blast+
qed

section \<open>The responder reads what the initiator wrote\<close>

lemma parse_hello_body:
  assumes "fr_purpose r = PControl" "fr_not_after r = 0" "fr_body r = hello_body g tag own" and "g \<noteq> 0"
  shows "parse_hello tag r = Inr (1 < g, g, node_encode (node_public own))"
proof (cases "g = 1")
  case True
  then have b: "fr_body r = HELLO_DOMAIN @ list_of tag @ node_encode (node_public own)"
    using assms(3) by (simp add: hello_body_def)
  show ?thesis using assms(1,2) True
    by (simp add: parse_hello_def b Let_def handshake_consts get_range_def sub_list_def reject_def)
next
  case False
  then have gt: "1 < g" "\<not> g < 2" using assms(4) by unat_arith+
  then have b: "fr_body r = RECOVERY_DOMAIN @ list_of tag @ be64 g @ node_encode (node_public own)"
    using assms(3) False by (simp add: hello_body_def)
  have "take 17 RECOVERY_DOMAIN \<noteq> HELLO_DOMAIN" by code_simp
  with gt show ?thesis using assms(1,2)
    by (simp add: parse_hello_def b Let_def handshake_consts get_range_def sub_list_def reject_def)
qed

text \<open>The first counter, recorded by both sides, and the credit for it.\<close>

lemma first_counter_link:
  assumes ok: "crypto_ok C" and new: "window_new_generation tag g = Inr w0" and sent: "record_sent C 1 packet r now w0 = Inr w"
  obtains v b v' where "record_authenticated C 1 packet r w0 = Inr v" "credit_for_duplicate C 1 packet v = Inr (b, v')"
    "cov_highest (w_received v') = Inr 1" "cov_set (w_received v') = {1}" "w_sent v' = 0" "w_sent w = 1" "w_received w = cov_default"
    "link_reach C \<lparr>l_snd = w, l_rcv = v', l_net = {(1, packet, r)}, l_credits = {b}\<rparr>"
    "\<exists>changed s. accept_credit C (list_of b) w = Inr (changed, s) \<and> cov_set (w_credited s) = {1}"
proof -
  note f = window_new_fields [OF new]
  have inv0: "window_inv C w0" by (rule window_new_inv [OF new])
  have p: "packet \<noteq> []" "length packet \<le> MAX_MESSAGE" using sent by (auto simp: record_sent_def)
  note rs = record_sent_cases [OF inv0 sent]
  have acc: "cov_accept 1 cov_default = Inr \<lparr>cov_floor = 1, cov_mask = 0\<rparr>" by code_simp
  have hi: "cov_highest \<lparr>cov_floor = 1, cov_mask = 0\<rparr> = Inr 1" by code_simp
  let ?e = "\<lparr>re_authority = authority_new C tag (cr_sha256 C packet) (fr_secret r), re_cached = None\<rparr>"
  let ?v = "w0\<lparr>w_received := \<lparr>cov_floor = 1, cov_mask = 0\<rparr>, w_rx := [(1, ?e)]\<rparr>"
  have ra: "record_authenticated C 1 packet r w0 = Inr ?v"
    using p by (simp add: record_authenticated_def f acc hi Let_def reject_def saturating_sub_def word_le_nat_alt)
  let ?l0 = "\<lparr>l_snd = w0, l_rcv = w0, l_net = {}, l_credits = {}\<rparr>"
  let ?l1 = "\<lparr>l_snd = w, l_rcv = w0, l_net = {(1, packet, r)}, l_credits = {}\<rparr>"
  let ?l2 = "\<lparr>l_snd = w, l_rcv = ?v, l_net = {(1, packet, r)}, l_credits = {}\<rparr>"
  have "link_reach C ?l0" by (rule link_reach.start [of tag g]) (simp add: link_start_def new)
  moreover have "link_step C ?l0 ?l1" using link_step.send [where l = ?l0 and C = C and u = now] sent by simp
  moreover have "link_step C ?l1 ?l2" using link_step.receive [where l = ?l1 and C = C] ra by simp
  ultimately have l2: "link_reach C ?l2" by (blast intro: link_reach.step)
  have "window_inv C ?v" by (rule record_authenticated_inv [OF inv0 ra])
  then obtain b v' where cr: "credit_for_duplicate C 1 packet ?v = Inr (b, v')"
    using credit_for_duplicate_returns [OF ok, of ?v 1 ?e packet] p by auto
  have "link_step C ?l2 \<lparr>l_snd = w, l_rcv = v', l_net = {(1, packet, r)}, l_credits = {b}\<rparr>"
    using link_step.credit [where l = ?l2 and C = C] cr by simp
  then have l3: "link_reach C \<lparr>l_snd = w, l_rcv = v', l_net = {(1, packet, r)}, l_credits = {b}\<rparr>"
    using l2 by (rule link_reach.step [rotated])
  have v': "w_received v' = \<lparr>cov_floor = 1, cov_mask = 0\<rparr>" "w_sent v' = 0"
    by (rule credit_for_duplicate_cases [OF ok \<open>window_inv C ?v\<close> cr]; auto simp: f(3))+
  have one: "cov_set \<lparr>cov_floor = 1, cov_mask = 0\<rparr> = {1}" "cov_hi \<lparr>cov_floor = 1, cov_mask = 0\<rparr> = 1"
    by (simp_all add: cov_set_def cov_hi_def)
  have "\<exists>changed s. accept_credit C (list_of b) w = Inr (changed, s) \<and> cov_set (w_credited s) = {1}"
    using credit_sync_step [OF ok link_reach_inv [OF ok l2], of 1 packet b v'] cr one rs(1) f by simp
  with that [OF ra cr _ _ v'(2) _ _ l3] show thesis using v' one hi rs(1) f by simp
qed

text \<open>The ratchet half: what the responder decrypts and the two sessions that result.\<close>

lemma length_fr_encode: "fr_ok r \<Longrightarrow> length (fr_encode r) \<le> 14152"
  by (auto simp: fr_encode_def fr_ok_def record_consts RECORD_MAGIC_def)

lemma first_move_opens:
  assumes ok: "ratchet_ok R" and pub: "public_material R secrets = (b_ecdh_pub b, b_kem_pub b)"
    and ini: "initiate_authenticated_from_material_at R alice pk b (fr_encode r) material rng now = Inr (fm, a)" and r: "fr_ok r"
  obtains sg s where
    "accept_from_material_at R secrets fm ratchet rng' now' = Inr (frame_authenticated_payload (fr_encode r) sg, s)"
    "split_authenticated_payload (frame_authenticated_payload (fr_encode r) sg) = Some (fr_encode r, sg)"
    "verify_first_move_auth R fm (public_bytes R alice) pk b (fr_encode r) sg"
    "rlink_start R (rlink_of a s)" "s_kem_dk a = None" "s_peer_kem s = None" "s_send_ctr s = 0" "s_recv_ctr s = 1"
    "s_send_ctr a = 1" "s_recv_ctr a = 0" "s_skipped a = []" "s_skipped s = []"
    "s_pq_after a = DEFAULT_PQ_AFTER" "s_pq_after s = DEFAULT_PQ_AFTER"
proof -
  let ?pay = "fr_encode r"
  have sl: "length (identity_sign R k m) = 3309" for k m
    using ratchet_okD(5) [OF ok] by (simp add: signature_ok_def identity_sign_def)
  define build where "build = (\<lambda>e (c :: bytes) n. let transcript = first_move_auth_transcript R e c n pk b ?pay
       in frame_authenticated_payload ?pay (identity_sign R alice transcript))"
  have bl: "length (build e c n) < 65504" for e c n
    using length_fr_encode [OF r] by (simp add: build_def Let_def frame_authenticated_payload_def sl)
  have core: "initiate_core R pk b material rng now build = Inr (fm, a)"
    using ini unfolding build_def initiate_authenticated_from_material_at_def .
  let ?sg = "identity_sign R alice (first_move_auth_transcript R (fm_eph_pub fm) (fm_kem_ct fm) (fm_nonce fm) pk b ?pay)"
  have fb: "build (fm_eph_pub fm) (fm_kem_ct fm) (fm_nonce fm) = frame_authenticated_payload ?pay ?sg"
    by (simp add: build_def Let_def)
  obtain s where acc: "accept_from_material_at R secrets fm ratchet rng' now' = Inr (frame_authenticated_payload ?pay ?sg, s)"
    and s: "s_peer_kem s = None" "s_send_ctr s = 0" "s_recv_ctr s = 1" "s_skipped s = []" "s_pq_after s = DEFAULT_PQ_AFTER"
    using accept_initiated [OF ok pub core bl, of ratchet rng' now'] unfolding fb by simp
  have "rlink_start R (rlink_of a s)" unfolding rlink_start_def using pub core bl acc by blast
  moreover have "split_authenticated_payload (frame_authenticated_payload ?pay ?sg) = Some (?pay, ?sg)"
    using length_fr_encode [OF r] by (simp add: split_authenticated_payload_iff sl)
  moreover have "verify_first_move_auth R fm (public_bytes R alice) pk b ?pay ?sg"
    unfolding verify_first_move_auth_def by (rule verify_own [OF ratchet_okD(5) [OF ok]])
  moreover have "s_kem_dk a = None" "s_send_ctr a = 1" "s_recv_ctr a = 0" "s_skipped a = []" "s_pq_after a = DEFAULT_PQ_AFTER" by (rule initiate_core_InrE [OF core]; simp)+
  ultimately show thesis using acc s that by blast
qed

lemma kem_exchange_reach:
  assumes ok: "ratchet_ok R" and start: "rlink_start R (rlink_of a s)" and k: "s_kem_dk a = None" "s_peer_kem s = None"
  obtains s' where "provide_peer_kem R (ro_kem_pub R dk) s = Inr s'" "s_send_ctr s' = s_send_ctr s" "s_recv_ctr s' = s_recv_ctr s"
    "s_skipped s' = s_skipped s" "s_pq_after s' = s_pq_after s" "rlink_reach R (rlink_of a s) (rlink_of (provide_local_kem dk a) s')"
proof -
  have "ek_from_bytes R (ro_kem_pub R dk) = Some (ro_kem_pub R dk)" by (rule ek_from_bytes_pub [OF ratchet_okD(4) [OF ok]])
  then obtain s' where p: "provide_peer_kem R (ro_kem_pub R dk) s = Inr s'" and c: "s_send_ctr s' = s_send_ctr s" "s_recv_ctr s' = s_recv_ctr s" "s_skipped s' = s_skipped s" "s_pq_after s' = s_pq_after s"
    by (auto simp: provide_peer_kem_def reject_def ek_from_bytes_def split: if_splits)
  let ?l0 = "rlink_of a s" and ?l1 = "rlink_of (provide_local_kem dk a) s"
  have "?l0\<lparr>lk_sess := (lk_sess ?l0)(True := provide_local_kem dk (lk_sess ?l0 True))\<rparr> = ?l1"
    by (auto simp: rlink_of_def fun_eq_iff)
  then have "rlink_step R ?l0 ?l1" using rlink_step.local_kem [of ?l0 True R dk] k by simp
  moreover have "?l1\<lparr>lk_sess := (lk_sess ?l1)(False := s')\<rparr> = rlink_of (provide_local_kem dk a) s'"
    by (auto simp: rlink_of_def fun_eq_iff)
  then have "rlink_step R ?l1 (rlink_of (provide_local_kem dk a) s')"
    using rlink_step.peer_kem [of ?l1 False dk R s'] p by (simp add: provide_local_kem_def)
  ultimately show thesis using that [OF p c] by (blast intro: rlink_reach.intros)
qed

section \<open>Initiating succeeds\<close>

text \<open>
  \<open>MAX_INFO\<close> does not count the 32 bytes of the ratchet key that precede the payload in the first
  plaintext; the bound on the number of contacts leaves the room for them.
\<close>

lemma length_put_contact [simp]: "length (put_contact c) = CONTACT_BYTES"
  by (cases "sa_ip (rt_address (ac_target c))") (simp_all add: put_contact_def CONTACT_BYTES_def)

lemma length_card:
  assumes "card_bundle R i now = Inr b"
  shows "length (node_encode i) \<le> INFO_FIXED + 32 * CONTACT_BYTES"
proof -
  have l: "length (ni_identity_pk i) = 1952" "length (ni_bundle i) = 4537" "length (ni_aliases i) \<le> 32"
    using assms by (auto simp: card_bundle_def handshake_consts IDENTITY_PK_LEN_def)
  have "length (concat (map put_contact xs)) = length xs * CONTACT_BYTES" for xs by (induction xs) simp_all
  with l show ?thesis
    by (simp add: node_encode_def encode_common_def put16_def put32_def handshake_consts)
qed

lemma length_hello:
  assumes "card_bundle R i now = Inr b"
  shows "length (hello_body g tag i) \<le> 10732"
  using length_card [OF assms] card_bundleD(4) [OF assms] by (auto simp: hello_body_def handshake_consts)

lemma seal_length:
  "aead_ok sealing opening \<Longrightarrow> sealing k n a m = Some c \<Longrightarrow> length m < 65536 \<Longrightarrow> length c = length m + 16"
  by (metis aead_ok_sealE option.inject)

lemma initiate_first_move:
  assumes ok: "ratchet_ok R" and ver: "bundle_verify R pk b" and kem: "b_kem_pub b = ro_kem_pub R d"
    and r: "length (fr_encode r) \<le> 10779"
  obtains fm a where "initiate_authenticated_from_material_at R alice pk b (fr_encode r) material rng now = Inr (fm, a)"
    "validate_first fm = Inr ()"
proof -
  let ?pay = "fr_encode r"
  have sl: "length (identity_sign R k m) = 3309" for k m
    using ratchet_okD(5) [OF ok] by (simp add: signature_ok_def identity_sign_def)
  define build where "build = (\<lambda>e (c :: bytes) n. let transcript = first_move_auth_transcript R e c n pk b ?pay
       in frame_authenticated_payload ?pay (identity_sign R alice transcript))"
  have bl: "length (build e c n) \<le> 14094" for e c n
    using r by (simp add: build_def Let_def frame_authenticated_payload_def sl)
  then have bl': "length (build e c n) < 65504" for e c n by (rule order.strict_trans1) simp
  obtain fm a where core: "initiate_core R pk b material rng now build = Inr (fm, a)" and ct: "length (fm_kem_ct fm) = KEM_CT_LEN"
    by (rule initiate_returns [OF ok ver kem]) (use bl' in auto)
  from core obtain mk nonce hdr kem_ct where "seal R mk nonce (list_of (ro_xpub R (im_ratchet material)) @ build (fm_eph_pub fm) kem_ct (fm_nonce fm)) hdr = Some (fm_ct fm)"
    by (rule initiate_core_InrE)
  then have "length (fm_ct fm) = 32 + length (build (fm_eph_pub fm) kem_ct (fm_nonce fm)) + 16"
    using bl' [of "fm_eph_pub fm" kem_ct "fm_nonce fm"] seal_length [OF ratchet_okD(2) [OF ok]] unfolding seal_def by fastforce
  then have "validate_first fm = Inr ()"
    using ct bl [of "fm_eph_pub fm" kem_ct "fm_nonce fm"] by (simp add: validate_first_def reject_def MAX_MESSAGE_def record_consts)
  with core that show thesis unfolding build_def initiate_authenticated_from_material_at_def by blast
qed

lemma initiate_generation_returns:
  assumes ok: "ratchet_ok R" and ident: "public_bytes R identity = ni_identity_pk own" "ni_identity_pk own \<noteq> ni_identity_pk peer"
    and own: "card_bundle R own now = Inr ob" "check_secrets R ob secrets = Inr ()"
    and peer: "card_bundle R peer now = Inr pb" "b_kem_pub pb = ro_kem_pub R d"
    and ne: "g \<noteq> 0" "now \<noteq> 0"
    and entropy: "ro_entropy R h 16 = (Some bytes, h1)" "arr_pad bytes \<noteq> (arr_fill 0 :: 16 arr)"
      "ro_entropy R h1 32 = (Some secret, h2)" "std_from_rng R h2 = (Inr rng, h3)"
  shows "\<exists>ini. initiate_generation R identity own secrets peer g now mon tok h = (Inr ini, h3)"
proof -
  let ?tag = "arr_pad bytes :: 16 arr" and ?hello = "hello_body g (arr_pad bytes) own"
  let ?r = "\<lparr>fr_purpose = PControl, fr_not_after = 0, fr_secret = arr_pad secret, fr_body = ?hello\<rparr>"
  have hl: "length ?hello \<le> 10732" by (rule length_hello [OF own(1)])
  then have rc: "record_with_rng R PControl 0 ?hello h1 = (Inr ?r, h2)"
    using entropy(3) by (simp add: record_with_rng_def flow_record_new_def record_consts reject_def)
  have "length (fr_encode ?r) \<le> 10779" using hl by (simp add: fr_encode_def RECORD_MAGIC_def)
  moreover have ver: "bundle_verify R (ni_identity_pk peer) pb" using card_bundleD(2) [OF peer(1)] by (simp add: verify_fresh_def)
  moreover obtain material rng' where m: "draw_initiator_material R rng = (material, rng')" by fastforce
  ultimately obtain fm a where i: "initiate_authenticated_from_material_at R identity (ni_identity_pk peer) pb (fr_encode ?r) material rng' mon = Inr (fm, a)"
    and v: "validate_first fm = Inr ()"
    using initiate_first_move [OF ok _ peer(2)] by metis
  obtain p where p: "gc2_encode_first_move ?tag fm = Inr p" using v entropy(2) by (simp add: gc2_encode_first_move_iff)
  have pl: "p \<noteq> []" "length p \<le> MAX_MESSAGE"
    using packet_decode_first [OF p] by (auto simp: packet_decode_def record_consts split: if_splits)
  obtain w0 where w0: "window_new_generation ?tag g = Inr w0" using ne entropy(2) by (simp add: window_new_generation_def reject_def)
  note f = window_new_fields [OF w0]
  have nc: "next_counter w0 PControl = Inr 1" by (simp add: next_counter_def f checked_add_def cov_default_def reject_def)
  obtain w where w: "record_sent (ro_crypto R) 1 p ?r now w0 = Inr w" "w_sent w = 1" "w_received w = cov_default"
    using pl ne(2) nc f by (simp add: record_sent_def Let_def reject_def)
  have "cov_highest cov_default = Inr 0" by code_simp
  moreover have "s_send_ctr a = 1" "s_recv_ctr a = 0"
    using i unfolding initiate_authenticated_from_material_at_def by (auto elim!: initiate_core_InrE)
  ultimately have "\<exists>ini. initiate_record R identity secrets peer pb g ?tag ?r now mon tok h2 = (Inr ini, h3)"
    using i p w0 w m entropy(4)
    by (simp add: initiate_record_def initiate_authenticated_with_rng_at_def from_authenticated_def provide_local_kem_def reject_def)
  then show ?thesis using ident own peer(1) entropy rc by (simp add: initiate_generation_def reject_def Let_def)
qed

section \<open>The responder accepts\<close>

text \<open>
  The state after a handshake: the ratchet sessions come from a handshake of the ratchet and the
  exchange of KEM keys, the windows from the first packet and its credit.
\<close>

definition peers_joined :: "('g, 'h) ratchet_ops \<Rightarrow> 'g credited_session \<Rightarrow> 'g credited_session \<Rightarrow> bytes \<Rightarrow> flow_record \<Rightarrow> credit \<Rightarrow> bool" where
  "peers_joined R a b packet r credit \<longleftrightarrow>
     (\<exists>l. rlink_start R l \<and> rlink_reach R l (rlink_of (cs_ratchet a) (cs_ratchet b)))
     \<and> link_reach (ro_crypto R) \<lparr>l_snd = cs_window a, l_rcv = cs_window b, l_net = {(1, packet, r)}, l_credits = {credit}\<rparr>
     \<and> w_received (cs_window a) = cov_default \<and> w_sent (cs_window b) = 0
     \<and> cov_set (w_received (cs_window b)) = {1} \<and> w_sent (cs_window a) = 1
     \<and> s_send_ctr (cs_ratchet a) = 1 \<and> s_recv_ctr (cs_ratchet a) = 0
     \<and> s_send_ctr (cs_ratchet b) = 0 \<and> s_recv_ctr (cs_ratchet b) = 1
     \<and> s_skipped (cs_ratchet a) = [] \<and> s_skipped (cs_ratchet b) = []
     \<and> s_pq_after (cs_ratchet a) = DEFAULT_PQ_AFTER \<and> s_pq_after (cs_ratchet b) = DEFAULT_PQ_AFTER"

lemma credit_for_duplicate_same:
  "credit_for_duplicate C k p w = Inr (b, w') \<Longrightarrow> w_session w' = w_session w \<and> w_generation w' = w_generation w
     \<and> w_received w' = w_received w"
  by (auto simp: credit_for_duplicate_def Let_def split: prod.splits option.splits if_splits)

lemma accept_initiated_packet:
  assumes ok: "ratchet_ok R" and ini: "initiate_generation R identity own secrets peer g now mon tok h = (Inr ini, h')"
    and ob: "card_bundle R own now' = Inr ob" and pb: "card_bundle R peer now' = Inr pb" "check_secrets R pb psecrets = Inr ()"
    and entropy: "std_from_rng R k = (Inr rng, k')"
  obtains p a r where "packet_decode (in_packet ini) = Inr p" "accept_at R p peer psecrets now' mon' tok' k = (Inr a, k')"
    "ax_peer a = own" "ax_recovery a = (1 < g)" "peers_joined R (in_session ini) (ax_session a) (in_packet ini) r (ax_credit a)"
    "w_session (cs_window (in_session ini)) = pk_tag p" "w_session (cs_window (ax_session a)) = pk_tag p"
    "w_generation (cs_window (in_session ini)) = g" "w_generation (cs_window (ax_session a)) = g"
    "\<exists>changed w. accept_credit (ro_crypto R) (list_of (ax_credit a)) (cs_window (in_session ini)) = Inr (changed, w)
       \<and> cov_set (w_credited w) = {1}"
proof -
  let ?C = "ro_crypto R"
  from ini obtain local remote tag r h1 where i:
    "public_bytes R identity = ni_identity_pk own" "ni_identity_pk own \<noteq> ni_identity_pk peer"
    "card_bundle R own now = Inr local" "check_secrets R local secrets = Inr ()" "card_bundle R peer now = Inr remote"
    "tag \<noteq> arr_fill 0" "fr_purpose r = PControl" "fr_not_after r = 0" "fr_body r = hello_body g tag own" and rok: "fr_ok r"
    and ir: "initiate_record R identity secrets peer remote g tag r now mon tok h1 = (Inr ini, h')"
    by (rule initiate_generationE)
  from ir obtain material rng0 fm a w0 w where im:
    "initiate_authenticated_from_material_at R identity (ni_identity_pk peer) remote (fr_encode r) material rng0 mon = Inr (fm, a)"
    "gc2_encode_first_move tag fm = Inr (in_packet ini)" "window_new_generation tag g = Inr w0"
    "record_sent ?C 1 (in_packet ini) r now w0 = Inr w"
    "in_session ini = \<lparr>cs_ratchet = provide_local_kem (ls_kem_dk secrets) a, cs_window = w, cs_revision = tok\<rparr>"
    by (rule initiate_recordE)
  have same: "remote = pb" "local = ob" using card_bundleD(1) i(3,5) ob pb(1) by (metis option.inject)+
  obtain p where p: "packet_decode (in_packet ini) = Inr p" "pk_tag p = tag" "pk_bytes p = in_packet ini" "packet_first_move p = Inr fm"
    using packet_decode_first [OF im(2)] by blast
  have pm: "public_material R psecrets = (b_ecdh_pub remote, b_kem_pub remote)" using pb(2) same by (simp add: check_secrets_Inr)
  obtain ratchet rng' where rr: "rand32 R rng = (ratchet, rng')" by fastforce
  obtain sg s where s: "accept_from_material_at R psecrets fm ratchet rng' mon' = Inr (frame_authenticated_payload (fr_encode r) sg, s)"
    "split_authenticated_payload (frame_authenticated_payload (fr_encode r) sg) = Some (fr_encode r, sg)"
    "verify_first_move_auth R fm (public_bytes R identity) (ni_identity_pk peer) remote (fr_encode r) sg"
    "rlink_start R (rlink_of a s)" "s_kem_dk a = None" "s_peer_kem s = None" "s_send_ctr s = 0" "s_recv_ctr s = 1"
    "s_send_ctr a = 1" "s_recv_ctr a = 0" "s_skipped a = []" "s_skipped s = []"
    "s_pq_after a = DEFAULT_PQ_AFTER" "s_pq_after s = DEFAULT_PQ_AFTER"
    by (rule first_move_opens [OF ok pm im(1) rok])
  have kp: "b_kem_pub ob = ro_kem_pub R (ls_kem_dk secrets)" using i(4) same by (simp add: check_secrets_Inr public_material_def)
  obtain s' where s': "provide_peer_kem R (b_kem_pub ob) s = Inr s'" "s_send_ctr s' = s_send_ctr s" "s_recv_ctr s' = s_recv_ctr s"
    "s_skipped s' = s_skipped s" "s_pq_after s' = s_pq_after s" "rlink_reach R (rlink_of a s) (rlink_of (provide_local_kem (ls_kem_dk secrets) a) s')"
    using kem_exchange_reach [OF ok s(4-6), of "ls_kem_dk secrets"] unfolding kp by metis
  obtain v b v' where v: "record_authenticated ?C 1 (in_packet ini) r w0 = Inr v" "credit_for_duplicate ?C 1 (in_packet ini) v = Inr (b, v')"
    "cov_highest (w_received v') = Inr 1" "cov_set (w_received v') = {1}" "w_sent v' = 0" "w_sent w = 1" "w_received w = cov_default"
    "link_reach ?C \<lparr>l_snd = w, l_rcv = v', l_net = {(1, in_packet ini, r)}, l_credits = {b}\<rparr>"
    "\<exists>changed s. accept_credit ?C (list_of b) w = Inr (changed, s) \<and> cov_set (w_credited s) = {1}"
    by (rule first_counter_link [OF ratchet_okD(1) [OF ok] im(3,4)])
  have g: "g \<noteq> 0" "w_generation w0 = g" "w_session w0 = tag" using im(3) by (auto simp: window_new_generation_def)
  let ?cs = "\<lparr>cs_ratchet = s', cs_window = v', cs_revision = tok'\<rparr>"
  have "parse_hello (pk_tag p) r = Inr (1 < g, g, node_encode own)"
    using parse_hello_body [OF i(7-9) g(1)] p(2) card_bundleD(4) [OF ob] by simp
  then have "accept_opened R p peer pb fm (frame_authenticated_payload (fr_encode r) sg) s now' tok'
      = Inr \<lparr>ax_peer = own, ax_session = ?cs, ax_credit = b, ax_recovery = (1 < g)\<rparr>"
    using s s' v i(1,2) p im(3) ob same card_bundleD(4,5) [OF ob] fr_decode_encode [OF rok]
    by (simp add: accept_opened_def reject_def from_authenticated_def)
  then have "accept_at R p peer psecrets now' mon' tok' k = (Inr \<lparr>ax_peer = own, ax_session = ?cs, ax_credit = b, ax_recovery = (1 < g)\<rparr>, k')"
    using pb p(4) entropy rr s(1) by (simp add: accept_at_def accept_with_rng_at_def)
  moreover have "peers_joined R (in_session ini) ?cs (in_packet ini) r b"
    using s s' v im(5) by (auto simp: peers_joined_def provide_local_kem_def)
  moreover have "w_session v' = tag" "w_generation v' = g" "w_session w = tag" "w_generation w = g"
    using v(1) credit_for_duplicate_same [OF v(2)] im(4) g by (auto simp: record_authenticated_def record_sent_def Let_def)
  ultimately show thesis using that [OF p(1), of "\<lparr>ax_peer = own, ax_session = ?cs, ax_credit = b, ax_recovery = (1 < g)\<rparr>" r] im(5) p(2) v(9) by simp
qed

lemma peers_joined_inv:
  assumes ok: "ratchet_ok R" and j: "peers_joined R a b packet r credit"
  shows "rlink_inv R (rlink_of (cs_ratchet a) (cs_ratchet b))" "credited_ok R a" "credited_ok R b"
proof -
  from j obtain l where "rlink_start R l" "rlink_reach R l (rlink_of (cs_ratchet a) (cs_ratchet b))" by (auto simp: peers_joined_def)
  then show inv: "rlink_inv R (rlink_of (cs_ratchet a) (cs_ratchet b))"
    using rlink_reach_inv [OF _ ok rlink_start_inv [OF ok]] by blast
  note sides = rlink_inv_sides(1) [OF inv, of True] rlink_inv_sides(1) [OF inv, of False]
  have "link_inv (ro_crypto R) \<lparr>l_snd = cs_window a, l_rcv = cs_window b, l_net = {(1, packet, r)}, l_credits = {credit}\<rparr>"
    using j by (intro link_reach_inv [OF ratchet_okD(1) [OF ok]]) (simp add: peers_joined_def)
  then have w: "window_inv (ro_crypto R) (cs_window a)" "window_inv (ro_crypto R) (cs_window b)" by (simp_all add: link_inv_def)
  have "cov_hi (w_received (cs_window b)) = 1"
    using cov_hi_in [of "w_received (cs_window b)"] cov_set_le_hi [of 1 "w_received (cs_window b)"] j by (auto simp: peers_joined_def)
  then show "credited_ok R a" "credited_ok R b"
    using j sides w by (simp_all add: peers_joined_def credited_ok_def)
qed

section \<open>What acceptance implies\<close>

lemma take_prefix: "take (length d) xs = d \<Longrightarrow> xs = d @ drop (length d) xs"
  by (metis append_take_drop_id)

lemma get_range_Some: "get_range xs a b = Some ys \<Longrightarrow> a \<le> b \<and> b \<le> length xs \<and> drop a xs = ys @ drop b xs"
  by (auto simp: get_range_def sub_list_drop split: if_splits)

lemma parse_hello_Inr:
  assumes "parse_hello tag r = Inr (recovery, g, encoded)"
  shows "fr_purpose r = PControl \<and> fr_not_after r = 0 \<and> g \<noteq> 0 \<and> recovery = (1 < g)
    \<and> fr_body r = (if g = 1 then HELLO_DOMAIN else RECOVERY_DOMAIN) @ list_of tag @ (if 1 < g then be64 g else []) @ encoded"
proof (cases "take 17 (fr_body r) = HELLO_DOMAIN")
  case True
  then have b: "fr_body r = HELLO_DOMAIN @ drop 17 (fr_body r)" using take_prefix [of HELLO_DOMAIN] by (simp add: handshake_consts)
  from assms True have a: "fr_purpose r = PControl" "fr_not_after r = 0" "get_range (fr_body r) 17 33 = Some (list_of tag)"
    "get_range (fr_body r) 33 (length (fr_body r)) = Some encoded" "\<not> recovery" "g = 1"
    by (auto simp: parse_hello_def Let_def handshake_consts)
  with b get_range_Some [OF a(3)] get_range_Some [OF a(4)] show ?thesis by simp
next
  case False
  with assms have t: "take 18 (fr_body r) = RECOVERY_DOMAIN" by (auto simp: parse_hello_def Let_def handshake_consts split: if_splits)
  then have b: "fr_body r = RECOVERY_DOMAIN @ drop 18 (fr_body r)" using take_prefix [of RECOVERY_DOMAIN] by (simp add: handshake_consts)
  from assms False t obtain bs where a: "fr_purpose r = PControl" "fr_not_after r = 0" "get_range (fr_body r) 18 34 = Some (list_of tag)"
    "get_range (fr_body r) 34 42 = Some bs" "get_range (fr_body r) 42 (length (fr_body r)) = Some encoded" "recovery"
    "g = de64 bs" "\<not> g < 2"
    by (auto simp: parse_hello_def Let_def handshake_consts)
  have "length bs = 8" using a(4) by (auto simp: get_range_def split: if_splits)
  then have "be64 g = bs" using a(7) by (simp add: be_de)
  moreover have "1 < g" "g \<noteq> 1" "g \<noteq> 0" using a(8) by unat_arith+
  ultimately show ?thesis using a(1,2,6) b get_range_Some [OF a(3)] get_range_Some [OF a(4)] get_range_Some [OF a(5)] by simp
qed

text \<open>A card made from an issued bundle passes the checks while the bundle is fresh.\<close>

definition issued_card :: "('g, 'h) ratchet_ops \<Rightarrow> identity_keypair \<Rightarrow> signed_bundle \<Rightarrow> node_info" where
  "issued_card R kp b = \<lparr>ni_identity_pk = public_bytes R kp, ni_bundle = bundle_encode b, ni_aliases = [], ni_provisioning = None\<rparr>"

lemma issued_card_ok:
  assumes ok: "ratchet_ok R" and issued: "issue_bundle_from_material R kp ecdh seed created = (b, secrets)" and fresh: "is_fresh now b"
  shows "card_bundle R (issued_card R kp b) now = Inr b" "check_secrets R b secrets = Inr ()"
proof -
  note K = kem_okD [OF ratchet_okD(4) [OF ok]]
  have sg: "length (identity_sign R k m) = 3309" "length (public_bytes R k) = 1952" for k m
    using ratchet_okD(5) [OF ok] by (simp_all add: signature_ok_def identity_sign_def public_bytes_def)
  have kl: "length (b_kem_pub b) = 1184" using issued K(1) by (auto simp: issue_bundle_from_material_def Let_def KEM_EK_LEN_def)
  have bl: "length (b_sig b) = 3309" using issued sg by (auto simp: issue_bundle_from_material_def Let_def)
  have ver: "bundle_verify R (public_bytes R kp) b"
    using issued verify_own [OF ratchet_okD(5) [OF ok]] K(1)
    by (auto simp: bundle_verify_def issue_bundle_from_material_def Let_def signing_payload_def)
  let ?i = "issued_card R kp b"
  have enc: "length (bundle_encode b) = 4537" using kl bl by (simp add: bundle_encode_def)
  have pub: "node_public ?i = ?i" by (simp add: node_public_def issued_card_def)
  have dec: "node_decode (node_encode ?i) = Some ?i"
    using sg enc by (simp add: node_decode_iff info_valid_def issued_card_def)
  have len: "length (node_encode ?i) \<le> MAX_INFO"
    using sg enc by (simp add: issued_card_def node_encode_def encode_common_def put16_def put32_def handshake_consts)
  have "bundle_decode (bundle_encode b) = Some b" using kl bl by (intro bundle_decode_encode) (simp add: bundle_ok_def)
  then show "card_bundle R ?i now = Inr b"
    using sg enc ver fresh len pub dec
    by (simp add: card_bundle_def reject_def handshake_consts IDENTITY_PK_LEN_def verify_fresh_def Let_def issued_card_def)
  show "check_secrets R b secrets = Inr ()"
    using issued by (auto simp: check_secrets_Inr public_material_def issue_bundle_from_material_def Let_def)
qed

text \<open>Two demonstration nodes, with bundles issued at time 100.\<close>

definition demo_peer :: "byte \<Rightarrow> signed_bundle \<times> local_secrets" where
  "demo_peer n = issue_bundle_from_material toy_ratchet (arr_fill n) (arr_fill (n + 1)) (arr_fill (n + 2)) 100"

definition demo_card :: "byte \<Rightarrow> node_info" where
  "demo_card n = issued_card toy_ratchet (arr_fill n) (fst (demo_peer n))"

lemma demo_card_ok:
  assumes "now \<in> {100, 200}"
  shows "card_bundle toy_ratchet (demo_card n) now = Inr (fst (demo_peer n))"
    "check_secrets toy_ratchet (fst (demo_peer n)) (snd (demo_peer n)) = Inr ()"
proof -
  obtain b secrets where i: "issue_bundle_from_material toy_ratchet (arr_fill n) (arr_fill (n + 1)) (arr_fill (n + 2)) 100 = (b, secrets)"
    by fastforce
  have "is_fresh now b" using assms i
    by (auto simp: is_fresh_def issue_bundle_from_material_def Let_def saturating_add_def saturating_sub_def
        MAX_BUNDLE_AGE_SECS_def MAX_BUNDLE_FUTURE_SKEW_SECS_def)
  from issued_card_ok [OF toy_ratchet_ok i this] i show
    "card_bundle toy_ratchet (demo_card n) now = Inr (fst (demo_peer n))"
    "check_secrets toy_ratchet (fst (demo_peer n)) (snd (demo_peer n)) = Inr ()"
    by (simp_all add: demo_card_def demo_peer_def)
qed

lemma demo_identities:
  "public_bytes toy_ratchet (arr_fill 1) = ni_identity_pk (demo_card 1)" "ni_identity_pk (demo_card 1) \<noteq> ni_identity_pk (demo_card 5)"
  by (simp_all add: demo_card_def issued_card_def public_bytes_def toy_ratchet_def list_of_arr_fill)

lemma demo_entropy:
  "ro_entropy toy_ratchet 0 16 = (Some (list_of (arr_fill 1 :: 16 arr)), 1)" "arr_pad (list_of (arr_fill 1 :: 16 arr)) \<noteq> (arr_fill 0 :: 16 arr)"
  "ro_entropy toy_ratchet 1 32 = (Some (replicate 32 2), 2)" "std_from_rng toy_ratchet 2 = (Inr 3, 3)"
  "std_from_rng toy_ratchet 9 = (Inr 10, 10)"
  by (simp add: toy_ratchet_def list_of_arr_fill, simp, simp_all add: toy_ratchet_def std_from_rng_def)

section \<open>Properties\<close>

text \<open>
  C14 (liveness): the peer handshake succeeds. Two nodes with fresh, matching cards and secrets and
  working entropy: initiating produces a packet of legal size; the peer's decoder accepts that packet,
  and accepting it yields the initiator's own card, the agreed tag and generation, and the recovery
  flag exactly for generations after the first. Both credited sessions are well formed, their ratchets
  satisfy the link invariant (so every later frame is delivered as in the ratchet's own theorem), and
  the responder's first credit, applied by the initiator, credits exactly counter 1.
\<close>

theorem peer_handshake:
  assumes "ratchet_ok R" and "public_bytes R identity = ni_identity_pk own" and "ni_identity_pk own \<noteq> ni_identity_pk peer"
    and "card_bundle R own now = Inr ob" and "check_secrets R ob secrets = Inr ()"
    and "card_bundle R peer now = Inr pb" and "check_secrets R pb psecrets = Inr ()"
    and "card_bundle R own now' = Inr ob'" and "card_bundle R peer now' = Inr pb'"
    and "generation \<noteq> 0" and "now \<noteq> 0"
    and "ro_entropy R h 16 = (Some bytes, h1)" and "arr_pad bytes \<noteq> (arr_fill 0 :: 16 arr)"
    and "ro_entropy R h1 32 = (Some secret, h2)" and "std_from_rng R h2 = (Inr rng, h3)"
    and "std_from_rng R k = (Inr rng', k')"
  shows "\<exists>ini p a. initiate_generation R identity own secrets peer generation now mon tok h = (Inr ini, h3)
     \<and> packet_decode (in_packet ini) = Inr p \<and> accept_at R p peer psecrets now' mon' tok' k = (Inr a, k')
     \<and> ax_peer a = own \<and> ax_recovery a = (1 < generation)
     \<and> w_session (cs_window (in_session ini)) = pk_tag p \<and> w_session (cs_window (ax_session a)) = pk_tag p
     \<and> w_generation (cs_window (in_session ini)) = generation \<and> w_generation (cs_window (ax_session a)) = generation
     \<and> credited_ok R (in_session ini) \<and> credited_ok R (ax_session a)
     \<and> rlink_inv R (rlink_of (cs_ratchet (in_session ini)) (cs_ratchet (ax_session a)))
     \<and> (\<exists>changed w. accept_credit (ro_crypto R) (list_of (ax_credit a)) (cs_window (in_session ini)) = Inr (changed, w)
          \<and> cov_set (w_credited w) = {1})"
proof -
  have kem: "b_kem_pub pb = ro_kem_pub R (ls_kem_dk psecrets)" using assms(7) by (simp add: check_secrets_Inr public_material_def)
  obtain ini where ini: "initiate_generation R identity own secrets peer generation now mon tok h = (Inr ini, h3)"
    using initiate_generation_returns [OF assms(1-6) kem assms(10-15)] by blast
  have "pb' = pb" using card_bundleD(1) [OF assms(6)] card_bundleD(1) [OF assms(9)] by simp
  with assms(7) have sec: "check_secrets R pb' psecrets = Inr ()" by simp
  show ?thesis
    by (rule accept_initiated_packet [OF assms(1) ini assms(8,9) sec assms(16), of mon' tok'])
       (use ini peers_joined_inv [OF assms(1)] in blast)
qed

theorem peer_handshake_witness:
  "\<exists>ini p a. initiate_generation toy_ratchet (arr_fill 1) (demo_card 1) (snd (demo_peer 1)) (demo_card 5) 3 100 0 7 0 = (Inr ini, 3)
     \<and> accept_at toy_ratchet p (demo_card 5) (snd (demo_peer 5)) 200 0 8 9 = (Inr a, 10)
     \<and> ax_peer a = demo_card 1 \<and> ax_recovery a"
proof -
  have c: "card_bundle toy_ratchet (demo_card n) 100 = Inr (fst (demo_peer n))" "card_bundle toy_ratchet (demo_card n) 200 = Inr (fst (demo_peer n))"
    "check_secrets toy_ratchet (fst (demo_peer n)) (snd (demo_peer n)) = Inr ()" for n
    using demo_card_ok [of 100 n] demo_card_ok [of 200 n] by simp_all
  from peer_handshake [OF toy_ratchet_ok demo_identities c(1,3) c(1,3) c(2,2) _ _ demo_entropy, of 3 0 7 0 8]
  show ?thesis by auto
qed

text \<open>
  C15 (safety): what an accepted handshake proves. The peer's card is in its canonical form and carries
  no provisioning; its bundle is fresh and signed by the identity the card names, which is not the
  responder's own; the first move opens under the responder's secrets to a record signed by that
  identity for this responder's identity and bundle; the record is a control record that names the
  packet's tag, and the recovery flag is set exactly when its generation is at least two. The first
  counter is received, and the session is well formed.
\<close>

theorem accepted_is_authentic:
  assumes "accept_at R p own secrets now mon tok h = (Inr a, h')"
  shows "\<exists>own_bundle peer_bundle fm plain s r sg.
       card_bundle R own now = Inr own_bundle \<and> packet_first_move p = Inr fm
     \<and> (\<exists>h1. accept_with_rng_at R secrets fm h mon = (Inr (plain, s), h1))
     \<and> split_authenticated_payload plain = Some (fr_encode r, sg)
     \<and> verify_first_move_auth R fm (ni_identity_pk (ax_peer a)) (ni_identity_pk own) own_bundle (fr_encode r) sg
     \<and> bundle_decode (ni_bundle (ax_peer a)) = Some peer_bundle
     \<and> verify_fresh R (ni_identity_pk (ax_peer a)) now peer_bundle
     \<and> ni_identity_pk (ax_peer a) \<noteq> ni_identity_pk own \<and> ni_provisioning (ax_peer a) = None
     \<and> fr_purpose r = PControl \<and> fr_not_after r = 0
     \<and> fr_body r = hello_body (w_generation (cs_window (ax_session a))) (pk_tag p) (ax_peer a)
     \<and> ax_recovery a = (1 < w_generation (cs_window (ax_session a)))
     \<and> w_session (cs_window (ax_session a)) = pk_tag p
     \<and> cov_set (w_received (cs_window (ax_session a))) = {1}"
proof -
  from assms obtain own_bundle fm plain s h1 where o: "card_bundle R own now = Inr own_bundle" "packet_first_move p = Inr fm"
    "accept_with_rng_at R secrets fm h mon = (Inr (plain, s), h1)"
    and acc: "accept_opened R p own own_bundle fm plain s now tok = Inr a"
    by (auto simp: accept_at_def check_secrets_Inr split: sum.splits prod.splits)
  from acc obtain sg r recovery g peer peer_bundle s' w0 v credit v' signed where
    r: "split_authenticated_payload plain = Some (signed, sg)" "fr_decode signed = Inr r"
    "parse_hello (pk_tag p) r = Inr (recovery, g, node_encode (node_public peer))"
    and peer: "ni_identity_pk peer \<noteq> ni_identity_pk own" "card_bundle R peer now = Inr peer_bundle"
    "verify_first_move_auth R fm (ni_identity_pk peer) (ni_identity_pk own) own_bundle signed sg"
    and w: "window_new_generation (pk_tag p) g = Inr w0" "record_authenticated (ro_crypto R) 1 (pk_bytes p) r w0 = Inr v"
    "credit_for_duplicate (ro_crypto R) 1 (pk_bytes p) v = Inr (credit, v')"
    and a: "ax_peer a = peer" "ax_recovery a = recovery" "cs_window (ax_session a) = v'"
    by (auto simp: accept_opened_def from_authenticated_def)
  have signed: "signed = fr_encode r" using fr_encode_decode [OF r(2)] by simp
  have body: "fr_purpose r = PControl" "fr_not_after r = 0" "recovery = (1 < g)" "fr_body r = hello_body g (pk_tag p) peer"
    using parse_hello_Inr [OF r(3)] by (auto simp: hello_body_def)
  have inv: "window_inv (ro_crypto R) w0" by (rule window_new_inv [OF w(1)])
  obtain cov where "cov_set cov = insert (unat (1 :: u64)) (cov_set (w_received w0))" "w_received v = cov" "w_session v = w_session w0" "w_generation v = w_generation w0"
    by (rule record_authenticated_cases [OF inv w(2)]) auto
  then have "cov_set (w_received v') = {1}" "w_session v' = pk_tag p" "w_generation v' = g"
    using credit_for_duplicate_same [OF w(3)] w(1) by (auto simp: window_new_generation_def)
  with o r(1) peer body a signed card_bundleD [OF peer(2)] show ?thesis by blast
qed

theorem accepted_is_authentic_witness:
  "\<exists>a p r sg plain. accept_at toy_ratchet p (demo_card 5) (snd (demo_peer 5)) 200 0 8 9 = (Inr a, 10)
     \<and> split_authenticated_payload plain = Some (fr_encode r, sg)
     \<and> fr_body r = hello_body 3 (pk_tag p) (demo_card 1)"
proof -
  have kem: "b_kem_pub (fst (demo_peer 5)) = ro_kem_pub toy_ratchet (ls_kem_dk (snd (demo_peer 5)))"
    using demo_card_ok(2) [of 100 5] by (simp add: check_secrets_Inr public_material_def)
  obtain ini where ini: "initiate_generation toy_ratchet (arr_fill 1) (demo_card 1) (snd (demo_peer 1)) (demo_card 5) 3 100 0 7 0 = (Inr ini, 3)"
    using initiate_generation_returns [OF toy_ratchet_ok demo_identities demo_card_ok demo_card_ok(1) kem _ _ demo_entropy(1-4), where mon = 0 and tok = 7 and g = 3 and now = 100]
    by auto
  obtain p a r where a: "accept_at toy_ratchet p (demo_card 5) (snd (demo_peer 5)) 200 0 8 9 = (Inr a, 10)"
    "ax_peer a = demo_card 1" "w_generation (cs_window (ax_session a)) = 3"
    by (rule accept_initiated_packet [OF toy_ratchet_ok ini demo_card_ok(1) demo_card_ok(1) demo_card_ok(2) demo_entropy(5), where now' = 200 and mon' = 0 and tok' = 8]) auto
  from accepted_is_authentic [OF a(1)] a show ?thesis by metis
qed

end
