(* ===== verification/Credited_Link.thy ===== *)
theory Credited_Link
  imports Gc2_Handshake
begin

text \<open>
  Two credited sessions after a peer handshake, and the network between them: the composition of the
  ratchet, the credit window and the packet format. Each side prepares and commits sends and
  receives, renews and accepts credits, restarts from its archives and exchanges KEM keys; the
  network loses, delays, repeats and reorders packets and credits. A frame or credit that
  authenticates was produced by the peer.
\<close>

section \<open>The link\<close>

text \<open>
  \<open>True\<close> is the initiator. \<open>cl_sent\<close> lists the frames a side has committed, with their records and
  packets; \<open>cl_first\<close> is the first move; \<open>cl_credits l d\<close> are the credits issued to side \<open>d\<close>.
\<close>

record 'g clink =
  cl_sess :: "bool \<Rightarrow> 'g credited_session"
  cl_sent :: "bool \<Rightarrow> (flow_record \<times> frame \<times> bytes) list"
  cl_first :: "bytes \<times> flow_record"
  cl_credits :: "bool \<Rightarrow> credit set"

definition cl_net :: "'g clink \<Rightarrow> bool \<Rightarrow> sent_packet set" where
  "cl_net l d = (if d then {(1, fst (cl_first l), snd (cl_first l))} else {}) \<union> (\<lambda>(r, f, p). (f_ctr f, p, r)) ` set (cl_sent l d)"

text \<open>The two halves of the link: a ratchet link, and one credit link for each direction.\<close>

definition ratchet_view :: "'g clink \<Rightarrow> 'g rlink" where
  "ratchet_view l = \<lparr>lk_sess = (\<lambda>d. cs_ratchet (cl_sess l d)), lk_sent = (\<lambda>d. map (\<lambda>(r, f, _). (fr_encode r, f)) (cl_sent l d))\<rparr>"

definition flow_view :: "'g clink \<Rightarrow> bool \<Rightarrow> link" where
  "flow_view l d = \<lparr>l_snd = cs_window (cl_sess l d), l_rcv = cs_window (cl_sess l (\<not> d)), l_net = cl_net l d, l_credits = cl_credits l d\<rparr>"

definition sent_frames :: "'g clink \<Rightarrow> bool \<Rightarrow> frame set" where
  "sent_frames l d = (\<lambda>(_, f, _). f) ` set (cl_sent l d)"

inductive clink_step :: "('g, 'h) ratchet_ops \<Rightarrow> 'g clink \<Rightarrow> 'g clink \<Rightarrow> bool" for R where
  send: "clink_step R l (l\<lparr>cl_sess := (cl_sess l)(d := cs), cl_sent := (cl_sent l)(d := cl_sent l d @ [(r, f, packet)])\<rparr>)"
    if "can_prepare_send R r u key ctx volatile now h (cl_sess l d) p" and "commit_send p tok (cl_sess l d) = Inr cs"
      and "fr_ok r" and "encode_frame_bytes (w_session (cs_window (cl_sess l d))) (pr_output (ps_ratchet p)) = Inr packet"
      and "packet_decode packet = Inr q" and "packet_frame q = Inr f"
      and "au_reference (packet_authority (ro_crypto R) (w_session (cs_window (cl_sess l d))) (f_ctr f, packet, r))
        \<notin> au_reference ` packet_authority (ro_crypto R) (w_session (cs_window (cl_sess l d))) ` cl_net l d"
      and "s_mixed_peer (cs_ratchet cs) \<noteq> s_mixed_peer (cs_ratchet (cl_sess l d))
        \<longrightarrow> my_pub R (cs_ratchet cs) \<noteq> my_pub R (cs_ratchet (cl_sess l d))"
| receive: "clink_step R l (l\<lparr>cl_sess := (cl_sess l)(d := cs), cl_credits := (cl_credits l)((\<not> d) := insert (pv_credit p) (cl_credits l (\<not> d)))\<rparr>)"
    if "can_prepare_receive R f key ctx now tok h (cl_sess l d) p" and "commit_receive p (cl_sess l d) = Inr cs"
      and "pv_record p \<noteq> None \<longrightarrow> f \<in> sent_frames l (\<not> d)"
| retry: "clink_step R l (l\<lparr>cl_sess := (cl_sess l)(d := cs), cl_credits := (cl_credits l)((\<not> d) := insert (pv_credit p) (cl_credits l (\<not> d)))\<rparr>)"
    if "prepare_first_move_retry (ro_crypto R) q tok (cl_sess l d) = Inr p" and "commit_receive p (cl_sess l d) = Inr cs"
| credit: "clink_step R l (l\<lparr>cl_sess := (cl_sess l)(d := cs)\<rparr>)"
    if "b \<in> cl_credits l d" and "prepare_credit (ro_crypto R) (list_of b) (cl_sess l d) = Inr (Some p)"
      and "commit_credit p tok (cl_sess l d) = Inr cs"
| restart: "clink_step R l (l\<lparr>cl_sess := (cl_sess l)(d := cs)\<rparr>)"
    if "restored (cs_ratchet (cl_sess l d)) s"
      and "decode_private (ro_crypto R) (encode_private (cs_window (cl_sess l d))) = Inr w"
      and "from_authenticated s w tok = Inr cs"
| peer_kem: "clink_step R l (l\<lparr>cl_sess := (cl_sess l)(d := cs)\<rparr>)"
    if "s_kem_dk (cs_ratchet (cl_sess l (\<not> d))) = Some dk"
      and "credited_provide_peer_kem R (ro_kem_pub R dk) tok (cl_sess l d) = Inr cs"
| local_kem: "clink_step R l (l\<lparr>cl_sess := (cl_sess l)(d := provide_local_secrets secrets tok (cl_sess l d))\<rparr>)"
    if "s_kem_dk (cs_ratchet (cl_sess l d)) = None" and "s_peer_kem (cs_ratchet (cl_sess l (\<not> d))) = None"

definition clink_start :: "('g, 'h) ratchet_ops \<Rightarrow> 'g clink \<Rightarrow> bool" where
  "clink_start R l \<longleftrightarrow>
     (\<exists>a b packet r credit. peers_joined R a b packet r credit
        \<and> l = \<lparr>cl_sess = (\<lambda>d. if d then a else b), cl_sent = (\<lambda>_. []), cl_first = (packet, r),
               cl_credits = (\<lambda>d. if d then {credit} else {})\<rparr>)"

inductive clink_reach :: "('g, 'h) ratchet_ops \<Rightarrow> 'g clink \<Rightarrow> bool" for R where
  start: "clink_start R l \<Longrightarrow> clink_reach R l"
| step: "clink_reach R l \<Longrightarrow> clink_step R l l' \<Longrightarrow> clink_reach R l'"

section \<open>Invariant\<close>

definition clink_inv :: "('g, 'h) ratchet_ops \<Rightarrow> 'g clink \<Rightarrow> bool" where
  "clink_inv R l \<longleftrightarrow>
     rlink_inv R (ratchet_view l)
     \<and> (\<forall>d. link_inv (ro_crypto R) (flow_view l d) \<and> credited_ok R (cl_sess l d)
          \<and> (\<forall>(r, f, p) \<in> set (cl_sent l d). fr_ok r \<and> gc2_encode_frame (w_session (cs_window (cl_sess l d))) f = Inr p))"

lemma clink_invD:
  assumes "clink_inv R l"
  shows "rlink_inv R (ratchet_view l)" "link_inv (ro_crypto R) (flow_view l d)" "credited_ok R (cl_sess l d)"
    "(r, f, p) \<in> set (cl_sent l d) \<Longrightarrow> fr_ok r \<and> gc2_encode_frame (w_session (cs_window (cl_sess l d))) f = Inr p"
    "w_session (cs_window (cl_sess l (\<not> d))) = w_session (cs_window (cl_sess l d))"
    "window_inv (ro_crypto R) (cs_window (cl_sess l d))"
proof -
  show "rlink_inv R (ratchet_view l)" "link_inv (ro_crypto R) (flow_view l d)" "credited_ok R (cl_sess l d)"
    "(r, f, p) \<in> set (cl_sent l d) \<Longrightarrow> fr_ok r \<and> gc2_encode_frame (w_session (cs_window (cl_sess l d))) f = Inr p"
    using assms by (auto simp: clink_inv_def)
  then show "w_session (cs_window (cl_sess l (\<not> d))) = w_session (cs_window (cl_sess l d))"
    "window_inv (ro_crypto R) (cs_window (cl_sess l d))"
    by (simp_all add: link_inv_def flow_view_def)
qed

text \<open>A window may change in ways that the other end of a credit link does not see.\<close>

lemma link_snd_change:
  assumes "link_inv C l" and "window_inv C w" and "w_session w = w_session (l_snd l)" "w_sent w = w_sent (l_snd l)"
    and "w_credited w = w_credited (l_snd l)"
    and "apsnd se_authority ` set (w_tx w) \<subseteq> apsnd se_authority ` set (w_tx (l_snd l))"
  shows "link_inv C (l\<lparr>l_snd := w\<rparr>)"
proof -
  have "from_net C (w_session (l_snd l)) (l_net l) k (se_authority e)" if "(k, e) \<in> set (w_tx w)" for k e
  proof -
    have "(k, se_authority e) \<in> apsnd se_authority ` set (w_tx (l_snd l))" using that assms(6) by force
    then obtain e' where "(k, e') \<in> set (w_tx (l_snd l))" "se_authority e' = se_authority e" by auto
    with assms(1) show ?thesis by (auto simp: link_inv_def ends_ok_def)
  qed
  with assms show ?thesis by (auto simp: link_inv_defs)
qed

lemma link_rcv_change:
  assumes "link_inv C l" and "window_inv C w" and "w_session w = w_session (l_rcv l)" "w_received w = w_received (l_rcv l)"
    and "w_rx w = w_rx (l_rcv l)"
  shows "link_inv C (l\<lparr>l_rcv := w\<rparr>)"
  using assms by (simp add: link_inv_defs)

lemma flow_view_sess:
  "flow_view (l\<lparr>cl_sess := (cl_sess l)(d := cs)\<rparr>) e =
     (if e = d then (flow_view l e)\<lparr>l_snd := cs_window cs\<rparr> else (flow_view l e)\<lparr>l_rcv := cs_window cs\<rparr>)"
  by (auto simp: flow_view_def cl_net_def)

lemma ratchet_view_sess:
  "ratchet_view (l\<lparr>cl_sess := (cl_sess l)(d := cs)\<rparr>) = (ratchet_view l)\<lparr>lk_sess := (lk_sess (ratchet_view l))(d := cs_ratchet cs)\<rparr>"
  by (auto simp: ratchet_view_def)

lemma ratchet_view_sel [simp]: "lk_sess (ratchet_view l) d = cs_ratchet (cl_sess l d)"
  "lk_sent (ratchet_view l) d = map (\<lambda>(r, f, _). (fr_encode r, f)) (cl_sent l d)"
  by (simp_all add: ratchet_view_def)

lemma restored_rng: "restored s (s\<lparr>s_rng := rng\<rparr>)"
  by (auto simp: restored_def intro!: exI [where x = "\<lambda>_. True"])

lemma rlink_inv_rng:
  assumes "ratchet_ok R" and "rlink_inv R l"
  shows "rlink_inv R (l\<lparr>lk_sess := (lk_sess l)(d := (lk_sess l d)\<lparr>s_rng := rng\<rparr>)\<rparr>)"
  by (rule rlink_step_inv [OF assms(1) rlink_step.restore [OF restored_rng] assms(2)])

subsection \<open>Start\<close>

lemma empty_tx: "window_inv C w \<Longrightarrow> w_sent w = 0 \<Longrightarrow> w_tx w = [] \<and> cov_set (w_credited w) = {}"
proof -
  assume i: "window_inv C w" and z: "w_sent w = 0"
  then have "map (unat \<circ> fst) (w_tx w) = []" and hi: "cov_hi (w_credited w) = 0" by (simp_all add: window_inv_def tx_ok_def)
  moreover have "n \<notin> cov_set (w_credited w)" for n using cov_set_le_hi [of n "w_credited w"] hi by auto
  ultimately show ?thesis by auto
qed

lemma empty_rx: "window_inv C w \<Longrightarrow> w_received w = cov_default \<Longrightarrow> w_rx w = []"
  by (auto simp: window_inv_def rx_ok_def)

lemma clink_start_inv:
  assumes ok: "ratchet_ok R" and start: "clink_start R l"
  shows "clink_inv R l"
proof -
  from start obtain a b packet r credit where j: "peers_joined R a b packet r credit"
    and l: "l = \<lparr>cl_sess = (\<lambda>d. if d then a else b), cl_sent = (\<lambda>_. []), cl_first = (packet, r), cl_credits = (\<lambda>d. if d then {credit} else {})\<rparr>"
    unfolding clink_start_def by blast
  note inv = peers_joined_inv [OF ok j]
  have rv: "ratchet_view l = rlink_of (cs_ratchet a) (cs_ratchet b)" by (auto simp: ratchet_view_def rlink_of_def l)
  have t: "link_inv (ro_crypto R) \<lparr>l_snd = cs_window a, l_rcv = cs_window b, l_net = {(1, packet, r)}, l_credits = {credit}\<rparr>"
    using j by (intro link_reach_inv [OF ratchet_okD(1) [OF ok]]) (simp add: peers_joined_def)
  then have w: "window_inv (ro_crypto R) (cs_window a)" "window_inv (ro_crypto R) (cs_window b)" "w_session (cs_window b) = w_session (cs_window a)"
    by (simp_all add: link_inv_def)
  have e: "w_tx (cs_window b) = []" "cov_set (w_credited (cs_window b)) = {}" "w_rx (cs_window a) = []" "w_sent (cs_window b) = 0"
    "w_received (cs_window a) = cov_default"
    using empty_tx [OF w(2)] empty_rx [OF w(1)] j by (simp_all add: peers_joined_def)
  have "link_inv (ro_crypto R) (flow_view l d)" for d
    using t w e by (cases d) (simp_all add: flow_view_def cl_net_def l link_inv_defs)
  moreover have "credited_ok R (cl_sess l d)" "cl_sent l d = []" for d using inv by (simp_all add: l)
  ultimately show ?thesis using inv(1) by (simp add: clink_inv_def rv)
qed

subsection \<open>Steps\<close>

text \<open>What a step must provide for the side it changes.\<close>

lemma clink_inv_update:
  assumes inv: "clink_inv R l"
    and rl: "rlink_inv R (ratchet_view l')" and ok: "credited_ok R cs" and sess: "w_session (cs_window cs) = w_session (cs_window (cl_sess l d))"
    and l': "cl_sess l' = (cl_sess l)(d := cs)"
    and fl: "link_inv (ro_crypto R) (flow_view l' d)" "link_inv (ro_crypto R) (flow_view l' (\<not> d))"
    and sent: "\<And>r f p e. (r, f, p) \<in> set (cl_sent l' e) \<Longrightarrow> (r, f, p) \<in> set (cl_sent l e)
       \<or> fr_ok r \<and> gc2_encode_frame (w_session (cs_window (cl_sess l e))) f = Inr p"
  shows "clink_inv R l'"
proof -
  have s: "w_session (cs_window (cl_sess l' e)) = w_session (cs_window (cl_sess l e))" for e using sess l' by simp
  have "link_inv (ro_crypto R) (flow_view l' e)" for e using fl by (cases "e = d") auto
  moreover have "credited_ok R (cl_sess l' e)" for e using ok l' clink_invD(3) [OF inv] by simp
  moreover have "fr_ok r \<and> gc2_encode_frame (w_session (cs_window (cl_sess l' e))) f = Inr p" if "(r, f, p) \<in> set (cl_sent l' e)" for r f p e
    using sent [OF that] clink_invD(4) [OF inv] s by metis
  ultimately show ?thesis using rl by (auto simp: clink_inv_def)
qed

lemma clink_inv_same_sent:
  assumes inv: "clink_inv R l"
    and rl: "rlink_inv R (ratchet_view (l\<lparr>cl_sess := (cl_sess l)(d := cs)\<rparr>))" and ok: "credited_ok R cs"
    and snd: "link_inv (ro_crypto R) ((flow_view l d)\<lparr>l_snd := cs_window cs\<rparr>)"
    and rcv: "link_inv (ro_crypto R) ((flow_view l (\<not> d))\<lparr>l_rcv := cs_window cs, l_credits := c (\<not> d)\<rparr>)"
    and c: "c d = cl_credits l d"
  shows "clink_inv R (l\<lparr>cl_sess := (cl_sess l)(d := cs), cl_credits := c\<rparr>)"
proof -
  let ?l = "l\<lparr>cl_sess := (cl_sess l)(d := cs), cl_credits := c\<rparr>"
  have r: "ratchet_view ?l = ratchet_view (l\<lparr>cl_sess := (cl_sess l)(d := cs)\<rparr>)" by (simp add: ratchet_view_def)
  have f: "flow_view ?l d = (flow_view l d)\<lparr>l_snd := cs_window cs\<rparr>"
    "flow_view ?l (\<not> d) = (flow_view l (\<not> d))\<lparr>l_rcv := cs_window cs, l_credits := c (\<not> d)\<rparr>"
    using c by (simp_all add: flow_view_def cl_net_def)
  have se: "w_session (cs_window cs) = w_session (cs_window (cl_sess l d))"
    using rcv clink_invD(5) [OF inv, of d] by (simp add: link_inv_def flow_view_def)
  show ?thesis
    by (rule clink_inv_update [OF inv _ ok se]) (use rl snd rcv r f in simp_all)
qed

lemma wire_packet:
  assumes fok: "frame_ok f" and enc: "frame_encode f = Inr wire" and pk: "encode_frame_bytes tag wire = Inr packet"
  shows "gc2_encode_frame tag f = Inr packet"
proof -
  have "validate_frame_bytes wire = Inr ()" "length wire \<le> MAX_MESSAGE - SESSION_HEADER"
    using pk by (auto simp: encode_frame_bytes_def)
  then obtain g where g: "frame_decode wire = Some g" "validate_frame g = Inr ()"
    using validate_frame_bytes_decode by blast
  moreover have "frame_decode wire = Some f" using frame_decode_encode [OF fok] enc by auto
  ultimately have "validate_frame f = Inr ()" by simp
  from encode_frame_bytes_eq [OF this enc] pk show ?thesis by simp
qed

lemma ratchet_send_inv:
  assumes ok: "ratchet_ok R" and inv: "clink_inv R l" and r: "fr_ok r" and lt: "s_send_ctr (cs_ratchet (cl_sess l d)) < - 1"
    and tx: "send_at R (fr_encode r) now ((cs_ratchet (cl_sess l d))\<lparr>s_rng := rng\<rparr>) = (s', Inr f)"
    and rot: "s_mixed_peer s' \<noteq> s_mixed_peer (cs_ratchet (cl_sess l d)) \<longrightarrow> my_pub R s' \<noteq> my_pub R (cs_ratchet (cl_sess l d))"
  shows "rlink_inv R ((ratchet_view l)\<lparr>lk_sess := (lk_sess (ratchet_view l))(d := s'),
      lk_sent := (lk_sent (ratchet_view l))(d := lk_sent (ratchet_view l) d @ [(fr_encode r, f)])\<rparr>)" (is "rlink_inv R ?rl")
    and "frame_ok f"
proof -
  let ?v = "(ratchet_view l)\<lparr>lk_sess := (lk_sess (ratchet_view l))(d := (cs_ratchet (cl_sess l d))\<lparr>s_rng := rng\<rparr>)\<rparr>"
  have "rlink_step R ?v (?v\<lparr>lk_sess := (lk_sess ?v)(d := s'), lk_sent := (lk_sent ?v)(d := lk_sent ?v d @ [(fr_encode r, f)])\<rparr>)"
    using tx lt length_fr_encode [OF r] rot by (intro rlink_step.send [where now = now]) (simp_all add: my_pub_def)
  from rlink_step_inv [OF ok this] rlink_inv_rng [OF ok clink_invD(1) [OF inv], of d rng] show rv: "rlink_inv R ?rl" by simp
  have "(fr_encode r, f) \<in> set (lk_sent ?rl d)" by simp
  then show "frame_ok f" using rv by (auto simp: rlink_inv_alt dest!: dirsD [where d = d] elim!: entry_of simp: dir_ok_def)
qed

lemma send_step_inv:
  assumes ok: "ratchet_ok R" and inv: "clink_inv R l" and p: "can_prepare_send R r u key ctx volatile now h (cl_sess l d) p"
    and c: "commit_send p tok (cl_sess l d) = Inr cs" and r: "fr_ok r"
    and pk: "encode_frame_bytes (w_session (cs_window (cl_sess l d))) (pr_output (ps_ratchet p)) = Inr packet"
      "packet_decode packet = Inr q" "packet_frame q = Inr f"
    and ref: "au_reference (packet_authority (ro_crypto R) (w_session (cs_window (cl_sess l d))) (f_ctr f, packet, r))
        \<notin> au_reference ` packet_authority (ro_crypto R) (w_session (cs_window (cl_sess l d))) ` cl_net l d"
    and rot: "s_mixed_peer (cs_ratchet cs) \<noteq> s_mixed_peer (cs_ratchet (cl_sess l d))
        \<longrightarrow> my_pub R (cs_ratchet cs) \<noteq> my_pub R (cs_ratchet (cl_sess l d))"
  shows "clink_inv R (l\<lparr>cl_sess := (cl_sess l)(d := cs), cl_sent := (cl_sent l)(d := cl_sent l d @ [(r, f, packet)])\<rparr>)"
proof -
  let ?S = "cl_sess l d" and ?l = "l\<lparr>cl_sess := (cl_sess l)(d := cs), cl_sent := (cl_sent l)(d := cl_sent l d @ [(r, f, packet)])\<rparr>"
  let ?C = "ro_crypto R" and ?k = "w_sent (cs_window (cl_sess l d)) + 1"
  obtain rng s' f0 packet0 w sealed wire where s: "send_at R (fr_encode r) now ((cs_ratchet ?S)\<lparr>s_rng := rng\<rparr>) = (s', Inr f0)"
    "frame_encode f0 = Inr wire" "encode_frame_bytes (w_session (cs_window ?S)) wire = Inr packet0"
    "record_sent ?C ?k packet0 r u (cs_window ?S) = Inr w" "volatile \<longrightarrow> fr_purpose r \<noteq> PControl"
    and peq: "p = \<lparr>ps_revision = cs_revision ?S,
          ps_ratchet = \<lparr>pr_base_send_ctr = s_send_ctr (cs_ratchet ?S), pr_base_recv_ctr = s_recv_ctr (cs_ratchet ?S),
             pr_output = wire, pr_sealed = sealed, pr_next = Some s'\<rparr>,
          ps_window = set_volatile ?k volatile w\<rparr>"
    by (rule prepare_sendE [OF p])
  have cs: "cs = \<lparr>cs_ratchet = s', cs_window = set_volatile ?k volatile w, cs_revision = tok\<rparr>"
    using c by (auto simp: peq commit_send_def session_commit_send_def)
  have p0: "packet0 = packet" using pk(1) s(3) by (simp add: peq)
  have se: "w_session (cs_window cs) = w_session (cs_window ?S)" and rx: "w_received (cs_window cs) = w_received (cs_window ?S)"
    "w_rx (cs_window cs) = w_rx (cs_window ?S)"
    using record_sent_cases(1) [OF clink_invD(6) [OF inv] s(4)] by (simp_all add: cs)
  have ok': "credited_ok R cs" using commit_sent [OF clink_invD(3) [OF inv] p, of tok] c by simp
  have "s_send_ctr (cs_ratchet ?S) < - 1"
    using clink_invD(3) [OF inv, of d] record_sent_cases(2) [OF clink_invD(6) [OF inv] s(4)]
    by (auto simp: credited_ok_def word_less_nat_alt unsigned_minus_1_eq_mask mask_eq_exp_minus_1 unat_plus_if_size word_size split: if_splits)
  note rv = ratchet_send_inv(1) [OF ok inv r this s(1)] and fok = ratchet_send_inv(2) [OF ok inv r this s(1)]
  have enc: "gc2_encode_frame (w_session (cs_window ?S)) f0 = Inr packet"
    by (rule wire_packet [OF fok s(2)]) (use s(3) p0 rot in \<open>simp_all add: cs\<close>)
  then have f: "f0 = f" using packet_decode_frame pk(2,3) by force
  have k: "f_ctr f = ?k" using send_at_ctr [OF s(1)] clink_invD(3) [OF inv, of d] f by (simp add: credited_ok_def)
  let ?v = "(flow_view l d)\<lparr>l_snd := w, l_net := insert (f_ctr f, packet, r) (cl_net l d)\<rparr>"
  have wi: "window_inv ?C (cs_window cs)" using ok' by (simp add: credited_ok_def)
  have "link_inv ?C ?v"
    using send_inv [OF clink_invD(2) [OF inv, of d], of ?k packet r u w] s(4) ref k p0 by (simp add: flow_view_def)
  then have "link_inv ?C (?v\<lparr>l_snd := cs_window cs\<rparr>)"
    by (rule link_snd_change [OF _ wi]) (force simp: cs set_volatile_def)+
  moreover have "flow_view ?l d = ?v\<lparr>l_snd := cs_window cs\<rparr>" by (auto simp: flow_view_def cl_net_def)
  moreover have "link_inv ?C ((flow_view l (\<not> d))\<lparr>l_rcv := cs_window cs\<rparr>)"
    by (rule link_rcv_change [OF clink_invD(2) [OF inv] wi]) (simp_all add: flow_view_def se rx)
  moreover have "flow_view ?l (\<not> d) = (flow_view l (\<not> d))\<lparr>l_rcv := cs_window cs\<rparr>" by (simp add: flow_view_def cl_net_def)
  moreover have "rlink_inv R (ratchet_view ?l)" using rv rot by (simp add: ratchet_view_def cs f fun_upd_def if_distrib cong: if_cong)
  ultimately show ?thesis
    using enc f r by (intro clink_inv_update [OF inv _ ok' se]) (auto split: if_splits)
qed

text \<open>A genuine frame decrypts to the record that was sent with it.\<close>

lemma genuine_record:
  assumes ok: "ratchet_ok R" and inv: "clink_inv R l" and f: "f \<in> sent_frames l (\<not> d)"
    and rx: "receive_at R f now ((cs_ratchet (cl_sess l d))\<lparr>s_rng := rng\<rparr>) = (s', Inr plain)" and r: "fr_decode plain = Inr r"
    and pk: "gc2_encode_frame (w_session (cs_window (cl_sess l d))) f = Inr packet"
  shows "(r, f, packet) \<in> set (cl_sent l (\<not> d))"
proof -
  let ?v = "(ratchet_view l)\<lparr>lk_sess := (lk_sess (ratchet_view l))(d := (cs_ratchet (cl_sess l d))\<lparr>s_rng := rng\<rparr>)\<rparr>"
  have v: "rlink_inv R ?v" using rlink_inv_rng [OF ok clink_invD(1) [OF inv], of d rng] by simp
  have "f \<in> snd ` set (lk_sent ?v (\<not> d))" using f by (force simp: sent_frames_def)
  from deliver_genuine_payload [OF v this] rx have "(plain, f) \<in> set (lk_sent ?v (\<not> d))" by simp
  then obtain r0 p0 where e: "(r0, f, p0) \<in> set (cl_sent l (\<not> d))" "plain = fr_encode r0" by auto
  note i = clink_invD(4) [OF inv e(1)]
  have "r0 = r" using r fr_decode_encode [of r0] i e(2) by simp
  moreover have "p0 = packet" using i pk clink_invD(5) [OF inv, of d] by simp
  ultimately show ?thesis using e(1) by simp
qed

lemma credit_renew_inv:
  assumes ok: "ratchet_ok R" and inv: "clink_inv R l"
    and c: "credit_for_duplicate (ro_crypto R) k packet (cs_window (cl_sess l d)) = Inr (b, w)" and cok: "credited_ok R cs"
    and cs: "cs_ratchet cs = cs_ratchet (cl_sess l d)" "cs_window cs = w"
  shows "clink_inv R (l\<lparr>cl_sess := (cl_sess l)(d := cs), cl_credits := (cl_credits l)((\<not> d) := insert b (cl_credits l (\<not> d)))\<rparr>)"
proof -
  let ?C = "ro_crypto R" and ?c = "(cl_credits l)((\<not> d) := insert b (cl_credits l (\<not> d)))"
  note same = credit_same [OF ratchet_okD(1) [OF ok] clink_invD(6) [OF inv] c]
  have wi: "window_inv ?C w" using cok cs by (simp add: credited_ok_def)
  have "link_inv ?C ((flow_view l (\<not> d))\<lparr>l_rcv := w, l_credits := ?c (\<not> d)\<rparr>)"
    using credit_inv [OF ratchet_okD(1) [OF ok] clink_invD(2) [OF inv, of "\<not> d"], of k packet b w] c by (simp add: flow_view_def)
  moreover have "link_inv ?C ((flow_view l d)\<lparr>l_snd := w\<rparr>)"
    by (rule link_snd_change [OF clink_invD(2) [OF inv] wi]) (simp_all add: flow_view_def same)
  moreover have "ratchet_view (l\<lparr>cl_sess := (cl_sess l)(d := cs)\<rparr>) = ratchet_view l" using cs by (auto simp: ratchet_view_def)
  ultimately show ?thesis
    using clink_invD(1) [OF inv] cs by (intro clink_inv_same_sent [OF inv _ cok]) simp_all
qed

lemma receive_step_inv:
  assumes ok: "ratchet_ok R" and inv: "clink_inv R l" and p: "can_prepare_receive R f key ctx now tok h (cl_sess l d) p"
    and c: "commit_receive p (cl_sess l d) = Inr cs" and genuine: "pv_record p \<noteq> None \<longrightarrow> f \<in> sent_frames l (\<not> d)"
  shows "clink_inv R (l\<lparr>cl_sess := (cl_sess l)(d := cs), cl_credits := (cl_credits l)((\<not> d) := insert (pv_credit p) (cl_credits l (\<not> d)))\<rparr>)"
    (is "clink_inv R (l\<lparr>cl_sess := _, cl_credits := ?c\<rparr>)")
proof -
  let ?C = "ro_crypto R"
  note C = ratchet_okD(1) [OF ok]
  have ok': "credited_ok R cs" using commit_received [OF C clink_invD(3) [OF inv] p] c by auto
  from p show ?thesis
  proof (cases rule: prepare_receiveE)
    case (duplicate packet)
    then show ?thesis using c
      by (intro credit_renew_inv [OF ok inv duplicate(5) ok']) (auto simp: commit_receive_def)
  next
    case (fresh packet rng s' plain sealed r w)
    have cs: "cs = \<lparr>cs_ratchet = s', cs_window = pv_window p, cs_revision = tok\<rparr>"
      using c fresh by (auto simp: commit_receive_def session_commit_receive_def)
    have g: "f \<in> sent_frames l (\<not> d)" using genuine fresh(7) by simp
    have net: "(f_ctr f, packet, r) \<in> cl_net l (\<not> d)"
      using genuine_record [OF ok inv g fresh(3,4,1)] by (force simp: cl_net_def)
    have wi: "window_inv ?C w" by (rule record_authenticated_inv [OF clink_invD(6) [OF inv] fresh(5)])
    have "link_inv ?C ((flow_view l (\<not> d))\<lparr>l_rcv := w\<rparr>)"
      using receive_inv [OF clink_invD(2) [OF inv, of "\<not> d"], of "f_ctr f" packet r w] net fresh(5) by (simp add: flow_view_def)
    from credit_inv [OF C this, of "f_ctr f" packet "pv_credit p" "pv_window p"] fresh(6)
    have rcv: "link_inv ?C ((flow_view l (\<not> d))\<lparr>l_rcv := cs_window cs, l_credits := ?c (\<not> d)\<rparr>)"
      by (simp add: flow_view_def cs)
    have "w_tx w = w_tx (cs_window (cl_sess l d))" "w_sent w = w_sent (cs_window (cl_sess l d))" "w_session w = w_session (cs_window (cl_sess l d))"
      "w_credited w = w_credited (cs_window (cl_sess l d))"
      by (rule record_authenticated_cases [OF clink_invD(6) [OF inv] fresh(5)]; simp)+
    with credit_same [OF C wi fresh(6)] have snd: "link_inv ?C ((flow_view l d)\<lparr>l_snd := cs_window cs\<rparr>)"
      by (intro link_snd_change [OF clink_invD(2) [OF inv]]) (use ok' in \<open>simp_all add: flow_view_def cs credited_ok_def\<close>)
    let ?v = "(ratchet_view l)\<lparr>lk_sess := (lk_sess (ratchet_view l))(d := (cs_ratchet (cl_sess l d))\<lparr>s_rng := rng\<rparr>)\<rparr>"
    have "rlink_step R ?v (?v\<lparr>lk_sess := (lk_sess ?v)(d := s')\<rparr>)"
      by (rule rlink_step.receive [where f = f and now = now and r = "Inr plain"]) (use fresh(3) g in \<open>force simp: sent_frames_def\<close>)+
    from rlink_step_inv [OF ok this] rlink_inv_rng [OF ok clink_invD(1) [OF inv], of d rng]
    have "rlink_inv R (ratchet_view (l\<lparr>cl_sess := (cl_sess l)(d := cs)\<rparr>))" by (simp add: ratchet_view_sess cs)
    then show ?thesis by (intro clink_inv_same_sent [OF inv _ ok' snd]) (use rcv in simp_all)
  qed
qed

lemma clink_inv_sess:
  assumes inv: "clink_inv R l"
    and rl: "rlink_inv R ((ratchet_view l)\<lparr>lk_sess := (lk_sess (ratchet_view l))(d := cs_ratchet cs)\<rparr>)" and ok: "credited_ok R cs"
    and snd: "link_inv (ro_crypto R) ((flow_view l d)\<lparr>l_snd := cs_window cs\<rparr>)"
    and rcv: "link_inv (ro_crypto R) ((flow_view l (\<not> d))\<lparr>l_rcv := cs_window cs\<rparr>)"
  shows "clink_inv R (l\<lparr>cl_sess := (cl_sess l)(d := cs)\<rparr>)"
proof -
  have "(flow_view l (\<not> d))\<lparr>l_rcv := cs_window cs, l_credits := cl_credits l (\<not> d)\<rparr> = (flow_view l (\<not> d))\<lparr>l_rcv := cs_window cs\<rparr>"
    by (simp add: flow_view_def)
  with clink_inv_same_sent [OF inv _ ok snd, where c = "cl_credits l"] rl rcv show ?thesis by (simp add: ratchet_view_sess)
qed

lemma credit_step_inv:
  assumes ok: "ratchet_ok R" and inv: "clink_inv R l" and b: "b \<in> cl_credits l d"
    and p: "prepare_credit (ro_crypto R) (list_of b) (cl_sess l d) = Inr (Some p)" and c: "commit_credit p tok (cl_sess l d) = Inr cs"
  shows "clink_inv R (l\<lparr>cl_sess := (cl_sess l)(d := cs)\<rparr>)"
proof -
  let ?C = "ro_crypto R"
  from p obtain w where a: "accept_credit ?C (list_of b) (cs_window (cl_sess l d)) = Inr (True, w)" and pc: "pc_window p = w"
    by (auto simp: prepare_credit_def split: if_splits)
  have cs: "cs_ratchet cs = cs_ratchet (cl_sess l d)" "cs_window cs = w" using c pc by (auto simp: commit_credit_def)
  have ok': "credited_ok R cs" using commit_credited [OF clink_invD(3) [OF inv] p, of tok] c by simp
  have "link_inv ?C ((flow_view l d)\<lparr>l_snd := w\<rparr>)"
    using accept_inv [OF ratchet_okD(1) [OF ok] clink_invD(2) [OF inv, of d], of b True w] b a by (simp add: flow_view_def)
  moreover have "link_inv ?C ((flow_view l (\<not> d))\<lparr>l_rcv := w\<rparr>)"
    using accept_credit_same [OF clink_invD(6) [OF inv] a] ok' cs
    by (intro link_rcv_change [OF clink_invD(2) [OF inv]]) (simp_all add: flow_view_def credited_ok_def)
  moreover have "(ratchet_view l)\<lparr>lk_sess := (lk_sess (ratchet_view l))(d := cs_ratchet cs)\<rparr> = ratchet_view l"
    using cs by (auto simp: ratchet_view_def)
  ultimately show ?thesis using clink_invD(1) [OF inv] cs by (intro clink_inv_sess [OF inv _ ok']) simp_all
qed

lemma restored_counters:
  assumes "restored s s'"
  shows "sk_ctr ` set (s_skipped s') \<subseteq> sk_ctr ` set (s_skipped s)"
proof -
  from assms obtain P where "map (\<lambda>k. (sk_ctr k, sk_mk k, sk_nonce k)) (s_skipped s')
      = map (\<lambda>k. (sk_ctr k, sk_mk k, sk_nonce k)) (filter P (s_skipped s))" unfolding restored_def by blast
  then have "map fst (map (\<lambda>k. (sk_ctr k, sk_mk k, sk_nonce k)) (s_skipped s'))
      = map fst (map (\<lambda>k. (sk_ctr k, sk_mk k, sk_nonce k)) (filter P (s_skipped s)))" by simp
  then have "map sk_ctr (s_skipped s') = map sk_ctr (filter P (s_skipped s))" by (simp add: o_def)
  then have "sk_ctr ` set (s_skipped s') = sk_ctr ` set (filter P (s_skipped s))" by (metis list.set_map)
  then show ?thesis by auto
qed

lemma restart_step_inv:
  assumes ok: "ratchet_ok R" and inv: "clink_inv R l" and s: "restored (cs_ratchet (cl_sess l d)) s"
    and w: "decode_private (ro_crypto R) (encode_private (cs_window (cl_sess l d))) = Inr w" and c: "from_authenticated s w tok = Inr cs"
  shows "clink_inv R (l\<lparr>cl_sess := (cl_sess l)(d := cs)\<rparr>)"
proof -
  let ?C = "ro_crypto R" and ?W = "cs_window (cl_sess l d)"
  note C = ratchet_okD(1) [OF ok]
  have cs: "cs = \<lparr>cs_ratchet = s, cs_window = archived ?W, cs_revision = tok\<rparr>"
    using from_authenticated_Inr(1) [OF c] w decode_encode_private [OF C clink_invD(6) [OF inv]] by simp
  have wi: "window_inv ?C (archived ?W)"
    using decode_private_Inr(1) [OF C decode_encode_private [OF C clink_invD(6) [OF inv]]] .
  have snd: "link_inv ?C ((flow_view l d)\<lparr>l_snd := cs_window cs\<rparr>)"
    by (rule link_snd_change [OF clink_invD(2) [OF inv]]) (use wi in \<open>force simp: flow_view_def cs archived_def archived_entry_def\<close>)+
  have rcv: "link_inv ?C ((flow_view l (\<not> d))\<lparr>l_rcv := cs_window cs\<rparr>)"
    by (rule link_rcv_change [OF clink_invD(2) [OF inv]]) (use wi in \<open>simp_all add: flow_view_def cs archived_def\<close>)
  have rl: "rlink_inv R ((ratchet_view l)\<lparr>lk_sess := (lk_sess (ratchet_view l))(d := cs_ratchet cs)\<rparr>)"
    by (rule rlink_step_inv [OF ok rlink_step.restore clink_invD(1) [OF inv]]) (use s in \<open>simp add: cs\<close>)
  have "credited_ok R cs"
  proof -
    have "sk_ctr ` set (s_skipped s) \<subseteq> sk_ctr ` set (s_skipped (cs_ratchet (cl_sess l d)))" by (rule restored_counters [OF s])
    moreover have "s_send_ctr s = s_send_ctr (cs_ratchet (cl_sess l d))" "s_recv_ctr s = s_recv_ctr (cs_ratchet (cl_sess l d))"
      using s by (simp_all add: restored_def)
    moreover have "session_inv R s" using rlink_inv_sides(1) [OF rl, of d] by (simp add: cs)
    ultimately show ?thesis using clink_invD(3) [OF inv, of d] wi by (fastforce simp: credited_ok_def cs archived_def)
  qed
  from clink_inv_sess [OF inv rl this snd rcv] show ?thesis .
qed

lemma kem_step_inv:
  assumes inv: "clink_inv R l" and rl: "rlink_inv R ((ratchet_view l)\<lparr>lk_sess := (lk_sess (ratchet_view l))(d := cs_ratchet cs)\<rparr>)"
    and ok: "credited_ok R cs" and w: "cs_window cs = cs_window (cl_sess l d)"
  shows "clink_inv R (l\<lparr>cl_sess := (cl_sess l)(d := cs)\<rparr>)"
proof -
  have "(flow_view l d)\<lparr>l_snd := cs_window cs\<rparr> = flow_view l d" "(flow_view l (\<not> d))\<lparr>l_rcv := cs_window cs\<rparr> = flow_view l (\<not> d)"
    using w by (simp_all add: flow_view_def)
  then show ?thesis using clink_inv_sess [OF inv rl ok] clink_invD(2) [OF inv] by simp
qed

lemma clink_step_inv:
  assumes ok: "ratchet_ok R" and inv: "clink_inv R l" and step: "clink_step R l l'"
  shows "clink_inv R l'"
  using step
proof cases
  case (send r u key ctx volatile now h d p tok cs packet q f)
  then show ?thesis using send_step_inv [OF ok inv send(2-)] by blast
next
  case (receive f key ctx now tok h d p cs)
  then show ?thesis using receive_step_inv [OF ok inv receive(2-)] by blast
next
  case (retry q tok d p cs)
  have "credited_ok R cs" using commit_retried [OF ratchet_okD(1) [OF ok] clink_invD(3) [OF inv] retry(2)] retry(3) by auto
  moreover obtain w where "credit_for_duplicate (ro_crypto R) 1 (pk_bytes q) (cs_window (cl_sess l d)) = Inr (pv_credit p, w)"
    "cs_window cs = w" "cs_ratchet cs = cs_ratchet (cl_sess l d)"
    using retry(2,3) by (auto simp: prepare_first_move_retry_def commit_receive_def)
  ultimately show ?thesis using credit_renew_inv [OF ok inv] retry(1) by blast
next
  case (credit b d p tok cs)
  then show ?thesis using credit_step_inv [OF ok inv credit(2-)] by blast
next
  case (restart d s w tok cs)
  then show ?thesis using restart_step_inv [OF ok inv restart(2-)] by blast
next
  case (peer_kem d dk tok cs)
  have cs: "provide_peer_kem R (ro_kem_pub R dk) (cs_ratchet (cl_sess l d)) = Inr (cs_ratchet cs)" "cs_window cs = cs_window (cl_sess l d)"
    using peer_kem(3) by (auto simp: credited_provide_peer_kem_def)
  have "rlink_inv R ((ratchet_view l)\<lparr>lk_sess := (lk_sess (ratchet_view l))(d := cs_ratchet cs)\<rparr>)"
    by (rule rlink_step_inv [OF ok rlink_step.peer_kem clink_invD(1) [OF inv]]) (use peer_kem(2) cs in simp_all)
  with provide_credited(2) [OF clink_invD(3) [OF inv] peer_kem(3)] cs show ?thesis
    using kem_step_inv [OF inv] peer_kem(1) by blast
next
  case (local_kem d secrets tok)
  have "rlink_inv R ((ratchet_view l)\<lparr>lk_sess := (lk_sess (ratchet_view l))(d := cs_ratchet (provide_local_secrets secrets tok (cl_sess l d)))\<rparr>)"
    using rlink_step_inv [OF ok rlink_step.local_kem clink_invD(1) [OF inv], of d "ls_kem_dk secrets"] local_kem(2,3)
    by (simp add: provide_local_secrets_def)
  with provide_credited(1) [OF clink_invD(3) [OF inv]] show ?thesis
    using kem_step_inv [OF inv] local_kem(1) by (simp add: provide_local_secrets_def)
qed

lemma clink_reach_inv:
  assumes "ratchet_ok R" and "clink_reach R l"
  shows "clink_inv R l"
  using assms(2) by (induction rule: clink_reach.induct) (auto intro: clink_start_inv clink_step_inv assms(1))

section \<open>The window keeps every gap within the retained keys\<close>

text \<open>
  The receiver retains at most 64 keys and refuses a frame that would need more. A sender stays
  within 63 counters of what was credited, which is at most what the receiver covers; so a frame
  that was sent and is not covered never meets that refusal.
\<close>

lemma sent_within_window:
  assumes inv: "clink_inv R l" and sent: "(r, f, p) \<in> set (cl_sent l (\<not> d))"
    and fresh: "unat (f_ctr f) \<notin> cov_set (w_received (cs_window (cl_sess l d)))"
  shows "unat (cov_floor (w_received (cs_window (cl_sess l d)))) < unat (f_ctr f)"
    "unat (f_ctr f) \<le> unat (cov_floor (w_received (cs_window (cl_sess l d)))) + 63"
    "cov_floor (w_credited (cs_window (cl_sess l (\<not> d)))) \<le> cov_floor (w_received (cs_window (cl_sess l d)))"
proof -
  let ?r = "w_received (cs_window (cl_sess l d))" and ?w = "cs_window (cl_sess l (\<not> d))"
  have li: "link_inv (ro_crypto R) (flow_view l (\<not> d))" by (rule clink_invD(2) [OF inv])
  have "(f_ctr f, p, r) \<in> cl_net l (\<not> d)" using sent by (force simp: cl_net_def)
  then have c: "1 \<le> unat (f_ctr f)" "unat (f_ctr f) \<le> unat (w_sent ?w)" using li by (force simp: link_inv_def net_ok_def flow_view_def)+
  have "cov_valid ?r" using clink_invD(6) [OF inv, of d] by (simp add: window_inv_def)
  then show fl: "cov_floor (w_credited ?w) \<le> cov_floor ?r"
    using li by (intro cov_subset_floor) (simp_all add: link_inv_def flow_view_def cov_valid_iff)
  have "unat (w_sent ?w) \<le> unat (cov_floor (w_credited ?w)) + 63" using clink_invD(6) [OF inv, of "\<not> d"] by (simp add: window_inv_def)
  with c fl show "unat (f_ctr f) \<le> unat (cov_floor ?r) + 63" by (simp add: word_le_nat_alt)
  show "unat (cov_floor ?r) < unat (f_ctr f)" using fresh cov_set_below [of "unat (f_ctr f)" ?r] c by force
qed

lemma length_prune: "length (s_skipped (prune_skipped now s)) \<le> length (s_skipped s)"
  by (simp add: prune_skipped_def min.coboundedI2)

lemma gap_fits:
  assumes inv: "clink_inv R l" and sent: "(r, f, p) \<in> set (cl_sent l (\<not> d))"
    and fresh: "unat (f_ctr f) \<notin> cov_set (w_received (cs_window (cl_sess l d)))"
    and ahead: "s_recv_ctr (cs_ratchet (cl_sess l d)) < f_ctr f"
  shows "length (s_skipped (prune_skipped now (cs_ratchet (cl_sess l d))))
     + (unat (f_ctr f) - 1 - unat (s_recv_ctr (cs_ratchet (cl_sess l d)))) \<le> MAX_SKIP"
proof -
  let ?s = "cs_ratchet (cl_sess l d)" and ?r = "w_received (cs_window (cl_sess l d))"
  have ok: "credited_ok R (cl_sess l d)" by (rule clink_invD(3) [OF inv])
  have "unat ` sk_ctr ` set (s_skipped ?s) \<subseteq> insert 0 {unat (cov_floor ?r) + 1..unat (s_recv_ctr ?s)}"
  proof
    fix n assume "n \<in> unat ` sk_ctr ` set (s_skipped ?s)"
    then obtain x where x: "x \<in> set (s_skipped ?s)" "n = unat (sk_ctr x)" by auto
    then have "n \<notin> cov_set ?r" "n \<le> unat (s_recv_ctr ?s)" using ok by (auto simp: credited_ok_def session_inv_def word_le_nat_alt)
    with cov_set_below [of n ?r] show "n \<in> insert 0 {unat (cov_floor ?r) + 1..unat (s_recv_ctr ?s)}" by (cases "n = 0") force+
  qed
  then have "card (unat ` sk_ctr ` set (s_skipped ?s)) \<le> card (insert 0 {unat (cov_floor ?r) + 1..unat (s_recv_ctr ?s)})"
    by (rule card_mono [rotated]) simp
  also have "\<dots> \<le> 1 + (unat (s_recv_ctr ?s) - unat (cov_floor ?r))" by (simp add: card_insert_if)
  also have "card (unat ` sk_ctr ` set (s_skipped ?s)) = length (s_skipped ?s)"
  proof -
    have "distinct (map sk_ctr (s_skipped ?s))" using ok by (simp add: credited_ok_def session_inv_def)
    then have "card (sk_ctr ` set (s_skipped ?s)) = length (s_skipped ?s)" by (metis distinct_card length_map list.set_map)
    moreover have "card (unat ` sk_ctr ` set (s_skipped ?s)) = card (sk_ctr ` set (s_skipped ?s))"
      by (rule card_image) (simp add: inj_on_def word_unat_eq_iff)
    ultimately show ?thesis by simp
  qed
  finally have "length (s_skipped ?s) \<le> 1 + (unat (s_recv_ctr ?s) - unat (cov_floor ?r))" .
  moreover have "unat (cov_floor ?r) \<le> unat (s_recv_ctr ?s)" using ok by (simp add: credited_ok_def cov_hi_def)
  moreover note sent_within_window(1,2) [OF inv sent fresh] length_prune [of now ?s]
  moreover have "unat (s_recv_ctr ?s) < unat (f_ctr f)" using ahead by (simp add: word_less_nat_alt)
  ultimately show ?thesis by (simp add: MAX_SKIP_def)
qed

section \<open>Preparing succeeds\<close>

lemma skip_keys_stored: "skip_keys R now n c chain = (ks, c', chain') \<Longrightarrow> k \<in> set ks \<Longrightarrow> sk_stored_at k = now"
proof (induction n arbitrary: c chain ks)
  case (Suc n)
  obtain nxt mk nonce where "chain_step R chain c = (nxt, mk, nonce)" by (metis prod_cases3)
  moreover obtain ks' c'' ch'' where "skip_keys R now n (c + 1) nxt = (ks', c'', ch'')" by (metis prod_cases3)
  ultimately show ?case using Suc by auto
qed simp

lemma prune_subset: "set (s_skipped (prune_skipped now s)) \<subseteq> set (s_skipped s)"
  using set_keep_last [of MAX_SKIP "filter (\<lambda>k. elapsed now (sk_stored_at k) < SKIP_KEY_TTL_NS) (s_skipped s)"]
  by (auto simp: prune_skipped_def)

lemma prune_clock [simp]: "s_pq_after (prune_skipped now s) = s_pq_after s" "s_last_pq (prune_skipped now s) = s_last_pq s"
  by (simp_all add: prune_skipped_def)

lemma receive_at_clock:
  assumes "receive_at R f now s = (s', Inr p)"
  shows "s_pq_after s' = s_pq_after s" "s_last_pq s' = s_last_pq s"
    "\<forall>k \<in> set (s_skipped s). sk_stored_at k \<le> now \<Longrightarrow> \<forall>k \<in> set (s_skipped s'). sk_stored_at k \<le> now"
proof -
  show "s_pq_after s' = s_pq_after s" "s_last_pq s' = s_last_pq s"
    using assms by (cases rule: receive_at_cases; simp)+
  assume c: "\<forall>k \<in> set (s_skipped s). sk_stored_at k \<le> now"
  from assms show "\<forall>k \<in> set (s_skipped s'). sk_stored_at k \<le> now"
  proof (cases rule: receive_at_cases)
    case (skipped payload ys k zs)
    then have "set (s_skipped s') \<subseteq> set (s_skipped (prune_skipped now s))" by auto
    with c prune_subset show ?thesis by blast
  next
    case (advanced payload nxt pp ks)
    have "sk_stored_at k = now" if "k \<in> set ks" for k
      by (rule receive_advance_InrE [OF advanced(3)]) (use that in \<open>auto dest: skip_keys_stored\<close>)
    moreover have "set (s_skipped s') \<subseteq> set (s_skipped s) \<union> set ks"
      using advanced(4) prune_subset [of now s] prune_subset by fastforce
    ultimately show ?thesis using c by fastforce
  qed simp
qed

lemma record_and_credit_return:
  assumes ok: "crypto_ok C" and inv: "window_inv C w" and p: "packet \<noteq> []" "length packet \<le> MAX_MESSAGE"
    and k: "unat k \<notin> cov_set (w_received w)" "unat (cov_floor (w_received w)) < unat k" "unat k \<le> unat (cov_floor (w_received w)) + 63"
  obtains v b v' where "record_authenticated C k packet r w = Inr v" "credit_for_duplicate C k packet v = Inr (b, v')"
    "cov_set (w_received v) = insert (unat k) (cov_set (w_received w))" "unat k \<le> cov_hi (w_received v)"
proof -
  have cv: "cov_valid (w_received w)" using inv by (simp add: window_inv_def)
  obtain c where c: "cov_accept k (w_received w) = Inr c" "cov_valid c" "cov_set c = insert (unat k) (cov_set (w_received w))"
    using cov_accept_ok [OF cv k] by blast
  obtain hi where hi: "cov_highest c = Inr hi" "unat hi = cov_hi c" using cov_highest_eq [of c] c(2) by (auto simp: cov_valid_iff)
  obtain v where v: "record_authenticated C k packet r w = Inr v"
    using p c(1) hi(1) by (simp add: record_authenticated_def reject_def Let_def)
  have vi: "window_inv C v" by (rule record_authenticated_inv [OF inv v])
  have rv: "w_received v = c" using v c(1) hi(1) by (auto simp: record_authenticated_def Let_def)
  have "cov_floor (w_received w) \<le> cov_floor c" using c cv by (intro cov_subset_floor) (auto simp: cov_valid_iff)
  have kh: "unat k \<le> cov_hi c" using cov_set_le_hi [of "unat k" c] c(3) by simp
  have "cov_hi c \<le> unat k + 62"
  proof (rule cov_hi_leI)
    fix n assume "n \<in> cov_set c"
    then consider "n = unat k" | "n \<in> cov_set (w_received w)" using c(3) by auto
    then show "n \<le> unat k + 62"
    proof cases
      case 2
      have "bit_len (cov_mask (w_received w)) \<le> 63"
        using cv bit_len_bit [of "cov_mask (w_received w)"] bit_len_le [of "cov_mask (w_received w)"]
        by (cases "bit_len (cov_mask (w_received w)) = 64") (auto simp: cov_valid_iff)
      with 2 cov_set_le_hi [of n "w_received w"] k(2) show ?thesis by (simp add: cov_hi_def)
    qed simp
  qed
  then have "unat k \<in> unat ` fst ` set (w_rx v)" using vi c(3) rv kh by (simp add: window_inv_def rx_ok_def)
  then obtain e where e: "(k, e) \<in> set (w_rx v)" by (auto simp flip: word_unat_eq_iff)
  have "bt_ok (w_rx w)" using inv by (simp add: window_inv_def rx_ok_def)
  then have "au_packet_hash (re_authority e) = cr_sha256 C packet"
    by - (rule record_authenticated_cases [OF inv v], use e in \<open>auto simp: set_bt_insert\<close>)
  with credit_for_duplicate_returns [OF ok vi e _ p(2)] obtain b v' where "credit_for_duplicate C k packet v = Inr (b, v')" by blast
  with that v rv c(3) kh show thesis by simp
qed

text \<open>The ratchet opens a sent frame that is ahead or whose key is retained.\<close>

definition openable :: "session_time \<Rightarrow> frame \<Rightarrow> 'g credited_session \<Rightarrow> bool" where
  "openable now f cs \<longleftrightarrow> s_recv_ctr (cs_ratchet cs) < f_ctr f
     \<or> f_ctr f \<in> sk_ctr ` set (s_skipped (prune_skipped now (cs_ratchet cs)))"

lemma ratchet_opens:
  assumes ok: "ratchet_ok R" and inv: "clink_inv R l" and sent: "(r, f, p) \<in> set (cl_sent l (\<not> d))"
    and fresh: "unat (f_ctr f) \<notin> cov_set (w_received (cs_window (cl_sess l d)))" and key: "openable now f (cl_sess l d)"
  obtains s where "receive_at R f now (cs_ratchet (cl_sess l d)) = (s, Inr (fr_encode r))"
proof -
  let ?v = "ratchet_view l"
  have rinv: "rlink_inv R ?v" by (rule clink_invD(1) [OF inv])
  have e: "(fr_encode r, f) \<in> set (lk_sent ?v (\<not> d))" using sent by force
  from key consider "s_recv_ctr (lk_sess ?v d) < f_ctr f"
    | x where "x \<in> set (s_skipped (prune_skipped now (lk_sess ?v d)))" "sk_ctr x = f_ctr f"
    by (auto simp: openable_def)
  then show thesis
  proof cases
    case 1
    with deliver_ahead [OF rinv e] gap_fits [OF inv sent fresh, of now] that show thesis by auto
  next
    case 2
    with deliver_retained [OF rinv e] that show thesis by auto
  qed
qed

text \<open>What the environment must supply for a session to be archived: clocks, a policy within its limits, entropy.\<close>

definition can_archive :: "('g, 'h) ratchet_ops \<Rightarrow> session_time \<Rightarrow> 'h \<Rightarrow> 'h \<Rightarrow> 'g session \<Rightarrow> bool" where
  "can_archive R now h h' s \<longleftrightarrow>
     0 \<le> s_pq_after s \<and> as_secs (s_pq_after s) \<le> 366 * 24 * 60 * 60 \<and> s_last_pq s \<le> now
     \<and> (\<forall>k \<in> set (s_skipped s). sk_stored_at k \<le> now)
     \<and> (\<exists>rng h1 nonce. std_from_rng R h = (Inr rng, h1) \<and> ro_entropy R h1 12 = (Some nonce, h'))"

lemma credited_delivery:
  assumes ok: "ratchet_ok R" and inv: "clink_inv R l" and sent: "(r, f, packet) \<in> set (cl_sent l (\<not> d))"
    and fresh: "unat (f_ctr f) \<notin> cov_set (w_received (cs_window (cl_sess l d)))" and key: "openable now f (cl_sess l d)"
    and env: "can_archive R now h h' (cs_ratchet (cl_sess l d))"
  obtains p w where "prepare_receive_at R f wkey ctx now tok h (cl_sess l d) = (Inr p, h')" "pv_record p = Some r"
    "record_authenticated (ro_crypto R) (f_ctr f) packet r (cs_window (cl_sess l d)) = Inr w"
    "credit_for_duplicate (ro_crypto R) (f_ctr f) packet w = Inr (pv_credit p, pv_window p)"
    "cov_set (w_received w) = insert (unat (f_ctr f)) (cov_set (w_received (cs_window (cl_sess l d))))"
    "unat (f_ctr f) \<le> cov_hi (w_received w)"
proof -
  let ?S = "cl_sess l d" and ?C = "ro_crypto R" and ?v = "ratchet_view l"
  note C = ratchet_okD(1) [OF ok]
  obtain s where rx: "receive_at R f now (cs_ratchet ?S) = (s, Inr (fr_encode r))" by (rule ratchet_opens [OF ok inv sent fresh key])
  have i: "fr_ok r" "gc2_encode_frame (w_session (cs_window ?S)) f = Inr packet"
    using clink_invD(4) [OF inv sent] clink_invD(5) [OF inv, of d] by simp_all
  have "rlink_step R ?v (?v\<lparr>lk_sess := (lk_sess ?v)(d := s)\<rparr>)"
    by (rule rlink_step.receive [where f = f and now = now and r = "Inr (fr_encode r)"]) (use rx sent in force)+
  from rlink_step_inv [OF ok this clink_invD(1) [OF inv]] have "archivable s"
    using rlink_archivable [of R "?v\<lparr>lk_sess := (lk_sess ?v)(d := s)\<rparr>" d] env receive_at_clock(1) [OF rx] by (simp add: can_archive_def)
  with prepare_receive_returns [OF C rx] env receive_at_clock [OF rx] obtain q where
    q: "session_prepare_receive_at R f wkey ctx now h (cs_ratchet ?S) = (Inr q, h')" "pr_output q = fr_encode r"
    unfolding can_archive_def by metis
  have pk: "packet \<noteq> []" "length packet \<le> MAX_MESSAGE"
    using packet_decode_frame [OF i(2)] by (auto simp: packet_decode_def record_consts split: if_splits)
  obtain w b w' where w: "record_authenticated ?C (f_ctr f) packet r (cs_window ?S) = Inr w"
    "credit_for_duplicate ?C (f_ctr f) packet w = Inr (b, w')"
    "cov_set (w_received w) = insert (unat (f_ctr f)) (cov_set (w_received (cs_window ?S)))" "unat (f_ctr f) \<le> cov_hi (w_received w)"
    by (rule record_and_credit_return [OF C clink_invD(6) [OF inv] pk fresh sent_within_window(1,2) [OF inv sent fresh], of r])
  have nc: "\<not> cov_contains (w_received (cs_window ?S)) (f_ctr f)"
    using fresh cov_contains_iff [of "w_received (cs_window ?S)" "f_ctr f"] clink_invD(6) [OF inv, of d]
      sent_within_window(1) [OF inv sent fresh] by (auto simp: window_inv_def cov_valid_iff)
  have v: "validate_frame f = Inr ()" using i(2) by (simp add: gc2_encode_frame_iff)
  let ?p = "\<lparr>pv_revision = cs_revision ?S, pv_next_revision = tok, pv_ratchet = Some q, pv_record = Some r, pv_window = w', pv_credit = b\<rparr>"
  have "prepare_receive_at R f wkey ctx now tok h ?S = (Inr ?p, h')"
    using v i(2) nc q w(1,2) fr_decode_encode [OF i(1)] by (simp add: prepare_receive_at_def prepare_fresh_def)
  then show thesis by (rule that) (use w in simp_all)
qed

section \<open>Sending succeeds\<close>

lemma begin_epoch_state:
  assumes kem: "kem_ok R" and e: "begin_epoch R now ctr peer s = (s1, Inr chain)"
  shows "s_send_rotated_at s1 = ctr" "s_send_ctr s1 = s_send_ctr s" "s_pq_after s1 = s_pq_after s" "s_last_pq s1 \<in> {s_last_pq s, now}"
    "\<forall>ct. s_epoch_pq_ct s1 = Some ct \<longrightarrow> length ct = KEM_CT_LEN"
proof -
  have "length (fst (ro_encaps R k m)) = KEM_CT_LEN" for k m by (rule kem_okD(3) [OF kem])
  then have ct: "length ct = KEM_CT_LEN" if "encaps_deterministic R ek g = ((ct, ss), g')" for ek g ct ss g'
    using that by (auto simp: encaps_deterministic_def encaps_from_message_def split: prod.splits) (metis fst_conv)
  show "s_send_rotated_at s1 = ctr" "s_send_ctr s1 = s_send_ctr s" "s_pq_after s1 = s_pq_after s" "s_last_pq s1 \<in> {s_last_pq s, now}"
    "\<forall>ct. s_epoch_pq_ct s1 = Some ct \<longrightarrow> length ct = KEM_CT_LEN"
    using e ct by (auto simp: begin_epoch_def Let_def rotate_self_key_def split: prod.splits option.splits if_splits)
qed

lemma send_at_state:
  assumes ok: "ratchet_ok R" and tx: "send_at R payload now s = (s', Inr f)" and rot: "s_send_rotated_at s \<le> s_send_ctr s"
    and pq: "\<forall>ct. s_epoch_pq_ct s = Some ct \<longrightarrow> length ct = KEM_CT_LEN" and lt: "s_send_ctr s < - 1" and len: "length payload < 65536"
  shows "f_ctr f = s_send_ctr s + 1" "f_pn f < f_ctr f" "\<forall>ct. f_pq_ct f = Some ct \<longrightarrow> length ct = KEM_CT_LEN"
    "length (f_ct f) = length payload + 16" "\<forall>ct. s_epoch_pq_ct s' = Some ct \<longrightarrow> length ct = KEM_CT_LEN"
    "s_send_rotated_at s' \<le> s_send_ctr s'" "s_pq_after s' = s_pq_after s" "s_last_pq s' \<in> {s_last_pq s, now}"
proof -
  let ?rot = "case s_peer_pub s of Some peer \<Rightarrow> Some peer \<noteq> s_mixed_peer s | None \<Rightarrow> False"
  obtain s1 chain where e: "(if ?rot then begin_epoch R now (s_send_ctr s + 1) (the (s_peer_pub s)) s else (s, Inr (s_send_chain s))) = (s1, Inr chain)"
    using tx by (cases "if ?rot then begin_epoch R now (s_send_ctr s + 1) (the (s_peer_pub s)) s else (s, Inr (s_send_chain s))")
      (auto simp: send_at_def Let_def split: sum.splits)
  have up: "s_send_ctr s < s_send_ctr s + 1" using lt unat_plus_u64 [of "s_send_ctr s" 1]
    by (simp add: word_less_nat_alt unsigned_minus_1_eq_mask mask_eq_exp_minus_1)
  have s1: "s_send_ctr s1 = s_send_ctr s" "s_pq_after s1 = s_pq_after s" "s_last_pq s1 \<in> {s_last_pq s, now}"
    "\<forall>ct. s_epoch_pq_ct s1 = Some ct \<longrightarrow> length ct = KEM_CT_LEN" "s_send_rotated_at s1 \<le> s_send_ctr s + 1"
    using e begin_epoch_state [OF ratchet_okD(4) [OF ok]] pq rot up by (auto split: if_splits)
  obtain nx mk nonce where st: "chain_step R chain (s_send_ctr s + 1) = (nx, mk, nonce)" by (metis prod_cases3)
  let ?f = "\<lparr>f_ctr = s_send_ctr s + 1, f_pn = saturating_sub (s_send_rotated_at s1) 1, f_sender_pub = my_pub R s1,
     f_mixed_with = s_mixed_peer s1, f_pq_ct = s_epoch_pq_ct s1, f_ct = []\<rparr>"
  from tx e st obtain hdr ct where ct: "header_bytes ?f = Inr hdr" "seal R mk nonce payload hdr = Some ct" "f = ?f\<lparr>f_ct := ct\<rparr>"
    "s' = s1\<lparr>s_send_chain := nx, s_send_ctr := s_send_ctr s + 1, s_sent_since_pq := saturating_add (s_sent_since_pq s1) 1\<rparr>"
    by (auto simp: send_at_def Let_def split: sum.splits)
  have "unat (saturating_sub (s_send_rotated_at s1) 1) < unat (s_send_ctr s + 1)"
    using s1(5) up by (simp add: unat_saturating_sub word_le_nat_alt word_less_nat_alt)
  moreover have "length ct = length payload + 16" using ct(2) seal_length [OF ratchet_okD(2) [OF ok]] len unfolding seal_def by metis
  ultimately show "f_ctr f = s_send_ctr s + 1" "f_pn f < f_ctr f" "\<forall>ct. f_pq_ct f = Some ct \<longrightarrow> length ct = KEM_CT_LEN"
    "length (f_ct f) = length payload + 16" "\<forall>ct. s_epoch_pq_ct s' = Some ct \<longrightarrow> length ct = KEM_CT_LEN"
    "s_send_rotated_at s' \<le> s_send_ctr s'" "s_pq_after s' = s_pq_after s" "s_last_pq s' \<in> {s_last_pq s, now}"
    using s1 by (simp_all add: ct(3,4) word_less_nat_alt)
qed

lemma sent_frame_valid:
  assumes "f_ctr f \<noteq> 0" "f_pn f < f_ctr f" "\<forall>ct. f_pq_ct f = Some ct \<longrightarrow> length ct = KEM_CT_LEN"
    and "length (f_ct f) = length (fr_encode r) + 16" and "fr_ok r"
  shows "validate_frame f = Inr ()"
  using assms length_fr_encode [OF assms(5)]
  by (auto simp: validate_frame_def reject_def Let_def MAX_MESSAGE_def record_consts not_le split: option.splits)

lemma ratchet_sends:
  assumes ok: "ratchet_ok R" and inv: "clink_inv R l" and r: "fr_ok r" and lt: "s_send_ctr (cs_ratchet (cl_sess l d)) < - 1"
    and env: "can_archive R now h h' (cs_ratchet (cl_sess l d))"
  obtains rng h1 s f ct where "std_from_rng R h = (Inr rng, h1)"
    "send_at R (fr_encode r) now ((cs_ratchet (cl_sess l d))\<lparr>s_rng := rng\<rparr>) = (s, Inr f)"
    "seal_state_with_attachment_at R wkey ctx [] now h1 s = (Inr ct, h')" "validate_frame f = Inr ()"
    "f_ctr f = s_send_ctr (cs_ratchet (cl_sess l d)) + 1"
proof -
  let ?S = "cl_sess l d"
  note C = ratchet_okD(1) [OF ok]
  obtain rng h1 nonce where e: "std_from_rng R h = (Inr rng, h1)" "ro_entropy R h1 12 = (Some nonce, h')" using env by (auto simp: can_archive_def)
  let ?v = "(ratchet_view l)\<lparr>lk_sess := (lk_sess (ratchet_view l))(d := (cs_ratchet ?S)\<lparr>s_rng := rng\<rparr>)\<rparr>"
  have v: "rlink_inv R ?v" using rlink_inv_rng [OF ok clink_invD(1) [OF inv], of d rng] by simp
  have pl: "length (fr_encode r) < 65536" using length_fr_encode [OF r] by simp
  obtain s f where tx: "send_at R (fr_encode r) now ((cs_ratchet ?S)\<lparr>s_rng := rng\<rparr>) = (s, Inr f)"
    using send_returns [OF ok v, of d "fr_encode r" now] lt pl by auto
  have arch: "archivable ((cs_ratchet ?S)\<lparr>s_rng := rng\<rparr>)" using rlink_archivable [OF v, of d] env by (simp add: can_archive_def)
  have pre: "s_send_rotated_at ((cs_ratchet ?S)\<lparr>s_rng := rng\<rparr>) \<le> s_send_ctr ((cs_ratchet ?S)\<lparr>s_rng := rng\<rparr>)"
    "\<forall>ct. s_epoch_pq_ct ((cs_ratchet ?S)\<lparr>s_rng := rng\<rparr>) = Some ct \<longrightarrow> length ct = KEM_CT_LEN"
    "s_send_ctr ((cs_ratchet ?S)\<lparr>s_rng := rng\<rparr>) < - 1"
    using arch lt by (simp_all add: archivable_def)
  note st = send_at_state [OF ok tx pre pl]
  have fk: "f_ctr f = s_send_ctr (cs_ratchet ?S) + 1" using st(1) by simp
  have sk: "s_skipped s = s_skipped (cs_ratchet ?S)" using send_at_recv(1) [OF tx] by (simp add: same_recv_def)
  have policy: "s_pq_after s = s_pq_after (cs_ratchet ?S)" using st(7) by simp
  have "session_inv R s" using send_at_inv [OF _ tx] clink_invD(3) [OF inv, of d] by (simp add: credited_ok_def)
  then have as: "archivable s" using st(5,6) policy env by (auto simp: archivable_def session_inv_def can_archive_def ek_from_bytes_def word_gt_0 split: if_splits)
  obtain ct where seal: "seal_state_with_attachment_at R wkey ctx [] now h1 s = (Inr ct, h')"
    by (rule seal_state_returns [OF C as _ _ _ e(2), of "[]" now wkey ctx])
       (use st(8) sk env in \<open>auto simp: can_archive_def MAX_STATE_ATTACHMENT_def\<close>)
  have vf: "validate_frame f = Inr ()" by (rule sent_frame_valid [OF _ st(2-4) r]) (use st(2) in \<open>auto simp: word_less_nat_alt\<close>)
  show thesis by (rule that [OF e(1) tx seal vf fk])
qed

text \<open>The receipt reference that a packet would get is that of a packet still retained.\<close>

definition reference_used :: "crypto_ops \<Rightarrow> window \<Rightarrow> bytes \<Rightarrow> flow_record \<Rightarrow> bool" where
  "reference_used C w packet r \<longleftrightarrow>
     au_reference (authority_new C (w_session w) (cr_sha256 C packet) (fr_secret r)) \<in> (au_reference \<circ> se_authority \<circ> snd) ` set (w_tx w)"

lemma record_sent_next:
  assumes "next_counter w (fr_purpose r) = Inr k" and "packet \<noteq> []" "length packet \<le> MAX_MESSAGE" and "u \<noteq> 0"
  shows "record_sent C k packet r u w = Inl FState \<or> (\<exists>w'. record_sent C k packet r u w = Inr w')"
    and "record_sent C k packet r u w = Inl FState \<longleftrightarrow> reference_used C w packet r"
proof -
  have "(\<exists>(_, e) \<in> set (w_tx w). au_reference (se_authority e)
      = au_reference (authority_new C (w_session w) (cr_sha256 C packet) (fr_secret r))) \<longleftrightarrow> reference_used C w packet r"
    unfolding reference_used_def image_iff comp_def case_prod_unfold by (metis (no_types, lifting))
  with assms have "record_sent C k packet r u w = Inl FState \<and> reference_used C w packet r
    \<or> (\<exists>w'. record_sent C k packet r u w = Inr w') \<and> \<not> reference_used C w packet r"
    by (simp add: record_sent_def reject_def Let_def)
  then show "record_sent C k packet r u w = Inl FState \<or> (\<exists>w'. record_sent C k packet r u w = Inr w')"
    "record_sent C k packet r u w = Inl FState \<longleftrightarrow> reference_used C w packet r" by auto
qed

text \<open>The prepared frame of a side whose window has room, and what becomes of it.\<close>

lemma credited_send:
  assumes ok: "ratchet_ok R" and inv: "clink_inv R l" and r: "fr_ok r" and room: "next_counter (cs_window (cl_sess l d)) (fr_purpose r) = Inr k"
    and rec: "\<not> recovery_required (cs_window (cl_sess l d)) u" and u: "u \<noteq> 0" and vol: "volatile \<longrightarrow> fr_purpose r \<noteq> PControl"
    and env: "can_archive R now h h' (cs_ratchet (cl_sess l d))"
  obtains prepared packet q f where
    "prepare_send_with_attachment_at R (fr_encode r) wkey ctx [] now h (cs_ratchet (cl_sess l d)) = (Inr prepared, h')"
    "encode_frame_bytes (w_session (cs_window (cl_sess l d))) (pr_output prepared) = Inr packet" "length packet \<le> MAX_MESSAGE"
    "packet_decode packet = Inr q" "packet_frame q = Inr f" "f_ctr f = k"
    "reference_used (ro_crypto R) (cs_window (cl_sess l d)) packet r \<Longrightarrow>
       (if volatile then prepare_volatile_send_at R r u wkey ctx now h (cl_sess l d) else prepare_send_at R r u wkey ctx now h (cl_sess l d))
         = (Inl (SFlow FState), h')"
    "\<not> reference_used (ro_crypto R) (cs_window (cl_sess l d)) packet r \<Longrightarrow> \<exists>p.
       (if volatile then prepare_volatile_send_at R r u wkey ctx now h (cl_sess l d) else prepare_send_at R r u wkey ctx now h (cl_sess l d))
         = (Inr p, h') \<and> ps_ratchet p = prepared"
proof -
  let ?S = "cl_sess l d" and ?W = "cs_window (cl_sess l d)" and ?C = "ro_crypto R"
  have k: "unat k = unat (w_sent ?W) + 1" "k = w_sent ?W + 1" using room by (auto simp: next_counter_def checked_add_Some unat_plus_u64)
  have sc: "s_send_ctr (cs_ratchet ?S) = w_sent ?W" using clink_invD(3) [OF inv, of d] by (simp add: credited_ok_def)
  have lt: "s_send_ctr (cs_ratchet ?S) < - 1" using k(1) sc unat_less_2_64 [of k]
    by (simp add: word_less_nat_alt unsigned_minus_1_eq_mask mask_eq_exp_minus_1)
  obtain rng h1 s f ct where e: "std_from_rng R h = (Inr rng, h1)"
    and tx: "send_at R (fr_encode r) now ((cs_ratchet ?S)\<lparr>s_rng := rng\<rparr>) = (s, Inr f)"
    and seal: "seal_state_with_attachment_at R wkey ctx [] now h1 s = (Inr ct, h')" and vf: "validate_frame f = Inr ()"
    and fc: "f_ctr f = s_send_ctr (cs_ratchet ?S) + 1"
    by (rule ratchet_sends [OF ok inv r lt env])
  obtain wire where wire: "frame_encode f = Inr wire" using frame_encode_valid [OF vf] by simp
  have "w_session ?W \<noteq> arr_fill 0" using clink_invD(6) [OF inv, of d] by (simp add: window_inv_def)
  then obtain packet where pk: "gc2_encode_frame (w_session ?W) f = Inr packet" using vf wire by (auto simp: gc2_encode_frame_iff)
  then have pk': "encode_frame_bytes (w_session ?W) wire = Inr packet" using encode_frame_bytes_eq [OF vf wire] by simp
  obtain q where q: "packet_decode packet = Inr q" "packet_frame q = Inr f" using packet_decode_frame [OF pk] by blast
  have pkl: "packet \<noteq> []" "length packet \<le> MAX_MESSAGE" using q(1) by (auto simp: packet_decode_def record_consts split: if_splits)
  let ?pr = "\<lparr>pr_base_send_ctr = s_send_ctr (cs_ratchet ?S), pr_base_recv_ctr = s_recv_ctr (cs_ratchet ?S), pr_output = wire, pr_sealed = ct, pr_next = Some s\<rparr>"
  let ?prepare = "if volatile then prepare_volatile_send_at R r u wkey ctx now h ?S else prepare_send_at R r u wkey ctx now h ?S"
  have prep: "prepare_send_with_attachment_at R (fr_encode r) wkey ctx [] now h (cs_ratchet ?S) = (Inr ?pr, h')"
    using e tx wire seal by (simp add: prepare_send_with_attachment_at_def clone_with_fresh_entropy_def)
  have "?prepare = prepare_send_inner R r u wkey ctx volatile now h ?S"
    using vol by (cases volatile) (simp_all add: prepare_volatile_send_at_def prepare_send_at_def)
  also have "\<dots> = (rbind (flow (record_sent ?C k packet r u ?W)) (\<lambda>w. Inr \<lparr>ps_revision = cs_revision ?S, ps_ratchet = ?pr,
      ps_window = set_volatile k volatile w\<rparr>), h')"
    using rec room pk' by (simp add: prepare_send_inner_def prep)
  finally have run: "?prepare = \<dots>" .
  note sent = record_sent_next [OF room pkl u, of ?C]
  show thesis
    by (rule that [OF prep _ pkl(2) q]) (use pk' fc k(2) sc run sent in auto)
qed

section \<open>A demonstration link\<close>

lemma send_at_rotated:
  assumes "send_at R payload now s = (s', Inr f)"
  shows "s_mixed_peer s' = s_mixed_peer s \<or> my_pub R s' = ro_xpub R (fst (rand32 R (s_rng s)))"
  using assms
  by (auto simp: send_at_def Let_def begin_epoch_def rotate_self_key_def my_pub_def split: prod.splits sum.splits option.splits if_splits)

lemma prepared_send_rng:
  assumes "prepare_send_at R r u key ctx now h cs = (Inr p, h')" and "std_from_rng R h = (Inr rng, h1)" and "commit_send p tok cs = Inr cs'"
  obtains f where "send_at R (fr_encode r) now ((cs_ratchet cs)\<lparr>s_rng := rng\<rparr>) = (cs_ratchet cs', Inr f)"
proof -
  from assms(1) obtain q h2 where q: "prepare_send_with_attachment_at R (fr_encode r) key ctx [] now h (cs_ratchet cs) = (Inr q, h2)" "ps_ratchet p = q"
    by (auto simp: prepare_send_at_def prepare_send_inner_def split: if_splits sum.splits prod.splits)
  from q(1) assms(2) obtain s f where "send_at R (fr_encode r) now ((cs_ratchet cs)\<lparr>s_rng := rng\<rparr>) = (s, Inr f)" "pr_next q = Some s"
    by (auto simp: prepare_send_with_attachment_at_def clone_with_fresh_entropy_def split: prod.splits sum.splits)
  with that assms(3) q(2) show thesis by (auto simp: commit_send_def session_commit_send_def)
qed

lemma demo_joined:
  obtains a b packet r credit where "peers_joined toy_ratchet a b packet r credit"
proof -
  have kem: "b_kem_pub (fst (demo_peer 5)) = ro_kem_pub toy_ratchet (ls_kem_dk (snd (demo_peer 5)))"
    using demo_card_ok(2) [of 100 5] by (simp add: check_secrets_Inr public_material_def)
  obtain ini where "initiate_generation toy_ratchet (arr_fill 1) (demo_card 1) (snd (demo_peer 1)) (demo_card 5) 3 100 0 7 0 = (Inr ini, 3)"
    using initiate_generation_returns [OF toy_ratchet_ok demo_identities demo_card_ok demo_card_ok(1) kem _ _ demo_entropy(1-4),
        where mon = 0 and tok = 7 and g = 3 and now = 100] by auto
  then show thesis
    by (rule accept_initiated_packet [OF toy_ratchet_ok _ demo_card_ok(1) demo_card_ok(1) demo_card_ok(2) demo_entropy(5),
          where now' = 200 and mon' = 0 and tok' = 8]) (auto intro: that)
qed

lemma toy_can_archive:
  assumes "s_pq_after s = DEFAULT_PQ_AFTER" "s_skipped s = []"
  shows "can_archive toy_ratchet (s_last_pq s) h (Suc (Suc h)) s"
  using assms by (simp add: can_archive_def DEFAULT_PQ_AFTER_def from_secs_def as_secs_def std_from_rng_def toy_ratchet_def)

lemma demo_clink:
  obtains l where "clink_reach toy_ratchet l" "w_tx (cs_window (cl_sess l False)) = []" "w_sent (cs_window (cl_sess l False)) = 0"
    "w_received (cs_window (cl_sess l True)) = cov_default" "s_recv_ctr (cs_ratchet (cl_sess l True)) = 0" "cl_sent l False = []"
    "\<forall>d h. can_archive toy_ratchet (s_last_pq (cs_ratchet (cl_sess l d))) h (Suc (Suc h)) (cs_ratchet (cl_sess l d))"
proof -
  obtain a b packet r credit where j: "peers_joined toy_ratchet a b packet r credit" by (rule demo_joined)
  let ?l = "\<lparr>cl_sess = (\<lambda>d. if d then a else b), cl_sent = (\<lambda>_. []), cl_first = (packet, r), cl_credits = (\<lambda>d. if d then {credit} else {})\<rparr>"
  have "clink_start toy_ratchet ?l" unfolding clink_start_def using j by blast
  then have reach: "clink_reach toy_ratchet ?l" by (rule clink_reach.start)
  have "window_inv toy_crypto (cs_window b)"
    using clink_invD(6) [OF clink_reach_inv [OF toy_ratchet_ok reach], of False] by (simp add: toy_ratchet_def)
  with empty_tx j have "w_tx (cs_window b) = []" by (simp add: peers_joined_def)
  then show thesis using j by (intro that [OF reach]) (simp_all add: peers_joined_def toy_can_archive)
qed

lemma demo_can_send:
  assumes "w_tx w = []" "w_sent w = 0" "window_inv C w"
  shows "next_counter w (fr_purpose demo_record) = Inr 1" "\<not> recovery_required w 1" "fr_ok demo_record"
proof -
  have "cov_hi (w_credited w) = 0" using assms by (simp add: window_inv_def)
  then have "cov_floor (w_credited w) = 0" by (simp add: cov_hi_def unsigned_eq_0_iff)
  then show "next_counter w (fr_purpose demo_record) = Inr 1" using assms(2)
    by (simp add: next_counter_def checked_add_def demo_record_def reject_def)
  show "\<not> recovery_required w 1" "fr_ok demo_record"
    using assms(1) by (simp_all add: recovery_required_def repair_expired_def oldest_uncredited_unix_def fr_ok_def demo_record_def)
qed

lemma arr_pad_replicate: "arr_pad (replicate 32 b) = (arr_fill b :: 32 arr)"
  by (rule list_of_inject [THEN iffD1]) (simp add: list_of_arr_fill)

lemma demo_sent:
  obtains l f packet where "clink_reach toy_ratchet l" "(demo_record, f, packet) \<in> set (cl_sent l False)"
    "w_received (cs_window (cl_sess l True)) = cov_default" "s_recv_ctr (cs_ratchet (cl_sess l True)) = 0" "f_ctr f = 1"
    "\<forall>h. can_archive toy_ratchet (s_last_pq (cs_ratchet (cl_sess l True))) h (Suc (Suc h)) (cs_ratchet (cl_sess l True))"
proof -
  obtain l where l: "clink_reach toy_ratchet l" "w_tx (cs_window (cl_sess l False)) = []" "w_sent (cs_window (cl_sess l False)) = 0"
    "w_received (cs_window (cl_sess l True)) = cov_default" "s_recv_ctr (cs_ratchet (cl_sess l True)) = 0" "cl_sent l False = []"
    "\<forall>d h. can_archive toy_ratchet (s_last_pq (cs_ratchet (cl_sess l d))) h (Suc (Suc h)) (cs_ratchet (cl_sess l d))" by (rule demo_clink)
  have inv: "clink_inv toy_ratchet l" by (rule clink_reach_inv [OF toy_ratchet_ok l(1)])
  note c = demo_can_send [OF l(2,3) clink_invD(6) [OF inv]]
  let ?b = "cs_ratchet (cl_sess l False)"
  obtain h where h: "h \<in> {0, 1}" "my_pub toy_ratchet ?b \<noteq> arr_fill (of_nat h + 2)"
    by (cases "my_pub toy_ratchet ?b = arr_fill 2") (auto intro: that [of 0] that [of 1])
  have rng: "std_from_rng toy_ratchet h = (Inr (Suc h), Suc h)" using h(1) by (auto simp: std_from_rng_def toy_ratchet_def)
  have key: "ro_xpub toy_ratchet (fst (rand32 toy_ratchet (Suc h))) = arr_fill (of_nat h + 2)"
    by (simp add: rand32_def toy_ratchet_def arr_pad_replicate add.commute)
  obtain p packet q f where p: "prepare_send_at toy_ratchet demo_record 1 (arr_fill 7) demo_context (s_last_pq ?b) h (cl_sess l False) = (Inr p, Suc (Suc h))"
    and pk: "encode_frame_bytes (w_session (cs_window (cl_sess l False))) (pr_output (ps_ratchet p)) = Inr packet"
      "packet_decode packet = Inr q" "packet_frame q = Inr f" "f_ctr f = 1"
    by (rule credited_send [OF toy_ratchet_ok inv c(3,1,2), of False "s_last_pq ?b" h "Suc (Suc h)" "arr_fill 7" demo_context])
       (use l in \<open>auto simp: reference_used_def\<close>)
  have cp: "can_prepare_send toy_ratchet demo_record 1 (arr_fill 7) demo_context False (s_last_pq ?b) h (cl_sess l False) p"
    using p by (auto simp: can_prepare_send_def)
  obtain cs where cs: "commit_send p 9 (cl_sess l False) = Inr cs" using commit_sent [OF clink_invD(3) [OF inv] cp] by blast
  obtain f' where "send_at toy_ratchet (fr_encode demo_record) (s_last_pq ?b) (?b\<lparr>s_rng := Suc h\<rparr>) = (cs_ratchet cs, Inr f')"
    by (rule prepared_send_rng [OF p rng cs])
  from send_at_rotated [OF this] h(2) key have rot: "s_mixed_peer (cs_ratchet cs) \<noteq> s_mixed_peer ?b \<longrightarrow> my_pub toy_ratchet (cs_ratchet cs) \<noteq> my_pub toy_ratchet ?b"
    by auto
  let ?l = "l\<lparr>cl_sess := (cl_sess l)(False := cs), cl_sent := (cl_sent l)(False := cl_sent l False @ [(demo_record, f, packet)])\<rparr>"
  have "cl_net l False = {}" using l(6) by (simp add: cl_net_def)
  then have "clink_step toy_ratchet l ?l" by (intro clink_step.send [OF cp cs c(3) pk(1-3) _ rot]) simp
  then have "clink_reach toy_ratchet ?l" by (rule clink_reach.step [OF l(1)])
  then show thesis by (rule that) (use l pk(4) in simp_all)
qed

section \<open>Properties\<close>

text \<open>
  C1 (liveness): end-to-end delivery of credited sessions. From any peer handshake, after any
  sends, receives, credits, restarts and key exchanges of both sides and whatever the network lost,
  repeated or reordered: every frame the peer sent whose counter is not covered yet, and which is
  ahead of the receiver or whose key is still retained, is received. The bound on retained keys is
  never what refuses it; clock, refresh policy and entropy must let the session be archived. The prepared receive carries exactly the record that was sent, it commits,
  the counter becomes covered, and the credit it returns is accepted by the sender, which then
  counts as credited exactly what the receiver has.
\<close>

theorem credited_delivers:
  assumes "ratchet_ok R" and "clink_reach R l" and "(r, f, packet) \<in> set (cl_sent l (\<not> d))"
    and "unat (f_ctr f) \<notin> cov_set (w_received (cs_window (cl_sess l d)))" and "openable now f (cl_sess l d)"
    and "can_archive R now h h' (cs_ratchet (cl_sess l d))"
  shows "\<exists>p cs. prepare_receive_at R f wkey ctx now tok h (cl_sess l d) = (Inr p, h') \<and> pv_record p = Some r
     \<and> commit_receive p (cl_sess l d) = Inr cs
     \<and> cov_set (w_received (cs_window cs)) = insert (unat (f_ctr f)) (cov_set (w_received (cs_window (cl_sess l d))))
     \<and> (\<exists>changed w. accept_credit (ro_crypto R) (list_of (pv_credit p)) (cs_window (cl_sess l (\<not> d))) = Inr (changed, w)
          \<and> cov_set (w_credited w) = cov_set (w_received (cs_window cs)))"
proof -
  let ?C = "ro_crypto R" and ?v = "flow_view l (\<not> d)"
  note C = ratchet_okD(1) [OF assms(1)]
  have inv: "clink_inv R l" by (rule clink_reach_inv [OF assms(1,2)])
  obtain p w where p: "prepare_receive_at R f wkey ctx now tok h (cl_sess l d) = (Inr p, h')" "pv_record p = Some r"
    and w: "record_authenticated ?C (f_ctr f) packet r (cs_window (cl_sess l d)) = Inr w"
    "credit_for_duplicate ?C (f_ctr f) packet w = Inr (pv_credit p, pv_window p)"
    "cov_set (w_received w) = insert (unat (f_ctr f)) (cov_set (w_received (cs_window (cl_sess l d))))" "unat (f_ctr f) \<le> cov_hi (w_received w)"
    by (rule credited_delivery [OF assms(1) inv assms(3-6)])
  have "can_prepare_receive R f wkey ctx now tok h (cl_sess l d) p" using p(1) by (auto simp: can_prepare_receive_def)
  from commit_received [OF C clink_invD(3) [OF inv] this] p(2) obtain cs where cs: "commit_receive p (cl_sess l d) = Inr cs"
    "cov_set (w_received (cs_window cs)) = insert (unat (f_ctr f)) (cov_set (w_received (cs_window (cl_sess l d))))" by auto
  have "(f_ctr f, packet, r) \<in> l_net ?v" using assms(3) by (force simp: flow_view_def cl_net_def)
  with receive_inv [OF clink_invD(2) [OF inv]] w(1) have li: "link_inv ?C (?v\<lparr>l_rcv := w\<rparr>)" by (simp add: flow_view_def)
  have "unat (cov_floor (w_credited (cs_window (cl_sess l (\<not> d))))) < cov_hi (w_received w)"
    using sent_within_window [OF inv assms(3,4)] w(4) by (simp add: word_le_nat_alt)
  with credit_sync_step [OF C li, of "f_ctr f" packet "pv_credit p" "pv_window p"] w(2)
  have "\<exists>changed s. accept_credit ?C (list_of (pv_credit p)) (cs_window (cl_sess l (\<not> d))) = Inr (changed, s)
     \<and> cov_set (w_credited s) = cov_set (w_received w)" by (simp add: flow_view_def)
  with p cs w(3) show ?thesis by auto
qed

theorem credited_delivers_witness:
  "\<exists>l f now p cs. clink_reach toy_ratchet l \<and> f \<in> sent_frames l False
     \<and> prepare_receive_at toy_ratchet f (arr_fill 7) demo_context now 9 0 (cl_sess l True) = (Inr p, 2)
     \<and> pv_record p = Some demo_record \<and> commit_receive p (cl_sess l True) = Inr cs
     \<and> cov_set (w_received (cs_window cs)) = {1}"
proof -
  obtain l f packet where l: "clink_reach toy_ratchet l" "(demo_record, f, packet) \<in> set (cl_sent l False)"
    "w_received (cs_window (cl_sess l True)) = cov_default" "s_recv_ctr (cs_ratchet (cl_sess l True)) = 0" "f_ctr f = 1"
    "\<forall>h. can_archive toy_ratchet (s_last_pq (cs_ratchet (cl_sess l True))) h (Suc (Suc h)) (cs_ratchet (cl_sess l True))"
    by (rule demo_sent) blast
  let ?now = "s_last_pq (cs_ratchet (cl_sess l True))"
  have "openable ?now f (cl_sess l True)" "unat (f_ctr f) \<notin> cov_set (w_received (cs_window (cl_sess l True)))"
    using l by (simp_all add: openable_def)
  from credited_delivers [OF toy_ratchet_ok l(1) _ this(2,1) l(6) [rule_format, of 0], of demo_record packet "arr_fill 7" demo_context 9] l(2,3,5)
  obtain p cs where "prepare_receive_at toy_ratchet f (arr_fill 7) demo_context ?now 9 0 (cl_sess l True) = (Inr p, 2)"
    "pv_record p = Some demo_record" "commit_receive p (cl_sess l True) = Inr cs" "cov_set (w_received (cs_window cs)) = {1}"
    by (auto simp: numeral_2_eq_2)
  moreover have "f \<in> sent_frames l False" using l(2) by (force simp: sent_frames_def)
  ultimately show ?thesis using l(1) by blast
qed

text \<open>
  C9 (liveness): a side whose credit window has room can send. In every reachable state, take a record
  of any allowed size that fits the window (not a control record if it is sent as volatile), with no
  repair overdue, a non-zero clock, and clock, refresh policy and entropy with which the session can
  be archived. It is encrypted into a packet within the message limit that decodes to a frame with
  the next counter; so the limit on record bodies is small enough for every header the ratchet can
  produce. Only a clash refuses it: if the receipt reference of this packet is that of a packet
  still retained, the preparation reports a flow error; otherwise the send is prepared with that
  frame, and it commits with the next counter.
\<close>

theorem credited_sends:
  assumes "ratchet_ok R" and "clink_reach R l" and "fr_ok r" and "next_counter (cs_window (cl_sess l d)) (fr_purpose r) = Inr k"
    and "\<not> recovery_required (cs_window (cl_sess l d)) u" and "u \<noteq> 0" and "volatile \<longrightarrow> fr_purpose r \<noteq> PControl"
    and "can_archive R now h h' (cs_ratchet (cl_sess l d))"
  shows "\<exists>prepared packet q f.
     prepare_send_with_attachment_at R (fr_encode r) wkey ctx [] now h (cs_ratchet (cl_sess l d)) = (Inr prepared, h')
     \<and> encode_frame_bytes (w_session (cs_window (cl_sess l d))) (pr_output prepared) = Inr packet
     \<and> length packet \<le> MAX_MESSAGE \<and> packet_decode packet = Inr q \<and> packet_frame q = Inr f \<and> f_ctr f = k
     \<and> (let prepare = if volatile then prepare_volatile_send_at R r u wkey ctx now h (cl_sess l d)
                     else prepare_send_at R r u wkey ctx now h (cl_sess l d)
        in if reference_used (ro_crypto R) (cs_window (cl_sess l d)) packet r
           then prepare = (Inl (SFlow FState), h')
           else \<exists>p cs. prepare = (Inr p, h') \<and> ps_ratchet p = prepared
                  \<and> commit_send p tok (cl_sess l d) = Inr cs \<and> w_sent (cs_window cs) = k)"
proof -
  have inv: "clink_inv R l" by (rule clink_reach_inv [OF assms(1,2)])
  define prepare where "prepare = (if volatile then prepare_volatile_send_at R r u wkey ctx now h (cl_sess l d)
    else prepare_send_at R r u wkey ctx now h (cl_sess l d))"
  have k: "w_sent (cs_window (cl_sess l d)) + 1 = k" using assms(4) by (auto simp: next_counter_def checked_add_Some)
  have commit: "\<exists>cs. commit_send p tok (cl_sess l d) = Inr cs \<and> w_sent (cs_window cs) = k" if "prepare = (Inr p, h')" for p
  proof -
    have "can_prepare_send R r u wkey ctx volatile now h (cl_sess l d) p" using that by (auto simp: can_prepare_send_def prepare_def)
    from commit_sent [OF clink_invD(3) [OF inv] this, of tok] k show ?thesis by blast
  qed
  obtain prepared packet q f where a:
    "prepare_send_with_attachment_at R (fr_encode r) wkey ctx [] now h (cs_ratchet (cl_sess l d)) = (Inr prepared, h')"
    "encode_frame_bytes (w_session (cs_window (cl_sess l d))) (pr_output prepared) = Inr packet" "length packet \<le> MAX_MESSAGE"
    "packet_decode packet = Inr q" "packet_frame q = Inr f" "f_ctr f = k"
    and used: "reference_used (ro_crypto R) (cs_window (cl_sess l d)) packet r \<Longrightarrow> prepare = (Inl (SFlow FState), h')"
    and free: "\<not> reference_used (ro_crypto R) (cs_window (cl_sess l d)) packet r \<Longrightarrow> \<exists>p. prepare = (Inr p, h') \<and> ps_ratchet p = prepared"
    unfolding prepare_def by (rule credited_send [OF assms(1) inv assms(3-8), of wkey ctx]) blast
  have "if reference_used (ro_crypto R) (cs_window (cl_sess l d)) packet r then prepare = (Inl (SFlow FState), h')
      else \<exists>p cs. prepare = (Inr p, h') \<and> ps_ratchet p = prepared \<and> commit_send p tok (cl_sess l d) = Inr cs \<and> w_sent (cs_window cs) = k"
    using used free commit by (auto 0 3)
  with a show ?thesis unfolding Let_def prepare_def by blast
qed

theorem credited_sends_witness:
  "\<exists>l now p cs packet. clink_reach toy_ratchet l
     \<and> prepare_send_at toy_ratchet demo_record 1 (arr_fill 7) demo_context now 0 (cl_sess l False) = (Inr p, 2)
     \<and> commit_send p 9 (cl_sess l False) = Inr cs \<and> w_sent (cs_window cs) = 1 \<and> length (packet :: bytes) \<le> MAX_MESSAGE
     \<and> encode_frame_bytes (w_session (cs_window (cl_sess l False))) (pr_output (ps_ratchet p)) = Inr packet"
proof -
  obtain l where l: "clink_reach toy_ratchet l" "w_tx (cs_window (cl_sess l False)) = []" "w_sent (cs_window (cl_sess l False)) = 0"
    "\<forall>d h. can_archive toy_ratchet (s_last_pq (cs_ratchet (cl_sess l d))) h (Suc (Suc h)) (cs_ratchet (cl_sess l d))" by (rule demo_clink) blast
  note c = demo_can_send [OF l(2,3) clink_invD(6) [OF clink_reach_inv [OF toy_ratchet_ok l(1)]]]
  from credited_sends [OF toy_ratchet_ok l(1) c(3,1,2), of False "s_last_pq (cs_ratchet (cl_sess l False))" 0 2 "arr_fill 7" demo_context 9]
    l(2) l(4) [rule_format, of False 0]
  obtain p cs packet where "prepare_send_at toy_ratchet demo_record 1 (arr_fill 7) demo_context (s_last_pq (cs_ratchet (cl_sess l False))) 0 (cl_sess l False) = (Inr p, 2)"
    "commit_send p 9 (cl_sess l False) = Inr cs" "w_sent (cs_window cs) = 1" "length packet \<le> MAX_MESSAGE"
    "encode_frame_bytes (w_session (cs_window (cl_sess l False))) (pr_output (ps_ratchet p)) = Inr packet"
    by (auto simp: numeral_2_eq_2 reference_used_def)
  with l(1) show ?thesis by blast
qed

end
