(* ===== verification/Gc2_Archive.thy ===== *)
theory Gc2_Archive
  imports Credited_Link
begin

text \<open>
  The sealed archive of a credited session, \<open>SealedState\<close> of
  \<open>crates/protocol/src/gc2_session/storage.rs\<close>: the sealed ratchet and the private credit window in
  one authenticated value bound to the session's tag. Sealing and opening a session of any reachable
  link is a restart of that link.
\<close>

section \<open>Operations\<close>

definition ARCHIVE_MAGIC :: bytes where "ARCHIVE_MAGIC = lit ''GCPS'' @ [2]"
definition ARCHIVE_HEADER :: nat where "ARCHIVE_HEADER = 5 + 16 + 12"
definition MAX_RATCHET :: nat where "MAX_RATCHET = 64 * 1024"
definition MAX_ARCHIVE_BYTES :: nat where
  "MAX_ARCHIVE_BYTES = ARCHIVE_HEADER + 4 + MAX_RATCHET + MAX_PRIVATE_BYTES + 16"

definition archive_from_bytes :: "bytes \<Rightarrow> session_error + bytes" where
  "archive_from_bytes bytes =
     reject (length bytes < ARCHIVE_HEADER + 4 + 38 + 16 \<or> MAX_ARCHIVE_BYTES < length bytes
        \<or> get_range bytes 0 5 \<noteq> Some ARCHIVE_MAGIC \<or> sub_list bytes 5 21 = list_of (arr_fill 0 :: 16 arr)) (SFlow FLength)
       (Inr bytes)"

definition archive_tag :: "bytes \<Rightarrow> 16 arr" where
  "archive_tag sealed = arr_pad (sub_list sealed 5 21)"

definition archive_key :: "crypto_ops \<Rightarrow> 32 arr \<Rightarrow> 16 arr \<Rightarrow> 32 arr" where
  "archive_key C wrapping_key tag =
     arr_pad (cr_hkdf C (list_of tag) (list_of wrapping_key) (lit ''GC2/sealed-peer-state/v1'') 32)"

definition seal_parts ::
  "('g, 'h) ratchet_ops \<Rightarrow> 16 arr \<Rightarrow> bytes \<Rightarrow> bytes \<Rightarrow> 32 arr \<Rightarrow> 'h \<Rightarrow> (session_error + bytes) \<times> 'h" where
  "seal_parts R tag ratchet private_flow wrapping_key h =
     (if tag = arr_fill 0 \<or> MAX_RATCHET < length ratchet \<or> MAX_PRIVATE_BYTES < length private_flow
      then (Inl (SFlow FLength), h)
      else case ro_entropy R h 12 of
        (None, h) \<Rightarrow> (Inl (SCrypto Entropy), h)
      | (Some nonce, h) \<Rightarrow>
          (let bytes = ARCHIVE_MAGIC @ list_of tag @ list_of (arr_pad nonce :: 12 arr);
               plain = be32 (of_nat (length ratchet)) @ ratchet @ private_flow;
               key = archive_key (ro_crypto R) wrapping_key tag
           in rbind (ok_or (SCrypto Encrypt) (cr_seal256 (ro_crypto R) key (list_of (arr_pad nonce :: 12 arr)) bytes plain)) (\<lambda>cipher.
              archive_from_bytes (bytes @ cipher)), h))"

definition archive_open_at ::
  "('g, 'h) ratchet_ops \<Rightarrow> bytes \<Rightarrow> 32 arr \<Rightarrow> session_context \<Rightarrow> session_time \<Rightarrow> duration \<Rightarrow> revision \<Rightarrow> 'h
   \<Rightarrow> (session_error + 'g credited_session) \<times> 'h" where
  "archive_open_at R sealed wrapping_key ctx now offline tok h =
     (case rbind (ok_or (SCrypto StateAuthentication)
             (cr_open256 (ro_crypto R) (archive_key (ro_crypto R) wrapping_key (archive_tag sealed))
                (sub_list sealed 21 ARCHIVE_HEADER) (take ARCHIVE_HEADER sealed) (drop ARCHIVE_HEADER sealed))) (\<lambda>plain.
           rbind (ok_or (SFlow FLength) (get_range plain 0 4)) (\<lambda>prefix.
           let len = unat (de32 prefix) in
           reject (MAX_RATCHET < len \<or> MAX_PRIVATE_BYTES < length plain - (4 + len)) (SFlow FLength) (
           rbind (ok_or (SFlow FLength) (get_range plain 4 (4 + len))) (\<lambda>bytes.
           rbind (crypto (sealed_from_bytes bytes)) (\<lambda>ratchet.
           rbind (ok_or (SFlow FLength) (get_range plain (4 + len) (length plain))) (\<lambda>private_flow.
           Inr (ratchet, private_flow))))))) of
        Inl e \<Rightarrow> (Inl e, h)
      | Inr (ratchet, private_flow) \<Rightarrow>
          (case restore_at R ratchet private_flow wrapping_key ctx now offline tok h of (r, h) \<Rightarrow>
             (rbind r (\<lambda>session.
              reject (w_session (cs_window session) \<noteq> archive_tag sealed) (SFlow FAuthentication) (Inr session)), h)))"

section \<open>Sealing and opening\<close>

lemmas archive_consts = ARCHIVE_HEADER_def MAX_RATCHET_def MAX_ARCHIVE_BYTES_def

lemma length_ARCHIVE_MAGIC [simp]: "length ARCHIVE_MAGIC = 5"
  by (simp add: ARCHIVE_MAGIC_def lit_def)

definition archive_header :: "16 arr \<Rightarrow> 12 arr \<Rightarrow> bytes" where
  "archive_header tag nonce = ARCHIVE_MAGIC @ list_of tag @ list_of nonce"

lemma archive_fields:
  "length (archive_header tag nonce) = ARCHIVE_HEADER"
  "archive_tag (archive_header tag nonce @ c) = tag"
  "sub_list (archive_header tag nonce @ c) 5 21 = list_of tag"
  "sub_list (archive_header tag nonce @ c) 21 ARCHIVE_HEADER = list_of nonce"
  "take ARCHIVE_HEADER (archive_header tag nonce @ c) = archive_header tag nonce"
  "drop ARCHIVE_HEADER (archive_header tag nonce @ c) = c"
  "get_range (archive_header tag nonce @ c) 0 5 = Some ARCHIVE_MAGIC"
  by (simp_all add: archive_header_def archive_tag_def ARCHIVE_HEADER_def get_range_def sub_list_def)

lemma archive_from_bytes_header:
  "archive_from_bytes (archive_header tag nonce @ c) =
     (if tag = arr_fill 0 \<or> length c < 4 + 38 + 16 \<or> 4 + MAX_RATCHET + MAX_PRIVATE_BYTES + 16 < length c
      then Inl (SFlow FLength) else Inr (archive_header tag nonce @ c))"
  by (auto simp: archive_from_bytes_def archive_fields reject_def MAX_ARCHIVE_BYTES_def list_of_inject)

lemma seal_parts_returns:
  assumes ok: "crypto_ok (ro_crypto R)" and tag: "tag \<noteq> arr_fill 0" and r: "38 \<le> length ratchet" "length ratchet \<le> MAX_RATCHET"
    and p: "length private_flow \<le> MAX_PRIVATE_BYTES" and ent: "ro_entropy R h 12 = (Some nonce, h')"
  obtains c where "seal_parts R tag ratchet private_flow key h = (Inr (archive_header tag (arr_pad nonce) @ c), h')"
    "archive_from_bytes (archive_header tag (arr_pad nonce) @ c) = Inr (archive_header tag (arr_pad nonce) @ c)"
    "cr_open256 (ro_crypto R) (archive_key (ro_crypto R) key tag) (list_of (arr_pad nonce :: 12 arr)) (archive_header tag (arr_pad nonce)) c
       = Some (be32 (of_nat (length ratchet)) @ ratchet @ private_flow)"
proof -
  let ?plain = "be32 (of_nat (length ratchet)) @ ratchet @ private_flow"
  have len: "length ?plain < 16777216" using r p by (simp add: archive_consts MAX_PRIVATE_BYTES_def MAX_MESSAGE_def)
  obtain c where c: "cr_seal256 (ro_crypto R) (archive_key (ro_crypto R) key tag) (list_of (arr_pad nonce :: 12 arr)) (archive_header tag (arr_pad nonce)) ?plain = Some c"
    "length c = length ?plain + 16"
    "cr_open256 (ro_crypto R) (archive_key (ro_crypto R) key tag) (list_of (arr_pad nonce :: 12 arr)) (archive_header tag (arr_pad nonce)) c = Some ?plain"
    by (rule aead_ok_seal_largeE [OF ok len])
  have fb: "archive_from_bytes (archive_header tag (arr_pad nonce) @ c) = Inr (archive_header tag (arr_pad nonce) @ c)"
    using tag r p c(2) by (simp add: archive_from_bytes_header)
  moreover have "seal_parts R tag ratchet private_flow key h = (Inr (archive_header tag (arr_pad nonce) @ c), h')"
    using tag r p ent c(1) fb by (simp add: seal_parts_def Let_def archive_header_def)
  ultimately show thesis using c(3) that by blast
qed

lemma archive_open_sealed:
  assumes op: "cr_open256 (ro_crypto R) (archive_key (ro_crypto R) key tag) (list_of nonce) (archive_header tag nonce) c
       = Some (be32 (of_nat (length ratchet)) @ ratchet @ private_flow)"
    and r: "sealed_from_bytes ratchet = Inr ratchet" and p: "length private_flow \<le> MAX_PRIVATE_BYTES"
    and res: "restore_at R ratchet private_flow key ctx now offline tok h = (Inr cs, h')" and tag: "w_session (cs_window cs) = tag"
  shows "archive_open_at R (archive_header tag nonce @ c) key ctx now offline tok h = (Inr cs, h')"
proof -
  have len: "length ratchet \<le> MAX_RATCHET" using r by (auto simp: sealed_from_bytes_def MAX_SEALED_STATE_def MAX_RATCHET_def)
  then have u: "unat (of_nat (length ratchet) :: u32) = length ratchet" by (intro unat_of_nat_u32) (simp add: MAX_RATCHET_def)
  let ?plain = "be32 (of_nat (length ratchet)) @ ratchet @ private_flow"
  have "get_range ?plain 0 4 = Some (be32 (of_nat (length ratchet)))" "get_range ?plain 4 (4 + length ratchet) = Some ratchet"
    "get_range ?plain (4 + length ratchet) (length ?plain) = Some private_flow"
    by (simp_all add: get_range_def sub_list_def)
  with op r p res tag len u show ?thesis
    by (simp add: archive_open_at_def archive_fields Let_def reject_def)
qed

lemma sealed_bytes_checked:
  assumes "seal_state_with_attachment_at R key ctx attachment now h s = (Inr sealed, h')"
  shows "sealed_from_bytes sealed = Inr sealed"
  using assms
  by (auto simp: seal_state_with_attachment_at_def Let_def sealed_from_bytes_def reject_def split: if_splits prod.splits option.splits)

lemma restored_authenticates:
  assumes ok: "credited_ok R cs" and s: "restored (cs_ratchet cs) s"
  shows "from_authenticated s (archived (cs_window cs)) tok = Inr \<lparr>cs_ratchet = s, cs_window = archived (cs_window cs), cs_revision = tok\<rparr>"
proof -
  have "cov_valid (w_received (cs_window cs))" using ok by (simp add: credited_ok_def window_inv_def)
  then have "cov_highest (w_received (cs_window cs)) = Inr (s_recv_ctr (cs_ratchet cs))"
    using cov_highest_eq [of "w_received (cs_window cs)"] ok by (auto simp: cov_valid_iff credited_ok_def word_unat_eq_iff)
  with ok s show ?thesis by (simp add: from_authenticated_def archived_def restored_def credited_ok_def reject_def)
qed

lemma archived_session_opens:
  assumes ok: "ratchet_ok R" and inv: "clink_inv R l" and policy: "archivable (cs_ratchet (cl_sess l d))"
    and clock: "s_last_pq (cs_ratchet (cl_sess l d)) \<le> saved" "\<forall>k \<in> set (s_skipped (cs_ratchet (cl_sess l d))). sk_stored_at k \<le> saved"
    and ent: "ro_entropy R h 12 = (Some n, h1)" "ro_entropy R h1 12 = (Some n', h2)" "std_from_rng R g = (Inr rng, g')"
  obtains ratchet sealed cs where "seal_ratchet_at R key ctx saved h (cl_sess l d) = (Inr ratchet, h1)"
    "seal_parts R (w_session (cs_window (cl_sess l d))) ratchet (encode_private (cs_window (cl_sess l d))) key h1 = (Inr sealed, h2)"
    "archive_from_bytes sealed = Inr sealed" "archive_tag sealed = w_session (cs_window (cl_sess l d))"
    "archive_open_at R sealed key ctx now offline tok g = (Inr cs, g')"
    "cs = \<lparr>cs_ratchet = reload saved now offline rng (cs_ratchet (cl_sess l d)), cs_window = archived (cs_window (cl_sess l d)), cs_revision = tok\<rparr>"
    "clink_step R l (l\<lparr>cl_sess := (cl_sess l)(d := cs)\<rparr>)"
proof -
  let ?S = "cl_sess l d" and ?C = "ro_crypto R" and ?W = "cs_window (cl_sess l d)"
  let ?s = "reload saved now offline rng (cs_ratchet ?S)"
  let ?cs = "\<lparr>cs_ratchet = ?s, cs_window = archived ?W, cs_revision = tok\<rparr>"
  note C = ratchet_okD(1) [OF ok] and w = clink_invD(6) [OF inv, of d]
  obtain ratchet where r: "seal_state_with_attachment_at R key ctx [] saved h (cs_ratchet ?S) = (Inr ratchet, h1)"
    "open_state_with_attachment_at R ratchet key ctx now offline g = (Inr (?s, []), g')"
    by (rule seal_open_state [OF C policy _ clock ent(1,3), of "[]"]) (simp add: MAX_STATE_ATTACHMENT_def)
  have sb: "sealed_from_bytes ratchet = Inr ratchet" by (rule sealed_bytes_checked [OF r(1)])
  have rl: "38 \<le> length ratchet" "length ratchet \<le> MAX_RATCHET"
    using sb by (auto simp: sealed_from_bytes_def MAX_SEALED_STATE_def MAX_RATCHET_def)
  have tag: "w_session ?W \<noteq> arr_fill 0" using w by (simp add: window_inv_def)
  have pl: "length (encode_private ?W) \<le> MAX_PRIVATE_BYTES" by (rule encode_private_length [OF w])
  obtain c where c: "seal_parts R (w_session ?W) ratchet (encode_private ?W) key h1 = (Inr (archive_header (w_session ?W) (arr_pad n') @ c), h2)"
    "archive_from_bytes (archive_header (w_session ?W) (arr_pad n') @ c) = Inr (archive_header (w_session ?W) (arr_pad n') @ c)"
    "cr_open256 ?C (archive_key ?C key (w_session ?W)) (list_of (arr_pad n' :: 12 arr)) (archive_header (w_session ?W) (arr_pad n')) c
       = Some (be32 (of_nat (length ratchet)) @ ratchet @ encode_private ?W)"
    by (rule seal_parts_returns [OF C tag rl pl ent(2)])
  have dec: "decode_private ?C (encode_private ?W) = Inr (archived ?W)" by (rule decode_encode_private [OF C w])
  have rs: "restored (cs_ratchet ?S) ?s" by (rule reload_restored)
  have fa: "from_authenticated ?s (archived ?W) tok = Inr ?cs" by (rule restored_authenticates [OF clink_invD(3) [OF inv] rs])
  have "restore_at R ratchet (encode_private ?W) key ctx now offline tok g = (Inr ?cs, g')"
    using r(2) dec fa by (simp add: restore_at_def)
  from archive_open_sealed [OF c(3) sb pl this] have
    "archive_open_at R (archive_header (w_session ?W) (arr_pad n') @ c) key ctx now offline tok g = (Inr ?cs, g')"
    by (simp add: archived_def)
  moreover have "clink_step R l (l\<lparr>cl_sess := (cl_sess l)(d := ?cs)\<rparr>)" by (rule clink_step.restart [OF rs dec fa])
  ultimately show thesis using r(1) c(1,2) archive_fields(2)
    by (intro that [of ratchet "archive_header (w_session ?W) (arr_pad n') @ c" ?cs]) (simp_all add: seal_ratchet_at_def)
qed

lemma archive_open_Inr:
  assumes ok: "crypto_ok (ro_crypto R)" and op: "archive_open_at R sealed key ctx now offline tok h = (Inr cs, h')"
  obtains ratchet att where
    "cr_seal256 (ro_crypto R) (archive_key (ro_crypto R) key (archive_tag sealed)) (sub_list sealed 21 ARCHIVE_HEADER) (take ARCHIVE_HEADER sealed)
       (be32 (of_nat (length ratchet)) @ ratchet @ encode_private (cs_window cs)) = Some (drop ARCHIVE_HEADER sealed)"
    "open_state_with_attachment_at R ratchet key ctx now offline h = (Inr (cs_ratchet cs, att), h')"
    "w_session (cs_window cs) = archive_tag sealed" "window_inv (ro_crypto R) (cs_window cs)" "cs_revision cs = tok"
    "s_send_ctr (cs_ratchet cs) = w_sent (cs_window cs)" "cov_highest (w_received (cs_window cs)) = Inr (s_recv_ctr (cs_ratchet cs))"
proof -
  from op obtain plain pre ratchet priv where
    o: "cr_open256 (ro_crypto R) (archive_key (ro_crypto R) key (archive_tag sealed)) (sub_list sealed 21 ARCHIVE_HEADER)
         (take ARCHIVE_HEADER sealed) (drop ARCHIVE_HEADER sealed) = Some plain"
    and g: "get_range plain 0 4 = Some pre" "get_range plain 4 (4 + unat (de32 pre)) = Some ratchet"
      "get_range plain (4 + unat (de32 pre)) (length plain) = Some priv"
    and r: "restore_at R ratchet priv key ctx now offline tok h = (Inr cs, h')" and t: "w_session (cs_window cs) = archive_tag sealed"
    by (auto simp: archive_open_at_def Let_def sealed_from_bytes_def split: sum.splits prod.splits)
  from r obtain s att w where s: "open_state_with_attachment_at R ratchet key ctx now offline h = (Inr (s, att), h')"
    and w: "decode_private (ro_crypto R) priv = Inr w" and f: "from_authenticated s w tok = Inr cs"
    by (auto simp: restore_at_def split: sum.splits prod.splits)
  note cs = from_authenticated_Inr [OF f] and d = decode_private_Inr [OF ok w]
  have "length ys = b - a" if "get_range xs a b = Some ys" for xs ys :: bytes and a b
    using that by (auto simp: get_range_def split: if_splits)
  from this [OF g(1)] this [OF g(2)] have l: "length pre = 4" "length ratchet = unat (de32 pre)" by simp_all
  have "plain = pre @ ratchet @ priv"
    using get_range_Some [OF g(1)] get_range_Some [OF g(2)] get_range_Some [OF g(3)] by simp
  note l = l this
  have "be32 (of_nat (length ratchet)) = pre" using l by (simp add: be_de)
  with l(3) d(3) cs(1) have "plain = be32 (of_nat (length ratchet)) @ ratchet @ encode_private (cs_window cs)" by simp
  with aead_ok_openD [OF ok o] s t d(1) cs show thesis by (intro that [of ratchet att]) simp_all
qed

section \<open>Properties\<close>

text \<open>
  C10 (refinement): a credited session survives a restart from its sealed archive. In every state two
  peers can reach from a GC/2 handshake, with a usable clock, policy and entropy, sealing the ratchet
  and the private credit window of a side succeeds; the archive carries the session's tag and passes
  its own length check; opening it with the same key and context returns a session with the same
  counters and the same credit record; and the link with that session in place of the old one is
  again reachable, so delivery and safety hold after the restart.
\<close>

theorem archive_continues:
  assumes "ratchet_ok R" and "clink_reach R l"
    and "0 \<le> s_pq_after (cs_ratchet (cl_sess l d))" "as_secs (s_pq_after (cs_ratchet (cl_sess l d))) \<le> 366 * 24 * 60 * 60"
    and "s_last_pq (cs_ratchet (cl_sess l d)) \<le> saved" "\<forall>k \<in> set (s_skipped (cs_ratchet (cl_sess l d))). sk_stored_at k \<le> saved"
    and "ro_entropy R h 12 = (Some n, h1)" "ro_entropy R h1 12 = (Some n', h2)" "std_from_rng R g = (Inr rng, g')"
  shows "\<exists>ratchet sealed cs. seal_ratchet_at R key ctx saved h (cl_sess l d) = (Inr ratchet, h1)
    \<and> seal_parts R (w_session (cs_window (cl_sess l d))) ratchet (encode_private (cs_window (cl_sess l d))) key h1 = (Inr sealed, h2)
    \<and> archive_from_bytes sealed = Inr sealed \<and> archive_tag sealed = w_session (cs_window (cl_sess l d))
    \<and> archive_open_at R sealed key ctx now offline tok g = (Inr cs, g')
    \<and> s_send_ctr (cs_ratchet cs) = s_send_ctr (cs_ratchet (cl_sess l d)) \<and> s_recv_ctr (cs_ratchet cs) = s_recv_ctr (cs_ratchet (cl_sess l d))
    \<and> w_credited (cs_window cs) = w_credited (cs_window (cl_sess l d)) \<and> w_received (cs_window cs) = w_received (cs_window (cl_sess l d))
    \<and> clink_reach R (l\<lparr>cl_sess := (cl_sess l)(d := cs)\<rparr>)"
proof -
  have inv: "clink_inv R l" by (rule clink_reach_inv [OF assms(1,2)])
  have a: "archivable (cs_ratchet (cl_sess l d))"
    using rlink_archivable [OF clink_invD(1) [OF inv], of d] assms(3,4) by (simp add: ratchet_view_def)
  obtain ratchet sealed cs where "seal_ratchet_at R key ctx saved h (cl_sess l d) = (Inr ratchet, h1)"
    "seal_parts R (w_session (cs_window (cl_sess l d))) ratchet (encode_private (cs_window (cl_sess l d))) key h1 = (Inr sealed, h2)"
    "archive_from_bytes sealed = Inr sealed" "archive_tag sealed = w_session (cs_window (cl_sess l d))"
    "archive_open_at R sealed key ctx now offline tok g = (Inr cs, g')"
    and cs: "cs = \<lparr>cs_ratchet = reload saved now offline rng (cs_ratchet (cl_sess l d)), cs_window = archived (cs_window (cl_sess l d)), cs_revision = tok\<rparr>"
    and "clink_step R l (l\<lparr>cl_sess := (cl_sess l)(d := cs)\<rparr>)"
    by (rule archived_session_opens [OF assms(1) inv a assms(5-9)])
  moreover have "restored (cs_ratchet (cl_sess l d)) (cs_ratchet cs)" using reload_restored cs by simp
  ultimately show ?thesis using clink_reach.step [OF assms(2)]
    by (intro exI [of _ ratchet] exI [of _ sealed] exI [of _ cs]) (simp add: restored_def archived_def)
qed

theorem archive_continues_witness:
  "\<exists>l saved ratchet sealed cs. clink_reach toy_ratchet l
     \<and> seal_ratchet_at toy_ratchet (arr_fill 7) demo_context saved 0 (cl_sess l False) = (Inr ratchet, 1)
     \<and> seal_parts toy_ratchet (w_session (cs_window (cl_sess l False))) ratchet (encode_private (cs_window (cl_sess l False))) (arr_fill 7) 1 = (Inr sealed, 2)
     \<and> archive_open_at toy_ratchet sealed (arr_fill 7) demo_context (saved + 1) 1 9 0 = (Inr cs, 1)
     \<and> clink_reach toy_ratchet (l\<lparr>cl_sess := (cl_sess l)(False := cs)\<rparr>)"
proof -
  obtain l where l: "clink_reach toy_ratchet l"
    "\<forall>d h. can_archive toy_ratchet (s_last_pq (cs_ratchet (cl_sess l d))) h (Suc (Suc h)) (cs_ratchet (cl_sess l d))" by (rule demo_clink) blast
  have e: "\<exists>n. ro_entropy toy_ratchet 0 12 = (Some n, 1)" "\<exists>n. ro_entropy toy_ratchet 1 12 = (Some n, 2)"
    "\<exists>g. std_from_rng toy_ratchet 0 = (Inr g, 1)"
    by (simp_all add: toy_ratchet_def std_from_rng_def)
  then obtain n n' rng where e: "ro_entropy toy_ratchet 0 12 = (Some n, 1)" "ro_entropy toy_ratchet 1 12 = (Some n', 2)"
    "std_from_rng toy_ratchet 0 = (Inr rng, 1)" by blast
  let ?t = "s_last_pq (cs_ratchet (cl_sess l False))"
  have c: "0 \<le> s_pq_after (cs_ratchet (cl_sess l False))" "as_secs (s_pq_after (cs_ratchet (cl_sess l False))) \<le> 366 * 24 * 60 * 60" "?t \<le> ?t"
    "\<forall>k \<in> set (s_skipped (cs_ratchet (cl_sess l False))). sk_stored_at k \<le> ?t"
    using l(2) by (auto simp: can_archive_def)
  show ?thesis
    using archive_continues [OF toy_ratchet_ok l(1) c e, where key = "arr_fill 7" and ctx = demo_context and now = "?t + 1" and offline = 1 and tok = 9]
      l(1) by blast
qed

text \<open>
  C11 (safety): an archive that opens is authentic and consistent. Whatever bytes are given, if
  \<open>open_at\<close> returns a session then the ciphertext is exactly the sealing, under the key derived from
  the wrapping key and the public tag and with the header as associated data, of a ratchet archive
  and of the returned session's own credit window; the ratchet archive opens in the caller's context
  to the returned ratchet; the window carries the archive's tag and is well formed; and both parts
  agree on how much was sent and received, so an archive glued together from two moments is refused.
\<close>

theorem archive_opens_authentic:
  assumes "crypto_ok (ro_crypto R)" and "archive_open_at R sealed key ctx now offline tok h = (Inr cs, h')"
  shows "(\<exists>ratchet att. cr_seal256 (ro_crypto R) (archive_key (ro_crypto R) key (archive_tag sealed)) (sub_list sealed 21 ARCHIVE_HEADER) (take ARCHIVE_HEADER sealed)
       (be32 (of_nat (length ratchet)) @ ratchet @ encode_private (cs_window cs)) = Some (drop ARCHIVE_HEADER sealed)
     \<and> open_state_with_attachment_at R ratchet key ctx now offline h = (Inr (cs_ratchet cs, att), h'))
    \<and> w_session (cs_window cs) = archive_tag sealed \<and> window_inv (ro_crypto R) (cs_window cs)
    \<and> s_send_ctr (cs_ratchet cs) = w_sent (cs_window cs) \<and> cov_highest (w_received (cs_window cs)) = Inr (s_recv_ctr (cs_ratchet cs))"
  by (rule archive_open_Inr [OF assms]) blast

theorem archive_opens_authentic_witness:
  "\<exists>sealed cs. archive_open_at toy_ratchet sealed (arr_fill 7) demo_context 1 0 9 0 = (Inr cs, 1)
     \<and> w_session (cs_window cs) = archive_tag sealed \<and> s_send_ctr (cs_ratchet cs) = w_sent (cs_window cs)"
proof -
  obtain l where l: "clink_reach toy_ratchet l"
    "\<forall>d h. can_archive toy_ratchet (s_last_pq (cs_ratchet (cl_sess l d))) h (Suc (Suc h)) (cs_ratchet (cl_sess l d))" by (rule demo_clink) blast
  have inv: "clink_inv toy_ratchet l" by (rule clink_reach_inv [OF toy_ratchet_ok l(1)])
  have a: "archivable (cs_ratchet (cl_sess l False))"
    using rlink_archivable [OF clink_invD(1) [OF inv], of False] l(2) by (simp add: ratchet_view_def can_archive_def)
  obtain n n' rng where e: "ro_entropy toy_ratchet 0 12 = (Some n, 1)" "ro_entropy toy_ratchet 1 12 = (Some n', 2)"
    "std_from_rng toy_ratchet 0 = (Inr rng, 1)" by (auto simp: toy_ratchet_def std_from_rng_def)
  obtain sealed cs where o: "archive_open_at toy_ratchet sealed (arr_fill 7) demo_context 1 0 9 0 = (Inr cs, 1)"
    by (rule archived_session_opens [OF toy_ratchet_ok inv a _ _ e, where saved = "s_last_pq (cs_ratchet (cl_sess l False))"
          and key = "arr_fill 7" and ctx = demo_context and now = 1 and offline = 0 and tok = 9])
       (use l(2) in \<open>auto simp: can_archive_def\<close>)
  with archive_opens_authentic [OF ratchet_okD(1) [OF toy_ratchet_ok] o] show ?thesis by blast
qed

end
