(* ===== verification/Relay_Gc2.thy ===== *)
theory Relay_Gc2
  imports Relay_Cells
begin

text \<open>
  The GC/2 relay envelopes of \<open>crates/protocol/src/relay/gc2.rs\<close>: deposits, subscriptions of one
  traffic class and forwards, carried in natural cells and authenticated by HMAC-SHA-256 over the
  whole payload. HMAC is the parameter \<open>hmac\<close>; making one from a 32-byte key never fails.
\<close>

section \<open>Sealing\<close>

definition GC2_TAG_LEN :: nat where "GC2_TAG_LEN = 32"
definition PUSH_PREFIX :: nat where "PUSH_PREFIX = 67"
definition SUB_PREFIX :: nat where "SUB_PREFIX = 65"
definition FRWD_PREFIX :: nat where "FRWD_PREFIX = 78"

lemmas gc2_consts = GC2_TAG_LEN_def PUSH_PREFIX_def SUB_PREFIX_def FRWD_PREFIX_def HEADER_LEN_def MAX_MESSAGE_def MAX_CELL_def

definition gc2_domain :: "cell_type \<Rightarrow> relay_error + bytes" where
  "gc2_domain kind =
     (case kind of
        RelayPush \<Rightarrow> Inr (lit ''GC2/RELAY-PUSH'' @ [0])
      | RelaySub \<Rightarrow> Inr (lit ''GC2/RELAY-SUB'' @ [0])
      | Frwd \<Rightarrow> Inr (lit ''GC2/FRWD'' @ [0])
      | _ \<Rightarrow> Inl WrongCellType)"

definition gc2_mac_input :: "bytes \<Rightarrow> cell_type \<Rightarrow> 32 arr \<Rightarrow> bytes \<Rightarrow> bytes" where
  "gc2_mac_input domain kind service payload =
     domain @ [GC2_VERSION, cell_type_raw kind] @ list_of service @ be16 (of_nat (length payload)) @ payload"

definition gc2_mac :: "mac_fn \<Rightarrow> cell_type \<Rightarrow> 32 arr \<Rightarrow> 32 arr \<Rightarrow> bytes \<Rightarrow> relay_error + 32 arr" where
  "gc2_mac hmac kind key service payload =
     rbind (gc2_domain kind) (\<lambda>domain. Inr (hmac key (gc2_mac_input domain kind service payload)))"

definition gc2_seal :: "mac_fn \<Rightarrow> cell_type \<Rightarrow> 32 arr \<Rightarrow> 32 arr \<Rightarrow> bytes \<Rightarrow> relay_error + natural_cell" where
  "gc2_seal hmac kind key service payload =
     reject (MAX_CELL - HEADER_LEN - GC2_TAG_LEN < length payload) CellTooLarge (
     rbind (gc2_mac hmac kind key service payload) (\<lambda>tag.
     map_err (\<lambda>_. NonCanonicalCell) (natural_new kind 0 (payload @ list_of tag))))"

definition gc2_body :: "natural_cell \<Rightarrow> cell_type \<Rightarrow> relay_error + bytes" where
  "gc2_body c kind =
     reject (n_kind c \<noteq> kind \<or> n_flags c \<noteq> 0) WrongCellType (
     reject (length (n_payload c) < GC2_TAG_LEN) RMalformed
       (Inr (take (length (n_payload c) - GC2_TAG_LEN) (n_payload c))))"

definition gc2_authenticate :: "mac_fn \<Rightarrow> natural_cell \<Rightarrow> cell_type \<Rightarrow> 32 arr \<Rightarrow> 32 arr \<Rightarrow> relay_error + bytes" where
  "gc2_authenticate hmac c kind key service =
     rbind (gc2_body c kind) (\<lambda>bytes.
     rbind (gc2_mac hmac kind key service bytes) (\<lambda>tag.
     reject (list_of tag \<noteq> drop (length bytes) (n_payload c)) InvalidMac (Inr bytes)))"

definition gc2_class :: "byte \<Rightarrow> relay_error + traffic_class" where
  "gc2_class value = ok_or RMalformed (traffic_from_byte value)"

definition gc2_live :: "u64 \<Rightarrow> u64 \<Rightarrow> relay_error + unit" where
  "gc2_live expiry now = (if expiry \<le> now then Inl (Expired expiry now) else Inr ())"

text \<open>\<open>class as u8\<close>.\<close>

fun traffic_byte :: "traffic_class \<Rightarrow> byte" where
  "traffic_byte Interactive = 0"
| "traffic_byte Bulk = 1"

section \<open>Deposits\<close>

record gc2_push =
  gp_class :: traffic_class
  gp_queue_id :: "32 arr"
  gp_epoch :: u64
  gp_nonce :: "16 arr"
  gp_expiry :: u64
  gp_msg :: "natural_cell option"

definition gc2_push_encode :: "mac_fn \<Rightarrow> 32 arr \<Rightarrow> 32 arr \<Rightarrow> gc2_push \<Rightarrow> relay_error + natural_cell" where
  "gc2_push_encode hmac cap service p =
     rbind (case gp_msg p of
              Some msg \<Rightarrow> if n_kind msg = Msg then Inr (natural_encode msg) else Inl InnerNotMsg
            | None \<Rightarrow> Inr []) (\<lambda>msg.
     gc2_seal hmac RelayPush cap service
       ([traffic_byte (gp_class p)] @ list_of (gp_queue_id p) @ be64 (gp_epoch p) @ list_of (gp_nonce p)
        @ be64 (gp_expiry p) @ be16 (of_nat (length msg)) @ msg))"

definition gc2_push_parse :: "bytes \<Rightarrow> relay_error + gc2_push" where
  "gc2_push_parse bytes =
     reject (length bytes < PUSH_PREFIX) RMalformed (
     let len = unat (de16 (sub_list bytes 65 67)) in
     reject (MAX_MESSAGE + HEADER_LEN < len \<or> len \<noteq> length bytes - PUSH_PREFIX) RMalformed (
     rbind (if len = 0 then Inr None
            else rbind (map_err (\<lambda>_. NonCanonicalCell) (natural_decode (drop PUSH_PREFIX bytes))) (\<lambda>msg.
                 reject (n_kind msg \<noteq> Msg) InnerNotMsg (Inr (Some msg)))) (\<lambda>msg.
     rbind (gc2_class (bytes ! 0)) (\<lambda>traffic.
     Inr \<lparr>gp_class = traffic, gp_queue_id = arr_pad (sub_list bytes 1 33), gp_epoch = de64 (sub_list bytes 33 41),
          gp_nonce = arr_pad (sub_list bytes 41 57), gp_expiry = de64 (sub_list bytes 57 65), gp_msg = msg\<rparr>))))"

definition gc2_push_decode :: "mac_fn \<Rightarrow> 32 arr \<Rightarrow> 32 arr \<Rightarrow> u64 \<Rightarrow> natural_cell \<Rightarrow> relay_error + gc2_push" where
  "gc2_push_decode hmac cap service now c =
     rbind (rbind (gc2_authenticate hmac c RelayPush cap service) gc2_push_parse) (\<lambda>parsed.
     rbind (gc2_live (gp_expiry parsed) now) (\<lambda>_. Inr parsed))"

record unverified_push =
  up_cell :: natural_cell
  up_class :: traffic_class
  up_queue_id :: "32 arr"
  up_epoch :: u64
  up_expiry :: u64

definition unverified_parse :: "natural_cell \<Rightarrow> relay_error + unverified_push" where
  "unverified_parse c =
     rbind (rbind (gc2_body c RelayPush) gc2_push_parse) (\<lambda>parsed.
     Inr \<lparr>up_cell = c, up_class = gp_class parsed, up_queue_id = gp_queue_id parsed,
          up_epoch = gp_epoch parsed, up_expiry = gp_expiry parsed\<rparr>)"

definition unverified_authenticate :: "mac_fn \<Rightarrow> 32 arr \<Rightarrow> 32 arr \<Rightarrow> u64 \<Rightarrow> unverified_push \<Rightarrow> relay_error + gc2_push" where
  "unverified_authenticate hmac cap service now u = gc2_push_decode hmac cap service now (up_cell u)"

section \<open>Subscriptions\<close>

record gc2_sub =
  gs_class :: traffic_class
  gs_queue_id :: "32 arr"
  gs_epoch :: u64
  gs_expiry :: u64
  gs_nonce :: "16 arr"

definition gc2_sub_encode :: "mac_fn \<Rightarrow> 32 arr \<Rightarrow> 32 arr \<Rightarrow> gc2_sub \<Rightarrow> relay_error + natural_cell" where
  "gc2_sub_encode hmac cap service s =
     gc2_seal hmac RelaySub cap service
       ([traffic_byte (gs_class s)] @ list_of (gs_queue_id s) @ be64 (gs_epoch s) @ be64 (gs_expiry s) @ list_of (gs_nonce s))"

definition gc2_sub_decode :: "mac_fn \<Rightarrow> 32 arr \<Rightarrow> 32 arr \<Rightarrow> u64 \<Rightarrow> natural_cell \<Rightarrow> relay_error + gc2_sub" where
  "gc2_sub_decode hmac cap service now c =
     rbind (gc2_authenticate hmac c RelaySub cap service) (\<lambda>bytes.
     reject (length bytes \<noteq> SUB_PREFIX) RMalformed (
     rbind (gc2_class (bytes ! 0)) (\<lambda>traffic.
     let value = \<lparr>gs_class = traffic, gs_queue_id = arr_pad (sub_list bytes 1 33), gs_epoch = de64 (sub_list bytes 33 41),
                  gs_expiry = de64 (sub_list bytes 41 49), gs_nonce = arr_pad (sub_list bytes 49 65)\<rparr> in
     rbind (gc2_live (gs_expiry value) now) (\<lambda>_. Inr value))))"

section \<open>Forwards\<close>

record gc2_forward =
  gf_class :: traffic_class
  gf_target :: relay_target
  gf_expiry :: u64
  gf_nonce :: "16 arr"
  gf_push :: "unverified_push option"

definition gc2_forward_encode ::
  "mac_fn \<Rightarrow> 32 arr \<Rightarrow> 32 arr \<Rightarrow> target_policy \<Rightarrow> gc2_forward \<Rightarrow> relay_error + natural_cell" where
  "gc2_forward_encode hmac key service policy f =
     rbind (validate_frwd_target_with_policy (gf_target f) policy) (\<lambda>_.
     rbind (case gf_push f of
              Some push \<Rightarrow> if up_class push = gf_class f then Inr (natural_encode (up_cell push)) else Inl NonCanonicalCell
            | None \<Rightarrow> Inr []) (\<lambda>push.
     gc2_seal hmac Frwd key service
       ([traffic_byte (gf_class f)] @ target_encode (gf_target f) @ be64 (gf_expiry f) @ list_of (gf_nonce f)
        @ be16 (of_nat (length push)) @ push)))"

text \<open>The nested deposit of a forward.\<close>

definition gc2_nested :: "traffic_class \<Rightarrow> u64 \<Rightarrow> nat \<Rightarrow> bytes \<Rightarrow> relay_error + unverified_push option" where
  "gc2_nested traffic now len bytes =
     (if len = 0 then Inr None
      else rbind (map_err (\<lambda>_. NonCanonicalCell) (natural_decode (drop FRWD_PREFIX bytes))) (\<lambda>cell.
           rbind (unverified_parse cell) (\<lambda>push.
           reject (up_class push \<noteq> traffic) NonCanonicalCell (
           rbind (gc2_live (up_expiry push) now) (\<lambda>_. Inr (Some push))))))"

definition gc2_forward_decode ::
  "mac_fn \<Rightarrow> 32 arr \<Rightarrow> 32 arr \<Rightarrow> u64 \<Rightarrow> target_policy \<Rightarrow> natural_cell \<Rightarrow> relay_error + gc2_forward" where
  "gc2_forward_decode hmac key service now policy c =
     rbind (gc2_authenticate hmac c Frwd key service) (\<lambda>bytes.
     reject (length bytes < FRWD_PREFIX) RMalformed (
     rbind (gc2_class (bytes ! 0)) (\<lambda>traffic.
     rbind (target_decode (sub_list bytes 1 (1 + TARGET_LEN))) (\<lambda>target.
     rbind (validate_frwd_target_with_policy target policy) (\<lambda>_.
     let expiry = de64 (sub_list bytes 52 60) in
     rbind (gc2_live expiry now) (\<lambda>_.
     let len = unat (de16 (sub_list bytes 76 78)) in
     reject (len \<noteq> length bytes - FRWD_PREFIX) RMalformed (
     rbind (gc2_nested traffic now len bytes) (\<lambda>push.
     Inr \<lparr>gf_class = traffic, gf_target = target, gf_expiry = expiry, gf_nonce = arr_pad (sub_list bytes 60 76),
          gf_push = push\<rparr>))))))))"

section \<open>Sealing is canonical\<close>

lemma gc2_domain_not_Msg: "gc2_domain kind = Inr d \<Longrightarrow> kind \<noteq> Msg"
  by (auto simp: gc2_domain_def)

lemma gc2_seal_iff:
  "gc2_seal hmac kind key sid w = Inr c \<longleftrightarrow>
     (\<exists>d. gc2_domain kind = Inr d \<and> length w \<le> 16346
        \<and> c = \<lparr>n_kind = kind, n_flags = 0, n_payload = w @ list_of (hmac key (gc2_mac_input d kind sid w))\<rparr>)"
  using gc2_domain_not_Msg
  by (auto simp: gc2_seal_def gc2_mac_def natural_new_def Let_def gc2_consts map_err_def reject_def split: if_splits sum.splits)

lemma gc2_authenticate_iff:
  assumes "natural_ok c"
  shows "gc2_authenticate hmac c kind key sid = Inr w \<longleftrightarrow> gc2_seal hmac kind key sid w = Inr c"
proof
  have len: "length (n_payload c) \<le> 16378" using natural_ok_len [OF assms] by (simp add: gc2_consts)
  assume "gc2_authenticate hmac c kind key sid = Inr w"
  then obtain d where d: "gc2_domain kind = Inr d" and k: "n_kind c = kind" "n_flags c = 0" and l: "32 \<le> length (n_payload c)"
    and w: "w = take (length (n_payload c) - 32) (n_payload c)"
    and t: "list_of (hmac key (gc2_mac_input d kind sid w)) = drop (length w) (n_payload c)"
    by (auto simp: gc2_authenticate_def gc2_body_def gc2_mac_def GC2_TAG_LEN_def)
  have "length w = length (n_payload c) - 32" using w by simp
  then have "n_payload c = w @ drop (length w) (n_payload c)" by (simp add: w)
  with d k l w t len show "gc2_seal hmac kind key sid w = Inr c" unfolding gc2_seal_iff by (cases c) simp
next
  assume "gc2_seal hmac kind key sid w = Inr c"
  then show "gc2_authenticate hmac c kind key sid = Inr w"
    by (auto simp: gc2_seal_iff gc2_authenticate_def gc2_body_def gc2_mac_def GC2_TAG_LEN_def)
qed

lemma gc2_seal_ok: "gc2_seal hmac kind key sid w = Inr c \<Longrightarrow> natural_ok c"
  using gc2_domain_not_Msg by (auto simp: gc2_seal_iff natural_ok_def natural_new_def Let_def gc2_consts)

lemma gc2_class_iff: "gc2_class b = Inr t \<longleftrightarrow> b = traffic_byte t"
  by (cases t) (auto simp: gc2_class_def traffic_from_byte_def ok_or_def)

lemma gc2_live_iff: "gc2_live e now = Inr () \<longleftrightarrow> now < e"
  by (auto simp: gc2_live_def not_le)

section \<open>Deposits\<close>

text \<open>The inner cell, when there is one, is a message that \<open>NaturalCell::new\<close> built.\<close>

definition gp_ok :: "gc2_push \<Rightarrow> bool" where
  "gp_ok p \<longleftrightarrow> (\<forall>msg. gp_msg p = Some msg \<longrightarrow> natural_ok msg \<and> n_kind msg = Msg)"

definition inner_bytes :: "natural_cell option \<Rightarrow> bytes" where
  "inner_bytes m = (case m of None \<Rightarrow> [] | Some c \<Rightarrow> natural_encode c)"

definition gp_bytes :: "gc2_push \<Rightarrow> bytes" where
  "gp_bytes p =
     [traffic_byte (gp_class p)] @ list_of (gp_queue_id p) @ be64 (gp_epoch p) @ list_of (gp_nonce p)
     @ be64 (gp_expiry p) @ be16 (of_nat (length (inner_bytes (gp_msg p)))) @ inner_bytes (gp_msg p)"

lemma length_natural_encode [simp]: "length (natural_encode c) = 6 + length (n_payload c)"
  by (simp add: natural_encode_def)

lemma message_len: "natural_ok c \<Longrightarrow> n_kind c = Msg \<Longrightarrow> length (n_payload c) \<le> 15360"
  by (auto simp: natural_ok_def natural_new_def Let_def MAX_MESSAGE_def split: if_splits)

lemma gp_inner_len: "gp_ok p \<Longrightarrow> length (inner_bytes (gp_msg p)) \<le> 15366"
  using message_len by (auto simp: gp_ok_def inner_bytes_def split: option.splits)

lemma gp_bytes_parts:
  shows "gp_bytes p ! 0 = traffic_byte (gp_class p)" "length (gp_bytes p) = 67 + length (inner_bytes (gp_msg p))"
    "sub_list (gp_bytes p) 1 33 = list_of (gp_queue_id p)" "sub_list (gp_bytes p) 33 41 = be64 (gp_epoch p)"
    "sub_list (gp_bytes p) 41 57 = list_of (gp_nonce p)" "sub_list (gp_bytes p) 57 65 = be64 (gp_expiry p)"
    "sub_list (gp_bytes p) 65 67 = be16 (of_nat (length (inner_bytes (gp_msg p))))"
    "drop 67 (gp_bytes p) = inner_bytes (gp_msg p)"
  by (simp_all add: gp_bytes_def sub_list_def drop_Cons')

lemma split_head: "r = drop 1 w \<Longrightarrow> 1 \<le> length w \<Longrightarrow> [w ! 0] @ r = w"
  by (cases w) simp_all

lemma gc2_push_parse_iff: "gc2_push_parse w = Inr p \<longleftrightarrow> gp_ok p \<and> w = gp_bytes p"
proof
  assume P: "gc2_push_parse w = Inr p"
  let ?n = "unat (de16 (sub_list w 65 67))"
  from P obtain m t where w: "67 \<le> length w" "?n = length w - 67" and t: "w ! 0 = traffic_byte t"
    and m: "?n = 0 \<and> m = None \<or> ?n \<noteq> 0 \<and> (\<exists>c. natural_decode (drop 67 w) = Inr c \<and> n_kind c = Msg \<and> m = Some c)"
    and p: "p = \<lparr>gp_class = t, gp_queue_id = arr_pad (sub_list w 1 33), gp_epoch = de64 (sub_list w 33 41),
          gp_nonce = arr_pad (sub_list w 41 57), gp_expiry = de64 (sub_list w 57 65), gp_msg = m\<rparr>"
    by (auto simp: gc2_push_parse_def gc2_class_iff PUSH_PREFIX_def Let_def not_less split: if_splits)
  have i: "drop 67 w = inner_bytes m" using m w by (auto simp: inner_bytes_def natural_decode_iff)
  then have "length (inner_bytes m) = ?n" using w(2) by (metis length_drop)
  then have n: "be16 (of_nat (length (inner_bytes m))) = sub_list w 65 67" using w(1) by (simp add: be_de)
  have "gp_bytes p = [w ! 0] @ sub_list w 1 33 @ sub_list w 33 41 @ sub_list w 41 57 @ sub_list w 57 65 @ sub_list w 65 67 @ drop 67 w"
    using w(1) n by (simp add: gp_bytes_def p be_de t i)
  also have "\<dots> = w" by (rule split_head) (use w(1) in \<open>simp_all add: sub_list_drop del: One_nat_def\<close>)
  finally show "gp_ok p \<and> w = gp_bytes p" using m by (auto simp: gp_ok_def p natural_decode_iff)
next
  assume A: "gp_ok p \<and> w = gp_bytes p"
  then have l: "length (inner_bytes (gp_msg p)) \<le> 15366" using gp_inner_len by blast
  then have u: "unat (of_nat (length (inner_bytes (gp_msg p))) :: u16) = length (inner_bytes (gp_msg p))"
    by (intro unat_of_nat_u16) simp
  have "inner_bytes (gp_msg p) = [] \<longleftrightarrow> gp_msg p = None" by (auto simp: inner_bytes_def natural_encode_def split: option.splits)
  moreover have "natural_decode (inner_bytes (gp_msg p)) = Inr c \<and> n_kind c = Msg" if "gp_msg p = Some c" for c
    using that A by (simp add: gp_ok_def inner_bytes_def natural_decode_iff)
  ultimately show "gc2_push_parse w = Inr p"
    using A l u by (cases p; cases "gp_msg p") (auto simp: gc2_push_parse_def gp_bytes_parts gc2_consts gc2_class_iff Let_def simp del: One_nat_def)
qed

lemma gc2_push_encode_eq:
  "gp_ok p \<Longrightarrow> gc2_push_encode hmac cap sid p = gc2_seal hmac RelayPush cap sid (gp_bytes p)"
  by (auto simp: gc2_push_encode_def gp_ok_def gp_bytes_def inner_bytes_def split: option.splits)

lemma gc2_push_decode_iff:
  assumes "natural_ok c"
  shows "gc2_push_decode hmac cap sid now c = Inr p \<longleftrightarrow> now < gp_expiry p \<and> gp_ok p \<and> gc2_push_encode hmac cap sid p = Inr c"
  using gc2_authenticate_iff [OF assms]
  by (auto simp: gc2_push_decode_def gc2_push_parse_iff gc2_live_iff gc2_push_encode_eq)

lemma unverified_parse_iff:
  "unverified_parse c = Inr u \<longleftrightarrow> n_kind c = RelayPush \<and> n_flags c = 0 \<and> 32 \<le> length (n_payload c)
     \<and> (\<exists>p. gp_ok p \<and> take (length (n_payload c) - 32) (n_payload c) = gp_bytes p
          \<and> u = \<lparr>up_cell = c, up_class = gp_class p, up_queue_id = gp_queue_id p, up_epoch = gp_epoch p, up_expiry = gp_expiry p\<rparr>)"
  by (auto simp: unverified_parse_def gc2_body_def gc2_push_parse_iff GC2_TAG_LEN_def not_less)

section \<open>Subscriptions\<close>

definition gs_bytes :: "gc2_sub \<Rightarrow> bytes" where
  "gs_bytes s = [traffic_byte (gs_class s)] @ list_of (gs_queue_id s) @ be64 (gs_epoch s) @ be64 (gs_expiry s) @ list_of (gs_nonce s)"

lemma gs_bytes_parts:
  "gs_bytes s ! 0 = traffic_byte (gs_class s)" "length (gs_bytes s) = 65"
  "sub_list (gs_bytes s) 1 33 = list_of (gs_queue_id s)" "sub_list (gs_bytes s) 33 41 = be64 (gs_epoch s)"
  "sub_list (gs_bytes s) 41 49 = be64 (gs_expiry s)" "sub_list (gs_bytes s) 49 65 = list_of (gs_nonce s)"
  by (simp_all add: gs_bytes_def sub_list_def drop_Cons')

lemma gs_bytes_read:
  assumes "length w = 65" "w ! 0 = traffic_byte t"
  shows "gs_bytes \<lparr>gs_class = t, gs_queue_id = arr_pad (sub_list w 1 33), gs_epoch = de64 (sub_list w 33 41),
     gs_expiry = de64 (sub_list w 41 49), gs_nonce = arr_pad (sub_list w 49 65)\<rparr> = w"
proof -
  have "sub_list w 1 65 = drop 1 w" using assms by (simp add: sub_list_def)
  then have "[w ! 0] @ sub_list w 1 33 @ sub_list w 33 41 @ sub_list w 41 49 @ sub_list w 49 65 = w"
    by (intro split_head) (use assms in \<open>simp_all add: sub_list_join del: One_nat_def\<close>)
  then show ?thesis using assms by (simp add: gs_bytes_def be_de del: One_nat_def)
qed

lemma gc2_sub_decode_iff:
  assumes "natural_ok c"
  shows "gc2_sub_decode hmac cap sid now c = Inr s \<longleftrightarrow> now < gs_expiry s \<and> gc2_sub_encode hmac cap sid s = Inr c"
proof -
  have "gc2_sub_decode hmac cap sid now c = Inr s \<longleftrightarrow>
     now < gs_expiry s \<and> gc2_authenticate hmac c RelaySub cap sid = Inr (gs_bytes s)"
    by (auto simp: gc2_sub_decode_def gc2_class_iff gc2_live_iff SUB_PREFIX_def Let_def gs_bytes_parts gs_bytes_read simp del: One_nat_def
        intro!: exI [of _ "gs_class s"])
  then show ?thesis using gc2_authenticate_iff [OF assms] by (simp add: gc2_sub_encode_def gs_bytes_def)
qed

section \<open>Forwards\<close>

text \<open>The fields of \<open>UnverifiedPush\<close> are private: every value came out of \<open>parse\<close>.\<close>

definition up_ok :: "unverified_push \<Rightarrow> bool" where
  "up_ok u \<longleftrightarrow> natural_ok (up_cell u) \<and> unverified_parse (up_cell u) = Inr u"

definition gf_ok :: "gc2_forward \<Rightarrow> bool" where
  "gf_ok f \<longleftrightarrow> (\<forall>u. gf_push f = Some u \<longrightarrow> up_ok u \<and> up_class u = gf_class f)"

definition gf_live :: "u64 \<Rightarrow> gc2_forward \<Rightarrow> bool" where
  "gf_live now f \<longleftrightarrow> now < gf_expiry f \<and> (\<forall>u. gf_push f = Some u \<longrightarrow> now < up_expiry u)"

definition nested_bytes :: "gc2_forward \<Rightarrow> bytes" where
  "nested_bytes f = inner_bytes (map_option up_cell (gf_push f))"

definition gf_bytes :: "gc2_forward \<Rightarrow> bytes" where
  "gf_bytes f =
     [traffic_byte (gf_class f)] @ target_encode (gf_target f) @ be64 (gf_expiry f) @ list_of (gf_nonce f)
     @ be16 (of_nat (length (nested_bytes f))) @ nested_bytes f"

lemma up_cell_len:
  assumes "up_ok u"
  shows "length (n_payload (up_cell u)) \<le> 15465"
proof -
  obtain p where p: "gp_ok p" "take (length (n_payload (up_cell u)) - 32) (n_payload (up_cell u)) = gp_bytes p"
    using assms by (auto simp: up_ok_def unverified_parse_iff)
  then have "length (n_payload (up_cell u)) - 32 = 67 + length (inner_bytes (gp_msg p))"
    by (metis p(2) gp_bytes_parts(2) length_take min.absorb2 diff_le_self)
  then show ?thesis using gp_inner_len [of p] \<open>gp_ok p\<close> by simp
qed

lemma nested_len: "gf_ok f \<Longrightarrow> length (nested_bytes f) \<le> 15471"
  using up_cell_len by (auto simp: gf_ok_def nested_bytes_def inner_bytes_def split: option.splits)

lemma gf_bytes_parts:
  "gf_bytes f ! 0 = traffic_byte (gf_class f)" "length (gf_bytes f) = 78 + length (nested_bytes f)"
  "sub_list (gf_bytes f) 1 52 = target_encode (gf_target f)" "sub_list (gf_bytes f) 52 60 = be64 (gf_expiry f)"
  "sub_list (gf_bytes f) 60 76 = list_of (gf_nonce f)" "sub_list (gf_bytes f) 76 78 = be16 (of_nat (length (nested_bytes f)))"
  "drop 78 (gf_bytes f) = nested_bytes f"
  by (simp_all add: gf_bytes_def sub_list_def drop_Cons')

lemma gc2_forward_encode_iff:
  assumes "gf_ok f"
  shows "gc2_forward_encode hmac key sid policy f = Inr c \<longleftrightarrow>
    validate_frwd_target_with_policy (gf_target f) policy = Inr () \<and> gc2_seal hmac Frwd key sid (gf_bytes f) = Inr c"
  using assms by (auto simp: gc2_forward_encode_def gf_ok_def gf_bytes_def nested_bytes_def inner_bytes_def split: option.splits)

lemma gc2_nested_iff:
  assumes "len = length (drop 78 w)"
  shows "gc2_nested t now len w = Inr m \<longleftrightarrow>
    drop 78 w = inner_bytes (map_option up_cell m) \<and> (\<forall>u. m = Some u \<longrightarrow> up_ok u \<and> up_class u = t \<and> now < up_expiry u)"
proof -
  have "up_cell v = c" if "unverified_parse c = Inr v" for c v using that by (auto simp: unverified_parse_iff)
  with assms show ?thesis
    by (cases m; cases "drop 78 w = []")
       (auto simp: gc2_nested_def FRWD_PREFIX_def inner_bytes_def natural_decode_iff up_ok_def gc2_live_iff natural_encode_def)
qed

lemma gf_bytes_read:
  assumes "78 \<le> length w" "w ! 0 = traffic_byte t" "target_decode (sub_list w 1 52) = Inr target"
    and "unat (de16 (sub_list w 76 78)) = length w - 78" "drop 78 w = inner_bytes (map_option up_cell m)"
  shows "gf_bytes \<lparr>gf_class = t, gf_target = target, gf_expiry = de64 (sub_list w 52 60), gf_nonce = arr_pad (sub_list w 60 76), gf_push = m\<rparr> = w"
proof -
  have "length (inner_bytes (map_option up_cell m)) = unat (de16 (sub_list w 76 78))" using assms(4,5) by (metis length_drop)
  then have n: "be16 (of_nat (length (inner_bytes (map_option up_cell m)))) = sub_list w 76 78" using assms(1) by (simp add: be_de)
  have "[w ! 0] @ sub_list w 1 52 @ sub_list w 52 60 @ sub_list w 60 76 @ sub_list w 76 78 @ drop 78 w = w"
    by (rule split_head) (use assms(1) in \<open>simp_all add: sub_list_drop del: One_nat_def\<close>)
  then show ?thesis using assms n by (simp add: gf_bytes_def nested_bytes_def target_decode_iff be_de del: One_nat_def)
qed

lemma gc2_forward_read:
  "gc2_forward_decode hmac key sid now policy c = Inr f \<longleftrightarrow> gf_live now f \<and> gf_ok f
     \<and> validate_frwd_target_with_policy (gf_target f) policy = Inr () \<and> gc2_authenticate hmac c Frwd key sid = Inr (gf_bytes f)"
  (is "?D \<longleftrightarrow> ?E")
proof
  assume ?D
  then obtain w t target m where w: "gc2_authenticate hmac c Frwd key sid = Inr w" "78 \<le> length w" "w ! 0 = traffic_byte t"
    "target_decode (sub_list w 1 52) = Inr target" "validate_frwd_target_with_policy target policy = Inr ()"
    "now < de64 (sub_list w 52 60)" "unat (de16 (sub_list w 76 78)) = length w - 78"
    and m: "drop 78 w = inner_bytes (map_option up_cell m)" "\<forall>u. m = Some u \<longrightarrow> up_ok u \<and> up_class u = t \<and> now < up_expiry u"
    and f: "f = \<lparr>gf_class = t, gf_target = target, gf_expiry = de64 (sub_list w 52 60), gf_nonce = arr_pad (sub_list w 60 76), gf_push = m\<rparr>"
    by (auto simp: gc2_forward_decode_def FRWD_PREFIX_def TARGET_LEN_def Let_def gc2_class_iff gc2_live_iff not_less gc2_nested_iff
        simp del: One_nat_def)
  from gf_bytes_read [OF w(2,3,4,7) m(1)] w m f show ?E by (simp add: gf_live_def gf_ok_def)
next
  assume E: ?E
  let ?w = "gf_bytes f"
  have u: "unat (of_nat (length (nested_bytes f)) :: u16) = length (nested_bytes f)"
    using nested_len [of f] E by (intro unat_of_nat_u16) simp
  have n: "gc2_nested (gf_class f) now (length (nested_bytes f)) ?w = Inr (gf_push f)"
    using E by (subst gc2_nested_iff) (simp_all add: gf_bytes_parts nested_bytes_def gf_ok_def gf_live_def)
  have "gc2_class (traffic_byte (gf_class f)) = Inr (gf_class f)" "gc2_live (gf_expiry f) now = Inr ()"
    using E by (simp_all add: gc2_class_iff gc2_live_iff gf_live_def)
  with E u n show ?D
    by (simp add: gc2_forward_decode_def FRWD_PREFIX_def TARGET_LEN_def gf_bytes_parts target_decode_encode Let_def del: One_nat_def)
qed

lemma gc2_forward_decode_iff:
  assumes "natural_ok c"
  shows "gc2_forward_decode hmac key sid now policy c = Inr f \<longleftrightarrow> gf_live now f \<and> gf_ok f \<and> gc2_forward_encode hmac key sid policy f = Inr c"
  using gc2_authenticate_iff [OF assms] gc2_forward_encode_iff by (auto simp: gc2_forward_read)

section \<open>What a tag binds\<close>

lemma gc2_domain_distinct:
  assumes "gc2_domain k = Inr d" "gc2_domain k' = Inr d'" "d @ r = d' @ r'"
  shows "k = k'"
  using assms by (auto simp: gc2_domain_def lit_def split: cell_type.splits)

lemma gc2_mac_input_inject:
  assumes "gc2_domain k = Inr d" "gc2_domain k' = Inr d'" "gc2_mac_input d k sid w = gc2_mac_input d' k' sid' w'"
  shows "k = k' \<and> sid = sid' \<and> w = w'"
proof -
  have "k = k'" using gc2_domain_distinct [OF assms(1,2)] assms(3) by (auto simp: gc2_mac_input_def)
  with assms show ?thesis by (auto simp: gc2_mac_input_def)
qed

lemma gc2_inputs_not_gc1:
  assumes "gc2_domain kind = Inr d"
  shows "gc2_mac_input d kind sid w \<noteq> push_tag_input sid' p" "gc2_mac_input d kind sid w \<noteq> sub_tag_input sid' s"
    "gc2_mac_input d kind sid w \<noteq> frwd_tag_input sid' f"
  using assms
  by (auto simp: gc2_mac_input_def gc2_domain_def push_tag_input_def push_mac_input_def sub_tag_input_def frwd_tag_input_def
      frwd_mac_input_def Let_def RELAY_PUSH_DOMAIN_def RELAY_SUB_DOMAIN_def FRWD_DOMAIN_def lit_def split: cell_type.splits prod.splits)

section \<open>Properties\<close>

text \<open>
  C28 (roundtrip): GC/2 relay envelopes are canonical and only authenticated live ones are accepted.
  For every natural cell, each decoder returns a value exactly when the cell is the encoder's output
  for that value under the same key and service identity, the value (with a forward's nested deposit)
  has not expired, the inner cell is a message that \<open>NaturalCell::new\<close> would build, and a nested
  deposit is well formed and of the forward's own traffic class; the target of a forward is permitted.
\<close>

theorem gc2_relay_canonical:
  assumes "natural_ok c"
  shows "(gc2_push_decode hmac key sid now c = Inr p \<longleftrightarrow> now < gp_expiry p \<and> gp_ok p \<and> gc2_push_encode hmac key sid p = Inr c)
    \<and> (gc2_sub_decode hmac key sid now c = Inr s \<longleftrightarrow> now < gs_expiry s \<and> gc2_sub_encode hmac key sid s = Inr c)
    \<and> (gc2_forward_decode hmac key sid now policy c = Inr f \<longleftrightarrow>
         gf_live now f \<and> gf_ok f \<and> gc2_forward_encode hmac key sid policy f = Inr c)"
  using gc2_push_decode_iff [OF assms] gc2_sub_decode_iff [OF assms] gc2_forward_decode_iff [OF assms] by blast

definition demo_gc2_push :: gc2_push where
  "demo_gc2_push = \<lparr>gp_class = Bulk, gp_queue_id = arr_fill 1, gp_epoch = 7, gp_nonce = arr_fill 2, gp_expiry = 200,
     gp_msg = Some \<lparr>n_kind = Msg, n_flags = 0, n_payload = [42]\<rparr>\<rparr>"

definition demo_gc2_cell :: natural_cell where
  "demo_gc2_cell = \<lparr>n_kind = RelayPush, n_flags = 0, n_payload = gp_bytes demo_gc2_push @ replicate 32 5\<rparr>"

theorem gc2_relay_canonical_witness:
  "gc2_push_decode (\<lambda>_ _. arr_fill 5) (arr_fill 3) (arr_fill 4) 100 demo_gc2_cell = Inr demo_gc2_push"
proof -
  have ok: "natural_ok demo_gc2_cell" "gp_ok demo_gc2_push"
    and enc: "gc2_push_encode (\<lambda>_ _. arr_fill 5) (arr_fill 3) (arr_fill 4) demo_gc2_push = Inr demo_gc2_cell"
    by (auto simp: natural_ok_def natural_new_def Let_def demo_gc2_cell_def demo_gc2_push_def gp_ok_def gp_bytes_def inner_bytes_def
        gc2_consts natural_encode_def gc2_push_encode_def gc2_seal_iff gc2_domain_def list_of_arr_fill reject_def)
  have "(100 :: u64) < gp_expiry demo_gc2_push" by (simp add: demo_gc2_push_def)
  with gc2_relay_canonical [OF ok(1), of "\<lambda>_ _. arr_fill 5" "arr_fill 3" "arr_fill 4" 100 demo_gc2_push] ok(2) enc show ?thesis by blast
qed

text \<open>
  C33 (safety): a GC/2 tag binds the whole envelope, the target address included. Let a relay with
  identity \<open>sid\<close> accept a cell as one kind of envelope with one payload, and a relay with identity
  \<open>sid'\<close> accept a cell as any kind with any payload under the same key. The two tags are the HMAC of
  inputs that are equal exactly when kind, identity and payload are the same. So if the cells carry
  the same tag, then kind, identity and payload are the same, or these very inputs are two different
  ones on which the key's HMAC collides. No input of a GC/2 tag is an input of a GC/1 tag.
\<close>

theorem gc2_tag_binds_envelope:
  assumes "gc2_authenticate hmac c kind key sid = Inr w" and "gc2_authenticate hmac c' kind' key sid' = Inr w'"
  shows "\<exists>d d'. gc2_domain kind = Inr d \<and> gc2_domain kind' = Inr d'
    \<and> drop (length w) (n_payload c) = list_of (hmac key (gc2_mac_input d kind sid w))
    \<and> drop (length w') (n_payload c') = list_of (hmac key (gc2_mac_input d' kind' sid' w'))
    \<and> (gc2_mac_input d kind sid w = gc2_mac_input d' kind' sid' w' \<longleftrightarrow> kind = kind' \<and> sid = sid' \<and> w = w')
    \<and> (drop (length w) (n_payload c) = drop (length w') (n_payload c') \<longrightarrow>
         kind = kind' \<and> sid = sid' \<and> w = w'
         \<or> gc2_mac_input d kind sid w \<noteq> gc2_mac_input d' kind' sid' w'
            \<and> hmac key (gc2_mac_input d kind sid w) = hmac key (gc2_mac_input d' kind' sid' w'))
    \<and> (\<forall>s p q f. gc2_mac_input d kind sid w \<notin> {push_tag_input s p, sub_tag_input s q, frwd_tag_input s f})"
proof -
  obtain d where d: "gc2_domain kind = Inr d" "drop (length w) (n_payload c) = list_of (hmac key (gc2_mac_input d kind sid w))"
    using assms(1) by (auto simp: gc2_authenticate_def gc2_mac_def)
  obtain d' where d': "gc2_domain kind' = Inr d'" "drop (length w') (n_payload c') = list_of (hmac key (gc2_mac_input d' kind' sid' w'))"
    using assms(2) by (auto simp: gc2_authenticate_def gc2_mac_def)
  have same: "gc2_mac_input d kind sid w = gc2_mac_input d' kind' sid' w' \<longleftrightarrow> kind = kind' \<and> sid = sid' \<and> w = w'"
    using gc2_mac_input_inject [OF d(1) d'(1)] d(1) d'(1) by auto
  have "\<forall>s p q f. gc2_mac_input d kind sid w \<notin> {push_tag_input s p, sub_tag_input s q, frwd_tag_input s f}"
    using gc2_inputs_not_gc1 [OF d(1)] by simp
  with same d d' show ?thesis by (metis list_of_inj)
qed

theorem gc2_tag_binds_envelope_witness:
  "gc2_authenticate (\<lambda>_ _. arr_fill 5) demo_gc2_cell RelayPush (arr_fill 3) (arr_fill 4) = Inr (gp_bytes demo_gc2_push)
   \<and> (\<exists>d. gc2_domain RelayPush = Inr d
        \<and> (\<forall>s p. gc2_mac_input d RelayPush (arr_fill 4) (gp_bytes demo_gc2_push) \<noteq> push_tag_input s p))"
proof -
  have a: "gc2_authenticate (\<lambda>_ _. arr_fill 5) demo_gc2_cell RelayPush (arr_fill 3) (arr_fill 4) = Inr (gp_bytes demo_gc2_push)"
    by (simp add: gc2_authenticate_def gc2_body_def gc2_mac_def gc2_domain_def demo_gc2_cell_def GC2_TAG_LEN_def list_of_arr_fill)
  from gc2_tag_binds_envelope [OF a a] a show ?thesis by blast
qed

end
