(* ===== verification/Lease_Store.thy ===== *)
theory Lease_Store
  imports Leases Relay_Gc2 Coverage "HOL-Library.AList"
begin

text \<open>
  The relay's lease store, \<open>crates/node/src/queues.rs\<close> and \<open>queues/gc2.rs\<close> (feature
  \<open>experimental-gc2\<close> on, push notifications and their gateway off): admission grants, leases with their replay
  history, and the bounded queues of deposited messages. A \<open>HashMap\<close> is an association list with
  distinct keys. HMAC-SHA-256 and SHA-256 are the parameters \<open>hmac\<close> and \<open>sha\<close>, the operating
  system generator is \<open>fill\<close> with its own state. The identity of a queue's incarnation (an \<open>Arc\<close>
  compared by address) is a number supplied when the queue is created. Wake-ups of waiting
  subscribers carry no data and are not modelled. A violated \<open>expect\<close> is the error \<open>StPanic\<close>.
\<close>

section \<open>Configuration and data\<close>

definition DEFAULT_QUEUE_CELLS :: u16 where "DEFAULT_QUEUE_CELLS = 1024"
definition DEFAULT_QUEUE_BYTES :: u64 where "DEFAULT_QUEUE_BYTES = 16 * 1024 * 1024"
definition DEFAULT_MAX_GRANTS :: nat where "DEFAULT_MAX_GRANTS = 1024"
definition DEFAULT_MAX_QUEUES :: nat where "DEFAULT_MAX_QUEUES = 1024"
definition DEFAULT_MAX_REPLAY_NONCES :: nat where "DEFAULT_MAX_REPLAY_NONCES = 4096"
definition DEFAULT_MAX_SUBSCRIPTION_NONCES :: nat where "DEFAULT_MAX_SUBSCRIPTION_NONCES = 4096"
definition DEFAULT_MAX_TOTAL_QUEUE_BYTES :: u64 where "DEFAULT_MAX_TOTAL_QUEUE_BYTES = 256 * 1024 * 1024"
definition DEFAULT_GRANT_LIFETIME_SECS :: u64 where "DEFAULT_GRANT_LIFETIME_SECS = 300"
definition DEFAULT_MAX_LEASE_LIFETIME_SECS :: u64 where "DEFAULT_MAX_LEASE_LIFETIME_SECS = 24 * 60 * 60"
definition DEFAULT_DYNAMIC_GRANTS_PER_MINUTE :: nat where "DEFAULT_DYNAMIC_GRANTS_PER_MINUTE = 16"

record store_config =
  sc_max_grants :: nat
  sc_max_queues :: nat
  sc_max_replay_nonces_per_lease :: nat
  sc_max_subscription_nonces_per_lease :: nat
  sc_max_total_queue_bytes :: u64
  sc_relay_limits :: lease_limits
  sc_grant_lifetime_secs :: u64
  sc_max_lease_lifetime_secs :: u64
  sc_clock_skew_secs :: u64
  sc_dynamic_grants_per_minute :: nat

definition store_config_default :: store_config where
  "store_config_default =
     \<lparr>sc_max_grants = DEFAULT_MAX_GRANTS, sc_max_queues = DEFAULT_MAX_QUEUES,
      sc_max_replay_nonces_per_lease = DEFAULT_MAX_REPLAY_NONCES,
      sc_max_subscription_nonces_per_lease = DEFAULT_MAX_SUBSCRIPTION_NONCES,
      sc_max_total_queue_bytes = DEFAULT_MAX_TOTAL_QUEUE_BYTES,
      sc_relay_limits = \<lparr>ll_max_queue_cells = DEFAULT_QUEUE_CELLS, ll_max_queue_bytes = DEFAULT_QUEUE_BYTES\<rparr>,
      sc_grant_lifetime_secs = DEFAULT_GRANT_LIFETIME_SECS, sc_max_lease_lifetime_secs = DEFAULT_MAX_LEASE_LIFETIME_SECS,
      sc_clock_skew_secs = 0, sc_dynamic_grants_per_minute = DEFAULT_DYNAMIC_GRANTS_PER_MINUTE\<rparr>"

record store_request =
  sr_queue_id :: "32 arr"
  sr_epoch :: u64
  sr_limits :: lease_limits

record admission_provision =
  ap_grant :: admission_grant
  ap_wire :: bytes

datatype push_outcome = Enqueued | Duplicate | Cover
datatype ack_outcome = Removed | Mismatch | AckEmpty

record lease_view =
  lw_queue_id :: "32 arr"
  lw_epoch :: u64
  lw_expiry :: u64
  lw_limits :: lease_limits

record queued_message =
  qm_push_nonce :: "16 arr"
  qm_cell :: cell

record natural_message =
  nm_push_nonce :: "16 arr"
  nm_cell :: natural_cell

datatype store_error =
    StInvalidConfig | StCapacity | StQueueFull | StReplayCapacity | StUnauthorized | StGrantConsumed | StReplay
  | StLease lease_error | StRelay relay_error | StPanic

datatype grant_status = Unconsumed | Consumed

record grant_record =
  gt_queue_id :: "32 arr"
  gt_epoch :: u64
  gt_expiry :: u64
  gt_status :: grant_status
  gt_temporary_expiry :: "u64 option"

datatype replay_operation = OpCreate | OpRenew | OpSubscribe | OpPush | OpGrant

record replay_record =
  rr_epoch :: u64
  rr_operation :: replay_operation
  rr_nonce :: "16 arr"
  rr_expiry :: u64
  rr_gc2_push_binding :: "32 arr option"

record lease_record =
  lr_create_digest :: "32 arr"
  lr_queue_id :: "32 arr"
  lr_epoch :: u64
  lr_expiry :: u64
  lr_limits :: lease_limits
  lr_capabilities :: capabilities
  lr_replay :: "replay_record list"
  lr_next_replay_expiry :: "u64 option"
  lr_dynamic_grants :: "u64 list"
  lr_temporary_expiry :: "u64 option"

record queue =
  q_bytes :: u64
  q_messages :: "queued_message list"
  q_interactive :: "natural_message list"
  q_bulk :: "natural_message list"
  q_generation :: nat

record queue_store =
  qs_max_queues :: nat
  qs_queues :: "(32 arr \<times> queue) list"
  qs_total_bytes :: u64

record lease_store =
  ls_relay_service_id :: "32 arr"
  ls_admission_key :: "32 arr"
  ls_config :: store_config
  ls_grants :: "(16 arr \<times> grant_record) list"
  ls_leases :: "(32 arr \<times> lease_record) list"
  ls_queues :: queue_store

section \<open>Lease records\<close>

definition lease_record_view :: "lease_record \<Rightarrow> lease_view" where
  "lease_record_view l = \<lparr>lw_queue_id = lr_queue_id l, lw_epoch = lr_epoch l, lw_expiry = lr_expiry l, lw_limits = lr_limits l\<rparr>"

text \<open>\<open>iter().map(expiry).min()\<close>.\<close>

definition min_expiry :: "replay_record list \<Rightarrow> u64 option" where
  "min_expiry rs = (if rs = [] then None else Some (Min (rr_expiry ` set rs)))"

definition purge_replay :: "u64 \<Rightarrow> lease_record \<Rightarrow> lease_record" where
  "purge_replay now_unix l =
     (if (case lr_next_replay_expiry l of None \<Rightarrow> True | Some expiry \<Rightarrow> now_unix < expiry) then l
      else let replay = filter (\<lambda>r. now_unix < rr_expiry r) (lr_replay l)
           in l\<lparr>lr_replay := replay, lr_next_replay_expiry := min_expiry replay\<rparr>)"

definition has_replay :: "lease_record \<Rightarrow> u64 \<Rightarrow> replay_operation \<Rightarrow> 16 arr \<Rightarrow> bool" where
  "has_replay l epoch operation nonce \<longleftrightarrow>
     list_ex (\<lambda>r. rr_epoch r = epoch \<and> rr_operation r = operation \<and> rr_nonce r = nonce) (lr_replay l)"

definition replay_count :: "lease_record \<Rightarrow> replay_operation \<Rightarrow> nat" where
  "replay_count l operation = length (filter (\<lambda>r. rr_operation r = operation) (lr_replay l))"

definition record_replay ::
  "u64 \<Rightarrow> replay_operation \<Rightarrow> 16 arr \<Rightarrow> u64 \<Rightarrow> nat \<Rightarrow> lease_record \<Rightarrow> store_error + lease_record" where
  "record_replay epoch operation nonce expiry max_replay_nonces l =
     reject (max_replay_nonces \<le> replay_count l operation) StReplayCapacity
       (Inr (l\<lparr>lr_replay := lr_replay l @ [\<lparr>rr_epoch = epoch, rr_operation = operation, rr_nonce = nonce,
                  rr_expiry = expiry, rr_gc2_push_binding = None\<rparr>],
              lr_next_replay_expiry :=
                Some (case lr_next_replay_expiry l of None \<Rightarrow> expiry | Some old \<Rightarrow> min old expiry)\<rparr>))"

definition record_gc2_push ::
  "u64 \<Rightarrow> 16 arr \<Rightarrow> u64 \<Rightarrow> 32 arr \<Rightarrow> nat \<Rightarrow> lease_record \<Rightarrow> store_error + lease_record" where
  "record_gc2_push epoch nonce expiry binding max_replay l =
     rbind (record_replay epoch OpPush nonce expiry max_replay l) (\<lambda>l.
     Inr (l\<lparr>lr_replay := butlast (lr_replay l) @ [(last (lr_replay l))\<lparr>rr_gc2_push_binding := Some binding\<rparr>]\<rparr>))"

section \<open>Queues\<close>

definition queue_len_of :: "queue \<Rightarrow> nat" where
  "queue_len_of q = length (q_messages q) + (length (q_interactive q) + length (q_bulk q))"

definition class_messages :: "traffic_class \<Rightarrow> queue \<Rightarrow> natural_message list" where
  "class_messages t q = (case t of Interactive \<Rightarrow> q_interactive q | Bulk \<Rightarrow> q_bulk q)"

definition set_class_messages :: "traffic_class \<Rightarrow> natural_message list \<Rightarrow> queue \<Rightarrow> queue" where
  "set_class_messages t ms q = (case t of Interactive \<Rightarrow> q\<lparr>q_interactive := ms\<rparr> | Bulk \<Rightarrow> q\<lparr>q_bulk := ms\<rparr>)"

definition queue_store_new :: "nat \<Rightarrow> queue_store" where
  "queue_store_new max_queues = \<lparr>qs_max_queues = max_queues, qs_queues = [], qs_total_bytes = 0\<rparr>"

definition qs_remove :: "32 arr \<Rightarrow> queue_store \<Rightarrow> queue_store" where
  "qs_remove queue_id qs =
     (case map_of (qs_queues qs) queue_id of
        None \<Rightarrow> qs
      | Some q \<Rightarrow> qs\<lparr>qs_queues := AList.delete queue_id (qs_queues qs),
                     qs_total_bytes := saturating_sub (qs_total_bytes qs) (q_bytes q)\<rparr>)"

definition qs_create :: "32 arr \<Rightarrow> nat \<Rightarrow> queue_store \<Rightarrow> store_error + queue_store" where
  "qs_create queue_id generation qs =
     reject (qs_max_queues qs \<le> length (qs_queues qs) \<or> map_of (qs_queues qs) queue_id \<noteq> None) StCapacity
       (Inr (qs\<lparr>qs_queues := AList.update queue_id
          \<lparr>q_bytes = 0, q_messages = [], q_interactive = [], q_bulk = [], q_generation = generation\<rparr> (qs_queues qs)\<rparr>))"

definition natural_cell_len :: "cell \<Rightarrow> u64" where
  "natural_cell_len c = of_nat HEADER_LEN + of_nat (length (c_payload c))"

definition natural_cell_len_checked :: "cell \<Rightarrow> store_error + u64" where
  "natural_cell_len_checked msg =
     reject (65535 < length (c_payload msg)) (StRelay CellTooLarge) (Inr (natural_cell_len msg))"

definition require_binding :: "lease_record \<Rightarrow> 32 arr \<Rightarrow> u64 \<Rightarrow> store_error + unit" where
  "require_binding l queue_id epoch =
     (if lr_queue_id l \<noteq> queue_id \<or> lr_epoch l \<noteq> epoch then Inl StUnauthorized else Inr ())"

definition short_queue_id :: "bytes \<Rightarrow> store_error + 32 arr" where
  "short_queue_id wire = rbind (ok_or StUnauthorized (get_range wire 2 34)) (\<lambda>bs. ok_or StUnauthorized (arr_try bs))"

section \<open>The store\<close>

definition put_lease :: "32 arr \<Rightarrow> lease_record \<Rightarrow> lease_store \<Rightarrow> lease_store" where
  "put_lease queue_id l st = st\<lparr>ls_leases := AList.update queue_id l (ls_leases st)\<rparr>"

definition put_queue :: "32 arr \<Rightarrow> queue \<Rightarrow> u64 \<Rightarrow> lease_store \<Rightarrow> lease_store" where
  "put_queue queue_id q bytes st =
     st\<lparr>ls_queues := (ls_queues st)\<lparr>qs_queues := AList.update queue_id q (qs_queues (ls_queues st)), qs_total_bytes := bytes\<rparr>\<rparr>"

definition remove_lease :: "32 arr \<Rightarrow> lease_store \<Rightarrow> lease_store" where
  "remove_lease queue_id st =
     st\<lparr>ls_leases := AList.delete queue_id (ls_leases st), ls_queues := qs_remove queue_id (ls_queues st)\<rparr>"

definition cleanup_expired :: "u64 \<Rightarrow> lease_store \<Rightarrow> lease_store" where
  "cleanup_expired now_unix st =
     (let st = st\<lparr>ls_grants := filter (\<lambda>(_, grant). now_unix < gt_expiry grant) (ls_grants st)\<rparr>;
          expired = map fst (filter (\<lambda>(_, lease). lr_expiry lease \<le> now_unix) (ls_leases st));
          st = fold remove_lease expired st
      in st\<lparr>ls_leases := map (\<lambda>(q, lease). (q, purge_replay now_unix lease)) (ls_leases st)\<rparr>)"

definition store_policy :: "lease_store \<Rightarrow> u64 \<Rightarrow> u64 \<Rightarrow> store_error + validation_policy" where
  "store_policy st now_unix horizon_secs =
     rbind (ok_or StInvalidConfig (checked_add now_unix horizon_secs)) (\<lambda>max_expiry_unix.
     map_err StLease (validation_policy_new now_unix (sc_clock_skew_secs (ls_config st)) max_expiry_unix))"

text \<open>A loop that fills a buffer from the generator until it is acceptable; it need not end.\<close>

partial_function (option) draw :: "('h \<Rightarrow> bytes \<times> 'h) \<Rightarrow> (bytes \<Rightarrow> bool) \<Rightarrow> 'h \<Rightarrow> (bytes \<times> 'h) option" where
  "draw fill ok h = (case fill h of (bs, h') \<Rightarrow> if ok bs then Some (bs, h') else draw fill ok h')"

definition lease_store_new ::
  "(nat \<Rightarrow> 'h \<Rightarrow> bytes \<times> 'h) \<Rightarrow> 32 arr \<Rightarrow> store_config \<Rightarrow> 'h \<Rightarrow> ((store_error + lease_store) \<times> 'h) option" where
  "lease_store_new fill relay_service_id config h =
     (if sc_max_grants config = 0 \<or> sc_max_queues config = 0 \<or> sc_max_replay_nonces_per_lease config = 0
        \<or> sc_max_subscription_nonces_per_lease config = 0 \<or> sc_max_total_queue_bytes config = 0
        \<or> ll_max_queue_cells (sc_relay_limits config) = 0 \<or> ll_max_queue_bytes (sc_relay_limits config) = 0
        \<or> sc_grant_lifetime_secs config = 0 \<or> sc_max_lease_lifetime_secs config = 0
        \<or> sc_dynamic_grants_per_minute config = 0
      then Some (Inl StInvalidConfig, h)
      else case validation_policy_new 0 (sc_clock_skew_secs config) (- 1) of
        Inl e \<Rightarrow> Some (Inl (StLease e), h)
      | Inr _ \<Rightarrow>
          Option.bind (draw (fill 32) (\<lambda>bs. (arr_pad bs :: 32 arr) \<noteq> arr_fill 0) h) (\<lambda>(admission_key, h).
          Some (Inr \<lparr>ls_relay_service_id = relay_service_id, ls_admission_key = arr_pad admission_key, ls_config = config,
                     ls_grants = [], ls_leases = [], ls_queues = queue_store_new (sc_max_queues config)\<rparr>, h)))"

section \<open>Admission\<close>

text \<open>The last part of \<open>issue_grant_with_bound\<close>, once identity and capability are drawn.\<close>

definition admit_grant ::
  "mac_fn \<Rightarrow> store_request \<Rightarrow> u64 \<Rightarrow> u64 option \<Rightarrow> u64 \<Rightarrow> 16 arr \<Rightarrow> 32 arr \<Rightarrow> lease_store
   \<Rightarrow> (store_error + admission_provision) \<times> lease_store" where
  "admit_grant hmac request now_unix temporary_expiry expiry grant_id grant_cap st =
     (let grant = \<lparr>ag_relay_service_id = ls_relay_service_id st, ag_grant_id = grant_id, ag_grant_cap = grant_cap,
            ag_queue_id = sr_queue_id request, ag_epoch = sr_epoch request, ag_not_before = now_unix, ag_expiry = expiry,
            ag_max_queue_cells = ll_max_queue_cells (sr_limits request),
            ag_max_queue_bytes = ll_max_queue_bytes (sr_limits request)\<rparr>
      in case rbind (store_policy st now_unix (sc_grant_lifetime_secs (ls_config st))) (\<lambda>policy.
              map_err StLease (grant_validate policy grant)) of
           Inl e \<Rightarrow> (Inl e, st)
         | Inr _ \<Rightarrow>
             (Inr \<lparr>ap_grant = grant, ap_wire = grant_encode hmac (ls_admission_key st) grant\<rparr>,
              st\<lparr>ls_grants := AList.update grant_id
                \<lparr>gt_queue_id = sr_queue_id request, gt_epoch = sr_epoch request, gt_expiry = expiry,
                 gt_status = Unconsumed, gt_temporary_expiry = temporary_expiry\<rparr> (ls_grants st)\<rparr>))"

definition issue_grant_with_bound ::
  "mac_fn \<Rightarrow> (nat \<Rightarrow> 'h \<Rightarrow> bytes \<times> 'h) \<Rightarrow> store_request \<Rightarrow> u64 \<Rightarrow> u64 option \<Rightarrow> 'h \<Rightarrow> lease_store
   \<Rightarrow> ((store_error + admission_provision) \<times> lease_store \<times> 'h) option" where
  "issue_grant_with_bound hmac fill request now_unix temporary_expiry h st =
     (let st = cleanup_expired now_unix st; config = ls_config st in
      if sc_max_grants config \<le> length (ls_grants st)
        \<or> ll_max_queue_cells (sc_relay_limits config) < ll_max_queue_cells (sr_limits request)
        \<or> ll_max_queue_bytes (sc_relay_limits config) < ll_max_queue_bytes (sr_limits request)
        \<or> ll_max_queue_cells (sr_limits request) = 0 \<or> ll_max_queue_bytes (sr_limits request) = 0
      then Some (Inl StCapacity, st, h)
      else case checked_add now_unix (sc_grant_lifetime_secs config) of
        None \<Rightarrow> Some (Inl StInvalidConfig, st, h)
      | Some expiry \<Rightarrow>
          Option.bind (draw (fill 16) (\<lambda>bs. (arr_pad bs :: 16 arr) \<noteq> arr_fill 0 \<and> map_of (ls_grants st) (arr_pad bs) = None) h) (\<lambda>(id, h).
          Option.bind (draw (fill 32) (\<lambda>bs. (arr_pad bs :: 32 arr) \<noteq> arr_fill 0 \<and> arr_pad bs \<noteq> sr_queue_id request
              \<and> take 16 (list_of (arr_pad bs :: 32 arr)) \<noteq> list_of (arr_pad id :: 16 arr)) h) (\<lambda>(cap, h).
          (case admit_grant hmac request now_unix temporary_expiry expiry (arr_pad id) (arr_pad cap) st of (r, st) \<Rightarrow> Some (r, st, h)))))"

definition issue_grant ::
  "mac_fn \<Rightarrow> (nat \<Rightarrow> 'h \<Rightarrow> bytes \<times> 'h) \<Rightarrow> store_request \<Rightarrow> u64 \<Rightarrow> 'h \<Rightarrow> lease_store
   \<Rightarrow> ((store_error + admission_provision) \<times> lease_store \<times> 'h) option" where
  "issue_grant hmac fill request now_unix h st = issue_grant_with_bound hmac fill request now_unix None h st"

definition issue_temporary_grant ::
  "mac_fn \<Rightarrow> (nat \<Rightarrow> 'h \<Rightarrow> bytes \<times> 'h) \<Rightarrow> store_request \<Rightarrow> u64 \<Rightarrow> u64 \<Rightarrow> 'h \<Rightarrow> lease_store
   \<Rightarrow> ((store_error + admission_provision) \<times> lease_store \<times> 'h) option" where
  "issue_temporary_grant hmac fill request now_unix expires_at h st =
     (if expires_at \<le> now_unix \<or> sat_add now_unix (sc_max_lease_lifetime_secs (ls_config st)) < expires_at
      then Some (Inl StUnauthorized, st, h)
      else issue_grant_with_bound hmac fill request now_unix (Some expires_at) h st)"

text \<open>The second half of \<open>create_lease\<close>: an operation that is no replay of the live lease.\<close>

definition create_from_grant ::
  "32 arr \<Rightarrow> nat \<Rightarrow> lease_create \<Rightarrow> u64 \<Rightarrow> lease_store \<Rightarrow> (store_error + lease_view) \<times> lease_store" where
  "create_from_grant create_digest generation create now_unix st =
     (let grant_id = (arr_pad (sub_list (list_of (lc_grant create)) 33 49) :: 16 arr) in
      case map_of (ls_grants st) grant_id of
        None \<Rightarrow> (Inl StUnauthorized, st)
      | Some grant \<Rightarrow>
          if gt_status grant = Consumed then (Inl StGrantConsumed, st)
          else if gt_queue_id grant \<noteq> lc_queue_id create \<or> gt_epoch grant \<noteq> lc_epoch create \<or> gt_expiry grant \<le> now_unix
            \<or> (case gt_temporary_expiry grant of None \<Rightarrow> False | Some expiry \<Rightarrow> expiry < lc_lease_expiry create)
            \<or> map_of (ls_leases st) (lc_queue_id create) \<noteq> None
          then (Inl StUnauthorized, st)
          else case qs_create (lc_queue_id create) generation (ls_queues st) of
            Inl e \<Rightarrow> (Inl e, st)
          | Inr queues \<Rightarrow>
              let lease = \<lparr>lr_create_digest = create_digest, lr_queue_id = lc_queue_id create, lr_epoch = lc_epoch create,
                    lr_expiry = lc_lease_expiry create,
                    lr_limits = \<lparr>ll_max_queue_cells = lc_queue_cells create, ll_max_queue_bytes = lc_queue_bytes create\<rparr>,
                    lr_capabilities = lc_capabilities create,
                    lr_replay = [\<lparr>rr_epoch = lc_epoch create, rr_operation = OpCreate, rr_nonce = lc_nonce create,
                                  rr_expiry = lc_lease_expiry create, rr_gc2_push_binding = None\<rparr>],
                    lr_next_replay_expiry = Some (lc_lease_expiry create), lr_dynamic_grants = [],
                    lr_temporary_expiry = gt_temporary_expiry grant\<rparr>
              in (Inr (lease_record_view lease),
                  (put_lease (lc_queue_id create) lease (st\<lparr>ls_queues := queues\<rparr>))
                    \<lparr>ls_grants := AList.update grant_id (grant\<lparr>gt_status := Consumed\<rparr>) (ls_grants st)\<rparr>))"

definition create_lease ::
  "mac_fn \<Rightarrow> (bytes \<Rightarrow> 32 arr) \<Rightarrow> nat \<Rightarrow> bytes \<Rightarrow> u64 \<Rightarrow> lease_store \<Rightarrow> (store_error + lease_view) \<times> lease_store" where
  "create_lease hmac sha generation wire now_unix st =
     (let st = cleanup_expired now_unix st; config = ls_config st in
      case rbind (store_policy st now_unix (sc_grant_lifetime_secs config)) (\<lambda>grant_policy.
           rbind (store_policy st now_unix (sc_max_lease_lifetime_secs config)) (\<lambda>lease_policy.
           map_err StLease (create_decode_and_verify hmac (ls_admission_key st) (ls_relay_service_id st) grant_policy
             lease_policy (sc_relay_limits config) wire))) of
        Inl e \<Rightarrow> (Inl e, st)
      | Inr create \<Rightarrow>
          (case map_of (ls_leases st) (lc_queue_id create) of
             Some existing \<Rightarrow>
               if lr_epoch existing = lc_epoch create \<and> lr_create_digest existing = sha wire
               then (Inr (lease_record_view existing), st)
               else create_from_grant (sha wire) generation create now_unix st
           | None \<Rightarrow> create_from_grant (sha wire) generation create now_unix st))"

text \<open>The lookup that the authenticated lease operations start with.\<close>

definition operation_lease ::
  "bytes \<Rightarrow> u64 \<Rightarrow> u64 \<Rightarrow> lease_store \<Rightarrow> store_error + (32 arr \<times> validation_policy \<times> lease_record)" where
  "operation_lease wire now_unix horizon_secs st =
     rbind (short_queue_id wire) (\<lambda>queue_id.
     rbind (store_policy st now_unix horizon_secs) (\<lambda>policy.
     rbind (ok_or StUnauthorized (map_of (ls_leases st) queue_id)) (\<lambda>lease. Inr (queue_id, policy, lease))))"

definition issue_dynamic_grant ::
  "mac_fn \<Rightarrow> (nat \<Rightarrow> 'h \<Rightarrow> bytes \<times> 'h) \<Rightarrow> bytes \<Rightarrow> u64 \<Rightarrow> 'h \<Rightarrow> lease_store
   \<Rightarrow> ((store_error + admission_provision) \<times> lease_store \<times> 'h) option" where
  "issue_dynamic_grant hmac fill wire now_unix h st =
     (let st = cleanup_expired now_unix st; config = ls_config st in
      case rbind (operation_lease wire now_unix (sc_grant_lifetime_secs config) st) (\<lambda>(authority_queue_id, policy, authority).
           reject (lr_temporary_expiry authority \<noteq> None) StUnauthorized (Inr (authority_queue_id, policy, authority))) of
        Inl e \<Rightarrow> Some (Inl e, st, h)
      | Inr (authority_queue_id, policy, authority) \<Rightarrow>
          (let authority = purge_replay now_unix authority; st = put_lease authority_queue_id authority st in
           case request_decode_and_verify hmac (cap_admin (lr_capabilities authority)) (ls_relay_service_id st)
                  (lr_queue_id authority) (lr_epoch authority) policy wire of
             Inl e \<Rightarrow> Some (Inl (StLease e), st, h)
           | Inr request \<Rightarrow>
               if has_replay authority (lr_epoch authority) OpGrant (gr_nonce request) then Some (Inl StReplay, st, h)
               else
                 let authority = authority\<lparr>lr_dynamic_grants := filter (\<lambda>issued. now_unix < sat_add issued 60) (lr_dynamic_grants authority)\<rparr>;
                     st = put_lease authority_queue_id authority st
                 in if sc_dynamic_grants_per_minute config \<le> length (lr_dynamic_grants authority) then Some (Inl StCapacity, st, h)
                    else case record_replay (lr_epoch authority) OpGrant (gr_nonce request) (gr_expiry request)
                                (sc_max_replay_nonces_per_lease config) authority of
                      Inl e \<Rightarrow> Some (Inl e, st, h)
                    | Inr authority \<Rightarrow>
                        issue_grant hmac fill
                          \<lparr>sr_queue_id = gr_queue_id request, sr_epoch = gr_epoch request, sr_limits = gr_limits request\<rparr> now_unix h
                          (put_lease authority_queue_id
                             (authority\<lparr>lr_dynamic_grants := lr_dynamic_grants authority @ [now_unix]\<rparr>) st)))"

section \<open>Lease operations\<close>

definition store_renew :: "mac_fn \<Rightarrow> bytes \<Rightarrow> u64 \<Rightarrow> lease_store \<Rightarrow> (store_error + lease_view) \<times> lease_store" where
  "store_renew hmac wire now_unix st =
     (let st = cleanup_expired now_unix st; config = ls_config st in
      case operation_lease wire now_unix (sc_max_lease_lifetime_secs config) st of
        Inl e \<Rightarrow> (Inl e, st)
      | Inr (queue_id, policy, lease) \<Rightarrow>
          (let lease = purge_replay now_unix lease; st = put_lease queue_id lease st in
           case rbind (map_err StLease (renew_decode_and_verify hmac (cap_admin (lr_capabilities lease)) (ls_relay_service_id st)
                         (lr_expiry lease) policy wire)) (\<lambda>renew.
                rbind (require_binding lease (ln_queue_id renew) (ln_epoch renew)) (\<lambda>_.
                reject (case lr_temporary_expiry lease of None \<Rightarrow> False | Some expiry \<Rightarrow> expiry < ln_lease_expiry renew) StUnauthorized (
                reject (has_replay lease (ln_epoch renew) OpRenew (ln_nonce renew)) StReplay (
                rbind (record_replay (ln_epoch renew) OpRenew (ln_nonce renew) (ln_lease_expiry renew)
                         (sc_max_replay_nonces_per_lease config) lease) (\<lambda>lease.
                Inr (lease\<lparr>lr_expiry := ln_lease_expiry renew\<rparr>)))))) of
             Inl e \<Rightarrow> (Inl e, st)
           | Inr lease \<Rightarrow> (Inr (lease_record_view lease), put_lease queue_id lease st)))"

definition store_rotate :: "mac_fn \<Rightarrow> bytes \<Rightarrow> u64 \<Rightarrow> lease_store \<Rightarrow> (store_error + lease_view) \<times> lease_store" where
  "store_rotate hmac wire now_unix st =
     (let st = cleanup_expired now_unix st; config = ls_config st in
      case operation_lease wire now_unix (sc_max_lease_lifetime_secs config) st of
        Inl e \<Rightarrow> (Inl e, st)
      | Inr (queue_id, policy, lease) \<Rightarrow>
          (let lease = purge_replay now_unix lease; st = put_lease queue_id lease st in
           case rbind (map_err StLease (rotate_decode_and_verify hmac (lr_capabilities lease) (ls_relay_service_id st) policy wire)) (\<lambda>rotate.
                rbind (require_binding lease (lo_queue_id rotate) (lo_old_epoch rotate)) (\<lambda>_.
                reject (case lr_temporary_expiry lease of None \<Rightarrow> False | Some expiry \<Rightarrow> expiry < lo_lease_expiry rotate) StUnauthorized (
                Inr (lease\<lparr>lr_capabilities := lo_new_capabilities rotate, lr_epoch := lo_new_epoch rotate,
                           lr_expiry := lo_lease_expiry rotate, lr_replay := [], lr_next_replay_expiry := None\<rparr>)))) of
             Inl e \<Rightarrow> (Inl e, st)
           | Inr lease \<Rightarrow>
               (if map_of (qs_queues (ls_queues st)) queue_id = None then Inl StPanic else Inr (lease_record_view lease),
                put_lease queue_id lease st)))"

definition store_revoke :: "mac_fn \<Rightarrow> bytes \<Rightarrow> u64 \<Rightarrow> lease_store \<Rightarrow> (store_error + unit) \<times> lease_store" where
  "store_revoke hmac wire now_unix st =
     (let st = cleanup_expired now_unix st; config = ls_config st in
      case rbind (operation_lease wire now_unix (sc_max_lease_lifetime_secs config) st) (\<lambda>(queue_id, policy, lease).
           rbind (map_err StLease (revoke_decode_and_verify hmac (cap_admin (lr_capabilities lease)) (ls_relay_service_id st) policy wire)) (\<lambda>revoke.
           rbind (require_binding lease (lv_queue_id revoke) (lv_epoch revoke)) (\<lambda>_. Inr queue_id))) of
        Inl e \<Rightarrow> (Inl e, st)
      | Inr queue_id \<Rightarrow> (Inr (), remove_lease queue_id st))"

definition authenticate_sub :: "mac_fn \<Rightarrow> cell \<Rightarrow> u64 \<Rightarrow> lease_store \<Rightarrow> (store_error + relay_sub) \<times> lease_store" where
  "authenticate_sub hmac c now_unix st =
     (let st = cleanup_expired now_unix st; config = ls_config st in
      case rbind (short_queue_id (c_payload c)) (\<lambda>queue_id.
           rbind (ok_or StUnauthorized (map_of (ls_leases st) queue_id)) (\<lambda>lease. Inr (queue_id, lease))) of
        Inl e \<Rightarrow> (Inl e, st)
      | Inr (queue_id, lease) \<Rightarrow>
          (let lease = purge_replay now_unix lease; st = put_lease queue_id lease st in
           case rbind (map_err StRelay (sub_decode_from_cell hmac (cap_sub (lr_capabilities lease)) (ls_relay_service_id st) now_unix c)) (\<lambda>sub.
                rbind (require_binding lease (rs_queue_id sub) (rs_epoch sub)) (\<lambda>_.
                reject (lr_expiry lease < rs_expiry sub) StUnauthorized (
                reject (has_replay lease (rs_epoch sub) OpSubscribe (rs_nonce sub)) StReplay (
                rbind (record_replay (rs_epoch sub) OpSubscribe (rs_nonce sub) (rs_expiry sub)
                         (sc_max_subscription_nonces_per_lease config) lease) (\<lambda>lease. Inr (sub, lease)))))) of
             Inl e \<Rightarrow> (Inl e, st)
           | Inr (sub, lease) \<Rightarrow> (Inr sub, put_lease queue_id lease st)))"

section \<open>Deposits and delivery\<close>

text \<open>The last part of \<open>authenticate_push\<close>: a fresh deposit that carries a message.\<close>

definition push_enqueue ::
  "32 arr \<Rightarrow> relay_push \<Rightarrow> cell \<Rightarrow> lease_record \<Rightarrow> lease_store \<Rightarrow> (store_error + push_outcome) \<times> lease_store" where
  "push_enqueue queue_id push msg lease st =
     (case rbind (natural_cell_len_checked msg) (\<lambda>natural_bytes.
           rbind (ok_or StCapacity (checked_add (qs_total_bytes (ls_queues st)) natural_bytes)) (\<lambda>total_after.
           reject (sc_max_total_queue_bytes (ls_config st) < total_after) StCapacity (
           rbind (ok_or StPanic (map_of (qs_queues (ls_queues st)) queue_id)) (\<lambda>queue.
           rbind (ok_or StQueueFull (checked_add (q_bytes queue) natural_bytes)) (\<lambda>next_bytes.
           reject (unat (ll_max_queue_cells (lr_limits lease)) < queue_len_of queue + 1
              \<or> ll_max_queue_bytes (lr_limits lease) < next_bytes) StQueueFull (
           reject (sc_max_replay_nonces_per_lease (ls_config st) \<le> replay_count lease OpPush) StReplayCapacity
             (Inr (total_after, queue, next_bytes)))))))) of
        Inl e \<Rightarrow> (Inl e, st)
      | Inr (total_after, queue, next_bytes) \<Rightarrow>
          (let st = put_queue queue_id
                 (queue\<lparr>q_messages := q_messages queue @ [\<lparr>qm_push_nonce = rp_nonce push, qm_cell = msg\<rparr>], q_bytes := next_bytes\<rparr>)
                 total_after st
           in case record_replay (rp_epoch push) OpPush (rp_nonce push) (rp_expiry push)
                     (sc_max_replay_nonces_per_lease (ls_config st)) lease of
                Inl e \<Rightarrow> (Inl e, st)
              | Inr lease \<Rightarrow> (Inr Enqueued, put_lease queue_id lease st)))"

definition authenticate_push :: "mac_fn \<Rightarrow> cell \<Rightarrow> u64 \<Rightarrow> lease_store \<Rightarrow> (store_error + push_outcome) \<times> lease_store" where
  "authenticate_push hmac c now_unix st =
     (let st = cleanup_expired now_unix st in
      case rbind (ok_or StPanic (nested_parts c)) (\<lambda>parts.
           rbind (ok_or StUnauthorized (map_of (ls_leases st) (pp_queue_id parts))) (\<lambda>lease. Inr (pp_queue_id parts, lease))) of
        Inl e \<Rightarrow> (Inl e, st)
      | Inr (queue_id, lease) \<Rightarrow>
          (let lease = purge_replay now_unix lease; st = put_lease queue_id lease st in
           case rbind (map_err StRelay (push_decode_from_cell hmac (cap_push (lr_capabilities lease)) (ls_relay_service_id st) now_unix c)) (\<lambda>push.
                rbind (require_binding lease (rp_queue_id push) (rp_epoch push)) (\<lambda>_.
                reject (lr_expiry lease < rp_expiry push) StUnauthorized (Inr push))) of
             Inl e \<Rightarrow> (Inl e, st)
           | Inr push \<Rightarrow>
               if has_replay lease (rp_epoch push) OpPush (rp_nonce push)
               then (if list_ex (\<lambda>r. rr_epoch r = rp_epoch push \<and> rr_operation r = OpPush \<and> rr_nonce r = rp_nonce push
                         \<and> rr_gc2_push_binding r \<noteq> None) (lr_replay lease)
                     then Inl StReplay else Inr Duplicate, st)
               else case rp_msg push of
                 None \<Rightarrow>
                   (case record_replay (rp_epoch push) OpPush (rp_nonce push) (rp_expiry push)
                           (sc_max_replay_nonces_per_lease (ls_config st)) lease of
                      Inl e \<Rightarrow> (Inl e, st)
                    | Inr lease \<Rightarrow> (Inr Cover, put_lease queue_id lease st))
               | Some msg \<Rightarrow> push_enqueue queue_id push msg lease st))"

definition store_peek :: "32 arr \<Rightarrow> u64 \<Rightarrow> lease_store \<Rightarrow> queued_message option \<times> lease_store" where
  "store_peek queue_id now_unix st =
     (let st = cleanup_expired now_unix st
      in (Option.bind (map_of (qs_queues (ls_queues st)) queue_id) (\<lambda>queue. case q_messages queue of [] \<Rightarrow> None | m # _ \<Rightarrow> Some m), st))"

definition acknowledge :: "32 arr \<Rightarrow> 16 arr \<Rightarrow> u64 \<Rightarrow> lease_store \<Rightarrow> ack_outcome \<times> lease_store" where
  "acknowledge queue_id push_nonce now_unix st =
     (let st = cleanup_expired now_unix st in
      case map_of (qs_queues (ls_queues st)) queue_id of
        None \<Rightarrow> (AckEmpty, st)
      | Some queue \<Rightarrow>
          (case q_messages queue of
             [] \<Rightarrow> (AckEmpty, st)
           | head # rest \<Rightarrow>
               if qm_push_nonce head \<noteq> push_nonce then (Mismatch, st)
               else let freed = natural_cell_len (qm_cell head)
                    in (Removed, put_queue queue_id (queue\<lparr>q_messages := rest, q_bytes := saturating_sub (q_bytes queue) freed\<rparr>)
                          (saturating_sub (qs_total_bytes (ls_queues st)) freed) st)))"

definition store_total_queue_bytes :: "lease_store \<Rightarrow> u64" where
  "store_total_queue_bytes st = qs_total_bytes (ls_queues st)"

definition store_lease :: "32 arr \<Rightarrow> u64 \<Rightarrow> lease_store \<Rightarrow> lease_view option \<times> lease_store" where
  "store_lease queue_id now_unix st =
     (let st = cleanup_expired now_unix st in (map_option lease_record_view (map_of (ls_leases st) queue_id), st))"

definition subscription_valid :: "32 arr \<Rightarrow> u64 \<Rightarrow> u64 \<Rightarrow> u64 \<Rightarrow> lease_store \<Rightarrow> bool \<times> lease_store" where
  "subscription_valid queue_id epoch subscription_expiry now_unix st =
     (let st = cleanup_expired now_unix st
      in (case map_of (ls_leases st) queue_id of
            None \<Rightarrow> False
          | Some lease \<Rightarrow> lr_epoch lease = epoch \<and> now_unix < subscription_expiry \<and> subscription_expiry \<le> lr_expiry lease, st))"

definition store_queue_len :: "32 arr \<Rightarrow> u64 \<Rightarrow> lease_store \<Rightarrow> nat \<times> lease_store" where
  "store_queue_len queue_id now_unix st =
     (let st = cleanup_expired now_unix st
      in (case map_of (qs_queues (ls_queues st)) queue_id of None \<Rightarrow> 0 | Some q \<Rightarrow> queue_len_of q, st))"

definition store_queue_bytes :: "32 arr \<Rightarrow> u64 \<Rightarrow> lease_store \<Rightarrow> u64 \<times> lease_store" where
  "store_queue_bytes queue_id now_unix st =
     (let st = cleanup_expired now_unix st
      in (case map_of (qs_queues (ls_queues st)) queue_id of None \<Rightarrow> 0 | Some q \<Rightarrow> q_bytes q, st))"

definition store_queue_count :: "u64 \<Rightarrow> lease_store \<Rightarrow> nat \<times> lease_store" where
  "store_queue_count now_unix st =
     (let st = cleanup_expired now_unix st in (length (qs_queues (ls_queues st)), st))"

section \<open>GC/2 deposits and subscriptions\<close>

record authenticated_subscription =
  au_subscription :: gc2_sub
  au_generation :: nat

text \<open>The last part of \<open>authenticate_push_gc2\<close>: a fresh deposit that carries a message.\<close>

definition push_enqueue_gc2 ::
  "32 arr \<Rightarrow> gc2_push \<Rightarrow> natural_cell \<Rightarrow> 32 arr \<Rightarrow> lease_record \<Rightarrow> lease_store \<Rightarrow> (store_error + push_outcome) \<times> lease_store" where
  "push_enqueue_gc2 queue_id push msg binding lease st =
     (let bytes = of_nat (encoded_len msg) in
      case rbind (ok_or StCapacity (checked_add (qs_total_bytes (ls_queues st)) bytes)) (\<lambda>total_after.
           reject (sc_max_total_queue_bytes (ls_config st) < total_after) StCapacity (
           rbind (ok_or StPanic (map_of (qs_queues (ls_queues st)) queue_id)) (\<lambda>queue.
           rbind (ok_or StQueueFull (checked_add (q_bytes queue) bytes)) (\<lambda>next_bytes.
           reject (unat (ll_max_queue_cells (lr_limits lease)) \<le> queue_len_of queue
              \<or> ll_max_queue_bytes (lr_limits lease) < next_bytes) StQueueFull (
           rbind (record_gc2_push (gp_epoch push) (gp_nonce push) (gp_expiry push) binding
                    (sc_max_replay_nonces_per_lease (ls_config st)) lease) (\<lambda>lease.
           Inr (total_after, queue\<lparr>q_bytes := next_bytes\<rparr>, lease))))))) of
        Inl e \<Rightarrow> (Inl e, st)
      | Inr (total_after, queue, lease) \<Rightarrow>
          (Inr Enqueued,
           put_lease queue_id lease (put_queue queue_id
             (set_class_messages (gp_class push)
                (class_messages (gp_class push) queue @ [\<lparr>nm_push_nonce = gp_nonce push, nm_cell = msg\<rparr>]) queue)
             total_after st)))"

definition authenticate_push_gc2 ::
  "mac_fn \<Rightarrow> (bytes \<Rightarrow> 32 arr) \<Rightarrow> unverified_push \<Rightarrow> u64 \<Rightarrow> lease_store \<Rightarrow> (store_error + push_outcome) \<times> lease_store" where
  "authenticate_push_gc2 hmac sha u now_unix st =
     (let st = cleanup_expired now_unix st; queue_id = up_queue_id u in
      case map_of (ls_leases st) queue_id of
        None \<Rightarrow> (Inl StUnauthorized, st)
      | Some lease \<Rightarrow>
          (let binding = sha (natural_encode (up_cell u)); max_replay = sc_max_replay_nonces_per_lease (ls_config st) in
           case rbind (map_err StRelay (unverified_authenticate hmac (cap_push (lr_capabilities lease)) (ls_relay_service_id st) now_unix u)) (\<lambda>push.
                rbind (require_binding lease (gp_queue_id push) (gp_epoch push)) (\<lambda>_.
                reject (lr_expiry lease < gp_expiry push) StUnauthorized (Inr push))) of
             Inl e \<Rightarrow> (Inl e, st)
           | Inr push \<Rightarrow>
               (case List.find (\<lambda>r. rr_epoch r = gp_epoch push \<and> rr_operation r = OpPush \<and> rr_nonce r = gp_nonce push) (lr_replay lease) of
                  Some r \<Rightarrow> (if rr_gc2_push_binding r = Some binding then Inr Duplicate else Inl StReplay, st)
                | None \<Rightarrow>
                    (case gp_msg push of
                       None \<Rightarrow>
                         (case record_gc2_push (gp_epoch push) (gp_nonce push) (gp_expiry push) binding max_replay lease of
                            Inl e \<Rightarrow> (Inl e, st)
                          | Inr lease \<Rightarrow> (Inr Cover, put_lease queue_id lease st))
                     | Some msg \<Rightarrow> push_enqueue_gc2 queue_id push msg binding lease st))))"

definition authenticate_sub_gc2 ::
  "mac_fn \<Rightarrow> natural_cell \<Rightarrow> u64 \<Rightarrow> lease_store \<Rightarrow> (store_error + authenticated_subscription) \<times> lease_store" where
  "authenticate_sub_gc2 hmac c now_unix st =
     (let st = cleanup_expired now_unix st in
      case rbind (rbind (ok_or StUnauthorized (get_range (n_payload c) 1 33)) (\<lambda>bs. ok_or StUnauthorized (arr_try bs))) (\<lambda>queue_id.
           rbind (ok_or StUnauthorized (map_of (ls_leases st) queue_id)) (\<lambda>lease.
           rbind (map_err StRelay (gc2_sub_decode hmac (cap_sub (lr_capabilities lease)) (ls_relay_service_id st) now_unix c)) (\<lambda>sub.
           rbind (require_binding lease (gs_queue_id sub) (gs_epoch sub)) (\<lambda>_.
           reject (lr_expiry lease < gs_expiry sub) StUnauthorized (
           reject (has_replay lease (gs_epoch sub) OpSubscribe (gs_nonce sub)) StReplay (
           rbind (record_replay (gs_epoch sub) OpSubscribe (gs_nonce sub) (gs_expiry sub)
                    (sc_max_subscription_nonces_per_lease (ls_config st)) lease) (\<lambda>lease.
           Inr (queue_id, sub, lease)))))))) of
        Inl e \<Rightarrow> (Inl e, st)
      | Inr (queue_id, sub, lease) \<Rightarrow>
          (case map_of (qs_queues (ls_queues st)) queue_id of
             None \<Rightarrow> Inl StPanic
           | Some queue \<Rightarrow> Inr \<lparr>au_subscription = sub, au_generation = q_generation queue\<rparr>, put_lease queue_id lease st))"

definition validate_gc2_subscription :: "authenticated_subscription \<Rightarrow> u64 \<Rightarrow> lease_store \<Rightarrow> store_error + unit" where
  "validate_gc2_subscription handle now_unix st =
     (let sub = au_subscription handle in
      rbind (ok_or StUnauthorized (map_of (ls_leases st) (gs_queue_id sub))) (\<lambda>lease.
      rbind (require_binding lease (gs_queue_id sub) (gs_epoch sub)) (\<lambda>_.
      reject (gs_expiry sub \<le> now_unix \<or> lr_expiry lease < gs_expiry sub) StUnauthorized (
      rbind (ok_or StPanic (map_of (qs_queues (ls_queues st)) (gs_queue_id sub))) (\<lambda>queue.
      reject (au_generation handle \<noteq> q_generation queue) StUnauthorized (Inr ()))))))"

definition peek_gc2 ::
  "authenticated_subscription \<Rightarrow> u64 \<Rightarrow> lease_store \<Rightarrow> (store_error + natural_message option) \<times> lease_store" where
  "peek_gc2 handle now_unix st =
     (let st = cleanup_expired now_unix st; sub = au_subscription handle
      in (rbind (validate_gc2_subscription handle now_unix st) (\<lambda>_.
          rbind (ok_or StPanic (map_of (qs_queues (ls_queues st)) (gs_queue_id sub))) (\<lambda>queue.
          Inr (case class_messages (gs_class sub) queue of [] \<Rightarrow> None | m # _ \<Rightarrow> Some m))), st))"

definition acknowledge_gc2 ::
  "authenticated_subscription \<Rightarrow> 16 arr \<Rightarrow> u64 \<Rightarrow> lease_store \<Rightarrow> (store_error + ack_outcome) \<times> lease_store" where
  "acknowledge_gc2 handle push_nonce now_unix st =
     (let st = cleanup_expired now_unix st; sub = au_subscription handle in
      case rbind (validate_gc2_subscription handle now_unix st) (\<lambda>_.
           ok_or StPanic (map_of (qs_queues (ls_queues st)) (gs_queue_id sub))) of
        Inl e \<Rightarrow> (Inl e, st)
      | Inr queue \<Rightarrow>
          (case class_messages (gs_class sub) queue of
             [] \<Rightarrow> (Inr AckEmpty, st)
           | head # rest \<Rightarrow>
               if nm_push_nonce head \<noteq> push_nonce then (Inr Mismatch, st)
               else let freed = of_nat (encoded_len (nm_cell head))
                    in if q_bytes queue < freed \<or> qs_total_bytes (ls_queues st) < freed then (Inl StPanic, st)
                       else (Inr Removed, put_queue (gs_queue_id sub)
                              ((set_class_messages (gs_class sub) rest queue)\<lparr>q_bytes := q_bytes queue - freed\<rparr>)
                              (qs_total_bytes (ls_queues st) - freed) st)))"

end
