(* ===== verification/Store_Invariant.thy ===== *)
theory Store_Invariant
  imports Lease_Store
begin

text \<open>
  The invariant of the lease store and the branches of its operations: each operation either refuses
  and leaves exactly the store without its expired parts, or makes one described change. Every
  operation keeps the invariant: bounded grants, queues and replay history, one queue for each
  lease, exact byte accounts within the limits.
\<close>

section \<open>Association lists\<close>

declare map_of_eq_Some_iff [simp del]

lemma update_triv_list: "map_of al k = Some v \<Longrightarrow> AList.update k v al = al"
  by (induction al) (auto split: if_splits)

lemma update_twice: "AList.update k a (AList.update k b al) = AList.update k a al"
  by (induction al) auto

lemma update_present_keys: "map_of al k \<noteq> None \<Longrightarrow> map fst (AList.update k v al) = map fst al"
  by (induction al) (auto split: if_splits)

lemma update_absent: "map_of al k = None \<Longrightarrow> AList.update k v al = al @ [(k, v)]"
  by (induction al) (auto split: if_splits)

lemma sum_update:
  "map_of al k = Some v0 \<Longrightarrow> sum_list (map (f \<circ> snd) (AList.update k v al)) + f v0 = sum_list (map (f \<circ> snd) al) + (f v :: nat)"
  by (induction al) (auto split: if_splits)

lemma delete_absent: "k \<notin> fst ` set al \<Longrightarrow> AList.delete k al = al"
  by (induction al) auto

lemma delete_length: "length (AList.delete k al) \<le> length al"
  by (induction al) auto

lemma sum_delete:
  "map_of al k = Some v0 \<Longrightarrow> distinct (map fst al)
     \<Longrightarrow> sum_list (map (f \<circ> snd) (AList.delete k al)) + f v0 = (sum_list (map (f \<circ> snd) al) :: nat)"
  by (induction al) (auto simp: delete_absent split: if_splits)

lemma map_of_map_values: "map_of (map (\<lambda>(k, v). (k, f v)) al) k = map_option f (map_of al k)"
  by (induction al) auto

section \<open>The invariant\<close>

definition config_ok :: "store_config \<Rightarrow> bool" where
  "config_ok c \<longleftrightarrow> 0 < sc_max_replay_nonces_per_lease c \<and> sc_clock_skew_secs c \<le> MAX_CLOCK_SKEW_SECS"

text \<open>The bound on the replay records of one kind.\<close>

definition replay_bound :: "store_config \<Rightarrow> replay_operation \<Rightarrow> nat" where
  "replay_bound c op = (if op = OpSubscribe then sc_max_subscription_nonces_per_lease c else sc_max_replay_nonces_per_lease c)"

definition replay_key :: "replay_record \<Rightarrow> replay_operation \<times> 16 arr" where
  "replay_key r = (rr_operation r, rr_nonce r)"

definition lease_ok :: "store_config \<Rightarrow> 32 arr \<Rightarrow> lease_record \<Rightarrow> bool" where
  "lease_ok c q l \<longleftrightarrow>
     lr_queue_id l = q
     \<and> ll_max_queue_cells (lr_limits l) \<le> ll_max_queue_cells (sc_relay_limits c)
     \<and> ll_max_queue_bytes (lr_limits l) \<le> ll_max_queue_bytes (sc_relay_limits c)
     \<and> lr_next_replay_expiry l = min_expiry (lr_replay l)
     \<and> (\<forall>r \<in> set (lr_replay l). rr_epoch r = lr_epoch l)
     \<and> distinct (map replay_key (lr_replay l))
     \<and> (\<forall>op. replay_count l op \<le> replay_bound c op)
     \<and> length (lr_dynamic_grants l) \<le> sc_dynamic_grants_per_minute c
     \<and> (\<forall>t. lr_temporary_expiry l = Some t \<longrightarrow> lr_expiry l \<le> t)"

definition message_bytes :: "queue \<Rightarrow> nat" where
  "message_bytes q =
     sum_list (map (\<lambda>m. HEADER_LEN + length (c_payload (qm_cell m))) (q_messages q))
     + (sum_list (map (encoded_len \<circ> nm_cell) (q_interactive q)) + sum_list (map (encoded_len \<circ> nm_cell) (q_bulk q)))"

definition queue_ok :: "lease_limits \<Rightarrow> queue \<Rightarrow> bool" where
  "queue_ok limits q \<longleftrightarrow>
     unat (q_bytes q) = message_bytes q \<and> q_bytes q \<le> ll_max_queue_bytes limits
     \<and> queue_len_of q \<le> unat (ll_max_queue_cells limits)
     \<and> (\<forall>m \<in> set (q_messages q). length (c_payload (qm_cell m)) \<le> 65535)
     \<and> (\<forall>m \<in> set (q_interactive q) \<union> set (q_bulk q). encoded_len (nm_cell m) \<le> 65535)"

definition store_ok :: "lease_store \<Rightarrow> bool" where
  "store_ok st \<longleftrightarrow>
     (let c = ls_config st; qs = ls_queues st in
      config_ok c
      \<and> distinct (map fst (ls_grants st)) \<and> length (ls_grants st) \<le> sc_max_grants c
      \<and> distinct (map fst (ls_leases st)) \<and> (\<forall>q l. map_of (ls_leases st) q = Some l \<longrightarrow> lease_ok c q l)
      \<and> qs_max_queues qs = sc_max_queues c \<and> distinct (map fst (qs_queues qs)) \<and> length (qs_queues qs) \<le> sc_max_queues c
      \<and> (\<forall>q. map_of (qs_queues qs) q = None \<longleftrightarrow> map_of (ls_leases st) q = None)
      \<and> (\<forall>q l x. map_of (ls_leases st) q = Some l \<longrightarrow> map_of (qs_queues qs) q = Some x \<longrightarrow> queue_ok (lr_limits l) x)
      \<and> unat (qs_total_bytes qs) = sum_list (map ((unat \<circ> q_bytes) \<circ> snd) (qs_queues qs))
      \<and> qs_total_bytes qs \<le> sc_max_total_queue_bytes c)"

section \<open>Parts of the store\<close>

lemma store_okD:
  assumes "store_ok st"
  shows "config_ok (ls_config st)" "map_of (ls_leases st) q = Some l \<Longrightarrow> lease_ok (ls_config st) q l"
    "map_of (qs_queues (ls_queues st)) q = None \<longleftrightarrow> map_of (ls_leases st) q = None"
    "map_of (ls_leases st) q = Some l \<Longrightarrow> map_of (qs_queues (ls_queues st)) q = Some x \<Longrightarrow> queue_ok (lr_limits l) x"
    "unat (qs_total_bytes (ls_queues st)) = sum_list (map ((unat \<circ> q_bytes) \<circ> snd) (qs_queues (ls_queues st)))"
    "qs_total_bytes (ls_queues st) \<le> sc_max_total_queue_bytes (ls_config st)"
    "distinct (map fst (qs_queues (ls_queues st)))"
  using assms by (auto simp: store_ok_def Let_def)

lemma put_lease_ok:
  assumes "store_ok st" and "map_of (ls_leases st) q = Some l0" and "lease_ok (ls_config st) q l" and "lr_limits l = lr_limits l0"
  shows "store_ok (put_lease q l st)"
  using assms update_present_keys [of "ls_leases st" q l]
  by (auto simp: store_ok_def put_lease_def Let_def update_conv' split: if_splits)

lemma put_queue_ok:
  assumes ok: "store_ok st" and x0: "map_of (qs_queues (ls_queues st)) q = Some x0" and l: "map_of (ls_leases st) q = Some l"
    and x: "queue_ok (lr_limits l) x" and b: "unat b + unat (q_bytes x0) = unat (qs_total_bytes (ls_queues st)) + unat (q_bytes x)"
    and le: "b \<le> sc_max_total_queue_bytes (ls_config st)"
  shows "store_ok (put_queue q x b st)"
proof -
  let ?al = "qs_queues (ls_queues st)"
  have "length (AList.update q x ?al) = length ?al"
    using update_present_keys [of ?al q x] x0 by (metis length_map option.distinct(1))
  moreover have "unat b = sum_list (map ((unat \<circ> q_bytes) \<circ> snd) (AList.update q x ?al))"
    using sum_update [OF x0, of "unat \<circ> q_bytes" x] b store_okD(5) [OF ok] by simp
  ultimately show ?thesis using assms update_present_keys [of ?al q x]
    by (auto simp: store_ok_def put_queue_def Let_def update_conv' split: if_splits)
qed

lemma remove_lease_ok:
  assumes ok: "store_ok st"
  shows "store_ok (remove_lease q st)"
proof (cases "map_of (qs_queues (ls_queues st)) q")
  case None
  then have "map_of (ls_leases st) q = None" using store_okD(3) [OF ok] by simp
  then have "AList.delete q (ls_leases st) = ls_leases st" by (simp add: delete_absent map_of_eq_None_iff)
  with None have "remove_lease q st = st" by (simp add: remove_lease_def qs_remove_def)
  with ok show ?thesis by simp
next
  case (Some x)
  let ?al = "qs_queues (ls_queues st)"
  have s: "sum_list (map ((unat \<circ> q_bytes) \<circ> snd) (AList.delete q ?al)) + unat (q_bytes x) = unat (qs_total_bytes (ls_queues st))"
    using sum_delete [OF Some store_okD(7) [OF ok], of "unat \<circ> q_bytes"] store_okD(5) [OF ok] by simp
  then have "unat (saturating_sub (qs_total_bytes (ls_queues st)) (q_bytes x)) = sum_list (map ((unat \<circ> q_bytes) \<circ> snd) (AList.delete q ?al))"
    "saturating_sub (qs_total_bytes (ls_queues st)) (q_bytes x) \<le> sc_max_total_queue_bytes (ls_config st)"
    using store_okD(6) [OF ok] by (auto simp: unat_saturating_sub word_le_nat_alt)
  moreover have "length (AList.delete q ?al) \<le> length ?al" by (rule delete_length)
  ultimately show ?thesis using ok Some
    by (auto simp: store_ok_def remove_lease_def qs_remove_def Let_def delete_conv' distinct_delete split: if_splits)
qed

section \<open>Expiry\<close>

text \<open>The cached earliest expiry only saves work: purging is always the plain filter.\<close>

lemma purge_replay_eq:
  assumes "lr_next_replay_expiry l = min_expiry (lr_replay l)"
  shows "purge_replay now l = l\<lparr>lr_replay := filter (\<lambda>r. now < rr_expiry r) (lr_replay l),
     lr_next_replay_expiry := min_expiry (filter (\<lambda>r. now < rr_expiry r) (lr_replay l))\<rparr>"
proof (cases "case lr_next_replay_expiry l of None \<Rightarrow> True | Some e \<Rightarrow> now < e")
  case True
  then have "\<forall>r \<in> set (lr_replay l). now < rr_expiry r" using assms
    by (auto simp: min_expiry_def split: if_splits)
  then have "filter (\<lambda>r. now < rr_expiry r) (lr_replay l) = lr_replay l" by simp
  with True assms show ?thesis by (simp add: purge_replay_def)
qed (simp add: purge_replay_def Let_def)

lemma purge_replay_fields [simp]:
  "lr_queue_id (purge_replay now l) = lr_queue_id l" "lr_epoch (purge_replay now l) = lr_epoch l"
  "lr_expiry (purge_replay now l) = lr_expiry l" "lr_limits (purge_replay now l) = lr_limits l"
  "lr_capabilities (purge_replay now l) = lr_capabilities l" "lr_create_digest (purge_replay now l) = lr_create_digest l"
  "lr_temporary_expiry (purge_replay now l) = lr_temporary_expiry l" "lr_dynamic_grants (purge_replay now l) = lr_dynamic_grants l"
  by (simp_all add: purge_replay_def Let_def)

lemma purge_replay_idem: "purge_replay now (purge_replay now l) = purge_replay now l"
proof -
  have "case min_expiry (filter (\<lambda>r. now < rr_expiry r) rs) of None \<Rightarrow> True | Some e \<Rightarrow> now < e" for rs
  proof (cases "filter (\<lambda>r. now < rr_expiry r) rs = []")
    case False
    then have "Min (rr_expiry ` set (filter (\<lambda>r. now < rr_expiry r) rs)) \<in> rr_expiry ` set (filter (\<lambda>r. now < rr_expiry r) rs)"
      by (intro Min_in) (auto simp: filter_empty_conv)
    with False show ?thesis by (auto simp: min_expiry_def)
  qed (simp add: min_expiry_def)
  then show ?thesis by (simp add: purge_replay_def Let_def)
qed

lemma distinct_map_filter_key: "distinct (map f xs) \<Longrightarrow> distinct (map f (filter P xs))"
  by (induction xs) auto

lemma purge_replay_ok:
  assumes "lease_ok c q l"
  shows "lease_ok c q (purge_replay now l)"
proof -
  have n: "lr_next_replay_expiry l = min_expiry (lr_replay l)" using assms by (simp add: lease_ok_def)
  have "length (filter (\<lambda>r. now < rr_expiry r \<and> rr_operation r = op) rs) \<le> length (filter (\<lambda>r. rr_operation r = op) rs)" for op rs
    by (induction rs) auto
  then have "replay_count (purge_replay now l) op \<le> replay_count l op" for op
    by (simp add: purge_replay_eq [OF n] replay_count_def)
  moreover have "replay_count l op \<le> replay_bound c op" for op using assms by (simp add: lease_ok_def)
  ultimately have "replay_count (purge_replay now l) op \<le> replay_bound c op" for op by (metis le_trans)
  with assms show ?thesis by (auto simp: lease_ok_def purge_replay_eq [OF n] distinct_map_filter_key)
qed

definition expired_queues :: "u64 \<Rightarrow> lease_store \<Rightarrow> 32 arr list" where
  "expired_queues now st = map fst (filter (\<lambda>(_, lease). lr_expiry lease \<le> now) (ls_leases st))"

lemma fold_remove:
  "ls_config (fold remove_lease qs st) = ls_config st" "ls_relay_service_id (fold remove_lease qs st) = ls_relay_service_id st"
  "ls_admission_key (fold remove_lease qs st) = ls_admission_key st" "ls_grants (fold remove_lease qs st) = ls_grants st"
  "map_of (ls_leases (fold remove_lease qs st)) q = (if q \<in> set qs then None else map_of (ls_leases st) q)"
  "map_of (qs_queues (ls_queues (fold remove_lease qs st))) q = (if q \<in> set qs then None else map_of (qs_queues (ls_queues st)) q)"
proof (induction qs arbitrary: st)
  case (Cons a qs)
  { case 1 show ?case by (simp add: Cons.IH(1)) (simp add: remove_lease_def) }
  { case 2 show ?case by (simp add: Cons.IH(2)) (simp add: remove_lease_def) }
  { case 3 show ?case by (simp add: Cons.IH(3)) (simp add: remove_lease_def) }
  { case 4 show ?case by (simp add: Cons.IH(4)) (simp add: remove_lease_def) }
  { case 5 show ?case by (simp add: Cons.IH(5)) (auto simp: remove_lease_def delete_conv') }
  { case 6 show ?case by (simp add: Cons.IH(6)) (auto simp: remove_lease_def qs_remove_def delete_conv' split: option.splits) }
qed simp_all

lemma expired_iff:
  assumes "distinct (map fst (ls_leases st))"
  shows "q \<in> set (expired_queues now st) \<longleftrightarrow> (\<exists>l. map_of (ls_leases st) q = Some l \<and> lr_expiry l \<le> now)"
  using assms by (force simp: expired_queues_def map_of_eq_Some_iff)

lemma cleanup_alt:
  "cleanup_expired now st =
     (fold remove_lease (expired_queues now st) (st\<lparr>ls_grants := filter (\<lambda>(_, grant). now < gt_expiry grant) (ls_grants st)\<rparr>))
       \<lparr>ls_leases := map (\<lambda>(q, lease). (q, purge_replay now lease))
          (ls_leases (fold remove_lease (expired_queues now st) (st\<lparr>ls_grants := filter (\<lambda>(_, grant). now < gt_expiry grant) (ls_grants st)\<rparr>)))\<rparr>"
  by (simp add: cleanup_expired_def expired_queues_def Let_def)

lemma cleanup_fields [simp]:
  "ls_config (cleanup_expired now st) = ls_config st" "ls_relay_service_id (cleanup_expired now st) = ls_relay_service_id st"
  "ls_admission_key (cleanup_expired now st) = ls_admission_key st"
  "ls_grants (cleanup_expired now st) = filter (\<lambda>(_, grant). now < gt_expiry grant) (ls_grants st)"
  by (simp_all add: cleanup_alt fold_remove)

lemma cleanup_lookup:
  assumes "store_ok st"
  shows "map_of (ls_leases (cleanup_expired now st)) q =
      (case map_of (ls_leases st) q of None \<Rightarrow> None | Some l \<Rightarrow> if lr_expiry l \<le> now then None else Some (purge_replay now l))"
    "map_of (qs_queues (ls_queues (cleanup_expired now st))) q =
      (case map_of (ls_leases st) q of None \<Rightarrow> None | Some l \<Rightarrow> if lr_expiry l \<le> now then None else map_of (qs_queues (ls_queues st)) q)"
proof -
  have d: "distinct (map fst (ls_leases st))" using assms by (simp add: store_ok_def Let_def)
  note e = expired_iff [OF d, of _ now]
  show "map_of (ls_leases (cleanup_expired now st)) q =
      (case map_of (ls_leases st) q of None \<Rightarrow> None | Some l \<Rightarrow> if lr_expiry l \<le> now then None else Some (purge_replay now l))"
    by (auto simp: cleanup_alt map_of_map_values fold_remove e split: option.splits)
  show "map_of (qs_queues (ls_queues (cleanup_expired now st))) q =
      (case map_of (ls_leases st) q of None \<Rightarrow> None | Some l \<Rightarrow> if lr_expiry l \<le> now then None else map_of (qs_queues (ls_queues st)) q)"
    using store_okD(3) [OF assms, of q] by (auto simp: cleanup_alt fold_remove e split: option.splits)
qed

lemma fold_remove_ok: "store_ok st \<Longrightarrow> store_ok (fold remove_lease qs st)"
  by (induction qs arbitrary: st) (auto intro: remove_lease_ok)

lemma purge_all_ok:
  assumes "store_ok st"
  shows "store_ok (st\<lparr>ls_leases := map (\<lambda>(q, lease). (q, purge_replay now lease)) (ls_leases st)\<rparr>)"
proof -
  have keys: "map fst (map (\<lambda>(q, lease). (q, purge_replay now lease)) (ls_leases st)) = map fst (ls_leases st)"
    by (induction "ls_leases st") auto
  have l: "lease_ok (ls_config st) q l" if "map_option (purge_replay now) (map_of (ls_leases st) q) = Some l" for q l
    using that store_okD(2) [OF assms] purge_replay_ok by auto
  have x: "queue_ok (lr_limits l) x" if "map_option (purge_replay now) (map_of (ls_leases st) q) = Some l"
    "map_of (qs_queues (ls_queues st)) q = Some x" for q l x
    using that store_okD(4) [OF assms] by auto
  show ?thesis using assms l x unfolding store_ok_def Let_def by (simp add: map_of_map_values keys del: map_map)
qed

lemma cleanup_ok:
  assumes "store_ok st"
  shows "store_ok (cleanup_expired now st)"
proof -
  let ?s = "st\<lparr>ls_grants := filter (\<lambda>(_, grant). now < gt_expiry grant) (ls_grants st)\<rparr>"
  have "length (ls_grants st) \<le> sc_max_grants (ls_config st)" using assms by (simp add: store_ok_def Let_def)
  then have "length (filter (\<lambda>(_, grant). now < gt_expiry grant) (ls_grants st)) \<le> sc_max_grants (ls_config st)"
    using length_filter_le le_trans by blast
  then have "store_ok ?s" using assms by (simp add: store_ok_def Let_def distinct_map_filter)
  then show ?thesis unfolding cleanup_alt by (intro purge_all_ok fold_remove_ok)
qed

lemma cleanup_purged:
  assumes "store_ok st" and "map_of (ls_leases (cleanup_expired now st)) q = Some l"
  shows "purge_replay now l = l" "put_lease q l (cleanup_expired now st) = cleanup_expired now st" "now < lr_expiry l"
    "\<forall>r \<in> set (lr_replay l). now < rr_expiry r"
proof -
  from assms cleanup_lookup(1) [OF assms(1), of now q] obtain l0 where l0: "l = purge_replay now l0" "now < lr_expiry l0"
    "map_of (ls_leases st) q = Some l0" by (auto simp: not_le split: option.splits if_splits)
  then show p: "purge_replay now l = l" and "now < lr_expiry l" by (simp_all add: purge_replay_idem)
  show "put_lease q l (cleanup_expired now st) = cleanup_expired now st"
    using assms(2) by (simp add: put_lease_def update_triv_list)
  have "lr_next_replay_expiry l0 = min_expiry (lr_replay l0)" using store_okD(2) [OF assms(1) l0(3)] by (simp add: lease_ok_def)
  then show "\<forall>r \<in> set (lr_replay l). now < rr_expiry r" by (simp add: l0(1) purge_replay_eq)
qed

section \<open>Replay records\<close>

lemma min_expiry_snoc: "min_expiry (rs @ [r]) = Some (case min_expiry rs of None \<Rightarrow> rr_expiry r | Some old \<Rightarrow> min old (rr_expiry r))"
  by (simp add: min_expiry_def min.commute)

lemma record_replay_Inr:
  "record_replay epoch op nonce expiry n l = Inr l' \<longleftrightarrow> replay_count l op < n
     \<and> l' = l\<lparr>lr_replay := lr_replay l @ [\<lparr>rr_epoch = epoch, rr_operation = op, rr_nonce = nonce, rr_expiry = expiry, rr_gc2_push_binding = None\<rparr>],
              lr_next_replay_expiry := Some (case lr_next_replay_expiry l of None \<Rightarrow> expiry | Some old \<Rightarrow> min old expiry)\<rparr>"
  by (auto simp: record_replay_def reject_def)

lemma record_gc2_push_Inr:
  "record_gc2_push epoch nonce expiry binding n l = Inr l' \<longleftrightarrow> replay_count l OpPush < n
     \<and> l' = l\<lparr>lr_replay := lr_replay l @ [\<lparr>rr_epoch = epoch, rr_operation = OpPush, rr_nonce = nonce, rr_expiry = expiry, rr_gc2_push_binding = Some binding\<rparr>],
              lr_next_replay_expiry := Some (case lr_next_replay_expiry l of None \<Rightarrow> expiry | Some old \<Rightarrow> min old expiry)\<rparr>"
  by (auto simp: record_gc2_push_def record_replay_Inr)

lemma has_replay_iff:
  assumes "lease_ok c q l"
  shows "has_replay l (lr_epoch l) op nonce \<longleftrightarrow> (op, nonce) \<in> replay_key ` set (lr_replay l)"
  using assms by (force simp: has_replay_def list_ex_iff lease_ok_def replay_key_def)

lemma append_replay_ok:
  assumes "lease_ok c q l" and "rr_epoch r = lr_epoch l" and "replay_key r \<notin> replay_key ` set (lr_replay l)"
    and "replay_count l (rr_operation r) < replay_bound c (rr_operation r)" and "rr_expiry r = expiry"
  shows "lease_ok c q (l\<lparr>lr_replay := lr_replay l @ [r],
     lr_next_replay_expiry := Some (case lr_next_replay_expiry l of None \<Rightarrow> expiry | Some old \<Rightarrow> min old expiry)\<rparr>)"
  using assms by (auto simp: lease_ok_def min_expiry_snoc replay_count_def)

lemma record_replay_ok:
  assumes "lease_ok c q l" and "record_replay (lr_epoch l) op nonce expiry (replay_bound c op) l = Inr l'"
    and "\<not> has_replay l (lr_epoch l) op nonce"
  shows "lease_ok c q l'"
  using assms append_replay_ok [of c q l "\<lparr>rr_epoch = lr_epoch l, rr_operation = op, rr_nonce = nonce, rr_expiry = expiry, rr_gc2_push_binding = None\<rparr>" expiry]
  by (simp add: record_replay_Inr has_replay_iff [OF assms(1)] replay_key_def)

lemma record_gc2_push_ok:
  assumes "lease_ok c q l" and "record_gc2_push (lr_epoch l) nonce expiry binding (sc_max_replay_nonces_per_lease c) l = Inr l'"
    and "\<not> has_replay l (lr_epoch l) OpPush nonce"
  shows "lease_ok c q l'"
  using assms append_replay_ok [of c q l "\<lparr>rr_epoch = lr_epoch l, rr_operation = OpPush, rr_nonce = nonce, rr_expiry = expiry, rr_gc2_push_binding = Some binding\<rparr>" expiry]
  by (simp add: record_gc2_push_Inr has_replay_iff [OF assms(1)] replay_key_def replay_bound_def)

section \<open>Lease operations: the branches\<close>

lemma operation_lease_Inr:
  "operation_lease wire now horizon st = Inr (q, policy, l) \<longleftrightarrow>
     short_queue_id wire = Inr q \<and> store_policy st now horizon = Inr policy \<and> map_of (ls_leases st) q = Some l"
  by (auto simp: operation_lease_def ok_or_def split: option.splits)

lemma require_binding_Inr: "require_binding l q e = Inr () \<longleftrightarrow> lr_queue_id l = q \<and> lr_epoch l = e"
  by (simp add: require_binding_def)

text \<open>Whether a lease may run to an expiry.\<close>

definition within_temporary :: "lease_record \<Rightarrow> u64 \<Rightarrow> bool" where
  "within_temporary l expiry \<longleftrightarrow> (\<forall>t. lr_temporary_expiry l = Some t \<longrightarrow> expiry \<le> t)"

lemma within_temporary_iff:
  "(case lr_temporary_expiry l of None \<Rightarrow> False | Some t \<Rightarrow> t < expiry) \<longleftrightarrow> \<not> within_temporary l expiry"
  by (auto simp: within_temporary_def not_le split: option.splits)

lemma store_renew_cases:
  assumes ok: "store_ok st"
  obtains (refused) e where "store_renew hmac wire now st = (Inl e, cleanup_expired now st)"
  | (renewed) q l v l' policy where "map_of (ls_leases (cleanup_expired now st)) q = Some l"
      "renew_decode_and_verify hmac (cap_admin (lr_capabilities l)) (ls_relay_service_id st) (lr_expiry l) policy wire = Inr v"
      "lr_queue_id l = ln_queue_id v" "lr_epoch l = ln_epoch v" "within_temporary l (ln_lease_expiry v)"
      "\<not> has_replay l (ln_epoch v) OpRenew (ln_nonce v)"
      "record_replay (ln_epoch v) OpRenew (ln_nonce v) (ln_lease_expiry v) (sc_max_replay_nonces_per_lease (ls_config st)) l = Inr l'"
      "store_renew hmac wire now st = (Inr (lease_record_view (l'\<lparr>lr_expiry := ln_lease_expiry v\<rparr>)), put_lease q (l'\<lparr>lr_expiry := ln_lease_expiry v\<rparr>) (cleanup_expired now st))"
proof (cases "operation_lease wire now (sc_max_lease_lifetime_secs (ls_config st)) (cleanup_expired now st)")
  case (Inl e)
  then show thesis by (intro refused) (simp add: store_renew_def)
next
  case (Inr t)
  obtain q policy l where t: "t = (q, policy, l)" by (cases t) auto
  have l: "map_of (ls_leases (cleanup_expired now st)) q = Some l" using Inr t by (simp add: operation_lease_Inr)
  note p = cleanup_purged(1,2) [OF ok l] and d = store_renew_def [of hmac wire now st, unfolded Let_def cleanup_fields Inr t sum.case prod.case p]
  show thesis
  proof (cases "fst (store_renew hmac wire now st)")
    case (Inl e)
    then show thesis by (intro refused [of e]) (auto simp: d p split: sum.splits)
  next
    case (Inr view)
    then obtain v l' where v: "renew_decode_and_verify hmac (cap_admin (lr_capabilities l)) (ls_relay_service_id st) (lr_expiry l) policy wire = Inr v"
      "lr_queue_id l = ln_queue_id v" "lr_epoch l = ln_epoch v" "within_temporary l (ln_lease_expiry v)"
      "\<not> has_replay l (ln_epoch v) OpRenew (ln_nonce v)"
      "record_replay (ln_epoch v) OpRenew (ln_nonce v) (ln_lease_expiry v) (sc_max_replay_nonces_per_lease (ls_config st)) l = Inr l'"
      by (auto simp: d p require_binding_Inr within_temporary_iff split: sum.splits)
    show thesis by (rule renewed [OF l v]) (use v in \<open>simp add: d p require_binding_def within_temporary_iff\<close>)
  qed
qed

definition rotated_lease :: "lease_rotate \<Rightarrow> lease_record \<Rightarrow> lease_record" where
  "rotated_lease v l = l\<lparr>lr_capabilities := lo_new_capabilities v, lr_epoch := lo_new_epoch v,
     lr_expiry := lo_lease_expiry v, lr_replay := [], lr_next_replay_expiry := None\<rparr>"

lemma store_rotate_cases:
  assumes ok: "store_ok st"
  obtains (refused) e where "store_rotate hmac wire now st = (Inl e, cleanup_expired now st)"
  | (rotated) q l v policy where "map_of (ls_leases (cleanup_expired now st)) q = Some l"
      "rotate_decode_and_verify hmac (lr_capabilities l) (ls_relay_service_id st) policy wire = Inr v"
      "lr_queue_id l = lo_queue_id v" "lr_epoch l = lo_old_epoch v" "within_temporary l (lo_lease_expiry v)"
      "store_rotate hmac wire now st = (Inr (lease_record_view (rotated_lease v l)), put_lease q (rotated_lease v l) (cleanup_expired now st))"
proof (cases "operation_lease wire now (sc_max_lease_lifetime_secs (ls_config st)) (cleanup_expired now st)")
  case (Inl e)
  then show thesis by (intro refused) (simp add: store_rotate_def)
next
  case (Inr t)
  obtain q policy l where t: "t = (q, policy, l)" by (cases t) auto
  have l: "map_of (ls_leases (cleanup_expired now st)) q = Some l" using Inr t by (simp add: operation_lease_Inr)
  note p = cleanup_purged(1,2) [OF ok l] and d = store_rotate_def [of hmac wire now st, unfolded Let_def cleanup_fields Inr t sum.case prod.case p]
  have x: "map_of (qs_queues (ls_queues (cleanup_expired now st))) q \<noteq> None" using store_okD(3) [OF cleanup_ok [OF ok]] l by simp
  show thesis
  proof (cases "fst (store_rotate hmac wire now st)")
    case (Inl e)
    then show thesis using x by (intro refused [of e]) (auto simp: d p split: sum.splits if_splits)
  next
    case (Inr view)
    then obtain v where v: "rotate_decode_and_verify hmac (lr_capabilities l) (ls_relay_service_id st) policy wire = Inr v"
      "lr_queue_id l = lo_queue_id v" "lr_epoch l = lo_old_epoch v" "within_temporary l (lo_lease_expiry v)"
      by (auto simp: d p require_binding_Inr within_temporary_iff split: sum.splits)
    show thesis by (rule rotated [OF l v]) (use v x in \<open>simp add: d p require_binding_def within_temporary_iff rotated_lease_def\<close>)
  qed
qed

lemma store_revoke_cases:
  assumes ok: "store_ok st"
  obtains (refused) e where "store_revoke hmac wire now st = (Inl e, cleanup_expired now st)"
  | (revoked) q l v policy where "map_of (ls_leases (cleanup_expired now st)) q = Some l"
      "revoke_decode_and_verify hmac (cap_admin (lr_capabilities l)) (ls_relay_service_id st) policy wire = Inr v"
      "lr_queue_id l = lv_queue_id v" "lr_epoch l = lv_epoch v"
      "store_revoke hmac wire now st = (Inr (), remove_lease q (cleanup_expired now st))"
proof (cases "fst (store_revoke hmac wire now st)")
  case (Inl e)
  then show thesis by (intro refused [of e]) (auto simp: store_revoke_def Let_def split: sum.splits)
next
  case (Inr u)
  then obtain q policy l v where o: "operation_lease wire now (sc_max_lease_lifetime_secs (ls_config st)) (cleanup_expired now st) = Inr (q, policy, l)"
    and v: "revoke_decode_and_verify hmac (cap_admin (lr_capabilities l)) (ls_relay_service_id st) policy wire = Inr v"
      "lr_queue_id l = lv_queue_id v" "lr_epoch l = lv_epoch v"
    by (auto simp: store_revoke_def Let_def require_binding_Inr split: sum.splits)
  then have l: "map_of (ls_leases (cleanup_expired now st)) q = Some l" by (simp add: operation_lease_Inr)
  show thesis by (rule revoked [OF l v]) (use o v in \<open>simp add: store_revoke_def require_binding_def\<close>)
qed

lemma authenticate_sub_cases:
  assumes ok: "store_ok st"
  obtains (refused) e where "authenticate_sub hmac c now st = (Inl e, cleanup_expired now st)"
  | (subscribed) q l s l' where "map_of (ls_leases (cleanup_expired now st)) q = Some l"
      "sub_decode_from_cell hmac (cap_sub (lr_capabilities l)) (ls_relay_service_id st) now c = Inr s"
      "lr_queue_id l = rs_queue_id s" "lr_epoch l = rs_epoch s" "rs_expiry s \<le> lr_expiry l"
      "\<not> has_replay l (rs_epoch s) OpSubscribe (rs_nonce s)"
      "record_replay (rs_epoch s) OpSubscribe (rs_nonce s) (rs_expiry s) (sc_max_subscription_nonces_per_lease (ls_config st)) l = Inr l'"
      "authenticate_sub hmac c now st = (Inr s, put_lease q l' (cleanup_expired now st))"
proof (cases "rbind (short_queue_id (c_payload c)) (\<lambda>q. rbind (ok_or StUnauthorized (map_of (ls_leases (cleanup_expired now st)) q)) (\<lambda>l. Inr (q, l)))")
  case (Inl e)
  then show thesis by (intro refused) (simp add: authenticate_sub_def)
next
  case (Inr t)
  obtain q l where t: "t = (q, l)" by (cases t) auto
  have l: "map_of (ls_leases (cleanup_expired now st)) q = Some l" using Inr t by (auto simp: ok_or_def split: option.splits)
  note p = cleanup_purged(1,2) [OF ok l] and d = authenticate_sub_def [of hmac c now st, unfolded Let_def cleanup_fields Inr t sum.case prod.case p]
  show thesis
  proof (cases "fst (authenticate_sub hmac c now st)")
    case (Inl e)
    then show thesis by (intro refused [of e]) (auto simp: d p split: sum.splits)
  next
    case (Inr view)
    then obtain s l' where v: "sub_decode_from_cell hmac (cap_sub (lr_capabilities l)) (ls_relay_service_id st) now c = Inr s"
      "lr_queue_id l = rs_queue_id s" "lr_epoch l = rs_epoch s" "rs_expiry s \<le> lr_expiry l"
      "\<not> has_replay l (rs_epoch s) OpSubscribe (rs_nonce s)"
      "record_replay (rs_epoch s) OpSubscribe (rs_nonce s) (rs_expiry s) (sc_max_subscription_nonces_per_lease (ls_config st)) l = Inr l'"
      by (auto simp: d p require_binding_Inr not_less split: sum.splits)
    show thesis by (rule subscribed [OF l v]) (use v leD [OF v(4)] in \<open>simp add: d p require_binding_def\<close>)
  qed
qed

lemma store_put_lease:
  assumes ok: "store_ok st" and l: "map_of (ls_leases (cleanup_expired now st)) q = Some l"
    and l': "lease_ok (ls_config st) q l'" "lr_limits l' = lr_limits l"
  shows "store_ok (put_lease q l' (cleanup_expired now st))"
  by (rule put_lease_ok [OF cleanup_ok [OF ok] l]) (use l' in simp_all)

lemma cleanup_lease_ok:
  "store_ok st \<Longrightarrow> map_of (ls_leases (cleanup_expired now st)) q = Some l \<Longrightarrow> lease_ok (ls_config st) q l"
  using store_okD(2) [OF cleanup_ok, of st now q l] by simp

lemma store_renew_ok:
  assumes ok: "store_ok st"
  shows "store_ok (snd (store_renew hmac wire now st))"
  using ok
proof (cases rule: store_renew_cases [where hmac = hmac and wire = wire and now = now])
  case (refused e)
  then show ?thesis using cleanup_ok [OF ok] by simp
next
  case (renewed q l v l' policy)
  note lo = cleanup_lease_ok [OF ok renewed(1)]
  have "lease_ok (ls_config st) q l'"
    using record_replay_ok [OF lo, of OpRenew "ln_nonce v" "ln_lease_expiry v"] renewed by (simp add: replay_bound_def)
  moreover have "lr_temporary_expiry l' = lr_temporary_expiry l" "lr_limits l' = lr_limits l" using renewed(7) by (simp_all add: record_replay_Inr)
  ultimately have "lease_ok (ls_config st) q (l'\<lparr>lr_expiry := ln_lease_expiry v\<rparr>)"
    using renewed(5) by (simp add: lease_ok_def within_temporary_def replay_count_def)
  with store_put_lease [OF ok renewed(1)] renewed(8) \<open>lr_limits l' = lr_limits l\<close> show ?thesis by simp
qed

lemma store_rotate_ok:
  assumes ok: "store_ok st"
  shows "store_ok (snd (store_rotate hmac wire now st))"
  using ok
proof (cases rule: store_rotate_cases [where hmac = hmac and wire = wire and now = now])
  case (refused e)
  then show ?thesis using cleanup_ok [OF ok] by simp
next
  case (rotated q l v policy)
  have "lease_ok (ls_config st) q (rotated_lease v l)"
    using cleanup_lease_ok [OF ok rotated(1)] rotated(5)
    by (simp add: lease_ok_def rotated_lease_def within_temporary_def min_expiry_def replay_count_def)
  with store_put_lease [OF ok rotated(1)] rotated(6) show ?thesis by (simp add: rotated_lease_def)
qed

lemma store_revoke_ok:
  assumes ok: "store_ok st"
  shows "store_ok (snd (store_revoke hmac wire now st))"
  using ok by (cases rule: store_revoke_cases [where hmac = hmac and wire = wire and now = now]) (simp_all add: cleanup_ok ok remove_lease_ok)

lemma authenticate_sub_ok:
  assumes ok: "store_ok st"
  shows "store_ok (snd (authenticate_sub hmac c now st))"
  using ok
proof (cases rule: authenticate_sub_cases [where hmac = hmac and c = c and now = now])
  case (refused e)
  then show ?thesis using cleanup_ok [OF ok] by simp
next
  case (subscribed q l s l')
  have "lease_ok (ls_config st) q l'"
    using record_replay_ok [OF cleanup_lease_ok [OF ok subscribed(1)], of OpSubscribe "rs_nonce s" "rs_expiry s"] subscribed
    by (simp add: replay_bound_def)
  with store_put_lease [OF ok subscribed(1)] subscribed(7,8) show ?thesis by (simp add: record_replay_Inr)
qed

section \<open>Deposits: the branches\<close>

lemma push_enqueue_cases:
  assumes x: "map_of (qs_queues (ls_queues st)) q = Some x"
  obtains (refused) e where "push_enqueue q p msg l st = (Inl e, st)"
  | (enqueued) b nb l' where "length (c_payload msg) \<le> 65535"
      "checked_add (qs_total_bytes (ls_queues st)) (natural_cell_len msg) = Some b" "b \<le> sc_max_total_queue_bytes (ls_config st)"
      "checked_add (q_bytes x) (natural_cell_len msg) = Some nb" "queue_len_of x < unat (ll_max_queue_cells (lr_limits l))"
      "nb \<le> ll_max_queue_bytes (lr_limits l)"
      "record_replay (rp_epoch p) OpPush (rp_nonce p) (rp_expiry p) (sc_max_replay_nonces_per_lease (ls_config st)) l = Inr l'"
      "push_enqueue q p msg l st = (Inr Enqueued, put_lease q l'
         (put_queue q (x\<lparr>q_messages := q_messages x @ [\<lparr>qm_push_nonce = rp_nonce p, qm_cell = msg\<rparr>], q_bytes := nb\<rparr>) b st))"
proof -
  let ?m = "rbind (natural_cell_len_checked msg) (\<lambda>natural_bytes.
           rbind (ok_or StCapacity (checked_add (qs_total_bytes (ls_queues st)) natural_bytes)) (\<lambda>total_after.
           reject (sc_max_total_queue_bytes (ls_config st) < total_after) StCapacity (
           rbind (ok_or StPanic (map_of (qs_queues (ls_queues st)) q)) (\<lambda>queue.
           rbind (ok_or StQueueFull (checked_add (q_bytes queue) natural_bytes)) (\<lambda>next_bytes.
           reject (unat (ll_max_queue_cells (lr_limits l)) < queue_len_of queue + 1
              \<or> ll_max_queue_bytes (lr_limits l) < next_bytes) StQueueFull (
           reject (sc_max_replay_nonces_per_lease (ls_config st) \<le> replay_count l OpPush) StReplayCapacity
             (Inr (total_after, queue, next_bytes))))))))"
  show thesis
  proof (cases ?m)
    case (Inl e)
    then show thesis by (intro refused [of e]) (simp add: push_enqueue_def)
  next
    case (Inr t)
    then obtain b nb where t: "t = (b, x, nb)" and len: "length (c_payload msg) \<le> 65535"
      and b: "checked_add (qs_total_bytes (ls_queues st)) (natural_cell_len msg) = Some b" "b \<le> sc_max_total_queue_bytes (ls_config st)"
      and nb: "checked_add (q_bytes x) (natural_cell_len msg) = Some nb" "queue_len_of x < unat (ll_max_queue_cells (lr_limits l))"
      "nb \<le> ll_max_queue_bytes (lr_limits l)" and r: "replay_count l OpPush < sc_max_replay_nonces_per_lease (ls_config st)"
      by (auto simp: natural_cell_len_checked_def x ok_or_def not_less Suc_le_eq split: option.splits)
    define l' where "l' = l\<lparr>lr_replay := lr_replay l @ [\<lparr>rr_epoch = rp_epoch p, rr_operation = OpPush, rr_nonce = rp_nonce p, rr_expiry = rp_expiry p, rr_gc2_push_binding = None\<rparr>],
              lr_next_replay_expiry := Some (case lr_next_replay_expiry l of None \<Rightarrow> rp_expiry p | Some old \<Rightarrow> min old (rp_expiry p))\<rparr>"
    have rec: "record_replay (rp_epoch p) OpPush (rp_nonce p) (rp_expiry p) (sc_max_replay_nonces_per_lease (ls_config st)) l = Inr l'"
      using r by (simp add: record_replay_Inr l'_def)
    show thesis by (rule enqueued [OF len b nb rec]) (simp only: push_enqueue_def Inr t sum.case prod.case, simp add: rec put_queue_def)
  qed
qed

lemma authenticate_push_cases:
  assumes ok: "store_ok st"
  obtains (refused) e where "authenticate_push hmac c now st = (Inl e, cleanup_expired now st)"
  | (duplicate) q l p where "map_of (ls_leases (cleanup_expired now st)) q = Some l"
      "push_decode_from_cell hmac (cap_push (lr_capabilities l)) (ls_relay_service_id st) now c = Inr p"
      "rp_queue_id p = q" "rp_epoch p = lr_epoch l" "has_replay l (lr_epoch l) OpPush (rp_nonce p)"
      "authenticate_push hmac c now st = (Inr Duplicate, cleanup_expired now st)"
  | (covered) q l p l' where "map_of (ls_leases (cleanup_expired now st)) q = Some l"
      "push_decode_from_cell hmac (cap_push (lr_capabilities l)) (ls_relay_service_id st) now c = Inr p"
      "rp_queue_id p = q" "rp_epoch p = lr_epoch l" "rp_expiry p \<le> lr_expiry l" "\<not> has_replay l (lr_epoch l) OpPush (rp_nonce p)"
      "rp_msg p = None"
      "record_replay (lr_epoch l) OpPush (rp_nonce p) (rp_expiry p) (sc_max_replay_nonces_per_lease (ls_config st)) l = Inr l'"
      "authenticate_push hmac c now st = (Inr Cover, put_lease q l' (cleanup_expired now st))"
  | (enqueued) q l p msg where "map_of (ls_leases (cleanup_expired now st)) q = Some l"
      "push_decode_from_cell hmac (cap_push (lr_capabilities l)) (ls_relay_service_id st) now c = Inr p"
      "rp_queue_id p = q" "rp_epoch p = lr_epoch l" "rp_expiry p \<le> lr_expiry l" "\<not> has_replay l (lr_epoch l) OpPush (rp_nonce p)"
      "rp_msg p = Some msg" "authenticate_push hmac c now st = push_enqueue q p msg l (cleanup_expired now st)"
proof (cases "rbind (ok_or StPanic (nested_parts c)) (\<lambda>parts.
     rbind (ok_or StUnauthorized (map_of (ls_leases (cleanup_expired now st)) (pp_queue_id parts))) (\<lambda>l. Inr (pp_queue_id parts, l)))")
  case (Inl e)
  then show thesis by (intro refused) (simp add: authenticate_push_def)
next
  case (Inr t)
  obtain q l where t: "t = (q, l)" by (cases t) auto
  have l: "map_of (ls_leases (cleanup_expired now st)) q = Some l" using Inr t by (auto simp: ok_or_def split: option.splits)
  note lo = cleanup_lease_ok [OF ok l]
  note p = cleanup_purged(1,2) [OF ok l] and d = authenticate_push_def [of hmac c now st, unfolded Let_def cleanup_fields Inr t sum.case prod.case p]
  show thesis
  proof (cases "rbind (map_err StRelay (push_decode_from_cell hmac (cap_push (lr_capabilities l)) (ls_relay_service_id st) now c)) (\<lambda>push.
                rbind (require_binding l (rp_queue_id push) (rp_epoch push)) (\<lambda>_.
                reject (lr_expiry l < rp_expiry push) StUnauthorized (Inr push)))")
    case (Inl e)
    then show thesis by (intro refused [of e]) (simp add: d p)
  next
    case (Inr push)
    then have v: "push_decode_from_cell hmac (cap_push (lr_capabilities l)) (ls_relay_service_id st) now c = Inr push"
      "rp_queue_id push = q" "rp_epoch push = lr_epoch l" "rp_expiry push \<le> lr_expiry l"
      using lo by (auto simp: require_binding_Inr not_less lease_ok_def)
    show thesis
    proof (cases "has_replay l (lr_epoch l) OpPush (rp_nonce push)")
      case True
      then have "authenticate_push hmac c now st = (Inl StReplay, cleanup_expired now st)
          \<or> authenticate_push hmac c now st = (Inr Duplicate, cleanup_expired now st)"
        using Inr v(3) by (simp add: d p)
      then show thesis using refused [of StReplay] duplicate [OF l v(1,2,3) True] by blast
    next
      case False
      show thesis
      proof (cases "rp_msg push")
        case None
        show thesis
        proof (cases "record_replay (lr_epoch l) OpPush (rp_nonce push) (rp_expiry push) (sc_max_replay_nonces_per_lease (ls_config st)) l")
          case (Inl e)
          with None False Inr v(3) show thesis by (intro refused [of e]) (simp add: d p)
        next
          case r: (Inr l')
          show thesis by (rule covered [OF l v False None r]) (use None False Inr v(3) r in \<open>simp add: d p\<close>)
        qed
      next
        case (Some msg)
        show thesis by (rule enqueued [OF l v False Some]) (use Some False Inr v(3) in \<open>simp add: d p\<close>)
      qed
    qed
  qed
qed

section \<open>Deposits keep the invariant\<close>

lemma unat_natural_cell_len: "length (c_payload c) \<le> 65535 \<Longrightarrow> unat (natural_cell_len c) = HEADER_LEN + length (c_payload c)"
  by (simp add: natural_cell_len_def HEADER_LEN_def unat_word_ariths unat_of_nat)

lemma checked_add_unat: "checked_add a b = Some c \<Longrightarrow> unat c = unat a + unat b"
  by (simp add: checked_add_Some unat_plus_u64)

lemma append_message_ok:
  assumes "queue_ok limits x" and "length (c_payload msg) \<le> 65535" and "checked_add (q_bytes x) (natural_cell_len msg) = Some nb"
    and "queue_len_of x < unat (ll_max_queue_cells limits)" and "nb \<le> ll_max_queue_bytes limits"
  shows "queue_ok limits (x\<lparr>q_messages := q_messages x @ [\<lparr>qm_push_nonce = n, qm_cell = msg\<rparr>], q_bytes := nb\<rparr>)"
  using assms by (auto simp: queue_ok_def message_bytes_def queue_len_of_def checked_add_unat unat_natural_cell_len)

lemma store_put_both:
  assumes ok: "store_ok st" and l: "map_of (ls_leases st) q = Some l" and x: "map_of (qs_queues (ls_queues st)) q = Some x"
    and l': "lease_ok (ls_config st) q l'" "lr_limits l' = lr_limits l" and x': "queue_ok (lr_limits l) x'"
    and b: "unat b + unat (q_bytes x) = unat (qs_total_bytes (ls_queues st)) + unat (q_bytes x')"
    and le: "b \<le> sc_max_total_queue_bytes (ls_config st)"
  shows "store_ok (put_lease q l' (put_queue q x' b st))"
proof (rule put_lease_ok [OF put_queue_ok [OF ok x l x' b le]])
  show "map_of (ls_leases (put_queue q x' b st)) q = Some l" using l by (simp add: put_queue_def)
qed (use l' in \<open>simp_all add: put_queue_def\<close>)

lemma lease_queue:
  assumes "store_ok st" "map_of (ls_leases st) q = Some l"
  obtains x where "map_of (qs_queues (ls_queues st)) q = Some x" "queue_ok (lr_limits l) x"
  using store_okD(3) [OF assms(1), of q] store_okD(4) [OF assms] assms(2) by (cases "map_of (qs_queues (ls_queues st)) q") auto

lemma push_enqueue_ok:
  assumes ok: "store_ok st" and l: "map_of (ls_leases st) q = Some l" and r: "\<not> has_replay l (lr_epoch l) OpPush (rp_nonce p)"
    and e: "rp_epoch p = lr_epoch l"
  shows "store_ok (snd (push_enqueue q p msg l st))"
proof -
  obtain x where x: "map_of (qs_queues (ls_queues st)) q = Some x" "queue_ok (lr_limits l) x" by (rule lease_queue [OF ok l])
  show ?thesis using x(1)
  proof (cases rule: push_enqueue_cases [where p = p and msg = msg and l = l])
    case (enqueued b nb l')
    have "lease_ok (ls_config st) q l'"
      using record_replay_ok [OF store_okD(2) [OF ok l], of OpPush "rp_nonce p" "rp_expiry p"] enqueued(7) e r by (simp add: replay_bound_def)
    moreover have "lr_limits l' = lr_limits l" using enqueued(7) by (simp add: record_replay_Inr)
    moreover note append_message_ok [OF x(2) enqueued(1,4,5,6), of "rp_nonce p"]
    moreover have "unat b + unat (q_bytes x) = unat (qs_total_bytes (ls_queues st)) + unat nb"
      using enqueued(2,4) by (simp add: checked_add_unat)
    ultimately show ?thesis using enqueued(3,8) by (simp add: store_put_both [OF ok l x(1)])
  qed (simp add: ok)
qed

lemma authenticate_push_ok:
  assumes ok: "store_ok st"
  shows "store_ok (snd (authenticate_push hmac c now st))"
  using ok
proof (cases rule: authenticate_push_cases [where hmac = hmac and c = c and now = now])
  case (covered q l p l')
  have "lease_ok (ls_config st) q l'"
    using record_replay_ok [OF cleanup_lease_ok [OF ok covered(1)], of OpPush "rp_nonce p" "rp_expiry p"] covered by (simp add: replay_bound_def)
  with store_put_lease [OF ok covered(1)] covered(8,9) show ?thesis by (simp add: record_replay_Inr)
next
  case (enqueued q l p msg)
  then show ?thesis using push_enqueue_ok [OF cleanup_ok [OF ok] enqueued(1,6,4)] by simp
qed (simp_all add: cleanup_ok ok)

section \<open>GC/2 deposits and subscriptions: the branches\<close>

lemma push_enqueue_gc2_cases:
  assumes x: "map_of (qs_queues (ls_queues st)) q = Some x"
  obtains (refused) e where "push_enqueue_gc2 q p msg binding l st = (Inl e, st)"
  | (enqueued) b nb l' where
      "checked_add (qs_total_bytes (ls_queues st)) (of_nat (encoded_len msg)) = Some b" "b \<le> sc_max_total_queue_bytes (ls_config st)"
      "checked_add (q_bytes x) (of_nat (encoded_len msg)) = Some nb" "queue_len_of x < unat (ll_max_queue_cells (lr_limits l))"
      "nb \<le> ll_max_queue_bytes (lr_limits l)"
      "record_gc2_push (gp_epoch p) (gp_nonce p) (gp_expiry p) binding (sc_max_replay_nonces_per_lease (ls_config st)) l = Inr l'"
      "push_enqueue_gc2 q p msg binding l st = (Inr Enqueued, put_lease q l'
         (put_queue q (set_class_messages (gp_class p) (class_messages (gp_class p) x @ [\<lparr>nm_push_nonce = gp_nonce p, nm_cell = msg\<rparr>])
            (x\<lparr>q_bytes := nb\<rparr>)) b st))"
proof (cases "fst (push_enqueue_gc2 q p msg binding l st)")
  case (Inl e)
  then show thesis by (intro refused [of e]) (auto simp: push_enqueue_gc2_def Let_def split: sum.splits)
next
  case (Inr r)
  then obtain b nb l' where v: "checked_add (qs_total_bytes (ls_queues st)) (of_nat (encoded_len msg)) = Some b" "b \<le> sc_max_total_queue_bytes (ls_config st)"
      "checked_add (q_bytes x) (of_nat (encoded_len msg)) = Some nb" "queue_len_of x < unat (ll_max_queue_cells (lr_limits l))"
      "nb \<le> ll_max_queue_bytes (lr_limits l)"
      "record_gc2_push (gp_epoch p) (gp_nonce p) (gp_expiry p) binding (sc_max_replay_nonces_per_lease (ls_config st)) l = Inr l'"
    by (auto simp: push_enqueue_gc2_def x ok_or_def not_less not_le Let_def split: sum.splits option.splits)
  have "class_messages t (x\<lparr>q_bytes := nb\<rparr>) = class_messages t x" for t by (cases t) (simp_all add: class_messages_def)
  then show thesis
    by (intro enqueued [OF v]) (use v leD [OF v(2)] leD [OF v(5)] in \<open>simp add: push_enqueue_gc2_def x ok_or_def Let_def\<close>)
qed

lemma append_natural_ok:
  assumes "queue_ok limits x" and "encoded_len msg \<le> 65535" and "checked_add (q_bytes x) (of_nat (encoded_len msg)) = Some nb"
    and "queue_len_of x < unat (ll_max_queue_cells limits)" and "nb \<le> ll_max_queue_bytes limits"
  shows "queue_ok limits (set_class_messages t (class_messages t x @ [\<lparr>nm_push_nonce = n, nm_cell = msg\<rparr>]) (x\<lparr>q_bytes := nb\<rparr>))"
proof -
  have "unat nb = unat (q_bytes x) + encoded_len msg" using assms(2,3) by (simp add: checked_add_unat unat_of_nat_u64)
  with assms show ?thesis
    by (cases t) (auto simp: queue_ok_def message_bytes_def queue_len_of_def set_class_messages_def class_messages_def)
qed

lemma find_replay_iff:
  assumes "e = lr_epoch l"
  shows "List.find (\<lambda>r. rr_epoch r = e \<and> rr_operation r = op \<and> rr_nonce r = n) (lr_replay l) = None \<longleftrightarrow> \<not> has_replay l (lr_epoch l) op n"
  using assms by (auto simp: find_None_iff has_replay_def list_ex_iff)

lemma authenticate_push_gc2_cases:
  assumes ok: "store_ok st"
  obtains (refused) e where "authenticate_push_gc2 hmac sha u now st = (Inl e, cleanup_expired now st)"
  | (duplicate) l p where "map_of (ls_leases (cleanup_expired now st)) (up_queue_id u) = Some l"
      "unverified_authenticate hmac (cap_push (lr_capabilities l)) (ls_relay_service_id st) now u = Inr p"
      "gp_queue_id p = up_queue_id u" "gp_epoch p = lr_epoch l" "has_replay l (lr_epoch l) OpPush (gp_nonce p)"
      "authenticate_push_gc2 hmac sha u now st = (Inr Duplicate, cleanup_expired now st)"
  | (covered) l p l' where "map_of (ls_leases (cleanup_expired now st)) (up_queue_id u) = Some l"
      "unverified_authenticate hmac (cap_push (lr_capabilities l)) (ls_relay_service_id st) now u = Inr p"
      "gp_queue_id p = up_queue_id u" "gp_epoch p = lr_epoch l" "gp_expiry p \<le> lr_expiry l" "\<not> has_replay l (lr_epoch l) OpPush (gp_nonce p)"
      "gp_msg p = None"
      "record_gc2_push (lr_epoch l) (gp_nonce p) (gp_expiry p) (sha (natural_encode (up_cell u))) (sc_max_replay_nonces_per_lease (ls_config st)) l = Inr l'"
      "authenticate_push_gc2 hmac sha u now st = (Inr Cover, put_lease (up_queue_id u) l' (cleanup_expired now st))"
  | (enqueued) l p msg where "map_of (ls_leases (cleanup_expired now st)) (up_queue_id u) = Some l"
      "unverified_authenticate hmac (cap_push (lr_capabilities l)) (ls_relay_service_id st) now u = Inr p"
      "gp_queue_id p = up_queue_id u" "gp_epoch p = lr_epoch l" "gp_expiry p \<le> lr_expiry l" "\<not> has_replay l (lr_epoch l) OpPush (gp_nonce p)"
      "gp_msg p = Some msg"
      "authenticate_push_gc2 hmac sha u now st = push_enqueue_gc2 (up_queue_id u) p msg (sha (natural_encode (up_cell u))) l (cleanup_expired now st)"
proof (cases "map_of (ls_leases (cleanup_expired now st)) (up_queue_id u)")
  case None
  then show thesis by (intro refused) (simp add: authenticate_push_gc2_def)
next
  case (Some l)
  note lo = cleanup_lease_ok [OF ok Some]
  note d = authenticate_push_gc2_def [of hmac sha u now st, unfolded Let_def cleanup_fields Some option.case]
  show thesis
  proof (cases "rbind (map_err StRelay (unverified_authenticate hmac (cap_push (lr_capabilities l)) (ls_relay_service_id st) now u)) (\<lambda>push.
                rbind (require_binding l (gp_queue_id push) (gp_epoch push)) (\<lambda>_.
                reject (lr_expiry l < gp_expiry push) StUnauthorized (Inr push)))")
    case (Inl e)
    then show thesis by (intro refused [of e]) (simp add: d)
  next
    case (Inr push)
    then have v: "unverified_authenticate hmac (cap_push (lr_capabilities l)) (ls_relay_service_id st) now u = Inr push"
      "gp_queue_id push = up_queue_id u" "gp_epoch push = lr_epoch l" "gp_expiry push \<le> lr_expiry l"
      using lo by (auto simp: require_binding_Inr not_less lease_ok_def)
    note d = d [unfolded Inr sum.case] and f = find_replay_iff [OF v(3), of OpPush "gp_nonce push"]
    show thesis
    proof (cases "has_replay l (lr_epoch l) OpPush (gp_nonce push)")
      case True
      then obtain r where "List.find (\<lambda>r. rr_epoch r = gp_epoch push \<and> rr_operation r = OpPush \<and> rr_nonce r = gp_nonce push) (lr_replay l) = Some r"
        using f by auto
      then have "authenticate_push_gc2 hmac sha u now st = (Inl StReplay, cleanup_expired now st)
          \<or> authenticate_push_gc2 hmac sha u now st = (Inr Duplicate, cleanup_expired now st)"
        by (simp add: d)
      then show thesis using refused [of StReplay] duplicate [OF Some v(1,2,3) True] by blast
    next
      case False
      then have "List.find (\<lambda>r. rr_epoch r = gp_epoch push \<and> rr_operation r = OpPush \<and> rr_nonce r = gp_nonce push) (lr_replay l) = None"
        using f by simp
      note d = d [unfolded this option.case]
      show thesis
      proof (cases "gp_msg push")
        case None
        show thesis
        proof (cases "record_gc2_push (lr_epoch l) (gp_nonce push) (gp_expiry push) (sha (natural_encode (up_cell u))) (sc_max_replay_nonces_per_lease (ls_config st)) l")
          case (Inl e)
          with None v(3) show thesis by (intro refused [of e]) (simp add: d)
        next
          case r: (Inr l')
          show thesis by (rule covered [OF Some v False None r]) (use None v(3) r in \<open>simp add: d\<close>)
        qed
      next
        case m: (Some msg)
        show thesis by (rule enqueued [OF Some v False m]) (use m v(3) in \<open>simp add: d\<close>)
      qed
    qed
  qed
qed

lemma unverified_authenticate_msg:
  assumes "unverified_authenticate hmac cap sid now u = Inr p" "gp_msg p = Some msg"
  shows "encoded_len msg \<le> 65535"
proof -
  have "gp_ok p" using assms(1) by (auto simp: unverified_authenticate_def gc2_push_decode_def gc2_push_parse_iff)
  then show ?thesis using assms(2) message_len [of msg] by (simp add: gp_ok_def encoded_len_def HEADER_LEN_def)
qed

lemma push_enqueue_gc2_ok:
  assumes ok: "store_ok st" and l: "map_of (ls_leases st) q = Some l" and r: "\<not> has_replay l (lr_epoch l) OpPush (gp_nonce p)"
    and e: "gp_epoch p = lr_epoch l" and m: "encoded_len msg \<le> 65535"
  shows "store_ok (snd (push_enqueue_gc2 q p msg binding l st))"
proof -
  obtain x where x: "map_of (qs_queues (ls_queues st)) q = Some x" "queue_ok (lr_limits l) x" by (rule lease_queue [OF ok l])
  show ?thesis using x(1)
  proof (cases rule: push_enqueue_gc2_cases [where p = p and msg = msg and l = l and binding = binding])
    case (enqueued b nb l')
    have "lease_ok (ls_config st) q l'"
      using record_gc2_push_ok [OF store_okD(2) [OF ok l], of "gp_nonce p" "gp_expiry p" binding l'] enqueued(6) e r by simp
    moreover have "lr_limits l' = lr_limits l" using enqueued(6) by (simp add: record_gc2_push_Inr)
    moreover note append_natural_ok [OF x(2) m enqueued(3,4,5), of "gp_class p" "gp_nonce p"]
    moreover have "q_bytes (set_class_messages t ms (x\<lparr>q_bytes := nb\<rparr>)) = nb" for t ms by (cases t) (simp_all add: set_class_messages_def)
    moreover have "unat b + unat (q_bytes x) = unat (qs_total_bytes (ls_queues st)) + unat nb"
      using enqueued(1,3) by (simp add: checked_add_unat)
    ultimately show ?thesis using enqueued(2,7) by (simp add: store_put_both [OF ok l x(1)])
  qed (simp add: ok)
qed

lemma authenticate_push_gc2_ok:
  assumes ok: "store_ok st"
  shows "store_ok (snd (authenticate_push_gc2 hmac sha u now st))"
  using ok
proof (cases rule: authenticate_push_gc2_cases [where hmac = hmac and sha = sha and u = u and now = now])
  case (covered l p l')
  have "lease_ok (ls_config st) (up_queue_id u) l'"
    using record_gc2_push_ok [OF cleanup_lease_ok [OF ok covered(1)] covered(8)] covered(6) by simp
  with store_put_lease [OF ok covered(1)] covered(8,9) show ?thesis by (simp add: record_gc2_push_Inr)
next
  case (enqueued l p msg)
  then show ?thesis
    using push_enqueue_gc2_ok [OF cleanup_ok [OF ok] enqueued(1,6,4) unverified_authenticate_msg [OF enqueued(2,7)]] by simp
qed (simp_all add: cleanup_ok ok)

lemma authenticate_sub_gc2_cases:
  assumes ok: "store_ok st"
  obtains (refused) e where "authenticate_sub_gc2 hmac c now st = (Inl e, cleanup_expired now st)"
  | (subscribed) q l s l' x where "map_of (ls_leases (cleanup_expired now st)) q = Some l"
      "gc2_sub_decode hmac (cap_sub (lr_capabilities l)) (ls_relay_service_id st) now c = Inr s"
      "lr_queue_id l = gs_queue_id s" "lr_epoch l = gs_epoch s" "gs_expiry s \<le> lr_expiry l"
      "\<not> has_replay l (gs_epoch s) OpSubscribe (gs_nonce s)"
      "record_replay (gs_epoch s) OpSubscribe (gs_nonce s) (gs_expiry s) (sc_max_subscription_nonces_per_lease (ls_config st)) l = Inr l'"
      "map_of (qs_queues (ls_queues (cleanup_expired now st))) q = Some x"
      "authenticate_sub_gc2 hmac c now st = (Inr \<lparr>au_subscription = s, au_generation = q_generation x\<rparr>, put_lease q l' (cleanup_expired now st))"
proof (cases "fst (authenticate_sub_gc2 hmac c now st)")
  case (Inl e)
  have "map_of (qs_queues (ls_queues (cleanup_expired now st))) q \<noteq> None" if "map_of (ls_leases (cleanup_expired now st)) q = Some l" for q l
    using store_okD(3) [OF cleanup_ok [OF ok]] that by simp
  with Inl show thesis
    by (intro refused [of e]) (fastforce simp: authenticate_sub_gc2_def Let_def ok_or_def split: sum.splits option.splits)
next
  case (Inr h)
  then obtain bs q l s l' x where b: "get_range (n_payload c) 1 33 = Some bs" "bs = list_of q"
    and l: "map_of (ls_leases (cleanup_expired now st)) q = Some l"
    and v: "gc2_sub_decode hmac (cap_sub (lr_capabilities l)) (ls_relay_service_id st) now c = Inr s"
      "lr_queue_id l = gs_queue_id s" "lr_epoch l = gs_epoch s" "gs_expiry s \<le> lr_expiry l"
      "\<not> has_replay l (gs_epoch s) OpSubscribe (gs_nonce s)"
      "record_replay (gs_epoch s) OpSubscribe (gs_nonce s) (gs_expiry s) (sc_max_subscription_nonces_per_lease (ls_config st)) l = Inr l'"
      "map_of (qs_queues (ls_queues (cleanup_expired now st))) q = Some x"
    by (auto simp: authenticate_sub_gc2_def Let_def ok_or_def require_binding_Inr not_less simp del: One_nat_def split: sum.splits option.splits)
  show thesis
    by (rule subscribed [OF l v]) (use b l v leD [OF v(4)] in \<open>simp add: authenticate_sub_gc2_def ok_or_def require_binding_def del: One_nat_def\<close>)
qed

lemma authenticate_sub_gc2_ok:
  assumes ok: "store_ok st"
  shows "store_ok (snd (authenticate_sub_gc2 hmac c now st))"
  using ok
proof (cases rule: authenticate_sub_gc2_cases [where hmac = hmac and c = c and now = now])
  case (subscribed q l s l' x)
  have "lease_ok (ls_config st) q l'"
    using record_replay_ok [OF cleanup_lease_ok [OF ok subscribed(1)], of OpSubscribe "gs_nonce s" "gs_expiry s"] subscribed
    by (simp add: replay_bound_def)
  with store_put_lease [OF ok subscribed(1)] subscribed(7,9) show ?thesis by (simp add: record_replay_Inr)
qed (simp add: cleanup_ok ok)

section \<open>Delivery\<close>

lemma queue_lease:
  assumes "store_ok st" "map_of (qs_queues (ls_queues st)) q = Some x"
  obtains l where "map_of (ls_leases st) q = Some l" "queue_ok (lr_limits l) x"
  using store_okD(3) [OF assms(1), of q] store_okD(4) [OF assms(1)] assms(2) by (cases "map_of (ls_leases st) q") auto

lemma queue_bytes_le_total:
  assumes "store_ok st" "map_of (qs_queues (ls_queues st)) q = Some x"
  shows "unat (q_bytes x) \<le> unat (qs_total_bytes (ls_queues st))"
  using sum_delete [OF assms(2) store_okD(7) [OF assms(1)], of "unat \<circ> q_bytes"] store_okD(5) [OF assms(1)] by simp

text \<open>The store after the head of a queue, of \<open>n\<close> bytes, left it.\<close>

lemma put_shorter_queue:
  assumes ok: "store_ok st" and x: "map_of (qs_queues (ls_queues st)) q = Some x" and l: "map_of (ls_leases st) q = Some l"
    and x': "queue_ok (lr_limits l) x'" and b: "unat (q_bytes x') + n = unat (q_bytes x)"
    and t: "unat b = unat (qs_total_bytes (ls_queues st)) - n"
  shows "store_ok (put_queue q x' b st)"
proof (rule put_queue_ok [OF ok x l x'])
  have "n \<le> unat (qs_total_bytes (ls_queues st))" using queue_bytes_le_total [OF ok x] b by simp
  then show "unat b + unat (q_bytes x) = unat (qs_total_bytes (ls_queues st)) + unat (q_bytes x')" using b t by simp
  show "b \<le> sc_max_total_queue_bytes (ls_config st)" using store_okD(6) [OF ok] t by (simp add: word_le_nat_alt)
qed

lemma acknowledge_cases:
  obtains (kept) r where "r \<noteq> Removed" "acknowledge q n now st = (r, cleanup_expired now st)"
  | (removed) x m ms where "map_of (qs_queues (ls_queues (cleanup_expired now st))) q = Some x" "q_messages x = m # ms" "qm_push_nonce m = n"
      "acknowledge q n now st = (Removed, put_queue q (x\<lparr>q_messages := ms, q_bytes := saturating_sub (q_bytes x) (natural_cell_len (qm_cell m))\<rparr>)
         (saturating_sub (qs_total_bytes (ls_queues (cleanup_expired now st))) (natural_cell_len (qm_cell m))) (cleanup_expired now st))"
proof (cases "map_of (qs_queues (ls_queues (cleanup_expired now st))) q")
  case None
  then show thesis by (intro kept [of AckEmpty]) (simp_all add: acknowledge_def)
next
  case (Some x)
  show thesis
  proof (cases "q_messages x")
    case Nil
    with Some show thesis by (intro kept [of AckEmpty]) (simp_all add: acknowledge_def)
  next
    case (Cons m ms)
    show thesis
    proof (cases "qm_push_nonce m = n")
      case True
      show thesis by (rule removed [OF Some Cons True]) (use Some Cons True in \<open>simp add: acknowledge_def Let_def\<close>)
    next
      case False
      with Some Cons show thesis by (intro kept [of Mismatch]) (simp_all add: acknowledge_def)
    qed
  qed
qed

lemma acknowledge_ok:
  assumes ok: "store_ok st"
  shows "store_ok (snd (acknowledge q n now st))"
proof (cases rule: acknowledge_cases [where q = q and n = n and now = now and st = st])
  case (kept r)
  then show ?thesis using cleanup_ok [OF ok] by simp
next
  case (removed x m ms)
  note co = cleanup_ok [OF ok, of now]
  obtain l where l: "map_of (ls_leases (cleanup_expired now st)) q = Some l" "queue_ok (lr_limits l) x" by (rule queue_lease [OF co removed(1)])
  have n: "unat (natural_cell_len (qm_cell m)) = HEADER_LEN + length (c_payload (qm_cell m))"
    using l(2) removed(2) by (intro unat_natural_cell_len) (simp add: queue_ok_def)
  let ?x = "x\<lparr>q_messages := ms, q_bytes := saturating_sub (q_bytes x) (natural_cell_len (qm_cell m))\<rparr>"
  have b: "unat (q_bytes ?x) + (HEADER_LEN + length (c_payload (qm_cell m))) = unat (q_bytes x)"
    using l(2) removed(2) n by (simp add: unat_saturating_sub queue_ok_def message_bytes_def)
  then have "queue_ok (lr_limits l) ?x"
    using l(2) removed(2) by (auto simp: queue_ok_def message_bytes_def queue_len_of_def word_le_nat_alt)
  from put_shorter_queue [OF co removed(1) l(1) this b] show ?thesis using removed(4) n by (simp add: unat_saturating_sub)
qed

lemma validate_gc2_Inr:
  "validate_gc2_subscription h now st = Inr () \<longleftrightarrow>
     (\<exists>l x. map_of (ls_leases st) (gs_queue_id (au_subscription h)) = Some l \<and> lr_queue_id l = gs_queue_id (au_subscription h)
        \<and> lr_epoch l = gs_epoch (au_subscription h) \<and> now < gs_expiry (au_subscription h) \<and> gs_expiry (au_subscription h) \<le> lr_expiry l
        \<and> map_of (qs_queues (ls_queues st)) (gs_queue_id (au_subscription h)) = Some x \<and> au_generation h = q_generation x)"
  by (auto simp: validate_gc2_subscription_def Let_def ok_or_def require_binding_def not_le not_less split: option.splits)

lemma class_bytes_le: "sum_list (map (encoded_len \<circ> nm_cell) (class_messages t x)) \<le> message_bytes x"
  by (cases t) (simp_all add: class_messages_def message_bytes_def)

lemma acknowledge_gc2_cases:
  assumes ok: "store_ok st"
  obtains (kept) r where "r \<noteq> Inr Removed" "r \<noteq> Inl StPanic" "acknowledge_gc2 h n now st = (r, cleanup_expired now st)"
  | (removed) x m ms where "validate_gc2_subscription h now (cleanup_expired now st) = Inr ()"
      "map_of (qs_queues (ls_queues (cleanup_expired now st))) (gs_queue_id (au_subscription h)) = Some x"
      "class_messages (gs_class (au_subscription h)) x = m # ms" "nm_push_nonce m = n"
      "unat (q_bytes x - of_nat (encoded_len (nm_cell m))) + encoded_len (nm_cell m) = unat (q_bytes x)"
      "unat (qs_total_bytes (ls_queues (cleanup_expired now st)) - of_nat (encoded_len (nm_cell m)))
         = unat (qs_total_bytes (ls_queues (cleanup_expired now st))) - encoded_len (nm_cell m)"
      "acknowledge_gc2 h n now st = (Inr Removed, put_queue (gs_queue_id (au_subscription h))
         ((set_class_messages (gs_class (au_subscription h)) ms x)\<lparr>q_bytes := q_bytes x - of_nat (encoded_len (nm_cell m))\<rparr>)
         (qs_total_bytes (ls_queues (cleanup_expired now st)) - of_nat (encoded_len (nm_cell m))) (cleanup_expired now st))"
proof (cases "validate_gc2_subscription h now (cleanup_expired now st)")
  case (Inl e)
  have "e \<noteq> StPanic"
  proof
    assume "e = StPanic"
    with Inl have "\<exists>l. map_of (ls_leases (cleanup_expired now st)) (gs_queue_id (au_subscription h)) = Some l"
      "map_of (qs_queues (ls_queues (cleanup_expired now st))) (gs_queue_id (au_subscription h)) = None"
      by (auto simp: validate_gc2_subscription_def Let_def ok_or_def require_binding_def reject_def rbind_def split: option.splits if_splits)
    then show False using store_okD(3) [OF cleanup_ok [OF ok]] by simp
  qed
  with Inl show thesis by (intro kept [of "Inl e"]) (simp_all add: acknowledge_gc2_def)
next
  case (Inr u)
  note co = cleanup_ok [OF ok, of now]
  from Inr have u: "validate_gc2_subscription h now (cleanup_expired now st) = Inr ()" by simp
  then obtain x where x: "map_of (qs_queues (ls_queues (cleanup_expired now st))) (gs_queue_id (au_subscription h)) = Some x"
    unfolding validate_gc2_Inr by blast
  show thesis
  proof (cases "class_messages (gs_class (au_subscription h)) x")
    case Nil
    with u x show thesis by (intro kept [of "Inr AckEmpty"]) (simp_all add: acknowledge_gc2_def ok_or_def)
  next
    case (Cons m ms)
    show thesis
    proof (cases "nm_push_nonce m = n")
      case False
      with u x Cons show thesis by (intro kept [of "Inr Mismatch"]) (simp_all add: acknowledge_gc2_def ok_or_def)
    next
      case True
      obtain l where l: "map_of (ls_leases (cleanup_expired now st)) (gs_queue_id (au_subscription h)) = Some l" "queue_ok (lr_limits l) x"
        by (rule queue_lease [OF co x])
      then have q: "encoded_len (nm_cell m) \<le> 65535" "unat (q_bytes x) = message_bytes x"
        using Cons by (auto simp: queue_ok_def class_messages_def split: traffic_class.splits)
      then have f: "unat (of_nat (encoded_len (nm_cell m)) :: u64) = encoded_len (nm_cell m)" by (simp add: unat_of_nat_u64)
      have le: "of_nat (encoded_len (nm_cell m)) \<le> q_bytes x"
        using class_bytes_le [of "gs_class (au_subscription h)" x] Cons q(2) f by (simp add: word_le_nat_alt)
      then have le': "of_nat (encoded_len (nm_cell m)) \<le> qs_total_bytes (ls_queues (cleanup_expired now st))"
        using queue_bytes_le_total [OF co x] by (simp add: word_le_nat_alt)
      have e: "unat (q_bytes x - of_nat (encoded_len (nm_cell m))) + encoded_len (nm_cell m) = unat (q_bytes x)"
        "unat (qs_total_bytes (ls_queues (cleanup_expired now st)) - of_nat (encoded_len (nm_cell m)))
           = unat (qs_total_bytes (ls_queues (cleanup_expired now st))) - encoded_len (nm_cell m)"
        using le f unat_minus_u64 [OF le] unat_minus_u64 [OF le'] by (simp_all add: word_le_nat_alt)
      show thesis by (rule removed [OF u x Cons True e])
        (use u x Cons True leD [OF le] leD [OF le'] in \<open>simp add: acknowledge_gc2_def ok_or_def Let_def\<close>)
    qed
  qed
qed

lemma acknowledge_gc2_ok:
  assumes ok: "store_ok st"
  shows "store_ok (snd (acknowledge_gc2 h n now st))"
  using ok
proof (cases rule: acknowledge_gc2_cases [where h = h and n = n and now = now])
  case (kept r)
  then show ?thesis using cleanup_ok [OF ok] by simp
next
  case (removed x m ms)
  note co = cleanup_ok [OF ok, of now]
  let ?q = "gs_queue_id (au_subscription h)" and ?t = "gs_class (au_subscription h)"
  obtain l where l: "map_of (ls_leases (cleanup_expired now st)) ?q = Some l" "queue_ok (lr_limits l) x" by (rule queue_lease [OF co removed(2)])
  let ?x = "(set_class_messages ?t ms x)\<lparr>q_bytes := q_bytes x - of_nat (encoded_len (nm_cell m))\<rparr>"
  have b: "unat (q_bytes ?x) + encoded_len (nm_cell m) = unat (q_bytes x)" using removed(5) by simp
  then have "queue_ok (lr_limits l) ?x"
    using l(2) removed(3) by (cases ?t) (auto simp: queue_ok_def message_bytes_def queue_len_of_def word_le_nat_alt set_class_messages_def class_messages_def)
  from put_shorter_queue [OF co removed(2) l(1) this b removed(6)] show ?thesis using removed(7) by simp
qed

section \<open>Admission: the branches\<close>

lemma draw_ok:
  assumes "draw fill ok h = Some r"
  shows "ok (fst r)"
  using draw.raw_induct [of "\<lambda>_ ok _ r. ok (fst r)" fill ok h r, OF _ assms] by (fastforce split: prod.splits if_splits)

text \<open>The loop returns as soon as the generator delivers an acceptable value.\<close>

lemma draw_returns:
  assumes "ok (fst (fill (((snd \<circ> fill) ^^ n) h)))"
  shows "\<exists>r. draw fill ok h = Some r"
  using assms
proof (induction n arbitrary: h)
  case 0
  then show ?case by (subst draw.simps) (auto split: prod.split)
next
  case (Suc n)
  obtain bs h' where f: "fill h = (bs, h')" by fastforce
  from Suc have "\<exists>r. draw fill ok h' = Some r" by (simp add: f funpow_Suc_right del: funpow.simps)
  then show ?case by (subst draw.simps) (simp add: f)
qed

lemma add_grant_ok:
  assumes "store_ok st" and "length (ls_grants st) < sc_max_grants (ls_config st)" and "map_of (ls_grants st) k = None"
  shows "store_ok (st\<lparr>ls_grants := AList.update k g (ls_grants st)\<rparr>)"
  using assms by (auto simp: store_ok_def Let_def update_absent map_of_eq_None_iff)

lemma admit_grant_Inl: "admit_grant hmac request now temporary expiry gid cap st = (Inl e, st') \<Longrightarrow> st' = st"
  by (auto simp: admit_grant_def Let_def split: sum.splits)

lemma admit_grant_Inr:
  "admit_grant hmac request now temporary expiry gid cap st = (Inr a, st') \<Longrightarrow>
     a = \<lparr>ap_grant = \<lparr>ag_relay_service_id = ls_relay_service_id st, ag_grant_id = gid, ag_grant_cap = cap,
            ag_queue_id = sr_queue_id request, ag_epoch = sr_epoch request, ag_not_before = now, ag_expiry = expiry,
            ag_max_queue_cells = ll_max_queue_cells (sr_limits request), ag_max_queue_bytes = ll_max_queue_bytes (sr_limits request)\<rparr>,
          ap_wire = grant_encode hmac (ls_admission_key st) (ap_grant a)\<rparr>
     \<and> st' = st\<lparr>ls_grants := AList.update gid
         \<lparr>gt_queue_id = sr_queue_id request, gt_epoch = sr_epoch request, gt_expiry = expiry, gt_status = Unconsumed, gt_temporary_expiry = temporary\<rparr>
         (ls_grants st)\<rparr>"
  by (auto simp: admit_grant_def Let_def split: sum.splits)

lemma issue_grant_with_bound_Some:
  assumes r: "issue_grant_with_bound hmac fill request now temporary h st = Some (r, st', h')"
  shows "(\<exists>e. r = Inl e \<and> st' = cleanup_expired now st)
    \<or> (\<exists>expiry gid h1 cap. checked_add now (sc_grant_lifetime_secs (ls_config st)) = Some expiry
        \<and> draw (fill 16) (\<lambda>bs. (arr_pad bs :: 16 arr) \<noteq> arr_fill 0 \<and> map_of (ls_grants (cleanup_expired now st)) (arr_pad bs) = None) h = Some (gid, h1)
        \<and> length (ls_grants (cleanup_expired now st)) < sc_max_grants (ls_config st)
        \<and> ll_max_queue_cells (sr_limits request) \<le> ll_max_queue_cells (sc_relay_limits (ls_config st))
        \<and> ll_max_queue_bytes (sr_limits request) \<le> ll_max_queue_bytes (sc_relay_limits (ls_config st))
        \<and> admit_grant hmac request now temporary expiry (arr_pad gid) cap (cleanup_expired now st) = (r, st'))"
    (is "?refused \<or> ?admitted")
proof -
  let ?s = "cleanup_expired now st"
  let ?d = "draw (fill 16) (\<lambda>bs. (arr_pad bs :: 16 arr) \<noteq> arr_fill 0 \<and> map_of (ls_grants ?s) (arr_pad bs) = None) h"
  show ?thesis
  proof (cases "checked_add now (sc_grant_lifetime_secs (ls_config st))")
    case None
    with r show ?thesis by (auto simp: issue_grant_with_bound_def Let_def split: if_splits)
  next
    case e: (Some expiry)
    show ?thesis
    proof (cases ?d)
      case None
      with r e show ?thesis by (auto simp: issue_grant_with_bound_def Let_def split: if_splits)
    next
      case (Some p)
      obtain gid h1 where p: "p = (gid, h1)" by (cases p)
      let ?d2 = "draw (fill 32) (\<lambda>bs. (arr_pad bs :: 32 arr) \<noteq> arr_fill 0 \<and> arr_pad bs \<noteq> sr_queue_id request
              \<and> take 16 (list_of (arr_pad bs :: 32 arr)) \<noteq> list_of (arr_pad gid :: 16 arr)) h1"
      show ?thesis
      proof (cases ?d2)
        case None
        with r e Some p show ?thesis by (auto simp: issue_grant_with_bound_def Let_def split: if_splits)
      next
        case s: (Some c)
        obtain r1 s1 where "admit_grant hmac request now temporary expiry (arr_pad gid) (arr_pad (fst c)) ?s = (r1, s1)" by fastforce
        with r e Some p s show ?thesis
          by (cases c) (auto simp: issue_grant_with_bound_def Let_def not_less not_le split: if_splits)
      qed
    qed
  qed
qed

lemma issue_grant_with_bound_cases:
  assumes ok: "store_ok st" and r: "issue_grant_with_bound hmac fill request now temporary h st = Some (r, st', h')"
  obtains (refused) e where "r = Inl e" "st' = cleanup_expired now st"
  | (issued) g where "r = Inr \<lparr>ap_grant = g, ap_wire = grant_encode hmac (ls_admission_key st) g\<rparr>"
      "ag_relay_service_id g = ls_relay_service_id st" "ag_queue_id g = sr_queue_id request" "ag_epoch g = sr_epoch request" "ag_not_before g = now"
      "ag_max_queue_cells g = ll_max_queue_cells (sr_limits request)" "ag_max_queue_bytes g = ll_max_queue_bytes (sr_limits request)"
      "ll_max_queue_cells (sr_limits request) \<le> ll_max_queue_cells (sc_relay_limits (ls_config st))"
      "ll_max_queue_bytes (sr_limits request) \<le> ll_max_queue_bytes (sc_relay_limits (ls_config st))"
      "checked_add now (sc_grant_lifetime_secs (ls_config st)) = Some (ag_expiry g)"
      "length (ls_grants (cleanup_expired now st)) < sc_max_grants (ls_config st)" "map_of (ls_grants (cleanup_expired now st)) (ag_grant_id g) = None"
      "st' = (cleanup_expired now st)\<lparr>ls_grants := AList.update (ag_grant_id g)
         \<lparr>gt_queue_id = sr_queue_id request, gt_epoch = sr_epoch request, gt_expiry = ag_expiry g, gt_status = Unconsumed, gt_temporary_expiry = temporary\<rparr>
         (ls_grants (cleanup_expired now st))\<rparr>"
proof -
  from issue_grant_with_bound_Some [OF r] consider
    (no) e where "r = Inl e" "st' = cleanup_expired now st"
  | (yes) expiry gid h1 cap where "checked_add now (sc_grant_lifetime_secs (ls_config st)) = Some expiry"
      "draw (fill 16) (\<lambda>bs. (arr_pad bs :: 16 arr) \<noteq> arr_fill 0 \<and> map_of (ls_grants (cleanup_expired now st)) (arr_pad bs) = None) h = Some (gid, h1)"
      "length (ls_grants (cleanup_expired now st)) < sc_max_grants (ls_config st)"
      "ll_max_queue_cells (sr_limits request) \<le> ll_max_queue_cells (sc_relay_limits (ls_config st))"
      "ll_max_queue_bytes (sr_limits request) \<le> ll_max_queue_bytes (sc_relay_limits (ls_config st))"
      "admit_grant hmac request now temporary expiry (arr_pad gid) cap (cleanup_expired now st) = (r, st')"
    by blast
  then show thesis
  proof cases
    case no
    then show thesis by (rule refused)
  next
    case yes
    show thesis
    proof (cases r)
      case (Inl e)
      then show thesis using yes(6) by (intro refused [of e]) (auto dest: admit_grant_Inl)
    next
      case (Inr a)
      have n: "map_of (ls_grants (cleanup_expired now st)) (arr_pad gid) = None" using draw_ok [OF yes(2)] by simp
      note i = admit_grant_Inr [OF yes(6) [unfolded Inr]]
      then have f: "ap_grant a = \<lparr>ag_relay_service_id = ls_relay_service_id st, ag_grant_id = arr_pad gid, ag_grant_cap = cap,
            ag_queue_id = sr_queue_id request, ag_epoch = sr_epoch request, ag_not_before = now, ag_expiry = expiry,
            ag_max_queue_cells = ll_max_queue_cells (sr_limits request), ag_max_queue_bytes = ll_max_queue_bytes (sr_limits request)\<rparr>"
        by (metis admission_provision.select_convs(1) cleanup_fields(2))
      have "a = \<lparr>ap_grant = ap_grant a, ap_wire = grant_encode hmac (ls_admission_key st) (ap_grant a)\<rparr>"
        using i by (metis admission_provision.select_convs(1) cleanup_fields(3))
      with Inr have r: "r = Inr \<lparr>ap_grant = ap_grant a, ap_wire = grant_encode hmac (ls_admission_key st) (ap_grant a)\<rparr>" by simp
      show thesis by (rule issued [OF r]) (use f i n yes in simp_all)
    qed
  qed
qed

lemma issue_grant_with_bound_ok:
  assumes ok: "store_ok st" and r: "issue_grant_with_bound hmac fill request now temporary h st = Some (r, st', h')"
  shows "store_ok st'"
  using assms
proof (cases rule: issue_grant_with_bound_cases)
  case (refused e)
  then show ?thesis using cleanup_ok [OF ok] by simp
next
  case (issued g)
  with add_grant_ok [OF cleanup_ok [OF ok, of now]] show ?thesis by simp
qed

definition created_lease :: "32 arr \<Rightarrow> lease_create \<Rightarrow> grant_record \<Rightarrow> lease_record" where
  "created_lease digest v g =
     \<lparr>lr_create_digest = digest, lr_queue_id = lc_queue_id v, lr_epoch = lc_epoch v, lr_expiry = lc_lease_expiry v,
      lr_limits = \<lparr>ll_max_queue_cells = lc_queue_cells v, ll_max_queue_bytes = lc_queue_bytes v\<rparr>, lr_capabilities = lc_capabilities v,
      lr_replay = [\<lparr>rr_epoch = lc_epoch v, rr_operation = OpCreate, rr_nonce = lc_nonce v, rr_expiry = lc_lease_expiry v, rr_gc2_push_binding = None\<rparr>],
      lr_next_replay_expiry = Some (lc_lease_expiry v), lr_dynamic_grants = [], lr_temporary_expiry = gt_temporary_expiry g\<rparr>"

definition created_store :: "32 arr \<Rightarrow> nat \<Rightarrow> lease_create \<Rightarrow> 16 arr \<Rightarrow> grant_record \<Rightarrow> lease_store \<Rightarrow> lease_store" where
  "created_store digest gen v gid g st =
     st\<lparr>ls_grants := AList.update gid (g\<lparr>gt_status := Consumed\<rparr>) (ls_grants st),
        ls_leases := ls_leases st @ [(lc_queue_id v, created_lease digest v g)],
        ls_queues := (ls_queues st)\<lparr>qs_queues := qs_queues (ls_queues st) @ [(lc_queue_id v,
          \<lparr>q_bytes = 0, q_messages = [], q_interactive = [], q_bulk = [], q_generation = gen\<rparr>)]\<rparr>\<rparr>"

definition create_grant_id :: "lease_create \<Rightarrow> 16 arr" where
  "create_grant_id v = arr_pad (sub_list (list_of (lc_grant v)) 33 49)"

lemma create_from_grant_cases:
  obtains (refused) e where "create_from_grant digest gen v now st = (Inl e, st)"
  | (created) g where "map_of (ls_grants st) (create_grant_id v) = Some g" "gt_status g = Unconsumed"
      "gt_queue_id g = lc_queue_id v" "gt_epoch g = lc_epoch v" "now < gt_expiry g"
      "\<forall>t. gt_temporary_expiry g = Some t \<longrightarrow> lc_lease_expiry v \<le> t" "map_of (ls_leases st) (lc_queue_id v) = None"
      "length (qs_queues (ls_queues st)) < qs_max_queues (ls_queues st)" "map_of (qs_queues (ls_queues st)) (lc_queue_id v) = None"
      "create_from_grant digest gen v now st = (Inr (lease_record_view (created_lease digest v g)), created_store digest gen v (create_grant_id v) g st)"
proof (cases "fst (create_from_grant digest gen v now st)")
  case (Inl e)
  then show thesis
    by (intro refused [of e]) (auto simp: create_from_grant_def Let_def split: option.splits sum.splits if_splits)
next
  case (Inr view)
  then obtain g where v: "map_of (ls_grants st) (create_grant_id v) = Some g" "gt_status g \<noteq> Consumed"
      "gt_queue_id g = lc_queue_id v" "gt_epoch g = lc_epoch v" "now < gt_expiry g"
      "\<not> (case gt_temporary_expiry g of None \<Rightarrow> False | Some expiry \<Rightarrow> expiry < lc_lease_expiry v)" "map_of (ls_leases st) (lc_queue_id v) = None"
      "length (qs_queues (ls_queues st)) < qs_max_queues (ls_queues st)" "map_of (qs_queues (ls_queues st)) (lc_queue_id v) = None"
    by (auto simp: create_from_grant_def create_grant_id_def qs_create_def Let_def not_le split: option.split_asm sum.splits if_splits)
  have u: "gt_status g = Unconsumed" using v(2) by (cases "gt_status g") auto
  have t: "\<forall>t. gt_temporary_expiry g = Some t \<longrightarrow> lc_lease_expiry v \<le> t" using v(6) by (auto simp: not_less)
  show thesis
    by (rule created [OF v(1) u v(3-5) t v(7-9)])
       (use v u leD [OF v(5) [THEN less_imp_le]] in \<open>simp add: create_from_grant_def create_grant_id_def [symmetric] qs_create_def Let_def not_le
          created_lease_def created_store_def put_lease_def update_absent lease_record_view_def\<close>)
qed

lemma created_store_ok:
  assumes ok: "store_ok st" and g: "map_of (ls_grants st) gid = Some g" and l: "map_of (ls_leases st) (lc_queue_id v) = None"
    and n: "length (qs_queues (ls_queues st)) < qs_max_queues (ls_queues st)" and x: "map_of (qs_queues (ls_queues st)) (lc_queue_id v) = None"
    and lim: "lc_queue_cells v \<le> ll_max_queue_cells (sc_relay_limits (ls_config st))" "lc_queue_bytes v \<le> ll_max_queue_bytes (sc_relay_limits (ls_config st))"
    and t: "\<forall>t. gt_temporary_expiry g = Some t \<longrightarrow> lc_lease_expiry v \<le> t"
  shows "store_ok (created_store digest gen v gid g st)"
proof -
  have c: "config_ok (ls_config st)" by (rule store_okD(1) [OF ok])
  have "0 < replay_bound (ls_config st) OpCreate" using c by (simp add: replay_bound_def config_ok_def)
  then have lo: "lease_ok (ls_config st) (lc_queue_id v) (created_lease digest v g)"
    using lim t by (auto simp: lease_ok_def created_lease_def min_expiry_def replay_count_def)
  have qo: "queue_ok (lr_limits (created_lease digest v g)) \<lparr>q_bytes = 0, q_messages = [], q_interactive = [], q_bulk = [], q_generation = gen\<rparr>"
    by (simp add: queue_ok_def message_bytes_def queue_len_of_def)
  have keys: "map fst (AList.update gid (g\<lparr>gt_status := Consumed\<rparr>) (ls_grants st)) = map fst (ls_grants st)"
    using update_present_keys [of "ls_grants st" gid] g by simp
  then have len: "length (AList.update gid (g\<lparr>gt_status := Consumed\<rparr>) (ls_grants st)) = length (ls_grants st)"
    by (metis length_map)
  have m: "map_of (al @ [(k, w)]) q = (if q = k then Some w else map_of al q)" if "map_of al k = None" for al :: "('a \<times> 'b) list" and k w q
    using that by (auto simp: map_add_def split: option.splits)
  have "lc_queue_id v \<notin> fst ` set (ls_leases st)" "lc_queue_id v \<notin> fst ` set (qs_queues (ls_queues st))"
    using l x by (simp_all add: map_of_eq_None_iff)
  then show ?thesis using ok n l x lo qo
    unfolding store_ok_def Let_def
    by (auto simp: created_store_def keys len m [OF l] m [OF x] simp del: map_of_append split: if_splits)
qed

lemma create_validate_limits:
  "create_validate g policy limits v = Inr () \<Longrightarrow> lc_queue_cells v \<le> ll_max_queue_cells limits \<and> lc_queue_bytes v \<le> ll_max_queue_bytes limits"
  by (auto simp: create_validate_def not_less)

lemma create_lease_cases:
  assumes ok: "store_ok st"
  obtains (refused) e where "create_lease hmac sha gen wire now st = (Inl e, cleanup_expired now st)"
  | (existing) q l where "map_of (ls_leases (cleanup_expired now st)) q = Some l"
      "create_lease hmac sha gen wire now st = (Inr (lease_record_view l), cleanup_expired now st)"
  | (created) v g ag gp lp where
      "create_decode_and_verify hmac (ls_admission_key st) (ls_relay_service_id st) gp lp (sc_relay_limits (ls_config st)) wire = Inr v"
      "list_of (lc_grant v) = grant_encode hmac (ls_admission_key st) ag" "create_validate ag lp (sc_relay_limits (ls_config st)) v = Inr ()"
      "map_of (ls_grants (cleanup_expired now st)) (create_grant_id v) = Some g" "gt_status g = Unconsumed"
      "gt_queue_id g = lc_queue_id v" "gt_epoch g = lc_epoch v" "now < gt_expiry g"
      "\<forall>t. gt_temporary_expiry g = Some t \<longrightarrow> lc_lease_expiry v \<le> t" "map_of (ls_leases (cleanup_expired now st)) (lc_queue_id v) = None"
      "length (qs_queues (ls_queues (cleanup_expired now st))) < qs_max_queues (ls_queues (cleanup_expired now st))"
      "map_of (qs_queues (ls_queues (cleanup_expired now st))) (lc_queue_id v) = None"
      "create_lease hmac sha gen wire now st = (Inr (lease_record_view (created_lease (sha wire) v g)),
         created_store (sha wire) gen v (create_grant_id v) g (cleanup_expired now st))"
proof (cases "rbind (store_policy (cleanup_expired now st) now (sc_grant_lifetime_secs (ls_config st))) (\<lambda>gp.
     rbind (store_policy (cleanup_expired now st) now (sc_max_lease_lifetime_secs (ls_config st))) (\<lambda>lp.
     map_err StLease (create_decode_and_verify hmac (ls_admission_key st) (ls_relay_service_id st) gp lp (sc_relay_limits (ls_config st)) wire)))")
  case (Inl e)
  then show thesis by (intro refused [of e]) (simp add: create_lease_def Let_def)
next
  case (Inr v)
  then obtain gp lp where dec:
    "create_decode_and_verify hmac (ls_admission_key st) (ls_relay_service_id st) gp lp (sc_relay_limits (ls_config st)) wire = Inr v" by auto
  then obtain ag where ag: "list_of (lc_grant v) = grant_encode hmac (ls_admission_key st) ag"
    "create_validate ag lp (sc_relay_limits (ls_config st)) v = Inr ()" unfolding create_decode_iff by blast
  let ?s = "cleanup_expired now st"
  note d = create_lease_def [of hmac sha gen wire now st, unfolded Let_def cleanup_fields Inr sum.case]
  show thesis
  proof (cases "\<exists>l. map_of (ls_leases ?s) (lc_queue_id v) = Some l \<and> lr_epoch l = lc_epoch v \<and> lr_create_digest l = sha wire")
    case True
    then obtain l where "map_of (ls_leases ?s) (lc_queue_id v) = Some l" "lr_epoch l = lc_epoch v" "lr_create_digest l = sha wire" by blast
    then show thesis by (intro existing [of "lc_queue_id v" l]) (simp_all add: d)
  next
    case False
    then have e: "create_lease hmac sha gen wire now st = create_from_grant (sha wire) gen v now ?s"
      by (auto simp: d split: option.splits)
    show thesis
    proof (cases rule: create_from_grant_cases [where digest = "sha wire" and gen = gen and v = v and now = now and st = ?s])
      case (refused e')
      then show thesis using e that(1) by simp
    next
      case (created g)
      show thesis by (rule that(3) [OF dec ag created(1-9)]) (simp add: e created(10))
    qed
  qed
qed

lemma create_lease_ok:
  assumes ok: "store_ok st"
  shows "store_ok (snd (create_lease hmac sha gen wire now st))"
  using ok
proof (cases rule: create_lease_cases [where hmac = hmac and sha = sha and gen = gen and wire = wire and now = now])
  case (created v g ag gp lp)
  have "lc_queue_cells v \<le> ll_max_queue_cells (sc_relay_limits (ls_config (cleanup_expired now st)))"
    "lc_queue_bytes v \<le> ll_max_queue_bytes (sc_relay_limits (ls_config (cleanup_expired now st)))"
    using create_validate_limits [OF created(3)] by simp_all
  from created_store_ok [OF cleanup_ok [OF ok] created(4,10,11,12) this created(9)] show ?thesis using created(13) by simp
qed (simp_all add: cleanup_ok ok)

text \<open>Dynamic grants: the request is recorded against its authority before the grant is issued.\<close>

lemma issue_dynamic_grant_cases:
  assumes ok: "store_ok st" and r: "issue_dynamic_grant hmac fill wire now h st = Some (r, st', h')"
  obtains (refused) e where "r = Inl e" "st' = cleanup_expired now st"
  | (throttled) e q l where "r = Inl e" "map_of (ls_leases (cleanup_expired now st)) q = Some l"
      "st' = put_lease q (l\<lparr>lr_dynamic_grants := filter (\<lambda>issued. now < sat_add issued 60) (lr_dynamic_grants l)\<rparr>) (cleanup_expired now st)"
  | (recorded) q l v l' policy where "map_of (ls_leases (cleanup_expired now st)) q = Some l"
      "request_decode_and_verify hmac (cap_admin (lr_capabilities l)) (ls_relay_service_id st) (lr_queue_id l) (lr_epoch l) policy wire = Inr v"
      "lr_temporary_expiry l = None" "\<not> has_replay l (lr_epoch l) OpGrant (gr_nonce v)"
      "length (filter (\<lambda>issued. now < sat_add issued 60) (lr_dynamic_grants l)) < sc_dynamic_grants_per_minute (ls_config st)"
      "record_replay (lr_epoch l) OpGrant (gr_nonce v) (gr_expiry v) (sc_max_replay_nonces_per_lease (ls_config st)) l = Inr l'"
      "issue_grant hmac fill \<lparr>sr_queue_id = gr_queue_id v, sr_epoch = gr_epoch v, sr_limits = gr_limits v\<rparr> now h
         (put_lease q (l'\<lparr>lr_dynamic_grants := filter (\<lambda>issued. now < sat_add issued 60) (lr_dynamic_grants l) @ [now]\<rparr>) (cleanup_expired now st))
         = Some (r, st', h')"
proof (cases "rbind (operation_lease wire now (sc_grant_lifetime_secs (ls_config st)) (cleanup_expired now st)) (\<lambda>(q, policy, l).
           reject (lr_temporary_expiry l \<noteq> None) StUnauthorized (Inr (q, policy, l)))")
  case (Inl e)
  then show thesis using r refused [of e] by (simp add: issue_dynamic_grant_def Let_def)
next
  case (Inr t)
  obtain q policy l where t: "t = (q, policy, l)" by (cases t) auto
  have l: "map_of (ls_leases (cleanup_expired now st)) q = Some l" "lr_temporary_expiry l = None"
    using Inr t by (auto simp: operation_lease_Inr)
  let ?s = "cleanup_expired now st"
  let ?f = "filter (\<lambda>issued. now < sat_add issued 60) (lr_dynamic_grants l)"
  note p = cleanup_purged(1,2) [OF ok l(1)]
  note d = r [unfolded issue_dynamic_grant_def Let_def cleanup_fields Inr t sum.case prod.case p]
  have put2: "put_lease q a (put_lease q b ?s) = put_lease q a ?s" for a b by (simp add: put_lease_def update_twice)
  show thesis
  proof (cases "request_decode_and_verify hmac (cap_admin (lr_capabilities l)) (ls_relay_service_id st) (lr_queue_id l) (lr_epoch l) policy wire")
    case (Inl e)
    then show thesis using d refused by auto
  next
    case v: (Inr v)
    show thesis
    proof (cases "has_replay l (lr_epoch l) OpGrant (gr_nonce v)")
      case True
      then show thesis using d v refused by auto
    next
      case False
      note d = d [unfolded v sum.case if_not_P [OF False]]
      show thesis
      proof (cases "sc_dynamic_grants_per_minute (ls_config st) \<le> length ?f")
        case True
        then show thesis using d throttled [OF _ l(1)] by auto
      next
        case rate: False
        let ?l = "l\<lparr>lr_dynamic_grants := ?f\<rparr>"
        have c: "replay_count ?l op = replay_count l op" for op by (simp add: replay_count_def)
        show thesis
        proof (cases "replay_count l OpGrant < sc_max_replay_nonces_per_lease (ls_config st)")
          case False
          then have "record_replay (lr_epoch l) OpGrant (gr_nonce v) (gr_expiry v) (sc_max_replay_nonces_per_lease (ls_config st)) ?l = Inl StReplayCapacity"
            by (simp add: record_replay_def c reject_def)
          then show thesis using d rate throttled [OF _ l(1)] by auto
        next
          case True
          then obtain l' where l': "record_replay (lr_epoch l) OpGrant (gr_nonce v) (gr_expiry v) (sc_max_replay_nonces_per_lease (ls_config st)) l = Inr l'"
            by (simp add: record_replay_Inr)
          then have "record_replay (lr_epoch l) OpGrant (gr_nonce v) (gr_expiry v) (sc_max_replay_nonces_per_lease (ls_config st)) ?l
              = Inr (l'\<lparr>lr_dynamic_grants := ?f\<rparr>)" by (auto simp: record_replay_Inr c)
          then show thesis using d rate recorded [OF l(1) v l(2) False _ l'] by (simp add: put2)
        qed
      qed
    qed
  qed
qed

text \<open>The default configuration is accepted, once the generator delivers a key that is not zero.\<close>

lemma default_config_accepted:
  assumes "fst (fill 32 h) = list_of key" and "key \<noteq> (arr_fill 0 :: 32 arr)"
  shows "\<exists>st. lease_store_new fill sid store_config_default h = Some (Inr st, snd (fill 32 h)) \<and> ls_admission_key st = key"
  using assms
  by (cases "fill 32 h")
     (simp add: lease_store_new_def store_config_default_def DEFAULT_QUEUE_CELLS_def DEFAULT_QUEUE_BYTES_def DEFAULT_MAX_GRANTS_def DEFAULT_MAX_QUEUES_def
        DEFAULT_MAX_REPLAY_NONCES_def DEFAULT_MAX_SUBSCRIPTION_NONCES_def DEFAULT_MAX_TOTAL_QUEUE_BYTES_def DEFAULT_GRANT_LIFETIME_SECS_def
        DEFAULT_MAX_LEASE_LIFETIME_SECS_def DEFAULT_DYNAMIC_GRANTS_PER_MINUTE_def validation_policy_new_def draw.simps)

end
