(* ===== verification/Store_Demo.thy ===== *)
theory Store_Demo
  imports Store_Invariant
begin

text \<open>
  A concrete run of the lease store, the example that the properties of \<open>Store_Safety\<close> are applied
  to: a new store issues a grant, the grant becomes a lease, and a message is deposited in its queue.
\<close>

definition demo_config :: store_config where
  "demo_config = \<lparr>sc_max_grants = 4, sc_max_queues = 4, sc_max_replay_nonces_per_lease = 8, sc_max_subscription_nonces_per_lease = 8,
     sc_max_total_queue_bytes = 65536, sc_relay_limits = demo_limits, sc_grant_lifetime_secs = 450, sc_max_lease_lifetime_secs = 900,
     sc_clock_skew_secs = 10, sc_dynamic_grants_per_minute = 2\<rparr>"

text \<open>A generator that repeats the next byte of its state.\<close>

definition demo_fill :: "nat \<Rightarrow> byte list \<Rightarrow> bytes \<times> byte list" where
  "demo_fill n h = (replicate n (hd h), tl h)"

definition demo_sha :: "bytes \<Rightarrow> 32 arr" where "demo_sha w = arr_fill 0"

definition demo_store0 :: lease_store where
  "demo_store0 = \<lparr>ls_relay_service_id = arr_fill 1, ls_admission_key = arr_fill 7, ls_config = demo_config,
     ls_grants = [], ls_leases = [], ls_queues = queue_store_new 4\<rparr>"

definition demo_request :: store_request where
  "demo_request = \<lparr>sr_queue_id = arr_fill 4, sr_epoch = 1, sr_limits = \<lparr>ll_max_queue_cells = 8, ll_max_queue_bytes = 4096\<rparr>\<rparr>"

definition demo_record :: grant_record where
  "demo_record = \<lparr>gt_queue_id = arr_fill 4, gt_epoch = 1, gt_expiry = 500, gt_status = Unconsumed, gt_temporary_expiry = None\<rparr>"

definition demo_store1 :: lease_store where
  "demo_store1 = demo_store0\<lparr>ls_grants := [(arr_fill 2, demo_record)]\<rparr>"

definition demo_wire :: bytes where
  "demo_wire = create_encode demo_hmac (arr_fill 1) demo_create"

definition demo_store2 :: lease_store where
  "demo_store2 = created_store (demo_sha demo_wire) 0 demo_create (arr_fill 2) demo_record demo_store1"

definition demo_msg :: cell where
  "demo_msg = cell_new Msg 0 0 [1, 2, 3]"

definition demo_deposit :: relay_push where
  "demo_deposit = \<lparr>rp_queue_id = arr_fill 4, rp_epoch = 1, rp_nonce = arr_fill 11, rp_expiry = 300, rp_msg = Some demo_msg\<rparr>"

definition demo_cell :: cell where
  "demo_cell = cell_new RelayPush 0 0 (push_bytes (parts_of demo_hmac (arr_fill 5) (arr_fill 1) demo_deposit))"

lemmas demo_store = demo_store0_def demo_store1_def demo_store2_def demo_config_def demo_record_def demo_request_def demo_limits_def
  queue_store_new_def

lemma arr_pad_fill [simp]:
  "arr_pad (replicate 16 b) = (arr_fill b :: 16 arr)" "arr_pad (replicate 32 b) = (arr_fill b :: 32 arr)"
  by (simp_all add: list_of_inject [symmetric] list_of_arr_fill del: list_of_inj)

lemma demo_new: "lease_store_new demo_fill (arr_fill 1) demo_config [7, 2, 3] = Some (Inr demo_store0, [2, 3])"
  by (simp add: lease_store_new_def demo_store draw.simps demo_fill_def validation_policy_new_def MAX_CLOCK_SKEW_SECS_def reject_def)

lemma demo_issue:
  "issue_grant demo_hmac demo_fill demo_request 50 [2, 3] demo_store0
     = Some (Inr \<lparr>ap_grant = demo_grant, ap_wire = grant_encode demo_hmac (arr_fill 7) demo_grant\<rparr>, demo_store1, [])"
proof -
  have c: "cleanup_expired 50 demo_store0 = demo_store0" by (simp add: cleanup_expired_def demo_store)
  have "store_policy demo_store0 50 450 = Inr \<lparr>vp_now = 50, vp_skew = 10, vp_max_expiry = 500\<rparr>"
    by (simp add: store_policy_def demo_store validation_policy_new_def MAX_CLOCK_SKEW_SECS_def reject_def checked_add_eq)
  moreover have "grant_validate \<lparr>vp_now = 50, vp_skew = 10, vp_max_expiry = 500\<rparr> demo_grant = Inr ()"
    by (simp add: grant_validate_def demo_lease)
  ultimately have a: "admit_grant demo_hmac demo_request 50 None 500 (arr_fill 2) (arr_fill 3) demo_store0
      = (Inr \<lparr>ap_grant = demo_grant, ap_wire = grant_encode demo_hmac (arr_fill 7) demo_grant\<rparr>, demo_store1)"
    by (simp add: admit_grant_def demo_store demo_grant_def Let_def)
  show ?thesis
    by (simp add: issue_grant_def issue_grant_with_bound_def c draw.simps demo_fill_def list_of_arr_fill)
       (simp add: demo_store checked_add_eq draw.simps demo_fill_def list_of_arr_fill a [unfolded demo_store])
qed

lemma demo_policies:
  "store_policy demo_store1 100 450 = Inr \<lparr>vp_now = 100, vp_skew = 10, vp_max_expiry = 550\<rparr>"
  "store_policy demo_store1 100 900 = Inr \<lparr>vp_now = 100, vp_skew = 10, vp_max_expiry = 1000\<rparr>"
  by (simp_all add: store_policy_def demo_store validation_policy_new_def MAX_CLOCK_SKEW_SECS_def reject_def checked_add_eq)

lemma demo_wire_accepted:
  "create_decode_and_verify demo_hmac (arr_fill 7) (arr_fill 1) \<lparr>vp_now = 100, vp_skew = 10, vp_max_expiry = 550\<rparr>
     \<lparr>vp_now = 100, vp_skew = 10, vp_max_expiry = 1000\<rparr> demo_limits demo_wire = Inr demo_create"
proof -
  have "length (grant_encode demo_hmac (arr_fill 7) demo_grant) = 180" by (simp add: grant_encode_def length_bodies)
  then have "list_of (lc_grant demo_create) = grant_encode demo_hmac (arr_fill 7) demo_grant" by (simp add: demo_create_def)
  moreover have "ag_relay_service_id demo_grant = arr_fill 1" by (simp add: demo_grant_def)
  moreover have "grant_validate \<lparr>vp_now = 100, vp_skew = 10, vp_max_expiry = 550\<rparr> demo_grant = Inr ()"
    by (simp add: grant_validate_def demo_lease)
  moreover have "create_validate demo_grant \<lparr>vp_now = 100, vp_skew = 10, vp_max_expiry = 1000\<rparr> demo_limits demo_create = Inr ()"
    by (simp add: create_validate_def demo_lease)
  ultimately show ?thesis unfolding create_decode_iff demo_wire_def by blast
qed

lemma demo_grant_id: "create_grant_id demo_create = arr_fill 2"
proof -
  have "length (grant_encode demo_hmac (arr_fill 7) demo_grant) = 180" by (simp add: grant_encode_def length_bodies)
  then have "list_of (lc_grant demo_create) = grant_encode demo_hmac (arr_fill 7) demo_grant" by (simp add: demo_create_def)
  then show ?thesis
    by (simp add: create_grant_id_def grant_encode_def grant_body_def sub_list_def demo_grant_def)
qed

lemma demo_created: "snd (create_lease demo_hmac demo_sha 0 demo_wire 100 demo_store1) = demo_store2"
proof -
  have c: "cleanup_expired 100 demo_store1 = demo_store1" by (simp add: cleanup_expired_def demo_store)
  have f: "ls_config demo_store1 = demo_config" "ls_admission_key demo_store1 = arr_fill 7" "ls_relay_service_id demo_store1 = arr_fill 1"
    "ls_leases demo_store1 = []" "sc_grant_lifetime_secs demo_config = 450" "sc_max_lease_lifetime_secs demo_config = 900"
    "sc_relay_limits demo_config = demo_limits" by (simp_all add: demo_store)
  have "create_lease demo_hmac demo_sha 0 demo_wire 100 demo_store1 = create_from_grant (demo_sha demo_wire) 0 demo_create 100 demo_store1"
    by (simp add: create_lease_def c f demo_policies demo_wire_accepted)
  moreover have "snd (create_from_grant (demo_sha demo_wire) 0 demo_create 100 demo_store1) = demo_store2"
    using demo_grant_id unfolding create_from_grant_def create_grant_id_def
    by (simp add: demo_store demo_create_def qs_create_def created_store_def created_lease_def put_lease_def Let_def)
  ultimately show ?thesis by simp
qed

lemma demo_deposit_ok: "push_ok demo_deposit"
  by (auto simp: push_ok_def demo_deposit_def demo_msg_def natural_valid_def cell_new_def MAX_MSG_NATURAL_LEN_def)

lemma demo_cell_accepted:
  "now < 300 \<Longrightarrow> push_decode_from_cell demo_hmac (arr_fill 5) (arr_fill 1) now demo_cell = Inr demo_deposit"
  using demo_deposit_ok by (auto simp: push_decode_iff push_encode_iff demo_cell_def cell_new_def) (simp add: demo_deposit_def)

lemma demo_cell_queue: "map_option pp_queue_id (nested_parts demo_cell) = Some (arr_fill 4)"
  using parse_push_bytes [OF parts_of_ok [OF demo_deposit_ok], of demo_hmac "arr_fill 5" "arr_fill 1"]
  by (simp add: nested_parts_def demo_cell_def cell_new_def) (simp add: parts_of_def Let_def demo_deposit_def)

text \<open>The lease and the queue after the deposit.\<close>

definition demo_lease2 :: lease_record where
  "demo_lease2 = created_lease (demo_sha demo_wire) demo_create demo_record"

lemma demo_store2_parts:
  "ls_leases demo_store2 = [(arr_fill 4, demo_lease2)]" "ls_config demo_store2 = demo_config" "ls_relay_service_id demo_store2 = arr_fill 1"
  "qs_queues (ls_queues demo_store2) = [(arr_fill 4, \<lparr>q_bytes = 0, q_messages = [], q_interactive = [], q_bulk = [], q_generation = 0\<rparr>)]"
  "qs_total_bytes (ls_queues demo_store2) = 0"
  by (simp_all add: demo_store created_store_def demo_lease2_def demo_create_def)

lemma demo_lease2_parts:
  "lr_epoch demo_lease2 = 1" "lr_expiry demo_lease2 = 400" "lr_queue_id demo_lease2 = arr_fill 4" "cap_push (lr_capabilities demo_lease2) = arr_fill 5"
  "has_replay demo_lease2 1 OpPush n = False" "replay_count demo_lease2 OpPush = 0" "ll_max_queue_cells (lr_limits demo_lease2) = 4"
  "ll_max_queue_bytes (lr_limits demo_lease2) = 1024"
  by (simp_all add: demo_lease2_def created_lease_def demo_create_def demo_caps_def has_replay_def replay_count_def)

definition demo_lease3 :: lease_record where
  "demo_lease3 = demo_lease2\<lparr>lr_replay := lr_replay demo_lease2 @ [\<lparr>rr_epoch = 1, rr_operation = OpPush, rr_nonce = arr_fill 11,
       rr_expiry = 300, rr_gc2_push_binding = None\<rparr>], lr_next_replay_expiry := Some 300\<rparr>"

definition demo_queue3 :: queue where
  "demo_queue3 = \<lparr>q_bytes = 9, q_messages = [\<lparr>qm_push_nonce = arr_fill 11, qm_cell = demo_msg\<rparr>], q_interactive = [], q_bulk = [],
     q_generation = 0\<rparr>"

definition demo_store3 :: lease_store where
  "demo_store3 = put_lease (arr_fill 4) demo_lease3 (put_queue (arr_fill 4) demo_queue3 9 demo_store2)"

lemma demo_live: "cleanup_expired 100 demo_store2 = demo_store2"
  by (simp add: cleanup_expired_def demo_store2_parts demo_lease2_parts)
     (simp add: purge_replay_def demo_lease2_def created_lease_def demo_create_def demo_store created_store_def)

lemma demo_push: "authenticate_push demo_hmac demo_cell 100 demo_store2 = (Inr Enqueued, demo_store3)"
proof -
  obtain parts where p: "nested_parts demo_cell = Some parts" "pp_queue_id parts = arr_fill 4" using demo_cell_queue by auto
  have d: "purge_replay 100 demo_lease2 = demo_lease2"
    by (simp add: purge_replay_def demo_lease2_def created_lease_def demo_create_def)
  have "AList.update (arr_fill 4) demo_lease2 (ls_leases demo_store2) = ls_leases demo_store2" by (simp add: demo_store2_parts)
  then have u: "put_lease (arr_fill 4) demo_lease2 demo_store2 = demo_store2" by (simp add: put_lease_def)
  have q: "rp_queue_id demo_deposit = arr_fill 4" "rp_epoch demo_deposit = 1" "rp_expiry demo_deposit = 300" "rp_msg demo_deposit = Some demo_msg"
    "rp_nonce demo_deposit = arr_fill 11" "natural_cell_len demo_msg = 9" "length (c_payload demo_msg) = 3"
    by (simp_all add: demo_deposit_def demo_msg_def natural_cell_len_def cell_new_def HEADER_LEN_def)
  have r: "record_replay 1 OpPush (arr_fill 11) 300 8 demo_lease2 = Inr demo_lease3"
    by (simp add: record_replay_def demo_lease2_parts demo_lease3_def)
       (simp add: demo_lease2_def created_lease_def demo_create_def min_def)
  have "push_enqueue (arr_fill 4) demo_deposit demo_msg demo_lease2 demo_store2 = (Inr Enqueued, demo_store3)"
    by (simp add: push_enqueue_def q r demo_lease2_parts demo_store2_parts natural_cell_len_checked_def reject_def checked_add_eq
        demo_config_def queue_len_of_def demo_store3_def demo_queue3_def put_queue_def [where st = demo_store2])
  then show ?thesis
    by (simp add: authenticate_push_def demo_live p d u q demo_lease2_parts demo_cell_accepted demo_store2_parts require_binding_def reject_def)
qed

lemma demo_store3_parts:
  "ls_leases demo_store3 = [(arr_fill 4, demo_lease3)]" "qs_queues (ls_queues demo_store3) = [(arr_fill 4, demo_queue3)]"
  "ls_config demo_store3 = demo_config" "ls_grants demo_store3 = ls_grants demo_store2" "ls_relay_service_id demo_store3 = arr_fill 1"
  by (simp_all add: demo_store3_def put_lease_def put_queue_def demo_store2_parts)

lemma demo_live3: "cleanup_expired 150 demo_store3 = demo_store3"
proof -
  have p: "purge_replay 150 demo_lease3 = demo_lease3" by (simp add: purge_replay_def demo_lease3_def)
  have e: "lr_expiry demo_lease3 = 400" by (simp add: demo_lease3_def demo_lease2_parts)
  have g: "filter (\<lambda>(_, grant). 150 < gt_expiry grant) (ls_grants demo_store3) = ls_grants demo_store3"
    by (simp add: demo_store3_parts demo_store created_store_def)
  have "demo_store3\<lparr>ls_grants := ls_grants demo_store3\<rparr> = demo_store3" "demo_store3\<lparr>ls_leases := ls_leases demo_store3\<rparr> = demo_store3" by simp_all
  then show ?thesis by (simp add: cleanup_expired_def g) (simp add: demo_store3_parts e p)
qed

lemma demo_acknowledge:
  "fst (acknowledge (arr_fill 4) (arr_fill 11) 150 demo_store3) = Removed"
  "ls_leases (snd (acknowledge (arr_fill 4) (arr_fill 11) 150 demo_store3)) = [(arr_fill 4, demo_lease3)]"
  by (simp_all add: acknowledge_def demo_live3 demo_store3_parts demo_queue3_def put_queue_def Let_def)

section \<open>A GC/2 deposit\<close>

definition demo_gc2_cover :: gc2_push where
  "demo_gc2_cover = \<lparr>gp_class = Bulk, gp_queue_id = arr_fill 4, gp_epoch = 1, gp_nonce = arr_fill 12, gp_expiry = 300, gp_msg = None\<rparr>"

definition demo_gc2_wire :: natural_cell where
  "demo_gc2_wire = \<lparr>n_kind = RelayPush, n_flags = 0, n_payload = gp_bytes demo_gc2_cover @ replicate 32 5\<rparr>"

definition demo_gc2_unverified :: unverified_push where
  "demo_gc2_unverified = \<lparr>up_cell = demo_gc2_wire, up_class = Bulk, up_queue_id = arr_fill 4, up_epoch = 1, up_expiry = 300\<rparr>"

lemma demo_gc2_body: "gc2_body demo_gc2_wire RelayPush = Inr (gp_bytes demo_gc2_cover)"
  by (simp add: gc2_body_def demo_gc2_wire_def GC2_TAG_LEN_def)

lemma demo_gc2_parse: "gc2_push_parse (gp_bytes demo_gc2_cover) = Inr demo_gc2_cover"
  by (simp add: gc2_push_parse_iff gp_ok_def demo_gc2_cover_def)

lemma demo_unverified: "unverified_parse demo_gc2_wire = Inr demo_gc2_unverified"
  by (simp add: unverified_parse_def demo_gc2_body demo_gc2_parse demo_gc2_unverified_def) (simp add: demo_gc2_cover_def)

lemma demo_gc2_authentic: "unverified_authenticate demo_hmac (arr_fill 5) (arr_fill 1) 100 demo_gc2_unverified = Inr demo_gc2_cover"
  by (simp add: unverified_authenticate_def gc2_push_decode_def gc2_authenticate_def demo_gc2_unverified_def demo_gc2_body demo_gc2_parse
      gc2_mac_def gc2_domain_def demo_hmac_def list_of_arr_fill)
     (simp add: demo_gc2_wire_def gc2_live_def demo_gc2_cover_def)

lemma demo_gc2_push: "fst (authenticate_push_gc2 demo_hmac demo_sha demo_gc2_unverified 100 demo_store2) = Inr Cover"
proof -
  have c: "gp_queue_id demo_gc2_cover = arr_fill 4" "gp_epoch demo_gc2_cover = 1" "gp_expiry demo_gc2_cover = 300" "gp_msg demo_gc2_cover = None"
    "up_queue_id demo_gc2_unverified = arr_fill 4" by (simp_all add: demo_gc2_cover_def demo_gc2_unverified_def)
  have "List.find (\<lambda>r. rr_epoch r = 1 \<and> rr_operation r = OpPush \<and> rr_nonce r = n) (lr_replay demo_lease2) = None" for n
    by (simp add: demo_lease2_def created_lease_def)
  then show ?thesis
    by (simp add: authenticate_push_gc2_def demo_live c demo_store2_parts demo_lease2_parts demo_gc2_authentic require_binding_def reject_def
        record_gc2_push_def record_replay_def demo_config_def Let_def)
qed

end
