(* ===== verification/Store_Safety.thy ===== *)
theory Store_Safety
  imports Store_Demo
begin

text \<open>
  The lease store over any sequence of operations: the invariant holds in every reachable store, an
  accepted deposit is never accepted again while its lease lives, queues are first-in first-out, and
  a refused operation changes nothing but expired entries.
\<close>

section \<open>Reachable stores\<close>

inductive store_step ::
  "mac_fn \<Rightarrow> (bytes \<Rightarrow> 32 arr) \<Rightarrow> (nat \<Rightarrow> 'h \<Rightarrow> bytes \<times> 'h) \<Rightarrow> u64 \<Rightarrow> lease_store \<Rightarrow> lease_store \<Rightarrow> bool"
  for hmac sha fill now where
  issue: "store_step hmac sha fill now st st'" if "issue_grant hmac fill request now h st = Some (r, st', h')"
| issue_temporary: "store_step hmac sha fill now st st'" if "issue_temporary_grant hmac fill request now expires_at h st = Some (r, st', h')"
| issue_dynamic: "store_step hmac sha fill now st st'" if "issue_dynamic_grant hmac fill wire now h st = Some (r, st', h')"
| create: "store_step hmac sha fill now st (snd (create_lease hmac sha gen wire now st))"
| renew: "store_step hmac sha fill now st (snd (store_renew hmac wire now st))"
| rotate: "store_step hmac sha fill now st (snd (store_rotate hmac wire now st))"
| revoke: "store_step hmac sha fill now st (snd (store_revoke hmac wire now st))"
| subscribe: "store_step hmac sha fill now st (snd (authenticate_sub hmac c now st))"
| push: "store_step hmac sha fill now st (snd (authenticate_push hmac c now st))"
| acknowledge: "store_step hmac sha fill now st (snd (acknowledge q n now st))"
| push_gc2: "store_step hmac sha fill now st (snd (authenticate_push_gc2 hmac sha u now st))"
| subscribe_gc2: "store_step hmac sha fill now st (snd (authenticate_sub_gc2 hmac nc now st))"
| acknowledge_gc2: "store_step hmac sha fill now st (snd (acknowledge_gc2 handle n now st))"
| peek: "store_step hmac sha fill now st (snd (store_peek q now st))"
| peek_gc2: "store_step hmac sha fill now st (snd (peek_gc2 handle now st))"
| lease: "store_step hmac sha fill now st (snd (store_lease q now st))"
| valid: "store_step hmac sha fill now st (snd (subscription_valid q epoch expiry now st))"
| len: "store_step hmac sha fill now st (snd (store_queue_len q now st))"
| bytes: "store_step hmac sha fill now st (snd (store_queue_bytes q now st))"
| count: "store_step hmac sha fill now st (snd (store_queue_count now st))"
| cleanup: "store_step hmac sha fill now st (cleanup_expired now st)"

inductive store_reach ::
  "mac_fn \<Rightarrow> (bytes \<Rightarrow> 32 arr) \<Rightarrow> (nat \<Rightarrow> 'h \<Rightarrow> bytes \<times> 'h) \<Rightarrow> lease_store \<Rightarrow> bool" for hmac sha fill where
  new: "store_reach hmac sha fill st" if "lease_store_new fill sid config h = Some (Inr st, h')"
| step: "store_reach hmac sha fill st'" if "store_reach hmac sha fill st" and "store_step hmac sha fill now st st'"

lemma reads_cleanup [simp]:
  "snd (store_peek q now st) = cleanup_expired now st" "snd (peek_gc2 handle now st) = cleanup_expired now st"
  "snd (store_lease q now st) = cleanup_expired now st" "snd (subscription_valid q epoch expiry now st) = cleanup_expired now st"
  "snd (store_queue_len q now st) = cleanup_expired now st" "snd (store_queue_bytes q now st) = cleanup_expired now st"
  "snd (store_queue_count now st) = cleanup_expired now st"
  by (simp_all add: store_peek_def peek_gc2_def store_lease_def subscription_valid_def store_queue_len_def store_queue_bytes_def
      store_queue_count_def Let_def)

lemma lease_store_new_ok:
  assumes "lease_store_new fill sid config h = Some (Inr st, h')"
  shows "store_ok st"
  using assms
  by (auto simp: lease_store_new_def store_ok_def Let_def config_ok_def validation_policy_new_def queue_store_new_def bind_eq_Some_conv not_less
      split: if_splits sum.splits)

lemma issue_temporary_grant_ok:
  assumes "store_ok st" and "issue_temporary_grant hmac fill request now expires_at h st = Some (r, st', h')"
  shows "store_ok st'"
  using assms issue_grant_with_bound_ok [OF assms(1)] by (auto simp: issue_temporary_grant_def split: if_splits)

lemma dynamic_lease_ok:
  assumes "lease_ok c q l"
  shows "lease_ok c q (l\<lparr>lr_dynamic_grants := filter P (lr_dynamic_grants l)\<rparr>)"
proof -
  have "length (filter P (lr_dynamic_grants l)) \<le> sc_dynamic_grants_per_minute c"
    using assms length_filter_le [of P "lr_dynamic_grants l"] unfolding lease_ok_def by linarith
  with assms show ?thesis by (simp add: lease_ok_def replay_count_def)
qed

lemma recorded_lease_ok:
  assumes "lease_ok c q l" and "record_replay (lr_epoch l) OpGrant n x (sc_max_replay_nonces_per_lease c) l = Inr l'"
    and "\<not> has_replay l (lr_epoch l) OpGrant n" and "length gs \<le> sc_dynamic_grants_per_minute c"
  shows "lease_ok c q (l'\<lparr>lr_dynamic_grants := gs\<rparr>)"
proof -
  have "lease_ok c q l'" using record_replay_ok [OF assms(1), of OpGrant n x] assms(2,3) by (simp add: replay_bound_def)
  with assms(4) show ?thesis by (simp add: lease_ok_def replay_count_def)
qed

lemma dynamic_recorded_ok:
  assumes ok: "store_ok st" and l: "map_of (ls_leases (cleanup_expired now st)) q = Some l"
    and r: "record_replay (lr_epoch l) OpGrant n x (sc_max_replay_nonces_per_lease (ls_config st)) l = Inr l'"
    and n: "\<not> has_replay l (lr_epoch l) OpGrant n" and "length gs < sc_dynamic_grants_per_minute (ls_config st)"
  shows "store_ok (put_lease q (l'\<lparr>lr_dynamic_grants := gs @ [t]\<rparr>) (cleanup_expired now st))"
proof -
  have "lr_limits l' = lr_limits l" using r by (simp add: record_replay_Inr)
  then show ?thesis using assms(5)
    by (intro store_put_lease [OF ok l] recorded_lease_ok [OF cleanup_lease_ok [OF ok l] r n]) simp_all
qed

lemma issue_dynamic_grant_ok:
  assumes ok: "store_ok st" and r: "issue_dynamic_grant hmac fill wire now h st = Some (r, st', h')"
  shows "store_ok st'"
  using assms
proof (cases rule: issue_dynamic_grant_cases)
  case (refused e)
  then show ?thesis using cleanup_ok [OF ok] by simp
next
  case (throttled e q l)
  then show ?thesis
    using store_put_lease [OF ok throttled(2) dynamic_lease_ok [OF cleanup_lease_ok [OF ok throttled(2)]]] by simp
next
  case (recorded q l v l' policy)
  note dynamic_recorded_ok [OF ok recorded(1,6,4,5)]
  from issue_grant_with_bound_ok [OF this recorded(7) [unfolded issue_grant_def]] show ?thesis .
qed

lemma store_step_ok:
  assumes "store_step hmac sha fill now st st'" and "store_ok st"
  shows "store_ok st'"
  using assms
  by cases
     (auto simp: issue_grant_def intro: issue_grant_with_bound_ok issue_temporary_grant_ok issue_dynamic_grant_ok create_lease_ok
        store_renew_ok store_rotate_ok store_revoke_ok authenticate_sub_ok authenticate_push_ok acknowledge_ok authenticate_push_gc2_ok
        authenticate_sub_gc2_ok acknowledge_gc2_ok cleanup_ok)

lemma store_reach_ok: "store_reach hmac sha fill st \<Longrightarrow> store_ok st"
  by (induction rule: store_reach.induct) (auto intro: lease_store_new_ok store_step_ok)

section \<open>How a live lease changes\<close>

definition lease_grows :: "lease_record \<Rightarrow> lease_record \<Rightarrow> bool" where
  "lease_grows l l' \<longleftrightarrow> lr_epoch l < lr_epoch l' \<or> lr_epoch l' = lr_epoch l \<and> set (lr_replay l) \<subseteq> set (lr_replay l')"

definition evolves :: "32 arr \<Rightarrow> u64 \<Rightarrow> lease_store \<Rightarrow> lease_store \<Rightarrow> bool" where
  "evolves q now st st' \<longleftrightarrow>
     (\<forall>l l'. map_of (ls_leases (cleanup_expired now st)) q = Some l \<longrightarrow> map_of (ls_leases st') q = Some l' \<longrightarrow> lease_grows l l')"

lemma lease_grows_refl [simp]: "lease_grows l l"
  by (simp add: lease_grows_def)

lemma evolves_same: "ls_leases st' = ls_leases (cleanup_expired now st) \<Longrightarrow> evolves q now st st'"
  by (simp add: evolves_def)

lemma evolves_put:
  assumes "map_of (ls_leases (cleanup_expired now st)) q0 = Some l" and "lease_grows l l'"
    and "ls_leases s = ls_leases (cleanup_expired now st)"
  shows "evolves q now st (put_lease q0 l' s)"
  using assms by (auto simp: evolves_def put_lease_def update_conv')

lemma record_replay_grows: "record_replay e op n x m l = Inr l' \<Longrightarrow> lease_grows l l'"
  by (auto simp: record_replay_Inr lease_grows_def)

lemma record_gc2_push_grows: "record_gc2_push e n x b m l = Inr l' \<Longrightarrow> lease_grows l l'"
  by (auto simp: record_gc2_push_Inr lease_grows_def)

lemma put_queue_leases [simp]: "ls_leases (put_queue q x b st) = ls_leases st"
  by (simp add: put_queue_def)

lemma rotate_epoch:
  assumes "rotate_decode_and_verify hmac caps sid policy wire = Inr v"
  shows "lo_old_epoch v < lo_new_epoch v"
proof -
  have "lo_old_epoch v \<noteq> - 1" "lo_new_epoch v = lo_old_epoch v + 1"
    using assms by (auto simp: rotate_decode_iff rotate_validate_def Let_def)
  moreover have "unat (1 + lo_old_epoch v) = Suc (unat (lo_old_epoch v))"
    using calculation(1) by (intro unatSuc) (simp add: add_eq_0_iff)
  ultimately show ?thesis by (simp add: word_less_nat_alt add.commute)
qed

lemma push_enqueue_evolves:
  assumes ok: "store_ok (cleanup_expired now st)" and l: "map_of (ls_leases (cleanup_expired now st)) q0 = Some l"
  shows "evolves q now st (snd (push_enqueue q0 p msg l (cleanup_expired now st)))"
proof -
  obtain x where x: "map_of (qs_queues (ls_queues (cleanup_expired now st))) q0 = Some x" by (rule lease_queue [OF ok l]) 
  then show ?thesis
  proof (cases rule: push_enqueue_cases [where p = p and msg = msg and l = l])
    case (refused e)
    then show ?thesis by (simp add: evolves_same)
  next
    case (enqueued b nb l')
    then show ?thesis by (simp add: evolves_put [OF l record_replay_grows])
  qed
qed

lemma push_enqueue_gc2_evolves:
  assumes ok: "store_ok (cleanup_expired now st)" and l: "map_of (ls_leases (cleanup_expired now st)) q0 = Some l"
  shows "evolves q now st (snd (push_enqueue_gc2 q0 p msg b l (cleanup_expired now st)))"
proof -
  obtain x where x: "map_of (qs_queues (ls_queues (cleanup_expired now st))) q0 = Some x" by (rule lease_queue [OF ok l]) 
  then show ?thesis
  proof (cases rule: push_enqueue_gc2_cases [where p = p and msg = msg and l = l and binding = b])
    case (refused e)
    then show ?thesis by (simp add: evolves_same)
  next
    case (enqueued b nb l')
    then show ?thesis by (simp add: evolves_put [OF l record_gc2_push_grows])
  qed
qed

lemma authenticate_push_evolves:
  assumes ok: "store_ok st"
  shows "evolves q now st (snd (authenticate_push hmac c now st))"
  using ok
proof (cases rule: authenticate_push_cases [where hmac = hmac and c = c and now = now])
  case (covered q l p l')
  then show ?thesis by (simp add: evolves_put record_replay_grows)
next
  case (enqueued q0 l p msg)
  then show ?thesis by (simp add: push_enqueue_evolves cleanup_ok ok)
qed (simp_all add: evolves_same)

lemma authenticate_push_gc2_evolves:
  assumes ok: "store_ok st"
  shows "evolves q now st (snd (authenticate_push_gc2 hmac sha u now st))"
  using ok
proof (cases rule: authenticate_push_gc2_cases [where hmac = hmac and sha = sha and u = u and now = now])
  case (covered l p l')
  then show ?thesis by (simp add: evolves_put record_gc2_push_grows)
next
  case (enqueued l p msg)
  then show ?thesis by (simp add: push_enqueue_gc2_evolves cleanup_ok ok)
qed (simp_all add: evolves_same)

lemma store_renew_evolves:
  assumes "store_ok st"
  shows "evolves q now st (snd (store_renew hmac wire now st))"
  using assms
proof (cases rule: store_renew_cases [where hmac = hmac and wire = wire and now = now])
  case (renewed q0 l v l' policy)
  then show ?thesis using record_replay_grows [OF renewed(7)] by (simp add: evolves_put lease_grows_def)
qed (simp add: evolves_same)

lemma store_rotate_evolves:
  assumes "store_ok st"
  shows "evolves q now st (snd (store_rotate hmac wire now st))"
  using assms
proof (cases rule: store_rotate_cases [where hmac = hmac and wire = wire and now = now])
  case (rotated q0 l v policy)
  then show ?thesis using rotate_epoch [OF rotated(2)] by (simp add: evolves_put lease_grows_def rotated_lease_def)
qed (simp add: evolves_same)

lemma store_revoke_evolves:
  assumes "store_ok st"
  shows "evolves q now st (snd (store_revoke hmac wire now st))"
  using assms
proof (cases rule: store_revoke_cases [where hmac = hmac and wire = wire and now = now])
  case (revoked q0 l v policy)
  then show ?thesis by (auto simp: evolves_def remove_lease_def delete_conv' split: if_splits)
qed (simp add: evolves_same)

lemma authenticate_sub_evolves:
  assumes "store_ok st"
  shows "evolves q now st (snd (authenticate_sub hmac c now st))"
  using assms
proof (cases rule: authenticate_sub_cases [where hmac = hmac and c = c and now = now])
  case (subscribed q0 l s l')
  then show ?thesis by (simp add: evolves_put record_replay_grows)
qed (simp add: evolves_same)

lemma authenticate_sub_gc2_evolves:
  assumes "store_ok st"
  shows "evolves q now st (snd (authenticate_sub_gc2 hmac c now st))"
  using assms
proof (cases rule: authenticate_sub_gc2_cases [where hmac = hmac and c = c and now = now])
  case (subscribed q0 l s l')
  then show ?thesis by (simp add: evolves_put record_replay_grows)
qed (simp add: evolves_same)

lemma acknowledge_evolves: "evolves q now st (snd (acknowledge q0 n now st))"
  by (cases rule: acknowledge_cases [where q = q0 and n = n and now = now and st = st]) (simp_all add: evolves_same)

lemma acknowledge_gc2_evolves: "store_ok st \<Longrightarrow> evolves q now st (snd (acknowledge_gc2 h n now st))"
  by (cases rule: acknowledge_gc2_cases [where h = h and n = n and now = now and st = st]) (simp_all add: evolves_same)

lemma create_lease_evolves:
  assumes "store_ok st"
  shows "evolves q now st (snd (create_lease hmac sha gen wire now st))"
  using assms
proof (cases rule: create_lease_cases [where hmac = hmac and sha = sha and gen = gen and wire = wire and now = now])
  case (created v g ag gp lp)
  then show ?thesis by (auto simp: evolves_def created_store_def update_conv' split: if_splits)
qed (simp_all add: evolves_same)

lemma issue_grant_evolves:
  assumes "store_ok st" and "issue_grant_with_bound hmac fill request now temporary h st = Some (r, st', h')"
  shows "ls_leases st' = ls_leases (cleanup_expired now st)"
  using assms by (cases rule: issue_grant_with_bound_cases) simp_all

lemma cleanup_lease:
  assumes "store_ok st" and "map_of (ls_leases (cleanup_expired now st)) q = Some l"
  obtains l0 where "map_of (ls_leases st) q = Some l0" "lr_epoch l = lr_epoch l0"
    "set (lr_replay l) = {r \<in> set (lr_replay l0). now < rr_expiry r}"
proof -
  from assms cleanup_lookup(1) [OF assms(1), of now q] obtain l0 where l0: "l = purge_replay now l0" "map_of (ls_leases st) q = Some l0"
    by (auto split: option.splits if_splits)
  then have "lr_next_replay_expiry l0 = min_expiry (lr_replay l0)" using store_okD(2) [OF assms(1)] by (simp add: lease_ok_def)
  then show thesis using that [OF l0(2)] by (simp add: l0(1) purge_replay_eq)
qed

lemma evolves_idle:
  assumes ok: "store_ok st"
  shows "evolves q now st st"
  unfolding evolves_def
proof (intro allI impI)
  fix l l' assume l: "map_of (ls_leases (cleanup_expired now st)) q = Some l" and l': "map_of (ls_leases st) q = Some l'"
  obtain l0 where "map_of (ls_leases st) q = Some l0" "lr_epoch l = lr_epoch l0" "set (lr_replay l) = {r \<in> set (lr_replay l0). now < rr_expiry r}"
    by (rule cleanup_lease [OF ok l])
  with l' show "lease_grows l l'" by (auto simp: lease_grows_def)
qed

lemma cleanup_again_evolves:
  assumes ok: "store_ok st" and s: "store_ok s" and e: "evolves q now st s" and st': "ls_leases st' = ls_leases (cleanup_expired now s)"
  shows "evolves q now st st'"
  unfolding evolves_def
proof (intro allI impI)
  fix l l' assume l: "map_of (ls_leases (cleanup_expired now st)) q = Some l" and l': "map_of (ls_leases st') q = Some l'"
  obtain l1 where l1: "map_of (ls_leases s) q = Some l1" "lr_epoch l' = lr_epoch l1" "set (lr_replay l') = {r \<in> set (lr_replay l1). now < rr_expiry r}"
    by (rule cleanup_lease [OF s l' [unfolded st']])
  have "lease_grows l l1" using e l l1(1) by (simp add: evolves_def)
  then show "lease_grows l l'" using l1 cleanup_purged(4) [OF ok l] by (auto simp: lease_grows_def)
qed

lemma dynamic_grant_evolves:
  assumes ok: "store_ok st" and r: "issue_dynamic_grant hmac fill wire now h st = Some (r, st', h')"
  shows "evolves q now st st'"
  using assms
proof (cases rule: issue_dynamic_grant_cases)
  case (refused e)
  then show ?thesis by (simp add: evolves_same)
next
  case (throttled e q0 l)
  then show ?thesis by (simp add: evolves_put lease_grows_def)
next
  case (recorded q0 l v l' policy)
  note s = dynamic_recorded_ok [OF ok recorded(1,6,4,5)]
  have "evolves q now st (put_lease q0 (l'\<lparr>lr_dynamic_grants := filter (\<lambda>issued. now < sat_add issued 60) (lr_dynamic_grants l) @ [now]\<rparr>) (cleanup_expired now st))"
    using record_replay_grows [OF recorded(6)] by (intro evolves_put [OF recorded(1)]) (simp_all add: lease_grows_def)
  then show ?thesis
    using cleanup_again_evolves [OF ok s] issue_grant_evolves [OF s recorded(7) [unfolded issue_grant_def]] by blast
qed

lemma store_step_evolves:
  assumes "store_step hmac sha fill now st st'" and "store_ok st"
  shows "evolves q now st st'"
  using assms
  by cases
     (auto simp: issue_grant_def issue_temporary_grant_def split: if_splits intro: evolves_same evolves_idle issue_grant_evolves dynamic_grant_evolves create_lease_evolves
        store_renew_evolves store_rotate_evolves store_revoke_evolves authenticate_sub_evolves authenticate_push_evolves
        acknowledge_evolves authenticate_push_gc2_evolves authenticate_sub_gc2_evolves acknowledge_gc2_evolves)

text \<open>
  A dynamic grant request that arrives after its own expiry is still accepted within the clock skew of
  the policy, but its replay record counts as expired: the store that results remembers nothing of it,
  so that the same request is no replay.
\<close>

lemma late_dynamic_request_forgotten:
  assumes ok: "store_ok st" and r: "issue_dynamic_grant hmac fill wire now h st = Some (Inr g, st', h')"
  obtains q l v policy where "map_of (ls_leases (cleanup_expired now st)) q = Some l"
    "request_decode_and_verify hmac (cap_admin (lr_capabilities l)) (ls_relay_service_id st) (lr_queue_id l) (lr_epoch l) policy wire = Inr v"
    "\<And>l'. gr_expiry v \<le> now \<Longrightarrow> map_of (ls_leases st') q = Some l' \<Longrightarrow> \<not> has_replay l' (lr_epoch l') OpGrant (gr_nonce v)"
  using assms
proof (cases rule: issue_dynamic_grant_cases)
  case (recorded q l v l1 policy)
  note s = dynamic_recorded_ok [OF ok recorded(1,6,4,5), of now]
  let ?l = "l1\<lparr>lr_dynamic_grants := filter (\<lambda>issued. now < sat_add issued 60) (lr_dynamic_grants l) @ [now]\<rparr>"
  have "\<not> has_replay l' (lr_epoch l') OpGrant (gr_nonce v)" if late: "gr_expiry v \<le> now" and l': "map_of (ls_leases st') q = Some l'" for l'
  proof -
    have "map_of (ls_leases (cleanup_expired now (put_lease q ?l (cleanup_expired now st)))) q = Some l'"
      using l' issue_grant_evolves [OF s recorded(7) [unfolded issue_grant_def]] by simp
    then obtain l0 where l0: "map_of (ls_leases (put_lease q ?l (cleanup_expired now st))) q = Some l0" "lr_epoch l' = lr_epoch l0"
      "set (lr_replay l') = {r \<in> set (lr_replay l0). now < rr_expiry r}" by (rule cleanup_lease [OF s])
    then have "l0 = ?l" by (simp add: put_lease_def update_conv')
    then show ?thesis using l0(2,3) recorded(4,6) late by (auto simp: has_replay_def list_ex_iff record_replay_Inr)
  qed
  with recorded(1,2) show thesis by (rule that)
qed simp_all

section \<open>A deposit is accepted once\<close>

text \<open>Operations at times that do not decrease, each of which finds the lease of \<open>q\<close> alive and leaves one.\<close>

inductive kept_run ::
  "mac_fn \<Rightarrow> (bytes \<Rightarrow> 32 arr) \<Rightarrow> (nat \<Rightarrow> 'h \<Rightarrow> bytes \<times> 'h) \<Rightarrow> 32 arr \<Rightarrow> u64 \<Rightarrow> lease_store \<Rightarrow> u64 \<Rightarrow> lease_store \<Rightarrow> bool"
  for hmac sha fill q t0 s0 where
  stay: "kept_run hmac sha fill q t0 s0 t0 s0"
| step: "kept_run hmac sha fill q t0 s0 t' s'" if "kept_run hmac sha fill q t0 s0 t s" and "t \<le> t'" and "store_step hmac sha fill t' s s'"
    and "map_of (ls_leases (cleanup_expired t' s)) q \<noteq> None" and "map_of (ls_leases s') q \<noteq> None"

definition push_recorded :: "32 arr \<Rightarrow> u64 \<Rightarrow> 16 arr \<Rightarrow> u64 \<Rightarrow> lease_store \<Rightarrow> bool" where
  "push_recorded q e n x st \<longleftrightarrow> (\<exists>l. map_of (ls_leases st) q = Some l
     \<and> (e < lr_epoch l \<or> e = lr_epoch l \<and> (\<exists>r \<in> set (lr_replay l). rr_operation r = OpPush \<and> rr_nonce r = n \<and> rr_expiry r = x)))"

lemma push_recorded_cleanup:
  assumes "store_ok st" and "push_recorded q e n x st" and "now < x" and "map_of (ls_leases (cleanup_expired now st)) q \<noteq> None"
  shows "push_recorded q e n x (cleanup_expired now st)"
proof -
  obtain l where l: "map_of (ls_leases (cleanup_expired now st)) q = Some l" using assms(4) by auto
  obtain l0 where "map_of (ls_leases st) q = Some l0" "lr_epoch l = lr_epoch l0" "set (lr_replay l) = {r \<in> set (lr_replay l0). now < rr_expiry r}"
    by (rule cleanup_lease [OF assms(1) l])
  then show ?thesis using assms(2,3) l by (auto simp: push_recorded_def)
qed

lemma push_recorded_evolves:
  assumes "evolves q now st st'" and "push_recorded q e n x (cleanup_expired now st)" and "map_of (ls_leases st') q \<noteq> None"
  shows "push_recorded q e n x st'"
proof -
  obtain l l' where l: "map_of (ls_leases (cleanup_expired now st)) q = Some l" "map_of (ls_leases st') q = Some l'"
    using assms(2,3) by (auto simp: push_recorded_def)
  then have "lease_grows l l'" using assms(1) by (simp add: evolves_def)
  then show ?thesis using assms(2) l by (auto simp: push_recorded_def lease_grows_def)
qed

lemma kept_run_recorded:
  assumes "kept_run hmac sha fill q t0 s0 t s" and "store_ok s0" and "push_recorded q e n x s0" and "t < x"
  shows "t0 \<le> t \<and> store_ok s \<and> push_recorded q e n x s"
  using assms
proof (induction rule: kept_run.induct)
  case (step t s t' s')
  then have "t0 \<le> t" "store_ok s" "push_recorded q e n x s" by auto
  moreover from this have "push_recorded q e n x (cleanup_expired t' s)"
    using push_recorded_cleanup step.hyps(4) step.prems(3) by blast
  ultimately show ?case
    using push_recorded_evolves [OF store_step_evolves [OF step.hyps(3)] _ step.hyps(5)] store_step_ok [OF step.hyps(3)] step.hyps(2) by auto
qed simp

lemma kept_run_ok: "kept_run hmac sha fill q t0 s0 t s \<Longrightarrow> store_ok s0 \<Longrightarrow> store_ok s"
  by (induction rule: kept_run.induct) (auto intro: store_step_ok)

lemma recorded_replay:
  assumes ok: "store_ok st" and "push_recorded q e n x st" and "now < x" and l: "map_of (ls_leases (cleanup_expired now st)) q = Some l"
  shows "e < lr_epoch l \<or> has_replay l e OpPush n"
proof -
  have "push_recorded q e n x (cleanup_expired now st)" using push_recorded_cleanup [OF assms(1-3)] l by simp
  then show ?thesis using l cleanup_lease_ok [OF ok l] by (force simp: push_recorded_def has_replay_iff replay_key_def)
qed

lemma push_decode_unique:
  assumes "push_decode_from_cell hmac cap sid now c = Inr p" and "push_decode_from_cell hmac cap' sid' now' c = Inr p'"
  shows "p = p'" "now' < rp_expiry p"
proof -
  obtain parts where o: "require_outer c RelayPush = Inr ()" "parse_push_payload (c_payload c) = Inr parts"
    using assms(1) by (auto simp: push_decode_from_cell_def)
  show "p = p'" "now' < rp_expiry p" using assms by (auto simp: push_decode_parts [OF o] push_of_def)
qed

lemma push_accepted:
  assumes ok: "store_ok st" and a: "authenticate_push hmac c now st = (Inr r, st')" and r: "r \<noteq> Duplicate"
  obtains l p where "map_of (ls_leases (cleanup_expired now st)) (rp_queue_id p) = Some l"
    "push_decode_from_cell hmac (cap_push (lr_capabilities l)) (ls_relay_service_id st) now c = Inr p"
    "rp_epoch p = lr_epoch l" "\<not> has_replay l (rp_epoch p) OpPush (rp_nonce p)"
    "push_recorded (rp_queue_id p) (rp_epoch p) (rp_nonce p) (rp_expiry p) st'"
  using ok
proof (cases rule: authenticate_push_cases [where hmac = hmac and c = c and now = now])
  case (covered q l p l')
  then have "push_recorded q (lr_epoch l) (rp_nonce p) (rp_expiry p) st'"
    using a by (auto simp: push_recorded_def put_lease_def record_replay_Inr update_conv')
  then show thesis using covered by (intro that) auto
next
  case (enqueued q l p msg)
  obtain x where "map_of (qs_queues (ls_queues (cleanup_expired now st))) q = Some x" by (rule lease_queue [OF cleanup_ok [OF ok] enqueued(1)])
  then have "push_recorded q (lr_epoch l) (rp_nonce p) (rp_expiry p) st'"
  proof (cases rule: push_enqueue_cases [where p = p and msg = msg and l = l])
    case (refused e)
    then show ?thesis using enqueued(8) a by simp
  next
    case e: (enqueued b nb l')
    then show ?thesis using enqueued(4,8) a by (auto simp: push_recorded_def put_lease_def record_replay_Inr update_conv')
  qed
  then show thesis using enqueued by (intro that) auto
qed (use a r in auto)

lemma push_gc2_accepted:
  assumes ok: "store_ok st" and a: "authenticate_push_gc2 hmac sha u now st = (Inr r, st')" and r: "r \<noteq> Duplicate"
  obtains l p where "map_of (ls_leases (cleanup_expired now st)) (gp_queue_id p) = Some l"
    "gc2_push_decode hmac (cap_push (lr_capabilities l)) (ls_relay_service_id st) now (up_cell u) = Inr p"
    "gp_epoch p = lr_epoch l" "\<not> has_replay l (gp_epoch p) OpPush (gp_nonce p)"
    "push_recorded (gp_queue_id p) (gp_epoch p) (gp_nonce p) (gp_expiry p) st'"
  using ok
proof (cases rule: authenticate_push_gc2_cases [where hmac = hmac and sha = sha and u = u and now = now])
  case (covered l p l')
  then have "push_recorded (up_queue_id u) (lr_epoch l) (gp_nonce p) (gp_expiry p) st'"
    using a by (auto simp: push_recorded_def put_lease_def record_gc2_push_Inr update_conv')
  then show thesis using covered by (intro that) (auto simp: unverified_authenticate_def)
next
  case (enqueued l p msg)
  obtain x where "map_of (qs_queues (ls_queues (cleanup_expired now st))) (up_queue_id u) = Some x"
    by (rule lease_queue [OF cleanup_ok [OF ok] enqueued(1)])
  then have "push_recorded (up_queue_id u) (lr_epoch l) (gp_nonce p) (gp_expiry p) st'"
  proof (cases rule: push_enqueue_gc2_cases [where p = p and msg = msg and l = l and binding = "sha (natural_encode (up_cell u))"])
    case (refused e)
    then show ?thesis using enqueued(8) a by simp
  next
    case e: (enqueued b nb l')
    then show ?thesis using enqueued(4,8) a by (auto simp: push_recorded_def put_lease_def record_gc2_push_Inr update_conv')
  qed
  then show thesis using enqueued by (intro that) (auto simp: unverified_authenticate_def)
qed (use a r in auto)

text \<open>A recorded deposit is refused as long as its lease lives, whatever happened in between.\<close>

lemma no_second_acceptance:
  assumes ok: "store_ok st" and rec: "push_recorded q e n x st" and run: "kept_run hmac sha fill q t st t' s"
    and le: "t' \<le> now" and l: "map_of (ls_leases (cleanup_expired now s)) q = Some l" "e = lr_epoch l" "\<not> has_replay l e OpPush n"
  shows "x \<le> now"
proof (rule ccontr)
  assume "\<not> x \<le> now"
  then have "now < x" "t' < x" using le by auto
  then have "store_ok s" "push_recorded q e n x s" using kept_run_recorded [OF run ok rec] by auto
  from recorded_replay [OF this \<open>now < x\<close> l(1)] l(2,3) show False by simp
qed

lemma gc2_push_decode_unique:
  assumes "gc2_push_decode hmac cap sid now c = Inr p" and "gc2_push_decode hmac cap' sid' now' c = Inr p'"
  shows "p = p'" "now' < gp_expiry p"
  using assms by (auto simp: gc2_push_decode_def gc2_authenticate_def gc2_live_iff)

section \<open>First in, first out\<close>

text \<open>What a queue holds in one of its three lanes: GC/1 cells, and GC/2 cells of either traffic class.\<close>

datatype lane = Gc1_Lane | Gc2_Lane traffic_class

fun lane_of :: "lane \<Rightarrow> queue \<Rightarrow> (16 arr \<times> (cell + natural_cell)) list" where
  "lane_of Gc1_Lane x = map (\<lambda>m. (qm_push_nonce m, Inl (qm_cell m))) (q_messages x)"
| "lane_of (Gc2_Lane cl) x = map (\<lambda>m. (nm_push_nonce m, Inr (nm_cell m))) (class_messages cl x)"

definition lane_in :: "lease_store \<Rightarrow> 32 arr \<Rightarrow> lane \<Rightarrow> (16 arr \<times> (cell + natural_cell)) list" where
  "lane_in st q ln = (case map_of (qs_queues (ls_queues st)) q of None \<Rightarrow> [] | Some x \<Rightarrow> lane_of ln x)"

text \<open>The operations of the store, each with what its caller passes.\<close>

datatype 'h store_op =
    IssueOp store_request 'h | IssueTemporaryOp store_request u64 'h | IssueDynamicOp bytes 'h
  | CreateOp nat bytes | RenewOp bytes | RotateOp bytes | RevokeOp bytes
  | SubscribeOp cell | PushOp cell | AcknowledgeOp "32 arr" "16 arr"
  | PushGc2Op unverified_push | SubscribeGc2Op natural_cell | AcknowledgeGc2Op authenticated_subscription "16 arr"
  | PeekOp "32 arr" | PeekGc2Op authenticated_subscription | LeaseOp "32 arr" | ValidOp "32 arr" u64 u64
  | LenOp "32 arr" | BytesOp "32 arr" | CountOp | CleanupOp

fun op_step ::
  "mac_fn \<Rightarrow> (bytes \<Rightarrow> 32 arr) \<Rightarrow> (nat \<Rightarrow> 'h \<Rightarrow> bytes \<times> 'h) \<Rightarrow> u64 \<Rightarrow> 'h store_op \<Rightarrow> lease_store \<Rightarrow> lease_store option" where
  "op_step hmac sha fill now (IssueOp request h) st = map_option (fst \<circ> snd) (issue_grant hmac fill request now h st)"
| "op_step hmac sha fill now (IssueTemporaryOp request expires_at h) st =
     map_option (fst \<circ> snd) (issue_temporary_grant hmac fill request now expires_at h st)"
| "op_step hmac sha fill now (IssueDynamicOp wire h) st = map_option (fst \<circ> snd) (issue_dynamic_grant hmac fill wire now h st)"
| "op_step hmac sha fill now (CreateOp gen wire) st = Some (snd (create_lease hmac sha gen wire now st))"
| "op_step hmac sha fill now (RenewOp wire) st = Some (snd (store_renew hmac wire now st))"
| "op_step hmac sha fill now (RotateOp wire) st = Some (snd (store_rotate hmac wire now st))"
| "op_step hmac sha fill now (RevokeOp wire) st = Some (snd (store_revoke hmac wire now st))"
| "op_step hmac sha fill now (SubscribeOp c) st = Some (snd (authenticate_sub hmac c now st))"
| "op_step hmac sha fill now (PushOp c) st = Some (snd (authenticate_push hmac c now st))"
| "op_step hmac sha fill now (AcknowledgeOp q n) st = Some (snd (acknowledge q n now st))"
| "op_step hmac sha fill now (PushGc2Op u) st = Some (snd (authenticate_push_gc2 hmac sha u now st))"
| "op_step hmac sha fill now (SubscribeGc2Op nc) st = Some (snd (authenticate_sub_gc2 hmac nc now st))"
| "op_step hmac sha fill now (AcknowledgeGc2Op handle n) st = Some (snd (acknowledge_gc2 handle n now st))"
| "op_step hmac sha fill now (PeekOp q) st = Some (snd (store_peek q now st))"
| "op_step hmac sha fill now (PeekGc2Op handle) st = Some (snd (peek_gc2 handle now st))"
| "op_step hmac sha fill now (LeaseOp q) st = Some (snd (store_lease q now st))"
| "op_step hmac sha fill now (ValidOp q epoch expiry) st = Some (snd (subscription_valid q epoch expiry now st))"
| "op_step hmac sha fill now (LenOp q) st = Some (snd (store_queue_len q now st))"
| "op_step hmac sha fill now (BytesOp q) st = Some (snd (store_queue_bytes q now st))"
| "op_step hmac sha fill now CountOp st = Some (snd (store_queue_count now st))"
| "op_step hmac sha fill now CleanupOp st = Some (cleanup_expired now st)"

text \<open>These are the steps of reachability.\<close>

lemma op_step_store_step: "op_step hmac sha fill now op st = Some st' \<Longrightarrow> store_step hmac sha fill now st st'"
  by (cases op) (auto intro: store_step.intros)

lemma store_step_op_step:
  assumes "store_step hmac sha fill now st st'"
  shows "\<exists>op. op_step hmac sha fill now op st = Some st'"
  using assms
proof cases
  case (issue request h r h')
  then show ?thesis by (intro exI [of _ "IssueOp request h"]) simp
next
  case (issue_temporary request expires_at h r h')
  then show ?thesis by (intro exI [of _ "IssueTemporaryOp request expires_at h"]) simp
next
  case (issue_dynamic wire h r h')
  then show ?thesis by (intro exI [of _ "IssueDynamicOp wire h"]) simp
qed (metis op_step.simps(4-21))+

text \<open>
  What a deposit cell carries by its own bytes: the queue, the lane, the nonce and the message. And
  what the answer of an operation reports about the lanes: a deposit that was queued, a message
  that was acknowledged and removed.
\<close>

definition gc1_deposit :: "cell \<Rightarrow> (32 arr \<times> lane \<times> 16 arr \<times> (cell + natural_cell)) option" where
  "gc1_deposit c =
     (case rbind (parse_push_payload (c_payload c)) (\<lambda>parts. rbind (decode_msg_natural (pp_msg_natural parts)) (\<lambda>m. Inr (parts, m))) of
        Inl _ \<Rightarrow> None
      | Inr (parts, m) \<Rightarrow> Some (pp_queue_id parts, Gc1_Lane, pp_nonce parts, Inl m))"

definition gc2_deposit :: "natural_cell \<Rightarrow> (32 arr \<times> lane \<times> 16 arr \<times> (cell + natural_cell)) option" where
  "gc2_deposit c =
     (case rbind (gc2_body c RelayPush) gc2_push_parse of
        Inl _ \<Rightarrow> None
      | Inr p \<Rightarrow> map_option (\<lambda>m. (gp_queue_id p, Gc2_Lane (gp_class p), gp_nonce p, Inr m)) (gp_msg p))"

fun op_deposit ::
  "mac_fn \<Rightarrow> (bytes \<Rightarrow> 32 arr) \<Rightarrow> u64 \<Rightarrow> 'h store_op \<Rightarrow> lease_store \<Rightarrow> (32 arr \<times> lane \<times> 16 arr \<times> (cell + natural_cell)) option" where
  "op_deposit hmac sha now (PushOp c) st =
     (if fst (authenticate_push hmac c now st) = Inr Enqueued then gc1_deposit c else None)"
| "op_deposit hmac sha now (PushGc2Op u) st =
     (if fst (authenticate_push_gc2 hmac sha u now st) = Inr Enqueued then gc2_deposit (up_cell u) else None)"
| "op_deposit hmac sha now _ st = None"

fun op_removal :: "u64 \<Rightarrow> 'h store_op \<Rightarrow> lease_store \<Rightarrow> (32 arr \<times> lane \<times> 16 arr) option" where
  "op_removal now (AcknowledgeOp q n) st = (if fst (acknowledge q n now st) = Removed then Some (q, Gc1_Lane, n) else None)"
| "op_removal now (AcknowledgeGc2Op handle n) st =
     (if fst (acknowledge_gc2 handle n now st) = Inr Removed
      then Some (gs_queue_id (au_subscription handle), Gc2_Lane (gs_class (au_subscription handle)), n) else None)"
| "op_removal now _ st = None"

definition at_lane :: "32 arr \<Rightarrow> lane \<Rightarrow> (32 arr \<times> lane \<times> 'a) option \<Rightarrow> 'a list" where
  "at_lane q ln e = (case e of None \<Rightarrow> [] | Some (q', ln', x) \<Rightarrow> if q' = q \<and> ln' = ln then [x] else [])"

text \<open>
  A log of one lane: operations, each of which finds the lease of \<open>q\<close> alive and leaves one, with the
  deposits they queued in that lane and the nonces they removed from it, both in order of time.
\<close>

inductive lane_log ::
  "mac_fn \<Rightarrow> (bytes \<Rightarrow> 32 arr) \<Rightarrow> (nat \<Rightarrow> 'h \<Rightarrow> bytes \<times> 'h) \<Rightarrow> 32 arr \<Rightarrow> lane \<Rightarrow> lease_store \<Rightarrow> lease_store
   \<Rightarrow> (16 arr \<times> (cell + natural_cell)) list \<Rightarrow> 16 arr list \<Rightarrow> bool"
  for hmac sha fill q ln s0 where
  start: "lane_log hmac sha fill q ln s0 s0 [] []"
| step: "lane_log hmac sha fill q ln s0 s' (added @ at_lane q ln (op_deposit hmac sha now op s)) (removed @ at_lane q ln (op_removal now op s))"
    if "lane_log hmac sha fill q ln s0 s added removed" and "op_step hmac sha fill now op s = Some s'"
    and "map_of (ls_leases (cleanup_expired now s)) q \<noteq> None" and "map_of (ls_leases s') q \<noteq> None"

lemma lane_put_queue:
  "lane_in (put_queue q x b st) q' ln = (if q' = q then lane_of ln x else lane_in st q' ln)"
  "lane_in (put_lease q l st) q' ln = lane_in st q' ln"
  by (simp_all add: lane_in_def put_queue_def put_lease_def update_conv')

text \<open>How one operation at \<open>now\<close> changes the lanes of \<open>q\<close>, with what it queued and what it removed.\<close>

definition lanes_move ::
  "32 arr \<Rightarrow> u64 \<Rightarrow> lease_store \<Rightarrow> (32 arr \<times> lane \<times> 16 arr \<times> (cell + natural_cell)) option \<Rightarrow> (32 arr \<times> lane \<times> 16 arr) option
   \<Rightarrow> lease_store \<Rightarrow> bool" where
  "lanes_move q now st deposit removal st' \<longleftrightarrow>
     (map_of (ls_leases (cleanup_expired now st)) q \<noteq> None \<longrightarrow> map_of (ls_leases st') q \<noteq> None
        \<longrightarrow> (\<forall>ln. \<exists>out. lane_in (cleanup_expired now st) q ln @ at_lane q ln deposit = out @ lane_in st' q ln
                   \<and> map fst out = at_lane q ln removal))"

lemma at_lane_None [simp]: "at_lane q ln None = []"
  by (simp add: at_lane_def)

lemma lanes_same: "ls_queues st' = ls_queues (cleanup_expired now st) \<Longrightarrow> lanes_move q now st None None st'"
  by (simp add: lanes_move_def lane_in_def)

lemma put_lease_queues [simp]: "ls_queues (put_lease q l st) = ls_queues st"
  by (simp add: put_lease_def)

lemma lanes_append:
  assumes "map_of (qs_queues (ls_queues (cleanup_expired now st))) q0 = Some x"
    and "\<And>ln. lane_of ln x' = lane_of ln x @ (if ln = ln0 then [e] else [])"
  shows "lanes_move q now st (Some (q0, ln0, e)) None (put_lease q0 l (put_queue q0 x' b (cleanup_expired now st)))"
  using assms by (auto simp: lanes_move_def lane_put_queue lane_in_def [of "cleanup_expired now st"] at_lane_def)

lemma lanes_pop:
  assumes "map_of (qs_queues (ls_queues (cleanup_expired now st))) q0 = Some x"
    and "\<And>ln. lane_of ln x = (if ln = ln0 then [(n, m)] else []) @ lane_of ln x'"
  shows "lanes_move q now st None (Some (q0, ln0, n)) (put_queue q0 x' b (cleanup_expired now st))"
  using assms by (auto simp: lanes_move_def lane_put_queue lane_in_def [of "cleanup_expired now st"] at_lane_def)

lemma append_lane:
  "lane_of ln (x\<lparr>q_messages := q_messages x @ [m], q_bytes := b\<rparr>)
     = lane_of ln x @ (if ln = Gc1_Lane then [(qm_push_nonce m, Inl (qm_cell m))] else [])"
  by (cases ln) (auto simp: class_messages_def split: traffic_class.split)

lemma append_class_lane:
  "lane_of ln (set_class_messages cl (class_messages cl x @ [m]) (x\<lparr>q_bytes := b\<rparr>))
     = lane_of ln x @ (if ln = Gc2_Lane cl then [(nm_push_nonce m, Inr (nm_cell m))] else [])"
  by (cases ln; cases cl) (auto simp: class_messages_def set_class_messages_def split: traffic_class.split)

lemma pop_lane:
  "q_messages x = m # ms \<Longrightarrow>
   lane_of ln x = (if ln = Gc1_Lane then [(qm_push_nonce m, Inl (qm_cell m))] else []) @ lane_of ln (x\<lparr>q_messages := ms, q_bytes := b\<rparr>)"
  by (cases ln) (auto simp: class_messages_def split: traffic_class.split)

lemma pop_class_lane:
  "class_messages cl x = m # ms \<Longrightarrow>
   lane_of ln x = (if ln = Gc2_Lane cl then [(nm_push_nonce m, Inr (nm_cell m))] else [])
     @ lane_of ln ((set_class_messages cl ms x)\<lparr>q_bytes := b\<rparr>)"
  by (cases ln; cases cl) (auto simp: class_messages_def set_class_messages_def split: traffic_class.split)

lemma gc1_deposit_decoded:
  assumes "push_decode_from_cell hmac cap sid now c = Inr p" and "rp_msg p = Some msg"
  shows "gc1_deposit c = Some (rp_queue_id p, Gc1_Lane, rp_nonce p, Inl msg)"
  using assms by (auto simp: gc1_deposit_def push_decode_from_cell_def split: if_splits)

lemma gc2_deposit_decoded:
  assumes "unverified_authenticate hmac cap sid now u = Inr p" and "gp_msg p = Some msg"
  shows "gc2_deposit (up_cell u) = Some (gp_queue_id p, Gc2_Lane (gp_class p), gp_nonce p, Inr msg)"
  using assms by (auto simp: gc2_deposit_def unverified_authenticate_def gc2_push_decode_def gc2_authenticate_def)

lemma authenticate_push_lanes:
  assumes ok: "store_ok st"
  shows "lanes_move q now st (op_deposit hmac sha now (PushOp c) st) None (snd (authenticate_push hmac c now st))"
  using ok
proof (cases rule: authenticate_push_cases [where hmac = hmac and c = c and now = now])
  case (enqueued q0 l p msg)
  obtain x where x: "map_of (qs_queues (ls_queues (cleanup_expired now st))) q0 = Some x"
    by (rule lease_queue [OF cleanup_ok [OF ok] enqueued(1)])
  note d = gc1_deposit_decoded [OF enqueued(2,7)]
  from x show ?thesis
    by (cases rule: push_enqueue_cases [where p = p and msg = msg and l = l])
       (simp_all add: enqueued(3,8) d lanes_same lanes_append [OF x] append_lane)
qed (simp_all add: lanes_same)

lemma authenticate_push_gc2_lanes:
  assumes ok: "store_ok st"
  shows "lanes_move q now st (op_deposit hmac sha now (PushGc2Op u) st) None (snd (authenticate_push_gc2 hmac sha u now st))"
  using ok
proof (cases rule: authenticate_push_gc2_cases [where hmac = hmac and sha = sha and u = u and now = now])
  case (enqueued l p msg)
  obtain x where x: "map_of (qs_queues (ls_queues (cleanup_expired now st))) (up_queue_id u) = Some x"
    by (rule lease_queue [OF cleanup_ok [OF ok] enqueued(1)])
  note d = gc2_deposit_decoded [OF enqueued(2,7)]
  from x show ?thesis
    by (cases rule: push_enqueue_gc2_cases [where p = p and msg = msg and l = l and binding = "sha (natural_encode (up_cell u))"])
       (simp_all add: enqueued(3,8) d lanes_same lanes_append [OF x] append_class_lane)
qed (simp_all add: lanes_same)

lemma acknowledge_lanes: "lanes_move q now st None (op_removal now (AcknowledgeOp q0 n) st) (snd (acknowledge q0 n now st))"
proof (cases rule: acknowledge_cases [where q = q0 and n = n and now = now and st = st])
  case (removed x m ms)
  then show ?thesis using lanes_pop [OF removed(1) pop_lane [OF removed(2)]] by simp
qed (simp add: lanes_same)

lemma acknowledge_gc2_lanes:
  assumes "store_ok st"
  shows "lanes_move q now st None (op_removal now (AcknowledgeGc2Op h n) st) (snd (acknowledge_gc2 h n now st))"
  using assms
proof (cases rule: acknowledge_gc2_cases [where h = h and n = n and now = now and st = st])
  case (removed x m ms)
  then show ?thesis using lanes_pop [OF removed(2) pop_class_lane [OF removed(3)]] by simp
qed (simp add: lanes_same)

lemma store_renew_lanes:
  assumes "store_ok st"
  shows "lanes_move q now st None None (snd (store_renew hmac wire now st))"
  using assms by (cases rule: store_renew_cases [where hmac = hmac and wire = wire and now = now]) (simp_all add: lanes_same)

lemma store_rotate_lanes:
  assumes "store_ok st"
  shows "lanes_move q now st None None (snd (store_rotate hmac wire now st))"
  using assms by (cases rule: store_rotate_cases [where hmac = hmac and wire = wire and now = now]) (simp_all add: lanes_same)

lemma authenticate_sub_lanes:
  assumes "store_ok st"
  shows "lanes_move q now st None None (snd (authenticate_sub hmac c now st))"
  using assms by (cases rule: authenticate_sub_cases [where hmac = hmac and c = c and now = now]) (simp_all add: lanes_same)

lemma authenticate_sub_gc2_lanes:
  assumes "store_ok st"
  shows "lanes_move q now st None None (snd (authenticate_sub_gc2 hmac c now st))"
  using assms by (cases rule: authenticate_sub_gc2_cases [where hmac = hmac and c = c and now = now]) (simp_all add: lanes_same)

lemma store_revoke_lanes:
  assumes "store_ok st"
  shows "lanes_move q now st None None (snd (store_revoke hmac wire now st))"
  using assms
proof (cases rule: store_revoke_cases [where hmac = hmac and wire = wire and now = now])
  case (revoked q0 l v policy)
  then show ?thesis by (cases "q = q0") (auto simp: lanes_move_def remove_lease_def lane_in_def qs_remove_def delete_conv' split: option.splits)
qed (simp add: lanes_same)

lemma create_lease_lanes:
  assumes "store_ok st"
  shows "lanes_move q now st None None (snd (create_lease hmac sha gen wire now st))"
  using assms
proof (cases rule: create_lease_cases [where hmac = hmac and sha = sha and gen = gen and wire = wire and now = now])
  case (created v g ag gp lp)
  then show ?thesis by (cases "q = lc_queue_id v") (auto simp: lanes_move_def created_store_def lane_in_def map_add_def split: option.splits)
qed (simp_all add: lanes_same)

lemma issue_grant_lanes:
  assumes "store_ok st" and "issue_grant_with_bound hmac fill request now temporary h st = Some (r, st', h')"
  shows "ls_queues st' = ls_queues (cleanup_expired now st)"
  using assms by (cases rule: issue_grant_with_bound_cases) simp_all

lemma lane_cleanup:
  assumes "store_ok st" and "map_of (ls_leases (cleanup_expired now st)) q \<noteq> None"
  shows "lane_in (cleanup_expired now st) q ln = lane_in st q ln"
  using assms(2) by (auto simp: lane_in_def cleanup_lookup [OF assms(1)] split: option.splits if_splits)

lemma lanes_idle: "store_ok st \<Longrightarrow> lanes_move q now st None None st"
  by (simp add: lanes_move_def lane_cleanup)

lemma dynamic_grant_lanes:
  assumes ok: "store_ok st" and r: "issue_dynamic_grant hmac fill wire now h st = Some (r, st', h')"
  shows "lanes_move q now st None None st'"
  using assms
proof (cases rule: issue_dynamic_grant_cases)
  case (recorded q0 l v l' policy)
  let ?s = "put_lease q0 (l'\<lparr>lr_dynamic_grants := filter (\<lambda>issued. now < sat_add issued 60) (lr_dynamic_grants l) @ [now]\<rparr>) (cleanup_expired now st)"
  note s = dynamic_recorded_ok [OF ok recorded(1,6,4,5)]
  have q: "ls_queues st' = ls_queues (cleanup_expired now ?s)" "ls_leases st' = ls_leases (cleanup_expired now ?s)"
    using issue_grant_lanes [OF s recorded(7) [unfolded issue_grant_def]] issue_grant_evolves [OF s recorded(7) [unfolded issue_grant_def]]
    by simp_all
  have "lane_in st' q ln = lane_in (cleanup_expired now st) q ln" if "map_of (ls_leases st') q \<noteq> None" for ln
    using lane_cleanup [OF s that [unfolded q]] q(1) by (simp add: lane_in_def)
  then show ?thesis by (simp add: lanes_move_def)
qed (simp_all add: lanes_same)

lemma op_step_lanes:
  assumes step: "op_step hmac sha fill now op st = Some st'" and ok: "store_ok st"
  shows "lanes_move q now st (op_deposit hmac sha now op st) (op_removal now op st) st'"
proof (cases op)
  case (IssueOp request h)
  then show ?thesis using step by (auto simp: issue_grant_def intro: lanes_same issue_grant_lanes [OF ok])
next
  case (IssueTemporaryOp request expires_at h)
  then show ?thesis using step ok
    by (auto simp: issue_temporary_grant_def split: if_splits intro: lanes_same lanes_idle issue_grant_lanes)
next
  case (IssueDynamicOp wire h)
  then show ?thesis using step by (auto intro: dynamic_grant_lanes [OF ok])
next
  case (PushOp c)
  then show ?thesis using step authenticate_push_lanes [OF ok, of q now hmac sha c] by simp
next
  case (PushGc2Op u)
  then show ?thesis using step authenticate_push_gc2_lanes [OF ok, of q now hmac sha u] by simp
next
  case (AcknowledgeOp q0 n)
  then show ?thesis using step acknowledge_lanes [of q now st q0 n] by simp
next
  case (AcknowledgeGc2Op h n)
  then show ?thesis using step acknowledge_gc2_lanes [OF ok, of q now h n] by simp
qed (use step in \<open>auto intro: lanes_same create_lease_lanes [OF ok] store_renew_lanes [OF ok] store_rotate_lanes [OF ok]
       store_revoke_lanes [OF ok] authenticate_sub_lanes [OF ok] authenticate_sub_gc2_lanes [OF ok]\<close>)

lemma lane_log_ok: "lane_log hmac sha fill q ln s0 s added removed \<Longrightarrow> store_ok s0 \<Longrightarrow> store_ok s"
  by (induction rule: lane_log.induct) (auto intro: store_step_ok op_step_store_step)

section \<open>What every run keeps\<close>

lemma demo_reach: "store_reach demo_hmac demo_sha demo_fill demo_store2" "store_reach demo_hmac demo_sha demo_fill demo_store3"
proof -
  show r: "store_reach demo_hmac demo_sha demo_fill demo_store2"
    using store_reach.step [OF store_reach.step [OF store_reach.new [OF demo_new] store_step.issue [OF demo_issue]] store_step.create] demo_created
    by metis
  show "store_reach demo_hmac demo_sha demo_fill demo_store3"
    using store_reach.step [OF r store_step.push [of _ _ _ 100 _ demo_cell]] by (simp add: demo_push)
qed

lemma demo_run:
  "kept_run demo_hmac demo_sha demo_fill (arr_fill 4) 100 demo_store3 150 (snd (acknowledge (arr_fill 4) (arr_fill 11) 150 demo_store3))"
  by (rule kept_run.step [OF kept_run.stay _ store_step.acknowledge]) (simp_all add: demo_live3 demo_acknowledge demo_store3_parts)

lemma total_message_bytes:
  assumes ok: "store_ok st"
  shows "unat (qs_total_bytes (ls_queues st)) = sum_list (map (message_bytes \<circ> snd) (qs_queues (ls_queues st)))"
proof -
  have "unat (q_bytes x) = message_bytes x" if m: "(q, x) \<in> set (qs_queues (ls_queues st))" for q x
  proof -
    have x: "map_of (qs_queues (ls_queues st)) q = Some x" using store_okD(7) [OF ok] m by simp
    then obtain l where "map_of (ls_leases st) q = Some l" using store_okD(3) [OF ok, of q] by auto
    then show ?thesis using store_okD(4) [OF ok _ x] by (simp add: queue_ok_def)
  qed
  then have "map ((unat \<circ> q_bytes) \<circ> snd) (qs_queues (ls_queues st)) = map (message_bytes \<circ> snd) (qs_queues (ls_queues st))"
    by (intro map_cong) auto
  then show ?thesis unfolding store_okD(5) [OF ok] by (rule arg_cong)
qed

text \<open>C7 (invariant): In every store that operations can reach, the configured bounds hold: at most \<open>max_grants\<close> grants and
  \<open>max_queues\<close> queues, one queue for each lease and no other, in each queue no more cells and bytes than its lease allows, with the
  byte counters equal to the sizes of the stored cells, the total within \<open>max_total_queue_bytes\<close>, and for each lease a bounded replay
  history without duplicates.\<close>

theorem reachable_store_bounded:
  assumes "store_reach hmac sha fill st"
  shows "length (ls_grants st) \<le> sc_max_grants (ls_config st)
    \<and> length (qs_queues (ls_queues st)) \<le> sc_max_queues (ls_config st)
    \<and> (\<forall>q. map_of (qs_queues (ls_queues st)) q = None \<longleftrightarrow> map_of (ls_leases st) q = None)
    \<and> unat (qs_total_bytes (ls_queues st)) = sum_list (map (message_bytes \<circ> snd) (qs_queues (ls_queues st)))
    \<and> qs_total_bytes (ls_queues st) \<le> sc_max_total_queue_bytes (ls_config st)
    \<and> (\<forall>q l x. map_of (ls_leases st) q = Some l \<and> map_of (qs_queues (ls_queues st)) q = Some x
           \<longrightarrow> unat (q_bytes x) = message_bytes x \<and> q_bytes x \<le> ll_max_queue_bytes (lr_limits l)
             \<and> queue_len_of x \<le> unat (ll_max_queue_cells (lr_limits l))
             \<and> distinct (map replay_key (lr_replay l)) \<and> (\<forall>op. replay_count l op \<le> replay_bound (ls_config st) op))"
proof (intro conjI)
  note ok = store_reach_ok [OF assms]
  show "length (ls_grants st) \<le> sc_max_grants (ls_config st)" "length (qs_queues (ls_queues st)) \<le> sc_max_queues (ls_config st)"
    "qs_total_bytes (ls_queues st) \<le> sc_max_total_queue_bytes (ls_config st)"
    "\<forall>q. map_of (qs_queues (ls_queues st)) q = None \<longleftrightarrow> map_of (ls_leases st) q = None"
    using ok by (simp_all add: store_ok_def Let_def)
  show "unat (qs_total_bytes (ls_queues st)) = sum_list (map (message_bytes \<circ> snd) (qs_queues (ls_queues st)))"
    using ok by (rule total_message_bytes)
  show "\<forall>q l x. map_of (ls_leases st) q = Some l \<and> map_of (qs_queues (ls_queues st)) q = Some x
           \<longrightarrow> unat (q_bytes x) = message_bytes x \<and> q_bytes x \<le> ll_max_queue_bytes (lr_limits l)
             \<and> queue_len_of x \<le> unat (ll_max_queue_cells (lr_limits l))
             \<and> distinct (map replay_key (lr_replay l)) \<and> (\<forall>op. replay_count l op \<le> replay_bound (ls_config st) op)"
    using store_okD(2) [OF ok, unfolded lease_ok_def] store_okD(4) [OF ok, unfolded queue_ok_def] by blast
qed

theorem reachable_store_bounded_witness:
  "qs_total_bytes (ls_queues demo_store3) \<le> 65536 \<and> unat (q_bytes demo_queue3) = message_bytes demo_queue3"
proof -
  have "map_of (ls_leases demo_store3) (arr_fill 4) = Some demo_lease3" "map_of (qs_queues (ls_queues demo_store3)) (arr_fill 4) = Some demo_queue3"
    "sc_max_total_queue_bytes (ls_config demo_store3) = 65536" by (simp_all add: demo_store3_parts demo_config_def)
  with reachable_store_bounded [OF demo_reach(2)] show ?thesis by metis
qed

lemma demo_log:
  "lane_log demo_hmac demo_sha demo_fill (arr_fill 4) Gc1_Lane demo_store2
     (snd (acknowledge (arr_fill 4) (arr_fill 11) 150 demo_store3)) [(arr_fill 11, Inl demo_msg)] [arr_fill 11]"
proof -
  have "push_decode_from_cell demo_hmac (arr_fill 5) (arr_fill 1) 100 demo_cell = Inr demo_deposit" by (rule demo_cell_accepted) simp
  then have "gc1_deposit demo_cell = Some (rp_queue_id demo_deposit, Gc1_Lane, rp_nonce demo_deposit, Inl demo_msg)"
    by (rule gc1_deposit_decoded) (simp add: demo_deposit_def)
  then have d: "gc1_deposit demo_cell = Some (arr_fill 4, Gc1_Lane, arr_fill 11, Inl demo_msg)" by (simp add: demo_deposit_def)
  have "lane_log demo_hmac demo_sha demo_fill (arr_fill 4) Gc1_Lane demo_store2 demo_store3 [(arr_fill 11, Inl demo_msg)] []"
    using lane_log.step [OF lane_log.start [of demo_hmac demo_sha demo_fill "arr_fill 4" Gc1_Lane demo_store2],
        where op = "PushOp demo_cell" and now = 100 and s' = demo_store3]
    by (simp add: demo_push d at_lane_def demo_live demo_store2_parts demo_store3_parts)
  from lane_log.step [OF this, where op = "AcknowledgeOp (arr_fill 4) (arr_fill 11)" and now = 150] show ?thesis
    by (simp add: demo_acknowledge at_lane_def demo_live3 demo_store3_parts)
qed

text \<open>C8 (refinement): Each lane of a queue is first-in first-out, as its callers see it. Over any operations during which the
  lease lives, the deposits that were answered as queued in the lane, appended in that order to what it held, are the messages that
  were acknowledged as removed, in the order of those acknowledgements, followed by what the lane holds now. Nothing else is added or
  removed, and nothing is reordered, duplicated or lost.\<close>

theorem lanes_are_fifo:
  assumes "store_reach hmac sha fill st" and "lane_log hmac sha fill q ln st st' added removed"
  shows "\<exists>out. lane_in st q ln @ added = out @ lane_in st' q ln \<and> map fst out = removed"
  using assms(2)
proof (induction rule: lane_log.induct)
  case (step s added removed now op s')
  have oks: "store_ok s" using lane_log_ok [OF step.hyps(1) store_reach_ok [OF assms(1)]] .
  obtain out where out: "lane_in st q ln @ added = out @ lane_in s q ln" "map fst out = removed" using step.IH by blast
  obtain out' where "lane_in s q ln @ at_lane q ln (op_deposit hmac sha now op s) = out' @ lane_in s' q ln"
    "map fst out' = at_lane q ln (op_removal now op s)"
    using op_step_lanes [OF step.hyps(2) oks, of q] step.hyps(3,4) lane_cleanup [OF oks step.hyps(3)] by (auto simp: lanes_move_def)
  with out show ?case by (intro exI [of _ "out @ out'"]) (metis append_assoc map_append)
qed simp

theorem lanes_are_fifo_witness:
  "lane_in demo_store2 (arr_fill 4) Gc1_Lane @ [(arr_fill 11, Inl demo_msg)]
     = [(arr_fill 11, Inl demo_msg)] @ lane_in (snd (acknowledge (arr_fill 4) (arr_fill 11) 150 demo_store3)) (arr_fill 4) Gc1_Lane"
proof -
  have "lane_in demo_store2 (arr_fill 4) Gc1_Lane = []" by (simp add: lane_in_def demo_store2_parts)
  with lanes_are_fifo [OF demo_reach(1) demo_log] show ?thesis by (auto simp: append_eq_Cons_conv)
qed

text \<open>C5 (safety): A deposit is accepted once. When the store has accepted a relay push, by queueing its message or by counting it
  as cover, then after any sequence of operations in which the lease of its queue lives on, at any times that do not decrease, the same
  cell is not accepted again: renewals keep the replay history, a rotation makes the epoch of the cell stale, and a record is forgotten
  only when the cell has expired.\<close>

theorem deposit_accepted_once:
  assumes "store_reach hmac sha fill st" and "authenticate_push hmac c t st = (Inr r, st')" and "r \<noteq> Duplicate"
    and "map_option pp_queue_id (nested_parts c) = Some q" and "kept_run hmac sha fill q t st' t' s" and "t' \<le> now"
  shows "fst (authenticate_push hmac c now s) \<noteq> Inr Enqueued \<and> fst (authenticate_push hmac c now s) \<noteq> Inr Cover"
proof (rule ccontr)
  note ok = store_reach_ok [OF assms(1)]
  assume "\<not> ?thesis"
  then obtain r' s' where again: "authenticate_push hmac c now s = (Inr r', s')" "r' \<noteq> Duplicate"
    by (cases "authenticate_push hmac c now s") auto
  have ok': "store_ok st'" using authenticate_push_ok [OF ok, of hmac c t] assms(2) by simp
  obtain l :: lease_record and p where p: "push_decode_from_cell hmac (cap_push (lr_capabilities l)) (ls_relay_service_id st) t c = Inr p"
    "push_recorded (rp_queue_id p) (rp_epoch p) (rp_nonce p) (rp_expiry p) st'"
    using push_accepted [OF ok assms(2,3)] by metis
  have q: "rp_queue_id p = q" using p(1) assms(4)
    by (auto simp: nested_parts_def push_decode_parts push_decode_from_cell_def push_of_def split: sum.splits)
  obtain l2 p2 where p2: "map_of (ls_leases (cleanup_expired now s)) (rp_queue_id p2) = Some l2"
    "push_decode_from_cell hmac (cap_push (lr_capabilities l2)) (ls_relay_service_id s) now c = Inr p2"
    "rp_epoch p2 = lr_epoch l2" "\<not> has_replay l2 (rp_epoch p2) OpPush (rp_nonce p2)"
    using push_accepted [OF kept_run_ok [OF assms(5) ok'] again] by metis
  note u = push_decode_unique [OF p(1) p2(2)]
  have "rp_expiry p \<le> now"
    using no_second_acceptance [OF ok' p(2) assms(5) [folded q] assms(6)] p2 u by metis
  with u show False by simp
qed

theorem deposit_accepted_once_witness:
  "fst (authenticate_push demo_hmac demo_cell 100 demo_store2) = Inr Enqueued
   \<and> fst (authenticate_push demo_hmac demo_cell 200 (snd (acknowledge (arr_fill 4) (arr_fill 11) 150 demo_store3))) \<noteq> Inr Enqueued"
  using deposit_accepted_once [OF demo_reach(1) demo_push _ demo_cell_queue demo_run, of 200] demo_push by simp

text \<open>C6 (safety): The same for a GC/2 deposit: once the store has accepted it, the authenticated envelope is
  not accepted again after any operations, at times that do not decrease, during which the lease of
  its queue lives.\<close>

theorem gc2_deposit_accepted_once:
  assumes "store_reach hmac sha fill st" and "unverified_parse c = Inr u" and "authenticate_push_gc2 hmac sha u t st = (Inr r, st')"
    and "r \<noteq> Duplicate" and "kept_run hmac sha fill (up_queue_id u) t st' t' s" and "t' \<le> now"
  shows "fst (authenticate_push_gc2 hmac sha u now s) \<noteq> Inr Enqueued \<and> fst (authenticate_push_gc2 hmac sha u now s) \<noteq> Inr Cover"
proof (rule ccontr)
  note ok = store_reach_ok [OF assms(1)]
  assume "\<not> ?thesis"
  then obtain r' s' where again: "authenticate_push_gc2 hmac sha u now s = (Inr r', s')" "r' \<noteq> Duplicate"
    by (cases "authenticate_push_gc2 hmac sha u now s") auto
  have ok': "store_ok st'" using authenticate_push_gc2_ok [OF ok, of hmac sha u t] assms(3) by simp
  obtain l :: lease_record and p where p: "gc2_push_decode hmac (cap_push (lr_capabilities l)) (ls_relay_service_id st) t (up_cell u) = Inr p"
    "push_recorded (gp_queue_id p) (gp_epoch p) (gp_nonce p) (gp_expiry p) st'"
    using push_gc2_accepted [OF ok assms(3,4)] by metis
  have q: "gp_queue_id p = up_queue_id u" using p(1) assms(2)
    by (auto simp: unverified_parse_def gc2_push_decode_def gc2_authenticate_def)
  obtain l2 p2 where p2: "map_of (ls_leases (cleanup_expired now s)) (gp_queue_id p2) = Some l2"
    "gc2_push_decode hmac (cap_push (lr_capabilities l2)) (ls_relay_service_id s) now (up_cell u) = Inr p2"
    "gp_epoch p2 = lr_epoch l2" "\<not> has_replay l2 (gp_epoch p2) OpPush (gp_nonce p2)"
    using push_gc2_accepted [OF kept_run_ok [OF assms(5) ok'] again] by metis
  note u = gc2_push_decode_unique [OF p(1) p2(2)]
  have "gp_expiry p \<le> now"
    using no_second_acceptance [OF ok' p(2) assms(5) [folded q] assms(6)] p2 u by metis
  with u show False by simp
qed

theorem gc2_deposit_accepted_once_witness:
  "fst (authenticate_push_gc2 demo_hmac demo_sha demo_gc2_unverified 100 demo_store2) = Inr Cover
   \<and> fst (authenticate_push_gc2 demo_hmac demo_sha demo_gc2_unverified 200
        (snd (authenticate_push_gc2 demo_hmac demo_sha demo_gc2_unverified 100 demo_store2))) \<noteq> Inr Cover"
proof -
  let ?r = "authenticate_push_gc2 demo_hmac demo_sha demo_gc2_unverified 100 demo_store2"
  have "?r = (Inr Cover, snd ?r)" using demo_gc2_push by (metis prod.collapse)
  from gc2_deposit_accepted_once [OF demo_reach(1) demo_unverified this _ kept_run.stay, of 200] demo_gc2_push show ?thesis by simp
qed

section \<open>No violated expectation\<close>

lemma map_err_eq_Inl: "map_err f r = Inl e \<longleftrightarrow> (\<exists>x. r = Inl x \<and> e = f x)"
  by (cases r) auto

lemma operation_lease_no_panic: "operation_lease wire now h st \<noteq> Inl StPanic"
  by (auto simp: operation_lease_def short_queue_id_def store_policy_def rbind_eq_Inl reject_eq_Inl map_err_eq_Inl)

lemmas panic_simps = rbind_eq_Inl reject_eq_Inl map_err_eq_Inl require_binding_def record_replay_def record_gc2_push_def natural_cell_len_checked_def

lemma store_rotate_no_panic:
  assumes ok: "store_ok st"
  shows "fst (store_rotate hmac wire now st) \<noteq> Inl StPanic"
  using operation_lease_no_panic [of wire now]
  by (auto simp: store_okD(3) [OF cleanup_ok [OF ok]] store_rotate_def Let_def operation_lease_Inr panic_simps put_lease_def split: sum.splits if_splits)

lemma authenticate_push_no_panic:
  assumes ok: "store_ok st" and c: "nested_parts c \<noteq> None"
  shows "fst (authenticate_push hmac c now st) \<noteq> Inl StPanic"
  using c by (auto simp: store_okD(3) [OF cleanup_ok [OF ok]] authenticate_push_def push_enqueue_def Let_def panic_simps put_lease_def put_queue_def split: sum.splits if_splits option.splits)

lemma authenticate_push_gc2_no_panic:
  assumes ok: "store_ok st"
  shows "fst (authenticate_push_gc2 hmac sha u now st) \<noteq> Inl StPanic"
  by (auto simp: store_okD(3) [OF cleanup_ok [OF ok]] authenticate_push_gc2_def push_enqueue_gc2_def Let_def panic_simps split: sum.splits if_splits option.splits)

lemma authenticate_sub_gc2_no_panic:
  assumes ok: "store_ok st"
  shows "fst (authenticate_sub_gc2 hmac c now st) \<noteq> Inl StPanic"
  by (auto simp: store_okD(3) [OF cleanup_ok [OF ok]] authenticate_sub_gc2_def Let_def panic_simps put_lease_def split: sum.splits if_splits option.splits)

lemma acknowledge_gc2_no_panic:
  assumes ok: "store_ok st"
  shows "fst (acknowledge_gc2 h n now st) \<noteq> Inl StPanic"
  using ok by (cases rule: acknowledge_gc2_cases [where h = h and n = n and now = now]) simp_all

lemma peek_gc2_no_panic:
  assumes ok: "store_ok st"
  shows "fst (peek_gc2 h now st) \<noteq> Inl StPanic"
  by (auto simp: store_okD(3) [OF cleanup_ok [OF ok]] peek_gc2_def validate_gc2_subscription_def Let_def panic_simps split: option.splits list.splits)

text \<open>C38 (error): In a reachable store no expectation of the code is violated: no operation finds a lease without its queue or subtracts
  more bytes than are accounted for, whatever its input.\<close>

theorem store_never_panics:
  assumes "store_reach hmac sha fill st"
  shows "fst (store_rotate hmac wire now st) \<noteq> Inl StPanic
    \<and> (nested_parts c \<noteq> None \<longrightarrow> fst (authenticate_push hmac c now st) \<noteq> Inl StPanic)
    \<and> fst (authenticate_push_gc2 hmac sha u now st) \<noteq> Inl StPanic
    \<and> fst (authenticate_sub_gc2 hmac nc now st) \<noteq> Inl StPanic
    \<and> fst (peek_gc2 h now st) \<noteq> Inl StPanic
    \<and> fst (acknowledge_gc2 h n now st) \<noteq> Inl StPanic"
  using store_reach_ok [OF assms]
  by (intro conjI impI store_rotate_no_panic authenticate_push_no_panic authenticate_push_gc2_no_panic authenticate_sub_gc2_no_panic
      peek_gc2_no_panic acknowledge_gc2_no_panic)

theorem store_never_panics_witness:
  "fst (authenticate_push demo_hmac demo_cell 200 demo_store3) \<noteq> Inl StPanic"
  using store_never_panics [OF demo_reach(2), of "[]" 200 demo_cell] demo_cell_queue by auto

end
