(* ===== verification/Spec2Isabelle.thy ===== *)
theory Spec2Isabelle
  imports Fragments Gossip Gc2_Archive Store_Safety
begin

text \<open>
  Verification of gcoms, an end-to-end encrypted messaging system written in Rust
  (\<open>src/crates\<close>). A node exchanges fixed-size cells with relays; inside the cells travel
  ratchet messages between peers, whose sessions are opened by a hybrid (X25519 and ML-KEM-768)
  handshake, advance by a double ratchet, and are throttled by a credit window so that a receiver
  never has to retain more than 64 message keys. Peers that gossip keep a duplicate filter and a
  bounded view of other peers.

  \<^bold>\<open>Conventions.\<close> A struct is a \<open>record\<close>, an enum a \<open>datatype\<close>, \<open>Result<A, E>\<close> the sum
  \<open>E + A\<close> with \<open>rbind\<close>, \<open>reject\<close> (a guard with an early return) and \<open>ok_or\<close>; \<open>u8\<close> to \<open>u64\<close> are
  words of that width, \<open>usize\<close> is a natural number (lengths are bounded by the checks of the code; a
  product or difference of configured sizes is checked for overflow), \<open>f64\<close> a finite value, an
  infinity or not a number, \<open>[u8; N]\<close> is the type \<open>N arr\<close> of byte lists of that length, a \<open>BTreeMap\<close> an association
  list in key order. \<open>&mut self\<close> methods return the new state, with the result where there is one;
  a panic of the code is an error value or \<open>None\<close>, and so is an overflow that panics in a build with
  overflow checks (elsewhere it would wrap; without an overflow both builds agree). A long function of the code may be several
  definitions, of which the manifest lists at least the one that composes them. Clocks and durations of the ratchet are
  numbers of nanoseconds. Code outside \<open>src\<close> is a parameter: hashing, key derivation and
  authenticated encryption are a \<open>crypto_ops\<close>, key agreement, encapsulation, signatures and
  generators a \<open>ratchet_ops\<close>, the shuffling generator of the gossip view an \<open>rng_ops\<close>. What is
  assumed of them is written as \<open>aead_ok\<close> (a sealed message below 16 MiB opens again and only
  the sealing of a message opens to it), \<open>dh_ok\<close> (key agreement commutes), \<open>kem_ok\<close>
  (decapsulation inverts encapsulation, with the standard lengths), \<open>signature_ok\<close> (an own
  signature verifies); a concrete instance satisfies each.

  \<^bold>\<open>Theories, in the order of their use.\<close>
  \<^item> \<open>Gc_Prelude\<close>: byte strings, arrays, big-endian words, ranges of a buffer, results, ordered maps,
    and the locales \<open>invariant_machine\<close> (an invariant kept by every operation holds after every
    sequence of operations, which all return), \<open>metered_machine\<close> (the same below the bound of a counter
    of machine width) and \<open>canonical_codec\<close> (encoder and decoder are inverse to each other); each is interpreted on the components below.
  \<^item> \<open>Cells\<close> (\<open>core/src/cell.rs\<close>, \<open>gc2.rs\<close>, \<open>hop.rs\<close>, \<open>traffic.rs\<close>): padded GC/1 cells,
    natural GC/2 cells, hop status. Decoders accept exactly what encoders produce.
  \<^item> \<open>Fragments\<close> (\<open>core/src/fragment.rs\<close>): the bounded reassembly table; correctness of \<open>push\<close> on
    every branch, reassembly of interleaved messages, and the input on which it does not return.
  \<^item> \<open>Gossip\<close> (\<open>gossip/src\<close>): duplicate filter, view, peer exchange, overlay; when the filter's
    clock or capacity overflows, invariants over any sequence of operations that does not exhaust the
    clock, bounds on what one peer can put into the view.
  \<^item> \<open>Crypto_Ops\<close>, \<open>Ratchet_Ops\<close>: the cryptographic parameters and their laws.
  \<^item> \<open>Coverage\<close>, \<open>Flow_Window\<close>, \<open>Flow_Storage\<close> (\<open>protocol/src/flow.rs\<close>, \<open>flow/storage.rs\<close>): the
    64-bit coverage of received counters as a refinement of finite sets, flow records, the credit
    window with its invariant, encrypted credits, and the private archive of a window.
  \<^item> \<open>Credit_Link\<close>: a sending and a receiving window and a network that loses, repeats and reorders;
    credit is never given for what was not received, and one credit synchronises the sender.
  \<^item> \<open>Ratchet_Wire\<close>, \<open>Identity\<close>, \<open>Ratchet\<close> (\<open>crypto/src/session.rs\<close>, \<open>identity.rs\<close>, \<open>bundle.rs\<close>):
    wire formats, identity keys, safety numbers, prekey bundles, handshake, sending and receiving.
  \<^item> \<open>Ratchet_Safety\<close>, \<open>Ratchet_Link\<close>, \<open>Ratchet_Handshake\<close>: no counter is accepted twice, refusals
    change nothing, and two sessions after a handshake, over such a network, with restarts and
    changes of key and policy: every frame within the window decrypts to what was sent.
  \<^item> \<open>Ratchet_Storage\<close> (\<open>crypto/src/session.rs\<close>, \<open>session/storage.rs\<close>): the private and the sealed
    archive, whose round trip is again a reachable state, and prepare/commit transactions with the
    flaw in their freshness check.
  \<^item> \<open>Gc2_Packets\<close> (\<open>protocol/src/gc2_session.rs\<close>): the strict GC/2 envelopes.
  \<^item> \<open>Credited_Session\<close>, \<open>Credited_Safety\<close> (\<open>protocol/src/flow/session.rs\<close>): ratchet and window as one
    object; exactly-once delivery over every interleaving of prepared and committed transactions.
  \<^item> \<open>Readers\<close>: cursor readers over a buffer and the locale \<open>prefix_codec\<close> (what a reader accepts is
    the encoding followed by the rest), interpreted on length-prefixed fields and contacts.
  \<^item> \<open>Relay_Cells\<close> (\<open>protocol/src/relay.rs\<close>): deposits, subscriptions, forwards, their tags and the
    target policy; the codecs are canonical.
  \<^item> \<open>Leases\<close> (\<open>core/src/lease.rs\<close>): admission grants and the create, renew, rotate and revoke
    operations; canonical codecs, what an accepted lease retains, what a rotation replaces.
  \<^item> \<open>Node_Info\<close> (\<open>protocol/src/proto.rs\<close>, \<open>alias.rs\<close>): public and private node cards, forwarding
    grants, payload kinds.
  \<^item> \<open>Gc2_Handshake\<close> (\<open>protocol/src/gc2_session/handshake.rs\<close>): the peer handshake, which succeeds
    between honest nodes and joins two linked credited sessions, and what its acceptance proves.
  \<^item> \<open>Credited_Link\<close>: two joined sessions with their network: the credit window keeps every gap within
    the keys the ratchet retains, so every sent frame that is still of use is delivered exactly once
    and credited, and a side with room in its window can send.
  \<^item> \<open>Gc2_Archive\<close> (\<open>protocol/src/gc2_session/storage.rs\<close>): the sealed archive of ratchet and window;
    sealing and opening is a restart of the link, and what opens is authentic and consistent.
  \<^item> \<open>Relay_Gc2\<close> (\<open>protocol/src/relay/gc2.rs\<close>): GC/2 deposits, subscriptions and forwards; canonical
    codecs, and a tag that covers the whole envelope.
  \<^item> \<open>Lease_Store\<close> (\<open>node/src/queues.rs\<close>, \<open>queues/gc2.rs\<close>): the relay's store of grants, leases and
    queues, every operation with its clean-up of expired entries.
  \<^item> \<open>Store_Invariant\<close>, \<open>Store_Demo\<close>, \<open>Store_Safety\<close>: the branches of each operation, the invariant of
    the store, an example run; over any sequence of operations the bounds and byte accounts hold, a
    deposit is accepted once, every lane of a queue gives out the accepted deposits in their order,
    exactly as they are acknowledged, and no expectation of the code is violated.

  \<^bold>\<open>Fuel and bounds.\<close> Two loops of the modelled code may not end, and each is a \<open>partial_function\<close>:
  the eviction loop of the fragment table, shown to return on every usable table and not to return
  on the derived default one, and the loop of the lease store that draws from the generator until
  the value is acceptable (\<open>draw\<close>), shown to return once the generator delivers such a value. All
  other recursion is structural or has a measure.

  \<^bold>\<open>Not modelled.\<close> Zeroisation, \<open>Display\<close> texts, wrappers that only read the system clock or
  generator, push notifications and wake-ups of waiting relay subscribers; and the parts listed as
  such in the manifest: network and TLS transport, the node's event loop, its scheduler and its
  persistence, the software development kits and command lines.
\<close>

end
